(* ===== verification/Prelude.thy ===== *)
theory Prelude
  imports Main "HOL-Library.Word" "HOL-Library.Sublist"
begin

text \<open>
  Shared vocabulary of the development: the exceptions the C++ code throws as a sum type with a
  bind, the character classes of \<^verbatim>\<open><cctype>\<close> in the C locale, the searching members of
  \<^verbatim>\<open>std::string_view\<close> (\<open>find\<close>, \<open>find_first_of\<close>, \<open>find_last_not_of\<close>, \<open>rfind\<close>, \<open>substr\<close>)
  with \<^verbatim>\<open>npos\<close> as \<open>None\<close>, decimal printing and reading of numbers, and the list lemmas that the
  component theories share. A C++ \<^verbatim>\<open>char\<close> is a HOL \<open>char\<close> (one byte) and a string is a list of
  them.
\<close>

named_theorems ctype_simps \<open>definitions of the character classes\<close>
named_theorems search_simps \<open>equations of the string searching functions\<close>

section \<open>Exceptions\<close>

text \<open>
  The standard exceptions the modelled code throws. \<open>Undefined\<close> marks the places where the C++
  program has undefined behaviour (an out-of-range read): the model makes it a value, so that a
  theorem can say that it does not happen, or that it does.
\<close>

datatype cpp_error =
    Runtime_error string
  | Invalid_argument string
  | Out_of_range string
  | Logic_error string
  | Bad_alloc
  | Argument_error string
  | Undefined string

type_synonym 'a result = "cpp_error + 'a"

definition rbind :: "'a result \<Rightarrow> ('a \<Rightarrow> 'b result) \<Rightarrow> 'b result" where
  "rbind m f = (case m of Inl e \<Rightarrow> Inl e | Inr x \<Rightarrow> f x)"

lemma rbind_simps [simp]:
  "rbind (Inl e) f = Inl e"
  "rbind (Inr x) f = f x"
  by (simp_all add: rbind_def)

lemma rbind_eq_Inr [simp]: "rbind m f = Inr y \<longleftrightarrow> (\<exists>x. m = Inr x \<and> f x = Inr y)"
  by (cases m) auto

lemma rbind_assoc: "rbind (rbind m f) g = rbind m (\<lambda>x. rbind (f x) g)"
  by (cases m) simp_all

lemma rbind_Inr: "rbind m Inr = m"
  by (cases m) simp_all

text \<open>Subtraction of \<^verbatim>\<open>size_t\<close> values.\<close>

definition size_sub :: "nat \<Rightarrow> nat \<Rightarrow> nat" where
  "size_sub a b = (if b \<le> a then a - b else 2 ^ 64 - (b - a))"

text \<open>An operation that may fail, on each element of a list in turn.\<close>

fun rfold :: "('a \<Rightarrow> 's \<Rightarrow> 's result) \<Rightarrow> 'a list \<Rightarrow> 's \<Rightarrow> 's result" where
  "rfold f [] s = Inr s"
| "rfold f (x # xs) s = rbind (f x s) (rfold f xs)"

lemma rbind_cong [fundef_cong]:
  "m = m' \<Longrightarrow> (\<And>x. m' = Inr x \<Longrightarrow> f x = g x) \<Longrightarrow> rbind m f = rbind m' g"
  by (cases m') auto

fun is_ok :: "'a result \<Rightarrow> bool" where
  "is_ok (Inr _) = True"
| "is_ok (Inl _) = False"

section \<open>Character classes\<close>

abbreviation ord :: "char \<Rightarrow> nat" where
  "ord c \<equiv> of_char c"

definition isdigit :: "char \<Rightarrow> bool" where
  [ctype_simps]: "isdigit c \<longleftrightarrow> 48 \<le> ord c \<and> ord c \<le> 57"

definition isupper :: "char \<Rightarrow> bool" where
  [ctype_simps]: "isupper c \<longleftrightarrow> 65 \<le> ord c \<and> ord c \<le> 90"

definition islower :: "char \<Rightarrow> bool" where
  [ctype_simps]: "islower c \<longleftrightarrow> 97 \<le> ord c \<and> ord c \<le> 122"

definition isalpha :: "char \<Rightarrow> bool" where
  [ctype_simps]: "isalpha c \<longleftrightarrow> isupper c \<or> islower c"

definition isalnum :: "char \<Rightarrow> bool" where
  [ctype_simps]: "isalnum c \<longleftrightarrow> isalpha c \<or> isdigit c"

definition isspace :: "char \<Rightarrow> bool" where
  [ctype_simps]: "isspace c \<longleftrightarrow> ord c = 32 \<or> 9 \<le> ord c \<and> ord c \<le> 13"

definition isxdigit :: "char \<Rightarrow> bool" where
  [ctype_simps]: "isxdigit c \<longleftrightarrow>
     isdigit c \<or> 65 \<le> ord c \<and> ord c \<le> 70 \<or> 97 \<le> ord c \<and> ord c \<le> 102"

definition tolower :: "char \<Rightarrow> char" where
  "tolower c = (if isupper c then char_of (ord c + 32) else c)"

definition toupper :: "char \<Rightarrow> char" where
  "toupper c = (if islower c then char_of (ord c - 32) else c)"

lemma ord_less_256 [simp]: "ord c < 256"
  using of_char_mod_256 [of c, where ?'a = nat] by (metis mod_less_divisor zero_less_numeral)

lemma ord_inj [simp]: "ord c = ord d \<longleftrightarrow> c = d"
  by (metis char_of_char)

lemma ord_char_of [simp]: "n < 256 \<Longrightarrow> ord (char_of n) = n"
  by (simp add: of_char_of)


lemma eq_char_of_iff: "c = char_of (n :: nat) \<longleftrightarrow> char_of n = c"
  by auto

lemmas char_eval = eq_char_of_iff char_of_eq_iff

lemma tolower_idem [simp]: "tolower (tolower c) = tolower c"
  by (auto simp: tolower_def isupper_def)

section \<open>Searching in strings\<close>

text \<open>
  Index of the first element that satisfies a predicate; the members of \<^verbatim>\<open>std::string_view\<close> take a
  start offset. A start offset past the end finds nothing.
\<close>

fun find_idx :: "('a \<Rightarrow> bool) \<Rightarrow> 'a list \<Rightarrow> nat option" where
  "find_idx P [] = None"
| "find_idx P (x # xs) = (if P x then Some 0 else map_option Suc (find_idx P xs))"

definition find_from :: "('a \<Rightarrow> bool) \<Rightarrow> 'a list \<Rightarrow> nat \<Rightarrow> nat option" where
  "find_from P s i = map_option (\<lambda>k. i + k) (find_idx P (drop i s))"

abbreviation find_char :: "char \<Rightarrow> string \<Rightarrow> nat \<Rightarrow> nat option" where
  "find_char c s i \<equiv> find_from (\<lambda>x. x = c) s i"

abbreviation find_first_of :: "string \<Rightarrow> string \<Rightarrow> nat \<Rightarrow> nat option" where
  "find_first_of cs s i \<equiv> find_from (\<lambda>x. x \<in> set cs) s i"

abbreviation find_first_not_of :: "string \<Rightarrow> string \<Rightarrow> nat \<Rightarrow> nat option" where
  "find_first_not_of cs s i \<equiv> find_from (\<lambda>x. x \<notin> set cs) s i"

text \<open>Index of the last element that satisfies a predicate (\<open>rfind\<close>, \<open>find_last_not_of\<close>).\<close>

fun rfind_idx :: "('a \<Rightarrow> bool) \<Rightarrow> 'a list \<Rightarrow> nat option" where
  "rfind_idx P [] = None"
| "rfind_idx P (x # xs) =
     (case rfind_idx P xs of Some k \<Rightarrow> Some (Suc k) | None \<Rightarrow> if P x then Some 0 else None)"

text \<open>First occurrence of a substring, from an offset.\<close>

fun find_sub :: "'a list \<Rightarrow> 'a list \<Rightarrow> nat option" where
  "find_sub pat [] = (if pat = [] then Some 0 else None)"
| "find_sub pat (x # xs) =
     (if prefix pat (x # xs) then Some 0 else map_option Suc (find_sub pat xs))"

definition find_sub_from :: "'a list \<Rightarrow> 'a list \<Rightarrow> nat \<Rightarrow> nat option" where
  "find_sub_from pat s i =
     (if i \<le> length s then map_option (\<lambda>k. i + k) (find_sub pat (drop i s)) else None)"

abbreviation substr :: "'a list \<Rightarrow> nat \<Rightarrow> nat \<Rightarrow> 'a list" where
  "substr s pos n \<equiv> take n (drop pos s)"

lemma find_idx_Some_iff:
  "find_idx P xs = Some k \<longleftrightarrow> k < length xs \<and> P (xs ! k) \<and> (\<forall>j < k. \<not> P (xs ! j))"
proof (induction xs arbitrary: k)
  case Nil
  then show ?case by simp
next
  case (Cons x xs)
  then show ?case
    by (cases k) (auto simp: nth_Cons' gr0_conv_Suc less_Suc_eq_0_disj)
qed

lemma find_idx_None_iff: "find_idx P xs = None \<longleftrightarrow> (\<forall>x \<in> set xs. \<not> P x)"
  by (induction xs) auto

lemma find_from_Some_iff:
  "find_from P s i = Some k \<longleftrightarrow>
     i \<le> k \<and> k < length s \<and> P (s ! k) \<and> (\<forall>j. i \<le> j \<and> j < k \<longrightarrow> \<not> P (s ! j))"
proof (cases "i \<le> length s")
  case True
  have "find_from P s i = Some k \<longleftrightarrow> (\<exists>d. k = i + d \<and> find_idx P (drop i s) = Some d)"
    by (auto simp: find_from_def)
  also have "\<dots> \<longleftrightarrow> i \<le> k \<and> find_idx P (drop i s) = Some (k - i)"
    by (auto simp: le_iff_add)
  also have "\<dots> \<longleftrightarrow> i \<le> k \<and> k < length s \<and> P (s ! k) \<and> (\<forall>j < k - i. \<not> P (s ! (i + j)))"
    using True by (auto simp: find_idx_Some_iff)
  also have "\<dots> \<longleftrightarrow> i \<le> k \<and> k < length s \<and> P (s ! k) \<and> (\<forall>j. i \<le> j \<and> j < k \<longrightarrow> \<not> P (s ! j))"
    by (metis diff_less_mono le_add1 le_add_diff_inverse nat_add_left_cancel_less)
  finally show ?thesis .
next
  case False
  then show ?thesis by (auto simp: find_from_def)
qed

lemma find_from_bounds:
  assumes "find_from P s i = Some k"
  shows "i \<le> k" "k < length s" "P (s ! k)"
  using assms by (auto simp: find_from_Some_iff)

lemma find_from_None_iff: "find_from P s i = None \<longleftrightarrow> (\<forall>x \<in> set (drop i s). \<not> P x)"
  by (simp add: find_from_def find_idx_None_iff)

lemma find_idx_append_None:
  "find_idx P xs = None \<Longrightarrow> find_idx P (xs @ ys) = map_option (\<lambda>k. length xs + k) (find_idx P ys)"
proof (induction xs)
  case Nil
  then show ?case by (cases "find_idx P ys") auto
next
  case (Cons x xs)
  then show ?case by (cases "find_idx P ys") (auto split: if_splits)
qed

lemma find_idx_first:
  "(\<forall>x \<in> set xs. \<not> P x) \<Longrightarrow> P y \<Longrightarrow> find_idx P (xs @ y # ys) = Some (length xs)"
  by (simp add: find_idx_append_None find_idx_None_iff)

lemma find_char_first: "c \<notin> set xs \<Longrightarrow> find_char c (xs @ c # ys) 0 = Some (length xs)"
  using find_idx_first [of xs "\<lambda>x. x = c" c ys] by (auto simp: find_from_def)

lemma find_idx_takeWhile:
  "find_idx P xs = Some k \<Longrightarrow> take k xs = takeWhile (\<lambda>x. \<not> P x) xs"
  by (induction xs arbitrary: k) (auto split: if_splits)

lemma rfind_idx_Some_iff:
  "rfind_idx P xs = Some k \<longleftrightarrow>
     k < length xs \<and> P (xs ! k) \<and> (\<forall>j. k < j \<and> j < length xs \<longrightarrow> \<not> P (xs ! j))"
proof (induction xs arbitrary: k)
  case Nil
  then show ?case by simp
next
  case (Cons x xs)
  show ?case
  proof (cases "rfind_idx P xs")
    case None
    then have none: "\<forall>j < length xs. \<not> P (xs ! j)"
      by (induction xs) (auto simp: nth_Cons' split: option.splits if_splits)
    then show ?thesis
      using None by (cases k) (auto simp: nth_Cons' split: if_splits)
  next
    case (Some m)
    with Cons.IH [of m] have m: "m < length xs" "P (xs ! m)"
        "\<forall>j. m < j \<and> j < length xs \<longrightarrow> \<not> P (xs ! j)"
      by auto
    show ?thesis
    proof (cases k)
      case 0
      with Some m show ?thesis by auto
    next
      case (Suc k')
      have "(rfind_idx P (x # xs) = Some k) \<longleftrightarrow> rfind_idx P xs = Some k'"
        using Some Suc by simp
      then show ?thesis
        using Cons.IH [of k'] Suc by (auto simp: nth_Cons' gr0_conv_Suc less_Suc_eq_0_disj)
    qed
  qed
qed

lemma rfind_idx_None_iff: "rfind_idx P xs = None \<longleftrightarrow> (\<forall>x \<in> set xs. \<not> P x)"
  by (induction xs) (auto split: option.splits)

lemma find_sub_Some_iff:
  "find_sub pat s = Some k \<longleftrightarrow>
     k \<le> length s \<and> prefix pat (drop k s) \<and> (\<forall>j < k. \<not> prefix pat (drop j s))"
proof (induction s arbitrary: k)
  case Nil
  then show ?case by auto
next
  case (Cons x xs)
  show ?case
  proof (cases k)
    case 0
    then show ?thesis by auto
  next
    case (Suc m)
    have "find_sub pat (x # xs) = Some k \<longleftrightarrow> \<not> prefix pat (x # xs) \<and> find_sub pat xs = Some m"
      using Suc by auto
    then show ?thesis
      using Cons.IH [of m] Suc by (auto simp: less_Suc_eq_0_disj)
  qed
qed

lemma find_sub_None_iff: "find_sub pat s = None \<longleftrightarrow> (\<forall>k \<le> length s. \<not> prefix pat (drop k s))"
proof (induction s)
  case Nil
  then show ?case by auto
next
  case (Cons x xs)
  have "(\<forall>k \<le> length (x # xs). \<not> prefix pat (drop k (x # xs))) \<longleftrightarrow>
      \<not> prefix pat (x # xs) \<and> (\<forall>k \<le> length xs. \<not> prefix pat (drop k xs))"
    by (metis Suc_le_mono drop0 drop_Suc_Cons length_Cons not0_implies_Suc zero_le)
  with Cons show ?case by simp
qed

lemma find_sub_from_bounds:
  assumes "find_sub_from pat s i = Some k"
  shows "i \<le> k" "k + length pat \<le> length s" "prefix pat (drop k s)"
proof -
  obtain d where d: "k = i + d" "find_sub pat (drop i s) = Some d" and "i \<le> length s"
    using assms by (auto simp: find_sub_from_def split: if_splits)
  then have "d \<le> length s - i" "prefix pat (drop d (drop i s))"
    by (simp_all add: find_sub_Some_iff)
  then have p: "prefix pat (drop k s)" and "k \<le> length s"
    using d \<open>i \<le> length s\<close> by (simp_all add: add.commute)
  then show "i \<le> k" "k + length pat \<le> length s" "prefix pat (drop k s)"
    using d prefix_length_le [OF p] by auto
qed

lemma find_sub_from_range:
  "find_sub_from pat s i = Some k \<Longrightarrow> i \<le> k \<and> k + length pat \<le> length s"
  using find_sub_from_bounds by blast

lemma find_from_progress [termination_simp]:
  "find_from P s i = Some k \<Longrightarrow> length s - Suc k < length s - i"
  using find_from_bounds(1,2) [of P s i k] by linarith

lemma find_sub_from_progress [termination_simp]:
  "find_sub_from pat s i = Some k \<Longrightarrow> pat \<noteq> [] \<Longrightarrow>
     Suc (length s) - (k + length pat) < Suc (length s) - i"
  using find_sub_from_bounds(1,2) [of pat s i k] by (cases pat) auto

text \<open>A successful search cuts the rest of the string at the element found.\<close>

lemma find_from_split:
  assumes "find_from P s i = Some k"
  shows "drop i s = substr s i (k - i) @ s ! k # drop (Suc k) s"
    and "\<forall>x \<in> set (substr s i (k - i)). \<not> P x"
proof -
  have k: "i \<le> k" "k < length s" and none: "\<And>j. i \<le> j \<Longrightarrow> j < k \<Longrightarrow> \<not> P (s ! j)"
    using assms by (auto simp: find_from_Some_iff)
  have "drop i s = substr s i (k - i) @ drop (k - i) (drop i s)"
    by (simp only: append_take_drop_id)
  also have "drop (k - i) (drop i s) = s ! k # drop (Suc k) s"
    using k by (simp add: Cons_nth_drop_Suc)
  finally show "drop i s = substr s i (k - i) @ s ! k # drop (Suc k) s" .
  show "\<forall>x \<in> set (substr s i (k - i)). \<not> P x"
    using k none by (auto simp: in_set_conv_nth)
qed

section \<open>Decimal numbers\<close>

definition digit_char :: "nat \<Rightarrow> char" where
  "digit_char d = char_of (48 + d)"

fun show_nat :: "nat \<Rightarrow> string" where
  "show_nat n = (if n < 10 then [digit_char n] else show_nat (n div 10) @ [digit_char (n mod 10)])"

declare show_nat.simps [simp del]

definition show_int :: "int \<Rightarrow> string" where
  "show_int i = (if i < 0 then CHR ''-'' # show_nat (nat (- i)) else show_nat (nat i))"

definition digit_val :: "char \<Rightarrow> nat" where
  "digit_val c = ord c - 48"

definition digits_val :: "string \<Rightarrow> nat" where
  "digits_val s = foldl (\<lambda>v c. v * 10 + digit_val c) 0 s"

lemma digit_char_simps [simp]:
  assumes "d < 10"
  shows "isdigit (digit_char d)" "digit_val (digit_char d) = d" "ord (digit_char d) = 48 + d"
proof -
  have "ord (digit_char d) = 48 + d" using assms by (simp add: digit_char_def)
  then show "isdigit (digit_char d)" "digit_val (digit_char d) = d" "ord (digit_char d) = 48 + d"
    using assms by (simp_all add: isdigit_def digit_val_def)
qed

lemma show_nat_not_Nil [simp]: "show_nat n \<noteq> []"
  by (subst show_nat.simps) simp

lemma show_nat_digits: "c \<in> set (show_nat n) \<Longrightarrow> isdigit c"
proof (induction n rule: show_nat.induct)
  case (1 n)
  then show ?case
    by (subst (asm) (2) show_nat.simps) (auto split: if_splits)
qed

lemma digits_val_snoc: "digits_val (s @ [c]) = digits_val s * 10 + digit_val c"
  by (simp add: digits_val_def)

lemma digits_val_show_nat [simp]: "digits_val (show_nat n) = n"
proof (induction n rule: show_nat.induct)
  case (1 n)
  show ?case
  proof (cases "n < 10")
    case True
    then show ?thesis by (simp add: show_nat.simps [of n] digits_val_def)
  next
    case False
    with 1 show ?thesis by (simp add: show_nat.simps [of n] digits_val_snoc)
  qed
qed

lemma takeWhile_digits_show_nat:
  "s = [] \<or> \<not> isdigit (hd s) \<Longrightarrow> takeWhile isdigit (show_nat n @ s) = show_nat n"
  using show_nat_digits [of _ n] by (cases s) (auto simp: takeWhile_append2 takeWhile_eq_all_conv)

lemma not_digit_notin_show_nat: "\<not> isdigit c \<Longrightarrow> c \<notin> set (show_nat n)"
  using show_nat_digits by blast

lemma show_nat_length_le: "0 < k \<Longrightarrow> length (show_nat n) \<le> k \<longleftrightarrow> n < 10 ^ k"
proof (induction n arbitrary: k rule: show_nat.induct)
  case (1 n)
  show ?case
  proof (cases "n < 10")
    case True
    then have "n < 10 ^ k" using "1.prems" power_increasing [of 1 k "10::nat"] by simp
    with True "1.prems" show ?thesis by (simp add: show_nat.simps [of n])
  next
    case False
    show ?thesis
    proof (cases "k = 1")
      case True
      have "length (show_nat (n div 10)) > 0" by simp
      with True False show ?thesis by (simp add: show_nat.simps [of n])
    next
      case k: False
      then obtain m where m: "k = Suc m" "0 < m" using "1.prems" by (cases k) auto
      have "n div 10 < 10 ^ m \<longleftrightarrow> n < 10 ^ k"
        by (simp add: m(1) div_less_iff_less_mult mult.commute)
      with "1.IH" [OF False m(2)] m(1) False show ?thesis by (simp add: show_nat.simps [of n])
    qed
  qed
qed

lemma show_int_nonneg: "0 \<le> i \<Longrightarrow> show_int i = show_nat (nat i)"
  by (simp add: show_int_def)

end
