(* ===== verification/Codec.thy ===== *)
theory Codec
  imports Prelude
begin

text \<open>
  Model of the encoders of \<^verbatim>\<open>mysqlshdk/libs/utils/utils_string.cc\<close>: bit strings and hexadecimal, percent
  encoding (RFC 3986), and UTF-8 validation. The lookup tables are the source's tables written
  with their runs. Theorems: percent decoding inverts percent encoding and reads outside its
  input on exactly the short inputs characterised below; bit strings round trip; the UTF-8
  checker accepts exactly the encodings of Unicode scalar values.
\<close>

unbundle bit_operations_syntax

section \<open>Bits and hexadecimal\<close>

definition hexmap :: string where
  "hexmap = ''0123456789ABCDEF''"

text \<open>\<^verbatim>\<open>std::bitset<64>::to_string\<close>: the most significant bit first.\<close>

definition bitset_to_string :: "64 word \<Rightarrow> string" where
  "bitset_to_string w = map (\<lambda>i. if bit w (63 - i) then CHR ''1'' else CHR ''0'') [0..<64]"

text \<open>\<^verbatim>\<open>erase(0, n)\<close> removes everything when \<open>n\<close> exceeds the size, which the wrapped
  subtraction does for more than 64 bits.\<close>

definition bits_to_string :: "64 word \<Rightarrow> nat \<Rightarrow> string" where
  "bits_to_string bits nbits =
     (if nbits \<le> 64 then drop (64 - nbits) (bitset_to_string bits) else [])"

definition bitset_of_string :: "string \<Rightarrow> 64 word" where
  "bitset_of_string s = foldl (\<lambda>w c. 2 * w + (if c = CHR ''1'' then 1 else 0)) 0 s"

definition string_to_bits :: "string \<Rightarrow> (64 word \<times> nat) result" where
  "string_to_bits s =
     (if length s > 64 then Inl (Invalid_argument ''bit string length must be <= 64'')
      else if \<exists>c \<in> set s. c \<noteq> CHR ''0'' \<and> c \<noteq> CHR ''1'' then Inl (Invalid_argument ''bitset'')
      else Inr (bitset_of_string s, length s))"

definition bits_to_string_hex_size :: "nat \<Rightarrow> nat" where
  "bits_to_string_hex_size nbits =
     (let num_chars = nbits div 4 + (if nbits mod 4 \<noteq> 0 then 1 else 0)
      in num_chars + (if num_chars mod 2 \<noteq> 0 then 1 else 0))"

text \<open>\<^verbatim>\<open>%.*llX\<close>: no digits for zero, padded with zeros to the precision.\<close>

fun hex_digits :: "nat \<Rightarrow> string" where
  "hex_digits n = (if n = 0 then [] else hex_digits (n div 16) @ [hexmap ! (n mod 16)])"

declare hex_digits.simps [simp del]

definition format_llX :: "nat \<Rightarrow> nat \<Rightarrow> string" where
  "format_llX prec n =
     (let d = hex_digits n in replicate (prec - length d) CHR ''0'' @ d)"

definition bits_to_string_hex :: "64 word \<Rightarrow> nat \<Rightarrow> string" where
  "bits_to_string_hex bits nbits =
     (let sbits = bits_to_string bits nbits
      in ''0x'' @ format_llX (bits_to_string_hex_size nbits) (unat (bitset_of_string sbits)))"

definition string_to_hex :: "string \<Rightarrow> bool \<Rightarrow> string" where
  "string_to_hex s pre =
     (if pre then ''0x'' else []) @
     concat (map (\<lambda>c. [hexmap ! drop_bit 4 (ord c AND 0xF0), hexmap ! (ord c AND 0x0F)]) s)"

section \<open>Percent encoding\<close>

definition k_reserved_chars :: "nat list" where
  "k_reserved_chars =
     replicate 45 1 @ [0, 0, 1] @ replicate 10 0 @ replicate 7 1 @ replicate 26 0 @
     replicate 4 1 @ [0, 1] @ replicate 26 0 @ [1, 1, 1, 0] @ replicate 129 1"

definition k_hex_values :: "nat list" where
  "k_hex_values =
     replicate 48 0 @ [0, 1, 2, 3, 4, 5, 6, 7, 8, 9] @ replicate 7 0 @ [10, 11, 12, 13, 14, 15] @
     replicate 26 0 @ [10, 11, 12, 13, 14, 15] @ replicate 25 0"

definition pctencode_char :: "char \<Rightarrow> string" where
  "pctencode_char c =
     (if k_reserved_chars ! ord c \<noteq> 0
      then [CHR ''%'', hexmap ! drop_bit 4 (ord c AND 0xF0), hexmap ! (ord c AND 0x0F)]
      else [c])"

definition pctencode :: "string \<Rightarrow> string" where
  "pctencode s = concat (map pctencode_char s)"


text \<open>
  The loop guard is \<^verbatim>\<open>i <= c - 3\<close> on \<^verbatim>\<open>size_t\<close>: for inputs shorter than three bytes the subtraction
  wraps around and the guard holds. A read past the end of the view is \<open>Undefined\<close>.
\<close>

function pctdecode_loop :: "string \<Rightarrow> nat \<Rightarrow> string \<Rightarrow> string result" where
  "pctdecode_loop s i dec =
     (if i < length s then
        if i \<le> size_sub (length s) 3 \<and> s ! i = CHR ''%'' then
          if length s \<le> i + 1 then Inl (Undefined ''s[i + 1]'')
          else if isxdigit (s ! (i + 1)) then
            if length s \<le> i + 2 then Inl (Undefined ''s[i + 2]'')
            else if isxdigit (s ! (i + 2)) then
              pctdecode_loop s (i + 3)
                (dec @ [char_of (push_bit 4 (k_hex_values ! ord (s ! (i + 1))) OR
                                 k_hex_values ! ord (s ! (i + 2)))])
            else pctdecode_loop s (i + 1) (dec @ [s ! i])
          else pctdecode_loop s (i + 1) (dec @ [s ! i])
        else pctdecode_loop s (i + 1) (dec @ [s ! i])
      else Inr dec)"
  by pat_completeness auto
termination by (relation "measure (\<lambda>(s, i, dec). length s - i)") auto

declare pctdecode_loop.simps [simp del]

definition pctdecode :: "string \<Rightarrow> string result" where
  "pctdecode s = pctdecode_loop s 0 []"

section \<open>UTF-8\<close>

definition is_utf8_continuation_byte :: "nat \<Rightarrow> bool" where
  "is_utf8_continuation_byte byte \<longleftrightarrow> byte AND 0xC0 = 0x80"

definition is_invalid_utf8_codepoint :: "nat \<Rightarrow> nat \<Rightarrow> bool" where
  "is_invalid_utf8_codepoint cp bytes \<longleftrightarrow>
     (cp \<le> 0x7F \<and> bytes \<noteq> 1) \<or>
     (0x80 \<le> cp \<and> cp \<le> 0x07FF \<and> bytes \<noteq> 2) \<or>
     (0x0800 \<le> cp \<and> cp \<le> 0xFFFF \<and> bytes \<noteq> 3) \<or>
     (0x10000 \<le> cp \<and> cp \<le> 0x10FFFF \<and> bytes \<noteq> 4) \<or>
     (0xD800 \<le> cp \<and> cp \<le> 0xDFFF) \<or>
     cp > 0x10FFFF"

text \<open>The loop over the continuation bytes: \<open>None\<close> for a byte of another kind.\<close>

fun utf8_continue :: "string \<Rightarrow> nat \<Rightarrow> nat option" where
  "utf8_continue [] decoded = Some decoded"
| "utf8_continue (c # cs) decoded =
     (if \<not> is_utf8_continuation_byte (ord c) then None
      else utf8_continue cs (push_bit 6 decoded OR (ord c AND 0x3F)))"

text \<open>Size in bytes (0: invalid) and the code point stored through the pointer.\<close>

definition get_utf8_codepoint_size :: "string \<Rightarrow> nat \<Rightarrow> nat \<times> nat option" where
  "get_utf8_codepoint_size s offset =
     (if length s \<le> offset then (0, None)
      else
        let byte = ord (s ! offset);
            (bytes, decoded) =
              (if byte AND 0x80 = 0 then (1, byte AND 0x7F)
               else if byte AND 0xE0 = 0xC0 then (2, byte AND 0x1F)
               else if byte AND 0xF0 = 0xE0 then (3, byte AND 0x0F)
               else if byte AND 0xF8 = 0xF0 then (4, byte AND 0x07)
               else (0, 0))
        in if bytes = 0 then (0, None)
           else if length s - offset < bytes then (0, None)
           else case utf8_continue (substr s (offset + 1) (bytes - 1)) decoded of
             None \<Rightarrow> (0, None)
           | Some cp \<Rightarrow>
               if is_invalid_utf8_codepoint cp bytes then (0, None) else (bytes, Some cp))"

function is_valid_utf8_loop :: "string \<Rightarrow> nat \<Rightarrow> bool" where
  "is_valid_utf8_loop s offset =
     (if offset < length s then
        let codepoint_size = fst (get_utf8_codepoint_size s offset)
        in if codepoint_size = 0 then False else is_valid_utf8_loop s (offset + codepoint_size)
      else True)"
  by pat_completeness auto
termination by (relation "measure (\<lambda>(s, offset). length s - offset)") auto

declare is_valid_utf8_loop.simps [simp del]

definition is_valid_utf8 :: "string \<Rightarrow> bool" where
  "is_valid_utf8 s = is_valid_utf8_loop s 0"

section \<open>Bit masks as arithmetic\<close>

lemma and_low_masks:
  "(a::nat) AND 0x0F = a mod 16" "a AND 0x1F = a mod 32" "a AND 0x3F = a mod 64"
  "a AND 0x7F = a mod 128" "a AND 0x07 = a mod 8"
  using take_bit_eq_mask [of 4 a] take_bit_eq_mask [of 5 a] take_bit_eq_mask [of 6 a]
    take_bit_eq_mask [of 7 a] take_bit_eq_mask [of 3 a]
  by (simp_all add: take_bit_eq_mod mask_eq_exp_minus_1)

lemma high_nibble: "n < 256 \<Longrightarrow> drop_bit 4 (n AND 0xF0) = n div (16::nat)"
proof -
  assume "n < 256"
  have "drop_bit 4 (n AND 0xF0) = drop_bit 4 n AND drop_bit 4 0xF0" by (rule drop_bit_and)
  also have "drop_bit 4 (0xF0::nat) = 0x0F" by (simp add: drop_bit_eq_div)
  finally show ?thesis
    using \<open>n < 256\<close> by (simp add: and_low_masks drop_bit_eq_div)
qed

lemma push_or_take: "push_bit k x OR take_bit k y = x * 2 ^ k + take_bit k (y::nat)"
proof -
  have "push_bit k x AND take_bit k y = 0"
    by (rule bit_eqI) (auto simp: bit_simps)
  then show ?thesis
    using disjunctive_add_eq_or [of "push_bit k x" "take_bit k y"] by (simp add: push_bit_eq_mult)
qed

lemma push4_or: "b < 16 \<Longrightarrow> push_bit 4 a OR b = a * 16 + (b::nat)"
  using push_or_take [of 4 a b] by (simp add: take_bit_eq_mod)

lemma push6_or: "push_bit 6 a OR (c AND 0x3F) = a * 64 + c mod (64::nat)"
  using push_or_take [of 6 a c] by (simp add: take_bit_eq_mod and_low_masks)

section \<open>Percent encoding: correctness\<close>

lemma hexmap_nibble:
  "n < 16 \<Longrightarrow> isxdigit (hexmap ! n) \<and> k_hex_values ! ord (hexmap ! n) = n"
proof -
  have "list_all (\<lambda>n. isxdigit (hexmap ! n) \<and> k_hex_values ! ord (hexmap ! n) = n) [0..<16]"
    by code_simp
  then show "n < 16 \<Longrightarrow> isxdigit (hexmap ! n) \<and> k_hex_values ! ord (hexmap ! n) = n"
    by (simp add: list_all_iff)
qed

lemma k_hex_values_bound: "isxdigit c \<Longrightarrow> k_hex_values ! ord c < 16"
proof -
  have "list_all (\<lambda>n. k_hex_values ! n < 16) [0..<128]" by code_simp
  moreover assume "isxdigit c"
  then have "ord c < 128" by (auto simp: ctype_simps)
  ultimately show ?thesis by (simp add: list_all_iff)
qed

text \<open>Reference decoder, by recursion on the string.\<close>

fun pctdecode_ref :: "string \<Rightarrow> string" where
  "pctdecode_ref (c # a # b # r) =
     (if c = CHR ''%'' \<and> isxdigit a \<and> isxdigit b
      then char_of (k_hex_values ! ord a * 16 + k_hex_values ! ord b) # pctdecode_ref r
      else c # pctdecode_ref (a # b # r))"
| "pctdecode_ref s = s"

lemma pctdecode_ref_skip: "c \<noteq> CHR ''%'' \<Longrightarrow> pctdecode_ref (c # s) = c # pctdecode_ref s"
  by (cases s rule: pctdecode_ref.cases) auto

lemma pctdecode_ref_short: "length s < 3 \<Longrightarrow> pctdecode_ref s = s"
  by (cases s rule: pctdecode_ref.cases) auto

lemma pctdecode_loop_eq:
  assumes "length s \<ge> 3 \<or> CHR ''%'' \<notin> set s"
  shows "pctdecode_loop s i dec = Inr (dec @ pctdecode_ref (drop i s))"
  using assms
proof (induction s i dec rule: pctdecode_loop.induct)
  case (1 s i dec)
  show ?case
  proof (cases "i < length s")
    case False
    then show ?thesis by (simp add: pctdecode_loop.simps)
  next
    case i: True
    have d: "drop i s = s ! i # drop (Suc i) s" using i by (simp add: Cons_nth_drop_Suc)
    show ?thesis
    proof (cases "s ! i = CHR ''%''")
      case False
      with 1 i show ?thesis
        by (subst pctdecode_loop.simps) (simp add: d pctdecode_ref_skip)
    next
      case pct: True
      then have len: "length s \<ge> 3" using "1.prems" i by (metis nth_mem)
      show ?thesis
      proof (cases "i \<le> length s - 3")
        case True
        then have "drop i s = s ! i # s ! (i + 1) # s ! (i + 2) # drop (i + 3) s"
          using len by (simp add: Cons_nth_drop_Suc eval_nat_numeral)
        moreover from this have "drop (Suc i) s = s ! (i + 1) # s ! (i + 2) # drop (i + 3) s"
          using d by simp
        ultimately show ?thesis
          using 1 i pct True len
          by (subst pctdecode_loop.simps)
             (auto simp: size_sub_def push4_or k_hex_values_bound)
      next
        case False
        then have "length (drop i s) < 3" "length (drop (Suc i) s) < 3" by auto
        then have "pctdecode_ref (drop i s) = s ! i # pctdecode_ref (drop (Suc i) s)"
          using d by (simp add: pctdecode_ref_short)
        with 1 i False len show ?thesis
          by (subst pctdecode_loop.simps) (simp add: size_sub_def)
      qed
    qed
  qed
qed

lemma pctencode_no_short_percent:
  "length (pctencode s) \<ge> 3 \<or> CHR ''%'' \<notin> set (pctencode s)"
proof -
  have pct: "k_reserved_chars ! ord CHR ''%'' \<noteq> 0" by code_simp
  show ?thesis
  proof (cases "\<exists>c \<in> set s. k_reserved_chars ! ord c \<noteq> 0")
    case True
    then obtain c where c: "c \<in> set s" "length (pctencode_char c) = 3"
      by (auto simp: pctencode_char_def)
    then obtain a b where "s = a @ c # b" by (meson split_list)
    with c show ?thesis by (simp add: pctencode_def)
  next
    case False
    then have "pctencode s = s" by (induction s) (auto simp: pctencode_def pctencode_char_def)
    with False pct show ?thesis by auto
  qed
qed

lemma pctencode_char_eq:
  "pctencode_char c =
     (if k_reserved_chars ! ord c \<noteq> 0
      then [CHR ''%'', hexmap ! (ord c div 16), hexmap ! (ord c mod 16)] else [c])"
  unfolding pctencode_char_def high_nibble [OF ord_less_256] and_low_masks ..

lemma pctdecode_ref_pctencode_char:
  "pctdecode_ref (pctencode_char c @ s) = c # pctdecode_ref s"
proof (cases "k_reserved_chars ! ord c \<noteq> 0")
  case True
  have "ord c div 16 < 16" "ord c mod 16 < 16"
    using ord_less_256 [of c] by (simp_all add: less_mult_imp_div_less)
  then show ?thesis
    using True hexmap_nibble [of "ord c div 16"] hexmap_nibble [of "ord c mod 16"]
    by (simp add: pctencode_char_eq)
next
  case False
  moreover have "k_reserved_chars ! ord CHR ''%'' \<noteq> 0" by code_simp
  ultimately have "c \<noteq> CHR ''%''" by auto
  with False show ?thesis by (simp add: pctencode_char_def pctdecode_ref_skip)
qed

lemma pctdecode_ref_pctencode: "pctdecode_ref (pctencode s) = s"
proof (induction s)
  case (Cons c s)
  then show ?case
    using pctdecode_ref_pctencode_char [of c "pctencode s"] by (simp add: pctencode_def)
qed (simp add: pctencode_def)

text \<open>Percent decoding inverts percent encoding for every byte string, and never reads
  outside the encoded string.\<close>

theorem pctdecode_pctencode_roundtrip: "pctdecode (pctencode s) = Inr s"
  by (simp add: pctdecode_def pctdecode_loop_eq [OF pctencode_no_short_percent]
      pctdecode_ref_pctencode)

lemma pctdecode_long: "length s \<ge> 3 \<or> CHR ''%'' \<notin> set s \<Longrightarrow> pctdecode s = Inr (pctdecode_ref s)"
  by (simp add: pctdecode_def pctdecode_loop_eq)

lemma pctdecode_1: "pctdecode [a] = (if a = CHR ''%'' then Inl (Undefined ''s[i + 1]'') else Inr [a])"
  by (simp add: pctdecode_def pctdecode_loop.simps size_sub_def)

lemma pctdecode_2:
  "pctdecode [a, b] =
     (if a = CHR ''%'' \<and> isxdigit b then Inl (Undefined ''s[i + 2]'')
      else if b = CHR ''%'' then Inl (Undefined ''s[i + 1]'') else Inr [a, b])"
proof -
  have "\<not> isxdigit CHR ''%''" by (simp add: ctype_simps)
  then show ?thesis
    by (auto simp: pctdecode_def pctdecode_loop.simps [of "[_, _]"] size_sub_def)
qed

text \<open>\<open>pctdecode\<close> reads past the end of its input exactly for the one and two byte inputs that
  end in a percent sign or are a percent sign and a hexadecimal digit; on every other input it
  returns the percent-decoded string.\<close>

theorem pctdecode_defined_iff:
  "is_ok (pctdecode s) \<longleftrightarrow>
     \<not> (s = ''%'' \<or> (\<exists>a. s = [a, CHR ''%'']) \<or> (\<exists>h. isxdigit h \<and> s = [CHR ''%'', h]))"
proof -
  consider "s = []" | a where "s = [a]" | a b where "s = [a, b]" | "length s \<ge> 3"
    by (cases s rule: pctdecode_ref.cases) auto
  then show ?thesis
  proof cases
    case 4
    then show ?thesis using pctdecode_long [of s] by auto
  next
    case (3 a b)
    moreover have "\<not> isxdigit CHR ''%''" by (simp add: ctype_simps)
    ultimately show ?thesis by (auto simp: pctdecode_2)
  qed (auto simp: pctdecode_1 pctdecode_long)
qed

section \<open>Bit strings: correctness\<close>

lemma bitset_of_string_acc:
  "foldl (\<lambda>w c. 2 * w + (if c = CHR ''1'' then 1 else 0)) acc s =
     2 ^ length s * acc + bitset_of_string s"
proof (induction s arbitrary: acc)
  case (Cons c s)
  have split: "bitset_of_string (c # s) =
      2 ^ length s * (if c = CHR ''1'' then 1 else 0) + bitset_of_string s"
    using Cons [of "if c = CHR ''1'' then 1 else 0"] by (simp add: bitset_of_string_def)
  show ?case
    using Cons [of "2 * acc + (if c = CHR ''1'' then 1 else 0)"] split
    by (simp add: algebra_simps)
qed (simp add: bitset_of_string_def)

lemma bitset_of_string_Cons:
  "bitset_of_string (c # s) = 2 ^ length s * (if c = CHR ''1'' then 1 else 0) + bitset_of_string s"
  using bitset_of_string_acc [of "if c = CHR ''1'' then 1 else 0" s]
  by (simp add: bitset_of_string_def)

lemma length_bitset_to_string [simp]: "length (bitset_to_string w) = 64"
  by (simp add: bitset_to_string_def)

lemma drop_bitset_to_string:
  "n < 64 \<Longrightarrow> drop (63 - n) (bitset_to_string w) =
     (if bit w n then CHR ''1'' else CHR ''0'') # drop (64 - n) (bitset_to_string w)"
  by (simp add: bitset_to_string_def drop_map upt_conv_Cons [of "63 - n"] Suc_diff_le [symmetric])

lemma word_take_bit_Suc_most:
  "n < 64 \<Longrightarrow> take_bit (Suc n) w = (if bit w n then 2 ^ n else 0) + take_bit n (w :: 64 word)"
proof -
  assume "n < 64"
  let ?b = "(if bit w n then 2 ^ n else 0) :: 64 word"
  have "?b AND take_bit n w = 0"
    by (rule bit_eqI) (auto simp: bit_simps)
  then have "?b + take_bit n w = ?b OR take_bit n w" by (rule disjunctive_add_eq_or)
  also have "\<dots> = take_bit (Suc n) w"
    by (rule bit_eqI) (auto simp: bit_simps less_Suc_eq)
  finally show ?thesis by simp
qed

lemma bitset_of_drop:
  "n \<le> 64 \<Longrightarrow> bitset_of_string (drop (64 - n) (bitset_to_string w)) = take_bit n w"
proof (induction n)
  case 0
  then show ?case by (simp add: bitset_to_string_def bitset_of_string_def)
next
  case (Suc n)
  then have n: "n < 64" by simp
  have len: "length (drop (64 - n) (bitset_to_string w)) = n"
    using n by simp
  have "drop (64 - Suc n) (bitset_to_string w) =
      (if bit w n then CHR ''1'' else CHR ''0'') # drop (64 - n) (bitset_to_string w)"
    using drop_bitset_to_string [OF n, of w] by simp
  with Suc.IH n show ?case
    by (simp add: bitset_of_string_Cons word_take_bit_Suc_most)
qed

text \<open>Reading a bit string back gives the low \<open>nbits\<close> bits of the number it was printed from,
  and its width, for every width up to 64.\<close>

theorem string_to_bits_roundtrip:
  assumes "n \<le> 64"
  shows "string_to_bits (bits_to_string w n) = Inr (take_bit n w, n)"
proof -
  have "length (bits_to_string w n) = n"
    using assms by (simp add: bits_to_string_def bitset_to_string_def)
  moreover have "set (bits_to_string w n) \<subseteq> {CHR ''0'', CHR ''1''}"
    using set_drop_subset [of "64 - n" "bitset_to_string w"]
    by (auto simp: bits_to_string_def bitset_to_string_def split: if_splits)
  ultimately show ?thesis
    using assms bitset_of_drop [OF assms, of w] by (auto simp: string_to_bits_def bits_to_string_def)
qed

theorem string_to_bits_roundtrip_witness:
  "(5::nat) \<le> 64 \<and> string_to_bits (bits_to_string 43 5) = Inr (11, 5)"
  using string_to_bits_roundtrip [of 5 43] by (simp add: take_bit_eq_mod)

section \<open>UTF-8: correctness\<close>

text \<open>Reference: Unicode scalar values and their UTF-8 encoding.\<close>

definition scalar_value :: "nat \<Rightarrow> bool" where
  "scalar_value cp \<longleftrightarrow> cp \<le> 0x10FFFF \<and> \<not> (0xD800 \<le> cp \<and> cp \<le> 0xDFFF)"

definition utf8_encode :: "nat \<Rightarrow> string" where
  "utf8_encode cp =
     (if cp < 0x80 then [char_of cp]
      else if cp < 0x800 then [char_of (0xC0 + cp div 64), char_of (0x80 + cp mod 64)]
      else if cp < 0x10000 then
        [char_of (0xE0 + cp div 4096), char_of (0x80 + cp div 64 mod 64), char_of (0x80 + cp mod 64)]
      else
        [char_of (0xF0 + cp div 262144), char_of (0x80 + cp div 4096 mod 64),
         char_of (0x80 + cp div 64 mod 64), char_of (0x80 + cp mod 64)])"

lemma and_high_mask:
  assumes "b < 256" "k \<le> 8"
  shows "b AND (mask (8 - k) * 2 ^ k) = b div 2 ^ k * (2 ^ k :: nat)"
proof -
  have "b AND push_bit k (mask (8 - k)) = push_bit k (take_bit (8 - k) (drop_bit k b))"
    by (rule bit_eqI) (auto simp: bit_simps)
  moreover have "drop_bit k b < 2 ^ (8 - k)"
    using assms by (simp add: drop_bit_eq_div less_mult_imp_div_less power_add [symmetric])
  ultimately show ?thesis
    by (simp add: push_bit_eq_mult drop_bit_eq_div take_bit_nat_eq_self)
qed

lemma div_mult_eq_iff:
  "0 < k \<Longrightarrow> (b div k * k = m * k) = (m * k \<le> b \<and> b < Suc m * (k::nat))"
proof -
  assume "0 < k"
  then have "(b div k * k = m * k) = (m \<le> b div k \<and> b div k < Suc m)" by auto
  also have "\<dots> = (m * k \<le> b \<and> b < Suc m * k)"
    using \<open>0 < k\<close> by (simp add: less_eq_div_iff_mult_less_eq div_less_iff_less_mult)
  finally show ?thesis .
qed

lemma utf8_byte_classes:
  assumes "b < 256"
  shows "(b AND 0x80 = 0) = (b < (128::nat))"
    and "(b AND 0xE0 = 0xC0) = (192 \<le> b \<and> b < 224)"
    and "(b AND 0xF0 = 0xE0) = (224 \<le> b \<and> b < 240)"
    and "(b AND 0xF8 = 0xF0) = (240 \<le> b \<and> b < 248)"
    and "(b AND 0xC0 = 0x80) = (128 \<le> b \<and> b < 192)"
proof -
  have masks: "b AND 0x80 = b div 128 * 128" "b AND 0xE0 = b div 32 * 32" "b AND 0xF0 = b div 16 * 16"
      "b AND 0xF8 = b div 8 * 8" "b AND 0xC0 = b div 64 * 64"
    using and_high_mask [of b 7] and_high_mask [of b 5] and_high_mask [of b 4]
      and_high_mask [of b 3] and_high_mask [of b 6] assms
    by (simp_all add: mask_eq_exp_minus_1)
  show "(b AND 0x80 = 0) = (b < (128::nat))"
    unfolding masks using div_mult_eq_iff [of 128 b 0] by simp
  show "(b AND 0xE0 = 0xC0) = (192 \<le> b \<and> b < 224)"
    unfolding masks using div_mult_eq_iff [of 32 b 6] by simp
  show "(b AND 0xF0 = 0xE0) = (224 \<le> b \<and> b < 240)"
    unfolding masks using div_mult_eq_iff [of 16 b 14] by simp
  show "(b AND 0xF8 = 0xF0) = (240 \<le> b \<and> b < 248)"
    unfolding masks using div_mult_eq_iff [of 8 b 30] by simp
  show "(b AND 0xC0 = 0x80) = (128 \<le> b \<and> b < 192)"
    unfolding masks using div_mult_eq_iff [of 64 b 2] by simp
qed

lemma is_utf8_continuation_byte_iff:
  "is_utf8_continuation_byte (ord c) \<longleftrightarrow> 128 \<le> ord c \<and> ord c < 192"
  unfolding is_utf8_continuation_byte_def utf8_byte_classes(5) [OF ord_less_256] ..

lemma utf8_continue_Cons:
  "utf8_continue (c # cs) d =
     (if 128 \<le> ord c \<and> ord c < 192 then utf8_continue cs (d * 64 + ord c mod 64) else None)"
  by (simp only: utf8_continue.simps push6_or is_utf8_continuation_byte_iff) simp

declare utf8_continue.simps(2) [simp del]

lemma get_utf8_codepoint_size_eq:
  "get_utf8_codepoint_size s offset =
     (if length s \<le> offset then (0, None)
      else
        let byte = ord (s ! offset);
            (bytes, decoded) =
              (if byte < 128 then (1, byte mod 128)
               else if 192 \<le> byte \<and> byte < 224 then (2, byte mod 32)
               else if 224 \<le> byte \<and> byte < 240 then (3, byte mod 16)
               else if 240 \<le> byte \<and> byte < 248 then (4, byte mod 8)
               else (0, 0))
        in if bytes = 0 then (0, None)
           else if length s - offset < bytes then (0, None)
           else case utf8_continue (substr s (offset + 1) (bytes - 1)) decoded of
             None \<Rightarrow> (0, None)
           | Some cp \<Rightarrow>
               if is_invalid_utf8_codepoint cp bytes then (0, None) else (bytes, Some cp))"
  unfolding get_utf8_codepoint_size_def Let_def
    utf8_byte_classes(1-4) [OF ord_less_256] and_low_masks ..

lemma get_utf8_codepoint_size_drop:
  "get_utf8_codepoint_size s offset = get_utf8_codepoint_size (drop offset s) 0"
proof (cases "length s \<le> offset")
  case False
  then have "drop offset s ! 0 = s ! offset" "(length (drop offset s) \<le> 0) = (length s \<le> offset)"
      "length (drop offset s) - 0 = length s - offset"
      "\<And>n. substr (drop offset s) (0 + 1) n = substr s (offset + 1) n"
    by simp_all
  then show ?thesis unfolding get_utf8_codepoint_size_def by (simp only:)
qed (simp add: get_utf8_codepoint_size_def)

text \<open>What the checker computes on the four shapes of sequences.\<close>

abbreviation utf8_cont :: "char \<Rightarrow> bool" where
  "utf8_cont c \<equiv> 128 \<le> ord c \<and> ord c < 192"

definition utf8_verdict :: "nat \<Rightarrow> nat \<Rightarrow> nat \<times> nat option" where
  "utf8_verdict cp bytes =
     (if is_invalid_utf8_codepoint cp bytes then (0, None) else (bytes, Some cp))"

lemma get_utf8_1:
  "ord a < 128 \<Longrightarrow> get_utf8_codepoint_size (a # r) 0 = utf8_verdict (ord a) 1"
  by (simp add: get_utf8_codepoint_size_eq utf8_verdict_def)

lemma get_utf8_2:
  "192 \<le> ord a \<Longrightarrow> ord a < 224 \<Longrightarrow> get_utf8_codepoint_size (a # r) 0 =
     (case r of b # _ \<Rightarrow>
        if utf8_cont b then utf8_verdict (ord a mod 32 * 64 + ord b mod 64) 2 else (0, None)
      | _ \<Rightarrow> (0, None))"
  by (cases r) (simp_all add: get_utf8_codepoint_size_eq utf8_verdict_def utf8_continue_Cons)

lemma get_utf8_3:
  "224 \<le> ord a \<Longrightarrow> ord a < 240 \<Longrightarrow> get_utf8_codepoint_size (a # r) 0 =
     (case r of b # c # _ \<Rightarrow>
        if utf8_cont b \<and> utf8_cont c
        then utf8_verdict ((ord a mod 16 * 64 + ord b mod 64) * 64 + ord c mod 64) 3 else (0, None)
      | _ \<Rightarrow> (0, None))"
  by (simp add: get_utf8_codepoint_size_eq utf8_verdict_def utf8_continue_Cons split: list.splits)

lemma get_utf8_4:
  "240 \<le> ord a \<Longrightarrow> ord a < 248 \<Longrightarrow> get_utf8_codepoint_size (a # r) 0 =
     (case r of b # c # d # _ \<Rightarrow>
        if utf8_cont b \<and> utf8_cont c \<and> utf8_cont d
        then utf8_verdict
          (((ord a mod 8 * 64 + ord b mod 64) * 64 + ord c mod 64) * 64 + ord d mod 64) 4
        else (0, None)
      | _ \<Rightarrow> (0, None))"
  by (simp add: get_utf8_codepoint_size_eq utf8_verdict_def utf8_continue_Cons split: list.splits)

lemma get_utf8_other:
  "128 \<le> ord a \<and> ord a < 192 \<or> 248 \<le> ord a \<Longrightarrow> get_utf8_codepoint_size (a # r) 0 = (0, None)"
  by (auto simp: get_utf8_codepoint_size_eq)

lemma lead_mod: "0 < k \<Longrightarrow> m * k \<le> x \<Longrightarrow> x < Suc m * k \<Longrightarrow> m * k + x mod k = (x::nat)"
  by (metis div_mult_eq_iff div_mult_mod_eq)

lemma utf8_lead_bits:
  "128 \<le> x \<Longrightarrow> x < 192 \<Longrightarrow> 128 + x mod 64 = (x::nat)"
  "192 \<le> x \<Longrightarrow> x < 224 \<Longrightarrow> 192 + x mod 32 = x"
  "224 \<le> x \<Longrightarrow> x < 240 \<Longrightarrow> 224 + x mod 16 = x"
  "240 \<le> x \<Longrightarrow> x < 248 \<Longrightarrow> 240 + x mod 8 = x"
proof -
  show "128 \<le> x \<Longrightarrow> x < 192 \<Longrightarrow> 128 + x mod 64 = (x::nat)" using lead_mod [of 64 2 x] by simp
  show "192 \<le> x \<Longrightarrow> x < 224 \<Longrightarrow> 192 + x mod 32 = x" using lead_mod [of 32 6 x] by simp
  show "224 \<le> x \<Longrightarrow> x < 240 \<Longrightarrow> 224 + x mod 16 = x" using lead_mod [of 16 14 x] by simp
  show "240 \<le> x \<Longrightarrow> x < 248 \<Longrightarrow> 240 + x mod 8 = x" using lead_mod [of 8 30 x] by simp
qed

lemma char_of_ord_eq: "n < 256 \<Longrightarrow> \<exists>a. char_of n = a \<and> ord a = n"
  by simp

text \<open>Base 64 digits of a code point.\<close>

lemma base64_digits:
  "x div 4096 * 64 + x div 64 mod 64 = x div (64::nat)"
  "x div 262144 * 64 + x div 4096 mod 64 = x div 4096"
proof -
  have "x div 4096 = x div 64 div 64" "x div 262144 = x div 4096 div 64"
    by (simp_all add: div_mult2_eq [symmetric])
  then show "x div 4096 * 64 + x div 64 mod 64 = x div (64::nat)"
    "x div 262144 * 64 + x div 4096 mod 64 = x div 4096"
    by simp_all
qed

lemma base64_compose:
  assumes "b < 64" "c < 64" "d < (64::nat)"
  shows "(a * 64 + b) div 64 = a" "(a * 64 + b) mod 64 = b"
    "((a * 64 + b) * 64 + c) div 4096 = a"
    "(((a * 64 + b) * 64 + c) * 64 + d) div 4096 = a * 64 + b"
    "(((a * 64 + b) * 64 + c) * 64 + d) div 262144 = a"
  using assms by (simp_all add: div_mult2_eq [of _ 64 64, simplified] div_mult2_eq [of _ 64 4096, simplified])

text \<open>Decoding an encoded scalar value, whatever follows it.\<close>

lemma get_utf8_encode:
  assumes "scalar_value cp"
  shows "get_utf8_codepoint_size (utf8_encode cp @ suf) 0 = (length (utf8_encode cp), Some cp)"
proof -
  have cont: "(128 + x mod 64) mod 64 = x mod (64::nat)" for x
    by (simp add: mod_add_eq [symmetric])
  have ex: "\<exists>a. char_of (128 + x mod 64) = a \<and> ord a = 128 + x mod (64::nat)" for x
    by (rule char_of_ord_eq) (use mod_less_divisor [of 64 x] in linarith)
  obtain z where z: "char_of (128 + cp mod 64) = z" "ord z = 128 + cp mod 64" using ex by blast
  obtain y where y: "char_of (128 + cp div 64 mod 64) = y" "ord y = 128 + cp div 64 mod 64"
    using ex by blast
  obtain x where x: "char_of (128 + cp div 4096 mod 64) = x" "ord x = 128 + cp div 4096 mod 64"
    using ex by blast
  have conts: "utf8_cont z" "utf8_cont y" "utf8_cont x" by (simp_all add: z(2) y(2) x(2))
  have top: "cp \<le> 0x10FFFF" using assms by (simp add: scalar_value_def)
  consider "cp < 0x80" | "0x80 \<le> cp" "cp < 0x800" | "0x800 \<le> cp" "cp < 0x10000" | "0x10000 \<le> cp"
    by linarith
  then show ?thesis
  proof cases
    case 1
    then show ?thesis
      by (simp add: get_utf8_1 utf8_encode_def utf8_verdict_def is_invalid_utf8_codepoint_def)
  next
    case 2
    then have "cp div 64 < 32" by (simp add: less_mult_imp_div_less)
    then obtain a where a: "char_of (192 + cp div 64) = a" "ord a = 192 + cp div 64"
      using char_of_ord_eq [of "192 + cp div 64"] by auto
    have "(192 + cp div 64) mod 32 * 64 + (128 + cp mod 64) mod 64 = cp"
      using \<open>cp div 64 < 32\<close> by (simp add: cont mod_add_eq [symmetric, of 192])
    with 2 a z conts(1) \<open>cp div 64 < 32\<close> show ?thesis
      by (simp add: utf8_encode_def get_utf8_2 utf8_verdict_def is_invalid_utf8_codepoint_def)
  next
    case 3
    then have "cp div 4096 < 16" by (simp add: less_mult_imp_div_less)
    then obtain a where a: "char_of (224 + cp div 4096) = a" "ord a = 224 + cp div 4096"
      using char_of_ord_eq [of "224 + cp div 4096"] by auto
    have "((224 + cp div 4096) mod 16 * 64 + (128 + cp div 64 mod 64) mod 64) * 64 +
        (128 + cp mod 64) mod 64 = cp"
      using \<open>cp div 4096 < 16\<close> base64_digits(1) [of cp]
      by (simp add: cont mod_add_eq [symmetric, of 224])
    with 3 a z y conts assms \<open>cp div 4096 < 16\<close> show ?thesis
      by (simp add: utf8_encode_def get_utf8_3 utf8_verdict_def is_invalid_utf8_codepoint_def
          scalar_value_def)
  next
    case 4
    have "cp div 262144 < 8" using top by (simp add: less_mult_imp_div_less)
    then obtain a where a: "char_of (240 + cp div 262144) = a" "ord a = 240 + cp div 262144"
      using char_of_ord_eq [of "240 + cp div 262144"] by auto
    have "(((240 + cp div 262144) mod 8 * 64 + (128 + cp div 4096 mod 64) mod 64) * 64 +
        (128 + cp div 64 mod 64) mod 64) * 64 + (128 + cp mod 64) mod 64 = cp"
      using \<open>cp div 262144 < 8\<close> base64_digits [of cp]
      by (simp add: cont mod_add_eq [symmetric, of 240])
    with 4 a z y x conts top \<open>cp div 262144 < 8\<close> show ?thesis
      by (simp add: utf8_encode_def get_utf8_4 utf8_verdict_def is_invalid_utf8_codepoint_def)
  qed
qed

lemma utf8_verdict_Some:
  "utf8_verdict cp k = (n, v) \<Longrightarrow> n \<noteq> 0 \<Longrightarrow>
     n = k \<and> v = Some cp \<and> \<not> is_invalid_utf8_codepoint cp k"
  by (auto simp: utf8_verdict_def split: if_splits)

text \<open>Conversely, an accepted sequence is the encoding of the code point it decodes to.\<close>

lemma get_utf8_decode:
  assumes "get_utf8_codepoint_size (a # r) 0 = (n, v)" "n \<noteq> 0"
  shows "\<exists>cp. scalar_value cp \<and> v = Some cp \<and> n = length (utf8_encode cp) \<and>
           take n (a # r) = utf8_encode cp"
proof -
  have small: "ord x mod 64 < 64" for x by simp
  consider "ord a < 128" | "192 \<le> ord a" "ord a < 224" | "224 \<le> ord a" "ord a < 240"
    | "240 \<le> ord a" "ord a < 248" | "128 \<le> ord a \<and> ord a < 192 \<or> 248 \<le> ord a"
    by linarith
  then show ?thesis
  proof cases
    case 1
    with assms utf8_verdict_Some [of "ord a" 1 n v]
    have "n = 1" "v = Some (ord a)" by (simp_all add: get_utf8_1)
    with 1 show ?thesis by (auto simp: utf8_encode_def scalar_value_def)
  next
    case 2
    with assms obtain b r' where r: "r = b # r'" and b: "utf8_cont b"
      and ver: "utf8_verdict (ord a mod 32 * 64 + ord b mod 64) 2 = (n, v)"
      by (auto simp: get_utf8_2 split: list.splits if_splits)
    define cp where "cp = ord a mod 32 * 64 + ord b mod 64"
    have d: "cp div 64 = ord a mod 32" "cp mod 64 = ord b mod 64"
      unfolding cp_def using base64_compose(1,2) [OF small small small] by blast+
    have "n = 2" "v = Some cp" "0x80 \<le> cp" "cp < 0x800"
      using utf8_verdict_Some [OF ver assms(2)] by (auto simp: cp_def is_invalid_utf8_codepoint_def)
    moreover from this have "utf8_encode cp = [a, b]"
      using 2 b by (simp add: utf8_encode_def d utf8_lead_bits)
    ultimately show ?thesis using r by (auto simp: scalar_value_def intro!: exI [of _ cp])
  next
    case 3
    with assms obtain b c r' where r: "r = b # c # r'" and b: "utf8_cont b" "utf8_cont c"
      and ver: "utf8_verdict ((ord a mod 16 * 64 + ord b mod 64) * 64 + ord c mod 64) 3 = (n, v)"
      by (auto simp: get_utf8_3 split: list.splits if_splits)
    define cp where "cp = (ord a mod 16 * 64 + ord b mod 64) * 64 + ord c mod 64"
    have d: "cp div 4096 = ord a mod 16" "cp div 64 mod 64 = ord b mod 64" "cp mod 64 = ord c mod 64"
      unfolding cp_def base64_compose(1,2,3) [OF small small small] by simp_all
    have "n = 3" "v = Some cp" "0x800 \<le> cp" "cp < 0x10000" "\<not> (0xD800 \<le> cp \<and> cp \<le> 0xDFFF)"
      using utf8_verdict_Some [OF ver assms(2)] by (auto simp: cp_def is_invalid_utf8_codepoint_def)
    moreover from this have "utf8_encode cp = [a, b, c]"
      using 3 b by (simp add: utf8_encode_def d utf8_lead_bits)
    ultimately show ?thesis using r by (auto simp: scalar_value_def intro!: exI [of _ cp])
  next
    case 4
    with assms obtain b c d r' where r: "r = b # c # d # r'"
      and b: "utf8_cont b" "utf8_cont c" "utf8_cont d"
      and ver: "utf8_verdict (((ord a mod 8 * 64 + ord b mod 64) * 64 + ord c mod 64) * 64 +
          ord d mod 64) 4 = (n, v)"
      by (auto simp: get_utf8_4 split: list.splits if_splits)
    define cp where "cp = ((ord a mod 8 * 64 + ord b mod 64) * 64 + ord c mod 64) * 64 + ord d mod 64"
    have dg: "cp div 262144 = ord a mod 8" "cp div 4096 mod 64 = ord b mod 64"
        "cp div 64 mod 64 = ord c mod 64" "cp mod 64 = ord d mod 64"
      unfolding cp_def base64_compose [OF small small small] by simp_all
    have "n = 4" "v = Some cp" "0x10000 \<le> cp" "cp \<le> 0x10FFFF"
      using utf8_verdict_Some [OF ver assms(2)] by (auto simp: cp_def is_invalid_utf8_codepoint_def)
    moreover from this have "utf8_encode cp = [a, b, c, d]"
      using 4 b by (simp add: utf8_encode_def dg utf8_lead_bits)
    ultimately show ?thesis using r by (auto simp: scalar_value_def intro!: exI [of _ cp])
  next
    case 5
    with assms show ?thesis by (simp add: get_utf8_other)
  qed
qed

lemma utf8_encode_not_Nil [simp]: "utf8_encode cp \<noteq> []"
  by (simp add: utf8_encode_def)

lemma is_valid_utf8_loop_sound:
  "is_valid_utf8_loop s offset \<Longrightarrow>
     \<exists>cps. (\<forall>cp \<in> set cps. scalar_value cp) \<and> drop offset s = concat (map utf8_encode cps)"
proof (induction s offset rule: is_valid_utf8_loop.induct)
  case (1 s offset)
  show ?case
  proof (cases "offset < length s")
    case False
    then show ?thesis by (intro exI [of _ "[]"]) simp
  next
    case True
    obtain n v where nv: "get_utf8_codepoint_size s offset = (n, v)" by fastforce
    from True "1.prems" nv have n: "n \<noteq> 0" and rest: "is_valid_utf8_loop s (offset + n)"
      by (simp_all add: is_valid_utf8_loop.simps [of s offset] split: if_splits)
    obtain a r where ar: "drop offset s = a # r" using True by (metis Cons_nth_drop_Suc)
    from nv have "get_utf8_codepoint_size (a # r) 0 = (n, v)"
      using ar get_utf8_codepoint_size_drop [of s offset] by simp
    from get_utf8_decode [OF this n] obtain cp where cp: "scalar_value cp"
      "take n (drop offset s) = utf8_encode cp" using ar by auto
    from "1.IH" [OF True, of "n"] nv n rest obtain cps where
      "\<forall>cp \<in> set cps. scalar_value cp" "drop (offset + n) s = concat (map utf8_encode cps)"
      by auto
    with cp have "\<forall>cp \<in> set (cp # cps). scalar_value cp"
      "drop offset s = concat (map utf8_encode (cp # cps))"
      using append_take_drop_id [of n "drop offset s"] by (auto simp: add.commute)
    then show ?thesis by blast
  qed
qed

lemma is_valid_utf8_loop_complete:
  "\<forall>cp \<in> set cps. scalar_value cp \<Longrightarrow>
     is_valid_utf8_loop (pre @ concat (map utf8_encode cps)) (length pre)"
proof (induction cps arbitrary: pre)
  case Nil
  then show ?case by (simp add: is_valid_utf8_loop.simps)
next
  case (Cons cp cps)
  let ?s = "pre @ utf8_encode cp @ concat (map utf8_encode cps)"
  have "get_utf8_codepoint_size ?s (length pre) = (length (utf8_encode cp), Some cp)"
    using Cons.prems get_utf8_codepoint_size_drop [of ?s "length pre"] get_utf8_encode by simp
  moreover have "is_valid_utf8_loop ?s (length pre + length (utf8_encode cp))"
    using Cons.IH [of "pre @ utf8_encode cp"] Cons.prems by simp
  ultimately show ?case by (simp add: is_valid_utf8_loop.simps [of ?s "length pre"])
qed

text \<open>C26: \<open>is_valid_utf8\<close> accepts exactly the strings that are concatenations of UTF-8 encodings of
  Unicode scalar values: overlong forms, surrogates, values above U+10FFFF and truncated
  sequences are refused, everything else is accepted.\<close>

theorem is_valid_utf8_iff:
  "is_valid_utf8 s \<longleftrightarrow> s \<in> {concat (map utf8_encode cps) | cps. list_all scalar_value cps}"
proof
  assume "is_valid_utf8 s"
  then show "s \<in> {concat (map utf8_encode cps) | cps. list_all scalar_value cps}"
    using is_valid_utf8_loop_sound [of s 0] by (auto simp: is_valid_utf8_def list_all_iff)
next
  assume "s \<in> {concat (map utf8_encode cps) | cps. list_all scalar_value cps}"
  then show "is_valid_utf8 s"
    using is_valid_utf8_loop_complete [of _ "[]"] by (auto simp: is_valid_utf8_def list_all_iff)
qed

end
