(* ===== verification/Str_Util.thy ===== *)
theory Str_Util
  imports Prelude
begin

text \<open>
  Model of the string helpers of \<^verbatim>\<open>mysqlshdk/libs/utils/utils_string.{h,cc}\<close> that the rest of the shell
  is built on: case-insensitive comparison, prefix and suffix tests, partitioning, splitting (with
  its callback variant), joining, stripping, substring replacement, quoting, and membership in a
  comma separated list. The theorems give the splitting/joining and quoting/unquoting round
  trips and relate the optimised index loops to reference functions on lists.
\<close>

section \<open>Case mapping and comparison\<close>

definition str_upper :: "string \<Rightarrow> string" where
  "str_upper s = map toupper s"

definition str_lower :: "string \<Rightarrow> string" where
  "str_lower s = map tolower s"

text \<open>
  \<^verbatim>\<open>strncasecmp(a, b, n) == 0\<close>: at most \<open>n\<close> characters are compared and the comparison stops
  after a NUL that is common to both strings.
\<close>

fun str_casecmp_eq :: "string \<Rightarrow> string \<Rightarrow> nat \<Rightarrow> bool" where
  "str_casecmp_eq a b 0 = True"
| "str_casecmp_eq [] [] (Suc n) = True"
| "str_casecmp_eq (x # xs) (y # ys) (Suc n) =
     (tolower x = tolower y \<and> (ord x = 0 \<or> str_casecmp_eq xs ys n))"
| "str_casecmp_eq _ _ (Suc n) = False"

definition str_caseeq :: "string \<Rightarrow> string \<Rightarrow> bool" where
  "str_caseeq a b = (if length a \<noteq> length b then False else str_casecmp_eq a b (length a))"

definition str_beginswith :: "string \<Rightarrow> string \<Rightarrow> bool" where
  "str_beginswith s p \<longleftrightarrow> take (length p) s = p"

definition str_ibeginswith :: "string \<Rightarrow> string \<Rightarrow> bool" where
  "str_ibeginswith s p = (if length s < length p then False else str_casecmp_eq s p (length p))"

definition str_endswith :: "string \<Rightarrow> string \<Rightarrow> bool" where
  "str_endswith s suf =
     (if length suf > length s then False
      else substr s (length s - length suf) (length suf) = suf)"

definition str_iendswith :: "string \<Rightarrow> string \<Rightarrow> bool" where
  "str_iendswith s suf =
     (if length suf > length s then False
      else str_casecmp_eq (drop (length s - length suf) s) suf (length suf))"

text \<open>Position of the first difference, \<open>None\<close> (npos) when the strings are equal.\<close>

function str_span_loop :: "string \<Rightarrow> string \<Rightarrow> nat \<Rightarrow> nat option" where
  "str_span_loop s1 s2 p =
     (if p < length s1 \<and> p < length s2 then
        if s1 ! p \<noteq> s2 ! p then Some p else str_span_loop s1 s2 (p + 1)
      else if p = length s1 \<and> p = length s2 then None else Some p)"
  by pat_completeness auto
termination by (relation "measure (\<lambda>(s1, s2, p). length s1 - p)") auto

declare str_span_loop.simps [simp del]

definition str_span :: "string \<Rightarrow> string \<Rightarrow> nat option" where
  "str_span s1 s2 = str_span_loop s1 s2 0"

section \<open>Partitioning\<close>

text \<open>The flag is the value stored through \<^verbatim>\<open>found_sep\<close>.\<close>

definition str_partition :: "string \<Rightarrow> string \<Rightarrow> (string \<times> string) \<times> bool" where
  "str_partition s sep =
     (case find_sub sep s of
        None \<Rightarrow> ((s, ''''), False)
      | Some p \<Rightarrow> ((take p s, drop (p + length sep) s), True))"

definition str_partition_after :: "string \<Rightarrow> string \<Rightarrow> string \<times> string" where
  "str_partition_after s sep =
     (case find_sub sep s of
        None \<Rightarrow> (s, '''')
      | Some p \<Rightarrow> (take (p + length sep) s, drop (p + length sep) s))"

section \<open>Splitting\<close>

text \<open>
  The loop of \<^verbatim>\<open>str_split\<close>. \<open>maxsplit\<close> is the C++ \<^verbatim>\<open>int\<close> that is decremented on every turn, so the
  default \<open>-1\<close> never reaches 0.
\<close>

function str_split_loop ::
  "string \<Rightarrow> string \<Rightarrow> bool \<Rightarrow> nat \<Rightarrow> nat \<Rightarrow> int \<Rightarrow> string list \<Rightarrow> string list" where
  "str_split_loop input seps compress index new_find maxsplit ret =
     (if new_find < length input then
        (case (if maxsplit \<noteq> 0 then find_first_of seps input index else None) of
           Some nf \<Rightarrow>
             str_split_loop input seps compress (nf + 1) nf (maxsplit - 1)
               (if nf > index \<or> \<not> compress \<or> nf = 0
                then ret @ [substr input index (nf - index)] else ret)
         | None \<Rightarrow> ret @ [drop index input])
      else ret)"
  by pat_completeness auto
termination
  by (relation "measure (\<lambda>(input, _, _, index, _, _, _). length input - index)")
     (auto simp: find_from_progress split: if_splits)

declare str_split_loop.simps [simp del]

definition str_split :: "string \<Rightarrow> string \<Rightarrow> int \<Rightarrow> bool \<Rightarrow> string list" where
  "str_split input seps maxsplit compress = str_split_loop input seps compress 0 0 maxsplit []"

text \<open>
  \<^verbatim>\<open>str_itersplit\<close> calls a functor for every piece and stops when it returns false. The functor works
  on a state, which stands for the variables it captures.
\<close>

function str_itersplit_loop ::
  "string \<Rightarrow> string \<Rightarrow> bool \<Rightarrow> (string \<Rightarrow> 's \<Rightarrow> bool \<times> 's) \<Rightarrow> nat \<Rightarrow> nat \<Rightarrow> int \<Rightarrow> 's \<Rightarrow> bool \<times> 's" where
  "str_itersplit_loop input seps compress f index new_find maxsplit st =
     (if new_find < length input then
        (case (if maxsplit \<noteq> 0 then find_first_of seps input index else None) of
           Some nf \<Rightarrow>
             if nf > index \<or> \<not> compress \<or> nf = 0 then
               (case f (substr input index (nf - index)) st of
                  (False, st') \<Rightarrow> (False, st')
                | (True, st') \<Rightarrow> str_itersplit_loop input seps compress f (nf + 1) nf (maxsplit - 1) st')
             else str_itersplit_loop input seps compress f (nf + 1) nf (maxsplit - 1) st
         | None \<Rightarrow> f (drop index input) st)
      else (True, st))"
  by pat_completeness auto
termination
  by (relation "measure (\<lambda>(input, _, _, _, index, _, _, _). length input - index)")
     (auto simp: find_from_progress split: if_splits)

declare str_itersplit_loop.simps [simp del]

definition str_itersplit ::
  "string \<Rightarrow> (string \<Rightarrow> 's \<Rightarrow> bool \<times> 's) \<Rightarrow> string \<Rightarrow> int \<Rightarrow> bool \<Rightarrow> 's \<Rightarrow> bool \<times> 's" where
  "str_itersplit input f seps maxsplit compress st =
     str_itersplit_loop input seps compress f 0 0 maxsplit st"

section \<open>Joining, padding, stripping\<close>

fun str_join :: "string list \<Rightarrow> string \<Rightarrow> string" where
  "str_join [] sep = []"
| "str_join [x] sep = x"
| "str_join (x # y # ys) sep = x @ sep @ str_join (y # ys) sep"

definition str_ljust :: "string \<Rightarrow> nat \<Rightarrow> char \<Rightarrow> string" where
  "str_ljust s width pad = (if length s < width then s @ replicate (width - length s) pad else s)"

definition str_rjust :: "string \<Rightarrow> nat \<Rightarrow> char \<Rightarrow> string" where
  "str_rjust s width pad = (if length s < width then replicate (width - length s) pad @ s else s)"

definition blank_chars :: string where
  "blank_chars = [CHR 0x20, CHR 0x0D, CHR 0x0A, CHR 0x09]"

definition str_strip_view :: "string \<Rightarrow> string \<Rightarrow> string" where
  "str_strip_view s chars =
     (case find_first_not_of chars s 0 of
        None \<Rightarrow> []
      | Some b \<Rightarrow> (case rfind_idx (\<lambda>x. x \<notin> set chars) s of
                    None \<Rightarrow> []
                  | Some e \<Rightarrow> substr s b (e - b + 1)))"

definition str_lstrip_view :: "string \<Rightarrow> string \<Rightarrow> string" where
  "str_lstrip_view s chars =
     (case find_first_not_of chars s 0 of None \<Rightarrow> [] | Some b \<Rightarrow> drop b s)"

definition str_rstrip_view :: "string \<Rightarrow> string \<Rightarrow> string" where
  "str_rstrip_view s chars =
     (case rfind_idx (\<lambda>x. x \<notin> set chars) s of None \<Rightarrow> [] | Some e \<Rightarrow> take (e + 1) s)"

section \<open>Replacing and quoting\<close>

function str_replace_loop :: "string \<Rightarrow> string \<Rightarrow> string \<Rightarrow> nat \<Rightarrow> string \<Rightarrow> string" where
  "str_replace_loop s frm to start str =
     (if frm = [] then str
      else case find_sub_from frm s start of
        Some p \<Rightarrow>
          str_replace_loop s frm to (p + length frm)
            ((if p > start then str @ substr s start (p - start) else str) @ to)
      | None \<Rightarrow> if start < length s then str @ drop start s else str)"
  by pat_completeness auto
termination
  by (relation "measure (\<lambda>(s, frm, to, start, str). Suc (length s) - start)")
     (auto simp: find_sub_from_progress)

declare str_replace_loop.simps [simp del]

definition str_replace :: "string \<Rightarrow> string \<Rightarrow> string \<Rightarrow> string" where
  "str_replace s frm to =
     (if frm = [] then to @ concat (map (\<lambda>c. c # to) s) else str_replace_loop s frm to 0 [])"

definition backslash :: char where
  "backslash = CHR 0x5C"

definition quote_string :: "string \<Rightarrow> char \<Rightarrow> string" where
  "quote_string s quote =
     (let bs = str_replace s [backslash] [backslash, backslash];
          esc = str_replace bs [quote] [backslash, quote]
      in quote # esc @ [quote])"

definition unquote_string :: "string \<Rightarrow> char \<Rightarrow> string" where
  "unquote_string s quote =
     (let result = (if length s \<ge> 2 \<and> s ! 0 = quote \<and> s ! (length s - 1) = quote
                    then substr s 1 (length s - 2) else s);
          r1 = str_replace result [backslash, quote] [quote]
      in str_replace r1 [backslash, backslash] [backslash])"

section \<open>Comma separated lists\<close>

definition strlist_contains :: "string \<Rightarrow> string \<Rightarrow> bool" where
  "strlist_contains lst item =
     (if lst = [] then False
      else if lst = item then True
      else case find_sub item lst of
        None \<Rightarrow> False
      | Some pos \<Rightarrow>
          if pos > 0 \<and> lst ! (pos - 1) \<noteq> CHR '','' then False
          else if pos + length item < length lst \<and> lst ! (pos + length item) \<noteq> CHR '','' then False
          else True)"

section \<open>Splitting: correctness\<close>

text \<open>Reference: cut a list at every element that satisfies a predicate.\<close>

fun split_on :: "('a \<Rightarrow> bool) \<Rightarrow> 'a list \<Rightarrow> 'a list list" where
  "split_on P [] = [[]]"
| "split_on P (x # xs) =
     (if P x then [] # split_on P xs
      else case split_on P xs of [] \<Rightarrow> [[x]] | y # ys \<Rightarrow> (x # y) # ys)"

lemma split_on_not_Nil [simp]: "split_on P xs \<noteq> []"
  by (induction xs) (auto split: list.splits)

lemma split_on_none: "\<forall>x \<in> set xs. \<not> P x \<Longrightarrow> split_on P xs = [xs]"
  by (induction xs) auto

lemma split_on_char_none: "c \<notin> set xs \<Longrightarrow> split_on (\<lambda>x. x = c) xs = [xs]"
  by (rule split_on_none) auto

lemma split_on_first:
  "\<forall>x \<in> set xs. \<not> P x \<Longrightarrow> P y \<Longrightarrow> split_on P (xs @ y # ys) = xs # split_on P ys"
  by (induction xs) auto

lemma split_on_piece: "p \<in> set (split_on P xs) \<Longrightarrow> x \<in> set p \<Longrightarrow> \<not> P x \<and> x \<in> set xs"
  by (induction xs arbitrary: p) (fastforce split: if_splits list.splits)+

lemma length_split_on: "length (split_on P xs) = Suc (length (filter P xs))"
proof (induction xs)
  case (Cons x xs)
  then show ?case by (cases "split_on P xs") auto
qed simp

lemma join_split_on: "str_join (split_on (\<lambda>x. x = c) s) [c] = s"
proof (induction s)
  case (Cons x xs)
  obtain y ys where ys: "split_on (\<lambda>x. x = c) xs = y # ys"
    by (cases "split_on (\<lambda>x. x = c) xs") auto
  with Cons show ?case by (cases ys) auto
qed simp

lemma str_split_loop_eq:
  assumes "maxsplit < 0" "new_find < length input"
  shows "str_split_loop input seps False index new_find maxsplit ret =
           ret @ split_on (\<lambda>x. x \<in> set seps) (drop index input)"
  using assms
proof (induction input seps False index new_find maxsplit ret rule: str_split_loop.induct)
  case (1 input seps index new_find maxsplit ret)
  show ?case
  proof (cases "find_first_of seps input index")
    case None
    then have "split_on (\<lambda>x. x \<in> set seps) (drop index input) = [drop index input]"
      by (intro split_on_none) (simp add: find_from_None_iff)
    with None 1(2,3) show ?thesis by (simp add: str_split_loop.simps [of input])
  next
    case (Some nf)
    note cut = find_from_split [OF Some] and bnd = find_from_bounds [OF Some]
    have "split_on (\<lambda>x. x \<in> set seps) (drop index input) =
        substr input index (nf - index) # split_on (\<lambda>x. x \<in> set seps) (drop (Suc nf) input)"
      by (subst cut(1)) (rule split_on_first [OF cut(2)], use bnd(3) in simp)
    with Some 1 bnd(2) show ?thesis
      by (subst str_split_loop.simps) simp
  qed
qed

lemma str_split_eq:
  "str_split s seps (-1) False = (if s = [] then [] else split_on (\<lambda>x. x \<in> set seps) s)"
  by (cases s) (simp_all add: str_split_def str_split_loop_eq, simp add: str_split_loop.simps)

lemma str_split_loop_acc:
  "str_split_loop input seps compress index new_find maxsplit (pre @ ret) =
     pre @ str_split_loop input seps compress index new_find maxsplit ret"
proof (induction input seps compress index new_find maxsplit ret rule: str_split_loop.induct)
  case (1 input seps compress index new_find maxsplit ret)
  then show ?case
    by (subst (1 2) str_split_loop.simps) (auto split: option.splits)
qed

text \<open>The callback variant visits the pieces that \<open>str_split\<close> returns, until a refusal.\<close>

fun visit :: "('a \<Rightarrow> 's \<Rightarrow> bool \<times> 's) \<Rightarrow> 'a list \<Rightarrow> 's \<Rightarrow> bool \<times> 's" where
  "visit f [] st = (True, st)"
| "visit f (p # ps) st =
     (case f p st of (False, st') \<Rightarrow> (False, st') | (True, st') \<Rightarrow> visit f ps st')"

lemma str_itersplit_loop_eq:
  "str_itersplit_loop input seps compress f index new_find maxsplit st =
     visit f (str_split_loop input seps compress index new_find maxsplit []) st"
proof (induction input seps compress f index new_find maxsplit st rule: str_itersplit_loop.induct)
  case (1 input seps compress f index new_find maxsplit st)
  note acc = str_split_loop_acc [where pre = "[p]" and ret = "[]" for p, simplified]
  show ?case
    using 1
    by (subst str_itersplit_loop.simps, subst str_split_loop.simps)
       (auto simp: acc split: option.splits prod.splits bool.splits)
qed

lemma visit_total: "visit (\<lambda>p st. (True, g p st)) ps st = (True, fold g ps st)"
  by (induction ps arbitrary: st) auto

text \<open>Splitting a string at one separator character and joining the pieces with it gives
  the string back, whatever the string.\<close>

theorem str_split_join_roundtrip: "str_join (str_split s [c] (-1) False) [c] = s"
  using join_split_on [of c s] by (simp add: str_split_eq)

text \<open>The pieces of an unlimited split contain no separator character, and there is exactly
  one piece more than there are separators in the input.\<close>

theorem str_split_pieces:
  assumes "s \<noteq> []"
  shows "length (str_split s seps (-1) False) = Suc (length (filter (\<lambda>x. x \<in> set seps) s)) \<and>
         (\<forall>p \<in> set (str_split s seps (-1) False). set p \<inter> set seps = {})"
  using assms by (auto simp: str_split_eq length_split_on dest: split_on_piece)

theorem str_split_pieces_witness:
  "length (str_split ''1,22,'' '','' (-1) False) = 3 \<and>
   str_split ''1,22,'' '','' (-1) False = [''1'', ''22'', '''']"
proof -
  have "length (str_split ''1,22,'' '','' (-1) False) = 3"
    using str_split_pieces [of "''1,22,''" "'',''"] by simp
  then show ?thesis by (simp add: str_split_eq)
qed

lemma str_itersplit_visit:
  "str_itersplit s f seps maxsplit compress st = visit f (str_split s seps maxsplit compress) st"
  by (simp add: str_itersplit_def str_split_def str_itersplit_loop_eq)

lemma str_itersplit_fold:
  "str_itersplit s (\<lambda>p st. (True, g p st)) seps maxsplit compress st =
     (True, fold g (str_split s seps maxsplit compress) st)"
  by (simp add: str_itersplit_visit visit_total)

text \<open>The callback version \<open>str_itersplit\<close> visits exactly the pieces \<open>str_split\<close> returns, in
  order, for every limit and with or without compression, and stops at the first piece for
  which the callback returns false.\<close>

theorem str_itersplit_visits:
  "str_itersplit s f seps maxsplit compress st = visit f (str_split s seps maxsplit compress) st"
  by (rule str_itersplit_visit)

section \<open>Stripping: correctness\<close>

lemma find_idx_dropWhile:
  "(case find_idx P s of None \<Rightarrow> [] | Some b \<Rightarrow> drop b s) = dropWhile (\<lambda>x. \<not> P x) s"
proof (induction s)
  case (Cons x s)
  then show ?case by (cases "find_idx P s") auto
qed simp

lemma rfind_idx_dropWhile:
  "(case rfind_idx P s of None \<Rightarrow> [] | Some e \<Rightarrow> take (e + 1) s) =
     rev (dropWhile (\<lambda>x. \<not> P x) (rev s))"
proof (induction s)
  case (Cons x s)
  show ?case
  proof (cases "rfind_idx P s")
    case None
    then have "\<forall>y \<in> set s. \<not> P y" by (simp add: rfind_idx_None_iff)
    then have "dropWhile (\<lambda>x. \<not> P x) (rev s @ [x]) = dropWhile (\<lambda>x. \<not> P x) [x]"
      by (intro dropWhile_append2) auto
    with None show ?thesis by simp
  next
    case (Some e)
    then have "\<exists>y \<in> set (rev s). P y" by (auto simp: rfind_idx_Some_iff)
    then have "dropWhile (\<lambda>x. \<not> P x) (rev s @ [x]) = dropWhile (\<lambda>x. \<not> P x) (rev s) @ [x]"
      by (auto intro: dropWhile_append1)
    with Some Cons show ?thesis by simp
  qed
qed simp

lemma str_lstrip_view_eq: "str_lstrip_view s chars = dropWhile (\<lambda>x. x \<in> set chars) s"
  using find_idx_dropWhile [of s "\<lambda>x. x \<notin> set chars"]
  by (auto simp: str_lstrip_view_def find_from_def split: option.splits)

lemma str_rstrip_view_eq: "str_rstrip_view s chars = rev (dropWhile (\<lambda>x. x \<in> set chars) (rev s))"
  using rfind_idx_dropWhile [of s "\<lambda>x. x \<notin> set chars"] by (simp add: str_rstrip_view_def)

lemma str_strip_view_compose:
  "str_strip_view s chars = str_lstrip_view (str_rstrip_view s chars) chars"
proof (cases "rfind_idx (\<lambda>x. x \<notin> set chars) s")
  case None
  then have "find_idx (\<lambda>x. x \<notin> set chars) s = None"
    by (simp add: rfind_idx_None_iff find_idx_None_iff)
  with None show ?thesis
    by (simp add: str_strip_view_def str_lstrip_view_def str_rstrip_view_def find_from_def)
next
  case (Some e)
  then have e: "e < length s" "s ! e \<notin> set chars" by (auto simp: rfind_idx_Some_iff)
  then have "find_idx (\<lambda>x. x \<notin> set chars) s \<noteq> None"
    by (auto simp: find_idx_None_iff)
  then obtain b where b: "find_idx (\<lambda>x. x \<notin> set chars) s = Some b" by auto
  then have be: "b \<le> e"
    using e by (auto simp: find_idx_Some_iff not_less [symmetric])
  have "find_idx (\<lambda>x. x \<notin> set chars) (take (e + 1) s) = Some b"
    using b be e by (auto simp: find_idx_Some_iff)
  then show ?thesis
    using Some b be e
    by (simp add: str_strip_view_def str_lstrip_view_def str_rstrip_view_def find_from_def drop_take
        Suc_diff_le)
qed

lemma str_strip_view_eq:
  "str_strip_view s chars =
     dropWhile (\<lambda>x. x \<in> set chars) (rev (dropWhile (\<lambda>x. x \<in> set chars) (rev s)))"
  by (simp add: str_strip_view_compose str_lstrip_view_eq str_rstrip_view_eq)

lemma str_strip_view_id:
  assumes "s = [] \<or> hd s \<notin> set chars \<and> last s \<notin> set chars"
  shows "str_strip_view s chars = s"
proof (cases "s = []")
  case False
  then obtain x xs where s: "s = x # xs" by (cases s) auto
  obtain y ys where r: "rev s = y # ys" using False by (cases "rev s") auto
  then have "y = last s" by (metis last_rev list.sel(1) rev_rev_ident)
  with assms False have "dropWhile (\<lambda>x. x \<in> set chars) (rev s) = rev s"
    unfolding r by simp
  with assms False s show ?thesis by (simp add: str_strip_view_eq)
qed (simp add: str_strip_view_eq)

lemma str_strip_view_Nil: "str_strip_view s chars = [] \<longleftrightarrow> set s \<subseteq> set chars"
proof
  assume "str_strip_view s chars = []"
  then have "\<forall>x \<in> set (dropWhile (\<lambda>x. x \<in> set chars) (rev s)). x \<in> set chars"
    unfolding str_strip_view_eq dropWhile_eq_Nil_conv set_rev .
  moreover have "hd (dropWhile (\<lambda>x. x \<in> set chars) (rev s)) \<notin> set chars"
    if "dropWhile (\<lambda>x. x \<in> set chars) (rev s) \<noteq> []"
    by (rule hd_dropWhile [OF that])
  ultimately have "dropWhile (\<lambda>x. x \<in> set chars) (rev s) = []"
    using hd_in_set by blast
  then show "set s \<subseteq> set chars" by (auto simp: dropWhile_eq_Nil_conv)
qed (auto simp: str_strip_view_eq dest!: set_dropWhileD)

lemma str_join_Cons: "str_join (x # xs) sep = x @ (if xs = [] then [] else sep @ str_join xs sep)"
  by (cases xs) auto

section \<open>Replacing and quoting: correctness\<close>

text \<open>Reference: leftmost non-overlapping replacement, by recursion on the string.\<close>

function replace_ref :: "'a list \<Rightarrow> 'a list \<Rightarrow> 'a list \<Rightarrow> 'a list" where
  "replace_ref frm to [] = []"
| "replace_ref frm to (x # xs) =
     (if frm \<noteq> [] \<and> prefix frm (x # xs)
      then to @ replace_ref frm to (drop (length frm) (x # xs))
      else x # replace_ref frm to xs)"
  by pat_completeness auto
termination
  by (relation "measure (\<lambda>(frm, to, s). length s)") (auto simp: length_greater_0_conv)

lemma replace_ref_at:
  assumes "frm \<noteq> []" "find_sub frm s = Some k"
  shows "replace_ref frm to s = take k s @ to @ replace_ref frm to (drop (k + length frm) s)"
  using assms(2)
proof (induction s arbitrary: k)
  case Nil
  with assms(1) show ?case by simp
next
  case (Cons x xs)
  show ?case
  proof (cases "prefix frm (x # xs)")
    case True
    with Cons.prems assms(1) show ?thesis by simp
  next
    case False
    with Cons.prems obtain m where "find_sub frm xs = Some m" "k = Suc m" by auto
    with Cons.IH False show ?thesis by simp
  qed
qed

lemma replace_ref_absent: "frm \<noteq> [] \<Longrightarrow> find_sub frm s = None \<Longrightarrow> replace_ref frm to s = s"
  by (induction s) (auto split: if_splits)

lemma str_replace_loop_eq:
  assumes "frm \<noteq> []" "start \<le> length s"
  shows "str_replace_loop s frm to start str = str @ replace_ref frm to (drop start s)"
  using assms
proof (induction s frm to start str rule: str_replace_loop.induct)
  case (1 s frm to start str)
  show ?case
  proof (cases "find_sub_from frm s start")
    case None
    then have "find_sub frm (drop start s) = None"
      using 1(3) by (simp add: find_sub_from_def)
    then have "replace_ref frm to (drop start s) = drop start s"
      by (rule replace_ref_absent [OF 1(2)])
    with None 1(2,3) show ?thesis by (subst str_replace_loop.simps) auto
  next
    case (Some p)
    then obtain d where d: "p = start + d" "find_sub frm (drop start s) = Some d"
      using 1(3) by (auto simp: find_sub_from_def)
    have "p + length frm \<le> length s" using find_sub_from_bounds(2) [OF Some] .
    moreover have "(if p > start then str @ substr s start (p - start) else str) =
        str @ substr s start (p - start)" by simp
    ultimately show ?thesis
      using 1(1) [OF 1(2) Some] 1(2) Some replace_ref_at [OF 1(2) d(2)] d(1)
      by (cases "d = 0") (subst str_replace_loop.simps, simp add: ac_simps)+
  qed
qed

lemma str_replace_eq: "frm \<noteq> [] \<Longrightarrow> str_replace s frm to = replace_ref frm to s"
  by (simp add: str_replace_def str_replace_loop_eq)

lemma replace_ref_char:
  "replace_ref [c] to s = concat (map (\<lambda>x. if x = c then to else [x]) s)"
  by (induction s) auto

text \<open>The escaped form of a string inside quotes, and its two unescaping passes.\<close>

definition escape_quoted :: "char \<Rightarrow> string \<Rightarrow> string" where
  "escape_quoted q s = concat (map (\<lambda>x. if x = backslash \<or> x = q then [backslash, x] else [x]) s)"

lemma escape_quoted_Cons:
  "escape_quoted q (x # xs) =
     (if x = backslash \<or> x = q then backslash # x # escape_quoted q xs
      else x # escape_quoted q xs)"
  by (simp add: escape_quoted_def)

lemma quote_string_eq:
  assumes "q \<noteq> backslash"
  shows "quote_string s q = q # escape_quoted q s @ [q]"
proof -
  have "concat (map (\<lambda>x. if x = q then [backslash, q] else [x])
          (concat (map (\<lambda>x. if x = backslash then [backslash, backslash] else [x]) s))) =
        escape_quoted q s"
    using assms by (induction s) (auto simp: escape_quoted_def)
  then show ?thesis
    by (simp add: quote_string_def Let_def str_replace_eq replace_ref_char)
qed

lemma escape_quoted_hd: "q \<noteq> backslash \<Longrightarrow> \<not> prefix [q] (escape_quoted q s)"
  by (cases s) (auto simp: escape_quoted_def)

lemma replace_ref_escape_quoted:
  assumes "q \<noteq> backslash"
  shows "replace_ref [backslash, q] [q] (escape_quoted q s) =
           concat (map (\<lambda>x. if x = backslash then [backslash, backslash] else [x]) s)"
proof (induction s)
  case (Cons x xs)
  have "\<not> prefix [q] (escape_quoted q xs)" by (rule escape_quoted_hd [OF assms])
  with Cons assms show ?case by (auto simp: escape_quoted_Cons)
qed (simp add: escape_quoted_def)

lemma replace_ref_double_backslash:
  "replace_ref [backslash, backslash] [backslash]
     (concat (map (\<lambda>x. if x = backslash then [backslash, backslash] else [x]) s)) = s"
  by (induction s) auto

text \<open>\<open>unquote_string\<close> is the inverse of \<open>quote_string\<close>: a string quoted with any quote
  character but the backslash is read back unchanged, although unquoting works by two global
  replacements.\<close>

theorem unquote_quote_roundtrip:
  assumes "q \<noteq> backslash"
  shows "unquote_string (quote_string s q) q = s"
proof -
  let ?e = "escape_quoted q s"
  have "substr (q # ?e @ [q]) 1 (length (q # ?e @ [q]) - 2) = ?e" by simp
  moreover have "(q # ?e @ [q]) ! (length (q # ?e @ [q]) - 1) = q"
    by (simp add: nth_append)
  ultimately show ?thesis
    using replace_ref_escape_quoted [OF assms] replace_ref_double_backslash
    by (simp add: unquote_string_def quote_string_eq [OF assms] Let_def str_replace_eq)
qed

theorem unquote_quote_roundtrip_witness:
  "CHR 0x27 \<noteq> backslash \<and>
   unquote_string (quote_string [CHR ''a'', CHR 0x5C, CHR 0x27] CHR 0x27) CHR 0x27 =
     [CHR ''a'', CHR 0x5C, CHR 0x27]"
proof -
  have "CHR 0x27 \<noteq> backslash" by (simp add: backslash_def)
  then show ?thesis using unquote_quote_roundtrip [of "CHR 0x27"] by blast
qed

section \<open>Comma separated lists: correctness\<close>

lemma split_on_append: "P c \<Longrightarrow> split_on P (xs @ c # ys) = split_on P xs @ split_on P ys"
proof (induction xs)
  case (Cons x xs)
  then show ?case by (cases "split_on P xs") auto
qed simp

lemma split_on_middle:
  assumes "\<forall>x \<in> set m. \<not> P x" "pre = [] \<or> P (last pre)" "post = [] \<or> P (hd post)"
  shows "m \<in> set (split_on P (pre @ m @ post))"
proof -
  have tail: "m \<in> set (split_on P (m @ post))"
    using assms(1,3) by (cases post) (simp_all add: split_on_none split_on_first)
  show ?thesis
  proof (cases pre rule: rev_cases)
    case Nil
    with tail show ?thesis by simp
  next
    case (snoc pre' c)
    with assms(2) tail show ?thesis by (simp add: split_on_append)
  qed
qed

text \<open>\<open>strlist_contains\<close> is sound: when it answers true for an item without a comma, the item
  is one of the comma separated elements of the list.\<close>

theorem strlist_contains_sound:
  assumes "strlist_contains lst item" "CHR '','' \<notin> set item"
  shows "item \<in> set (str_split lst '','' (-1) False)"
proof (cases "lst = item")
  case True
  moreover have "lst \<noteq> []" using assms(1) by (auto simp: strlist_contains_def)
  ultimately show ?thesis
    using assms(2) split_on_middle [of item "\<lambda>x. x \<in> set '',''" "[]" "[]"]
    by (fastforce simp: str_split_eq)
next
  case False
  have ne: "lst \<noteq> []" using assms(1) by (auto simp: strlist_contains_def)
  obtain pos where pos: "find_sub item lst = Some pos"
    and l: "pos > 0 \<longrightarrow> lst ! (pos - 1) = CHR '',''"
    and r: "pos + length item < length lst \<longrightarrow> lst ! (pos + length item) = CHR '',''"
    using assms(1) False ne by (auto simp: strlist_contains_def split: option.splits if_splits)
  have p: "pos \<le> length lst" "prefix item (drop pos lst)"
    using pos by (auto simp: find_sub_Some_iff)
  then obtain post where post: "drop pos lst = item @ post" by (auto simp: prefix_def)
  then have lst: "lst = take pos lst @ item @ post" by (metis append_take_drop_id)
  have "take pos lst = [] \<or> last (take pos lst) = CHR '',''"
    using l p(1) by (cases "pos = 0") (simp_all add: last_conv_nth ne)
  moreover have "post = [] \<or> hd post = CHR '',''"
  proof (cases "post = []")
    case False
    have "post = drop (pos + length item) lst"
      by (metis post drop_drop add.commute append_eq_conv_conj)
    with False have "pos + length item < length lst" "hd post = lst ! (pos + length item)"
      by (auto simp: hd_drop_conv_nth)
    with r show ?thesis by simp
  qed simp
  ultimately have "item \<in> set (split_on (\<lambda>x. x \<in> set '','') (take pos lst @ item @ post))"
    using assms(2) by (intro split_on_middle) auto
  with lst ne show ?thesis by (simp add: str_split_eq)
qed

theorem strlist_contains_sound_witness:
  "strlist_contains ''PAD_CHAR,ANSI'' ''ANSI'' \<and>
   ''ANSI'' \<in> set (str_split ''PAD_CHAR,ANSI'' '','' (-1) False)"
proof -
  have "strlist_contains ''PAD_CHAR,ANSI'' ''ANSI''" by (simp add: strlist_contains_def)
  then show ?thesis using strlist_contains_sound [of "''PAD_CHAR,ANSI''" "''ANSI''"] by simp
qed

text \<open>\<open>strlist_contains\<close> is not complete: it looks at the first occurrence of the item only, so
  an element that also occurs inside an earlier element is missed.\<close>

theorem strlist_contains_incomplete:
  "\<not> strlist_contains ''ab,b'' ''b'' \<and> ''b'' \<in> set (str_split ''ab,b'' '','' (-1) False)"
  by (simp add: strlist_contains_def str_split_eq)

section \<open>Splitting once\<close>

lemma str_split_once:
  "s \<noteq> [] \<Longrightarrow> str_split s seps 1 False =
     (case find_first_of seps s 0 of None \<Rightarrow> [s] | Some p \<Rightarrow> [take p s, drop (Suc p) s])"
proof (cases "find_first_of seps s 0")
  case (Some p)
  assume "s \<noteq> []"
  moreover have "p < length s" using find_from_bounds(2) [OF Some] .
  ultimately show ?thesis
    using Some by (simp add: str_split_def str_split_loop.simps [of s])
qed (simp add: str_split_def str_split_loop.simps)

lemma str_split_once_absent:
  "s \<noteq> [] \<Longrightarrow> set s \<inter> set seps = {} \<Longrightarrow> str_split s seps 1 False = [s]"
  by (subst str_split_once) (auto simp: find_from_None_iff dest!: find_from_bounds(2,3) split: option.splits)

lemma str_split_once_at:
  assumes "set a \<inter> set seps = {}" "c \<in> set seps"
  shows "str_split (a @ c # b) seps 1 False = [a, b]"
proof -
  have "find_first_of seps (a @ c # b) 0 = Some (length a)"
    using assms by (auto simp: find_from_def intro!: find_idx_first)
  then show ?thesis by (simp add: str_split_once)
qed

end
