(* ===== verification/Version.thy ===== *)
theory Version
  imports Str_Util
begin

text \<open>
  Model of class \<^verbatim>\<open>Version\<close> of \<^verbatim>\<open>mysqlshdk/libs/utils/version.{h,cc}\<close>: parsing, printing, the numeric
  form and the comparison operators. Theorems: a parsed version has no negative component, printing
  and parsing are inverse, and the operators form a total preorder that agrees with the
  numeric form on two-digit components.
\<close>

record version =
  v_major :: int
  v_minor :: "int option"
  v_patch :: "int option"
  v_extra :: "string option"

definition empty_version :: version where
  "empty_version = \<lparr>v_major = 0, v_minor = None, v_patch = None, v_extra = None\<rparr>"

definition Version2 :: "int \<Rightarrow> int \<Rightarrow> version" where
  "Version2 major minor = \<lparr>v_major = major, v_minor = Some minor, v_patch = None, v_extra = None\<rparr>"

definition Version3 :: "int \<Rightarrow> int \<Rightarrow> int \<Rightarrow> version" where
  "Version3 major minor patch =
     \<lparr>v_major = major, v_minor = Some minor, v_patch = Some patch, v_extra = None\<rparr>"

definition get_major :: "version \<Rightarrow> int" where
  "get_major v = v_major v"

definition get_minor :: "version \<Rightarrow> int" where
  "get_minor v = (case v_minor v of Some m \<Rightarrow> m | None \<Rightarrow> 0)"

definition get_patch :: "version \<Rightarrow> int" where
  "get_patch v = (case v_patch v of Some p \<Rightarrow> p | None \<Rightarrow> 0)"

definition has_patch :: "version \<Rightarrow> bool" where
  "has_patch v \<longleftrightarrow> v_patch v \<noteq> None"

definition get_extra :: "version \<Rightarrow> string" where
  "get_extra v = (case v_extra v of Some e \<Rightarrow> e | None \<Rightarrow> '''')"

section \<open>Parsing\<close>

text \<open>
  \<^verbatim>\<open>std::from_chars\<close> for \<^verbatim>\<open>int\<close>: an optional minus sign, then the longest run of digits; the value
  must fit into 32 bits. The result is the value and the number of characters consumed.
\<close>

datatype from_chars_result = Fc_ok int nat | Fc_invalid_argument | Fc_out_of_range

definition int_min :: int where "int_min = - (2 ^ 31)"
definition int_max :: int where "int_max = 2 ^ 31 - 1"

definition from_chars_int :: "string \<Rightarrow> from_chars_result" where
  "from_chars_int s =
     (let neg = (s \<noteq> [] \<and> hd s = CHR ''-'');
          ds = takeWhile isdigit (if neg then tl s else s);
          v = (if neg then - int (digits_val ds) else int (digits_val ds))
      in if ds = [] then Fc_invalid_argument
         else if v < int_min \<or> int_max < v then Fc_out_of_range
         else Fc_ok v (length ds + (if neg then 1 else 0)))"

definition parse_token :: "string \<Rightarrow> int result" where
  "parse_token data =
     (case from_chars_int data of
        Fc_ok v used \<Rightarrow>
          if used \<noteq> length data
          then Inl (Invalid_argument ''Error parsing version: Only digits allowed for version numbers'')
          else Inr v
      | Fc_invalid_argument \<Rightarrow> Inl (Invalid_argument ''Error parsing version: Not an integer'')
      | Fc_out_of_range \<Rightarrow> Inl (Invalid_argument ''Error parsing version: Out of integer range''))"

definition version_format_error :: cpp_error where
  "version_format_error =
     Invalid_argument ''Invalid version format: 1 to 3 version numbers expected''"

text \<open>The constructor from a string, with its special case for five digits (\<open>80011\<close>).\<close>

definition Version :: "string \<Rightarrow> version result" where
  "Version version =
     (if version = [] then Inr empty_version
      else
        let tokens = str_split version ''-'' 1 False
        in if length tokens = 1 \<and> length version = 5 \<and> list_all isdigit version then
             rbind (parse_token (substr version 0 1)) (\<lambda>major.
             rbind (parse_token (substr version 1 2)) (\<lambda>minor.
             rbind (parse_token (substr version 3 2)) (\<lambda>patch.
             Inr \<lparr>v_major = major, v_minor = Some minor, v_patch = Some patch, v_extra = None\<rparr>)))
           else
             let extra = (if length tokens = 2 then Some (tokens ! 1) else None)
             in case str_split (tokens ! 0) ''.'' (-1) False of
                  [a, b, c] \<Rightarrow>
                    rbind (parse_token c) (\<lambda>patch.
                    rbind (parse_token b) (\<lambda>minor.
                    rbind (parse_token a) (\<lambda>major.
                    Inr \<lparr>v_major = major, v_minor = Some minor, v_patch = Some patch, v_extra = extra\<rparr>)))
                | [a, b] \<Rightarrow>
                    rbind (parse_token b) (\<lambda>minor.
                    rbind (parse_token a) (\<lambda>major.
                    Inr \<lparr>v_major = major, v_minor = Some minor, v_patch = None, v_extra = extra\<rparr>))
                | [a] \<Rightarrow>
                    rbind (parse_token a) (\<lambda>major.
                    Inr \<lparr>v_major = major, v_minor = None, v_patch = None, v_extra = extra\<rparr>)
                | _ \<Rightarrow> Inl version_format_error)"

section \<open>Printing\<close>

definition get_short :: "version \<Rightarrow> string" where
  "get_short v =
     show_int (v_major v) @ (case v_minor v of Some m \<Rightarrow> ''.'' @ show_int m | None \<Rightarrow> [])"

definition get_base :: "version \<Rightarrow> string" where
  "get_base v =
     get_short v @
     (case (v_minor v, v_patch v) of (Some _, Some p) \<Rightarrow> ''.'' @ show_int p | _ \<Rightarrow> [])"

definition get_full :: "version \<Rightarrow> string" where
  "get_full v = get_base v @ (case v_extra v of Some e \<Rightarrow> ''-'' @ e | None \<Rightarrow> [])"

definition numeric :: "version \<Rightarrow> 32 word" where
  "numeric v = of_int (get_major v * 10000 + get_minor v * 100 + get_patch v)"

definition numeric_version_series :: "version \<Rightarrow> 32 word" where
  "numeric_version_series v = numeric v div 100"

definition is_mds :: "version \<Rightarrow> bool" where
  "is_mds v = (case v_extra v of None \<Rightarrow> False | Some e \<Rightarrow> str_endswith e ''cloud'')"

section \<open>Comparison\<close>

definition ver_less :: "version \<Rightarrow> version \<Rightarrow> bool" where
  "ver_less a b \<longleftrightarrow>
     v_major a < v_major b \<or>
     (v_major a = v_major b \<and>
       (get_minor a < get_minor b \<or>
        (get_minor a = get_minor b \<and> get_patch a < get_patch b)))"

definition ver_le :: "version \<Rightarrow> version \<Rightarrow> bool" where
  "ver_le a b \<longleftrightarrow>
     ver_less a b \<or>
     (v_major a = v_major b \<and> get_minor a = get_minor b \<and> get_patch a = get_patch b)"

definition ver_greater :: "version \<Rightarrow> version \<Rightarrow> bool" where
  "ver_greater a b \<longleftrightarrow> \<not> ver_le a b"

definition ver_ge :: "version \<Rightarrow> version \<Rightarrow> bool" where
  "ver_ge a b \<longleftrightarrow> \<not> ver_less a b"

definition ver_eq :: "version \<Rightarrow> version \<Rightarrow> bool" where
  "ver_eq a b \<longleftrightarrow>
     v_major a = v_major b \<and> get_minor a = get_minor b \<and> get_patch a = get_patch b"

definition ver_ne :: "version \<Rightarrow> version \<Rightarrow> bool" where
  "ver_ne a b \<longleftrightarrow> \<not> ver_eq a b"

definition ver_bool :: "version \<Rightarrow> bool" where
  "ver_bool v \<longleftrightarrow> \<not> (get_major v = 0 \<and> get_minor v = 0 \<and> get_patch v = 0)"

section \<open>Parsing: correctness\<close>

lemma parse_token_nonneg:
  "parse_token s = Inr n \<Longrightarrow> CHR ''-'' \<notin> set s \<Longrightarrow> 0 \<le> n \<and> n \<le> int_max"
  by (auto simp: parse_token_def from_chars_int_def Let_def split: if_splits dest: hd_in_set)

lemma parse_token_show_int: "0 \<le> n \<Longrightarrow> n \<le> int_max \<Longrightarrow> parse_token (show_int n) = Inr n"
proof -
  assume n: "0 \<le> n" "n \<le> int_max"
  have "takeWhile isdigit (show_nat (nat n)) = show_nat (nat n)"
    using takeWhile_digits_show_nat [of "[]"] by simp
  moreover have "hd (show_nat (nat n)) \<noteq> CHR ''-''"
    using show_nat_digits [OF hd_in_set [OF show_nat_not_Nil, of "nat n"]]
    by (auto simp: isdigit_def)
  moreover have "int_min \<le> 0" by (simp add: int_min_def)
  ultimately show ?thesis
    using n by (simp add: parse_token_def from_chars_int_def show_int_nonneg Let_def
        takeWhile_eq_all_conv [THEN iffD2])
qed

text \<open>The components a successful parse can deliver.\<close>

definition version_ok :: "version \<Rightarrow> bool" where
  "version_ok v \<longleftrightarrow>
     0 \<le> v_major v \<and> v_major v \<le> int_max \<and>
     (case v_minor v of Some m \<Rightarrow> 0 \<le> m \<and> m \<le> int_max | None \<Rightarrow> v_patch v = None) \<and>
     (case v_patch v of Some p \<Rightarrow> 0 \<le> p \<and> p \<le> int_max | None \<Rightarrow> True)"

lemma str_split_piece_subset:
  "p \<in> set (str_split s seps (-1) False) \<Longrightarrow> set p \<subseteq> set s"
  using split_on_piece [of p "\<lambda>x. x \<in> set seps" s] by (auto simp: str_split_eq split: if_splits)

lemma first_token_no_dash: "s \<noteq> [] \<Longrightarrow> CHR ''-'' \<notin> set (str_split s ''-'' 1 False ! 0)"
proof (cases "find_first_of ''-'' s 0")
  case None
  moreover assume "s \<noteq> []"
  ultimately show ?thesis using find_from_None_iff [of "\<lambda>x. x \<in> set ''-''" s 0]
    by (auto simp: str_split_once)
next
  case (Some p)
  moreover assume "s \<noteq> []"
  ultimately show ?thesis using find_from_split(2) [OF Some] by (auto simp: str_split_once)
qed

text \<open>C40: a version parsed from a string has major, minor and patch numbers between 0 and
  \<^verbatim>\<open>INT_MAX\<close>, and a patch number only together with a minor number.\<close>

theorem Version_parse_ok:
  assumes "Version s = Inr v"
  shows "version_ok v"
proof (cases "s = []")
  case True
  with assms show ?thesis by (auto simp: Version_def empty_version_def version_ok_def int_max_def)
next
  case False
  define t where "t = str_split s ''-'' 1 False"
  show ?thesis
  proof (cases "length t = 1 \<and> length s = 5 \<and> list_all isdigit s")
    case True
    then have nd: "CHR ''-'' \<notin> set s" by (auto simp: list_all_iff isdigit_def)
    then have "CHR ''-'' \<notin> set (substr s 0 1)" "CHR ''-'' \<notin> set (substr s 1 2)"
        "CHR ''-'' \<notin> set (substr s 3 2)"
      by (auto dest: in_set_takeD in_set_dropD)
    with assms False True show ?thesis
      by (auto simp: Version_def t_def Let_def version_ok_def dest!: parse_token_nonneg)
  next
    case no5: False
    have nd: "CHR ''-'' \<notin> set (t ! 0)" using first_token_no_dash [OF False] by (simp add: t_def)
    have "CHR ''-'' \<notin> set p" if "p \<in> set (str_split (t ! 0) ''.'' (-1) False)" for p
      using str_split_piece_subset [OF that] nd by blast
    with assms False no5 show ?thesis
      by (auto simp: Version_def t_def [symmetric] Let_def version_ok_def
          split: list.splits dest!: parse_token_nonneg)
  qed
qed

theorem Version_parse_ok_witness:
  "Version ''8.4.11-cloud'' =
     Inr \<lparr>v_major = 8, v_minor = Some 4, v_patch = Some 11, v_extra = Some ''cloud''\<rparr> \<and>
   version_ok \<lparr>v_major = 8, v_minor = Some 4, v_patch = Some 11, v_extra = Some ''cloud''\<rparr>"
proof -
  have "Version ''8.4.11-cloud'' =
     Inr \<lparr>v_major = 8, v_minor = Some 4, v_patch = Some 11, v_extra = Some ''cloud''\<rparr>"
    by (simp add: Version_def str_split_once find_from_def str_split_eq parse_token_def
        from_chars_int_def digits_val_def digit_val_def isdigit_def int_min_def int_max_def)
  then show ?thesis using Version_parse_ok by blast
qed

section \<open>Printing and parsing\<close>

text \<open>
  The versions whose printed form reads back: the one exception among the valid ones is a bare
  five digit major number, which the constructor takes for the \<open>80011\<close> form.
\<close>

definition version_printable :: "version \<Rightarrow> bool" where
  "version_printable v \<longleftrightarrow>
     version_ok v \<and>
     \<not> (v_minor v = None \<and> v_extra v = None \<and> 10000 \<le> v_major v \<and> v_major v \<le> 99999)"

lemma show_int_chars:
  "0 \<le> n \<Longrightarrow> CHR ''-'' \<notin> set (show_int n) \<and> CHR ''.'' \<notin> set (show_int n) \<and> show_int n \<noteq> []"
  using not_digit_notin_show_nat [of "CHR ''-''" "nat n"] not_digit_notin_show_nat [of "CHR ''.''" "nat n"]
  by (simp add: show_int_nonneg isdigit_def)

lemma split_dots:
  assumes "CHR ''.'' \<notin> set a" "a \<noteq> []"
  shows "str_split a ''.'' (-1) False = [a]"
    and "CHR ''.'' \<notin> set b \<Longrightarrow> str_split (a @ ''.'' @ b) ''.'' (-1) False = [a, b]"
    and "CHR ''.'' \<notin> set b \<Longrightarrow> CHR ''.'' \<notin> set c \<Longrightarrow>
           str_split (a @ ''.'' @ b @ ''.'' @ c) ''.'' (-1) False = [a, b, c]"
  using assms by (auto simp: str_split_eq split_on_append split_on_char_none)

lemma get_base_no_dash: "version_ok v \<Longrightarrow> CHR ''-'' \<notin> set (get_base v) \<and> get_base v \<noteq> []"
  by (auto simp: get_base_def get_short_def version_ok_def show_int_chars split: option.splits)

text \<open>The five digit test fails on every printable version without a suffix.\<close>

lemma get_base_not_five_digits:
  assumes "version_printable v" "v_extra v = None"
  shows "\<not> (length (get_base v) = 5 \<and> list_all isdigit (get_base v))"
proof (cases "v_minor v")
  case (Some m)
  then have "CHR ''.'' \<in> set (get_base v)" by (simp add: get_base_def get_short_def)
  moreover have "\<not> isdigit CHR ''.''" by (simp add: isdigit_def)
  ultimately show ?thesis by (auto simp: list_all_iff)
next
  case None
  then have "get_base v = show_nat (nat (v_major v))" and "\<not> (10000 \<le> v_major v \<and> v_major v \<le> 99999)"
    using assms by (auto simp: version_printable_def version_ok_def get_base_def get_short_def show_int_nonneg)
  moreover have "10000 \<le> k \<and> k < 100000" if "length (show_nat k) = 5" for k
    using show_nat_length_le [of 5 k] show_nat_length_le [of 4 k] that by simp
  ultimately show ?thesis by fastforce
qed

lemma Version_get_base_tokens:
  assumes "version_ok v" "t = get_base v"
    "\<not> (v_extra v = None \<and> length t = 5 \<and> list_all isdigit t)"
  shows "Version (get_full v) = Inr v"
proof -
  have t: "CHR ''-'' \<notin> set t" "t \<noteq> []" using get_base_no_dash [OF assms(1)] assms(2) by auto
  define tokens where "tokens = (case v_extra v of None \<Rightarrow> [t] | Some e \<Rightarrow> [t, e])"
  have split: "str_split (get_full v) ''-'' 1 False = tokens"
    using t str_split_once_at [of t "''-''" "CHR ''-''"]
    by (auto simp: get_full_def assms(2) tokens_def str_split_once_absent split: option.splits)
  have full: "get_full v \<noteq> []" "length tokens = 1 \<Longrightarrow> get_full v = t"
    using t by (auto simp: get_full_def assms(2) tokens_def split: option.splits)
  have tok: "tokens ! 0 = t" "(if length tokens = 2 then Some (tokens ! 1) else None) = v_extra v"
    "length tokens = 1 \<longleftrightarrow> v_extra v = None"
    by (auto simp: tokens_def split: option.splits)
  have no5: "\<not> (length tokens = 1 \<and> length (get_full v) = 5 \<and> list_all isdigit (get_full v))"
    using full(2) tok(3) assms(3) by auto
  obtain a mi p e where v: "v = \<lparr>v_major = a, v_minor = mi, v_patch = p, v_extra = e\<rparr>"
    by (cases v) auto
  have dots: "str_split t ''.'' (-1) False =
      show_int a # (case mi of None \<Rightarrow> [] | Some m \<Rightarrow>
        show_int m # (case p of None \<Rightarrow> [] | Some q \<Rightarrow> [show_int q]))"
    using assms(1,2) v split_dots [of "show_int a"]
    by (auto simp: get_base_def get_short_def version_ok_def show_int_chars split: option.splits)
  show ?thesis
    unfolding Version_def Let_def split tok(1,2) dots if_not_P [OF full(1)] if_not_P [OF no5]
    using assms(1) by (simp add: v version_ok_def parse_token_show_int split: option.splits)
qed

text \<open>Printing a version and parsing the text gives the version back, with its suffix, for
  every version with valid components other than a bare five digit major number.\<close>

theorem Version_get_full_roundtrip:
  assumes "version_printable v"
  shows "Version (get_full v) = Inr v"
  using assms get_base_not_five_digits [OF assms] Version_get_base_tokens [of v "get_base v"]
  by (auto simp: version_printable_def)

theorem Version_get_full_roundtrip_witness:
  "version_printable (Version3 9 7 2) \<and> Version (get_full (Version3 9 7 2)) = Inr (Version3 9 7 2)"
proof -
  have "version_printable (Version3 9 7 2)"
    by (simp add: version_printable_def version_ok_def Version3_def int_max_def)
  then show ?thesis using Version_get_full_roundtrip by blast
qed

section \<open>Comparison: correctness\<close>

text \<open>
  The contract that code ordering things with \<^verbatim>\<open><\<close>, \<^verbatim>\<open><=\<close> and \<^verbatim>\<open>==\<close> relies on: a strict weak order with its
  derived relations.
\<close>

locale weak_order =
  fixes lt :: "'a \<Rightarrow> 'a \<Rightarrow> bool"
    and le :: "'a \<Rightarrow> 'a \<Rightarrow> bool"
    and eqv :: "'a \<Rightarrow> 'a \<Rightarrow> bool"
  assumes lt_irrefl: "\<not> lt a a"
    and lt_trans: "lt a b \<Longrightarrow> lt b c \<Longrightarrow> lt a c"
    and lt_cotrans: "lt a c \<Longrightarrow> lt a b \<or> lt b c"
    and le_iff: "le a b \<longleftrightarrow> \<not> lt b a"
    and eqv_iff: "eqv a b \<longleftrightarrow> \<not> lt a b \<and> \<not> lt b a"
begin

lemma total: "le a b \<or> le b a"
  using lt_irrefl lt_trans le_iff by blast

lemma le_refl: "le a a"
  using lt_irrefl le_iff by blast

lemma le_le_trans: "le a b \<Longrightarrow> le b c \<Longrightarrow> le a c"
  using lt_cotrans le_iff by blast

lemma lt_le_trans: "lt a b \<Longrightarrow> le b c \<Longrightarrow> lt a c"
  using lt_cotrans le_iff by blast

lemma le_lt_trans: "le a b \<Longrightarrow> lt b c \<Longrightarrow> lt a c"
  using lt_cotrans le_iff by blast

lemma lt_imp_le: "lt a b \<Longrightarrow> le a b"
  using lt_irrefl lt_trans le_iff by blast

lemma antisym: "eqv a b \<longleftrightarrow> le a b \<and> le b a"
  using le_iff eqv_iff by blast

lemma eqv_equiv: "eqv a a \<and> (eqv a b \<longrightarrow> eqv b a) \<and> (eqv a b \<longrightarrow> eqv b c \<longrightarrow> eqv a c)"
  using antisym le_refl le_le_trans by blast

text \<open>Iterating an increasing function gives a strictly increasing sequence.\<close>

lemma iterate_increasing:
  assumes "\<And>x. ok x \<Longrightarrow> lt x (f x) \<and> ok (f x)" "ok x" "m < n"
  shows "lt ((f ^^ m) x) ((f ^^ n) x)"
proof -
  have oks: "ok ((f ^^ k) x)" for k
    using assms(1,2) by (induction k) auto
  show ?thesis
    using assms(3)
  proof (induction n)
    case (Suc n)
    have "lt ((f ^^ n) x) ((f ^^ Suc n) x)" using assms(1) oks by simp
    with Suc show ?case using lt_trans less_Suc_eq by metis
  qed simp
qed

end

lemmas ver_cmp_defs =
  ver_less_def ver_le_def ver_greater_def ver_ge_def ver_eq_def ver_ne_def

interpretation ver: weak_order ver_less ver_le ver_eq
  by unfold_locales (auto simp: ver_cmp_defs)

text \<open>The six comparison operators agree with each other and order the versions: \<^verbatim>\<open><=\<close> is a
  total preorder, \<^verbatim>\<open>==\<close> is its equivalence, \<^verbatim>\<open><\<close> its strict part, and \<^verbatim>\<open>>\<close>, \<^verbatim>\<open>>=\<close>, \<^verbatim>\<open>!=\<close> are
  the converses and the negation.\<close>

theorem version_operators_total_preorder:
  "(ver_le a b \<or> ver_le b a) \<and>
   (ver_le a b \<and> ver_le b c \<longrightarrow> ver_le a c) \<and>
   (ver_less a b \<longleftrightarrow> ver_le a b \<and> \<not> ver_le b a) \<and>
   (ver_eq a b \<longleftrightarrow> ver_le a b \<and> ver_le b a) \<and>
   (ver_greater a b \<longleftrightarrow> ver_less b a) \<and>
   (ver_ge a b \<longleftrightarrow> ver_le b a) \<and>
   (ver_ne a b \<longleftrightarrow> ver_less a b \<or> ver_less b a)"
  using ver.total ver.le_le_trans ver.le_iff ver.antisym ver.lt_imp_le ver.eqv_iff
  unfolding ver_greater_def ver_ge_def ver_ne_def by blast

theorem version_operators_total_preorder_witness:
  "ver_le (Version3 8 0 11) (Version3 8 4 0) \<and> ver_le (Version3 8 4 0) (Version2 9 7) \<and>
   ver_le (Version3 8 0 11) (Version2 9 7)"
proof -
  have "ver_le (Version3 8 0 11) (Version3 8 4 0)" "ver_le (Version3 8 4 0) (Version2 9 7)"
    by (simp_all add: ver_cmp_defs Version3_def Version2_def get_minor_def get_patch_def)
  then show ?thesis
    using version_operators_total_preorder
      [of "Version3 8 0 11" "Version3 8 4 0" "Version2 9 7"] by blast
qed

lemma uint_word32_of_int:
  "0 \<le> n \<Longrightarrow> n < 2 ^ 32 \<Longrightarrow> uint (word_of_int n :: 32 word) = n"
  by (simp add: uint_word_of_int_eq take_bit_int_eq_self)

lemma numeric_unat:
  assumes "0 \<le> get_major v" "get_major v \<le> 214747" "0 \<le> get_minor v" "get_minor v < 100"
    "0 \<le> get_patch v" "get_patch v < 100"
  shows "uint (numeric v) = get_major v * 10000 + get_minor v * 100 + get_patch v"
proof -
  let ?n = "get_major v * 10000 + get_minor v * 100 + get_patch v"
  have "0 \<le> ?n" "?n < 2 ^ 32" using assms by (auto simp: algebra_simps)
  then show ?thesis unfolding numeric_def by (rule uint_word32_of_int)
qed

text \<open>On versions with two digit minor and patch numbers (the range of the \<open>MMmmpp\<close> form) the
  numeric form is ordered as the versions are, and determines them.\<close>

theorem numeric_order_embedding:
  assumes "0 \<le> get_major v" "get_major v \<le> 214747" "0 \<le> get_minor v" "get_minor v < 100"
    "0 \<le> get_patch v" "get_patch v < 100"
    "0 \<le> get_major w" "get_major w \<le> 214747" "0 \<le> get_minor w" "get_minor w < 100"
    "0 \<le> get_patch w" "get_patch w < 100"
  shows "(numeric v < numeric w \<longleftrightarrow> ver_less v w) \<and> (numeric v = numeric w \<longleftrightarrow> ver_eq v w)"
proof -
  have lex: "a * 10000 + b * 100 + c < a' * 10000 + b' * 100 + c' \<longleftrightarrow>
      a < a' \<or> a = a' \<and> (b < b' \<or> b = b' \<and> c < c')"
    if "0 \<le> b" "b < 100" "0 \<le> c" "c < 100" "0 \<le> b'" "b' < 100" "0 \<le> c'" "c' < 100"
    for a b c a' b' c' :: int
    using that by linarith
  note nv = numeric_unat [OF assms(1-6)] and nw = numeric_unat [OF assms(7-12)]
  have 1: "numeric v < numeric w \<longleftrightarrow> ver_less v w"
    unfolding word_less_def nv nw lex [OF assms(3-6,9-12)] ver_less_def get_major_def ..
  have 2: "numeric w < numeric v \<longleftrightarrow> ver_less w v"
    unfolding word_less_def nv nw lex [OF assms(9-12,3-6)] ver_less_def get_major_def ..
  show ?thesis using 1 2 ver.eqv_iff by (metis linorder_neq_iff)
qed

theorem numeric_order_embedding_witness:
  "numeric (Version3 8 0 33) < numeric (Version3 8 4 0) \<and> ver_less (Version3 8 0 33) (Version3 8 4 0)"
  using numeric_order_embedding [of "Version3 8 0 33" "Version3 8 4 0"]
  by (simp add: Version3_def get_major_def get_minor_def get_patch_def ver_less_def)

end
