(* ===== verification/Version_Release.thy ===== *)
theory Version_Release
  imports Version "HOL-Library.Signed_Division" "HOL-Library.Monad_Syntax"
begin

text \<open>
  The release model of \<^verbatim>\<open>namespace mysqlshdk::utils::version\<close>
  (\<^verbatim>\<open>mysqlshdk/libs/utils/version.cc\<close>): which servers are supported, the calendar numbering that starts
  with 26.7.0, the legacy numbering before it, and the dispatchers that combine the two. The divisions
  of the source truncate, so they are the signed division of the library. Its integers are C++
  \<^verbatim>\<open>int\<close>s, here unbounded ones: \<open>release_values_fit\<close> shows that no value of the calendar arithmetic
  leaves the range of an \<^verbatim>\<open>int\<close> for major numbers up to \<open>2 ^ 29\<close>; beyond that (the parser accepts
  \<open>2 ^ 31 - 1\<close>) the source overflows and the model says nothing.
  Only the assertions are left out: they are premises of the lemmas.

  The locale \<open>release_line\<close> states what the callers rely on of a line of releases (the next LTS release
  is an LTS release, comes later, and no other LTS series lies in between); it is interpreted for the
  legacy, the calendar and the combined line.
\<close>

section \<open>Supported servers\<close>

definition k_min_supported_mysql_server_version :: version where
  "k_min_supported_mysql_server_version = Version3 8 0 0"

definition k_first_unsupported_legacy_mysql_server_version :: version where
  "k_first_unsupported_legacy_mysql_server_version = Version3 10 0 0"

definition k_min_calendar_mysql_server_version :: version where
  "k_min_calendar_mysql_server_version = Version3 26 7 0"

definition k_july_2026_lts_anchor_patch_8_4 :: int where
  "k_july_2026_lts_anchor_patch_8_4 = 11"

definition k_july_2026_lts_anchor_patch_9_7 :: int where
  "k_july_2026_lts_anchor_patch_9_7 = 2"

text \<open>The version of the shell is fixed by the build, and so a parameter.\<close>

definition max_supported_mysql_server_version :: "version \<Rightarrow> version" where
  "max_supported_mysql_server_version k_shell_version =
     Version3 (get_major k_shell_version) (get_minor k_shell_version) 9999"

section \<open>The calendar numbering\<close>

definition k_anchor_year :: int where "k_anchor_year = 26"
definition k_anchor_month :: int where "k_anchor_month = 7"
definition k_lts_start_year :: int where "k_lts_start_year = 28"
definition k_lts_month :: int where "k_lts_month = 4"
definition k_cycle_releases :: int where "k_cycle_releases = 8"
definition k_legacy_anchor_major :: int where "k_legacy_anchor_major = 10"

definition is_release_month :: "int \<Rightarrow> bool" where
  "is_release_month month \<longleftrightarrow> month = 1 \<or> month = 4 \<or> month = 7 \<or> month = 10"

definition is_valid_month :: "int \<Rightarrow> bool" where
  "is_valid_month month \<longleftrightarrow> month \<ge> 1 \<and> month \<le> 12"

definition release_index :: "int \<Rightarrow> int" where
  "release_index month = (month - 1) sdiv 3"

definition is_lts_year :: "int \<Rightarrow> bool" where
  "is_lts_year year \<longleftrightarrow> year \<ge> k_lts_start_year \<and> year smod 2 = 0"

definition release_offset :: "version \<Rightarrow> int" where
  "release_offset v =
     (let i = release_index (get_minor v);
          index = (if is_lts_year (get_major v) \<and> get_minor v > k_lts_month \<and>
                      i = release_index k_lts_month then i + 1 else i)
      in (get_major v - k_anchor_year) * 4 + (index - release_index k_anchor_month))"

definition cycle :: "version \<Rightarrow> int" where
  "cycle v = release_offset v sdiv k_cycle_releases"

definition lts_offset :: "int \<Rightarrow> int" where
  "lts_offset cyc = (k_lts_start_year + cyc * 2 - k_anchor_year) * 4 +
     (release_index k_lts_month - release_index k_anchor_month)"

definition lts_for_cycle :: "int \<Rightarrow> int \<Rightarrow> version" where
  "lts_for_cycle cyc patch = Version3 (k_lts_start_year + cyc * 2) k_lts_month patch"

definition is_calendar_version :: "version \<Rightarrow> bool" where
  "is_calendar_version v \<longleftrightarrow>
     is_valid_month (get_minor v) \<and> ver_ge v (Version3 k_anchor_year k_anchor_month 0)"

definition is_release_cadence_version :: "version \<Rightarrow> bool" where
  "is_release_cadence_version v \<longleftrightarrow> is_calendar_version v \<and> is_release_month (get_minor v)"

definition to_legacy :: "version \<Rightarrow> version" where
  "to_legacy v =
     (if \<not> is_calendar_version v then v
      else let offset = release_offset v
           in Version3 (k_legacy_anchor_major + offset sdiv k_cycle_releases)
                (offset smod k_cycle_releases) (get_patch v))"

definition lts_from_legacy :: "version \<Rightarrow> version" where
  "lts_from_legacy v = lts_for_cycle (get_major v - k_legacy_anchor_major) (get_patch v)"

definition calendar_first_lts :: "version \<Rightarrow> version" where
  "calendar_first_lts v = lts_for_cycle (cycle v) 0"

definition calendar_is_lts :: "version \<Rightarrow> bool" where
  "calendar_is_lts v \<longleftrightarrow>
     get_major v \<ge> k_lts_start_year \<and> get_major v smod 2 = 0 \<and> get_minor v = k_lts_month"

definition calendar_next_lts :: "version \<Rightarrow> version" where
  "calendar_next_lts v =
     (if \<not> calendar_is_lts v then calendar_first_lts v
      else let current_lts = calendar_first_lts v
           in Version3 (get_major current_lts + 2) k_lts_month 0)"

definition calendar_first_innovation :: "version \<Rightarrow> version" where
  "calendar_first_innovation v = Version3 (k_anchor_year + cycle v * 2) k_anchor_month 0"

definition is_supported_server :: "version \<Rightarrow> version \<Rightarrow> bool" where
  "is_supported_server k_shell_version v =
     (if ver_less v k_min_supported_mysql_server_version then False
      else if ver_less v k_first_unsupported_legacy_mysql_server_version then True
      else is_calendar_version v \<and> ver_le v (max_supported_mysql_server_version k_shell_version))"

definition supported_servers :: "version \<Rightarrow> string" where
  "supported_servers k_shell_version =
     get_short k_min_supported_mysql_server_version @ '' <= version < '' @
     get_short k_first_unsupported_legacy_mysql_server_version @ '' or '' @
     get_short k_min_calendar_mysql_server_version @ '' <= version <= '' @
     get_short k_shell_version @ ''.*''"

section \<open>The legacy numbering\<close>

definition k_minor_version_8_0 :: int where "k_minor_version_8_0 = 0"
definition k_minor_version_8_4 :: int where "k_minor_version_8_4 = 4"
definition k_minor_version :: int where "k_minor_version = 7"
definition k_release_8_0_id :: int where "k_release_8_0_id = 7"

text \<open>The off-cycle patch versions of a series, ascending as the \<^verbatim>\<open>std::set\<close> keeps them.\<close>

definition detail_off_cycle_releases :: "int \<Rightarrow> int list option" where
  "detail_off_cycle_releases version_id =
     (if version_id = k_release_8_0_id then Some [39] else if version_id = 8 then Some [2] else None)"

definition legacy_is_lts :: "version \<Rightarrow> bool" where
  "legacy_is_lts v =
     (if get_major v = 8
      then k_minor_version_8_0 = get_minor v \<or> k_minor_version_8_4 = get_minor v
      else k_minor_version = get_minor v)"

definition uses_july_2026_lts_anchor_cadence :: "version \<Rightarrow> bool" where
  "uses_july_2026_lts_anchor_cadence v \<longleftrightarrow>
     (get_major v = 8 \<and> get_minor v = k_minor_version_8_4 \<and>
      get_patch v \<ge> k_july_2026_lts_anchor_patch_8_4) \<or>
     (get_major v = 9 \<and> get_minor v = k_minor_version \<and>
      get_patch v \<ge> k_july_2026_lts_anchor_patch_9_7)"

definition corresponding_8_4_lts_version :: "version \<Rightarrow> version" where
  "corresponding_8_4_lts_version v =
     Version3 8 k_minor_version_8_4
       (k_july_2026_lts_anchor_patch_8_4 + get_patch v - k_july_2026_lts_anchor_patch_9_7)"

definition off_cycle_releases :: "version \<Rightarrow> int list option" where
  "off_cycle_releases v =
     (let major = (if 8 = get_major v \<and> k_minor_version_8_0 = get_minor v
                   then k_release_8_0_id else get_major v)
      in detail_off_cycle_releases major)"

definition is_off_cycle_release :: "version \<Rightarrow> bool" where
  "is_off_cycle_release v =
     (if \<not> legacy_is_lts v then get_patch v \<noteq> 0
      else case off_cycle_releases v of
             Some patch_versions \<Rightarrow> get_patch v \<in> set patch_versions
           | None \<Rightarrow> False)"

definition count_planned_releases :: "int \<Rightarrow> int \<Rightarrow> int" where
  "count_planned_releases major minor = (if 8 \<noteq> major then minor + 1 else minor)"

text \<open>The loop from the last off-cycle release down, on the reversed list.\<close>

fun count_off_cycle_loop :: "int list \<Rightarrow> int \<Rightarrow> int \<Rightarrow> int" where
  "count_off_cycle_loop [] patch count = count"
| "count_off_cycle_loop (it # rest) patch count =
     (if it > patch then count_off_cycle_loop rest patch (count - 1) else count)"

definition count_off_cycle_releases :: "version \<Rightarrow> int" where
  "count_off_cycle_releases v =
     (case off_cycle_releases v of
        Some patch_versions \<Rightarrow>
          count_off_cycle_loop (rev patch_versions) (get_patch v) (int (length patch_versions))
      | None \<Rightarrow> 0)"

definition legacy_major_version :: "version \<Rightarrow> int" where
  "legacy_major_version v = (if 5 = get_major v \<and> 7 = get_minor v then 7 else get_major v)"

definition legacy_major_difference :: "version \<Rightarrow> version \<Rightarrow> int" where
  "legacy_major_difference source target =
     legacy_major_version target - legacy_major_version source"

fun lts_release_patch_loop :: "int list \<Rightarrow> int \<Rightarrow> bool \<Rightarrow> int" where
  "lts_release_patch_loop [] releases allow_off_cycle = releases"
| "lts_release_patch_loop (it # rest) releases allow_off_cycle =
     (if it < releases then releases
      else if it = releases then (if \<not> allow_off_cycle then releases - 1 else releases)
      else lts_release_patch_loop rest (releases - 1) allow_off_cycle)"

definition lts_release_patch :: "int \<Rightarrow> int \<Rightarrow> bool \<Rightarrow> int" where
  "lts_release_patch major releases allow_off_cycle =
     (case detail_off_cycle_releases major of
        Some patch_versions \<Rightarrow>
          lts_release_patch_loop (rev patch_versions)
            (releases + int (length patch_versions)) allow_off_cycle
      | None \<Rightarrow> releases)"

text \<open>The \<^verbatim>\<open>while (true)\<close> loop walks down one major version at a time until it reaches the 8.0 series;
  started below it, it would not end, and the model is \<open>None\<close>.\<close>

partial_function (option) corresponding_loop ::
  "version list \<Rightarrow> int \<Rightarrow> bool \<Rightarrow> version list option" where
  "corresponding_loop result planned_releases is_off_cycle =
     (let lts_release_major = get_major (last result) - 1
      in if k_release_8_0_id = lts_release_major
         then Some (result @ [Version3 8 k_minor_version_8_0
                (lts_release_patch k_release_8_0_id (33 + planned_releases) is_off_cycle)])
         else
           let lts_release_minor =
                 (if 8 = lts_release_major then k_minor_version_8_4 else k_minor_version)
           in corresponding_loop
                (result @ [Version3 lts_release_major lts_release_minor
                   (lts_release_patch lts_release_major planned_releases is_off_cycle)])
                (planned_releases + count_planned_releases lts_release_major lts_release_minor)
                is_off_cycle)"

definition legacy_corresponding_versions :: "version \<Rightarrow> version list option" where
  "legacy_corresponding_versions v =
     (if uses_july_2026_lts_anchor_cadence v
      then Some ((if get_major v > 8 then [corresponding_8_4_lts_version v] else []) @ [v])
      else
        let planned_releases = count_planned_releases (get_major v) (get_minor v);
            planned_releases =
              (if legacy_is_lts v
               then planned_releases + get_patch v - count_off_cycle_releases v
               else planned_releases)
        in map_option rev (corresponding_loop [v] planned_releases (is_off_cycle_release v)))"

definition legacy_first_lts :: "version \<Rightarrow> version" where
  "legacy_first_lts v = (if get_major v = 8 then Version3 8 4 0 else Version3 (get_major v) 7 0)"

definition legacy_next_lts :: "version \<Rightarrow> version" where
  "legacy_next_lts v =
     (if \<not> legacy_is_lts v then legacy_first_lts v
      else if get_major v = 8 \<and> get_minor v = k_minor_version_8_0
      then Version3 8 k_minor_version_8_4 0
      else legacy_first_lts (Version3 (get_major v + 1) 0 0))"

definition legacy_first_innovation :: "version \<Rightarrow> version" where
  "legacy_first_innovation v =
     (if get_major v = 8 then Version3 8 1 0 else Version3 (get_major v) 0 0)"

section \<open>The two numberings together\<close>

text \<open>The loop over the cycles, counting up to \<^verbatim>\<open>offset / k_cycle_releases\<close>.\<close>

definition calendar_cycle_entries :: "int \<Rightarrow> int \<Rightarrow> int \<Rightarrow> version list" where
  "calendar_cycle_entries offset patch i =
     (let cycle_lts_offset = lts_offset i
      in if offset \<ge> cycle_lts_offset
         then [lts_for_cycle i (offset - cycle_lts_offset + patch)] else [])"

definition calendar_corresponding_versions :: "version \<Rightarrow> version list" where
  "calendar_corresponding_versions v =
     (let offset = release_offset v;
          legacy_lts_patch = offset + get_patch v;
          result =
            [Version3 8 4 (k_july_2026_lts_anchor_patch_8_4 + legacy_lts_patch),
             Version3 9 7 (k_july_2026_lts_anchor_patch_9_7 + legacy_lts_patch)] @
            concat (map (calendar_cycle_entries offset (get_patch v))
              [0..offset sdiv k_cycle_releases])
      in if ver_ne (last result) v then result @ [v] else result)"

definition major_difference :: "version \<Rightarrow> version \<Rightarrow> int" where
  "major_difference source target =
     legacy_major_difference
       (if is_calendar_version source then to_legacy source else source)
       (if is_calendar_version target then to_legacy target else target)"

definition corresponding_versions :: "version \<Rightarrow> version list option" where
  "corresponding_versions v =
     (if is_calendar_version v then Some (calendar_corresponding_versions v)
      else legacy_corresponding_versions v)"

definition first_lts :: "version \<Rightarrow> version" where
  "first_lts v = (if is_calendar_version v then calendar_first_lts v else legacy_first_lts v)"

definition is_lts :: "version \<Rightarrow> bool" where
  "is_lts v = (if is_calendar_version v then calendar_is_lts v else legacy_is_lts v)"

definition next_lts :: "version \<Rightarrow> version" where
  "next_lts v =
     (if \<not> is_lts v then first_lts v
      else if is_calendar_version v then calendar_next_lts v
      else let next_legacy_lts = legacy_next_lts v
           in if get_major next_legacy_lts \<ge> k_legacy_anchor_major
              then lts_from_legacy next_legacy_lts else next_legacy_lts)"

definition first_innovation :: "version \<Rightarrow> version" where
  "first_innovation v =
     (if is_calendar_version v then calendar_first_innovation v else legacy_first_innovation v)"

section \<open>Arithmetic of the calendar\<close>

lemma get_Version3 [simp]:
  "get_major (Version3 a b c) = a" "get_minor (Version3 a b c) = b" "get_patch (Version3 a b c) = c"
  by (simp_all add: Version3_def get_major_def get_minor_def get_patch_def)

lemmas calendar_consts =
  k_anchor_year_def k_anchor_month_def k_lts_start_year_def k_lts_month_def k_cycle_releases_def
  k_legacy_anchor_major_def

lemmas legacy_consts =
  k_minor_version_8_0_def k_minor_version_8_4_def k_minor_version_def k_release_8_0_id_def
  k_july_2026_lts_anchor_patch_8_4_def k_july_2026_lts_anchor_patch_9_7_def

lemma ver_less_iff:
  "ver_less v w \<longleftrightarrow> get_major v < get_major w \<or> get_major v = get_major w \<and>
     (get_minor v < get_minor w \<or> get_minor v = get_minor w \<and> get_patch v < get_patch w)"
  by (auto simp: ver_less_def get_major_def)

lemma ver_le_iff:
  "ver_le v w \<longleftrightarrow> get_major v < get_major w \<or> get_major v = get_major w \<and>
     (get_minor v < get_minor w \<or> get_minor v = get_minor w \<and> get_patch v \<le> get_patch w)"
  by (auto simp: ver.le_iff ver_less_iff)

lemma ver_eq_iff:
  "ver_eq v w \<longleftrightarrow> get_major v = get_major w \<and> get_minor v = get_minor w \<and> get_patch v = get_patch w"
  by (auto simp: ver_eq_def get_major_def)

lemmas ver_iffs = ver_less_iff ver_le_iff ver_eq_iff

lemma sdiv_nonneg: "0 \<le> a \<Longrightarrow> 0 < b \<Longrightarrow> a sdiv b = a div b" for a b :: int
  by (simp add: signed_divide_int_def sgn_if)

lemma smod_nonneg: "0 \<le> a \<Longrightarrow> 0 < b \<Longrightarrow> a smod b = a mod b" for a b :: int
  using minus_sdiv_mult_eq_smod [of a b] by (simp add: sdiv_nonneg minus_div_mult_eq_mod)

lemma release_index_div: "1 \<le> m \<Longrightarrow> release_index m = (m - 1) div 3"
  by (simp add: release_index_def sdiv_nonneg)

lemma is_lts_year_iff: "is_lts_year y \<longleftrightarrow> y \<ge> 28 \<and> even y"
  by (auto simp: is_lts_year_def calendar_consts smod_nonneg even_iff_mod_2_eq_zero)

lemma calendar_is_lts_iff:
  "calendar_is_lts v \<longleftrightarrow> get_major v \<ge> 28 \<and> even (get_major v) \<and> get_minor v = 4"
  by (auto simp: calendar_is_lts_def calendar_consts smod_nonneg even_iff_mod_2_eq_zero)

lemma is_calendar_version_iff:
  "is_calendar_version v \<longleftrightarrow> 1 \<le> get_minor v \<and> get_minor v \<le> 12 \<and>
     (get_major v > 26 \<or> get_major v = 26 \<and> (get_minor v > 7 \<or> get_minor v = 7 \<and> get_patch v \<ge> 0))"
  by (auto simp: is_calendar_version_def is_valid_month_def ver_ge_def ver_less_iff calendar_consts)

text \<open>The slot of a calendar version within its year: quarters, except that the two months after an
  LTS release already belong to the next slot.\<close>

lemma release_offset_cases:
  assumes "is_calendar_version v"
  obtains idx where "release_offset v = (get_major v - 26) * 4 + idx - 2" "0 \<le> idx" "idx \<le> 3"
    "idx = 0 \<longleftrightarrow> get_minor v \<le> 3"
    "idx \<le> 1 \<longleftrightarrow> get_minor v \<le> 4 \<or> get_minor v \<le> 6 \<and> \<not> is_lts_year (get_major v)"
    "idx \<le> 2 \<longleftrightarrow> get_minor v \<le> 9"
proof -
  let ?m = "get_minor v"
  let ?i = "(?m - 1) div 3"
  let ?idx = "if is_lts_year (get_major v) \<and> ?m > 4 \<and> ?i = 1 then ?i + 1 else ?i"
  have m: "1 \<le> ?m" "?m \<le> 12" using assms by (auto simp: is_calendar_version_iff)
  have i: "0 \<le> ?i" "?i \<le> 3" "?i = 0 \<longleftrightarrow> ?m \<le> 3" "?i \<le> 1 \<longleftrightarrow> ?m \<le> 6" "?i \<le> 2 \<longleftrightarrow> ?m \<le> 9"
    using m by presburger+
  have "release_offset v = (get_major v - 26) * 4 + ?idx - 2"
    using m by (simp add: release_offset_def Let_def calendar_consts release_index_div)
  then show thesis using i by (intro that [of ?idx]) (auto split: if_splits)
qed

lemma release_offset_nonneg:
  assumes "is_calendar_version v"
  shows "0 \<le> release_offset v"
proof -
  obtain idx where "release_offset v = (get_major v - 26) * 4 + idx - 2" "0 \<le> idx"
    "idx \<le> 1 \<longleftrightarrow> get_minor v \<le> 4 \<or> get_minor v \<le> 6 \<and> \<not> is_lts_year (get_major v)"
    using release_offset_cases [OF assms] by metis
  then show ?thesis using assms by (auto simp: is_calendar_version_iff)
qed

lemma cycle_bounds:
  assumes "is_calendar_version v"
  shows "0 \<le> cycle v" "8 * cycle v \<le> release_offset v" "release_offset v < 8 * cycle v + 8"
  using release_offset_nonneg [OF assms] unfolding cycle_def calendar_consts
  by (simp_all add: sdiv_nonneg)

text \<open>The LTS release of a cycle is its last slot: a calendar version lies after the LTS series of the
  previous cycle and not after that of its own.\<close>

lemma calendar_in_cycle:
  assumes "is_calendar_version v"
  shows "get_major v < 28 + 2 * cycle v \<or> get_major v = 28 + 2 * cycle v \<and> get_minor v \<le> 4"
    and "get_major v > 26 + 2 * cycle v \<or> get_major v = 26 + 2 * cycle v \<and> get_minor v > 4"
proof -
  note b = cycle_bounds [OF assms]
  obtain idx where o: "release_offset v = (get_major v - 26) * 4 + idx - 2" "0 \<le> idx" "idx \<le> 3"
    "idx \<le> 1 \<longleftrightarrow> get_minor v \<le> 4 \<or> get_minor v \<le> 6 \<and> \<not> is_lts_year (get_major v)"
    using release_offset_cases [OF assms] by metis
  show "get_major v < 28 + 2 * cycle v \<or> get_major v = 28 + 2 * cycle v \<and> get_minor v \<le> 4"
  proof (cases "get_major v = 28 + 2 * cycle v")
    case True
    then have "idx \<le> 1" "is_lts_year (get_major v)" using b o by (auto simp: is_lts_year_iff)
    then show ?thesis using o True by auto
  next
    case False
    then show ?thesis using b o by auto
  qed
  show "get_major v > 26 + 2 * cycle v \<or> get_major v = 26 + 2 * cycle v \<and> get_minor v > 4"
  proof (cases "get_major v = 26 + 2 * cycle v")
    case True
    then have "\<not> idx \<le> 1" using b o by auto
    then show ?thesis using o True by auto
  next
    case False
    then show ?thesis using b o by auto
  qed
qed

section \<open>Lines of releases\<close>

definition same_series :: "version \<Rightarrow> version \<Rightarrow> bool" where
  "same_series v w \<longleftrightarrow> get_major v = get_major w \<and> get_minor v = get_minor w"

text \<open>What the callers rely on (upgrade checks, compatibility notes of dumps): the next LTS release of
  a version of the line.\<close>

locale release_line = weak_order lt le eqv
  for lt le eqv :: "version \<Rightarrow> version \<Rightarrow> bool" +
  fixes valid :: "version \<Rightarrow> bool"
    and lts :: "version \<Rightarrow> bool"
    and next_release :: "version \<Rightarrow> version"
  assumes next_valid: "valid v \<Longrightarrow> valid (next_release v)"
    and next_lts: "valid v \<Longrightarrow> lts (next_release v)"
    and next_greater: "valid v \<Longrightarrow> lt v (next_release v)"
    and next_least: "valid v \<Longrightarrow> valid w \<Longrightarrow> lts w \<Longrightarrow> get_patch w \<ge> 0 \<Longrightarrow> lt v w \<Longrightarrow>
      \<not> (same_series v w \<and> lts v) \<Longrightarrow> le (next_release v) w"
begin

lemma iterate_valid: "valid v \<Longrightarrow> valid ((next_release ^^ n) v)"
  by (induction n) (auto simp: next_valid)

lemma iterate_lts:
  assumes "valid v" "0 < n"
  shows "lts ((next_release ^^ n) v)"
  using assms next_lts iterate_valid [of v "n - 1"] by (cases n) auto

lemma iterate_mono: "valid v \<Longrightarrow> m < n \<Longrightarrow> lt ((next_release ^^ m) v) ((next_release ^^ n) v)"
  by (rule iterate_increasing [where ok = valid]) (auto simp: next_valid next_greater)

end

text \<open>The versions of the three lines: 8.0 to 8.4 and then x.0 to x.7; the calendar versions; and those
  of the legacy numbering before its 10.0 slot was renumbered, together with the calendar ones.\<close>

definition legacy_valid :: "version \<Rightarrow> bool" where
  "legacy_valid v \<longleftrightarrow>
     get_major v = 8 \<and> 0 \<le> get_minor v \<and> get_minor v \<le> 4 \<or>
     get_major v > 8 \<and> 0 \<le> get_minor v \<and> get_minor v \<le> 7"

definition release_valid :: "version \<Rightarrow> bool" where
  "release_valid v \<longleftrightarrow> legacy_valid v \<and> get_major v < 10 \<or> is_calendar_version v"

lemma legacy_not_calendar: "get_major v < 26 \<Longrightarrow> \<not> is_calendar_version v"
  by (simp add: is_calendar_version_iff)

lemmas legacy_line_defs =
  legacy_valid_def legacy_is_lts_def legacy_next_lts_def legacy_first_lts_def legacy_consts
  same_series_def

lemma calendar_next_lts_eq:
  assumes "is_calendar_version v"
  shows "calendar_next_lts v =
    Version3 (28 + 2 * cycle v + (if calendar_is_lts v then 2 else 0)) 4 0"
  by (simp add: calendar_next_lts_def calendar_first_lts_def lts_for_cycle_def calendar_consts
      mult.commute)

lemma calendar_lts_cycle:
  assumes "is_calendar_version v" "calendar_is_lts v"
  shows "get_major v = 28 + 2 * cycle v"
proof -
  obtain k where "get_major v = 2 * k" using assms(2) by (auto simp: calendar_is_lts_iff)
  then show ?thesis
    using calendar_in_cycle [OF assms(1)] assms(2) unfolding calendar_is_lts_iff by presburger
qed

interpretation leg: release_line ver_less ver_le ver_eq legacy_valid legacy_is_lts legacy_next_lts
  by unfold_locales (auto simp: legacy_line_defs ver_iffs split: if_splits)

lemma calendar_next_least:
  assumes v: "is_calendar_version v" and w: "is_calendar_version w" "calendar_is_lts w"
    and p: "get_patch w \<ge> 0" and less: "ver_less v w" and s: "\<not> (same_series v w \<and> calendar_is_lts v)"
  shows "ver_le (calendar_next_lts v) w"
proof (cases "calendar_is_lts v")
  case True
  have "get_major v < get_major w"
    using less s w(2) True by (auto simp: ver_less_iff same_series_def calendar_is_lts_iff)
  then have "get_major w \<ge> 28 + 2 * cycle v + 2"
    using calendar_lts_cycle [OF v True] calendar_lts_cycle [OF w] by simp
  then show ?thesis
    using True p w(2) by (auto simp: calendar_next_lts_eq [OF v] ver_le_iff calendar_is_lts_iff)
next
  case False
  have "get_major w \<ge> 28 + 2 * cycle v"
    using less calendar_in_cycle(2) [OF v] calendar_lts_cycle [OF w] w(2)
    by (auto simp: ver_less_iff calendar_is_lts_iff)
  then show ?thesis
    using False p w(2) by (auto simp: calendar_next_lts_eq [OF v] ver_le_iff calendar_is_lts_iff)
qed

interpretation cal: release_line ver_less ver_le ver_eq is_calendar_version calendar_is_lts
    calendar_next_lts
proof
  fix v assume v: "is_calendar_version v"
  note c = cycle_bounds(1) [OF v] calendar_in_cycle [OF v]
  show "is_calendar_version (calendar_next_lts v)"
    using c by (auto simp: calendar_next_lts_eq [OF v] is_calendar_version_iff)
  show "calendar_is_lts (calendar_next_lts v)"
    using c by (auto simp: calendar_next_lts_eq [OF v] calendar_is_lts_iff)
  show "ver_less v (calendar_next_lts v)"
    using c by (auto simp: calendar_next_lts_eq [OF v] ver_less_iff calendar_is_lts_iff)
next
  show "ver_le (calendar_next_lts v) w"
    if "is_calendar_version v" "is_calendar_version w" "calendar_is_lts w" "get_patch w \<ge> 0"
      "ver_less v w" "\<not> (same_series v w \<and> calendar_is_lts v)" for v w
    using calendar_next_least that by blast
qed

lemma next_lts_legacy:
  assumes "legacy_valid v" "get_major v < 10"
  shows "next_lts v =
    (if get_major v = 9 \<and> get_minor v = 7 then Version3 28 4 0 else legacy_next_lts v)"
  using assms legacy_not_calendar [of v]
  by (auto simp: next_lts_def is_lts_def first_lts_def Let_def lts_from_legacy_def lts_for_cycle_def
      calendar_consts legacy_line_defs)

lemma next_lts_calendar: "is_calendar_version v \<Longrightarrow> next_lts v = calendar_next_lts v"
  by (simp add: next_lts_def is_lts_def first_lts_def calendar_next_lts_def)

lemma calendar_28_4: "is_calendar_version (Version3 28 4 0) \<and> calendar_is_lts (Version3 28 4 0)"
  by (simp add: is_calendar_version_iff calendar_is_lts_iff)

lemma release_next_least:
  assumes v: "release_valid v" and w: "release_valid w" "is_lts w"
    and p: "get_patch w \<ge> 0" and less: "ver_less v w" and s: "\<not> (same_series v w \<and> is_lts v)"
  shows "ver_le (next_lts v) w"
proof (cases "is_calendar_version v")
  case True
  then have "is_calendar_version w"
    using less w by (auto simp: release_valid_def ver_less_iff is_calendar_version_iff)
  then show ?thesis
    using True calendar_next_least assms by (simp add: next_lts_calendar is_lts_def)
next
  case False
  then have v': "legacy_valid v" "get_major v < 10" using v by (auto simp: release_valid_def)
  show ?thesis
  proof (cases "is_calendar_version w")
    case True
    then have "get_major w \<ge> 28" "get_minor w = 4" using w(2) by (auto simp: is_lts_def calendar_is_lts_iff)
    then show ?thesis
      using v' p by (auto simp: next_lts_legacy legacy_line_defs ver_le_iff)
  next
    case w': False
    then show ?thesis
      using v' w p less s False leg.next_least [of v w]
      by (auto simp: next_lts_legacy release_valid_def is_lts_def)
        (auto simp: legacy_line_defs ver_less_iff split: if_splits)
  qed
qed

lemma release_next:
  assumes v: "release_valid v"
  shows "release_valid (next_lts v) \<and> is_lts (next_lts v) \<and> ver_less v (next_lts v)"
proof (cases "is_calendar_version v")
  case True
  then show ?thesis
    using cal.next_valid cal.next_lts cal.next_greater
    by (simp add: next_lts_calendar release_valid_def is_lts_def)
next
  case False
  then have v': "legacy_valid v" "get_major v < 10" using v by (auto simp: release_valid_def)
  show ?thesis
  proof (cases "get_major v = 9 \<and> get_minor v = 7")
    case True
    then show ?thesis
      using next_lts_legacy [OF v'] calendar_28_4 by (simp add: release_valid_def is_lts_def ver_less_iff)
  next
    case 97: False
    then have "get_major (legacy_next_lts v) < 10" using v' by (auto simp: legacy_line_defs)
    moreover have "next_lts v = legacy_next_lts v" using 97 next_lts_legacy [OF v'] by auto
    ultimately show ?thesis
      using v' leg.next_valid leg.next_lts leg.next_greater
      by (simp add: legacy_not_calendar release_valid_def is_lts_def)
  qed
qed

interpretation rel: release_line ver_less ver_le ver_eq release_valid is_lts next_lts
  using release_next release_next_least by unfold_locales blast+

text \<open>The values that \<open>next_lts\<close> computes for a calendar version: \<open>release_offset\<close>, \<open>cycle\<close>, the year of the
  LTS release of the cycle and that of the next cycle, with their intermediate results.\<close>

definition release_values :: "version \<Rightarrow> int list" where
  "release_values v =
     [get_major v - k_anchor_year, (get_major v - k_anchor_year) * 4, release_offset v, cycle v,
      cycle v * 2, k_lts_start_year + cycle v * 2, k_lts_start_year + cycle v * 2 + 2]"

lemma release_values_fit:
  assumes v: "is_calendar_version v" and m: "get_major v \<le> 2 ^ 29"
  shows "\<forall>n \<in> set (release_values v). 0 \<le> n \<and> n \<le> int_max"
proof -
  obtain idx where o: "release_offset v = (get_major v - 26) * 4 + idx - 2" "idx \<le> 3"
    using release_offset_cases [OF v] by metis
  have "26 \<le> get_major v" using v by (auto simp: is_calendar_version_iff)
  then show ?thesis
    using m o cycle_bounds [OF v] release_offset_nonneg [OF v]
    by (simp add: release_values_def calendar_consts int_max_def)
qed

text \<open>C27: from any version of a supported line with a major number of at most \<open>2 ^ 29\<close>, across the
  renumbering of 2026, \<open>next_lts\<close> gives an LTS release which comes after the version and is the least of
  those which do, where the later releases of the version's own series do not count if that series is an
  LTS one already (8.4.0 goes to 9.7.0, not to 8.4.1). No value that is computed on the way overflows.\<close>

theorem next_lts_least_lts_above:
  assumes "release_valid v" "get_major v \<le> 2 ^ 29"
  shows "is_lts (next_lts v) \<and> release_valid (next_lts v) \<and> ver_less v (next_lts v) \<and>
    (\<forall>w. release_valid w \<and> is_lts w \<and> get_patch w \<ge> 0 \<and> ver_less v w \<and>
       \<not> (same_series v w \<and> is_lts v) \<longrightarrow> ver_le (next_lts v) w) \<and>
    (is_calendar_version v \<longrightarrow> (\<forall>n \<in> set (release_values v). 0 \<le> n \<and> n \<le> int_max))"
  using assms rel.next_valid rel.next_lts rel.next_greater rel.next_least release_values_fit by blast

theorem next_lts_least_lts_above_witness:
  "release_valid (Version3 9 7 3) \<and> is_lts (next_lts (Version3 9 7 3)) \<and>
   next_lts (Version3 9 7 3) = Version3 28 4 0 \<and> ver_less (Version3 9 7 3) (Version3 28 4 0)"
proof -
  have v: "release_valid (Version3 9 7 3)" by (simp add: release_valid_def legacy_valid_def)
  have n: "next_lts (Version3 9 7 3) = Version3 28 4 0"
    by (simp add: next_lts_legacy legacy_valid_def)
  from v n next_lts_least_lts_above [OF v] show ?thesis by simp
qed

text \<open>Iterating \<open>next_lts\<close> walks through ever later LTS releases.\<close>

theorem next_lts_chain:
  assumes "release_valid v" "m < n"
  shows "ver_less ((next_lts ^^ m) v) ((next_lts ^^ n) v) \<and> is_lts ((next_lts ^^ n) v)"
  using assms rel.iterate_mono rel.iterate_lts by simp

theorem next_lts_chain_witness:
  "release_valid (Version3 8 0 30) \<and> ver_less (Version3 8 0 30) ((next_lts ^^ 3) (Version3 8 0 30)) \<and>
   is_lts ((next_lts ^^ 3) (Version3 8 0 30))"
proof -
  have v: "release_valid (Version3 8 0 30)" by (simp add: release_valid_def legacy_valid_def)
  from v next_lts_chain [OF v, of 0 3] show ?thesis by simp
qed

section \<open>Calendar versions in the legacy numbering\<close>

lemma to_legacy_slot:
  assumes "is_calendar_version v"
  shows "get_major (to_legacy v) = 10 + cycle v"
    and "get_minor (to_legacy v) = release_offset v - 8 * cycle v"
    and "get_patch (to_legacy v) = get_patch v"
  using assms release_offset_nonneg [OF assms] cycle_bounds [OF assms]
  by (auto simp: to_legacy_def Let_def cycle_def calendar_consts smod_nonneg sdiv_nonneg
      minus_mult_div_eq_mod)

lemma calendar_last_slot:
  assumes "is_calendar_version v"
  shows "release_offset v = 8 * cycle v + 7 \<longleftrightarrow> calendar_is_lts v"
proof -
  note b = cycle_bounds [OF assms]
  obtain idx where o: "release_offset v = (get_major v - 26) * 4 + idx - 2" "0 \<le> idx" "idx \<le> 3"
    "idx = 0 \<longleftrightarrow> get_minor v \<le> 3"
    "idx \<le> 1 \<longleftrightarrow> get_minor v \<le> 4 \<or> get_minor v \<le> 6 \<and> \<not> is_lts_year (get_major v)"
    using release_offset_cases [OF assms] by metis
  show ?thesis
  proof
    assume l: "release_offset v = 8 * cycle v + 7"
    have y: "get_major v = 28 + 2 * cycle v" using l o(1-3) by presburger
    then have "idx = 1" "is_lts_year (get_major v)" using l o(1) b(1) by (auto simp: is_lts_year_iff)
    then show "calendar_is_lts v" using o(4,5) y b(1) by (auto simp: calendar_is_lts_iff)
  next
    assume "calendar_is_lts v"
    with calendar_lts_cycle [OF assms this] show "release_offset v = 8 * cycle v + 7"
      using o by (auto simp: calendar_is_lts_iff is_lts_year_iff)
  qed
qed

lemma release_offset_mono:
  assumes v: "is_calendar_version v" and w: "is_calendar_version w" and le: "ver_le v w"
  shows "release_offset v \<le> release_offset w"
proof -
  obtain i where i: "release_offset v = (get_major v - 26) * 4 + i - 2" "0 \<le> i" "i \<le> 3"
    "i = 0 \<longleftrightarrow> get_minor v \<le> 3"
    "i \<le> 1 \<longleftrightarrow> get_minor v \<le> 4 \<or> get_minor v \<le> 6 \<and> \<not> is_lts_year (get_major v)"
    "i \<le> 2 \<longleftrightarrow> get_minor v \<le> 9"
    using release_offset_cases [OF v] by metis
  obtain j where j: "release_offset w = (get_major w - 26) * 4 + j - 2" "0 \<le> j" "j \<le> 3"
    "j = 0 \<longleftrightarrow> get_minor w \<le> 3"
    "j \<le> 1 \<longleftrightarrow> get_minor w \<le> 4 \<or> get_minor w \<le> 6 \<and> \<not> is_lts_year (get_major w)"
    "j \<le> 2 \<longleftrightarrow> get_minor w \<le> 9"
    using release_offset_cases [OF w] by metis
  show ?thesis
  proof (cases "get_major v = get_major w")
    case True
    then have m: "get_minor v \<le> get_minor w" using le by (auto simp: ver_le_iff)
    have "i \<le> j"
    proof (rule ccontr)
      assume "\<not> i \<le> j"
      then have "j = 0 \<and> i \<noteq> 0 \<or> j \<le> 1 \<and> \<not> i \<le> 1 \<or> j \<le> 2 \<and> \<not> i \<le> 2" using i(3) j(2) by arith
      then show False using i(4-6) j(4-6) m True by auto
    qed
    then show ?thesis using True i(1) j(1) by simp
  next
    case False
    then have "get_major v + 1 \<le> get_major w" using le by (auto simp: ver_le_iff)
    then have "(get_major v - 26) * 4 + 4 \<le> (get_major w - 26) * 4" by simp
    then show ?thesis using i(1,3) j(1,2) by linarith
  qed
qed

text \<open>Mapping a calendar version into the legacy numbering keeps its meaning: the result is a
  version of the legacy line from 10.0 on with the same patch, it is an LTS version there exactly when
  the calendar version is one, and later calendar versions never get earlier release slots.\<close>

theorem to_legacy_correct:
  assumes v: "is_calendar_version v"
  shows "legacy_valid (to_legacy v) \<and> get_major (to_legacy v) \<ge> 10 \<and>
    get_patch (to_legacy v) = get_patch v \<and>
    (legacy_is_lts (to_legacy v) \<longleftrightarrow> calendar_is_lts v) \<and>
    (\<forall>w. is_calendar_version w \<and> ver_le v w \<longrightarrow>
       get_major (to_legacy v) * 8 + get_minor (to_legacy v) \<le>
       get_major (to_legacy w) * 8 + get_minor (to_legacy w))"
proof -
  note b = cycle_bounds [OF v] and s = to_legacy_slot [OF v]
  have "legacy_is_lts (to_legacy v) \<longleftrightarrow> calendar_is_lts v"
    using b s calendar_last_slot [OF v] by (auto simp: legacy_is_lts_def legacy_consts)
  moreover have "legacy_valid (to_legacy v)" using b s by (simp add: legacy_valid_def)
  ultimately show ?thesis
    using b s release_offset_mono [OF v] by (simp add: to_legacy_slot)
qed

theorem to_legacy_correct_witness:
  "is_calendar_version (Version3 28 4 2) \<and> to_legacy (Version3 28 4 2) = Version3 10 7 2 \<and>
   legacy_is_lts (to_legacy (Version3 28 4 2)) \<and> calendar_is_lts (Version3 28 4 2)"
proof -
  have v: "is_calendar_version (Version3 28 4 2)" "calendar_is_lts (Version3 28 4 2)"
    by (simp_all add: is_calendar_version_iff calendar_is_lts_iff)
  have "to_legacy (Version3 28 4 2) = Version3 10 7 2"
    using v(1) by (simp add: to_legacy_def Let_def release_offset_def calendar_consts release_index_div
        sdiv_nonneg smod_nonneg)
  with v to_legacy_correct [OF v(1)] show ?thesis by simp
qed

lemma legacy_major_mono:
  assumes "release_valid v" "release_valid w" "ver_le v w"
  shows "legacy_major_version (if is_calendar_version v then to_legacy v else v) \<le>
    legacy_major_version (if is_calendar_version w then to_legacy w else w)"
proof -
  have c: "cycle v \<le> cycle w" if "is_calendar_version v" "is_calendar_version w"
    using release_offset_mono [OF that assms(3)] cycle_bounds [OF that(1)] cycle_bounds [OF that(2)]
    by presburger
  have l: "legacy_major_version u = get_major u \<and> get_major u < 10"
    if "release_valid u" "\<not> is_calendar_version u" for u
    using that by (auto simp: release_valid_def legacy_valid_def legacy_major_version_def)
  have t: "legacy_major_version (to_legacy u) = 10 + cycle u" "0 \<le> cycle u" "26 \<le> get_major u"
    if "is_calendar_version u" for u
    using cycle_bounds(1) [OF that] that
    by (auto simp: legacy_major_version_def to_legacy_slot is_calendar_version_iff)
  have m: "get_major v \<le> get_major w" using assms(3) by (auto simp: ver_le_iff)
  show ?thesis
    using c m l [OF assms(1)] l [OF assms(2)] t [of v] t [of w]
    by (cases "is_calendar_version v"; cases "is_calendar_version w") auto
qed

text \<open>The distance in major versions is antisymmetric and additive, and on versions of the release
  line it is never negative from an earlier version to a later one.\<close>

theorem major_difference_distance:
  "major_difference v w = - major_difference w v \<and>
   major_difference u v + major_difference v w = major_difference u w \<and>
   (release_valid v \<and> release_valid w \<and> ver_le v w \<longrightarrow> 0 \<le> major_difference v w)"
  using legacy_major_mono [of v w] by (simp add: major_difference_def legacy_major_difference_def)

theorem major_difference_distance_witness:
  "release_valid (Version3 8 4 0) \<and> release_valid (Version3 26 7 0) \<and>
   major_difference (Version3 8 4 0) (Version3 26 7 0) = 2 \<and>
   0 \<le> major_difference (Version3 8 4 0) (Version3 26 7 0)"
proof -
  have v: "release_valid (Version3 8 4 0)" "release_valid (Version3 26 7 0)"
    "ver_le (Version3 8 4 0) (Version3 26 7 0)"
    by (simp_all add: release_valid_def legacy_valid_def is_calendar_version_iff ver_le_iff)
  have "major_difference (Version3 8 4 0) (Version3 26 7 0) = 2"
    by (simp add: major_difference_def legacy_major_difference_def legacy_major_version_def
        is_calendar_version_iff to_legacy_slot cycle_def release_offset_def Let_def calendar_consts
        release_index_div sdiv_nonneg)
  with v major_difference_distance [of "Version3 8 4 0" "Version3 26 7 0"] show ?thesis by simp
qed

section \<open>Corresponding versions\<close>

text \<open>The loop of the legacy numbering, started at a version whose major number is at least 8, ends and
  adds LTS releases in descending order.\<close>

lemma corresponding_loop_ends:
  assumes "result \<noteq> []" "get_major (last result) = 8 + int n"
    "n = 0 \<Longrightarrow> get_minor (last result) \<ge> 1"
  shows "\<exists>L. corresponding_loop result planned off = Some (result @ L) \<and>
    sorted_wrt (\<lambda>a b. ver_less b a) (last result # L) \<and>
    (\<forall>w\<in>set L. legacy_is_lts w \<and> legacy_valid w)"
  using assms
proof (induction n arbitrary: result planned)
  case 0
  then show ?case
    by (subst corresponding_loop.simps)
      (auto simp: Let_def legacy_consts legacy_is_lts_def legacy_valid_def ver_less_iff)
next
  case (Suc n)
  let ?m = "get_major (last result) - 1"
  let ?minor = "if 8 = ?m then k_minor_version_8_4 else k_minor_version"
  let ?new = "Version3 ?m ?minor (lts_release_patch ?m planned off)"
  let ?planned = "planned + count_planned_releases ?m ?minor"
  have step: "corresponding_loop result planned off =
      corresponding_loop (result @ [?new]) ?planned off"
    using Suc.prems by (subst corresponding_loop.simps) (simp add: Let_def legacy_consts)
  have new: "get_major ?new = 8 + int n" "n = 0 \<Longrightarrow> get_minor ?new \<ge> 1"
    "legacy_is_lts ?new \<and> legacy_valid ?new" "ver_less ?new (last result)"
    using Suc.prems by (auto simp: legacy_consts legacy_is_lts_def legacy_valid_def ver_less_iff)
  obtain L where L: "corresponding_loop (result @ [?new]) ?planned off = Some (result @ ?new # L)"
    "sorted_wrt (\<lambda>a b. ver_less b a) (?new # L)" "\<forall>w\<in>set L. legacy_is_lts w \<and> legacy_valid w"
    using Suc.IH [of "result @ [?new]" ?planned] new(1,2) by auto
  have "sorted_wrt (\<lambda>a b. ver_less b a) (last result # ?new # L)"
    using L(2) new(4) ver.lt_trans by auto
  then show ?case using step L(1,3) new(3) by (intro exI [of _ "?new # L"]) auto
qed

lemma legacy_corresponding_versions_ends:
  assumes v: "legacy_valid v" "ver_ge v (Version3 8 1 0)"
  shows "\<exists>L. legacy_corresponding_versions v = Some (L @ [v]) \<and> sorted_wrt ver_less (L @ [v]) \<and>
    (\<forall>w\<in>set L. legacy_is_lts w \<and> legacy_valid w)"
proof (cases "uses_july_2026_lts_anchor_cadence v")
  case True
  then show ?thesis
    by (intro exI [of _ "if get_major v > 8 then [corresponding_8_4_lts_version v] else []"])
      (auto simp: legacy_corresponding_versions_def corresponding_8_4_lts_version_def
        legacy_is_lts_def legacy_valid_def legacy_consts ver_less_iff)
next
  case False
  have n: "get_major v = 8 + int (nat (get_major v - 8))"
    "nat (get_major v - 8) = 0 \<Longrightarrow> get_minor v \<ge> 1"
    using v by (auto simp: legacy_valid_def ver_ge_def ver_less_iff)
  have "\<exists>L. corresponding_loop [v] planned off = Some ([v] @ L) \<and>
    sorted_wrt (\<lambda>a b. ver_less b a) (v # L) \<and> (\<forall>w\<in>set L. legacy_is_lts w \<and> legacy_valid w)"
    for planned off
    using corresponding_loop_ends [of "[v]" "nat (get_major v - 8)" planned off] n by simp
  then obtain L where "legacy_corresponding_versions v = Some (rev L @ [v])"
    "sorted_wrt (\<lambda>a b. ver_less b a) (v # L)" "\<forall>w\<in>set L. legacy_is_lts w \<and> legacy_valid w"
    using False unfolding legacy_corresponding_versions_def Let_def if_not_P [OF False]
    by (metis (no_types, lifting) option.simps(9) rev_append rev_singleton_conv)
  moreover then have "sorted_wrt ver_less (rev L @ [v])"
    using sorted_wrt_rev [of ver_less "v # L"] by simp
  ultimately show ?thesis by (intro exI [of _ "rev L"]) simp
qed

lemma concat_map_Cons_nil: "\<forall>x\<in>set xs. f x = [g x] \<Longrightarrow> concat (map f xs) = map g xs"
  by (induction xs) auto

lemma lts_offset_eq: "lts_offset i = 8 * i + 7"
  by (simp add: lts_offset_def calendar_consts release_index_div)

text \<open>The list for a calendar version in closed form.\<close>

lemma calendar_corresponding_versions_eq:
  assumes "is_calendar_version v"
  shows "calendar_corresponding_versions v =
    Version3 8 4 (11 + release_offset v + get_patch v) #
    Version3 9 7 (2 + release_offset v + get_patch v) #
    map (\<lambda>i. Version3 (28 + 2 * i) 4 (release_offset v - (8 * i + 7) + get_patch v)) [0..cycle v - 1] @
    [if calendar_is_lts v then Version3 (get_major v) 4 (get_patch v) else v]"
proof -
  let ?o = "release_offset v" and ?p = "get_patch v" and ?c = "cycle v"
  let ?e = "\<lambda>i. Version3 (28 + 2 * i) 4 (?o - (8 * i + 7) + ?p)"
  note b = cycle_bounds [OF assms]
  have e: "calendar_cycle_entries ?o ?p i = (if ?o \<ge> 8 * i + 7 then [?e i] else [])" for i
    by (simp add: calendar_cycle_entries_def lts_offset_eq Let_def lts_for_cycle_def calendar_consts
        mult.commute)
  have "[0..?c] = [0..?c - 1] @ [?c]" using b(1) by (simp add: upto_rec2)
  moreover have "concat (map (calendar_cycle_entries ?o ?p) [0..?c - 1]) = map ?e [0..?c - 1]"
    using b by (intro concat_map_Cons_nil) (auto simp: e)
  moreover have "calendar_cycle_entries ?o ?p ?c =
      (if calendar_is_lts v then [Version3 (get_major v) 4 ?p] else [])"
    using b calendar_last_slot [OF assms] calendar_lts_cycle [OF assms] by (auto simp: e)
  ultimately have l: "concat (map (calendar_cycle_entries ?o ?p) [0..?o sdiv k_cycle_releases]) =
      map ?e [0..?c - 1] @ (if calendar_is_lts v then [Version3 (get_major v) 4 ?p] else [])"
    by (simp add: cycle_def [symmetric])
  have lts: "ver_eq (Version3 (get_major v) 4 ?p) v" if "calendar_is_lts v"
    using that by (simp add: ver_eq_iff calendar_is_lts_iff)
  have ne: "ver_ne (last (Version3 8 4 (11 + (?o + ?p)) # Version3 9 7 (2 + (?o + ?p)) #
      map ?e [0..?c - 1])) v" if "\<not> calendar_is_lts v"
  proof (cases "?c = 0")
    case True
    then show ?thesis using assms by (auto simp: ver_ne_def ver_eq_iff is_calendar_version_iff)
  next
    case False
    then have "[0..?c - 1] = [0..?c - 2] @ [?c - 1]" using b(1) by (simp add: upto_rec2)
    then show ?thesis
      using calendar_in_cycle(2) [OF assms] by (auto simp: ver_ne_def ver_eq_iff)
  qed
  show ?thesis
    using lts ne unfolding calendar_corresponding_versions_def Let_def l
    by (cases "calendar_is_lts v")
      (auto simp: legacy_consts ver_ne_def add.assoc last_ConsR simp del: upto.simps last.simps)
qed

lemma sorted_wrt_upto: "sorted_wrt (<) [a..b]" for a b :: int
  using sorted_upto distinct_upto strict_sorted_iff by blast

lemma calendar_corresponding_versions_sorted:
  assumes "is_calendar_version v"
  shows "sorted_wrt ver_less (calendar_corresponding_versions v)"
proof -
  have "sorted_wrt ver_less (map (\<lambda>i. Version3 (28 + 2 * i) 4 (f i)) [0..k])" for f k
    unfolding sorted_wrt_map
    by (rule sorted_wrt_mono_rel [OF _ sorted_wrt_upto]) (simp add: ver_less_iff)
  then show ?thesis
    using assms calendar_in_cycle(2) [OF assms]
    unfolding calendar_corresponding_versions_eq [OF assms]
    by (auto simp: sorted_wrt_append ver_less_iff is_calendar_version_iff calendar_is_lts_iff)
qed

text \<open>For every release from 8.1 on, \<open>corresponding_versions\<close> returns, and returns the LTS releases
  that correspond to the given version in strictly ascending order, followed by the version itself.\<close>

theorem corresponding_versions_ascending_lts:
  assumes "release_valid v" "ver_ge v (Version3 8 1 0)"
  shows "\<exists>L u. corresponding_versions v = Some (L @ [u]) \<and> ver_eq u v \<and>
    sorted_wrt ver_less (L @ [u]) \<and> (\<forall>w\<in>set L. is_lts w)"
proof (cases "is_calendar_version v")
  case True
  let ?u = "if calendar_is_lts v then Version3 (get_major v) 4 (get_patch v) else v"
  obtain L where L: "calendar_corresponding_versions v = L @ [?u]" "\<forall>w\<in>set L. is_lts w"
    using calendar_corresponding_versions_eq [OF True, unfolded append_Cons [symmetric]]
    by (rule that)
      (auto simp: is_lts_def is_calendar_version_iff calendar_is_lts_iff legacy_is_lts_def legacy_consts)
  moreover have "ver_eq ?u v" by (auto simp: ver_eq_iff calendar_is_lts_iff)
  ultimately show ?thesis
    using True calendar_corresponding_versions_sorted [OF True]
    by (auto simp: corresponding_versions_def)
next
  case False
  then have v: "legacy_valid v" "get_major v < 10" using assms(1) by (auto simp: release_valid_def)
  obtain L where L: "legacy_corresponding_versions v = Some (L @ [v])"
    "sorted_wrt ver_less (L @ [v])" "\<forall>w\<in>set L. legacy_is_lts w \<and> legacy_valid w"
    using legacy_corresponding_versions_ends v(1) assms(2) by blast
  have "is_lts w" if "w \<in> set L" for w
    using that L(2,3) v(2) legacy_not_calendar [of w]
    by (auto simp: is_lts_def sorted_wrt_append ver_less_iff)
  then show ?thesis
    using False L(1,2) by (intro exI [of _ L] exI [of _ v]) (auto simp: corresponding_versions_def ver_eq_iff)
qed

theorem corresponding_versions_ascending_lts_witness:
  "release_valid (Version3 28 7 0) \<and>
   corresponding_versions (Version3 28 7 0) =
     Some [Version3 8 4 19, Version3 9 7 10, Version3 28 4 1, Version3 28 7 0] \<and>
   (\<exists>L u. corresponding_versions (Version3 28 7 0) = Some (L @ [u]) \<and> ver_eq u (Version3 28 7 0) \<and>
    sorted_wrt ver_less (L @ [u]) \<and> (\<forall>w\<in>set L. is_lts w))"
proof -
  have c: "is_calendar_version (Version3 28 7 0)" by (simp add: is_calendar_version_iff)
  have o: "release_offset (Version3 28 7 0) = 8"
    by (simp add: release_offset_def Let_def calendar_consts release_index_div)
  have "corresponding_versions (Version3 28 7 0) =
     Some [Version3 8 4 19, Version3 9 7 10, Version3 28 4 1, Version3 28 7 0]"
    using c o by (simp add: corresponding_versions_def calendar_corresponding_versions_eq cycle_def
        calendar_consts sdiv_nonneg calendar_is_lts_iff)
  moreover have "release_valid (Version3 28 7 0)" "ver_ge (Version3 28 7 0) (Version3 8 1 0)"
    using c by (simp_all add: release_valid_def ver_ge_def ver_less_iff)
  ultimately show ?thesis
    using corresponding_versions_ascending_lts [of "Version3 28 7 0"] by blast
qed

end
