(* ===== verification/Std_Map.thy ===== *)
theory Std_Map
  imports Prelude
begin

text \<open>
  The ordered maps of the C++ standard library, as far as the components use them: an association list
  in ascending order of its keys, which is the order in which the code iterates. The locale
  \<open>advancing_map\<close> is the contract of the idiom ``emplace, and replace an existing value when the new
  one is ahead'' with its consequences for a sequence of such updates.
\<close>

section \<open>Operations\<close>

abbreviation std_find :: "('k \<times> 'v) list \<Rightarrow> 'k \<Rightarrow> 'v option" where
  "std_find \<equiv> map_of"

fun std_emplace :: "'k::linorder \<Rightarrow> 'v \<Rightarrow> ('k \<times> 'v) list \<Rightarrow> ('k \<times> 'v) list \<times> bool" where
  "std_emplace k v [] = ([(k, v)], True)"
| "std_emplace k v ((k', v') # m) =
     (if k < k' then ((k, v) # (k', v') # m, True)
      else if k = k' then ((k', v') # m, False)
      else let (m', inserted) = std_emplace k v m in ((k', v') # m', inserted))"

text \<open>Assignment through an iterator, \<^verbatim>\<open>it->second = v\<close>.\<close>

definition std_assign :: "'k \<Rightarrow> 'v \<Rightarrow> ('k \<times> 'v) list \<Rightarrow> ('k \<times> 'v) list" where
  "std_assign k v m = map (\<lambda>(k', v'). if k' = k then (k', v) else (k', v')) m"

definition std_map_ok :: "('k::linorder \<times> 'v) list \<Rightarrow> bool" where
  "std_map_ok m \<longleftrightarrow> sorted_wrt (<) (map fst m)"

section \<open>Laws\<close>

lemma std_map_ok_simps [simp]:
  "std_map_ok []"
  "std_map_ok ((k, v) # m) \<longleftrightarrow> (\<forall>k' \<in> fst ` set m. k < k') \<and> std_map_ok m"
  by (auto simp: std_map_ok_def)

lemma std_map_ok_distinct: "std_map_ok m \<Longrightarrow> distinct (map fst m)"
  unfolding std_map_ok_def using strict_sorted_iff by blast

lemma std_find_in_set: "std_map_ok m \<Longrightarrow> std_find m k = Some v \<longleftrightarrow> (k, v) \<in> set m"
  using std_map_ok_distinct map_of_eq_Some_iff by metis

lemma std_map_eqI:
  assumes "std_map_ok m" "std_map_ok n" "std_find m = std_find n"
  shows "m = n"
proof -
  have "set m = set n" using assms by (metis std_find_in_set subsetI subset_antisym surj_pair)
  then have "map fst m = map fst n"
    using assms(1,2) unfolding std_map_ok_def by (metis list.set_map strict_sorted_equal)
  moreover have "map snd m = map snd n"
  proof (rule nth_equalityI)
    show "length (map snd m) = length (map snd n)" using \<open>map fst m = map fst n\<close>
      by (metis length_map)
    show "map snd m ! i = map snd n ! i" if "i < length (map snd m)" for i
    proof -
      have l: "i < length m" "i < length n" using that \<open>map fst m = map fst n\<close> by (auto dest: map_eq_imp_length_eq)
      have "std_find m (fst (m ! i)) = Some (snd (m ! i))" "std_find n (fst (n ! i)) = Some (snd (n ! i))"
        using l assms(1,2) by (auto simp: std_find_in_set)
      moreover have "fst (m ! i) = fst (n ! i)"
        using l \<open>map fst m = map fst n\<close> by (metis nth_map)
      ultimately show ?thesis using l assms(3) by auto
    qed
  qed
  ultimately show ?thesis by (metis zip_map_fst_snd)
qed

lemma std_emplace_keys [simp]: "fst ` set (fst (std_emplace k v m)) = insert k (fst ` set m)"
proof (induction m)
  case (Cons kv m)
  then show ?case by (cases kv; cases "std_emplace k v m") (simp add: insert_commute)
qed simp

lemma std_emplace_ok: "std_map_ok m \<Longrightarrow> std_map_ok (fst (std_emplace k v m))"
proof (induction m)
  case (Cons kv m)
  then show ?case
    using std_emplace_keys [of k v m]
    by (cases kv; cases "std_emplace k v m") (auto simp del: std_emplace_keys image_iff)
qed simp

lemma std_emplace_find:
  assumes "std_map_ok m"
  shows "std_find (fst (std_emplace k v m)) =
      (case std_find m k of None \<Rightarrow> (std_find m)(k \<mapsto> v) | Some _ \<Rightarrow> std_find m)"
    and "snd (std_emplace k v m) \<longleftrightarrow> std_find m k = None"
proof -
  have *: "std_find (fst (std_emplace k v m)) =
      (case std_find m k of None \<Rightarrow> (std_find m)(k \<mapsto> v) | Some _ \<Rightarrow> std_find m) \<and>
    (snd (std_emplace k v m) \<longleftrightarrow> std_find m k = None)"
    using assms
  proof (induction m)
    case (Cons kv m)
    obtain k' v' where kv: "kv = (k', v')" by fastforce
    have none: "std_find m k = None" if "k < k'"
      using that Cons.prems kv by (fastforce simp: map_of_eq_None_iff)
    show ?case
      using Cons none unfolding kv
      by (auto split: prod.splits option.splits simp: fun_upd_twist)
  qed simp
  then show "std_find (fst (std_emplace k v m)) =
      (case std_find m k of None \<Rightarrow> (std_find m)(k \<mapsto> v) | Some _ \<Rightarrow> std_find m)"
    "snd (std_emplace k v m) \<longleftrightarrow> std_find m k = None" by auto
qed

lemma std_assign_keys [simp]: "map fst (std_assign k v m) = map fst m"
  by (auto simp: std_assign_def)

lemma std_assign_ok [simp]: "std_map_ok (std_assign k v m) \<longleftrightarrow> std_map_ok m"
  by (simp add: std_map_ok_def)

lemma std_assign_find:
  "std_find (std_assign k v m) = (if std_find m k = None then std_find m else (std_find m)(k \<mapsto> v))"
  by (induction m) (auto simp: std_assign_def fun_upd_twist split: if_splits)

section \<open>Updates that only advance\<close>

locale advancing_map =
  fixes ok :: "'m \<Rightarrow> bool"
    and look :: "'m \<Rightarrow> 'k \<Rightarrow> 'v option"
    and put :: "'k \<Rightarrow> 'v \<Rightarrow> 'm \<Rightarrow> 'm"
    and rank :: "'v \<Rightarrow> nat"
  assumes put_ok: "ok m \<Longrightarrow> ok (put k v m)"
    and look_put: "ok m \<Longrightarrow> look (put k v m) =
      (look m)(k \<mapsto> case look m k of None \<Rightarrow> v | Some u \<Rightarrow> if rank u < rank v then v else u)"
begin

text \<open>The rank of a key, with absent keys below every present one.\<close>

definition level :: "'m \<Rightarrow> 'k \<Rightarrow> nat option" where
  "level m k = map_option rank (look m k)"

definition put_all :: "('k \<times> 'v) list \<Rightarrow> 'm \<Rightarrow> 'm" where
  "put_all xs m = fold (\<lambda>(k, v). put k v) xs m"

lemma put_all_ok: "ok m \<Longrightarrow> ok (put_all xs m)"
  unfolding put_all_def by (induction xs arbitrary: m) (auto simp: put_ok)

lemma level_put:
  "ok m \<Longrightarrow> level (put k v m) = (level m)(k \<mapsto> case level m k of None \<Rightarrow> rank v | Some r \<Rightarrow> max r (rank v))"
  by (auto simp: level_def look_put split: option.splits)

text \<open>A key reaches rank \<open>r\<close> after the updates exactly if it had reached it or one of them reaches it.\<close>

lemma level_put_all:
  "ok m \<Longrightarrow> (\<exists>s. level (put_all xs m) k = Some s \<and> r \<le> s) \<longleftrightarrow>
    (\<exists>s. level m k = Some s \<and> r \<le> s) \<or> (\<exists>v. (k, v) \<in> set xs \<and> r \<le> rank v)"
proof (induction xs arbitrary: m)
  case Nil
  then show ?case by (simp add: put_all_def)
next
  case (Cons kv xs)
  obtain k' v' where kv: "kv = (k', v')" by fastforce
  have "put_all (kv # xs) m = put_all xs (put k' v' m)" by (simp add: put_all_def kv)
  then show ?case
    using Cons.IH [OF put_ok [OF Cons.prems]] Cons.prems
    by (auto simp: kv level_put le_max_iff_disj split: option.splits)
qed

text \<open>Values come from somewhere: nothing is invented.\<close>

lemma look_put_all_source:
  assumes "ok m" "look (put_all xs m) k = Some v"
  shows "look m k = Some v \<or> (k, v) \<in> set xs"
  using assms
proof (induction xs arbitrary: m)
  case (Cons kv xs)
  obtain k' v' where kv: "kv = (k', v')" by fastforce
  have "put_all (kv # xs) m = put_all xs (put k' v' m)" by (simp add: put_all_def kv)
  then have "look (put k' v' m) k = Some v \<or> (k, v) \<in> set xs"
    using Cons put_ok by simp
  then show ?case
    using Cons.prems(1) by (auto simp: kv look_put split: if_splits option.splits)
qed (simp add: put_all_def)

lemma look_put_all_fresh:
  assumes "ok m" "distinct (map fst xs)" "\<forall>k \<in> fst ` set xs. look m k = None"
  shows "look (put_all xs m) = look m ++ map_of xs"
  using assms
proof (induction xs arbitrary: m)
  case (Cons kv xs)
  obtain k v where kv: "kv = (k, v)" by fastforce
  have p: "look (put k v m) = (look m)(k \<mapsto> v)" using Cons.prems by (simp add: look_put kv)
  have "look (put_all xs (put k v m)) = look (put k v m) ++ map_of xs"
    using Cons.prems by (intro Cons.IH put_ok) (auto simp: p kv)
  moreover have "map_of xs k = None" using Cons.prems by (simp add: kv map_of_eq_None_iff)
  ultimately show ?case
    by (auto simp: put_all_def kv p map_add_def fun_eq_iff split: option.splits)
qed (simp add: put_all_def)

end

end
