(* ===== verification/Mariadb_Gtid.thy ===== *)
theory Mariadb_Gtid
  imports Str_Util Std_Map "HOL-Library.Word"
begin

text \<open>
  Model of \<^verbatim>\<open>Mariadb_gtid_position\<close> (\<^verbatim>\<open>mysqlshdk/libs/mysql/mariadb_gtid.{h,cc}\<close>): the position of a
  MariaDB server, one \<^verbatim>\<open>domain-server-sequence\<close> triple for each replication domain. The abstract
  meaning of a position is the set of transactions it covers; the operations are shown to be the set
  operations on it, and printing and parsing to be inverse.
\<close>

section \<open>Data\<close>

record gtid_entry =
  server_id :: "32 word"
  sequence :: "64 word"

type_synonym gtid_position = "(32 word \<times> gtid_entry) list"

section \<open>Parsing\<close>

definition gtid_invalid :: "string \<Rightarrow> cpp_error" where
  "gtid_invalid position =
     Invalid_argument (''Invalid MariaDB GTID position: '' @ [CHR 0x27] @ position @ [CHR 0x27])"

fun parse_number_loop :: "string \<Rightarrow> 64 word \<Rightarrow> string \<Rightarrow> 64 word \<Rightarrow> 64 word result" where
  "parse_number_loop [] limit position val = Inr val"
| "parse_number_loop (c # cs) limit position val =
     (let digit = of_nat (ord c) - 48
      in if val > (limit - digit) div 10 then Inl (gtid_invalid position)
         else parse_number_loop cs limit position (val * 10 + digit))"

definition parse_number :: "string \<Rightarrow> 64 word \<Rightarrow> string \<Rightarrow> 64 word result" where
  "parse_number component limit position =
     (if component = [] \<or> find_first_not_of ''0123456789'' component 0 \<noteq> None
      then Inl (gtid_invalid position)
      else parse_number_loop component limit position 0)"

definition k_max_id :: "64 word" where "k_max_id = 0xFFFFFFFF"
definition k_max_sequence :: "64 word" where "k_max_sequence = 0xFFFFFFFFFFFFFFFF"

text \<open>The body shared by \<^verbatim>\<open>parse\<close> and \<^verbatim>\<open>merge\<close>: emplace, and advance an existing entry.\<close>

definition gtid_put :: "32 word \<Rightarrow> gtid_entry \<Rightarrow> gtid_position \<Rightarrow> gtid_position" where
  "gtid_put domain entry domains =
     (let (domains', inserted) = std_emplace domain entry domains
      in case std_find domains' domain of
           Some it \<Rightarrow> if \<not> inserted \<and> sequence it < sequence entry
                      then std_assign domain entry domains' else domains'
         | None \<Rightarrow> domains')"

definition parse_triple :: "string \<Rightarrow> string \<Rightarrow> (32 word \<times> gtid_entry) result" where
  "parse_triple position gtid =
     (let triple = str_split (str_strip_view gtid blank_chars) ''-'' (-1) False
      in if length triple \<noteq> 3 then Inl (gtid_invalid position)
         else rbind (parse_number (triple ! 0) k_max_id position) (\<lambda>domain.
              rbind (parse_number (triple ! 1) k_max_id position) (\<lambda>server.
              rbind (parse_number (triple ! 2) k_max_sequence position) (\<lambda>seq.
              Inr (ucast domain, \<lparr>server_id = ucast server, sequence = seq\<rparr>)))))"

fun gtid_parse_loop :: "string \<Rightarrow> string list \<Rightarrow> gtid_position \<Rightarrow> gtid_position result" where
  "gtid_parse_loop position [] domains = Inr domains"
| "gtid_parse_loop position (gtid # rest) domains =
     rbind (parse_triple position gtid) (\<lambda>(domain, entry).
       gtid_parse_loop position rest (gtid_put domain entry domains))"

definition gtid_parse :: "string \<Rightarrow> gtid_position result" where
  "gtid_parse position =
     (if str_strip_view position blank_chars = [] then Inr []
      else gtid_parse_loop position (str_split position '','' (-1) False) [])"

section \<open>Printing\<close>

fun gtid_str_loop :: "gtid_position \<Rightarrow> string \<Rightarrow> string" where
  "gtid_str_loop [] res = res"
| "gtid_str_loop ((domain, entry) # rest) res =
     gtid_str_loop rest
       ((if res \<noteq> [] then res @ '','' else res) @ show_nat (unat domain) @ ''-'' @
        show_nat (unat (server_id entry)) @ ''-'' @ show_nat (unat (sequence entry)))"

definition gtid_str :: "gtid_position \<Rightarrow> string" where
  "gtid_str domains = gtid_str_loop domains []"

section \<open>Comparing and merging\<close>

definition gtid_empty :: "gtid_position \<Rightarrow> bool" where
  "gtid_empty domains \<longleftrightarrow> domains = []"

definition gtid_contains :: "gtid_position \<Rightarrow> gtid_position \<Rightarrow> bool" where
  "gtid_contains this other =
     list_all (\<lambda>(domain, entry).
       case std_find this domain of
         None \<Rightarrow> False
       | Some it \<Rightarrow> \<not> sequence it < sequence entry) other"


definition transactions_since :: "gtid_position \<Rightarrow> gtid_position \<Rightarrow> 64 word" where
  "transactions_since this base =
     foldl (\<lambda>count (domain, entry).
       let from = (case std_find base domain of None \<Rightarrow> 0 | Some it \<Rightarrow> sequence it)
       in if sequence entry > from then count + (sequence entry - from) else count) 0 this"

definition gtid_merge :: "gtid_position \<Rightarrow> gtid_position \<Rightarrow> gtid_position" where
  "gtid_merge this other = foldl (\<lambda>domains (domain, entry). gtid_put domain entry domains) this other"

section \<open>The numbers\<close>

lemma digit_chars_iff: "c \<in> set ''0123456789'' \<longleftrightarrow> isdigit c"
proof -
  have "c \<in> A \<longleftrightarrow> ord c \<in> ord ` A" for A by (auto simp: image_iff)
  then have "c \<in> set ''0123456789'' \<longleftrightarrow> ord c \<in> ord ` set ''0123456789''" .
  also have "ord ` set ''0123456789'' = {48, 49, 50, 51, 52, 53, 54, 55, 56, 57}" by simp
  also have "ord c \<in> {48, 49, 50, 51, 52, 53, 54, 55, 56, 57} \<longleftrightarrow> 48 \<le> ord c \<and> ord c \<le> 57"
    unfolding insert_iff empty_iff by arith
  finally show ?thesis unfolding isdigit_def .
qed

lemma digits_only: "find_first_not_of ''0123456789'' s 0 = None \<longleftrightarrow> (\<forall>c \<in> set s. isdigit c)"
  unfolding find_from_None_iff digit_chars_iff by simp

lemma digits_val_Cons_ge: "foldl (\<lambda>v c. v * 10 + digit_val c) v s \<ge> v"
  by (induction s arbitrary: v) (simp, fastforce intro: order_trans [rotated])

text \<open>The check before each step is exact: the loop succeeds precisely when the value fits below the
  limit, and no step wraps around.\<close>

lemma parse_number_loop_eq:
  assumes "\<forall>c \<in> set s. isdigit c" "9 \<le> unat limit" "unat v \<le> unat limit"
  shows "parse_number_loop s limit position v =
    (let n = foldl (\<lambda>v c. v * 10 + digit_val c) (unat v) s
     in if n \<le> unat limit then Inr (of_nat n) else Inl (gtid_invalid position))"
  using assms
proof (induction s arbitrary: v)
  case Nil
  then show ?case by simp
next
  case (Cons c s)
  let ?d = "of_nat (ord c) - 48 :: 64 word"
  have c: "48 \<le> ord c" "ord c \<le> 57" using Cons.prems(1) by (auto simp: isdigit_def)
  have "?d = of_nat (digit_val c)" using c by (simp add: of_nat_diff digit_val_def)
  moreover have d9: "digit_val c \<le> 9" using c by (simp add: digit_val_def)
  ultimately have d: "unat ?d = digit_val c" "digit_val c \<le> 9"
    by (simp_all only: unat_of_nat take_bit_nat_eq_self) (use d9 in simp)
  have lim: "unat (limit - ?d) = unat limit - digit_val c"
    using d Cons.prems(2) by (subst unat_sub) (auto simp: word_le_nat_alt)
  have cmp: "v > (limit - ?d) div 10 \<longleftrightarrow> unat v * 10 + digit_val c > unat limit"
    using d Cons.prems(2) by (auto simp: word_less_nat_alt unat_div lim)
  show ?case
  proof (cases "unat v * 10 + digit_val c > unat limit")
    case True
    then show ?thesis
      using cmp digits_val_Cons_ge [of "unat v * 10 + digit_val c" s] by (simp add: Let_def)
  next
    case False
    have "unat limit < 2 ^ 64" using unsigned_less [of limit] by simp
    then have u: "unat (v * 10 + ?d) = unat v * 10 + digit_val c"
      using False d by (simp add: unat_word_ariths take_bit_nat_eq_self)
    show ?thesis
      using False cmp Cons.IH [of "v * 10 + ?d"] Cons.prems u by (simp add: Let_def)
  qed
qed

lemma parse_number_eq:
  assumes "9 \<le> unat limit"
  shows "parse_number s limit position =
    (if s \<noteq> [] \<and> (\<forall>c \<in> set s. isdigit c) \<and> digits_val s \<le> unat limit
     then Inr (of_nat (digits_val s)) else Inl (gtid_invalid position))"
  using assms parse_number_loop_eq [of s limit 0]
  unfolding parse_number_def digits_only digits_val_def by (auto simp: Let_def)

section \<open>Positions as sets of transactions\<close>

definition gtid_ok :: "gtid_position \<Rightarrow> bool" where
  "gtid_ok p \<longleftrightarrow> std_map_ok p"

text \<open>A position stands for all transactions of its domains up to the sequence numbers it names;
  sequence numbers start at 1.\<close>

definition covers :: "gtid_position \<Rightarrow> (32 word \<times> nat) set" where
  "covers p = {(d, n). \<exists>e. std_find p d = Some e \<and> 1 \<le> n \<and> n \<le> unat (sequence e)}"

lemma gtid_put_find:
  assumes "std_map_ok m"
  shows "std_find (gtid_put d e m) =
      (std_find m)(d \<mapsto> case std_find m d of None \<Rightarrow> e
         | Some u \<Rightarrow> if unat (sequence u) < unat (sequence e) then e else u)"
    and "std_map_ok (gtid_put d e m)"
proof -
  obtain m' b where mb: "std_emplace d e m = (m', b)" by fastforce
  have f: "std_find m' = (case std_find m d of None \<Rightarrow> (std_find m)(d \<mapsto> e) | Some _ \<Rightarrow> std_find m)"
    "b \<longleftrightarrow> std_find m d = None" "std_map_ok m'"
    using std_emplace_find [OF assms, of d e] std_emplace_ok [OF assms, of d e] mb by simp_all
  show "std_find (gtid_put d e m) =
      (std_find m)(d \<mapsto> case std_find m d of None \<Rightarrow> e
         | Some u \<Rightarrow> if unat (sequence u) < unat (sequence e) then e else u)"
    using f by (auto simp: gtid_put_def mb std_assign_find word_less_nat_alt fun_eq_iff
        split: option.splits)
  show "std_map_ok (gtid_put d e m)"
    using f(3) by (simp add: gtid_put_def mb split: option.split)
qed

interpretation mg: advancing_map std_map_ok std_find gtid_put "\<lambda>e. unat (sequence e)"
  by unfold_locales (simp_all add: gtid_put_find)

lemma gtid_merge_put_all: "gtid_merge p q = mg.put_all q p"
  unfolding gtid_merge_def mg.put_all_def foldl_conv_fold by (rule arg_cong2 [where f = "\<lambda>f. fold f q"]) auto

lemma covers_level: "(d, n) \<in> covers p \<longleftrightarrow> 1 \<le> n \<and> (\<exists>s. mg.level p d = Some s \<and> n \<le> s)"
  by (auto simp: covers_def mg.level_def)


lemma gtid_contains_find:
  assumes "std_map_ok b"
  shows "gtid_contains a b \<longleftrightarrow>
    (\<forall>d e. std_find b d = Some e \<longrightarrow>
       (\<exists>f. std_find a d = Some f \<and> unat (sequence e) \<le> unat (sequence f)))"
  by (fastforce simp: gtid_contains_def list_all_iff std_find_in_set [OF assms, symmetric]
      not_less word_le_nat_alt split: option.splits)

lemma gtid_contains_levels:
  assumes "std_map_ok b"
  shows "gtid_contains a b \<longleftrightarrow>
      (\<forall>d n. (\<exists>s. mg.level b d = Some s \<and> n \<le> s) \<longrightarrow> (\<exists>s. mg.level a d = Some s \<and> n \<le> s))"
  (is "_ = ?levels")
proof
  assume "gtid_contains a b"
  then have "\<exists>f. std_find a d = Some f \<and> unat (sequence e) \<le> unat (sequence f)"
    if "std_find b d = Some e" for d e using that by (simp add: gtid_contains_find [OF assms])
  then show ?levels unfolding mg.level_def by (force intro: order_trans)
next
  assume l: ?levels
  have "\<exists>f. std_find a d = Some f \<and> unat (sequence e) \<le> unat (sequence f)"
    if "std_find b d = Some e" for d e
    using l [rule_format, of d "unat (sequence e)"] that by (auto simp: mg.level_def)
  then show "gtid_contains a b" by (simp add: gtid_contains_find [OF assms])
qed

text \<open>C19: merging two positions gives a position that covers exactly the union of the transactions the
  two cover; it contains both, and every position that contains both contains it.\<close>

theorem gtid_merge_union:
  assumes "gtid_ok p" "gtid_ok q"
  shows "gtid_ok (gtid_merge p q) \<and> covers (gtid_merge p q) = covers p \<union> covers q \<and>
    gtid_contains (gtid_merge p q) p \<and> gtid_contains (gtid_merge p q) q \<and>
    (\<forall>r. gtid_contains r p \<and> gtid_contains r q \<longrightarrow> gtid_contains r (gtid_merge p q))"
proof -
  have ok: "std_map_ok p" "std_map_ok q" using assms by (auto simp: gtid_ok_def)
  let ?m = "gtid_merge p q"
  have okm: "std_map_ok ?m" using ok mg.put_all_ok by (simp add: gtid_merge_put_all)
  have lv: "(\<exists>s. mg.level ?m d = Some s \<and> n \<le> s) \<longleftrightarrow>
      (\<exists>s. mg.level p d = Some s \<and> n \<le> s) \<or> (\<exists>s. mg.level q d = Some s \<and> n \<le> s)" for d n
  proof -
    have "(\<exists>v. (d, v) \<in> set q \<and> n \<le> unat (sequence v)) \<longleftrightarrow> (\<exists>s. mg.level q d = Some s \<and> n \<le> s)"
      by (auto simp: mg.level_def std_find_in_set [OF ok(2), symmetric])
    then show ?thesis
      using mg.level_put_all [OF ok(1), of q d n] by (simp add: gtid_merge_put_all)
  qed
  have "covers ?m = covers p \<union> covers q"
    using lv by (auto simp: covers_level)
  then show ?thesis
    using ok okm lv by (auto simp: gtid_contains_levels gtid_ok_def)
qed

theorem gtid_merge_union_witness:
  "gtid_ok [(0, \<lparr>server_id = 1, sequence = 42\<rparr>)] \<and>
   covers (gtid_merge [(0, \<lparr>server_id = 1, sequence = 42\<rparr>)] [(7, \<lparr>server_id = 2, sequence = 3\<rparr>)]) =
   covers [(0, \<lparr>server_id = 1, sequence = 42\<rparr>)] \<union> covers [(7, \<lparr>server_id = 2, sequence = 3\<rparr>)]"
proof -
  have "gtid_ok [(0, \<lparr>server_id = 1, sequence = 42\<rparr>)]" "gtid_ok [(7, \<lparr>server_id = 2, sequence = 3\<rparr>)]"
    by (simp_all add: gtid_ok_def)
  with gtid_merge_union show ?thesis by blast
qed



section \<open>Counting\<close>

lemma covers_finite: "finite (covers p)"
proof -
  have "covers p \<subseteq> (\<Union>(d, e) \<in> set p. {d} \<times> {..unat (sequence e)})"
    by (auto simp: covers_def dest!: map_of_SomeD)
  then show ?thesis by (rule finite_subset) auto
qed

text \<open>The transactions one domain adds to a base position.\<close>

definition domain_news :: "gtid_position \<Rightarrow> 32 word \<Rightarrow> gtid_entry \<Rightarrow> nat" where
  "domain_news base d e =
     unat (sequence e) - (case std_find base d of None \<Rightarrow> 0 | Some it \<Rightarrow> unat (sequence it))"

lemma card_covers_Cons:
  assumes "std_map_ok ((d, e) # p)"
  shows "card (covers ((d, e) # p) - covers base) = domain_news base d e + card (covers p - covers base)"
proof -
  let ?f = "case std_find base d of None \<Rightarrow> 0 | Some it \<Rightarrow> unat (sequence it)"
  have none: "std_find p d = None" using assms by (force simp: map_of_eq_None_iff)
  have "covers ((d, e) # p) - covers base = {d} \<times> {?f<..unat (sequence e)} \<union> (covers p - covers base)"
    using none by (auto simp: covers_def split: option.splits if_splits)
  moreover have "card ({d} \<times> {?f<..unat (sequence e)}) = domain_news base d e"
    by (simp add: domain_news_def card_cartesian_product)
  moreover have "{d} \<times> {?f<..unat (sequence e)} \<inter> (covers p - covers base) = {}"
    using none by (auto simp: covers_def)
  ultimately show ?thesis
    using covers_finite by (simp add: card_Un_disjoint)
qed

lemma transactions_since_step:
  "(let from = (case std_find base d of None \<Rightarrow> 0 | Some it \<Rightarrow> sequence it)
    in if sequence e > from then count + (sequence e - from) else count) =
   count + of_nat (domain_news base d e)"
proof -
  have "of_nat (unat a - unat b) = a - b" if "b < a" for a b :: "64 word"
    using that by (simp add: unat_sub [symmetric] less_imp_le)
  moreover have "unat a - unat b = 0" if "\<not> b < a" for a b :: "64 word"
    using that by (simp add: word_less_nat_alt)
  ultimately show ?thesis
    using word_gt_0 by (auto simp: domain_news_def Let_def split: option.split)
qed

text \<open>\<open>transactions_since\<close> counts the transactions covered by a position and not by the base
  position, modulo the width of its counter.\<close>

theorem transactions_since_card:
  assumes "gtid_ok p"
  shows "transactions_since p base = of_nat (card (covers p - covers base))"
proof -
  have "foldl (\<lambda>count (domain, entry).
       let from = (case std_find base domain of None \<Rightarrow> 0 | Some it \<Rightarrow> sequence it)
       in if sequence entry > from then count + (sequence entry - from) else count) c p =
     c + of_nat (card (covers p - covers base))" if "std_map_ok p" for c p
    using that
  proof (induction p arbitrary: c)
    case Nil
    then show ?case by (simp add: covers_def)
  next
    case (Cons de p)
    obtain d e where de: "de = (d, e)" by fastforce
    have ok: "std_map_ok ((d, e) # p)" "std_map_ok p" using Cons.prems by (auto simp: de)
    show ?case
      unfolding de foldl_Cons prod.case transactions_since_step card_covers_Cons [OF ok(1)]
      using Cons.IH [OF ok(2), unfolded transactions_since_step] by (simp add: add.assoc)
  qed
  then show ?thesis using assms by (simp add: gtid_ok_def transactions_since_def)
qed

theorem transactions_since_card_witness:
  "gtid_ok [(0, \<lparr>server_id = 1, sequence = 42\<rparr>)] \<and>
   transactions_since [(0, \<lparr>server_id = 1, sequence = 42\<rparr>)] [(0, \<lparr>server_id = 1, sequence = 40\<rparr>)] = 2 \<and>
   of_nat (card (covers [(0, \<lparr>server_id = 1, sequence = 42\<rparr>)] -
     covers [(0, \<lparr>server_id = 1, sequence = 40\<rparr>)])) = (2 :: 64 word)"
proof -
  let ?p = "[(0, \<lparr>server_id = 1, sequence = 42\<rparr>)] :: gtid_position"
  let ?b = "[(0, \<lparr>server_id = 1, sequence = 40\<rparr>)] :: gtid_position"
  have "gtid_ok ?p" "transactions_since ?p ?b = 2" by (simp_all add: gtid_ok_def transactions_since_def)
  then show ?thesis using transactions_since_card [of ?p ?b] by metis
qed

section \<open>Printing and parsing\<close>

definition triple_str :: "32 word \<times> gtid_entry \<Rightarrow> string" where
  "triple_str de = show_nat (unat (fst de)) @ ''-'' @ show_nat (unat (server_id (snd de))) @ ''-'' @
     show_nat (unat (sequence (snd de)))"

lemma triple_str_chars:
  "c \<in> set (triple_str de) \<Longrightarrow> isdigit c \<or> c = CHR ''-''" "triple_str de \<noteq> []"
  using show_nat_digits by (auto simp: triple_str_def)

lemma gtid_str_loop_eq:
  "gtid_str_loop p r = (if p = [] then r else if r = [] then str_join (map triple_str p) '',''
     else r @ '','' @ str_join (map triple_str p) '','')"
proof (induction p arbitrary: r)
  case (Cons de p)
  obtain d e where de: "de = (d, e)" by fastforce
  have "gtid_str_loop (de # p) r = gtid_str_loop p ((if r \<noteq> [] then r @ '','' else r) @ triple_str de)"
    by (simp add: de triple_str_def)
  then show ?case
    using Cons.IH triple_str_chars(2) [of de] by (cases p) auto
qed simp

lemma split_on_join:
  assumes "\<forall>x \<in> set xs. c \<notin> set x" "xs \<noteq> []"
  shows "split_on (\<lambda>x. x = c) (str_join xs [c]) = xs"
  using assms by (induction xs "[c]" rule: str_join.induct) (auto simp: split_on_append split_on_char_none)

lemma strip_triple_str: "str_strip_view (triple_str de) blank_chars = triple_str de"
proof (rule str_strip_view_id)
  have "c \<notin> set blank_chars" if "c \<in> set (triple_str de)" for c
    using triple_str_chars(1) [OF that] by (auto simp: blank_chars_def isdigit_def)
  then show "triple_str de = [] \<or> hd (triple_str de) \<notin> set blank_chars \<and> last (triple_str de) \<notin> set blank_chars"
    using triple_str_chars(2) [of de] by auto
qed

lemma parse_number_show:
  "n \<le> unat limit \<Longrightarrow> 9 \<le> unat limit \<Longrightarrow> parse_number (show_nat n) limit position = Inr (of_nat n)"
  using show_nat_digits by (simp add: parse_number_eq)

lemma ucast_up_down [simp]: "(ucast (ucast (x :: 32 word) :: 64 word) :: 32 word) = x"
  by (rule bit_word_eqI) (auto simp: bit_simps dest: bit_imp_le_length)

lemma limits:
  "unat (x :: 32 word) \<le> unat k_max_id" "unat (y :: 64 word) \<le> unat k_max_sequence"
  "9 \<le> unat k_max_id" "9 \<le> unat k_max_sequence"
proof -
  have "unat x < 2 ^ LENGTH(32)" "unat y < 2 ^ LENGTH(64)" by (rule unsigned_less)+
  then show "unat x \<le> unat k_max_id" "unat y \<le> unat k_max_sequence"
    "9 \<le> unat k_max_id" "9 \<le> unat k_max_sequence"
    by (simp_all add: k_max_id_def k_max_sequence_def)
qed

lemma parse_triple_str: "parse_triple position (triple_str de) = Inr de"
proof -
  let ?a = "show_nat (unat (fst de))" and ?b = "show_nat (unat (server_id (snd de)))"
    and ?c = "show_nat (unat (sequence (snd de)))"
  have "CHR ''-'' \<notin> set ?a" "CHR ''-'' \<notin> set ?b" "CHR ''-'' \<notin> set ?c"
    by (rule not_digit_notin_show_nat, simp add: isdigit_def)+
  then have "str_split (triple_str de) ''-'' (-1) False = [?a, ?b, ?c]"
    by (simp add: triple_str_def str_split_eq split_on_append split_on_char_none)
  then show ?thesis
    unfolding parse_triple_def strip_triple_str Let_def
    by (cases de) (simp add: parse_number_show limits)
qed

lemma gtid_parse_loop_triples:
  assumes "std_map_ok m"
  shows "gtid_parse_loop position (map triple_str xs) m = Inr (mg.put_all xs m)"
  using assms
proof (induction xs arbitrary: m)
  case (Cons de xs)
  then show ?case
    by (cases de) (simp add: parse_triple_str mg.put_all_def gtid_put_find)
qed (simp add: mg.put_all_def)

text \<open>What a successful parse returns is a well-formed position.\<close>

lemma gtid_parse_loop_ok:
  "std_map_ok m \<Longrightarrow> gtid_parse_loop position gtids m = Inr p \<Longrightarrow> std_map_ok p"
proof (induction gtids arbitrary: m)
  case (Cons g gs)
  then show ?case by (auto split: prod.splits) (metis gtid_put_find(2))
qed simp

text \<open>C22: parsing the canonical text of a position gives the position back, and whatever text is
  accepted gives a position with one entry for each domain, in ascending order.\<close>

theorem gtid_parse_str_roundtrip:
  "(gtid_ok p \<longrightarrow> gtid_parse (gtid_str p) = Inr p) \<and> (gtid_parse s = Inr q \<longrightarrow> gtid_ok q)"
proof (intro conjI impI)
  assume p: "gtid_ok p"
  show "gtid_parse (gtid_str p) = Inr p"
  proof (cases "p = []")
    case True
    then show ?thesis by (simp add: gtid_parse_def gtid_str_def str_strip_view_eq)
  next
    case False
    let ?s = "str_join (map triple_str p) '',''"
    have s: "gtid_str p = ?s" using False by (simp add: gtid_str_def gtid_str_loop_eq)
    have nocomma: "\<forall>x \<in> set (map triple_str p). CHR '','' \<notin> set x"
      using triple_str_chars(1) by (fastforce simp: isdigit_def)
    obtain de q where pq: "p = de # q" using False by (cases p) auto
    have "hd ?s \<in> set ?s \<and> hd ?s \<in> set (triple_str de)"
      using triple_str_chars(2) [of de] by (simp add: pq str_join_Cons)
    then have hd: "?s \<noteq> []" "hd ?s \<in> set ?s" "hd ?s \<notin> set blank_chars"
      using triple_str_chars(1) [of "hd ?s" de] by (auto simp: blank_chars_def isdigit_def)
    have split: "str_split ?s '','' (-1) False = map triple_str p"
      using split_on_join [OF nocomma] False hd(1) by (simp add: str_split_eq)
    have "str_strip_view ?s blank_chars \<noteq> []" using hd(2,3) unfolding str_strip_view_Nil by blast
    moreover have "mg.put_all p [] = p"
      using p by (intro std_map_eqI mg.put_all_ok)
        (auto simp: gtid_ok_def mg.look_put_all_fresh std_map_ok_distinct)
    ultimately show ?thesis
      using s split gtid_parse_loop_triples [of "[]" _ p] by (simp add: gtid_parse_def)
  qed
next
  assume "gtid_parse s = Inr q"
  then show "gtid_ok q"
    using gtid_parse_loop_ok [of "[]"] by (auto simp: gtid_parse_def gtid_ok_def split: if_splits)
qed

theorem gtid_parse_str_roundtrip_witness:
  "gtid_ok [(0, \<lparr>server_id = 1, sequence = 42\<rparr>), (7, \<lparr>server_id = 2, sequence = 3\<rparr>)] \<and>
   gtid_str [(0, \<lparr>server_id = 1, sequence = 42\<rparr>), (7, \<lparr>server_id = 2, sequence = 3\<rparr>)] = ''0-1-42,7-2-3'' \<and>
   gtid_parse ''0-1-42,7-2-3'' =
     Inr [(0, \<lparr>server_id = 1, sequence = 42\<rparr>), (7, \<lparr>server_id = 2, sequence = 3\<rparr>)]"
proof -
  let ?p = "[(0, \<lparr>server_id = 1, sequence = 42\<rparr>), (7, \<lparr>server_id = 2, sequence = 3\<rparr>)] :: gtid_position"
  have "gtid_ok ?p" by (simp add: gtid_ok_def)
  moreover have "gtid_str ?p = ''0-1-42,7-2-3''"
    by (simp add: gtid_str_def show_nat.simps digit_char_def char_of_eq_iff)
  ultimately show ?thesis using gtid_parse_str_roundtrip [of ?p] by metis
qed

text \<open>A component of a triple is accepted exactly if it is a nonempty string of digits whose value
  does not exceed the limit, and then its value is returned: the 64-bit arithmetic never wraps.\<close>

theorem parse_number_exact:
  assumes "9 \<le> unat limit"
  shows "parse_number s limit position =
    (if s \<noteq> [] \<and> (\<forall>c \<in> set s. isdigit c) \<and> digits_val s \<le> unat limit
     then Inr (of_nat (digits_val s)) else Inl (gtid_invalid position))"
  using assms by (rule parse_number_eq)

theorem parse_number_exact_witness:
  "9 \<le> unat k_max_id \<and> parse_number ''4294967295'' k_max_id '''' = Inr 4294967295 \<and>
   parse_number ''4294967296'' k_max_id '''' = Inl (gtid_invalid '''')"
  using limits(3) parse_number_exact [OF limits(3), of "''4294967295''" "''''"]
    parse_number_exact [OF limits(3), of "''4294967296''" "''''"]
  by (simp add: isdigit_def digits_val_def digit_val_def k_max_id_def)

end
