(* ===== verification/Gtid_Set.thy ===== *)
theory Gtid_Set
  imports Str_Util "HOL-Library.Word" "HOL-Library.Monad_Syntax"
begin

text \<open>
  Model of \<^verbatim>\<open>mysqlshdk/libs/mysql/gtid_utils.{h,cc}\<close>: ranges of MySQL GTIDs and sets of them in text
  form. The text is walked through by \<open>iter_ranges\<close>, whose callback works on an explicit state. The
  function \<^verbatim>\<open>GTID_SUBTRACT\<close> of the server is a parameter.

  The lemmas reduce every walk to a fold over the list \<open>ranges_of\<close> of the ranges of a text; the theorems
  show that ranges are read back as they were added, that enumeration visits every transaction of the
  set, and what the set operations denote.
\<close>

section \<open>Reading ranges\<close>

text \<open>\<^verbatim>\<open>lexical_cast<uint64_t>\<close> of \<^verbatim>\<open>utils_general.h\<close>.\<close>

definition lexical_cast_u64 :: "string \<Rightarrow> 64 word result" where
  "lexical_cast_u64 str =
     (let ds = takeWhile isdigit str
      in if ds = [] \<or> digits_val ds \<ge> 2 ^ 64
         then Inl (Invalid_argument ''Unable to perform conversion.'')
         else if ds \<noteq> str then Inl (Invalid_argument ''Conversion did not consume whole input.'')
         else Inr (of_nat (digits_val ds)))"

definition read_range :: "string \<Rightarrow> (64 word \<times> 64 word) option" where
  "read_range rng =
     (let r = str_strip_view rng blank_chars
      in case find_char (CHR ''-'') r 0 of
           None \<Rightarrow> (case lexical_cast_u64 r of Inr v \<Rightarrow> Some (v, v) | Inl _ \<Rightarrow> None)
         | Some p \<Rightarrow>
             (case lexical_cast_u64 (substr r 0 p) of
                Inl _ \<Rightarrow> None
              | Inr b \<Rightarrow> (case lexical_cast_u64 (drop (p + 1) r) of
                           Inl _ \<Rightarrow> None | Inr e \<Rightarrow> Some (b, e))))"

definition is_gtid_tag :: "string \<Rightarrow> bool" where
  "is_gtid_tag tag =
     (if tag = [] then False
      else if length tag > 32 then False
      else if \<not> list_all (\<lambda>c. islower c \<or> isupper c \<or> isdigit c \<or> c = CHR ''_'') tag then False
      else \<not> isdigit (hd tag))"

definition tag_range_step ::
  "(string \<Rightarrow> 64 word \<Rightarrow> 64 word \<Rightarrow> 's \<Rightarrow> 's) \<Rightarrow> string \<Rightarrow> string \<times> 's \<Rightarrow> string \<times> 's" where
  "tag_range_step cb rng state =
     (case state of (cur_tag, st) \<Rightarrow>
       if rng = [] then (cur_tag, st)
       else if is_gtid_tag rng then (rng, st)
       else case read_range rng of
              Some (b, e) \<Rightarrow> (cur_tag, cb cur_tag b e st)
            | None \<Rightarrow> (cur_tag, st))"

definition iter_tag_ranges ::
  "string \<Rightarrow> (string \<Rightarrow> 64 word \<Rightarrow> 64 word \<Rightarrow> 's \<Rightarrow> 's) \<Rightarrow> 's \<Rightarrow> 's" where
  "iter_tag_ranges ranges cb st =
     snd (snd (str_itersplit ranges (\<lambda>rng state. (True, tag_range_step cb rng state))
       '':'' (-1) False ([], st)))"

definition gtid_step ::
  "(string \<Rightarrow> string \<Rightarrow> 64 word \<Rightarrow> 64 word \<Rightarrow> 's \<Rightarrow> 's) \<Rightarrow> string \<Rightarrow> 's \<Rightarrow> 's" where
  "gtid_step cb gtid st =
     (let g = str_strip_view gtid blank_chars
      in case find_char (CHR '':'') g 0 of
           None \<Rightarrow> st
         | Some p \<Rightarrow> iter_tag_ranges (drop (p + 1) g) (cb (substr g 0 p)) st)"

definition iter_ranges ::
  "string \<Rightarrow> (string \<Rightarrow> string \<Rightarrow> 64 word \<Rightarrow> 64 word \<Rightarrow> 's \<Rightarrow> 's) \<Rightarrow> 's \<Rightarrow> 's" where
  "iter_ranges gtids cb st =
     snd (str_itersplit gtids (\<lambda>gtid st. (True, gtid_step cb gtid st)) '','' (-1) False st)"

section \<open>Ranges\<close>

record gtid_range =
  uuid_tag :: string
  rbegin :: "64 word"
  rend :: "64 word"

definition empty_range :: gtid_range where
  "empty_range = \<lparr>uuid_tag = [], rbegin = 0, rend = 0\<rparr>"

definition Gtid_range :: "string \<Rightarrow> string \<Rightarrow> 64 word \<Rightarrow> 64 word \<Rightarrow> gtid_range" where
  "Gtid_range range_uuid range_tag range_begin range_end =
     \<lparr>uuid_tag = (if range_tag = [] then range_uuid
                  else range_uuid @ '':'' @ map tolower range_tag),
      rbegin = range_begin, rend = range_end\<rparr>"

definition from_gtid :: "string \<Rightarrow> gtid_range" where
  "from_gtid gtid = iter_ranges gtid (\<lambda>uuid tag b e _. Gtid_range uuid tag b e) empty_range"

definition range_bool :: "gtid_range \<Rightarrow> bool" where
  "range_bool r \<longleftrightarrow> uuid_tag r \<noteq> [] \<and> rbegin r \<noteq> 0 \<and> rend r \<noteq> 0"

definition is_single :: "gtid_range \<Rightarrow> bool" where
  "is_single r \<longleftrightarrow> rbegin r = rend r"

definition show_u64 :: "64 word \<Rightarrow> string" where
  "show_u64 w = show_nat (unat w)"

text \<open>What \<^verbatim>\<open>printf\<close> prints for \<^verbatim>\<open>%s\<close> and \<^verbatim>\<open>c_str()\<close> ends in front of the first zero byte.\<close>

definition c_str :: "string \<Rightarrow> string" where
  "c_str s = takeWhile (\<lambda>c. c \<noteq> CHR 0x00) s"

definition range_str :: "gtid_range \<Rightarrow> string" where
  "range_str r =
     (if rbegin r = rend r then c_str (uuid_tag r) @ '':'' @ show_u64 (rbegin r)
      else c_str (uuid_tag r) @ '':'' @ show_u64 (rbegin r) @ ''-'' @ show_u64 (rend r))"

definition range_count :: "gtid_range \<Rightarrow> 64 word" where
  "range_count r = rend r - rbegin r + 1"

section \<open>Sets\<close>

record gtid_set =
  m_gtid_set :: string
  m_normalized :: bool

definition empty_gtid_set :: gtid_set where
  "empty_gtid_set = \<lparr>m_gtid_set = [], m_normalized = True\<rparr>"

definition from_string :: "string \<Rightarrow> gtid_set" where
  "from_string s = \<lparr>m_gtid_set = s, m_normalized = False\<rparr>"

definition from_normalized_string :: "string \<Rightarrow> gtid_set" where
  "from_normalized_string s = \<lparr>m_gtid_set = s, m_normalized = True\<rparr>"

type_synonym subtract_fn = "string \<Rightarrow> string \<Rightarrow> string"

definition normalize :: "subtract_fn \<Rightarrow> gtid_set \<Rightarrow> gtid_set" where
  "normalize gtid_subtract s =
     (if m_normalized s then s
      else \<lparr>m_gtid_set = gtid_subtract (m_gtid_set s) [], m_normalized = True\<rparr>)"

definition intersect :: "subtract_fn \<Rightarrow> gtid_set \<Rightarrow> gtid_set \<Rightarrow> gtid_set" where
  "intersect gtid_subtract this other =
     (if m_gtid_set this = [] \<or> m_gtid_set other = []
      then \<lparr>m_gtid_set = [], m_normalized = False\<rparr>
      else \<lparr>m_gtid_set = gtid_subtract (m_gtid_set other)
              (gtid_subtract (m_gtid_set other) (m_gtid_set this)),
            m_normalized = True\<rparr>)"

definition subtract :: "subtract_fn \<Rightarrow> gtid_set \<Rightarrow> gtid_set \<Rightarrow> gtid_set" where
  "subtract gtid_subtract this other =
     \<lparr>m_gtid_set = gtid_subtract (m_gtid_set this) (m_gtid_set other), m_normalized = True\<rparr>"

definition add_gtid :: "gtid_set \<Rightarrow> string \<Rightarrow> gtid_set" where
  "add_gtid s gtid =
     (if m_gtid_set s = [] then \<lparr>m_gtid_set = gtid, m_normalized = True\<rparr>
      else \<lparr>m_gtid_set = m_gtid_set s @ '','' @ gtid, m_normalized = False\<rparr>)"

definition add_set :: "gtid_set \<Rightarrow> gtid_set \<Rightarrow> gtid_set" where
  "add_set s other =
     (if m_gtid_set s = []
      then \<lparr>m_gtid_set = m_gtid_set other, m_normalized = m_normalized other\<rparr>
      else if m_gtid_set other \<noteq> []
      then \<lparr>m_gtid_set = m_gtid_set s @ '','' @ m_gtid_set other, m_normalized = False\<rparr>
      else s)"

definition add_range :: "gtid_set \<Rightarrow> gtid_range \<Rightarrow> gtid_set" where
  "add_range s r =
     (if m_gtid_set s = [] then \<lparr>m_gtid_set = range_str r, m_normalized = True\<rparr>
      else \<lparr>m_gtid_set = m_gtid_set s @ '','' @ range_str r, m_normalized = False\<rparr>)"

definition get_gtids_tagged :: "gtid_set \<Rightarrow> gtid_set" where
  "get_gtids_tagged s =
     iter_ranges (m_gtid_set s)
       (\<lambda>uuid tag b e matches.
          if tag = [] then matches else add_range matches (Gtid_range uuid tag b e))
       empty_gtid_set"

definition get_gtids_from :: "gtid_set \<Rightarrow> string \<Rightarrow> gtid_set" where
  "get_gtids_from s uuid =
     (if uuid = [] then empty_gtid_set
      else iter_ranges (m_gtid_set s)
        (\<lambda>gtid_uuid tag b e matches.
           if gtid_uuid \<noteq> uuid then matches else add_range matches (Gtid_range gtid_uuid tag b e))
        empty_gtid_set)"

definition get_gtids_from_tag :: "gtid_set \<Rightarrow> string \<Rightarrow> string \<Rightarrow> gtid_set" where
  "get_gtids_from_tag s uuid tag =
     (if uuid = [] \<or> tag = [] then empty_gtid_set
      else iter_ranges (m_gtid_set s)
        (\<lambda>gtid_uuid gtid_tag b e matches.
           if gtid_uuid \<noteq> uuid then matches
           else if \<not> str_caseeq gtid_tag tag then matches
           else add_range matches (Gtid_range gtid_uuid gtid_tag b e))
        empty_gtid_set)"

definition set_contains :: "subtract_fn \<Rightarrow> gtid_set \<Rightarrow> gtid_set \<Rightarrow> bool" where
  "set_contains gtid_subtract this other \<longleftrightarrow>
     gtid_subtract (m_gtid_set other) (m_gtid_set this) = []"

definition gtid_count :: "gtid_set \<Rightarrow> 64 word result" where
  "gtid_count s =
     (if \<not> m_normalized s
      then Inl (Invalid_argument (''Can'' @ [CHR 0x27] @ ''t get count of un-normalized Gtid_set''))
      else Inr (iter_ranges (m_gtid_set s) (\<lambda>_ _ b e count. count + (e - b + 1)) 0))"

definition enumerate_ranges :: "gtid_set \<Rightarrow> (gtid_range \<Rightarrow> 's \<Rightarrow> 's) \<Rightarrow> 's \<Rightarrow> 's result" where
  "enumerate_ranges s fn st =
     (if \<not> m_normalized s
      then Inl (Invalid_argument (''Can'' @ [CHR 0x27] @ ''t enumerate un-normalized Gtid_set''))
      else Inr (iter_ranges (m_gtid_set s) (\<lambda>uuid tag b e. fn (Gtid_range uuid tag b e)) st))"

text \<open>The loop of \<^verbatim>\<open>enumerate\<close> over one range: \<^verbatim>\<open>i <= range.end\<close> on 64-bit numbers, which never becomes
  false when the range ends at the largest number. \<open>None\<close> stands for not returning.\<close>

partial_function (option) enumerate_loop ::
  "string \<Rightarrow> 64 word \<Rightarrow> 64 word \<Rightarrow> (string \<Rightarrow> 's \<Rightarrow> 's) \<Rightarrow> 's \<Rightarrow> 's option" where
  "enumerate_loop tag i e fn st =
     (if i \<le> e then enumerate_loop tag (i + 1) e fn (fn (tag @ '':'' @ show_u64 i) st)
      else Some st)"

definition gtid_enumerate :: "gtid_set \<Rightarrow> (string \<Rightarrow> 's \<Rightarrow> 's) \<Rightarrow> 's \<Rightarrow> 's option result" where
  "gtid_enumerate s fn st =
     enumerate_ranges s
       (\<lambda>r st. Option.bind st (enumerate_loop (c_str (uuid_tag r)) (rbegin r) (rend r) fn)) (Some st)"

definition has_tags :: "gtid_set \<Rightarrow> bool" where
  "has_tags s = iter_ranges (m_gtid_set s) (\<lambda>_ tag _ _ has. has \<or> tag \<noteq> []) False"

definition gtid_set_eq :: "gtid_set \<Rightarrow> gtid_set \<Rightarrow> bool result" where
  "gtid_set_eq s other =
     (if \<not> m_normalized s \<or> \<not> m_normalized other
      then Inl (Invalid_argument (''Can'' @ [CHR 0x27] @ ''t compare un-normalized Gtid_set''))
      else Inr (m_gtid_set s = m_gtid_set other))"

section \<open>Walks are folds over the list of ranges\<close>

type_synonym range_entry = "string \<times> string \<times> 64 word \<times> 64 word"

definition ranges_of :: "string \<Rightarrow> range_entry list" where
  "ranges_of s = iter_ranges s (\<lambda>u t b e acc. acc @ [(u, t, b, e)]) []"

fun tag_ranges :: "string list \<Rightarrow> string \<Rightarrow> (string \<times> 64 word \<times> 64 word) list" where
  "tag_ranges [] t = []"
| "tag_ranges (r # rs) t =
     (if r = [] then tag_ranges rs t
      else if is_gtid_tag r then tag_ranges rs r
      else (case read_range r of Some (b, e) \<Rightarrow> [(t, b, e)] | None \<Rightarrow> []) @ tag_ranges rs t)"

definition gtid_entries :: "string \<Rightarrow> range_entry list" where
  "gtid_entries gtid =
     (let g = str_strip_view gtid blank_chars
      in case find_char (CHR '':'') g 0 of
           None \<Rightarrow> []
         | Some p \<Rightarrow> map (Pair (substr g 0 p)) (tag_ranges (str_split (drop (p + 1) g) '':'' (-1) False) []))"

lemma tag_range_step_fold:
  "fold (tag_range_step cb) rs (t, st) =
     (fst (fold (tag_range_step cb) rs (t, st)), fold (\<lambda>(t, b, e). cb t b e) (tag_ranges rs t) st)"
  by (induction rs arbitrary: t st) (auto simp: tag_range_step_def split: option.split)

lemma iter_tag_ranges_fold:
  "iter_tag_ranges s cb st = fold (\<lambda>(t, b, e). cb t b e) (tag_ranges (str_split s '':'' (-1) False) []) st"
  unfolding iter_tag_ranges_def str_itersplit_fold
  by (subst tag_range_step_fold) simp

lemma gtid_step_fold: "gtid_step cb gtid st = fold (\<lambda>(u, t, b, e). cb u t b e) (gtid_entries gtid) st"
  by (simp add: gtid_step_def gtid_entries_def Let_def iter_tag_ranges_fold fold_map comp_def
      split: option.split)

lemma iter_ranges_pieces:
  "iter_ranges s cb st =
     fold (\<lambda>(u, t, b, e). cb u t b e) (concat (map gtid_entries (str_split s '','' (-1) False))) st"
proof -
  have "fold (gtid_step cb) ps st = fold (\<lambda>(u, t, b, e). cb u t b e) (concat (map gtid_entries ps)) st"
    for ps by (induction ps arbitrary: st) (auto simp: gtid_step_fold)
  then show ?thesis by (simp add: iter_ranges_def str_itersplit_fold)
qed

lemma ranges_of_pieces: "ranges_of s = concat (map gtid_entries (str_split s '','' (-1) False))"
proof -
  have "fold (\<lambda>(u, t, b, e) acc. acc @ [(u, t, b, e)]) xs acc = acc @ xs" for xs acc :: "range_entry list"
    by (induction xs arbitrary: acc) auto
  then show ?thesis by (simp add: ranges_of_def iter_ranges_pieces)
qed

lemma iter_ranges_fold: "iter_ranges s cb st = fold (\<lambda>(u, t, b, e). cb u t b e) (ranges_of s) st"
  by (simp add: iter_ranges_pieces ranges_of_pieces)

lemma ranges_of_Nil [simp]: "ranges_of [] = []"
  by (simp add: ranges_of_pieces str_split_eq)

lemma ranges_of_comma:
  assumes "s \<noteq> []" "r \<noteq> []"
  shows "ranges_of (s @ '','' @ r) = ranges_of s @ ranges_of r"
  using assms by (simp add: ranges_of_pieces str_split_eq split_on_append)

section \<open>Reading back printed ranges\<close>

text \<open>The identifiers and tags for which a printed range can be read back; the list of ranges of a text
  without zero bytes contains no others.\<close>

definition entry_ok :: "string \<Rightarrow> string \<Rightarrow> bool" where
  "entry_ok u t \<longleftrightarrow>
     CHR 0x00 \<notin> set u \<and> CHR '':'' \<notin> set u \<and> CHR '','' \<notin> set u \<and>
     (u = [] \<or> hd u \<notin> set blank_chars) \<and>
     (t = [] \<or> is_gtid_tag t)"

lemma lexical_cast_show [simp]: "lexical_cast_u64 (show_u64 w) = Inr w"
proof -
  have "unat w < 2 ^ LENGTH(64)" by (rule unsigned_less)
  moreover have "takeWhile isdigit (show_nat (unat w)) = show_nat (unat w)"
    using takeWhile_digits_show_nat [of "[]"] unfolding append_Nil2 by blast
  ultimately show ?thesis
    unfolding lexical_cast_u64_def show_u64_def Let_def by (simp del: takeWhile_eq_all_conv)
qed

definition num_text :: "64 word \<Rightarrow> 64 word \<Rightarrow> string" where
  "num_text b e = (if b = e then show_u64 b else show_u64 b @ ''-'' @ show_u64 e)"

lemma show_u64_chars:
  "c \<in> set (show_u64 w) \<Longrightarrow> isdigit c" "show_u64 w \<noteq> []"
  "isdigit (hd (show_u64 w))" "isdigit (last (show_u64 w))"
  unfolding show_u64_def
  by (erule show_nat_digits, rule show_nat_not_Nil,
      rule show_nat_digits [OF hd_in_set [OF show_nat_not_Nil]],
      rule show_nat_digits [OF last_in_set [OF show_nat_not_Nil]])

lemma num_text_chars:
  "c \<in> set (num_text b e) \<Longrightarrow> isdigit c \<or> c = CHR ''-''" "num_text b e \<noteq> []"
  "isdigit (hd (num_text b e))" "isdigit (last (num_text b e))"
  using show_u64_chars by (auto simp: num_text_def split: if_splits)

lemma not_isdigit [simp]:
  "\<not> isdigit (CHR ''-'')" "\<not> isdigit (CHR '':'')" "\<not> isdigit (CHR '','')" "\<not> isdigit (CHR 0x20)"
  "\<not> isdigit (CHR 0x0D)" "\<not> isdigit (CHR 0x0A)" "\<not> isdigit (CHR 0x09)"
  by (simp_all add: isdigit_def)

lemma isdigit_not_blank: "isdigit c \<Longrightarrow> c \<notin> set blank_chars"
  by (auto simp: blank_chars_def)

lemma read_range_num_text: "read_range (num_text b e) = Some (b, e)"
proof -
  have s: "str_strip_view (num_text b e) blank_chars = num_text b e"
    using num_text_chars(3,4) [of b e] isdigit_not_blank by (intro str_strip_view_id) blast
  have nodash: "CHR ''-'' \<notin> set (show_u64 w)" for w using show_u64_chars(1) by fastforce
  show ?thesis
  proof (cases "b = e")
    case True
    then have "find_char (CHR ''-'') (num_text b e) 0 = None"
      using nodash by (auto simp: num_text_def find_from_None_iff)
    then show ?thesis using s True by (simp add: read_range_def Let_def num_text_def)
  next
    case False
    have "find_char (CHR ''-'') (show_u64 b @ CHR ''-'' # show_u64 e) 0 = Some (length (show_u64 b))"
      by (rule find_char_first [OF nodash])
    then show ?thesis using s False by (simp add: read_range_def Let_def num_text_def)
  qed
qed

lemma is_gtid_tag_iff:
  "is_gtid_tag t \<longleftrightarrow> t \<noteq> [] \<and> length t \<le> 32 \<and>
     (\<forall>c \<in> set t. islower c \<or> isupper c \<or> isdigit c \<or> c = CHR ''_'') \<and> \<not> isdigit (hd t)"
  by (auto simp: is_gtid_tag_def list_all_iff)

lemma tolower_tag_char:
  "islower c \<or> isupper c \<or> isdigit c \<or> c = CHR ''_'' \<Longrightarrow>
     islower (tolower c) \<or> isupper (tolower c) \<or> isdigit (tolower c) \<or> tolower c = CHR ''_''"
  "isdigit (tolower c) \<longleftrightarrow> isdigit c"
  by (auto simp: tolower_def ctype_simps)

lemma is_gtid_tag_tolower: "is_gtid_tag t \<Longrightarrow> is_gtid_tag (map tolower t)"
  unfolding is_gtid_tag_iff using tolower_tag_char by (auto simp: hd_map)

lemma is_gtid_tag_chars: "is_gtid_tag t \<Longrightarrow> c \<in> set t \<Longrightarrow> c \<noteq> CHR '':'' \<and> c \<noteq> CHR '','' \<and> c \<notin> set blank_chars"
  by (auto simp: is_gtid_tag_iff ctype_simps blank_chars_def)

lemma is_gtid_tag_NUL: "is_gtid_tag t \<Longrightarrow> CHR 0x00 \<notin> set t"
  by (fastforce simp: is_gtid_tag_iff ctype_simps)

lemma c_str_id: "CHR 0x00 \<notin> set s \<Longrightarrow> c_str s = s"
  unfolding c_str_def by (rule takeWhile_eq_all_conv [THEN iffD2]) auto

lemma range_str_text:
  assumes "entry_ok u t"
  shows "range_str (Gtid_range u t b e) =
     u @ CHR '':'' # (if t = [] then num_text b e else map tolower t @ CHR '':'' # num_text b e)"
proof -
  have "CHR 0x00 \<notin> set (map tolower t)" if "t \<noteq> []"
    using is_gtid_tag_NUL [OF is_gtid_tag_tolower] assms that by (auto simp: entry_ok_def)
  then have "c_str (uuid_tag (Gtid_range u t b e)) = uuid_tag (Gtid_range u t b e)"
    using assms by (intro c_str_id) (auto simp: Gtid_range_def entry_ok_def)
  then show ?thesis by (simp add: range_str_def Gtid_range_def num_text_def)
qed

text \<open>A printed range is one GTID text without a comma, and reads back as its entry.\<close>

lemma gtid_entries_range_str:
  assumes "entry_ok u t"
  shows "gtid_entries (range_str (Gtid_range u t b e)) = [(u, map tolower t, b, e)]"
    and "CHR '','' \<notin> set (range_str (Gtid_range u t b e))"
proof -
  let ?rest = "if t = [] then num_text b e else map tolower t @ CHR '':'' # num_text b e"
  let ?s = "range_str (Gtid_range u t b e)"
  note n = num_text_chars [where b = b and e = e]
  have u: "CHR '':'' \<notin> set u" "CHR '','' \<notin> set u" "u = [] \<or> hd u \<notin> set blank_chars"
    and t: "t \<noteq> [] \<Longrightarrow> is_gtid_tag (map tolower t)"
    using assms is_gtid_tag_tolower by (auto simp: entry_ok_def)
  have "last ?s = last (num_text b e)" using n(2) by (simp add: range_str_text [OF assms])
  moreover have "hd ?s \<notin> set blank_chars"
    unfolding range_str_text [OF assms] using u(3) by (cases u) (auto simp: blank_chars_def)
  ultimately have strip: "str_strip_view ?s blank_chars = ?s"
    using n(4) isdigit_not_blank by (intro str_strip_view_id) auto
  have find: "find_char (CHR '':'') ?s 0 = Some (length u)"
    unfolding range_str_text [OF assms] by (rule find_char_first [OF u(1)])
  have nc: "CHR '':'' \<notin> set (num_text b e)" "CHR '','' \<notin> set (num_text b e)" using n(1) by fastforce+
  have tc: "CHR '':'' \<notin> set (map tolower t)" "CHR '','' \<notin> set (map tolower t)"
    using t is_gtid_tag_chars by (cases "t = []"; fastforce)+
  have split: "str_split ?rest '':'' (-1) False =
      (if t = [] then [num_text b e] else [map tolower t, num_text b e])"
    using nc tc n(2) by (auto simp: str_split_eq split_on_append split_on_char_none)
  have num: "\<not> is_gtid_tag (num_text b e)" using n(3) by (simp add: is_gtid_tag_iff)
  have "tag_ranges (str_split ?rest '':'' (-1) False) [] = [(map tolower t, b, e)]"
    unfolding split using n(2) num t by (simp add: read_range_num_text)
  then show "gtid_entries ?s = [(u, map tolower t, b, e)]"
    unfolding gtid_entries_def strip Let_def find by (simp add: range_str_text [OF assms])
  show "CHR '','' \<notin> set ?s" using u(2) nc(2) tc(2) by (auto simp: range_str_text [OF assms])
qed

lemma ranges_of_range_str:
  assumes "entry_ok u t"
  shows "ranges_of (range_str (Gtid_range u t b e)) = [(u, map tolower t, b, e)]"
proof -
  have "range_str (Gtid_range u t b e) \<noteq> []" by (simp add: range_str_text [OF assms])
  then show ?thesis
    using gtid_entries_range_str [OF assms]
    by (simp add: ranges_of_pieces str_split_eq split_on_char_none)
qed

lemma ranges_of_add_range:
  assumes "entry_ok u t"
  shows "ranges_of (m_gtid_set (add_range s (Gtid_range u t b e))) =
    ranges_of (m_gtid_set s) @ [(u, map tolower t, b, e)]"
  using ranges_of_comma [of "m_gtid_set s" "range_str (Gtid_range u t b e)"]
    ranges_of_range_str [OF assms, of b e]
  by (auto simp: add_range_def range_str_text [OF assms])

text \<open>C28: adding a range (with an identifier that has no zero byte, colon or comma and does not start
  with a blank, and a valid tag or none) to a GTID set, whatever the set holds, appends exactly this range
  (its tag in lower case) to the ranges that are read from the set; adding a set appends its ranges; and a
  printed range is read back by \<open>from_gtid\<close>.\<close>

theorem gtid_set_add_reads_back:
  assumes "entry_ok u t"
  shows "ranges_of (m_gtid_set (add_range s (Gtid_range u t b e))) =
      ranges_of (m_gtid_set s) @ [(u, map tolower t, b, e)] \<and>
    ranges_of (m_gtid_set (add_set s other)) = ranges_of (m_gtid_set s) @ ranges_of (m_gtid_set other) \<and>
    from_gtid (range_str (Gtid_range u t b e)) = Gtid_range u t b e"
proof -
  have "from_gtid (range_str (Gtid_range u t b e)) = Gtid_range u t b e"
    unfolding from_gtid_def iter_ranges_fold ranges_of_range_str [OF assms]
    by (simp add: Gtid_range_def)
  moreover have "ranges_of (m_gtid_set (add_set s other)) =
      ranges_of (m_gtid_set s) @ ranges_of (m_gtid_set other)"
    using ranges_of_comma by (simp add: add_set_def)
  ultimately show ?thesis using ranges_of_add_range [OF assms] by blast
qed

theorem gtid_set_add_reads_back_witness:
  "entry_ok ''3e11fa47'' ''Tag_1'' \<and>
   from_gtid (range_str (Gtid_range ''3e11fa47'' ''Tag_1'' 1 5)) = Gtid_range ''3e11fa47'' ''Tag_1'' 1 5"
proof -
  have "entry_ok ''3e11fa47'' ''Tag_1''"
    by (simp add: entry_ok_def blank_chars_def is_gtid_tag_def ctype_simps)
  then show ?thesis using gtid_set_add_reads_back by blast
qed

section \<open>Selecting ranges\<close>

lemma tag_ranges_tags: "(t', b, e) \<in> set (tag_ranges rs t) \<Longrightarrow> t' = t \<or> is_gtid_tag t'"
  by (induction rs t rule: tag_ranges.induct) (auto split: if_splits option.splits)

lemma strip_view_hd:
  "str_strip_view s chars \<noteq> [] \<Longrightarrow> hd (str_strip_view s chars) \<notin> set chars"
  unfolding str_strip_view_eq by (rule hd_dropWhile)

lemma strip_view_set: "set (str_strip_view s chars) \<subseteq> set s"
  unfolding str_strip_view_eq by (auto dest!: set_dropWhileD)

lemma gtid_entries_ok:
  assumes "(u, t, b, e) \<in> set (gtid_entries g)" "CHR '','' \<notin> set g" "CHR 0x00 \<notin> set g"
  shows "entry_ok u t"
proof -
  let ?g = "str_strip_view g blank_chars"
  obtain p where p: "find_char (CHR '':'') ?g 0 = Some p" "u = substr ?g 0 p"
    "(t, b, e) \<in> set (tag_ranges (str_split (drop (p + 1) ?g) '':'' (-1) False) [])"
    using assms(1) unfolding gtid_entries_def Let_def
    by (cases "find_char (CHR '':'') ?g 0") auto
  have "CHR '':'' \<notin> set u" using find_from_split(2) [OF p(1)] p(2) by auto
  moreover have "CHR '','' \<notin> set u" "CHR 0x00 \<notin> set u"
    using assms(2,3) strip_view_set [of g blank_chars] p(2) by (auto dest: in_set_takeD)
  moreover have "u = [] \<or> hd u \<notin> set blank_chars"
    using strip_view_hd [of g blank_chars] p(2) by (cases ?g; cases p) auto
  moreover have "t = [] \<or> is_gtid_tag t" using tag_ranges_tags [OF p(3)] by blast
  ultimately show ?thesis by (simp add: entry_ok_def)
qed

lemma ranges_of_ok:
  assumes "(u, t, b, e) \<in> set (ranges_of s)" "CHR 0x00 \<notin> set s"
  shows "entry_ok u t"
proof -
  obtain g where g: "g \<in> set (str_split s '','' (-1) False)" "(u, t, b, e) \<in> set (gtid_entries g)"
    using assms(1) by (auto simp: ranges_of_pieces split: if_splits)
  have "CHR '','' \<notin> set g" "CHR 0x00 \<notin> set g"
    using g(1) assms(2) split_on_piece [of g "\<lambda>x. x \<in> set '',''" s]
    by (auto simp: str_split_eq split: if_splits)
  then show ?thesis by (rule gtid_entries_ok [OF g(2)])
qed

definition lower_entry :: "range_entry \<Rightarrow> range_entry" where
  "lower_entry r = (case r of (u, t, b, e) \<Rightarrow> (u, map tolower t, b, e))"

text \<open>A walk that adds the ranges which pass a test.\<close>

lemma select_ranges:
  assumes "\<And>u t b e m. cb u t b e m = (if P u t then add_range m (Gtid_range u t b e) else m)" "CHR 0x00 \<notin> set txt"
  shows "ranges_of (m_gtid_set (iter_ranges txt cb s)) =
    ranges_of (m_gtid_set s) @ map lower_entry (filter (\<lambda>(u, t, b, e). P u t) (ranges_of txt))"
proof -
  have "ranges_of (m_gtid_set (fold (\<lambda>(u, t, b, e). cb u t b e) rs s)) =
    ranges_of (m_gtid_set s) @ map lower_entry (filter (\<lambda>(u, t, b, e). P u t) rs)"
    if "\<forall>(u, t, b, e) \<in> set rs. entry_ok u t" for rs
    using that
  proof (induction rs arbitrary: s)
    case (Cons r rs)
    obtain u t b e where r: "r = (u, t, b, e)" by (cases r) auto
    show ?case using Cons by (simp add: r assms(1) ranges_of_add_range lower_entry_def)
  qed simp
  then show ?thesis using ranges_of_ok assms(2) unfolding iter_ranges_fold by blast
qed

text \<open>The three selections return the ranges of the set with a given UUID, with a given UUID and
  (without regard to case) tag, and with any tag at all, in their order, with lower case tags.\<close>

theorem gtid_set_selections:
  assumes "uuid \<noteq> []" "tag \<noteq> []" "CHR 0x00 \<notin> set (m_gtid_set s)"
  shows "ranges_of (m_gtid_set (get_gtids_from s uuid)) =
      map lower_entry (filter (\<lambda>(u, t, b, e). u = uuid) (ranges_of (m_gtid_set s))) \<and>
    ranges_of (m_gtid_set (get_gtids_from_tag s uuid tag)) =
      map lower_entry (filter (\<lambda>(u, t, b, e). u = uuid \<and> str_caseeq t tag) (ranges_of (m_gtid_set s))) \<and>
    ranges_of (m_gtid_set (get_gtids_tagged s)) =
      map lower_entry (filter (\<lambda>(u, t, b, e). t \<noteq> []) (ranges_of (m_gtid_set s))) \<and>
    (has_tags s \<longleftrightarrow> (\<exists>(u, t, b, e) \<in> set (ranges_of (m_gtid_set s)). t \<noteq> []))"
proof -
  have any: "fold (\<lambda>(u, t, b, e) has. has \<or> t \<noteq> []) rs h \<longleftrightarrow> h \<or> (\<exists>(u, t, b, e) \<in> set rs. t \<noteq> [])"
    for rs :: "range_entry list" and h
    by (induction rs arbitrary: h) auto
  show ?thesis
    using assms
    unfolding get_gtids_from_def get_gtids_from_tag_def get_gtids_tagged_def has_tags_def
    by (simp add: select_ranges [where P = "\<lambda>u t. u = uuid"]
        select_ranges [where P = "\<lambda>u t. u = uuid \<and> str_caseeq t tag"]
        select_ranges [where P = "\<lambda>u t. t \<noteq> []"] empty_gtid_set_def iter_ranges_fold [where st = False] any)
qed

theorem gtid_set_selections_witness:
  "ranges_of (m_gtid_set (get_gtids_from_tag
     (add_range (add_range empty_gtid_set (Gtid_range ''ab'' [] 1 3)) (Gtid_range ''ab'' ''Tag'' 5 9))
     ''ab'' ''TAG'')) = [(''ab'', ''tag'', 5, 9)]"
proof -
  let ?s = "add_range (add_range empty_gtid_set (Gtid_range ''ab'' [] 1 3)) (Gtid_range ''ab'' ''Tag'' 5 9)"
  have ok: "entry_ok ''ab'' []" "entry_ok ''ab'' ''Tag''"
    by (simp_all add: entry_ok_def blank_chars_def is_gtid_tag_def ctype_simps)
  then have r: "ranges_of (m_gtid_set ?s) = [(''ab'', [], 1, 3), (''ab'', ''tag'', 5, 9)]"
    by (simp add: ranges_of_add_range empty_gtid_set_def)
      (simp add: tolower_def ctype_simps char_eval)
  have "CHR 0x00 \<notin> set (num_text b e)" for b e
    using num_text_chars(1) [of "CHR 0x00" b e] by (auto simp: isdigit_def)
  then have "CHR 0x00 \<notin> set (m_gtid_set ?s)"
    using ok by (simp add: add_range_def empty_gtid_set_def range_str_text)
      (simp add: tolower_def ctype_simps char_eval)
  moreover have "str_caseeq ''tag'' ''TAG''"
    by (simp add: str_caseeq_def tolower_def ctype_simps char_eval)
  ultimately show ?thesis
    using r gtid_set_selections [of "''ab''" "''TAG''" ?s]
    by (simp add: lower_entry_def str_caseeq_def) (simp add: tolower_def ctype_simps char_eval)
qed

section \<open>Enumerating and counting\<close>

text \<open>The transactions of a range, in order.\<close>

definition range_gtids :: "string \<Rightarrow> 64 word \<Rightarrow> 64 word \<Rightarrow> string list" where
  "range_gtids tag b e = map (\<lambda>n. tag @ '':'' @ show_nat n) [unat b..<Suc (unat e)]"

definition entry_gtids :: "range_entry \<Rightarrow> string list" where
  "entry_gtids r = (case r of (u, t, b, e) \<Rightarrow> range_gtids (c_str (uuid_tag (Gtid_range u t b e))) b e)"

abbreviation u64_max :: "64 word" where
  "u64_max \<equiv> - 1"

lemma u64_max_greatest: "(i :: 64 word) \<le> u64_max"
  by simp

lemma unat_Suc_u64: "i \<noteq> u64_max \<Longrightarrow> unat (i + 1) = Suc (unat i)"
proof -
  assume "i \<noteq> u64_max"
  then have "1 + i \<noteq> 0" by (metis add.commute add_eq_0_iff2)
  then show ?thesis using unatSuc [of i] by (simp add: add.commute)
qed

lemma enumerate_loop_ends:
  assumes "e \<noteq> u64_max"
  shows "enumerate_loop tag b e fn st = Some (fold fn (range_gtids tag b e) st)"
proof (induction "Suc (unat e) - unat b" arbitrary: b st)
  case 0
  then have "\<not> b \<le> e" "range_gtids tag b e = []" by (auto simp: word_le_nat_alt range_gtids_def)
  then show ?case by (subst enumerate_loop.simps) simp
next
  case (Suc n)
  then have le: "b \<le> e" by (auto simp: word_le_nat_alt)
  have "b \<noteq> u64_max" using le assms u64_max_greatest order.antisym by metis
  then have S: "unat (b + 1) = Suc (unat b)" by (rule unat_Suc_u64)
  have "range_gtids tag b e = (tag @ '':'' @ show_u64 b) # range_gtids tag (b + 1) e"
    using le unfolding range_gtids_def show_u64_def S word_le_nat_alt
    by (subst upt_conv_Cons) auto
  then show ?case
    using Suc.hyps(1) [of "b + 1"] Suc.hyps(2) S le by (subst enumerate_loop.simps) simp
qed

lemma enumerate_loop_diverges: "enumerate_loop tag b u64_max fn st = None"
proof (rule ccontr)
  assume "enumerate_loop tag b u64_max fn st \<noteq> None"
  then obtain r where r: "enumerate_loop tag b u64_max fn st = Some r" by auto
  have "e \<noteq> u64_max" if "enumerate_loop tag b e fn st = Some r" for tag b e fn st r
    by (rule enumerate_loop.raw_induct [OF _ that, where P = "\<lambda>tag b e fn st r. e \<noteq> u64_max"])
      (auto split: if_splits)
  from this [OF r] show False by simp
qed

lemma Gtid_range_numbers: "rbegin (Gtid_range u t b e) = b" "rend (Gtid_range u t b e) = e"
  by (simp_all add: Gtid_range_def)

lemma fold_enumerate:
  "fold (\<lambda>(u, t, b, e) st. Option.bind st
     (enumerate_loop (c_str (uuid_tag (Gtid_range u t b e))) b e fn)) rs st =
   (case st of None \<Rightarrow> None
    | Some s \<Rightarrow> if \<exists>(u, t, b, e) \<in> set rs. e = u64_max then None
                 else Some (fold fn (concat (map entry_gtids rs)) s))"
proof (induction rs arbitrary: st)
  case (Cons r rs)
  obtain u t b e where r: "r = (u, t, b, e)" by (cases r) auto
  show ?case
    unfolding r fold_Cons Cons.IH comp_def prod.case
    by (cases "e = u64_max")
      (auto simp: enumerate_loop_diverges enumerate_loop_ends entry_gtids_def split: option.split)
qed (simp split: option.split)

lemma length_range_gtids: "b \<le> e \<Longrightarrow> of_nat (length (range_gtids tag b e)) = e - b + (1 :: 64 word)"
  by (simp add: range_gtids_def word_le_nat_alt Suc_diff_le of_nat_diff)

lemma fold_count:
  assumes "\<forall>(u, t, b, e) \<in> set rs. b \<le> e"
  shows "fold (\<lambda>(u, t, b, e) count. count + (e - b + 1)) rs c =
    c + of_nat (length (concat (map entry_gtids rs)))"
  using assms
proof (induction rs arbitrary: c)
  case (Cons r rs)
  obtain u t b e where r: "r = (u, t, b, e)" by (cases r) auto
  show ?case using Cons unfolding r by (simp add: entry_gtids_def length_range_gtids algebra_simps)
qed simp

lemma fold_sum:
  "fold (\<lambda>(u, t, b, e) count. count + (e - b + 1)) rs c = c + (\<Sum>(u, t, b, e) \<leftarrow> rs. e - b + (1 :: 64 word))"
  by (induction rs arbitrary: c) (auto simp: algebra_simps)

text \<open>C39: \<open>enumerate\<close> and \<open>count\<close> refuse a set that is not normalized. On a normalized set, \<open>enumerate\<close>
  calls its function on every transaction of every range, in order, and returns, unless a range ends at
  the largest 64-bit number: then it does not return. \<open>count\<close> is the sum of \<open>end - begin + 1\<close> over the
  ranges modulo \<open>2 ^ 64\<close>; if no range is reversed, this is the number of those calls modulo \<open>2 ^ 64\<close>
  (a reversed range such as \<^verbatim>\<open>5-3\<close> is not visited, but counts as \<open>2 ^ 64 - 1\<close>).\<close>

theorem gtid_enumerate_exact:
  "gtid_enumerate s fn st =
     (if \<not> m_normalized s
      then Inl (Invalid_argument (''Can'' @ [CHR 0x27] @ ''t enumerate un-normalized Gtid_set''))
      else if \<exists>(u, t, b, e) \<in> set (ranges_of (m_gtid_set s)). e = - 1 then Inr None
      else Inr (Some (fold fn (concat (map entry_gtids (ranges_of (m_gtid_set s)))) st))) \<and>
   gtid_count s =
     (if \<not> m_normalized s
      then Inl (Invalid_argument (''Can'' @ [CHR 0x27] @ ''t get count of un-normalized Gtid_set''))
      else Inr (\<Sum>(u, t, b, e) \<leftarrow> ranges_of (m_gtid_set s). e - b + 1)) \<and>
   (m_normalized s \<and> (\<forall>(u, t, b, e) \<in> set (ranges_of (m_gtid_set s)). b \<le> e) \<longrightarrow>
      gtid_count s = Inr (of_nat (length (concat (map entry_gtids (ranges_of (m_gtid_set s)))))))"
proof -
  have "gtid_count s = Inr (of_nat (length (concat (map entry_gtids (ranges_of (m_gtid_set s))))))"
    if "m_normalized s" "\<forall>(u, t, b, e) \<in> set (ranges_of (m_gtid_set s)). b \<le> e"
    unfolding gtid_count_def iter_ranges_fold fold_count [OF that(2)] using that(1) by simp
  moreover have "gtid_count s = (if \<not> m_normalized s
      then Inl (Invalid_argument (''Can'' @ [CHR 0x27] @ ''t get count of un-normalized Gtid_set''))
      else Inr (\<Sum>(u, t, b, e) \<leftarrow> ranges_of (m_gtid_set s). e - b + 1))"
    unfolding gtid_count_def iter_ranges_fold fold_sum by simp
  ultimately show ?thesis
    unfolding gtid_enumerate_def enumerate_ranges_def iter_ranges_fold
    by (simp add: Gtid_range_numbers fold_enumerate cong: if_cong)
qed

theorem gtid_enumerate_exact_witness:
  "m_normalized (add_range empty_gtid_set (Gtid_range ''ab'' [] 1 3)) \<and>
   gtid_count (add_range empty_gtid_set (Gtid_range ''ab'' [] 1 3)) = Inr 3"
proof -
  let ?s = "add_range empty_gtid_set (Gtid_range ''ab'' [] 1 3)"
  have "entry_ok ''ab'' []" by (simp add: entry_ok_def blank_chars_def)
  then have r: "ranges_of (m_gtid_set ?s) = [(''ab'', [], 1, 3)]"
    by (simp add: ranges_of_add_range empty_gtid_set_def)
  have n: "m_normalized ?s" by (simp add: add_range_def empty_gtid_set_def)
  show ?thesis
    using gtid_enumerate_exact [of ?s "\<lambda>_. id" "()"] n
    unfolding r by (simp add: entry_gtids_def range_gtids_def)
qed

end
