(* ===== verification/Sql_Wildcard.thy ===== *)
theory Sql_Wildcard
  imports Str_Util
begin

text \<open>
  Model of the wildcard functions of \<^verbatim>\<open>mysqlshdk/libs/utils/utils_sqlstring.cc\<close>: detecting, escaping and
  unescaping of \<^verbatim>\<open>%\<close> and \<^verbatim>\<open>_\<close>, the matcher \<^verbatim>\<open>match_sql_wild\<close> (\<^verbatim>\<open>wild_compare_full\<close> with
  \<^verbatim>\<open>str_is_pattern\<close> false, which is how it is called), and the sort key of patterns.

  The theorems compare the matcher with the meaning of \<^verbatim>\<open>LIKE\<close> patterns: it accepts all strings that
  match, and only these for patterns in which no \<^verbatim>\<open>_\<close> directly follows a \<^verbatim>\<open>%\<close>.
\<close>

definition k_wild_escape :: char where "k_wild_escape = CHR 0x5C"
definition k_wild_one :: char where "k_wild_one = CHR ''_''"
definition k_wild_many :: char where "k_wild_many = CHR ''%''"

lemmas wild_defs = k_wild_escape_def k_wild_one_def k_wild_many_def

section \<open>Detecting and escaping\<close>

definition escape_wildcards :: "string \<Rightarrow> string" where
  "escape_wildcards s =
     concat (map (\<lambda>ch. if ch = CHR ''%'' \<or> ch = CHR ''_'' then [CHR 0x5C, ch] else [ch]) s)"

definition has_sql_wildcard :: "string \<Rightarrow> bool" where
  "has_sql_wildcard s \<longleftrightarrow> find_first_of [k_wild_one, k_wild_many] s 0 \<noteq> None"

text \<open>The loops over the string, which skip the character after an escape character.\<close>

fun has_unescaped_sql_wildcard :: "string \<Rightarrow> bool" where
  "has_unescaped_sql_wildcard [] = False"
| "has_unescaped_sql_wildcard (c # s) =
     (if c = k_wild_escape then has_unescaped_sql_wildcard (drop 1 s)
      else c = k_wild_one \<or> c = k_wild_many \<or> has_unescaped_sql_wildcard s)"

fun has_escaped_sql_wildcard :: "string \<Rightarrow> bool" where
  "has_escaped_sql_wildcard [] = False"
| "has_escaped_sql_wildcard (c # s) =
     (if c = k_wild_escape then
        (case s of
           [] \<Rightarrow> False
         | d # s' \<Rightarrow> d = k_wild_one \<or> d = k_wild_many \<or> has_escaped_sql_wildcard s')
      else has_escaped_sql_wildcard s)"

fun unescape_sql_wildcards :: "string \<Rightarrow> string" where
  "unescape_sql_wildcards [] = []"
| "unescape_sql_wildcards (c # s) =
     (if c = k_wild_escape then
        (case s of
           [] \<Rightarrow> [c]
         | d # s' \<Rightarrow> (if d \<noteq> k_wild_one \<and> d \<noteq> k_wild_many then [k_wild_escape, d] else [d]) @
             unescape_sql_wildcards s')
      else c # unescape_sql_wildcards s)"

section \<open>Matching\<close>

definition is_wild :: "char \<Rightarrow> bool" where
  "is_wild c \<longleftrightarrow> c = k_wild_many \<or> c = k_wild_one"

text \<open>
  \<^verbatim>\<open>wild_compare_full(...) == 0\<close>. A literal or an escaped character must be equal to the next one of the
  string; \<^verbatim>\<open>_\<close> takes any one; after \<^verbatim>\<open>%\<close> all further wildcards are skipped (a \<^verbatim>\<open>_\<close> among them only asks for
  the string not to be at its end), and the rest of the pattern is tried wherever its first character
  occurs.
\<close>

function wild_compare :: "string \<Rightarrow> string \<Rightarrow> bool"
  and wild_search :: "char \<Rightarrow> string \<Rightarrow> string \<Rightarrow> bool" where
  "wild_compare str [] = (str = [])"
| "wild_compare str (w # ws) =
     (if \<not> is_wild w then
        let (lit, ws') = (if w = k_wild_escape \<and> ws \<noteq> [] then (hd ws, tl ws) else (w, ws))
        in (case str of [] \<Rightarrow> False | c # cs \<Rightarrow> if lit \<noteq> c then False else wild_compare cs ws')
      else if w = k_wild_one then
        (case str of [] \<Rightarrow> False | c # cs \<Rightarrow> wild_compare cs ws)
      else if str = [] \<and> k_wild_one \<in> set (takeWhile is_wild ws) then False
      else let rest = dropWhile is_wild ws
           in if rest = [] then True
              else wild_search (if hd rest = k_wild_escape \<and> tl rest \<noteq> [] then hd (tl rest) else hd rest) str rest)"
| "wild_search cmp [] ws = False"
| "wild_search cmp (c # cs) ws =
     (if c \<noteq> cmp then wild_search cmp cs ws
      else wild_compare (c # cs) ws \<or> wild_search cmp cs ws)"
  by pat_completeness auto
termination
proof (relation "inv_image (less_than <*lex*> less_than <*lex*> less_than)
    (\<lambda>x. case x of Inl (s, p) \<Rightarrow> (length p, 0::nat, length s) | Inr (_, s, p) \<Rightarrow> (length p, 1, length s))")
  show "(Inr (cmp, str, rest), Inl (str, w # ws)) \<in> inv_image (less_than <*lex*> less_than <*lex*> less_than)
    (\<lambda>x. case x of Inl (s, p) \<Rightarrow> (length p, 0::nat, length s) | Inr (_, s, p) \<Rightarrow> (length p, 1, length s))"
    if "rest = dropWhile is_wild ws" for cmp str rest w ws
    using that length_dropWhile_le [of is_wild ws] by simp
qed (auto split: if_splits)

definition match_sql_wild :: "string \<Rightarrow> string \<Rightarrow> bool" where
  "match_sql_wild str pattern = wild_compare str pattern"

section \<open>Order of patterns\<close>

text \<open>\<^verbatim>\<open>get_sort(1, str)\<close> on a string without NUL: \<open>pos\<close> is the offset in the string and \<open>chars\<close> the marker.\<close>

fun get_sort_loop :: "string \<Rightarrow> nat \<Rightarrow> nat \<Rightarrow> nat" where
  "get_sort_loop [] pos chars = chars"
| "get_sort_loop (c # s) pos chars =
     (if c = k_wild_escape \<and> s \<noteq> [] then get_sort_loop (tl s) (pos + 2) 128
      else if c = k_wild_many \<or> c = k_wild_one then
        (let wild_pos = pos + 1;
             wild_pos = (if \<not> (wild_pos = 1 \<and> c = k_wild_many \<and> s = []) then wild_pos + 1 else wild_pos)
         in min wild_pos 127)
      else get_sort_loop s (pos + 1) 128)"

definition get_sort :: "string \<Rightarrow> nat" where
  "get_sort str = get_sort_loop str 0 0"

definition SQL_wild_compare :: "string \<Rightarrow> string \<Rightarrow> bool" where
  "SQL_wild_compare a b \<longleftrightarrow> get_sort a > get_sort b"

section \<open>The meaning of patterns\<close>

function like :: "string \<Rightarrow> string \<Rightarrow> bool" where
  "like s [] = (s = [])"
| "like s (w # ws) =
     (if w = k_wild_many then \<exists>k \<in> {0..length s}. like (drop k s) ws
      else if w = k_wild_one then s \<noteq> [] \<and> like (tl s) ws
      else if w = k_wild_escape \<and> ws \<noteq> [] then s \<noteq> [] \<and> hd s = hd ws \<and> like (tl s) (tl ws)
      else s \<noteq> [] \<and> hd s = w \<and> like (tl s) ws)"
  by pat_completeness auto
termination by (relation "measure (\<lambda>(_, p). length p)") auto

text \<open>Patterns in which no \<^verbatim>\<open>_\<close> stands in the run of wildcards after a \<^verbatim>\<open>%\<close>.\<close>

fun no_one_after_many :: "string \<Rightarrow> bool" where
  "no_one_after_many [] = True"
| "no_one_after_many (w # ws) =
     (if w = k_wild_many then k_wild_one \<notin> set (takeWhile is_wild ws) \<and> no_one_after_many ws
      else if w = k_wild_escape \<and> ws \<noteq> [] then no_one_after_many (tl ws)
      else no_one_after_many ws)"

lemma wild_distinct [simp]:
  "k_wild_many \<noteq> k_wild_one" "k_wild_one \<noteq> k_wild_many" "k_wild_escape \<noteq> k_wild_one"
  "k_wild_escape \<noteq> k_wild_many" "k_wild_one \<noteq> k_wild_escape" "k_wild_many \<noteq> k_wild_escape"
  "\<not> is_wild k_wild_escape" "is_wild k_wild_one" "is_wild k_wild_many"
  by (simp_all add: wild_defs is_wild_def)

lemma wild_search_iff:
  "wild_search cmp s ws \<longleftrightarrow> (\<exists>m < length s. s ! m = cmp \<and> wild_compare (drop m s) ws)"
proof (induction s)
  case (Cons c cs)
  have "(\<exists>m < length (c # cs). (c # cs) ! m = cmp \<and> wild_compare (drop m (c # cs)) ws) \<longleftrightarrow>
      c = cmp \<and> wild_compare (c # cs) ws \<or> (\<exists>m < length cs. cs ! m = cmp \<and> wild_compare (drop m cs) ws)"
    by (auto simp: less_Suc_eq_0_disj simp del: wild_compare.simps)
  then show ?case using Cons by (auto simp del: wild_compare.simps)
qed simp

text \<open>The first character that a pattern without leading wildcard asks for.\<close>

definition first_literal :: "string \<Rightarrow> char" where
  "first_literal p = (if hd p = k_wild_escape \<and> tl p \<noteq> [] then hd (tl p) else hd p)"

lemma like_first_literal:
  "like s p \<Longrightarrow> p \<noteq> [] \<Longrightarrow> \<not> is_wild (hd p) \<Longrightarrow> s \<noteq> [] \<and> hd s = first_literal p"
  by (cases p) (auto simp: first_literal_def is_wild_def split: if_splits)

lemma like_skip_wild:
  "like s ws \<Longrightarrow> (\<exists>j \<le> length s. like (drop j s) (dropWhile is_wild ws)) \<and>
     (k_wild_one \<in> set (takeWhile is_wild ws) \<longrightarrow> s \<noteq> [])"
proof (induction ws arbitrary: s)
  case (Cons w ws)
  show ?case
  proof (cases "is_wild w")
    case True
    then consider "w = k_wild_many" | "w = k_wild_one" by (auto simp: is_wild_def)
    then show ?thesis
    proof cases
      case 1
      then obtain k where k: "k \<le> length s" "like (drop k s) ws" using Cons.prems by auto
      then obtain j where "j \<le> length (drop k s)" "like (drop j (drop k s)) (dropWhile is_wild ws)"
        using Cons.IH by blast
      then have "j + k \<le> length s" "like (drop (j + k) s) (dropWhile is_wild ws)" using k(1) by auto
      then show ?thesis using Cons.IH [OF k(2)] 1 by auto
    next
      case 2
      then have s: "s \<noteq> []" "like (tl s) ws" using Cons.prems by auto
      then obtain j where "j \<le> length (tl s)" "like (drop j (tl s)) (dropWhile is_wild ws)"
        using Cons.IH by blast
      then have "Suc j \<le> length s" "like (drop (Suc j) s) (dropWhile is_wild ws)"
        using s(1) by (cases s; auto)+
      then show ?thesis using 2 s(1) by auto
    qed
  next
    case False
    then show ?thesis using Cons.prems by (auto intro: exI [of _ 0])
  qed
qed auto

lemma like_wild_compare: "like s p \<Longrightarrow> wild_compare s p"
proof (induction p arbitrary: s rule: length_induct)
  case (1 p)
  note IH = "1.IH" [rule_format]
  show ?case
  proof (cases p)
    case Nil
    then show ?thesis using "1.prems" by simp
  next
    case (Cons w ws)
    show ?thesis
    proof (cases "w = k_wild_many")
      case False
      then show ?thesis
        using "1.prems" Cons IH [of ws "tl s"] IH [of "tl ws" "tl s"]
        by (cases s) (auto simp: is_wild_def split: if_splits)
    next
      case True
      obtain k where k: "k \<le> length s" "like (drop k s) ws" using "1.prems" Cons True by auto
      note sk = like_skip_wild [OF k(2)]
      then obtain j where j: "like (drop (j + k) s) (dropWhile is_wild ws)" by auto
      let ?rest = "dropWhile is_wild ws"
      have notwild: "?rest \<noteq> [] \<Longrightarrow> \<not> is_wild (hd ?rest)" using hd_dropWhile by blast
      have "wild_search (first_literal ?rest) s ?rest" if r: "?rest \<noteq> []"
      proof -
        have f: "drop (j + k) s \<noteq> [] \<and> hd (drop (j + k) s) = first_literal ?rest"
          by (rule like_first_literal [OF j r notwild [OF r]])
        have "wild_compare (drop (j + k) s) ?rest"
          using IH [OF _ j] length_dropWhile_le [of is_wild ws] Cons by simp
        then show ?thesis
          using f by (auto simp: wild_search_iff hd_drop_conv_nth intro!: exI [of _ "j + k"])
      qed
      moreover have "\<not> (s = [] \<and> k_wild_one \<in> set (takeWhile is_wild ws))" using sk k(1) by auto
      ultimately show ?thesis unfolding Cons using True by (auto simp: Let_def first_literal_def)
    qed
  qed
qed

lemma like_many_prefix:
  "k_wild_one \<notin> set (takeWhile is_wild ws) \<Longrightarrow> like s (dropWhile is_wild ws) \<Longrightarrow> like s ws"
proof (induction ws)
  case (Cons w ws)
  show ?case
  proof (cases "is_wild w")
    case True
    then have w: "w = k_wild_many" using Cons.prems by (auto simp: is_wild_def)
    then have "like (drop 0 s) ws" using Cons by simp
    then show ?thesis using w by (auto intro!: bexI [of _ 0])
  qed (use Cons.prems in simp)
qed simp

lemma no_one_dropWhile: "no_one_after_many ws \<Longrightarrow> no_one_after_many (dropWhile is_wild ws)"
  by (induction ws) (auto simp: is_wild_def split: if_splits)

lemma wild_compare_like: "no_one_after_many p \<Longrightarrow> wild_compare s p \<Longrightarrow> like s p"
proof (induction p arbitrary: s rule: length_induct)
  case (1 p)
  note IH = "1.IH" [rule_format]
  show ?case
  proof (cases p)
    case Nil
    then show ?thesis using "1.prems" by simp
  next
    case (Cons w ws)
    show ?thesis
    proof (cases "w = k_wild_many")
      case False
      then show ?thesis
        using "1.prems" Cons IH [of ws "tl s"] IH [of "tl ws" "tl s"]
        by (cases s) (auto simp: is_wild_def split: if_splits)
    next
      case True
      let ?rest = "dropWhile is_wild ws"
      have one: "k_wild_one \<notin> set (takeWhile is_wild ws)" and simple: "no_one_after_many ?rest"
        using "1.prems"(1) Cons True no_one_dropWhile by auto
      have "\<exists>m \<le> length s. like (drop m s) ?rest"
      proof (cases "?rest = []")
        case True
        show ?thesis unfolding True by (intro exI [of _ "length s"]) simp
      next
        case False
        then have "wild_search (first_literal ?rest) s ?rest"
          using "1.prems"(2) Cons True one by (simp add: Let_def first_literal_def split: if_splits)
        then obtain m where "m < length s" "wild_compare (drop m s) ?rest" by (auto simp: wild_search_iff)
        then show ?thesis
          using IH [OF _ simple] length_dropWhile_le [of is_wild ws] Cons by (auto intro!: exI [of _ m])
      qed
      then obtain m where "m \<in> {0..length s}" "like (drop m s) ws" using like_many_prefix [OF one] by auto
      then show ?thesis using Cons True by auto
    qed
  qed
qed

text \<open>C20: the matcher accepts every string that matches the pattern, and for patterns without a \<^verbatim>\<open>_\<close> in a
  run of wildcards after \<^verbatim>\<open>%\<close> it accepts no other.\<close>

theorem match_sql_wild_like:
  "(like str pattern \<longrightarrow> match_sql_wild str pattern) \<and>
   (no_one_after_many pattern \<longrightarrow> (match_sql_wild str pattern \<longleftrightarrow> like str pattern))"
  using like_wild_compare wild_compare_like by (auto simp: match_sql_wild_def)

theorem match_sql_wild_like_witness:
  "no_one_after_many ''a%c_'' \<and> like ''abbcd'' ''a%c_'' \<and> match_sql_wild ''abbcd'' ''a%c_''"
proof -
  have "no_one_after_many ''a%c_''" by (simp add: wild_defs is_wild_def)
  moreover have "like ''bbcd'' ''%c_''"
    by (simp add: wild_defs) (intro bexI [of _ 2]; simp add: wild_defs)
  then have "like ''abbcd'' ''a%c_''" by (simp add: wild_defs)
  ultimately show ?thesis using match_sql_wild_like [of "''abbcd''" "''a%c_''"] by blast
qed

text \<open>A \<^verbatim>\<open>_\<close> after a \<^verbatim>\<open>%\<close> consumes no character: the one letter string \<^verbatim>\<open>a\<close> is accepted for the
  patterns \<^verbatim>\<open>%__\<close> and \<^verbatim>\<open>%_a\<close>, which ask for at least two characters.\<close>

theorem match_sql_wild_skips_one:
  "match_sql_wild ''a'' ''%__'' \<and> \<not> like ''a'' ''%__'' \<and> match_sql_wild ''a'' ''%_a'' \<and> \<not> like ''a'' ''%_a''"
  by (simp add: match_sql_wild_def wild_defs is_wild_def atLeastAtMost_upt)

section \<open>Escaping and ordering: correctness\<close>

lemma escape_wildcards_Cons:
  "escape_wildcards (c # s) = (if is_wild c then [k_wild_escape, c] else [c]) @ escape_wildcards s"
  by (auto simp: escape_wildcards_def is_wild_def wild_defs)

text \<open>Escaping the wildcards of a string without escape characters leaves no wildcard unescaped,
  unescaping gives the string back, and the escaped string as a pattern matches the string alone.\<close>

theorem escape_wildcards_correct:
  assumes "k_wild_escape \<notin> set s"
  shows "\<not> has_unescaped_sql_wildcard (escape_wildcards s) \<and>
    unescape_sql_wildcards (escape_wildcards s) = s \<and>
    (match_sql_wild t (escape_wildcards s) \<longleftrightarrow> t = s)"
proof -
  have "\<not> has_unescaped_sql_wildcard (escape_wildcards s)"
    using assms by (induction s) (auto simp: escape_wildcards_Cons is_wild_def, simp add: escape_wildcards_def)
  moreover have "unescape_sql_wildcards (escape_wildcards s) = s"
    using assms by (induction s) (auto simp: escape_wildcards_Cons is_wild_def, simp add: escape_wildcards_def)
  moreover have "wild_compare t (escape_wildcards s) \<longleftrightarrow> t = s"
    using assms
  proof (induction s arbitrary: t)
    case Nil
    then show ?case by (simp add: escape_wildcards_def)
  next
    case (Cons c s)
    then show ?case by (cases t) (auto simp: escape_wildcards_Cons Let_def)
  qed
  ultimately show ?thesis by (simp add: match_sql_wild_def)
qed

theorem escape_wildcards_correct_witness:
  "k_wild_escape \<notin> set ''a_b'' \<and> escape_wildcards ''a_b'' = [CHR ''a'', CHR 0x5C, CHR ''_'', CHR ''b''] \<and>
   unescape_sql_wildcards [CHR ''a'', CHR 0x5C, CHR ''_'', CHR ''b''] = ''a_b''"
proof -
  have "k_wild_escape \<notin> set ''a_b''" by (simp add: wild_defs)
  moreover have "escape_wildcards ''a_b'' = [CHR ''a'', CHR 0x5C, CHR ''_'', CHR ''b'']"
    by (simp add: escape_wildcards_def)
  ultimately show ?thesis using escape_wildcards_correct [of "''a_b''"] by metis
qed

lemma get_sort_loop_plain:
  "\<not> has_unescaped_sql_wildcard s \<Longrightarrow> get_sort_loop s pos chars = (if s = [] then chars else 128)"
proof (induction s pos chars rule: get_sort_loop.induct)
  case (2 c s pos chars)
  then show ?case by (cases s) (auto split: if_splits)
qed simp

lemma get_sort_loop_wild:
  "has_unescaped_sql_wildcard s \<Longrightarrow> pos > 0 \<or> s \<noteq> [k_wild_many] \<Longrightarrow>
     2 \<le> get_sort_loop s pos chars \<and> get_sort_loop s pos chars \<le> 127"
proof (induction s pos chars rule: get_sort_loop.induct)
  case (2 c s pos chars)
  then show ?case by (cases s) (auto simp: Let_def split: if_splits)
qed simp

text \<open>Patterns are ordered in the documented groups: those without wildcards come before those with
  wildcards and other characters, then the single \<^verbatim>\<open>%\<close>, then the empty string.\<close>

theorem SQL_wild_compare_groups:
  assumes "a \<noteq> []" "\<not> has_unescaped_sql_wildcard a" "has_unescaped_sql_wildcard b" "b \<noteq> ''%''"
  shows "SQL_wild_compare a b \<and> SQL_wild_compare b ''%'' \<and> SQL_wild_compare ''%'' []"
proof -
  have "get_sort ''%'' = 1" "get_sort [] = 0" by (simp_all add: get_sort_def wild_defs)
  moreover have "get_sort a = 128" using assms(1,2) by (simp add: get_sort_def get_sort_loop_plain)
  moreover have "b \<noteq> [k_wild_many]" using assms(4) by (simp add: wild_defs)
  then have "2 \<le> get_sort b \<and> get_sort b \<le> 127"
    using get_sort_loop_wild [OF assms(3), of 0 0] by (simp add: get_sort_def)
  ultimately show ?thesis by (simp add: SQL_wild_compare_def)
qed

theorem SQL_wild_compare_groups_witness:
  "SQL_wild_compare ''db'' ''d%'' \<and> SQL_wild_compare ''d%'' ''%''"
  using SQL_wild_compare_groups [of "''db''" "''d%''"] by (simp add: wild_defs)

end
