(* ===== verification/Lexing.thy ===== *)
theory Lexing
  imports Str_Util
begin

text \<open>
  Model of the span functions of \<^verbatim>\<open>mysqlshdk/libs/utils/utils_lexing.{h,cc}\<close>, which find the end of the
  quoted strings, identifiers and comments of a SQL text. Offsets are natural numbers and \<^verbatim>\<open>npos\<close> is
  \<open>None\<close>. The lookup tables are given by their rule; indexing one with a negative \<^verbatim>\<open>char\<close> is an
  \<open>Undefined\<close> error.

  The theorems say exactly where each span ends, by a grammar of the body of the literal, and that
  every span makes progress and stays inside the text.
\<close>

section \<open>Tables\<close>

definition k_quoted_string_span_skips_sq :: "nat list list" where
  "k_quoted_string_span_skips_sq =
     [map (\<lambda>c. if c = 0 \<or> c = 0x27 then 0 else if c = 0x5C then 2 else 1) [0..<256],
      map (\<lambda>c. if c = 0 \<or> c = 0x27 then 0 else 1) [0..<256]]"

definition k_quoted_string_span_skips_dq :: "nat list list" where
  "k_quoted_string_span_skips_dq =
     [map (\<lambda>c. if c = 0 \<or> c = 0x22 then 0 else if c = 0x5C then 2 else 1) [0..<256],
      map (\<lambda>c. if c = 0 \<or> c = 0x22 then 0 else 1) [0..<256]]"

definition k_keyword_chars :: string where
  "k_keyword_chars = ''abcdefghijklmnopqrstuvwxyzABCDEFGHIJKLMNOPQRSTUVWXYZ0123456789_''"

definition k_identifier_chars :: string where
  "k_identifier_chars = ''abcdefghijklmnopqrstuvwxyzABCDEFGHIJKLMNOPQRSTUVWXYZ0123456789_$''"

definition k_dollar_quoted_string_span_chars :: "nat list" where
  "k_dollar_quoted_string_span_chars =
     map (\<lambda>c. if 48 \<le> c \<and> c \<le> 57 \<or> 65 \<le> c \<and> c \<le> 90 \<or> c = 95 \<or> 97 \<le> c \<and> c \<le> 122 \<or> 128 \<le> c
              then 1 else 0) [0..<256]"

section \<open>Quoted strings\<close>

text \<open>The two nested loops of \<^verbatim>\<open>span_quoted_string_dq\<close> and \<^verbatim>\<open>span_quoted_string_sq\<close>, which differ in their
  table only: skip by the table; a NUL is skipped by the outer loop; what else has no skip ends the string.\<close>

function span_quoted_loop :: "nat list \<Rightarrow> string \<Rightarrow> nat \<Rightarrow> nat option" where
  "span_quoted_loop skips s offset =
     (if offset < length s then
        let last_ch = ord (s ! offset); k = skips ! last_ch
        in if k > 0 then span_quoted_loop skips s (offset + k)
           else if last_ch = 0 then span_quoted_loop skips s (offset + 1)
           else Some (offset + 1)
      else None)"
  by pat_completeness auto
termination by (relation "measure (\<lambda>(_, s, offset). length s - offset)") auto

declare span_quoted_loop.simps [simp del]

definition span_quoted_string_dq :: "string \<Rightarrow> nat \<Rightarrow> nat option" where
  "span_quoted_string_dq s offset = span_quoted_loop (k_quoted_string_span_skips_dq ! 0) s (offset + 1)"

definition span_quoted_string_sq :: "string \<Rightarrow> nat \<Rightarrow> nat option" where
  "span_quoted_string_sq s offset = span_quoted_loop (k_quoted_string_span_skips_sq ! 0) s (offset + 1)"

text \<open>The loop of \<^verbatim>\<open>span_quoted_sql_identifier_bt\<close> and \<^verbatim>\<open>span_quoted_sql_identifier_dquote\<close>.\<close>

function span_doubled_loop :: "char \<Rightarrow> string \<Rightarrow> nat \<Rightarrow> nat option" where
  "span_doubled_loop quote s p =
     (case find_char quote s p of
        None \<Rightarrow> None
      | Some p \<Rightarrow>
          if p + 1 < length s \<and> s ! (p + 1) = quote then span_doubled_loop quote s (p + 2)
          else Some (p + 1))"
  by pat_completeness auto
termination
  by (relation "measure (\<lambda>(_, s, p). length s - p)") (auto simp: find_from_Some_iff)

declare span_doubled_loop.simps [simp del]

definition span_quoted_sql_identifier_bt :: "string \<Rightarrow> nat \<Rightarrow> nat option" where
  "span_quoted_sql_identifier_bt s offset = span_doubled_loop (CHR 0x60) s (offset + 1)"

definition span_quoted_sql_identifier_dquote :: "string \<Rightarrow> nat \<Rightarrow> nat option" where
  "span_quoted_sql_identifier_dquote s offset = span_doubled_loop (CHR 0x22) s (offset + 1)"

section \<open>Spaces, keywords, identifiers\<close>

definition span_blanks :: string where
  "span_blanks = [CHR 0x20, CHR 0x09, CHR 0x0D, CHR 0x0A]"

definition span_spaces :: "string \<Rightarrow> nat option \<Rightarrow> nat option" where
  "span_spaces s offset =
     (case offset of None \<Rightarrow> None | Some p \<Rightarrow> find_first_not_of span_blanks s p)"

definition span_not_spaces :: "string \<Rightarrow> nat \<Rightarrow> nat" where
  "span_not_spaces s offset =
     (case find_first_of span_blanks s offset of None \<Rightarrow> length s | Some p \<Rightarrow> p)"

definition span_keyword :: "string \<Rightarrow> nat \<Rightarrow> string \<Rightarrow> nat" where
  "span_keyword s offset keyword_chars =
     (if isalpha (s ! offset) \<or> s ! offset = CHR ''_''
      then (case find_first_not_of keyword_chars s (offset + 1) of None \<Rightarrow> length s | Some p \<Rightarrow> p)
      else offset)"

text \<open>The index is \<^verbatim>\<open>static_cast<int>(c)\<close>: negative for a byte with its high bit set, as \<^verbatim>\<open>char\<close> is signed on
  the supported platforms.\<close>

definition is_start_of_unquoted_identifier :: "char \<Rightarrow> bool result" where
  "is_start_of_unquoted_identifier c =
     (if ord c \<ge> 128 then Inl (Undefined ''k_dollar_quoted_string_span_chars: negative index'')
      else Inr (k_dollar_quoted_string_span_chars ! ord c \<noteq> 0 \<or> c = CHR ''$''))"

function span_unquoted_identifier :: "string \<Rightarrow> nat \<Rightarrow> nat" where
  "span_unquoted_identifier s offset =
     (case find_first_not_of k_identifier_chars s (offset + 1) of
        None \<Rightarrow> length s
      | Some p \<Rightarrow>
          if p = length s then length s
          else if ord (s ! p) \<le> 0x7F then p
          else span_unquoted_identifier s p)"
  by pat_completeness auto
termination
  by (relation "measure (\<lambda>(s, p). length s - p)") (auto simp: find_from_Some_iff)

declare span_unquoted_identifier.simps [simp del]

section \<open>Dollar quotes\<close>

definition is_dollar_quote_tag :: "string \<Rightarrow> bool" where
  "is_dollar_quote_tag s = list_all (\<lambda>c. k_dollar_quoted_string_span_chars ! ord c \<noteq> 0) s"

definition span_dollar_quoted_string_or_dollar_identifier :: "string \<Rightarrow> nat \<Rightarrow> nat result" where
  "span_dollar_quoted_string_or_dollar_identifier s offset =
     (case find_char (CHR ''$'') s (offset + 1) of
        None \<Rightarrow> Inr (span_unquoted_identifier s offset)
      | Some endtag \<Rightarrow>
          let tag = substr s offset (endtag + 1 - offset)
          in if \<not> is_dollar_quote_tag (substr tag 1 (length tag - 2))
             then Inr (span_unquoted_identifier s offset)
             else case find_sub_from tag s (offset + length tag) of
                    None \<Rightarrow> Inl (Invalid_argument (''Unterminated '' @ tag @ '' quoted string''))
                  | Some e \<Rightarrow> Inr (e + length tag))"

section \<open>Comments\<close>

definition span_to_eol :: "string \<Rightarrow> nat \<Rightarrow> nat" where
  "span_to_eol s offset =
     (case find_char (CHR 0x0A) s offset of None \<Rightarrow> length s | Some p \<Rightarrow> p + 1)"

definition span_cstyle_comment :: "string \<Rightarrow> nat \<Rightarrow> nat option" where
  "span_cstyle_comment s offset =
     (if length s < 4 then None
      else case find_sub_from ''*/'' s (offset + 2) of None \<Rightarrow> None | Some p \<Rightarrow> Some (p + 2))"

text \<open>One turn of the loop over a conditional comment: the next offset, or the end of the comment.\<close>

datatype comment_step = Next "nat option" | Closed nat

definition conditional_comment_step :: "string \<Rightarrow> bool \<Rightarrow> nat \<Rightarrow> comment_step result" where
  "conditional_comment_step s dollar_quote_strings offset =
     (let c = s ! offset; size = length s
      in if c = CHR 0x27 then Inr (Next (span_quoted_string_sq s offset))
         else if c = CHR 0x22 then Inr (Next (span_quoted_string_dq s offset))
         else if c = CHR 0x60 then Inr (Next (span_quoted_sql_identifier_bt s offset))
         else if c = CHR ''*'' then
           (if offset + 1 < size \<and> s ! (offset + 1) = CHR ''/'' then Inr (Closed (offset + 2))
            else Inr (Next (Some (offset + 1))))
         else if c = CHR 0x0A then
           (if offset + 1 + 2 < size \<and> s ! (offset + 1) = CHR ''-'' \<and> s ! (offset + 2) = CHR ''-'' \<and>
               (s ! (offset + 3) = CHR '' '' \<or> s ! (offset + 3) = CHR 0x09)
            then Inr (Next (Some (span_to_eol s (offset + 1 + 3))))
            else Inr (Next (Some (offset + 1))))
         else if c = CHR ''$'' then
           (if dollar_quote_strings
            then rbind (span_dollar_quoted_string_or_dollar_identifier s offset) (\<lambda>p. Inr (Next (Some p)))
            else Inr (Next (Some (span_unquoted_identifier s offset))))
         else rbind (is_start_of_unquoted_identifier c) (\<lambda>start.
           Inr (Next (Some (if start then span_unquoted_identifier s offset else offset + 1)))))"

section \<open>Progress and bounds\<close>

lemma skips_nth [simp]:
  "k_quoted_string_span_skips_sq ! 0 ! ord c =
     (if ord c = 0 \<or> ord c = 0x27 then 0 else if ord c = 0x5C then 2 else 1)"
  "k_quoted_string_span_skips_dq ! 0 ! ord c =
     (if ord c = 0 \<or> ord c = 0x22 then 0 else if ord c = 0x5C then 2 else 1)"
  by (simp_all add: k_quoted_string_span_skips_sq_def k_quoted_string_span_skips_dq_def)

lemma dollar_chars_nth [simp]:
  "k_dollar_quoted_string_span_chars ! ord c \<noteq> 0 \<longleftrightarrow> isalnum c \<or> c = CHR ''_'' \<or> 128 \<le> ord c"
proof -
  have "k_dollar_quoted_string_span_chars ! ord c \<noteq> 0 \<longleftrightarrow>
      isalnum c \<or> ord c = ord (CHR ''_'') \<or> 128 \<le> ord c"
    by (auto simp: k_dollar_quoted_string_span_chars_def ctype_simps)
  then show ?thesis by (simp only: ord_inj)
qed

lemma span_quoted_loop_bounds:
  "span_quoted_loop skips s offset = Some p \<Longrightarrow> offset < p \<and> p \<le> length s"
proof (induction skips s offset rule: span_quoted_loop.induct)
  case (1 skips s offset)
  have off: "offset < length s"
    using "1.prems" by (subst (asm) span_quoted_loop.simps) (simp split: if_splits)
  note IH = "1.IH" [OF off refl refl]
  show ?case
    using "1.prems" IH off add_lessD1 [of offset _ p]
    by (subst (asm) span_quoted_loop.simps) (fastforce simp: Let_def split: if_splits)
qed

lemma span_doubled_loop_bounds:
  "span_doubled_loop q s offset = Some p \<Longrightarrow> offset < p \<and> p \<le> length s"
proof (induction q s offset rule: span_doubled_loop.induct)
  case (1 q s offset)
  then show ?case
    by (subst (asm) (2) span_doubled_loop.simps)
      (fastforce simp: find_from_Some_iff split: option.splits if_splits)
qed

lemma span_quoted_bounds:
  "span_quoted_string_sq s offset = Some p \<Longrightarrow> offset < p \<and> p \<le> length s"
  "span_quoted_string_dq s offset = Some p \<Longrightarrow> offset < p \<and> p \<le> length s"
  "span_quoted_sql_identifier_bt s offset = Some p \<Longrightarrow> offset < p \<and> p \<le> length s"
  "span_quoted_sql_identifier_dquote s offset = Some p \<Longrightarrow> offset < p \<and> p \<le> length s"
  by (auto simp: span_quoted_string_sq_def span_quoted_string_dq_def span_quoted_sql_identifier_bt_def
      span_quoted_sql_identifier_dquote_def dest: span_quoted_loop_bounds span_doubled_loop_bounds)

lemma span_unquoted_identifier_bounds:
  "offset < length s \<Longrightarrow>
     offset < span_unquoted_identifier s offset \<and> span_unquoted_identifier s offset \<le> length s"
proof (induction s offset rule: span_unquoted_identifier.induct)
  case (1 s offset)
  show ?case
    using 1 by (subst (1 2) span_unquoted_identifier.simps)
      (fastforce simp: find_from_Some_iff split: option.split)
qed

lemma span_to_eol_bounds: "offset \<le> length s \<Longrightarrow> offset \<le> span_to_eol s offset \<and> span_to_eol s offset \<le> length s"
  by (auto simp: span_to_eol_def find_from_Some_iff split: option.splits)

lemma span_dollar_bounds:
  assumes "span_dollar_quoted_string_or_dollar_identifier s offset = Inr p" "offset < length s"
  shows "offset < p \<and> p \<le> length s"
proof (cases "find_char (CHR ''$'') s (offset + 1)")
  case None
  then show ?thesis
    using assms span_unquoted_identifier_bounds
    by (auto simp: span_dollar_quoted_string_or_dollar_identifier_def)
next
  case (Some e)
  then have "offset < e" "e < length s" by (auto simp: find_from_Some_iff)
  then show ?thesis
    using assms Some span_unquoted_identifier_bounds [of offset s]
    by (auto simp: span_dollar_quoted_string_or_dollar_identifier_def Let_def
        split: if_splits option.splits dest!: find_sub_from_range)
qed

lemma span_cstyle_comment_bounds:
  "span_cstyle_comment s offset = Some p \<Longrightarrow> offset + 4 \<le> p \<and> p \<le> length s"
  by (auto simp: span_cstyle_comment_def split: if_splits option.splits dest!: find_sub_from_range)

lemma conditional_comment_step_bounds:
  assumes "offset < length s" "conditional_comment_step s d offset = Inr r"
  shows "case r of Next None \<Rightarrow> True | Next (Some p) \<Rightarrow> offset < p \<and> p \<le> length s
    | Closed p \<Rightarrow> p = offset + 2 \<and> p \<le> length s \<and> s ! offset = CHR ''*'' \<and> s ! (offset + 1) = CHR ''/''"
  using assms span_quoted_bounds [of s offset] span_unquoted_identifier_bounds [OF assms(1)]
    span_to_eol_bounds [of "4 + offset" s] span_dollar_bounds [of s offset]
  unfolding conditional_comment_step_def Let_def
  by (auto split: if_splits comment_step.split option.split)

section \<open>Conditional comments and identifiers with optional quotes\<close>

function conditional_comment_loop :: "string \<Rightarrow> bool \<Rightarrow> nat \<Rightarrow> nat option result" where
  "conditional_comment_loop s dollar_quote_strings offset =
     (if offset < length s then
        rbind (conditional_comment_step s dollar_quote_strings offset) (\<lambda>r.
          case r of
            Closed p \<Rightarrow> Inr (Some p)
          | Next None \<Rightarrow> Inr None
          | Next (Some p) \<Rightarrow> conditional_comment_loop s dollar_quote_strings p)
      else Inr None)"
  by pat_completeness auto
termination
  by (relation "measure (\<lambda>(s, _, offset). length s - offset)")
    (auto dest!: conditional_comment_step_bounds)

declare conditional_comment_loop.simps [simp del]

definition span_cstyle_sql_comment :: "string \<Rightarrow> nat \<Rightarrow> bool \<Rightarrow> nat option result" where
  "span_cstyle_sql_comment s offset dollar_quote_strings =
     (if length s < 4 then Inr None
      else if offset + 2 < length s \<and> s ! (offset + 2) = CHR ''!''
      then conditional_comment_loop s dollar_quote_strings (offset + 3)
      else Inr (span_cstyle_comment s offset))"

text \<open>
  \<^verbatim>\<open>span_quotable_sql_identifier\<close>: the loop over a quoted identifier, on the rest of the string; the
  result is the number of characters consumed, whether the loop was left by \<^verbatim>\<open>done\<close> or at the end with \<open>esc\<close>
  pending, and the unquoted text.
\<close>

fun quotable_loop :: "char \<Rightarrow> string \<Rightarrow> bool \<Rightarrow> nat \<Rightarrow> string \<Rightarrow> (nat \<times> string) result" where
  "quotable_loop quote [] esc n out =
     (if esc then Inr (n, out) else Inl (Runtime_error ''Invalid syntax in identifier''))"
| "quotable_loop quote (c # cs) esc n out =
     (if quote = c then
        (if esc then quotable_loop quote cs False (n + 1) (out @ [c])
         else quotable_loop quote cs True (n + 1) out)
      else if esc then Inr (n, out)
      else quotable_loop quote cs esc (n + 1) (out @ [c]))"

text \<open>The loop over an unquoted identifier.\<close>

fun unquoted_loop :: "string \<Rightarrow> bool \<Rightarrow> nat \<Rightarrow> string \<Rightarrow> (nat \<times> string) result" where
  "unquoted_loop [] seen_not_a_digit n out =
     (if seen_not_a_digit then Inr (n, out)
      else Inl (Runtime_error (''Invalid identifier: identifiers may begin with a digit but unless '' @
        ''quoted may not consist solely of digits.'')))"
| "unquoted_loop (c # cs) seen_not_a_digit n out =
     (if \<not> isalnum c \<and> c \<noteq> CHR ''_'' \<and> c \<noteq> CHR ''$'' then
        (if n = 0 then Inl (Runtime_error ''Invalid character in identifier'')
         else if seen_not_a_digit then Inr (n, out)
         else Inl (Runtime_error (''Invalid identifier: identifiers may begin with a digit but unless '' @
           ''quoted may not consist solely of digits.'')))
      else unquoted_loop cs (seen_not_a_digit \<or> \<not> isdigit c) (n + 1) (out @ [c]))"

definition span_quotable_sql_identifier :: "string \<Rightarrow> nat \<Rightarrow> bool \<Rightarrow> (nat \<times> string) result" where
  "span_quotable_sql_identifier s offset allow_ansi_quotes =
     (if offset \<ge> length s then Inr (offset, [])
      else if s ! offset = CHR 0x60 \<or> allow_ansi_quotes \<and> s ! offset = CHR 0x22
      then rbind (quotable_loop (s ! offset) (drop (offset + 1) s) False 0 []) (\<lambda>(n, out).
             Inr (offset + 1 + n, out))
      else rbind (unquoted_loop (drop offset s) False 0 []) (\<lambda>(n, out). Inr (offset + n, out)))"

section \<open>Where the spans end\<close>

text \<open>The body of a quoted string: no closing quote unless a backslash precedes it, and no backslash
  at the end.\<close>

fun quoted_body :: "char \<Rightarrow> string \<Rightarrow> bool" where
  "quoted_body q [] = True"
| "quoted_body q [c] \<longleftrightarrow> c \<noteq> q \<and> c \<noteq> backslash"
| "quoted_body q (c # d # cs) \<longleftrightarrow>
     c \<noteq> q \<and> (if c = backslash then quoted_body q cs else quoted_body q (d # cs))"

fun quoted_len :: "char \<Rightarrow> string \<Rightarrow> nat option" where
  "quoted_len q [] = None"
| "quoted_len q (c # cs) =
     (if c = q then Some 1
      else if c = backslash then map_option (\<lambda>n. n + 2) (quoted_len q (drop 1 cs))
      else map_option Suc (quoted_len q cs))"

lemma quoted_body_Cons:
  "c \<noteq> backslash \<Longrightarrow> quoted_body q (c # cs) \<longleftrightarrow> c \<noteq> q \<and> quoted_body q cs"
  by (cases cs) auto

lemma quoted_len_body:
  "q \<noteq> backslash \<Longrightarrow> quoted_body q body \<Longrightarrow> quoted_len q (body @ q # rest) = Some (length body + 1)"
  by (induction q body rule: quoted_body.induct) auto

lemma quoted_len_split:
  "quoted_len q s = Some n \<Longrightarrow> \<exists>body rest. s = body @ q # rest \<and> quoted_body q body \<and> n = length body + 1"
proof (induction q s arbitrary: n rule: quoted_len.induct)
  case (2 q c cs)
  show ?case
  proof (cases "c = q")
    case True
    then show ?thesis using "2.prems" by (intro exI [of _ "[]"] exI [of _ cs]) auto
  next
    case False
    show ?thesis
    proof (cases "c = backslash")
      case True
      then obtain m where m: "quoted_len q (drop 1 cs) = Some m" "n = m + 2" using "2.prems" False by auto
      then obtain d ds where cs: "cs = d # ds" by (cases cs) auto
      from "2.IH"(1) [OF False True m(1)] obtain body rest where
        "ds = body @ q # rest" "quoted_body q body" "m = length body + 1" using cs by auto
      then show ?thesis using True False m(2) cs by (intro exI [of _ "c # d # body"] exI [of _ rest]) auto
    next
      case bs: False
      then obtain m where m: "quoted_len q cs = Some m" "n = Suc m" using "2.prems" False by auto
      from "2.IH"(2) [OF False bs m(1)] obtain body rest where
        "cs = body @ q # rest" "quoted_body q body" "m = length body + 1" by auto
      then show ?thesis
        using False bs m(2) by (intro exI [of _ "c # body"] exI [of _ rest]) (simp add: quoted_body_Cons)
    qed
  qed
qed simp

lemma quoted_len_iff:
  "q \<noteq> backslash \<Longrightarrow>
   quoted_len q s = Some n \<longleftrightarrow> (\<exists>body rest. s = body @ q # rest \<and> quoted_body q body \<and> n = length body + 1)"
  using quoted_len_body quoted_len_split by blast

definition quote_skips :: "char \<Rightarrow> nat list \<Rightarrow> bool" where
  "quote_skips q skips \<longleftrightarrow> ord q \<noteq> 0 \<and> q \<noteq> backslash \<and>
     (\<forall>c. skips ! ord c = (if ord c = 0 \<or> c = q then 0 else if c = backslash then 2 else 1))"

lemma span_quoted_loop_len:
  assumes "quote_skips q skips"
  shows "span_quoted_loop skips s offset = map_option (\<lambda>n. offset + n) (quoted_len q (drop offset s))"
  using assms
proof (induction skips s offset rule: span_quoted_loop.induct)
  case (1 skips s offset)
  show ?case
  proof (cases "offset < length s")
    case True
    define c where "c = s ! offset"
    have d: "drop offset s = c # drop (Suc offset) s" using True by (simp add: c_def Cons_nth_drop_Suc)
    have k: "skips ! ord c = (if ord c = 0 \<or> c = q then 0 else if c = backslash then 2 else 1)"
      and q: "ord q \<noteq> 0" "q \<noteq> backslash" using "1.prems" by (auto simp: quote_skips_def)
    note IH = "1.IH" [OF True refl refl, folded c_def, unfolded k] "1.prems"
    consider "c = q" | "ord c = 0" "c \<noteq> q" | "c = backslash" "c \<noteq> q" | "ord c \<noteq> 0" "c \<noteq> q" "c \<noteq> backslash"
      by blast
    then show ?thesis
    proof cases
      case 2
      then have "c \<noteq> backslash" by (auto simp: backslash_def)
      with 2 show ?thesis
        using IH True k q d c_def [symmetric]
        by (subst span_quoted_loop.simps) (simp add: Let_def option.map_comp comp_def)
    next
      case 3
      then have "ord c \<noteq> 0" by (simp add: backslash_def)
      with 3 show ?thesis
        using IH True k q d c_def [symmetric]
        by (subst span_quoted_loop.simps) (simp add: Let_def option.map_comp comp_def)
    qed (use IH True k q d c_def [symmetric] in
        \<open>(subst span_quoted_loop.simps, simp add: Let_def option.map_comp comp_def)+\<close>)
  next
    case False
    then show ?thesis by (subst span_quoted_loop.simps) simp
  qed
qed

lemma quote_skips_tables:
  "quote_skips (CHR 0x27) (k_quoted_string_span_skips_sq ! 0)"
  "quote_skips (CHR 0x22) (k_quoted_string_span_skips_dq ! 0)"
proof -
  have e: "ord c = 0x27 \<longleftrightarrow> c = CHR 0x27" "ord c = 0x22 \<longleftrightarrow> c = CHR 0x22" "ord c = 0x5C \<longleftrightarrow> c = backslash" for c
    using ord_inj [of c "CHR 0x27"] ord_inj [of c "CHR 0x22"] ord_inj [of c backslash]
    by (simp_all add: backslash_def del: ord_inj)
  show "quote_skips (CHR 0x27) (k_quoted_string_span_skips_sq ! 0)"
    "quote_skips (CHR 0x22) (k_quoted_string_span_skips_dq ! 0)"
    by (simp_all add: quote_skips_def e) (simp_all add: backslash_def)
qed

lemma span_quoted_string_len:
  "span_quoted_string_sq s offset =
     map_option (\<lambda>n. offset + 1 + n) (quoted_len (CHR 0x27) (drop (offset + 1) s))"
  "span_quoted_string_dq s offset =
     map_option (\<lambda>n. offset + 1 + n) (quoted_len (CHR 0x22) (drop (offset + 1) s))"
  unfolding span_quoted_string_sq_def span_quoted_string_dq_def
  by (simp_all only: span_quoted_loop_len [OF quote_skips_tables(1)]
      span_quoted_loop_len [OF quote_skips_tables(2)])

lemma quote_not_backslash: "CHR 0x27 \<noteq> backslash" "CHR 0x22 \<noteq> backslash"
  by (simp_all add: backslash_def)

text \<open>The spans of single and double quoted strings return the offset behind the first quote
  that is not escaped by a backslash, and nothing if there is none; NUL bytes are ordinary characters.\<close>

theorem span_quoted_string_exact:
  "(span_quoted_string_sq s offset = Some p \<longleftrightarrow>
      (\<exists>body rest. drop (offset + 1) s = body @ CHR 0x27 # rest \<and> quoted_body (CHR 0x27) body \<and>
         p = offset + length body + 2)) \<and>
   (span_quoted_string_dq s offset = Some p \<longleftrightarrow>
      (\<exists>body rest. drop (offset + 1) s = body @ CHR 0x22 # rest \<and> quoted_body (CHR 0x22) body \<and>
         p = offset + length body + 2))"
  unfolding span_quoted_string_len map_option_eq_Some quoted_len_iff [OF quote_not_backslash(1)]
    quoted_len_iff [OF quote_not_backslash(2)]
  by fastforce

text \<open>The body of a quoted identifier: quotes only in pairs.\<close>

fun doubled_body :: "char \<Rightarrow> string \<Rightarrow> bool" where
  "doubled_body q [] = True"
| "doubled_body q [c] \<longleftrightarrow> c \<noteq> q"
| "doubled_body q (c # d # cs) \<longleftrightarrow> (if c = q then d = q \<and> doubled_body q cs else doubled_body q (d # cs))"

fun doubled_len :: "char \<Rightarrow> string \<Rightarrow> nat option" where
  "doubled_len q [] = None"
| "doubled_len q (c # cs) =
     (if c = q then (if cs \<noteq> [] \<and> hd cs = q then map_option (\<lambda>n. n + 2) (doubled_len q (tl cs)) else Some 1)
      else map_option Suc (doubled_len q cs))"

lemma doubled_body_Cons: "c \<noteq> q \<Longrightarrow> doubled_body q (c # cs) \<longleftrightarrow> doubled_body q cs"
  by (cases cs) auto

lemma doubled_len_body:
  "doubled_body q body \<Longrightarrow> rest = [] \<or> hd rest \<noteq> q \<Longrightarrow>
     doubled_len q (body @ q # rest) = Some (length body + 1)"
  by (induction q body rule: doubled_body.induct) auto

lemma doubled_len_split:
  "doubled_len q s = Some n \<Longrightarrow>
     \<exists>body rest. s = body @ q # rest \<and> doubled_body q body \<and> (rest = [] \<or> hd rest \<noteq> q) \<and> n = length body + 1"
proof (induction q s arbitrary: n rule: doubled_len.induct)
  case (2 q c cs)
  show ?case
  proof (cases "c = q")
    case True
    show ?thesis
    proof (cases "cs \<noteq> [] \<and> hd cs = q")
      case dbl: True
      then obtain ds where cs: "cs = q # ds" by (cases cs) auto
      obtain m where m: "doubled_len q ds = Some m" "n = m + 2" using "2.prems" True dbl cs by auto
      from "2.IH"(1) [OF True dbl] m(1) cs obtain body rest where
        "ds = body @ q # rest" "doubled_body q body" "rest = [] \<or> hd rest \<noteq> q" "m = length body + 1"
        by fastforce
      then show ?thesis
        using True m(2) cs by (intro exI [of _ "q # q # body"] exI [of _ rest]) auto
    next
      case False
      then show ?thesis using "2.prems" True by (intro exI [of _ "[]"] exI [of _ cs]) auto
    qed
  next
    case False
    then obtain m where m: "doubled_len q cs = Some m" "n = Suc m" using "2.prems" by auto
    from "2.IH"(2) [OF False m(1)] obtain body rest where
      "cs = body @ q # rest" "doubled_body q body" "rest = [] \<or> hd rest \<noteq> q" "m = length body + 1" by blast
    then show ?thesis
      using False m(2) by (intro exI [of _ "c # body"] exI [of _ rest]) (simp add: doubled_body_Cons)
  qed
qed simp

lemma doubled_len_iff:
  "doubled_len q s = Some n \<longleftrightarrow>
     (\<exists>body rest. s = body @ q # rest \<and> doubled_body q body \<and> (rest = [] \<or> hd rest \<noteq> q) \<and> n = length body + 1)"
  using doubled_len_body doubled_len_split by blast

lemma doubled_len_append:
  "q \<notin> set a \<Longrightarrow> doubled_len q (a @ r) = map_option (\<lambda>n. length a + n) (doubled_len q r)"
  by (induction a) (auto intro!: option.map_cong simp: option.map_comp comp_def option.map_ident map_option_case
      split: option.splits)

lemma doubled_len_none: "q \<notin> set s \<Longrightarrow> doubled_len q s = None"
  by (induction s) auto

lemma span_doubled_loop_len:
  "span_doubled_loop q s p = map_option (\<lambda>n. p + n) (doubled_len q (drop p s))"
proof (induction q s p rule: span_doubled_loop.induct)
  case (1 q s p)
  show ?case
  proof (cases "find_char q s p")
    case None
    then have "q \<notin> set (drop p s)" by (auto simp: find_from_None_iff)
    then show ?thesis using None by (subst span_doubled_loop.simps) (simp add: doubled_len_none)
  next
    case (Some k)
    note b = find_from_bounds [OF Some] and sp = find_from_split [OF Some]
    have nq: "q \<notin> set (substr s p (k - p))" using sp(2) by auto
    have d: "doubled_len q (drop p s) = map_option (\<lambda>n. (k - p) + n) (doubled_len q (q # drop (Suc k) s))"
    proof -
      have "doubled_len q (drop p s) = doubled_len q (substr s p (k - p) @ s ! k # drop (Suc k) s)"
        by (rule arg_cong [OF sp(1)])
      moreover have "length (substr s p (k - p)) = k - p" "s ! k = q" using b by auto
      ultimately show ?thesis by (simp only: doubled_len_append [OF nq])
    qed
    show ?thesis
    proof (cases "k + 1 < length s \<and> s ! (k + 1) = q")
      case True
      then have "drop (Suc k) s = q # drop (k + 2) s" by (metis Cons_nth_drop_Suc Suc_eq_plus1 add_2_eq_Suc')
      then have "doubled_len q (q # drop (Suc k) s) = map_option (\<lambda>n. n + 2) (doubled_len q (drop (k + 2) s))"
        by simp
      then show ?thesis
        using True Some "1.IH" [OF Some True] b d
        by (subst span_doubled_loop.simps) (simp add: option.map_comp comp_def)
    next
      case False
      then have "drop (Suc k) s = [] \<or> hd (drop (Suc k) s) \<noteq> q"
        by (auto simp: hd_drop_conv_nth not_le)
      then have "doubled_len q (q # drop (Suc k) s) = Some 1" by simp
      then have "doubled_len q (drop p s) = Some (k - p + 1)" unfolding d by simp
      then show ?thesis using False Some b by (subst span_doubled_loop.simps) auto
    qed
  qed
qed

text \<open>The spans of quoted identifiers return the offset behind the first quote that is not part of a
  doubled quote, and nothing if there is none; a backslash has no meaning there.\<close>

theorem span_quoted_sql_identifier_exact:
  "(span_quoted_sql_identifier_bt s offset = Some p \<longleftrightarrow>
      (\<exists>body rest. drop (offset + 1) s = body @ CHR 0x60 # rest \<and> doubled_body (CHR 0x60) body \<and>
         (rest = [] \<or> hd rest \<noteq> CHR 0x60) \<and> p = offset + length body + 2)) \<and>
   (span_quoted_sql_identifier_dquote s offset = Some p \<longleftrightarrow>
      (\<exists>body rest. drop (offset + 1) s = body @ CHR 0x22 # rest \<and> doubled_body (CHR 0x22) body \<and>
         (rest = [] \<or> hd rest \<noteq> CHR 0x22) \<and> p = offset + length body + 2))"
  unfolding span_quoted_sql_identifier_bt_def span_quoted_sql_identifier_dquote_def
    span_doubled_loop_len map_option_eq_Some doubled_len_iff
  by fastforce

theorem span_quoted_sql_identifier_exact_witness:
  "span_quoted_sql_identifier_bt [CHR 0x60, CHR ''a'', CHR 0x60, CHR '' ''] 0 = Some 3"
proof -
  have "drop (0 + 1) [CHR 0x60, CHR ''a'', CHR 0x60, CHR '' ''] = [CHR ''a''] @ CHR 0x60 # [CHR '' ''] \<and>
      doubled_body (CHR 0x60) [CHR ''a''] \<and> ([CHR '' ''] = [] \<or> hd [CHR '' ''] \<noteq> CHR 0x60) \<and>
      3 = 0 + length [CHR ''a''] + 2"
    by simp
  then show ?thesis
    using span_quoted_sql_identifier_exact [of "[CHR 0x60, CHR ''a'', CHR 0x60, CHR '' '']" 0 3] by blast
qed

section \<open>Comments\<close>

lemma conditional_comment_loop_closed:
  "conditional_comment_loop s d offset = Inr (Some p) \<Longrightarrow>
     offset + 2 \<le> p \<and> p \<le> length s \<and> s ! (p - 2) = CHR ''*'' \<and> s ! (p - 1) = CHR ''/''"
proof (induction s d offset rule: conditional_comment_loop.induct)
  case (1 s d offset)
  have off: "offset < length s"
    using "1.prems" by (subst (asm) conditional_comment_loop.simps) (simp split: if_splits)
  obtain r where r: "conditional_comment_step s d offset = Inr r"
    using "1.prems" off by (subst (asm) conditional_comment_loop.simps) auto
  note b = conditional_comment_step_bounds [OF off r] and IH = "1.IH" [OF off r]
  show ?case
  proof (cases r)
    case (Closed q)
    then show ?thesis using "1.prems" off r b by (subst (asm) conditional_comment_loop.simps) auto
  next
    case (Next q)
    show ?thesis
    proof (cases q)
      case None
      then show ?thesis using "1.prems" off r Next by (subst (asm) conditional_comment_loop.simps) simp
    next
      case (Some k)
      have "conditional_comment_loop s d k = Inr (Some p)"
        using "1.prems" off r Next Some by (subst (asm) conditional_comment_loop.simps) simp
      then show ?thesis using IH Next Some b by fastforce
    qed
  qed
qed

lemma conditional_comment_step_ascii:
  assumes "\<forall>c \<in> set s. ord c < 128" "offset < length s"
  shows "conditional_comment_step s d offset \<noteq> Inl (Undefined m)"
proof -
  have "ord (s ! offset) < 128" using assms by simp
  then show ?thesis
    unfolding conditional_comment_step_def Let_def is_start_of_unquoted_identifier_def
      span_dollar_quoted_string_or_dollar_identifier_def
    by (auto simp: rbind_def split: sum.split option.split)
qed

lemma conditional_comment_loop_ascii:
  "\<forall>c \<in> set s. ord c < 128 \<Longrightarrow> conditional_comment_loop s d offset \<noteq> Inl (Undefined m)"
proof (induction s d offset rule: conditional_comment_loop.induct)
  case (1 s d offset)
  show ?case
    using 1 conditional_comment_step_ascii [OF "1.prems", of offset d m]
    by (subst conditional_comment_loop.simps)
      (auto simp: rbind_def split: sum.split comment_step.split option.split)
qed

text \<open>A comment that is recognised ends inside the text, with a star and a slash, at least four
  characters after its start; and on plain ASCII text no lookup leaves its table.\<close>

theorem span_cstyle_sql_comment_closed:
  "(span_cstyle_sql_comment s offset d = Inr (Some p) \<longrightarrow>
      offset + 4 \<le> p \<and> p \<le> length s \<and> s ! (p - 2) = CHR ''*'' \<and> s ! (p - 1) = CHR ''/'') \<and>
   ((\<forall>c \<in> set s. ord c < 128) \<longrightarrow> span_cstyle_sql_comment s offset d \<noteq> Inl (Undefined m))"
proof -
  have plain: "s ! (p - 2) = CHR ''*'' \<and> s ! (p - 1) = CHR ''/''"
    if c: "span_cstyle_comment s offset = Some p"
  proof -
    obtain k where k: "find_sub_from ''*/'' s (offset + 2) = Some k" "p = k + 2"
      using c by (auto simp: span_cstyle_comment_def split: if_splits option.splits)
    then obtain r where "drop k s = CHR ''*'' # CHR ''/'' # r"
      using find_sub_from_bounds(3) by (force simp: prefix_def)
    then have "s ! k = CHR ''*''" "s ! Suc k = CHR ''/''"
      by (metis (no_types) add.right_neutral drop_eq_Nil linorder_not_le list.distinct(1) nth_Cons_0 nth_drop nat_less_le nle_le,
          metis (no_types) add_Suc_right add.right_neutral drop_eq_Nil linorder_not_le list.distinct(1) nth_Cons_0 nth_Cons_Suc nth_drop nat_less_le nle_le)
    then show ?thesis using k(2) by simp
  qed
  show ?thesis
    using plain span_cstyle_comment_bounds [of s offset p] conditional_comment_loop_closed [of s d "offset + 3" p]
      conditional_comment_loop_ascii [of s d "offset + 3" m]
    by (auto simp: span_cstyle_sql_comment_def split: if_splits)
qed

theorem span_cstyle_sql_comment_closed_witness:
  "span_cstyle_sql_comment ''/* a */ b'' 0 True = Inr (Some 7) \<and> (''/* a */ b'' ! 6 = CHR ''/'')"
proof -
  have "span_cstyle_sql_comment ''/* a */ b'' 0 True = Inr (Some 7)"
    by (simp add: span_cstyle_sql_comment_def span_cstyle_comment_def find_sub_from_def)
  then show ?thesis
    using span_cstyle_sql_comment_closed [of "''/* a */ b''" 0 True 7] by simp
qed

text \<open>A conditional comment with a byte outside of ASCII makes the lookup of
  \<open>is_start_of_unquoted_identifier\<close> read before the start of its table.\<close>

theorem span_cstyle_sql_comment_high_byte:
  "span_cstyle_sql_comment (''/*! '' @ [CHR 0xC3, CHR 0xA9] @ '' */'') 0 True =
     Inl (Undefined ''k_dollar_quoted_string_span_chars: negative index'')"
proof -
  let ?s = "''/*! '' @ [CHR 0xC3, CHR 0xA9] @ '' */''"
  have "conditional_comment_loop ?s True 4 = Inl (Undefined ''k_dollar_quoted_string_span_chars: negative index'')"
    by (subst conditional_comment_loop.simps)
      (simp add: conditional_comment_step_def is_start_of_unquoted_identifier_def Let_def)
  moreover have "k_dollar_quoted_string_span_chars ! 32 = 0"
    by (simp add: k_dollar_quoted_string_span_chars_def)
  then have "conditional_comment_loop ?s True 3 = conditional_comment_loop ?s True 4"
    by (subst conditional_comment_loop.simps)
      (simp add: conditional_comment_step_def is_start_of_unquoted_identifier_def Let_def ctype_simps)
  ultimately show ?thesis by (simp add: span_cstyle_sql_comment_def)
qed

end
