(* ===== verification/Sql_Iterator.thy ===== *)
theory Sql_Iterator
  imports Lexing
begin

text \<open>
  Model of class \<^verbatim>\<open>SQL_iterator\<close> (\<^verbatim>\<open>mysqlshdk/libs/utils/utils_lexing.{h,cc}\<close>), which walks over the
  characters of a SQL text and skips comments and quoted strings, and of its tokenizer. The offset is the
  64-bit \<^verbatim>\<open>size_t\<close> of the source, with \<^verbatim>\<open>npos\<close> as its largest value; reading a character past the end is
  an \<open>Undefined\<close> error.

  The theorems: every increment moves forward and stays within the text, it stops only where no skipped
  construct begins, and the tokenizer ends, with tokens that are pieces of the text.
\<close>

definition npos :: nat where
  "npos = 2 ^ 64 - 1"

record sql_iterator =
  m_s :: string
  m_offset :: nat
  m_skip_quoted :: bool
  m_dollar_quotes :: bool
  m_comment_hint :: bool

definition valid :: "sql_iterator \<Rightarrow> bool" where
  "valid it \<longleftrightarrow> m_offset it < length (m_s it)"

definition get_char :: "sql_iterator \<Rightarrow> char" where
  "get_char it = m_s it ! m_offset it"

definition or_npos :: "nat option \<Rightarrow> nat" where
  "or_npos p = (case p of None \<Rightarrow> npos | Some q \<Rightarrow> q)"

text \<open>\<^verbatim>\<open>while (std::isdigit(m_s[m_offset])) ++m_offset;\<close> without a check for the end of the text.\<close>

definition skip_digits :: "string \<Rightarrow> nat \<Rightarrow> nat result" where
  "skip_digits s offset =
     (let n = offset + length (takeWhile isdigit (drop offset s))
      in if n < length s then Inr n else Inl (Undefined ''SQL_iterator: read past the end''))"

text \<open>One turn of the loop of \<^verbatim>\<open>operator++\<close>: the flag \<^verbatim>\<open>incremented\<close> and the iterator.\<close>

definition iter_step :: "sql_iterator \<Rightarrow> (bool \<times> sql_iterator) result" where
  "iter_step it =
     (let s = m_s it; off = m_offset it; len = length s; c = s ! off;
          skip_to = (\<lambda>p. (False, it\<lparr>m_offset := (case p of None \<Rightarrow> len | Some q \<Rightarrow> q)\<rparr>))
      in if c = CHR 0x27 then
           Inr (if m_skip_quoted it then skip_to (span_quoted_string_sq s off) else (True, it))
         else if c = CHR 0x22 then
           Inr (if m_skip_quoted it then skip_to (span_quoted_string_dq s off) else (True, it))
         else if c = CHR 0x60 then
           Inr (if m_skip_quoted it then skip_to (span_quoted_sql_identifier_bt s off) else (True, it))
         else if c = CHR ''/'' then
           (if off + 1 < len \<and> s ! (off + 1) = CHR ''*'' then
              (if off + 2 < len \<and> (s ! (off + 2) = CHR ''!'' \<or> s ! (off + 2) = CHR ''+'')
               then rbind (skip_digits s (off + 3)) (\<lambda>p.
                      Inr (False, it\<lparr>m_comment_hint := True, m_offset := p\<rparr>))
               else Inr (skip_to (span_cstyle_comment s off)))
            else Inr (True, it))
         else if c = CHR ''*'' then
           (if m_comment_hint it \<and> off + 1 < len \<and> s ! (off + 1) = CHR ''/''
            then Inr (False, it\<lparr>m_offset := off + 2, m_comment_hint := False\<rparr>)
            else Inr (True, it))
         else if c = CHR 0x23 then Inr (skip_to (Some (span_to_eol s (off + 1))))
         else if c = CHR ''-'' then
           (if off + 2 < len \<and> s ! (off + 1) = CHR ''-'' \<and> isspace (s ! (off + 2))
            then Inr (skip_to (Some (span_to_eol s (off + 2))))
            else Inr (True, it))
         else if c = CHR ''$'' then
           (if m_dollar_quotes it
            then rbind (span_dollar_quoted_string_or_dollar_identifier s off) (\<lambda>p.
                   Inr (if s ! (p - 1) = CHR ''$'' \<and> p > off \<and> m_skip_quoted it
                        then skip_to (Some p) else (True, it)))
            else Inr (True, it))
         else Inr (True, it))"

text \<open>What a turn that has not incremented does: it moves forward, in the same text.\<close>

lemma skip_digits_bounds: "skip_digits s k = Inr p \<Longrightarrow> k \<le> p \<and> p < length s"
  by (auto simp: skip_digits_def Let_def split: if_splits)

lemma span_to_eol_next:
  "off < length s \<Longrightarrow> off < span_to_eol s (off + 1) \<and> span_to_eol s (off + 1) \<le> length s"
  "off + 2 < length s \<Longrightarrow> off < span_to_eol s (off + 2) \<and> span_to_eol s (off + 2) \<le> length s"
  using span_to_eol_bounds [of "off + 1" s] span_to_eol_bounds [of "off + 2" s] by auto

lemma skip_option_bounds:
  assumes "\<And>q. p = Some q \<Longrightarrow> off < q \<and> q \<le> n" "off < (n :: nat)"
  shows "off < (case p of None \<Rightarrow> n | Some q \<Rightarrow> q) \<and> (case p of None \<Rightarrow> n | Some q \<Rightarrow> q) \<le> n"
  using assms by (cases p) auto

lemma iter_step_progress:
  assumes "valid it" "iter_step it = Inr (inc, it')"
  shows "m_s it' = m_s it \<and> m_skip_quoted it' = m_skip_quoted it \<and> m_dollar_quotes it' = m_dollar_quotes it \<and>
    (if inc then it' = it else m_offset it < m_offset it' \<and> m_offset it' \<le> length (m_s it))"
proof -
  let ?s = "m_s it" and ?off = "m_offset it"
  have off: "?off < length ?s" using assms(1) by (simp add: valid_def)
  note q = skip_option_bounds [of "span_quoted_string_sq ?s ?off", OF span_quoted_bounds(1) off]
    skip_option_bounds [of "span_quoted_string_dq ?s ?off", OF span_quoted_bounds(2) off]
    skip_option_bounds [of "span_quoted_sql_identifier_bt ?s ?off", OF span_quoted_bounds(3) off]
  have c: "?off < (case span_cstyle_comment ?s ?off of None \<Rightarrow> length ?s | Some q \<Rightarrow> q) \<and>
      (case span_cstyle_comment ?s ?off of None \<Rightarrow> length ?s | Some q \<Rightarrow> q) \<le> length ?s"
    using span_cstyle_comment_bounds off by (intro skip_option_bounds) fastforce+
  note step = assms(2) [unfolded iter_step_def Let_def]
  consider "?s ! ?off = CHR 0x27" | "?s ! ?off = CHR 0x22" | "?s ! ?off = CHR 0x60" | "?s ! ?off = CHR ''/''"
    | "?s ! ?off = CHR ''*''" | "?s ! ?off = CHR 0x23" | "?s ! ?off = CHR ''-''" | "?s ! ?off = CHR ''$''"
    | "?s ! ?off \<notin> {CHR 0x27, CHR 0x22, CHR 0x60, CHR ''/'', CHR ''*'', CHR 0x23, CHR ''-'', CHR ''$''}"
    by blast
  then show ?thesis
  proof cases
    case 1
    show ?thesis using step q(1) unfolding 1 by (auto split: if_splits)
  next
    case 2
    show ?thesis using step q(2) unfolding 2 by (auto split: if_splits)
  next
    case 3
    show ?thesis using step q(3) unfolding 3 by (auto split: if_splits)
  next
    case 4
    show ?thesis
      using step c off unfolding 4 by (auto dest!: skip_digits_bounds split: if_splits)
  next
    case 5
    show ?thesis using step off unfolding 5 by (auto split: if_splits)
  next
    case 6
    show ?thesis using step span_to_eol_next(1) [OF off] unfolding 6 by auto
  next
    case 7
    show ?thesis using step span_to_eol_next(2) [of ?off ?s] unfolding 7 by (auto split: if_splits)
  next
    case 8
    show ?thesis
      using step unfolding 8 by (auto dest!: span_dollar_bounds [OF _ off] split: if_splits)
  next
    case 9
    then show ?thesis using step by simp
  qed
qed

section \<open>Increment and construction\<close>

function iter_settle :: "sql_iterator \<Rightarrow> sql_iterator result" where
  "iter_settle it =
     (if valid it then
        rbind (iter_step it) (\<lambda>(incremented, it').
          if incremented then Inr it' else iter_settle it')
      else Inr it)"
  by pat_completeness auto
termination
  by (relation "measure (\<lambda>it. length (m_s it) - m_offset it)")
    (auto dest!: iter_step_progress)

declare iter_settle.simps [simp del]

definition iter_incr :: "sql_iterator \<Rightarrow> sql_iterator result" where
  "iter_incr it =
     (let off = (m_offset it + 1) mod 2 ^ 64
      in if off > length (m_s it)
         then Inl (Out_of_range ''SQL_string_iterator offset out of range'')
         else iter_settle (it\<lparr>m_offset := off\<rparr>))"

definition SQL_iterator :: "string \<Rightarrow> nat \<Rightarrow> bool \<Rightarrow> bool \<Rightarrow> sql_iterator result" where
  "SQL_iterator str offset skip_quoted dollar_quotes =
     iter_incr \<lparr>m_s = str, m_offset = (offset + 2 ^ 64 - 1) mod 2 ^ 64, m_skip_quoted = skip_quoted,
                m_dollar_quotes = dollar_quotes, m_comment_hint = False\<rparr>"

text \<open>A position where an increment may stop: the end, or a character at which nothing that is skipped
  begins.\<close>

definition settled :: "sql_iterator \<Rightarrow> bool" where
  "settled it \<longleftrightarrow> \<not> valid it \<or> iter_step it = Inr (True, it)"

lemma iter_settle_settled:
  "m_offset it \<le> length (m_s it) \<Longrightarrow> iter_settle it = Inr it' \<Longrightarrow>
     m_s it' = m_s it \<and> m_skip_quoted it' = m_skip_quoted it \<and> m_dollar_quotes it' = m_dollar_quotes it \<and>
     m_offset it \<le> m_offset it' \<and> m_offset it' \<le> length (m_s it) \<and> settled it'"
proof (induction it rule: iter_settle.induct)
  case (1 it)
  show ?case
  proof (cases "valid it")
    case False
    then show ?thesis using "1.prems" by (subst (asm) iter_settle.simps) (simp add: settled_def)
  next
    case True
    then obtain inc it1 where s: "iter_step it = Inr (inc, it1)"
      using "1.prems" by (subst (asm) iter_settle.simps) auto
    note p = iter_step_progress [OF True s]
    show ?thesis
    proof (cases inc)
      case inc: True
      then show ?thesis
        using "1.prems" True s p by (subst (asm) iter_settle.simps) (simp add: settled_def)
    next
      case False
      have "iter_settle it1 = Inr it'"
        using "1.prems" True s False by (subst (asm) iter_settle.simps) simp
      then show ?thesis using "1.IH" [OF True s refl False] p False by simp
    qed
  qed
qed

lemma iter_incr_progress:
  assumes "iter_incr it = Inr it'" "m_offset it < length (m_s it)" "length (m_s it) < npos"
  shows "m_s it' = m_s it \<and> m_skip_quoted it' = m_skip_quoted it \<and> m_dollar_quotes it' = m_dollar_quotes it \<and>
    m_offset it < m_offset it' \<and> m_offset it' \<le> length (m_s it) \<and> settled it'"
proof -
  have off: "(m_offset it + 1) mod 2 ^ 64 = m_offset it + 1" using assms(2,3) by (simp add: npos_def)
  have "iter_settle (it\<lparr>m_offset := m_offset it + 1\<rparr>) = Inr it'"
    using assms(1) unfolding iter_incr_def Let_def off by (simp split: if_splits)
  then show ?thesis using iter_settle_settled [of "it\<lparr>m_offset := m_offset it + 1\<rparr>" it'] assms(2) by auto
qed

lemma settled_quotes:
  assumes "settled it" "valid it" "m_skip_quoted it"
  shows "get_char it \<notin> {CHR 0x27, CHR 0x22, CHR 0x60}"
  using assms by (auto simp: settled_def iter_step_def Let_def get_char_def)

lemma skip_to_neq:
  "off < length s \<Longrightarrow> span_cstyle_comment s off = p \<Longrightarrow> (case p of None \<Rightarrow> length s | Some q \<Rightarrow> q) \<noteq> off"
  using span_cstyle_comment_bounds [of s off] by (cases p) fastforce+

lemma settled_comments:
  assumes "settled it" "valid it"
  shows "get_char it \<noteq> CHR 0x23 \<and> \<not> prefix ''/*'' (drop (m_offset it) (m_s it))"
proof -
  let ?s = "m_s it" and ?off = "m_offset it"
  have off: "?off < length ?s" using assms(2) by (simp add: valid_def)
  have step: "iter_step it = Inr (True, it)" using assms by (simp add: settled_def)
  have "\<not> (?s ! ?off = CHR ''/'' \<and> ?off + 1 < length ?s \<and> ?s ! (?off + 1) = CHR ''*'')"
    using step by (auto simp: iter_step_def Let_def split: if_splits)
  moreover have "prefix ''/*'' (drop ?off ?s) \<longleftrightarrow>
      ?s ! ?off = CHR ''/'' \<and> ?off + 1 < length ?s \<and> ?s ! (?off + 1) = CHR ''*''"
  proof -
    have "drop ?off ?s = ?s ! ?off # drop (Suc ?off) ?s" using off by (simp add: Cons_nth_drop_Suc)
    then show ?thesis
      by (cases "Suc ?off < length ?s") (auto simp: Cons_nth_drop_Suc [symmetric])
  qed
  moreover have "get_char it \<noteq> CHR 0x23"
    using step by (auto simp: iter_step_def Let_def get_char_def)
  ultimately show ?thesis by blast
qed

text \<open>A comment starts at a position: a hash sign, two dashes and a white space, or a slash and a star.\<close>

definition comment_at :: "string \<Rightarrow> nat \<Rightarrow> bool" where
  "comment_at s off \<longleftrightarrow> prefix [CHR 0x23] (drop off s) \<or> prefix ''/*'' (drop off s) \<or>
     prefix ''--'' (drop off s) \<and> off + 2 < length s \<and> isspace (s ! (off + 2))"

text \<open>Quoted text starts at a position: one of the three quotes, or a dollar quote that is closed again.\<close>

definition dollar_text_at :: "string \<Rightarrow> nat \<Rightarrow> bool" where
  "dollar_text_at s off \<longleftrightarrow> (\<exists>tag body. is_dollar_quote_tag tag \<and> CHR ''$'' \<notin> set tag \<and>
     prefix (''$'' @ tag @ ''$'' @ body @ ''$'' @ tag @ ''$'') (drop off s))"

lemma prefix_two: "off < length s \<Longrightarrow> prefix [a, b] (drop off s) \<longleftrightarrow> s ! off = a \<and> off + 1 < length s \<and> s ! (off + 1) = b"
  by (cases "Suc off < length s") (auto simp: Cons_nth_drop_Suc [symmetric])

lemma settled_no_comment:
  assumes "settled it" "valid it"
  shows "\<not> comment_at (m_s it) (m_offset it)"
proof -
  have off: "m_offset it < length (m_s it)" using assms(2) by (simp add: valid_def)
  have step: "iter_step it = Inr (True, it)" using assms by (simp add: settled_def)
  have "\<not> prefix [CHR 0x23] (drop (m_offset it) (m_s it))"
    using settled_comments [OF assms] off by (auto simp: get_char_def Cons_nth_drop_Suc [symmetric])
  moreover have "\<not> (prefix ''--'' (drop (m_offset it) (m_s it)) \<and> m_offset it + 2 < length (m_s it) \<and> isspace (m_s it ! (m_offset it + 2)))"
    using step off by (auto simp: prefix_two iter_step_def Let_def)
  ultimately show ?thesis using settled_comments [OF assms] by (simp add: comment_at_def)
qed

lemma dollar_text_span:
  assumes "dollar_text_at s off"
  obtains p where "span_dollar_quoted_string_or_dollar_identifier s off = Inr p" "off < p" "p \<le> length s" "s ! (p - 1) = CHR ''$''" "s ! off = CHR ''$''"
proof -
  obtain tag body t where tag: "is_dollar_quote_tag tag" "CHR ''$'' \<notin> set tag"
    and s: "drop off s = ''$'' @ tag @ ''$'' @ body @ ''$'' @ tag @ ''$'' @ t"
    using assms by (auto simp: dollar_text_at_def prefix_def)
  define q where "q = ''$'' @ tag @ ''$''"
  have d: "drop off s = q @ body @ q @ t" using s by (simp add: q_def)
  have off: "off < length s" using s by (cases "off < length s") auto
  have first: "s ! off = CHR ''$''" using s off by (simp add: Cons_nth_drop_Suc [symmetric])
  have "drop (off + 1) s = tag @ CHR ''$'' # body @ q @ t" using s by (simp add: Cons_nth_drop_Suc [symmetric, OF off] q_def)
  then have f: "find_char (CHR ''$'') s (off + 1) = Some (off + 1 + length tag)"
    using off tag(2) find_char_first [OF tag(2), of "body @ q @ t"] by (simp add: find_from_def)
  have t: "substr s off (off + 1 + length tag + 1 - off) = q" "substr q 1 (length q - 2) = tag"
    unfolding d by (simp_all add: q_def)
  have "drop (off + length q) s = body @ q @ t" using arg_cong [OF d, of "drop (length q)"] by (simp add: add.commute)
  moreover have "off + length q \<le> length s" using arg_cong [OF d, of length] off by simp
  moreover have "find_sub q (body @ q @ t) \<noteq> None"
    unfolding find_sub_None_iff by (auto intro: exI [of _ "length body"])
  ultimately obtain e where e: "find_sub_from q s (off + length q) = Some e" by (auto simp: find_sub_from_def)
  then have b: "off + length q \<le> e" "e + length q \<le> length s" "prefix q (drop e s)" using find_sub_from_bounds [OF e] by auto
  have "s ! (e + length q - 1) = drop e s ! (length q - 1)" using b(2) by (simp add: q_def)
  also have "\<dots> = CHR ''$''" using b(3) by (auto simp: prefix_def q_def nth_append)
  finally have l: "s ! (e + length q - 1) = CHR ''$''" .
  have "span_dollar_quoted_string_or_dollar_identifier s off = Inr (e + length q)"
    using f t e tag(1) by (simp add: span_dollar_quoted_string_or_dollar_identifier_def Let_def)
  then show thesis using that b l first by (simp add: q_def)
qed

lemma settled_dollar:
  assumes "settled it" "valid it" "m_skip_quoted it" "m_dollar_quotes it"
  shows "\<not> dollar_text_at (m_s it) (m_offset it)"
proof
  assume "dollar_text_at (m_s it) (m_offset it)"
  then obtain p where "span_dollar_quoted_string_or_dollar_identifier (m_s it) (m_offset it) = Inr p" "m_offset it < p"
    "m_s it ! (p - 1) = CHR ''$''" "m_s it ! m_offset it = CHR ''$''" by (rule dollar_text_span)
  then have "iter_step it = Inr (False, it\<lparr>m_offset := p\<rparr>)" using assms(3,4) by (simp add: iter_step_def Let_def)
  then show False using assms(1,2) by (simp add: settled_def)
qed

lemma settled_hint:
  assumes "settled it" "valid it" "m_comment_hint it"
  shows "\<not> prefix ''*/'' (drop (m_offset it) (m_s it))"
proof -
  have "m_offset it < length (m_s it)" using assms(2) by (simp add: valid_def)
  then show ?thesis using assms by (auto simp: settled_def prefix_two iter_step_def Let_def)
qed

text \<open>C34: incrementing an iterator inside its text either reports an error or moves it strictly
  forward, at most to the end. Where it stops there starts no comment of any of the three kinds, and the end of a conditional comment
  is not taken for code; when quoted text is skipped, no quoted string or identifier starts there, nor, where dollar quotes are enabled, a text in dollar quotes.\<close>

theorem sql_iterator_increment:
  assumes "valid it" "length (m_s it) < npos" "iter_incr it = Inr it'"
  shows "m_s it' = m_s it \<and> m_offset it < m_offset it' \<and> m_offset it' \<le> length (m_s it) \<and>
    (valid it' \<longrightarrow>
       \<not> comment_at (m_s it') (m_offset it') \<and>
       \<not> (m_comment_hint it' \<and> prefix ''*/'' (drop (m_offset it') (m_s it'))) \<and>
       (m_skip_quoted it' \<longrightarrow> get_char it' \<notin> {CHR 0x27, CHR 0x22, CHR 0x60} \<and>
          (m_dollar_quotes it' \<longrightarrow> \<not> dollar_text_at (m_s it') (m_offset it'))))"
  using iter_incr_progress [OF assms(3) _ assms(2)] assms(1) settled_no_comment [of it'] settled_quotes [of it'] settled_hint [of it'] settled_dollar [of it']
  by (simp add: valid_def)


lemma sql_char_simps [simp]: "isspace (CHR '' '')" "\<not> isspace (CHR ''a'')" "\<not> isspace (CHR ''b'')"
  by (simp_all add: isspace_def)

theorem sql_iterator_increment_witness:
  "iter_incr \<lparr>m_s = ''a/*x*/b'', m_offset = 0, m_skip_quoted = True, m_dollar_quotes = True,
     m_comment_hint = False\<rparr> =
   Inr \<lparr>m_s = ''a/*x*/b'', m_offset = 6, m_skip_quoted = True, m_dollar_quotes = True,
     m_comment_hint = False\<rparr> \<and> \<not> comment_at ''a/*x*/b'' 6"
proof -
  let ?it = "\<lambda>n. \<lparr>m_s = ''a/*x*/b'', m_offset = n, m_skip_quoted = True, m_dollar_quotes = True,
     m_comment_hint = False\<rparr>"
  have "iter_settle (?it 6) = Inr (?it 6)"
    by (subst iter_settle.simps) (simp add: valid_def iter_step_def Let_def)
  moreover have "iter_settle (?it 1) = iter_settle (?it 6)"
    by (subst iter_settle.simps)
      (simp add: valid_def iter_step_def Let_def span_cstyle_comment_def find_sub_from_def
        numeral_eq_Suc)
  ultimately have i: "iter_incr (?it 0) = Inr (?it 6)" by (simp add: iter_incr_def)
  have "length ''a/*x*/b'' < npos" by (simp add: npos_def)
  then show ?thesis
    using i sql_iterator_increment [of "?it 0" "?it 6"] by (simp add: valid_def get_char_def)
qed

section \<open>Tokens\<close>

text \<open>\<^verbatim>\<open>while (valid() && std::isspace(get_char())) ++(*this);\<close> The texts are shorter than \<^verbatim>\<open>npos\<close>, so that an
  increment inside the text does not wrap around.\<close>

function skip_space :: "sql_iterator \<Rightarrow> sql_iterator result" where
  "skip_space it =
     (if length (m_s it) < npos \<and> valid it \<and> isspace (get_char it)
      then rbind (iter_incr it) skip_space else Inr it)"
  by pat_completeness auto
termination
  by (relation "measure (\<lambda>it. length (m_s it) - m_offset it)")
    (auto simp: valid_def dest!: iter_incr_progress)

declare skip_space.simps [simp del]

datatype token_step =
    Tok_return sql_iterator
  | Tok_break
  | Tok_continue sql_iterator

text \<open>The \<^verbatim>\<open>switch\<close> in the loop of \<^verbatim>\<open>next_token_and_offset\<close>.\<close>

definition token_step :: "nat \<Rightarrow> sql_iterator \<Rightarrow> nat \<Rightarrow> token_step" where
  "token_step start it previous =
     (let c = get_char it
      in if c \<in> set '',;()=@'' then Tok_break
         else if c = CHR 0x27 \<or> c = CHR 0x22 then
           (if \<not> m_skip_quoted it then Tok_break else Tok_continue it)
         else if c = CHR 0x60 then
           (if \<not> m_skip_quoted it then
              (if m_offset it = start \<or> m_s it ! (m_offset it - 1) = CHR ''.'' then
                 let it' = it\<lparr>m_offset := or_npos (span_quoted_sql_identifier_bt (m_s it) (m_offset it))\<rparr>
                 in if \<not> valid it' \<or> get_char it' \<noteq> CHR ''.'' then Tok_return it' else Tok_continue it'
               else Tok_break)
            else Tok_continue it)
         else if isspace c \<or> m_offset it - previous > 1 then Tok_break
         else Tok_continue it)"

lemma token_step_continue:
  assumes "valid it" "length (m_s it) < npos" "token_step start it previous = Tok_continue it'"
  shows "m_s it' = m_s it \<and> valid it' \<and> m_offset it \<le> m_offset it' \<and> m_skip_quoted it' = m_skip_quoted it \<and>
    m_dollar_quotes it' = m_dollar_quotes it"
  using assms span_quoted_bounds(3) [of "m_s it" "m_offset it"]
  by (auto simp: token_step_def Let_def or_npos_def valid_def less_imp_le split: if_splits option.splits)

text \<open>The \<^verbatim>\<open>do\<close> loop: the iterator behind it, \<^verbatim>\<open>previous\<close>, and whether the function returned from inside.\<close>

function token_loop :: "nat \<Rightarrow> sql_iterator \<Rightarrow> nat \<Rightarrow> (sql_iterator \<times> nat \<times> bool) result" where
  "token_loop start it previous =
     (if \<not> (valid it \<and> length (m_s it) < npos) then Inr (it, previous, False)
      else case token_step start it previous of
        Tok_return it' \<Rightarrow> Inr (it', previous, True)
      | Tok_break \<Rightarrow> Inr (it, previous, False)
      | Tok_continue it' \<Rightarrow>
          if get_char it = CHR '':''
          then rbind (iter_incr it') (\<lambda>it2. Inr (it2, m_offset it', False))
          else rbind (iter_incr it') (\<lambda>it2. token_loop start it2 (m_offset it')))"
  by pat_completeness auto
termination
proof (relation "measure (\<lambda>(_, it, _). length (m_s it) - m_offset it)")
  fix start it previous it' it2
  assume "\<not> \<not> (valid it \<and> length (m_s it) < npos)" "token_step start it previous = Tok_continue it'"
    and "iter_incr it' = Inr it2"
  then show "((start, it2, m_offset it'), (start, it, previous)) \<in>
      measure (\<lambda>(_, it, _). length (m_s it) - m_offset it)"
    using token_step_continue [of it start previous it'] iter_incr_progress [of it' it2] by (auto simp: valid_def)
qed auto

declare token_loop.simps [simp del]

definition next_token_and_offset :: "sql_iterator \<Rightarrow> ((string \<times> nat) \<times> sql_iterator) result" where
  "next_token_and_offset it0 =
     rbind (skip_space it0) (\<lambda>it.
       let s = m_s it; start = m_offset it;
           upto = (\<lambda>p. ((take (p - start) (drop start s), start), it\<lparr>m_offset := p\<rparr>))
       in if \<not> valid it then Inr (([], start), it)
          else if \<not> m_skip_quoted it \<and> get_char it = CHR 0x27
          then Inr (upto (or_npos (span_quoted_string_sq s start)))
          else if \<not> m_skip_quoted it \<and> get_char it = CHR 0x22
          then Inr (upto (or_npos (span_quoted_string_dq s start)))
          else if \<not> m_skip_quoted it \<and> get_char it = CHR ''$'' \<and> m_dollar_quotes it
          then rbind (span_dollar_quoted_string_or_dollar_identifier s start) (\<lambda>tmp. Inr (upto tmp))
          else rbind (token_loop start it start) (\<lambda>(it', previous, returned).
            if returned then Inr ((take (m_offset it' - start) (drop start s), start), it')
            else rbind (if m_offset it' = start then iter_incr it' else Inr it') (\<lambda>it''.
              Inr ((take (previous + 1 - start) (drop start s), start), it''))))"

definition next_token :: "sql_iterator \<Rightarrow> (string \<times> sql_iterator) result" where
  "next_token it = rbind (next_token_and_offset it) (\<lambda>((tok, _), it'). Inr (tok, it'))"

section \<open>Progress of the tokenizer\<close>

abbreviation same_text :: "sql_iterator \<Rightarrow> sql_iterator \<Rightarrow> bool" where
  "same_text it it' \<equiv> m_s it' = m_s it \<and> m_skip_quoted it' = m_skip_quoted it \<and>
     m_dollar_quotes it' = m_dollar_quotes it"

lemma skip_space_progress:
  "skip_space it = Inr it' \<Longrightarrow> length (m_s it) < npos \<Longrightarrow>
     same_text it it' \<and> m_offset it \<le> m_offset it' \<and> (valid it' \<longrightarrow> \<not> isspace (get_char it'))"
proof (induction it rule: skip_space.induct)
  case (1 it)
  show ?case
  proof (cases "valid it \<and> isspace (get_char it)")
    case True
    then obtain it1 where i: "iter_incr it = Inr it1" "skip_space it1 = Inr it'"
      using "1.prems" by (subst (asm) skip_space.simps) auto
    have p: "same_text it it1" "m_offset it < m_offset it1"
      using iter_incr_progress [OF i(1)] True "1.prems"(2) by (auto simp: valid_def)
    show ?thesis using "1.IH" [OF _ i(1) i(2)] True "1.prems"(2) p by auto
  next
    case False
    then show ?thesis using "1.prems" by (subst (asm) skip_space.simps) (auto split: if_splits)
  qed
qed

lemma token_loop_progress:
  "token_loop start it previous = Inr (it', previous', returned) \<Longrightarrow> valid it \<Longrightarrow> length (m_s it) < npos \<Longrightarrow>
     start \<le> m_offset it \<Longrightarrow> start \<le> previous \<Longrightarrow>
     same_text it it' \<and> m_offset it \<le> m_offset it' \<and> start \<le> previous' \<and>
     (returned \<longrightarrow> m_offset it < m_offset it')"
proof (induction start it previous rule: token_loop.induct)
  case (1 start it previous)
  have g: "\<not> \<not> (valid it \<and> length (m_s it) < npos)" using "1.prems" by simp
  show ?case
  proof (cases "token_step start it previous")
    case (Tok_return it1)
    have "m_offset it < m_offset it1 \<and> same_text it it1"
      using Tok_return "1.prems"(2,3) span_quoted_bounds(3) [of "m_s it" "m_offset it"]
      by (auto simp: token_step_def Let_def or_npos_def valid_def split: if_splits option.splits)
    then show ?thesis
      using "1.prems" Tok_return by (subst (asm) token_loop.simps) (auto split: if_splits)
  next
    case Tok_break
    then show ?thesis using "1.prems" by (subst (asm) token_loop.simps) (auto split: if_splits)
  next
    case (Tok_continue it1)
    note c = token_step_continue [OF "1.prems"(2,3) Tok_continue]
    obtain it2 where i: "iter_incr it1 = Inr it2"
      using "1.prems" Tok_continue by (subst (asm) token_loop.simps) (auto split: if_splits)
    have p: "same_text it it2" "m_offset it1 < m_offset it2"
      using iter_incr_progress [OF i] c "1.prems"(3) by (auto simp: valid_def)
    show ?thesis
    proof (cases "get_char it = CHR '':''")
      case True
      then show ?thesis
        using "1.prems" Tok_continue i p c by (subst (asm) token_loop.simps) (auto split: if_splits)
    next
      case False
      then have l: "token_loop start it2 (m_offset it1) = Inr (it', previous', returned)"
        using "1.prems" Tok_continue i by (subst (asm) token_loop.simps) (auto split: if_splits)
      show ?thesis
      proof (cases "valid it2")
        case True
        then show ?thesis
          using "1.IH" [OF g Tok_continue False i l] p c "1.prems"(3,4) by auto
      next
        case False
        then show ?thesis
          using l p c "1.prems"(4) by (subst (asm) token_loop.simps) auto
      qed
    qed
  qed
qed

lemma or_npos_greater:
  assumes "\<And>q. p = Some q \<Longrightarrow> off < q" "off < npos"
  shows "off < or_npos p"
  using assms by (auto simp: or_npos_def split: option.split)

lemma next_token_cases:
  assumes "next_token_and_offset it = Inr ((tok, start), it')" "length (m_s it) < npos"
  obtains it1 where "skip_space it = Inr it1" "start = m_offset it1" "\<not> valid it1" "tok = []" "it' = it1"
  | it1 k where "skip_space it = Inr it1" "start = m_offset it1" "valid it1" "0 < k"
      "tok = take k (drop start (m_s it))" "same_text it it'" "start < m_offset it'"
proof -
  obtain it1 where i1: "skip_space it = Inr it1"
    using assms(1) by (auto simp: next_token_and_offset_def)
  note sp = skip_space_progress [OF i1 assms(2)]
  let ?s = "m_s it1" and ?st = "m_offset it1"
  show thesis
  proof (cases "valid it1")
    case False
    then show ?thesis
      using assms(1) i1 by (intro that(1) [of it1]) (auto simp: next_token_and_offset_def)
  next
    case True
    then have st: "?st < npos" using sp assms(2) by (auto simp: valid_def)
    have q: "?st < or_npos (span_quoted_string_sq ?s ?st)" "?st < or_npos (span_quoted_string_dq ?s ?st)"
      using st span_quoted_bounds by (auto intro!: or_npos_greater)
    show ?thesis
    proof (cases "\<not> m_skip_quoted it1 \<and> (get_char it1 = CHR 0x27 \<or> get_char it1 = CHR 0x22 \<or>
        get_char it1 = CHR ''$'' \<and> m_dollar_quotes it1)")
      case quoted: True
      then have "\<exists>p. ?st < p \<and> tok = take (p - ?st) (drop ?st ?s) \<and> start = ?st \<and> it' = it1\<lparr>m_offset := p\<rparr>"
        using assms(1) True q span_dollar_bounds [of ?s ?st]
        unfolding next_token_and_offset_def Let_def i1 rbind_simps
        by (elim conjE disjE) (auto simp: valid_def)
      then obtain p where "?st < p" "tok = take (p - ?st) (drop ?st ?s)" "start = ?st"
        "it' = it1\<lparr>m_offset := p\<rparr>" by blast
      then show ?thesis using i1 True sp by (intro that(2) [of it1 "p - ?st"]) auto
    next
      case unquoted: False
      then have no: "\<not> (\<not> m_skip_quoted it1 \<and> get_char it1 = CHR 0x27)"
        "\<not> (\<not> m_skip_quoted it1 \<and> get_char it1 = CHR 0x22)"
        "\<not> (\<not> m_skip_quoted it1 \<and> get_char it1 = CHR ''$'' \<and> m_dollar_quotes it1)" "\<not> \<not> valid it1"
        using True by blast+
      have body: "rbind (token_loop ?st it1 ?st) (\<lambda>(it', previous, returned).
            if returned then Inr ((take (m_offset it' - ?st) (drop ?st ?s), ?st), it')
            else rbind (if m_offset it' = ?st then iter_incr it' else Inr it') (\<lambda>it''.
              Inr ((take (previous + 1 - ?st) (drop ?st ?s), ?st), it''))) = Inr ((tok, start), it')"
        using assms(1)
        unfolding next_token_and_offset_def i1 rbind_simps Let_def if_not_P [OF no(1)] if_not_P [OF no(2)]
          if_not_P [OF no(3)] if_not_P [OF no(4)] .
      then obtain it2 previous returned where
        l: "token_loop ?st it1 ?st = Inr (it2, previous, returned)" by (auto simp del: rbind_simps)
      note body = body [unfolded l rbind_simps prod.case]
      have lp: "same_text it1 it2" "?st \<le> m_offset it2" "?st \<le> previous" "returned \<Longrightarrow> ?st < m_offset it2"
        using token_loop_progress [OF l True] sp assms(2) by auto
      show ?thesis
      proof (cases returned)
        case True
        then show ?thesis
          using body i1 \<open>valid it1\<close> lp sp by (intro that(2) [of it1 "m_offset it2 - ?st"]) auto
      next
        case False
        then have r: "start = ?st" "tok = take (previous + 1 - ?st) (drop ?st ?s)"
          "(if m_offset it2 = ?st then iter_incr it2 else Inr it2) = Inr it'"
          using body by (auto split: if_splits)
        have "same_text it1 it' \<and> ?st < m_offset it'"
          using r(3) lp(1,2) iter_incr_progress [of it2 it'] True sp assms(2)
          by (auto simp: valid_def split: if_splits)
        then show ?thesis
          using r i1 \<open>valid it1\<close> sp lp(3) by (intro that(2) [of it1 "previous + 1 - ?st"]) auto
      qed
    qed
  qed
qed

text \<open>C37: the tokenizer returns the empty token exactly at the end of the text; otherwise the token is
  the piece of the text at the returned offset, it does not start with white space, and the iterator is
  left behind its start, so that repeated calls come to an end.\<close>

theorem next_token_progress:
  assumes "length (m_s it) < npos" "next_token_and_offset it = Inr ((tok, start), it')"
  shows "m_s it' = m_s it \<and> m_offset it \<le> start \<and>
    (tok = [] \<longleftrightarrow> start \<ge> length (m_s it)) \<and>
    (tok \<noteq> [] \<longrightarrow> prefix tok (drop start (m_s it)) \<and> \<not> isspace (hd tok) \<and> start < m_offset it')"
  using assms(2,1)
proof (cases rule: next_token_cases)
  case (1 it1)
  then show ?thesis using skip_space_progress [OF 1(1) assms(1)] by (auto simp: valid_def)
next
  case (2 it1 k)
  note sp = skip_space_progress [OF 2(1) assms(1)]
  have st: "start < length (m_s it)" using 2 sp by (simp add: valid_def)
  then have "drop start (m_s it) = get_char it1 # drop (Suc start) (m_s it)"
    using 2(2) sp by (simp add: get_char_def Cons_nth_drop_Suc)
  then have "tok \<noteq> [] \<and> hd tok = get_char it1" using 2(4,5) by (cases k) auto
  moreover have "prefix tok (drop start (m_s it))" using 2(5) by (simp add: take_is_prefix)
  ultimately show ?thesis using 2 sp st by auto
qed

theorem next_token_progress_witness:
  "next_token_and_offset \<lparr>m_s = '' ab'', m_offset = 0, m_skip_quoted = True, m_dollar_quotes = True,
     m_comment_hint = False\<rparr> =
   Inr ((''ab'', 1), \<lparr>m_s = '' ab'', m_offset = 3, m_skip_quoted = True, m_dollar_quotes = True,
     m_comment_hint = False\<rparr>) \<and> prefix ''ab'' (drop 1 '' ab'')"
proof -
  let ?it = "\<lambda>n. \<lparr>m_s = '' ab'', m_offset = n, m_skip_quoted = True, m_dollar_quotes = True,
     m_comment_hint = False\<rparr>"
  have "iter_settle (?it 1) = Inr (?it 1)" "iter_settle (?it 2) = Inr (?it 2)"
    by (subst iter_settle.simps, simp add: valid_def iter_step_def Let_def)+
  moreover have "iter_settle (?it 3) = Inr (?it 3)"
    by (subst iter_settle.simps) (simp add: valid_def)
  ultimately have incr: "iter_incr (?it 0) = Inr (?it 1)" "iter_incr (?it 1) = Inr (?it 2)"
    "iter_incr (?it 2) = Inr (?it 3)"
    by (simp_all add: iter_incr_def numeral_2_eq_2 [symmetric])
  have len: "length '' ab'' < npos" by (simp add: npos_def)
  have "skip_space (?it 0) = Inr (?it 1)"
    using len incr by (subst skip_space.simps, simp add: valid_def get_char_def)
      (subst skip_space.simps, simp add: valid_def get_char_def)
  moreover have "token_loop 1 (?it 1) 1 = Inr (?it 3, 2, False)"
    using len incr
    by (subst token_loop.simps, simp add: token_step_def valid_def get_char_def)
      (subst token_loop.simps, simp add: token_step_def valid_def get_char_def,
       subst token_loop.simps, simp add: valid_def)
  ultimately have "next_token_and_offset (?it 0) = Inr ((''ab'', 1), ?it 3)"
    by (simp add: next_token_and_offset_def valid_def)
  then show ?thesis using len next_token_progress [of "?it 0" "''ab''" 1 "?it 3"] by simp
qed

function next_sql_function :: "sql_iterator \<Rightarrow> (string \<times> sql_iterator) result" where
  "next_sql_function it =
     (if \<not> length (m_s it) < npos then Inr ([], it)
      else rbind (next_token it) (\<lambda>(token, it').
        if token = [] then Inr (token, it')
        else if \<not> isalpha (hd token) then next_sql_function it'
        else if valid it' \<and> get_char it' = CHR ''('' then Inr (token, it')
        else next_sql_function it'))"
  by pat_completeness auto
termination
proof (relation "measure (\<lambda>it. length (m_s it) - m_offset it)")
  have "(it', it) \<in> measure (\<lambda>it. length (m_s it) - m_offset it)"
    if l: "length (m_s it) < npos" and t: "next_token it = Inr (tok, it')" "tok \<noteq> []" for it it' tok
  proof -
    obtain start where "next_token_and_offset it = Inr ((tok, start), it')"
      using t(1) by (auto simp: next_token_def)
    then show ?thesis
      using l t(2)
      by (cases rule: next_token_cases) (auto simp: valid_def dest!: skip_space_progress [OF _ l])
  qed
  then show "\<And>it x token it'. \<not> \<not> length (m_s it) < npos \<Longrightarrow> next_token it = Inr x \<Longrightarrow>
      (token, it') = x \<Longrightarrow> token \<noteq> [] \<Longrightarrow> \<not> isalpha (hd token) \<Longrightarrow>
      (it', it) \<in> measure (\<lambda>it. length (m_s it) - m_offset it)"
    "\<And>it x token it'. \<not> \<not> length (m_s it) < npos \<Longrightarrow> next_token it = Inr x \<Longrightarrow>
      (token, it') = x \<Longrightarrow> token \<noteq> [] \<Longrightarrow> \<not> \<not> isalpha (hd token) \<Longrightarrow>
      \<not> (valid it' \<and> get_char it' = CHR ''('') \<Longrightarrow>
      (it', it) \<in> measure (\<lambda>it. length (m_s it) - m_offset it)"
    by blast+
qed auto

declare next_sql_function.simps [simp del]

text \<open>\<^verbatim>\<open>consume_tokens\<close>: the fold over \<^verbatim>\<open>&&\<close> stops at the first token that differs.\<close>

fun consume_rest :: "string list \<Rightarrow> sql_iterator \<Rightarrow> (bool \<times> sql_iterator) result" where
  "consume_rest [] it = Inr (True, it)"
| "consume_rest (t # ts) it =
     rbind (next_token it) (\<lambda>(token, it').
       if str_caseeq token t then consume_rest ts it' else Inr (False, it'))"

definition consume_tokens :: "string list \<Rightarrow> sql_iterator \<Rightarrow> (bool \<times> sql_iterator) result" where
  "consume_tokens tokens it = (if \<not> valid it then Inr (False, it) else consume_rest tokens it)"

end
