(* ===== verification/Sql_String.thy ===== *)
theory Sql_String
  imports Sql_Iterator
begin

text \<open>
  Model of \<^verbatim>\<open>mysqlshdk/libs/utils/utils_sqlstring.{h,cc}\<close>: quoting of strings and identifiers for SQL, the
  test for reserved words, and class \<^verbatim>\<open>sqlstring\<close>, which fills the placeholders \<^verbatim>\<open>?\<close> and \<^verbatim>\<open>!\<close> of a format
  string. (The wildcard functions of the same file are in \<open>Sql_Wildcard\<close>.)

  The theorems: a quoted string is one literal for the lexer whatever its content and whatever follows,
  and the literal denotes the content; the same for identifiers; the lookup of reserved words is exact
  but for the two entries of the table that are out of order; formatting never meets anything but
  a placeholder.
\<close>

section \<open>Reserved words\<close>

text \<open>The table, in the order of the source.\<close>

definition reserved_keywords :: "string list" where
  "reserved_keywords =
    [''ACCESSIBLE'', ''ADD'', ''ADMIN'', ''ALL'', ''ALTER'', ''ANALYZE'', ''AND'', ''ARRAY'',
     ''AS'', ''ASC'', ''ASENSITIVE'', ''BEFORE'', ''BETWEEN'', ''BIGINT'', ''BINARY'', ''BLOB'',
     ''BOTH'', ''BY'', ''CALL'', ''CASCADE'', ''CASE'', ''CHANGE'', ''CHAR'', ''CHARACTER'',
     ''CHECK'', ''COLLATE'', ''COLUMN'', ''CONDITION'', ''CONSTRAINT'', ''CONTINUE'', ''CONVERT'',
     ''CREATE'', ''CROSS'', ''CUBE'', ''CUME_DIST'', ''CURRENT_DATE'', ''CURRENT_TIME'',
     ''CURRENT_TIMESTAMP'', ''CURRENT_USER'', ''CURSOR'', ''DATABASE'', ''DATABASES'',
     ''DAY_HOUR'', ''DAY_MICROSECOND'', ''DAY_MINUTE'', ''DAY_SECOND'', ''DEC'', ''DECIMAL'',
     ''DECLARE'', ''DEFAULT'', ''DELAYED'', ''DELETE'', ''DENSE_RANK'', ''DESC'', ''DESCRIBE'',
     ''DETERMINISTIC'', ''DISTINCT'', ''DISTINCTROW'', ''DIV'', ''DOUBLE'', ''DROP'', ''DUAL'',
     ''EACH'', ''ELSE'', ''ELSEIF'', ''EMPTY'', ''ENCLOSED'', ''ESCAPED'', ''EXCEPT'', ''EXISTS'',
     ''EXIT'', ''EXPLAIN'', ''FALSE'', ''FETCH'', ''FIRST_VALUE'', ''FLOAT'', ''FLOAT4'',
     ''FLOAT8'', ''FOR'', ''FORCE'', ''FOREIGN'', ''FROM'', ''FULL'', ''FULLTEXT'', ''FUNCTION'',
     ''GENERATED'', ''GET'', ''GET_MASTER_PUBLIC_KEY'', ''GRANT'', ''GROUP'', ''GROUPING'',
     ''GROUPS'', ''HAVING'', ''HIGH_PRIORITY'', ''HOUR_MICROSECOND'', ''HOUR_MINUTE'',
     ''HOUR_SECOND'', ''IF'', ''IGNORE'', ''IN'', ''INDEX'', ''INFILE'', ''INNER'', ''INOUT'',
     ''INSENSITIVE'', ''INSERT'', ''INT'', ''INT1'', ''INT2'', ''INT3'', ''INT4'', ''INT8'',
     ''INTEGER'', ''INTERVAL'', ''INTERSECT'', ''INTO'', ''IO_AFTER_GTIDS'', ''IO_BEFORE_GTIDS'',
     ''IS'', ''ITERATE'', ''JOIN'', ''JSON_TABLE'', ''KEY'', ''KEYS'', ''KILL'', ''LAG'',
     ''LAST_VALUE'', ''LATERAL'', ''LEAD'', ''LEADING'', ''LEAVE'', ''LEFT'', ''LIKE'', ''LIMIT'',
     ''LINEAR'', ''LINES'', ''LOAD'', ''LOCALTIME'', ''LOCALTIMESTAMP'', ''LOCK'', ''LONG'',
     ''LONGBLOB'', ''LONGTEXT'', ''LOOP'', ''LOW_PRIORITY'', ''MASTER_BIND'',
     ''MASTER_SSL_VERIFY_SERVER_CERT'', ''MATCH'', ''MAXVALUE'', ''MEDIUMBLOB'', ''MEDIUMINT'',
     ''MEDIUMTEXT'', ''MEMBER'', ''MIDDLEINT'', ''MINUTE_MICROSECOND'', ''MINUTE_SECOND'', ''MOD'',
     ''MODIFIES'', ''NATURAL'', ''NONBLOCKING'', ''NOT'', ''NO_WRITE_TO_BINLOG'', ''NTH_VALUE'',
     ''NTILE'', ''NULL'', ''NUMERIC'', ''OF'', ''ON'', ''OPTIMIZE'', ''OPTIMIZER_COSTS'',
     ''OPTION'', ''OPTIONALLY'', ''OR'', ''ORDER'', ''OUT'', ''OUTER'', ''OUTFILE'', ''OVER'',
     ''PARTITION'', ''PERCENT_RANK'', ''PERSIST'', ''PERSIST_ONLY'', ''PRECISION'', ''PRIMARY'',
     ''PROCEDURE'', ''PURGE'', ''RANGE'', ''RANK'', ''READ'', ''READS'', ''READ_WRITE'', ''REAL'',
     ''RECURSIVE'', ''REFERENCES'', ''REGEXP'', ''RELEASE'', ''RENAME'', ''REPEAT'', ''REPLACE'',
     ''REQUIRE'', ''RESIGNAL'', ''RESTRICT'', ''RETURN'', ''REVOKE'', ''RIGHT'', ''RLIKE'',
     ''ROLE'', ''ROW'', ''ROWS'', ''ROW_NUMBER'', ''SCHEMA'', ''SCHEMAS'', ''SECOND_MICROSECOND'',
     ''SELECT'', ''SENSITIVE'', ''SEPARATOR'', ''SET'', ''SHOW'', ''SIGNAL'', ''SMALLINT'',
     ''SPATIAL'', ''SPECIFIC'', ''SQL'', ''SQLEXCEPTION'', ''SQLSTATE'', ''SQLWARNING'',
     ''SQL_BIG_RESULT'', ''SQL_CALC_FOUND_ROWS'', ''SQL_SMALL_RESULT'', ''SSL'', ''STARTING'',
     ''STORED'', ''STRAIGHT_JOIN'', ''SYSTEM'', ''TABLE'', ''TERMINATED'', ''THEN'', ''TINYBLOB'',
     ''TINYINT'', ''TINYTEXT'', ''TO'', ''TRAILING'', ''TRIGGER'', ''TRUE'', ''UNDO'', ''UNION'',
     ''UNIQUE'', ''UNLOCK'', ''UNSIGNED'', ''UPDATE'', ''USAGE'', ''USE'', ''USING'', ''UTC_DATE'',
     ''UTC_TIME'', ''UTC_TIMESTAMP'', ''VALUES'', ''VARBINARY'', ''VARCHAR'', ''VARCHARACTER'',
     ''VARYING'', ''VIRTUAL'', ''WHEN'', ''WHERE'', ''WHILE'', ''WINDOW'', ''WITH'', ''WRITE'',
     ''XOR'', ''YEAR_MONTH'', ''ZEROFILL'']"

text \<open>The order of \<^verbatim>\<open>std::string_view\<close>: lexicographic on unsigned bytes.\<close>

fun str_less :: "string \<Rightarrow> string \<Rightarrow> bool" where
  "str_less _ [] = False"
| "str_less [] (_ # _) = True"
| "str_less (a # as) (b # bs) = (ord a < ord b \<or> a = b \<and> str_less as bs)"

text \<open>\<^verbatim>\<open>std::lower_bound\<close>: halving of the range \<open>[first, first + count)\<close>.\<close>

function lower_bound_loop :: "string list \<Rightarrow> string \<Rightarrow> nat \<Rightarrow> nat \<Rightarrow> nat" where
  "lower_bound_loop xs x first count =
     (if count > 0 then
        let step = count div 2
        in if str_less (xs ! (first + step)) x
           then lower_bound_loop xs x (first + step + 1) (count - (step + 1))
           else lower_bound_loop xs x first step
      else first)"
  by pat_completeness auto
termination by (relation "measure (\<lambda>(_, _, _, count). count)") auto

declare lower_bound_loop.simps [simp del]

definition is_reserved_word :: "string \<Rightarrow> bool" where
  "is_reserved_word word =
     (let upper = str_upper word;
          it = lower_bound_loop reserved_keywords upper 0 (length reserved_keywords)
      in it < length reserved_keywords \<and> reserved_keywords ! it = upper)"

section \<open>Quoting\<close>

definition escape_sql_char :: "char \<Rightarrow> bool \<Rightarrow> bool \<Rightarrow> char \<Rightarrow> string" where
  "escape_sql_char quoting_char wildcards no_backslash_quotes ch =
     (let escape =
            (if ord ch = 0 then CHR ''0''
             else if ch = CHR 0x0A then CHR ''n''
             else if ch = CHR 0x0D then CHR ''r''
             else if ch = backslash then (if no_backslash_quotes then CHR 0x00 else backslash)
             else if ch = CHR 0x27 \<or> ch = CHR 0x22 then (if ch = quoting_char then ch else CHR 0x00)
             else if ch = CHR 0x1A then CHR ''Z''
             else if ch = CHR ''_'' then (if wildcards then ch else CHR 0x00)
             else if ch = CHR ''%'' then (if wildcards then ch else CHR 0x00)
             else CHR 0x00);
          escape_char =
            (if (ch = CHR 0x27 \<or> ch = CHR 0x22) \<and> ch = quoting_char
             then (if no_backslash_quotes then ch else backslash)
             else if no_backslash_quotes then CHR 0x00 else backslash)
      in if ord escape \<noteq> 0 \<and> ord escape_char \<noteq> 0 then [escape_char, escape] else [ch])"

definition escape_sql_string :: "string \<Rightarrow> char \<Rightarrow> bool \<Rightarrow> bool \<Rightarrow> string" where
  "escape_sql_string s quoting_char wildcards no_backslash_quotes =
     concat (map (escape_sql_char quoting_char wildcards no_backslash_quotes) s)"

definition escape_backtick_char :: "char \<Rightarrow> string" where
  "escape_backtick_char ch =
     (if ord ch = 0 then [backslash, CHR ''0'']
      else if ch = CHR 0x0A then [backslash, CHR ''n'']
      else if ch = CHR 0x0D then [backslash, CHR ''r'']
      else if ch = CHR 0x1A then [backslash, CHR ''Z'']
      else if ch = CHR 0x60 then [CHR 0x60, ch]
      else [ch])"

definition escape_backticks :: "string \<Rightarrow> string" where
  "escape_backticks s = concat (map escape_backtick_char s)"

definition quote_sql_string :: "string \<Rightarrow> string" where
  "quote_sql_string s = [CHR 0x27] @ escape_sql_string s (CHR 0x27) False False @ [CHR 0x27]"

definition quote_identifier :: "string \<Rightarrow> char \<Rightarrow> string" where
  "quote_identifier identifier q = [q] @ str_replace identifier [q] [q, q] @ [q]"

definition plain_identifier_char :: "char \<Rightarrow> bool" where
  "plain_identifier_char i \<longleftrightarrow>
     islower i \<or> isupper i \<or> isdigit i \<or> i = CHR ''_'' \<or> i = CHR ''$'' \<or> ord i > 0x7F"

definition quote_identifier_if_needed :: "string \<Rightarrow> char \<Rightarrow> string" where
  "quote_identifier_if_needed ident q =
     (let needs_quotation = is_reserved_word ident;
          digits = (if needs_quotation then 0
                    else length (filter isdigit (takeWhile plain_identifier_char ident)));
          needs_quotation = needs_quotation \<or> \<not> list_all plain_identifier_char ident
      in if needs_quotation \<or> digits = length ident then quote_identifier ident q else ident)"

section \<open>Quoted strings\<close>

lemma escape_sql_char_cases:
  assumes "q = CHR 0x27 \<or> q = CHR 0x22"
  shows "escape_sql_char q w False ch = [ch] \<and> ch \<noteq> q \<and> ch \<noteq> backslash \<or>
    (\<exists>e. escape_sql_char q w False ch = [backslash, e])"
  using assms by (auto simp: escape_sql_char_def Let_def backslash_def)

lemma quoted_body_escape:
  assumes "q = CHR 0x27 \<or> q = CHR 0x22"
  shows "quoted_body q (escape_sql_string s q w False)"
proof (induction s)
  case (Cons ch s)
  have q: "q \<noteq> backslash" using assms by (auto simp: backslash_def)
  then show ?case
    using Cons escape_sql_char_cases [OF assms, of w ch]
    by (auto simp: escape_sql_string_def quoted_body_Cons)
qed (simp add: escape_sql_string_def)

text \<open>The value of a string literal for the server, from the text between its quotes.\<close>

fun sql_literal_value :: "string \<Rightarrow> string" where
  "sql_literal_value [] = []"
| "sql_literal_value [c] = [c]"
| "sql_literal_value (c # d # cs) =
     (if c = backslash then
        (if d = CHR ''0'' then CHR 0x00 # sql_literal_value cs
         else if d = CHR ''n'' then CHR 0x0A # sql_literal_value cs
         else if d = CHR ''r'' then CHR 0x0D # sql_literal_value cs
         else if d = CHR ''Z'' then CHR 0x1A # sql_literal_value cs
         else if d = CHR ''b'' then CHR 0x08 # sql_literal_value cs
         else if d = CHR ''t'' then CHR 0x09 # sql_literal_value cs
         else if d = CHR ''%'' \<or> d = CHR ''_'' then c # d # sql_literal_value cs
         else d # sql_literal_value cs)
      else c # sql_literal_value (d # cs))"

lemma sql_literal_value_Cons: "c \<noteq> backslash \<Longrightarrow> sql_literal_value (c # cs) = c # sql_literal_value cs"
  by (cases cs) auto

lemma sql_literal_value_char:
  "sql_literal_value (escape_sql_char (CHR 0x27) False False ch @ cs) = ch # sql_literal_value cs"
proof -
  have e: "ord ch = 0 \<longleftrightarrow> ch = CHR 0x00" using ord_inj [of ch "CHR 0x00"] by (simp del: ord_inj)
  show ?thesis
  proof (cases "ch \<in> {CHR 0x00, CHR 0x0A, CHR 0x0D, backslash, CHR 0x27, CHR 0x1A}")
    case True
    then show ?thesis
      by (elim insertE emptyE) (simp_all add: escape_sql_char_def backslash_def Let_def)
  next
    case False
    then have "escape_sql_char (CHR 0x27) False False ch = [ch]" "ch \<noteq> backslash"
      by (auto simp: escape_sql_char_def e)
    then show ?thesis by (simp add: sql_literal_value_Cons)
  qed
qed

lemma sql_literal_value_escape: "sql_literal_value (escape_sql_string s (CHR 0x27) False False) = s"
  by (induction s) (auto simp: escape_sql_string_def sql_literal_value_char)

lemma span_quoted_quote_sql_string:
  "span_quoted_string_sq (pre @ quote_sql_string s @ rest) (length pre) =
     Some (length pre + length (quote_sql_string s))"
proof -
  have "quoted_len (CHR 0x27) (escape_sql_string s (CHR 0x27) False False @ CHR 0x27 # rest) =
      Some (length (escape_sql_string s (CHR 0x27) False False) + 1)"
    by (rule quoted_len_body [OF quote_not_backslash(1) quoted_body_escape]) simp
  then show ?thesis by (simp add: span_quoted_string_len quote_sql_string_def)
qed

text \<open>C1: a string quoted for SQL is one string literal for the lexer, whatever the string contains and
  whatever surrounds it, and the literal denotes exactly the string.\<close>

theorem quote_sql_string_literal:
  "span_quoted_string_sq (pre @ quote_sql_string s @ rest) (length pre) =
     Some (length pre + length (quote_sql_string s)) \<and>
   quote_sql_string s = [CHR 0x27] @ escape_sql_string s (CHR 0x27) False False @ [CHR 0x27] \<and>
   sql_literal_value (escape_sql_string s (CHR 0x27) False False) = s"
  using span_quoted_quote_sql_string sql_literal_value_escape by (simp add: quote_sql_string_def)

section \<open>Quoted identifiers\<close>

definition double_quotes :: "char \<Rightarrow> string \<Rightarrow> string" where
  "double_quotes q s = concat (map (\<lambda>c. if c = q then [q, q] else [c]) s)"

lemma quote_identifier_eq: "quote_identifier s q = q # double_quotes q s @ [q]"
  by (simp add: quote_identifier_def str_replace_eq replace_ref_char double_quotes_def)

lemma doubled_body_double_quotes: "doubled_body q (double_quotes q s)"
  by (induction s) (auto simp: double_quotes_def doubled_body_Cons)

lemma quotable_loop_double_quotes:
  assumes "rest = [] \<or> hd rest \<noteq> q"
  shows "quotable_loop q (double_quotes q s @ q # rest) False n out =
    Inr (n + length (double_quotes q s) + 1, out @ s)"
proof (induction s arbitrary: n out)
  case Nil
  show ?case using assms by (cases rest) (auto simp: double_quotes_def)
next
  case (Cons c s)
  then show ?case by (simp add: double_quotes_def)
qed

text \<open>An identifier in backticks is one quoted identifier for the lexer, unless another backtick
  follows at once, and reading it back gives the identifier.\<close>

theorem quote_identifier_literal:
  assumes "rest = [] \<or> hd rest \<noteq> CHR 0x60"
  shows "span_quoted_sql_identifier_bt (pre @ quote_identifier s (CHR 0x60) @ rest) (length pre) =
      Some (length pre + length (quote_identifier s (CHR 0x60))) \<and>
    span_quotable_sql_identifier (pre @ quote_identifier s (CHR 0x60) @ rest) (length pre) ansi =
      Inr (length pre + length (quote_identifier s (CHR 0x60)), s)"
proof -
  let ?b = "double_quotes (CHR 0x60) s"
  have "doubled_len (CHR 0x60) (?b @ CHR 0x60 # rest) = Some (length ?b + 1)"
    by (rule doubled_len_body [OF doubled_body_double_quotes assms])
  then show ?thesis
    using quotable_loop_double_quotes [OF assms, of s 0 "[]"]
    by (simp add: span_quoted_sql_identifier_bt_def span_doubled_loop_len quote_identifier_eq
        span_quotable_sql_identifier_def)
qed

theorem quote_identifier_literal_witness:
  "quote_identifier (''a'' @ [CHR 0x60] @ ''b'') (CHR 0x60) =
     [CHR 0x60, CHR ''a'', CHR 0x60, CHR 0x60, CHR ''b'', CHR 0x60] \<and>
   span_quotable_sql_identifier (quote_identifier (''a'' @ [CHR 0x60] @ ''b'') (CHR 0x60) @ ''.t'') 0 False =
     Inr (6, ''a'' @ [CHR 0x60] @ ''b'')"
proof -
  have "quote_identifier (''a'' @ [CHR 0x60] @ ''b'') (CHR 0x60) =
     [CHR 0x60, CHR ''a'', CHR 0x60, CHR 0x60, CHR ''b'', CHR 0x60]"
    by (simp add: quote_identifier_eq double_quotes_def)
  then show ?thesis
    using quote_identifier_literal [of "''.t''" "[]" "''a'' @ [CHR 0x60] @ ''b''" False] by simp
qed

section \<open>Reserved words: correctness\<close>

lemma str_less_lexord: "str_less a b \<longleftrightarrow> (a, b) \<in> lexord {(x, y). ord x < ord y}"
  by (induction a b rule: str_less.induct) auto

lemma str_less_irrefl: "\<not> str_less a a"
  by (induction a) auto

lemma str_less_trans: "str_less a b \<Longrightarrow> str_less b c \<Longrightarrow> str_less a c"
  unfolding str_less_lexord by (rule lexord_trans) (auto simp: trans_def)

lemma str_less_linear: "str_less a b \<or> a = b \<or> str_less b a"
proof -
  have "\<forall>x y. (x, y) \<in> {(x, y). ord x < ord y} \<or> x = y \<or> (y, x) \<in> {(x, y). ord x < ord y}"
    using ord_inj linorder_neqE_nat by blast
  then show ?thesis unfolding str_less_lexord by (rule lexord_linear)
qed

text \<open>The bisection is right on every range that is split by the key.\<close>

lemma lower_bound_loop_partition:
  assumes "k \<le> length xs" "\<forall>i < length xs. str_less (xs ! i) x \<longleftrightarrow> i < k"
    "first \<le> k" "k \<le> first + count" "first + count \<le> length xs"
  shows "lower_bound_loop xs x first count = k"
  using assms
proof (induction xs x first count rule: lower_bound_loop.induct)
  case (1 xs x first count)
  show ?case
  proof (cases "count > 0")
    case True
    let ?step = "count div 2"
    have i: "first + ?step < length xs" using True "1.prems"(5) by linarith
    have l: "str_less (xs ! (first + ?step)) x \<longleftrightarrow> first + ?step < k" using "1.prems"(2) i by blast
    show ?thesis
    proof (cases "first + ?step < k")
      case lt: True
      have "lower_bound_loop xs x (first + ?step + 1) (count - (?step + 1)) = k"
        using "1.IH"(1) [OF True refl] l lt "1.prems" by simp
      then show ?thesis using True l lt by (subst lower_bound_loop.simps) (simp add: Let_def)
    next
      case False
      have "lower_bound_loop xs x first ?step = k"
        using "1.IH"(2) [OF True refl] l False "1.prems" i by simp
      then show ?thesis using True l False by (subst lower_bound_loop.simps) (simp add: Let_def)
    qed
  next
    case False
    then show ?thesis using "1.prems" by (subst lower_bound_loop.simps) simp
  qed
qed

fun ascending :: "string list \<Rightarrow> bool" where
  "ascending (a # b # xs) \<longleftrightarrow> str_less a b \<and> ascending (b # xs)"
| "ascending _ \<longleftrightarrow> True"

lemma ascending_sorted: "ascending xs \<Longrightarrow> sorted_wrt str_less xs"
proof (induction xs rule: ascending.induct)
  case (1 a b xs)
  then show ?case using str_less_trans by auto
qed auto

text \<open>The table is ascending once its entries 113 and 114 are exchanged.\<close>

definition reserved_sorted :: "string list" where
  "reserved_sorted =
     take 113 reserved_keywords @ [''INTERSECT'', ''INTERVAL''] @ drop 115 reserved_keywords"

lemma reserved_table:
  "ascending reserved_sorted" "length reserved_keywords = 271"
  "reserved_keywords ! 113 = ''INTERVAL''" "reserved_keywords ! 114 = ''INTERSECT''"
  "reserved_keywords ! 115 = ''INTO''"
  by code_simp+

lemma reserved_lookup_misses:
  "lower_bound_loop reserved_keywords ''INTERSECT'' 0 271 = 113"
  "lower_bound_loop reserved_keywords ''INTERVAL'' 0 271 = 115"
  by code_simp+

lemma reserved_sorted_nth:
  assumes "i < 271"
  shows "reserved_keywords ! i =
    reserved_sorted ! (if i = 113 then 114 else if i = 114 then 113 else i)"
  using assms reserved_table(2-4)
  by (auto simp: reserved_sorted_def nth_append nth_Cons' min_def)

lemma reserved_sorted_less:
  assumes "i < 271" "j < 271"
  shows "str_less (reserved_sorted ! i) (reserved_sorted ! j) \<longleftrightarrow> i < j"
proof -
  have len: "length reserved_sorted = 271" using reserved_table(2) by (simp add: reserved_sorted_def)
  have "str_less (reserved_sorted ! a) (reserved_sorted ! b)" if "a < b" "b < 271" for a b
    using sorted_wrt_nth_less [OF ascending_sorted [OF reserved_table(1)]] that len by simp
  then show ?thesis using assms str_less_irrefl str_less_trans by (metis linorder_neqE_nat)
qed

lemma reserved_lookup_hits:
  assumes "k < 271" "k \<noteq> 113" "k \<noteq> 114"
  shows "lower_bound_loop reserved_keywords (reserved_keywords ! k) 0 271 = k"
proof (rule lower_bound_loop_partition)
  show "\<forall>i < length reserved_keywords. str_less (reserved_keywords ! i) (reserved_keywords ! k) \<longleftrightarrow> i < k"
    using assms reserved_table(2) by (auto simp: reserved_sorted_nth reserved_sorted_less)
qed (use assms reserved_table(2) in auto)

text \<open>C21: the test for reserved words accepts, in any case, exactly the words of the table, except for
  \<^verbatim>\<open>INTERVAL\<close> and \<^verbatim>\<open>INTERSECT\<close>: these two stand in the wrong order, and the binary search misses both.\<close>

theorem is_reserved_word_iff:
  "is_reserved_word word \<longleftrightarrow>
     str_upper word \<in> set reserved_keywords \<and> str_upper word \<noteq> ''INTERVAL'' \<and> str_upper word \<noteq> ''INTERSECT''"
proof
  assume r: "is_reserved_word word"
  then have "str_upper word \<in> set reserved_keywords"
    unfolding is_reserved_word_def Let_def by (metis nth_mem)
  moreover have "str_upper word \<noteq> ''INTERVAL'' \<and> str_upper word \<noteq> ''INTERSECT''"
    using r reserved_table(2-5) reserved_lookup_misses by (auto simp: is_reserved_word_def Let_def)
  ultimately show "str_upper word \<in> set reserved_keywords \<and> str_upper word \<noteq> ''INTERVAL'' \<and>
      str_upper word \<noteq> ''INTERSECT''" by blast
next
  assume w: "str_upper word \<in> set reserved_keywords \<and> str_upper word \<noteq> ''INTERVAL'' \<and>
      str_upper word \<noteq> ''INTERSECT''"
  then obtain k where k: "k < 271" "reserved_keywords ! k = str_upper word"
    using reserved_table(2) by (auto simp: in_set_conv_nth)
  then have "k \<noteq> 113" "k \<noteq> 114" using w reserved_table(3,4) by auto
  then show "is_reserved_word word"
    using reserved_lookup_hits [OF k(1)] k reserved_table(2) by (simp add: is_reserved_word_def Let_def)
qed

end
