(* ===== verification/Sql_Format.thy ===== *)
theory Sql_Format
  imports Sql_String
begin

text \<open>
  Model of class \<^verbatim>\<open>sqlstring\<close> and of \<^verbatim>\<open>sqlformat\<close> (\<^verbatim>\<open>mysqlshdk/libs/utils/utils_sqlstring.{h,cc}\<close>): a query is
  built from a format string whose placeholders \<^verbatim>\<open>?\<close> (a value) and \<^verbatim>\<open>!\<close> (an identifier) are filled from left
  to right. The text of a floating point number, which \<^verbatim>\<open>dtoa\<close> produces, is a parameter.

  The theorems: the rest of the format string always begins with a placeholder, so that the internal error
  of the operators cannot occur; and a format string of plain text is filled with quoted values, with
  an error when there are too many or too few of them.
\<close>

record sqlstring =
  formatted :: string
  format_left :: string
  format_flags :: nat

definition QuoteOnlyIfNeeded :: nat where "QuoteOnlyIfNeeded = 1"
definition NoBackslashEscapes :: nat where "NoBackslashEscapes = 2"

definition has_flag :: "sqlstring \<Rightarrow> nat \<Rightarrow> bool" where
  "has_flag q flag \<longleftrightarrow> (format_flags q div flag) mod 2 = 1"

section \<open>Finding the next placeholder\<close>

text \<open>The loop of \<^verbatim>\<open>consume_until_next_escape\<close>: the position where it stops.\<close>

function consume_loop :: "sql_iterator \<Rightarrow> nat result" where
  "consume_loop it =
     (if \<not> (valid it \<and> length (m_s it) < npos) then Inr (m_offset it)
      else if get_char it = CHR ''?'' then Inr (m_offset it)
      else if get_char it = CHR ''!'' then
        rbind (iter_incr it) (\<lambda>it'.
          if \<not> valid it' \<or> get_char it' \<noteq> CHR ''='' then Inr (m_offset it)
          else rbind (iter_incr it') consume_loop)
      else rbind (iter_incr it) consume_loop)"
  by pat_completeness auto
termination
  by (relation "measure (\<lambda>it. length (m_s it) - m_offset it)")
    (auto simp: valid_def dest!: iter_incr_progress)

declare consume_loop.simps [simp del]

text \<open>\<^verbatim>\<open>append(consume_until_next_escape())\<close>.\<close>

definition consume_until_next_escape :: "sqlstring \<Rightarrow> sqlstring result" where
  "consume_until_next_escape q =
     rbind (SQL_iterator (format_left q) 0 True True) (\<lambda>it.
     rbind (consume_loop it) (\<lambda>pos.
       if pos > 0
       then Inr (q\<lparr>formatted := formatted q @ take pos (format_left q),
                   format_left := (if pos < length (format_left q) then drop pos (format_left q) else [])\<rparr>)
       else Inr q))"

definition sqlstring_new :: "string \<Rightarrow> nat \<Rightarrow> sqlstring result" where
  "sqlstring_new format_string format =
     consume_until_next_escape \<lparr>formatted = [], format_left = format_string, format_flags = format\<rparr>"

definition next_escape :: "sqlstring \<Rightarrow> (char \<times> sqlstring) result" where
  "next_escape q =
     (case format_left q of
        [] \<Rightarrow> Inl (Invalid_argument ''Error formatting SQL query: more arguments than escapes'')
      | c # rest \<Rightarrow> Inr (c, q\<lparr>format_left := rest\<rparr>))"

definition sql_append :: "sqlstring \<Rightarrow> string \<Rightarrow> sqlstring" where
  "sql_append q s = q\<lparr>formatted := formatted q @ s\<rparr>"

section \<open>Finishing\<close>

definition sql_done :: "sqlstring \<Rightarrow> sqlstring result" where
  "sql_done q =
     (let left = format_left q
      in if left \<noteq> [] \<and> (left ! 0 = CHR ''!'' \<and> (length left = 1 \<or> left ! 1 \<noteq> CHR ''='') \<or>
                          left ! 0 = CHR ''?'')
         then Inl (Logic_error ''Unbound placeholders left in query'')
         else Inr (q\<lparr>formatted := formatted q @ left, format_left := []\<rparr>))"

definition sql_str :: "sqlstring \<Rightarrow> string result" where
  "sql_str q = rbind (sql_done q) (\<lambda>q'. Inr (formatted q'))"

definition sql_size :: "sqlstring \<Rightarrow> nat" where
  "sql_size q = length (formatted q) + length (format_left q)"

section \<open>The output operators\<close>

definition numeric_escape_error :: cpp_error where
  "numeric_escape_error =
     Invalid_argument ''Error formatting SQL query: invalid escape for numeric argument''"

definition internal_escape_error :: cpp_error where
  "internal_escape_error =
     Invalid_argument (''Error formatting SQL query: internal error, expected ? or ! escape '' @
       ''got something else'')"

text \<open>For \<^verbatim>\<open>double\<close> and for the integral types: the text is that of \<^verbatim>\<open>dtoa\<close> or \<^verbatim>\<open>std::to_string\<close>.\<close>

definition sql_put_number :: "sqlstring \<Rightarrow> string \<Rightarrow> sqlstring result" where
  "sql_put_number q text =
     rbind (next_escape q) (\<lambda>(esc, q').
       if esc \<noteq> CHR ''?'' then Inl numeric_escape_error
       else consume_until_next_escape (sql_append q' text))"

definition sql_put_format :: "sqlstring \<Rightarrow> nat \<Rightarrow> sqlstring" where
  "sql_put_format q format = q\<lparr>format_flags := format\<rparr>"

definition quote_for :: "sqlstring \<Rightarrow> string \<Rightarrow> string" where
  "quote_for q v =
     (if has_flag q QuoteOnlyIfNeeded then quote_identifier_if_needed v (CHR 0x60)
      else quote_identifier v (CHR 0x60))"

definition sql_put_string :: "sqlstring \<Rightarrow> string \<Rightarrow> sqlstring result" where
  "sql_put_string q v =
     rbind (next_escape q) (\<lambda>(esc, q').
       if esc = CHR ''!'' then consume_until_next_escape (sql_append q' (quote_for q' v))
       else if esc = CHR ''?'' then
         consume_until_next_escape (sql_append q'
           ([CHR 0x27] @ escape_sql_string v (CHR 0x27) False (has_flag q' NoBackslashEscapes) @ [CHR 0x27]))
       else Inl internal_escape_error)"

definition sql_put_sqlstring :: "sqlstring \<Rightarrow> sqlstring \<Rightarrow> sqlstring result" where
  "sql_put_sqlstring q v =
     rbind (next_escape q) (\<lambda>(_, q').
     rbind (sql_str v) (\<lambda>text. consume_until_next_escape (sql_append q' text)))"

text \<open>For \<^verbatim>\<open>const char *\<close>, which may be null.\<close>

definition sql_put_cstring :: "sqlstring \<Rightarrow> string option \<Rightarrow> sqlstring result" where
  "sql_put_cstring q v =
     rbind (next_escape q) (\<lambda>(esc, q').
       if esc = CHR ''!'' then
         (case v of
            None \<Rightarrow> Inl (Invalid_argument ''Error formatting SQL query: NULL value found for identifier'')
          | Some s \<Rightarrow> consume_until_next_escape (sql_append q' (quote_for q' s)))
       else if esc = CHR ''?'' then
         consume_until_next_escape
           (sql_append q' (case v of Some s \<Rightarrow> quote_sql_string s | None \<Rightarrow> ''NULL''))
       else Inl internal_escape_error)"

text \<open>The arguments of \<^verbatim>\<open>sqlformat\<close>.\<close>

datatype sql_arg =
    Arg_string string
  | Arg_cstring "string option"
  | Arg_int int
  | Arg_double string
  | Arg_sqlstring sqlstring

fun sql_put :: "sqlstring \<Rightarrow> sql_arg \<Rightarrow> sqlstring result" where
  "sql_put q (Arg_string v) = sql_put_string q v"
| "sql_put q (Arg_cstring v) = sql_put_cstring q v"
| "sql_put q (Arg_int i) = sql_put_number q (show_int i)"
| "sql_put q (Arg_double text) = sql_put_number q text"
| "sql_put q (Arg_sqlstring v) = sql_put_sqlstring q v"

fun sql_put_all :: "sqlstring \<Rightarrow> sql_arg list \<Rightarrow> sqlstring result" where
  "sql_put_all q [] = Inr q"
| "sql_put_all q (a # as) = rbind (sql_put q a) (\<lambda>q'. sql_put_all q' as)"

definition sqlformat :: "nat \<Rightarrow> string \<Rightarrow> sql_arg list \<Rightarrow> string result" where
  "sqlformat flags s args =
     rbind (sqlstring_new s flags) (\<lambda>q.
     rbind (sql_put_all q args) (\<lambda>q'.
     rbind (sql_done q') sql_str))"

section \<open>The rest begins with a placeholder\<close>

definition at_placeholder :: "sqlstring \<Rightarrow> bool" where
  "at_placeholder q \<longleftrightarrow> format_left q = [] \<or> hd (format_left q) \<in> {CHR ''?'', CHR ''!''}"

lemma consume_loop_stops:
  "consume_loop it = Inr pos \<Longrightarrow> length (m_s it) < npos \<Longrightarrow> m_offset it \<le> length (m_s it) \<Longrightarrow>
     pos \<le> length (m_s it) \<and> (pos < length (m_s it) \<longrightarrow> m_s it ! pos \<in> {CHR ''?'', CHR ''!''})"
proof (induction it rule: consume_loop.induct)
  case (1 it)
  show ?case
  proof (cases "valid it")
    case False
    then show ?thesis
      using "1.prems" by (subst (asm) consume_loop.simps) (auto simp: valid_def)
  next
    case True
    then have g: "\<not> \<not> (valid it \<and> length (m_s it) < npos)" using "1.prems"(2) by simp
    note pr = iter_incr_progress [OF _ _ "1.prems"(2)]
    consider (stop) "get_char it \<in> {CHR ''?'', CHR ''!''}" "pos = m_offset it"
      | (not_equal) it1 it2 where "get_char it = CHR ''!''" "iter_incr it = Inr it1" "valid it1"
          "get_char it1 = CHR ''=''" "iter_incr it1 = Inr it2" "consume_loop it2 = Inr pos"
      | (other) it1 where "get_char it \<notin> {CHR ''?'', CHR ''!''}" "iter_incr it = Inr it1" "consume_loop it1 = Inr pos"
      using "1.prems"(1,2) True by (subst (asm) consume_loop.simps) (auto split: if_splits)
    then show ?thesis
    proof cases
      case stop
      then show ?thesis using True by (auto simp: valid_def get_char_def)
    next
      case not_equal
      have p1: "m_s it1 = m_s it" using pr [OF not_equal(2)] True by (simp add: valid_def)
      have "m_s it2 = m_s it" "m_offset it2 \<le> length (m_s it2)"
        using iter_incr_progress [OF not_equal(5)] not_equal(3) p1 "1.prems"(2) by (auto simp: valid_def)
      then show ?thesis
        using "1.IH"(1) [OF g _ not_equal(1,2) _ not_equal(5,6)] not_equal "1.prems"(2) by simp
    next
      case other
      have "m_s it1 = m_s it" "m_offset it1 \<le> length (m_s it1)"
        using pr [OF other(2)] True by (auto simp: valid_def)
      then show ?thesis using "1.IH"(2) [OF g _ _ other(2,3)] other(1) "1.prems"(2) by simp
    qed
  qed
qed

lemma SQL_iterator_start:
  "SQL_iterator s 0 skip dollar =
     iter_settle \<lparr>m_s = s, m_offset = 0, m_skip_quoted = skip, m_dollar_quotes = dollar, m_comment_hint = False\<rparr>"
  by (simp add: SQL_iterator_def iter_incr_def)

lemma consume_at_placeholder:
  assumes "consume_until_next_escape q = Inr q'" "length (format_left q) < npos"
  shows "at_placeholder q' \<and> formatted q' @ format_left q' = formatted q @ format_left q \<and>
    format_flags q' = format_flags q"
proof -
  obtain it where it1: "SQL_iterator (format_left q) 0 True True = Inr it"
    using assms(1) by (auto simp: consume_until_next_escape_def)
  obtain pos where it2: "consume_loop it = Inr pos"
    using assms(1) it1 by (auto simp: consume_until_next_escape_def)
  note it = it1 it2
  have q': "q' = (if pos > 0
       then q\<lparr>formatted := formatted q @ take pos (format_left q),
              format_left := (if pos < length (format_left q) then drop pos (format_left q) else [])\<rparr> else q)"
    using assms(1) unfolding consume_until_next_escape_def it1 it2 rbind_simps
    by (cases "pos > 0") (simp_all only: if_True if_False sum.inject)
  have "m_s it = format_left q" "m_offset it \<le> length (m_s it)"
    using iter_settle_settled [OF _ it(1) [unfolded SQL_iterator_start]] by simp_all
  then have pos: "pos \<le> length (format_left q)"
    "pos < length (format_left q) \<Longrightarrow> format_left q ! pos \<in> {CHR ''?'', CHR ''!''}"
    using consume_loop_stops [OF it(2)] assms(2) by auto
  show ?thesis
    using pos by (cases "format_left q") (auto simp: q' at_placeholder_def hd_drop_conv_nth)
qed

text \<open>The errors that the lexer can report while the next placeholder is searched.\<close>

definition lexer_error :: "cpp_error \<Rightarrow> bool" where
  "lexer_error e \<longleftrightarrow> (case e of
       Invalid_argument m \<Rightarrow> prefix ''Unterminated '' m
     | Out_of_range _ \<Rightarrow> True | Undefined _ \<Rightarrow> True | _ \<Rightarrow> False)"

lemma rbind_Inl_iff: "rbind m f = Inl e \<longleftrightarrow> m = Inl e \<or> (\<exists>x. m = Inr x \<and> f x = Inl e)"
  by (cases m) auto

lemma span_dollar_error:
  "span_dollar_quoted_string_or_dollar_identifier s off = Inl e \<Longrightarrow> lexer_error e"
  by (auto simp: span_dollar_quoted_string_or_dollar_identifier_def Let_def lexer_error_def
      split: option.splits if_splits)

lemma skip_digits_error: "skip_digits s off = Inl e \<Longrightarrow> lexer_error e"
  by (auto simp: skip_digits_def Let_def lexer_error_def split: if_splits)

lemma iter_step_error: "iter_step it = Inl e \<Longrightarrow> lexer_error e"
  by (auto simp: iter_step_def Let_def rbind_Inl_iff dest: span_dollar_error skip_digits_error split: if_splits)

lemma iter_settle_error: "iter_settle it = Inl e \<Longrightarrow> lexer_error e"
proof (induction it rule: iter_settle.induct)
  case (1 it)
  then show ?case
    by (subst (asm) (2) iter_settle.simps)
      (auto simp: rbind_Inl_iff dest: iter_step_error split: if_splits)
qed

lemma iter_incr_error: "iter_incr it = Inl e \<Longrightarrow> lexer_error e"
  by (auto simp: iter_incr_def Let_def lexer_error_def dest: iter_settle_error split: if_splits)

lemma consume_loop_error: "consume_loop it = Inl e \<Longrightarrow> lexer_error e"
proof (induction it rule: consume_loop.induct)
  case (1 it)
  then show ?case
    by (subst (asm) (3) consume_loop.simps)
      (auto simp: rbind_Inl_iff dest: iter_incr_error split: if_splits)
qed

lemma consume_error: "consume_until_next_escape q = Inl e \<Longrightarrow> lexer_error e"
  by (auto simp: consume_until_next_escape_def rbind_Inl_iff SQL_iterator_start
      dest: iter_settle_error consume_loop_error split: if_splits)

lemma internal_not_lexer: "\<not> lexer_error internal_escape_error"
  by (simp add: lexer_error_def internal_escape_error_def)

lemma sql_put_at_placeholder:
  assumes "sql_put q a = Inr q'" "length (format_left q) < npos"
  shows "at_placeholder q' \<and> length (format_left q') < npos"
proof -
  obtain c rest where left: "format_left q = c # rest"
    using assms(1) by (cases "format_left q"; cases a)
      (auto simp: sql_put_string_def sql_put_cstring_def sql_put_number_def sql_put_sqlstring_def next_escape_def)
  obtain piece where c: "consume_until_next_escape (sql_append (q\<lparr>format_left := rest\<rparr>) piece) = Inr q'"
    using assms(1) left
    by (cases a) (auto simp: sql_put_string_def sql_put_cstring_def sql_put_number_def
        sql_put_sqlstring_def next_escape_def split: if_splits option.splits)
  have len: "length (format_left (sql_append (q\<lparr>format_left := rest\<rparr>) piece)) < npos"
    using assms(2) left by (simp add: sql_append_def)
  have "length (format_left q') \<le> length rest"
  proof -
    have "\<exists>pos. format_left q' = drop pos rest \<or> format_left q' = []"
      using c by (auto simp: consume_until_next_escape_def sql_append_def split: if_splits intro: exI [of _ 0])
    then show ?thesis by auto
  qed
  then show ?thesis using consume_at_placeholder [OF c len] assms(2) left by simp
qed

lemma sql_put_all_at_placeholder:
  "sql_put_all q args = Inr q' \<Longrightarrow> at_placeholder q \<Longrightarrow> length (format_left q) < npos \<Longrightarrow> at_placeholder q'"
proof (induction args arbitrary: q)
  case (Cons a args)
  then obtain q1 where "sql_put q a = Inr q1" "sql_put_all q1 args = Inr q'" by auto
  then show ?case using Cons.IH sql_put_at_placeholder [of q a q1] Cons.prems(3) by blast
qed simp

lemma sql_put_not_internal:
  assumes "at_placeholder q"
  shows "sql_put q a \<noteq> Inl internal_escape_error"
proof (cases "format_left q")
  case Nil
  then show ?thesis
    by (cases a) (simp_all add: sql_put_string_def sql_put_cstring_def sql_put_number_def
        sql_put_sqlstring_def next_escape_def internal_escape_error_def)
next
  case (Cons c rest)
  have c: "c = CHR ''?'' \<or> c = CHR ''!''" using assms Cons by (simp add: at_placeholder_def)
  have n: "consume_until_next_escape q' \<noteq> Inl internal_escape_error" for q'
    using consume_error internal_not_lexer by blast
  show ?thesis
    using c n Cons
    by (cases a) (auto simp: sql_put_string_def sql_put_cstring_def sql_put_number_def
        sql_put_sqlstring_def next_escape_def rbind_Inl_iff sql_str_def sql_done_def Let_def
        numeric_escape_error_def internal_escape_error_def split: option.split if_splits)
qed

text \<open>C36: from construction on, after any arguments that were accepted, the unprocessed part of the
  format string is empty or begins with a placeholder; therefore the ``internal error'' of the output
  operators is never thrown.\<close>

theorem sqlstring_internal_error_unreachable:
  assumes "length s < npos" "sqlstring_new s flags = Inr q0" "sql_put_all q0 args = Inr q"
  shows "at_placeholder q \<and> sql_put q a \<noteq> Inl internal_escape_error"
proof -
  have "at_placeholder q0" "format_left q0 = [] \<or> length (format_left q0) \<le> length s"
    using consume_at_placeholder [OF assms(2) [unfolded sqlstring_new_def]] assms(1)
    by (auto dest: arg_cong [where f = length])
  then have "at_placeholder q"
    using sql_put_all_at_placeholder [OF assms(3)] assms(1) npos_def by fastforce
  then show ?thesis using sql_put_not_internal by blast
qed

section \<open>Filling plain text\<close>

text \<open>Text in which the lexer sees nothing but ordinary characters.\<close>

definition plain_char :: "char \<Rightarrow> bool" where
  "plain_char c \<longleftrightarrow> c \<notin> {CHR 0x27, CHR 0x22, CHR 0x60, CHR ''/'', CHR ''*'', CHR 0x23, CHR ''-'', CHR ''$'',
     CHR ''?'', CHR ''!''}"

lemma iter_settle_plain:
  assumes "m_offset it < length (m_s it) \<Longrightarrow> plain_char (get_char it) \<or> get_char it = CHR ''?''"
  shows "iter_settle it = Inr it"
proof (cases "valid it")
  case True
  then have "m_s it ! m_offset it \<notin> {CHR 0x27, CHR 0x22, CHR 0x60, CHR ''/'', CHR ''*'', CHR 0x23, CHR ''-'',
      CHR ''$''}"
    using assms by (auto simp: valid_def get_char_def plain_char_def)
  then have "iter_step it = Inr (True, it)" unfolding iter_step_def Let_def by simp
  then show ?thesis using True by (subst iter_settle.simps) simp
next
  case False
  then show ?thesis by (subst iter_settle.simps) simp
qed

lemma consume_loop_plain:
  assumes "m_s it = a @ rest" "list_all plain_char a" "rest = [] \<or> hd rest = CHR ''?''"
    "length (m_s it) < npos" "m_offset it \<le> length a"
  shows "consume_loop it = Inr (length a)"
  using assms
proof (induction "length a - m_offset it" arbitrary: it)
  case 0
  then have "m_offset it = length a" by simp
  then show ?case
    using 0 by (cases rest) (subst consume_loop.simps, auto simp: valid_def get_char_def nth_append)+
next
  case (Suc n)
  have off: "m_offset it < length a" using Suc.hyps(2) by simp
  then have c: "get_char it = a ! m_offset it" "plain_char (get_char it)" "valid it"
    using Suc.prems by (auto simp: get_char_def nth_append list_all_length valid_def)
  let ?it = "it\<lparr>m_offset := m_offset it + 1\<rparr>"
  have "plain_char (get_char ?it) \<or> get_char ?it = CHR ''?''" if "m_offset ?it < length (m_s ?it)"
    using that Suc.prems off
    by (cases "m_offset it + 1 < length a"; cases rest)
      (auto simp: get_char_def nth_append list_all_length not_less le_antisym Suc_le_eq nth_Cons')
  then have "iter_incr it = Inr ?it"
    using iter_settle_plain [of ?it] off Suc.prems(1,4) by (simp add: iter_incr_def npos_def)
  moreover have "consume_loop ?it = Inr (length a)" using Suc off by simp
  ultimately show ?case
    using c Suc.prems(4) by (subst consume_loop.simps) (auto simp: plain_char_def)
qed

lemma consume_plain:
  assumes "format_left q = a @ rest" "list_all plain_char a" "rest = [] \<or> hd rest = CHR ''?''"
    "length (format_left q) < npos"
  shows "consume_until_next_escape q = Inr (q\<lparr>formatted := formatted q @ a, format_left := rest\<rparr>)"
proof -
  let ?it = "\<lparr>m_s = a @ rest, m_offset = 0, m_skip_quoted = True, m_dollar_quotes = True, m_comment_hint = False\<rparr>"
  have "plain_char (get_char ?it) \<or> get_char ?it = CHR ''?''" if "m_offset ?it < length (m_s ?it)"
    using that assms(2,3) by (cases a) (auto simp: get_char_def hd_conv_nth)
  then have s: "SQL_iterator (format_left q) 0 True True = Inr ?it"
    unfolding SQL_iterator_start assms(1) by (rule iter_settle_plain)
  have l: "consume_loop ?it = Inr (length a)"
    by (rule consume_loop_plain [where a = a and rest = rest]) (use assms in simp_all)
  show ?thesis
    unfolding consume_until_next_escape_def s rbind_simps l
    using assms(1) by (cases "a = []"; cases "rest = []"; cases q) auto
qed

text \<open>The text of an argument in a value position.\<close>

fun arg_text :: "bool \<Rightarrow> sql_arg \<Rightarrow> string" where
  "arg_text nb (Arg_string v) = [CHR 0x27] @ escape_sql_string v (CHR 0x27) False nb @ [CHR 0x27]"
| "arg_text nb (Arg_cstring v) = (case v of Some s \<Rightarrow> quote_sql_string s | None \<Rightarrow> ''NULL'')"
| "arg_text nb (Arg_int i) = show_int i"
| "arg_text nb (Arg_double t) = t"
| "arg_text nb (Arg_sqlstring v) = formatted v @ format_left v"

definition value_arg :: "sql_arg \<Rightarrow> bool" where
  "value_arg a \<longleftrightarrow> (\<forall>v. a \<noteq> Arg_sqlstring v)"

definition after_placeholders :: "string list \<Rightarrow> string" where
  "after_placeholders ps = concat (map (\<lambda>p. CHR ''?'' # p) ps)"

lemma after_placeholders_simps [simp]:
  "after_placeholders [] = []" "after_placeholders (p # ps) = CHR ''?'' # p @ after_placeholders ps"
  by (simp_all add: after_placeholders_def)

lemma after_placeholders_hd: "after_placeholders ps = [] \<or> hd (after_placeholders ps) = CHR ''?''"
  by (cases ps) auto

lemma sql_put_value:
  assumes "format_left q = CHR ''?'' # p @ rest" "list_all plain_char p" "rest = [] \<or> hd rest = CHR ''?''"
    "length (format_left q) < npos" "value_arg a"
  shows "sql_put q a = Inr (q\<lparr>formatted := formatted q @ arg_text (has_flag q NoBackslashEscapes) a @ p,
    format_left := rest\<rparr>)"
proof -
  have c: "consume_until_next_escape (sql_append (q\<lparr>format_left := p @ rest\<rparr>) t) =
      Inr (q\<lparr>formatted := formatted q @ t @ p, format_left := rest\<rparr>)" for t
    using consume_plain [of "sql_append (q\<lparr>format_left := p @ rest\<rparr>) t" p rest] assms(1-4)
    by (simp add: sql_append_def)
  have f: "has_flag (q\<lparr>format_left := l\<rparr>) b = has_flag q b" for l b by (simp add: has_flag_def)
  show ?thesis
    using assms(1,5)
    by (cases a) (auto simp: sql_put_string_def sql_put_cstring_def sql_put_number_def next_escape_def
        c f value_arg_def split: option.split)
qed

lemma sql_put_all_values:
  assumes "format_left q = after_placeholders ps" "list_all (list_all plain_char) ps"
    "list_all value_arg args" "length (format_left q) < npos"
  shows "rbind (sql_put_all q args) (\<lambda>q'. rbind (sql_done q') sql_str) =
    (if length args = length ps
     then Inr (formatted q @ concat (map2 (@) (map (arg_text (has_flag q NoBackslashEscapes)) args) ps))
     else if length args < length ps then Inl (Logic_error ''Unbound placeholders left in query'')
     else Inl (Invalid_argument ''Error formatting SQL query: more arguments than escapes''))"
  using assms
proof (induction args arbitrary: q ps)
  case Nil
  then show ?case by (cases ps) (auto simp: sql_done_def sql_str_def Let_def)
next
  case (Cons a args)
  show ?case
  proof (cases ps)
    case Nil
    then have "next_escape q = Inl (Invalid_argument ''Error formatting SQL query: more arguments than escapes'')"
      using Cons.prems(1) by (simp add: next_escape_def)
    then have "sql_put q a = Inl (Invalid_argument ''Error formatting SQL query: more arguments than escapes'')"
      by (cases a) (simp_all add: sql_put_string_def sql_put_cstring_def sql_put_number_def sql_put_sqlstring_def)
    then show ?thesis using Nil by simp
  next
    case ps: (Cons p ps')
    let ?q = "q\<lparr>formatted := formatted q @ arg_text (has_flag q NoBackslashEscapes) a @ p,
      format_left := after_placeholders ps'\<rparr>"
    have "sql_put q a = Inr ?q"
      using Cons.prems ps after_placeholders_hd by (intro sql_put_value) auto
    moreover have "has_flag ?q b = has_flag q b" for b by (simp add: has_flag_def)
    ultimately show ?thesis using Cons.IH [of ?q ps'] Cons.prems ps by simp
  qed
qed

lemma str_join_placeholders: "ps \<noteq> [] \<Longrightarrow> str_join ps ''?'' = hd ps @ after_placeholders (tl ps)"
proof (induction ps)
  case (Cons p ps)
  then show ?case by (cases ps) (auto simp: str_join_Cons)
qed simp

lemma sqlformat_filled:
  assumes "ps \<noteq> []" "list_all (list_all plain_char) ps" "list_all value_arg args"
    "length (str_join ps ''?'') < npos"
  shows "sqlformat flags (str_join ps ''?'') args =
    (if length args + 1 = length ps
     then Inr (hd ps @ concat (map2 (@) (map (arg_text (flags div 2 mod 2 = 1)) args) (tl ps)))
     else if length args + 1 < length ps then Inl (Logic_error ''Unbound placeholders left in query'')
     else Inl (Invalid_argument ''Error formatting SQL query: more arguments than escapes''))"
proof -
  obtain p ps' where ps: "ps = p # ps'" using assms(1) by (cases ps) auto
  let ?q = "\<lparr>formatted = p, format_left = after_placeholders ps', format_flags = flags\<rparr>"
  have "sqlstring_new (str_join ps ''?'') flags = Inr ?q"
    unfolding sqlstring_new_def str_join_placeholders [OF assms(1)]
    using assms(2,4) ps after_placeholders_hd str_join_placeholders [OF assms(1)]
    by (subst consume_plain [where a = p and rest = "after_placeholders ps'"]) auto
  moreover have "has_flag ?q NoBackslashEscapes \<longleftrightarrow> flags div 2 mod 2 = 1"
    by (simp add: has_flag_def NoBackslashEscapes_def)
  ultimately show ?thesis
    using sql_put_all_values [of ?q ps' args] assms ps str_join_placeholders [OF assms(1)]
    by (simp add: sqlformat_def)
qed

text \<open>C3: a format string of plain pieces with \<^verbatim>\<open>?\<close> between them is filled with the quoted values from left
  to right; with fewer values than placeholders the query is refused as incomplete, and with more of
  them the first superfluous one is refused.\<close>

theorem sqlformat_fills_placeholders:
  assumes "ps \<noteq> []" "list_all (list_all plain_char) ps" "list_all value_arg args"
    "length (str_join ps ''?'') < npos"
  shows "sqlformat flags (str_join ps ''?'') args =
    (if length args + 1 = length ps
     then Inr (hd ps @ concat (map2 (@) (map (arg_text (flags div 2 mod 2 = 1)) args) (tl ps)))
     else if length args + 1 < length ps then Inl (Logic_error ''Unbound placeholders left in query'')
     else Inl (Invalid_argument ''Error formatting SQL query: more arguments than escapes''))"
  by (rule sqlformat_filled [OF assms])

theorem sqlformat_fills_placeholders_witness:
  "sqlformat 0 ''SELECT ?, ?'' [Arg_int 7, Arg_string ''x''] =
     Inr (''SELECT 7, '' @ [CHR 0x27] @ ''x'' @ [CHR 0x27])"
proof -
  have "sqlformat 0 (str_join [''SELECT '', '', '', []] ''?'') [Arg_int 7, Arg_string ''x''] =
      Inr (''SELECT 7, '' @ [CHR 0x27] @ ''x'' @ [CHR 0x27])"
    by (subst sqlformat_fills_placeholders)
      (simp_all add: plain_char_def value_arg_def npos_def escape_sql_string_def escape_sql_char_def
        Let_def backslash_def show_int_def show_nat.simps digit_char_def char_eval)
  then show ?thesis by simp
qed

theorem sqlstring_internal_error_unreachable_witness:
  "sql_put \<lparr>formatted = ''a'', format_left = ''?'', format_flags = 0\<rparr> (Arg_int 1) \<noteq> Inl internal_escape_error"
proof -
  let ?q = "\<lparr>formatted = ''a'', format_left = ''?'', format_flags = 0\<rparr>"
  have "sqlstring_new ''a?'' 0 = Inr ?q"
    unfolding sqlstring_new_def
    by (subst consume_plain [where a = "''a''" and rest = "''?''"]) (simp_all add: plain_char_def npos_def)
  moreover have "length ''a?'' < npos" by (simp add: npos_def)
  ultimately show ?thesis
    using sqlstring_internal_error_unreachable [of "''a?''" 0 ?q "[]" ?q "Arg_int 1"] by simp
qed

end
