(* ===== verification/Account.thy ===== *)
theory Account
  imports Sql_Format
begin

text \<open>
  Model of \<^verbatim>\<open>mysqlshdk/libs/utils/utils_account.{h,cc}\<close>: splitting a MySQL account name into user and host, and
  making an account name from them. A read behind the end of the text is an \<open>Undefined\<close> error.

  The theorems: an account name that was made from a user and a host splits into them again; every
  unquoted user must be nonempty; and how a host with a backtick is auto-quoted.
\<close>

datatype auto_quote = NO | HOST | USER_AND_HOST

record account =
  user :: string
  host :: string

text \<open>The order of accounts: by user, then by host, as bytes.\<close>

definition account_less :: "account \<Rightarrow> account \<Rightarrow> bool" where
  "account_less a b \<longleftrightarrow>
     str_less (user a) (user b) \<or> \<not> str_less (user b) (user a) \<and> str_less (host a) (host b)"

section \<open>String literals\<close>

text \<open>The character that an escape sequence stands for.\<close>

definition unescaped_char :: "char \<Rightarrow> char" where
  "unescaped_char c =
     (if c = CHR ''n'' then CHR 0x0A else if c = CHR ''t'' then CHR 0x09 else if c = CHR ''b'' then CHR 0x08
      else if c = CHR ''r'' then CHR 0x0D else if c = CHR ''0'' then CHR 0x00
      else if c = CHR ''Z'' then CHR 0x1A else c)"

text \<open>
  The loop over a quoted literal, on the rest of the text. \<open>esc\<close> is 0 or the pending escape character: a
  backslash, or the quote itself, which ends the literal unless it is doubled.
\<close>

fun literal_loop :: "char \<Rightarrow> string \<Rightarrow> char \<Rightarrow> nat \<Rightarrow> string \<Rightarrow> (nat \<times> string) result" where
  "literal_loop quote [] esc p out =
     (if esc = quote then Inr (p, out) else Inl (Runtime_error ''Invalid syntax in string literal''))"
| "literal_loop quote (c # cs) esc p out =
     (if esc = quote \<and> c \<noteq> esc then Inr (p, out)
      else if c = CHR 0x22 \<or> c = CHR 0x27 then
        (if quote = c then
           (if esc = quote \<or> esc = backslash
            then literal_loop quote cs (CHR 0x00) (p + 1) (out @ [c])
            else literal_loop quote cs c (p + 1) out)
         else literal_loop quote cs (CHR 0x00) (p + 1) (out @ [c]))
      else if c = backslash then
        (if esc = backslash then literal_loop quote cs (CHR 0x00) (p + 1) (out @ [c])
         else if esc = CHR 0x00 then literal_loop quote cs backslash (p + 1) out
         else Inr (p + 1, out))
      else
        (if esc = backslash then literal_loop quote cs (CHR 0x00) (p + 1) (out @ [unescaped_char c])
         else if esc = CHR 0x00 then literal_loop quote cs esc (p + 1) (out @ [c])
         else Inr (p + 1, out)))"

definition literal_char :: "char \<Rightarrow> bool" where
  "literal_char c \<longleftrightarrow> isalnum c \<or> c = CHR ''_'' \<or> c = CHR ''$'' \<or> c = CHR ''.'' \<or> c = CHR ''%''"

definition span_quotable_string_literal :: "string \<Rightarrow> nat \<Rightarrow> bool \<Rightarrow> (nat \<times> string) result" where
  "span_quotable_string_literal s p allow_number_at_beginning =
     (if length s \<le> p then Inr (p, [])
      else let quote = s ! p
           in if quote \<noteq> CHR 0x27 \<and> quote \<noteq> CHR 0x22 then
                (if \<not> isalpha quote \<and> \<not> (allow_number_at_beginning \<and> isdigit quote) \<and> quote \<noteq> CHR ''_'' \<and>
                    quote \<noteq> CHR ''$'' \<and> quote \<noteq> CHR ''%''
                 then Inl (Runtime_error ''Invalid character in string literal'')
                 else let out = takeWhile literal_char (drop p s) in Inr (p + length out, out))
              else literal_loop quote (drop (p + 1) s) (CHR 0x00) (p + 1) [])"

section \<open>Hosts\<close>

text \<open>
  A literal that is in error and may not be auto-quoted leaves the position at 0, which \<open>split_account\<close> then
  reports as an error of its own; what was written to the output before is never read.
\<close>

definition relaxed_literal :: "string \<Rightarrow> nat \<Rightarrow> bool \<Rightarrow> bool \<Rightarrow> (nat \<times> string) result" where
  "relaxed_literal s p quoted auto_quote_hosts =
     (let literal = span_quotable_string_literal s p True;
          try_quoting =
            (case literal of
               Inr (res, _) \<Rightarrow> res < length s \<and> auto_quote_hosts \<and> \<not> quoted
             | Inl _ \<Rightarrow> auto_quote_hosts)
      in if try_quoting
         then span_quotable_string_literal
                (take p s @ [CHR 0x27] @ escape_backticks (drop p s) @ [CHR 0x27]) p True
         else case literal of Inr r \<Rightarrow> Inr r | Inl _ \<Rightarrow> Inr (0, []))"

definition span_account_hostname_relaxed :: "string \<Rightarrow> nat \<Rightarrow> bool \<Rightarrow> (nat \<times> string) result" where
  "span_account_hostname_relaxed s p auto_quote_hosts =
     (if length s \<le> p then Inr (p, [])
      else if find_char (CHR ''@'') s p \<noteq> None
      then Inl (Runtime_error (''Malformed hostname (illegal symbol: '' @ [CHR 0x27] @ ''@'' @ [CHR 0x27] @ '')''))
      else if s ! p = CHR 0x60 then span_quotable_sql_identifier s p False
      else if s ! p = s ! (length s - 1) \<and> (s ! p = CHR 0x27 \<or> s ! p = CHR 0x22)
      then relaxed_literal s p True auto_quote_hosts
      else if find_char (CHR 0x27) s p \<noteq> None \<or> find_char (CHR 0x22) s p \<noteq> None
      then Inl (Runtime_error (''Malformed hostname. Cannot use '' @ [CHR 0x22, CHR 0x27, CHR 0x22] @ '' or '' @
             [CHR 0x27, CHR 0x22, CHR 0x27] @ '' characters on the hostname without quotes''))
      else relaxed_literal s p False auto_quote_hosts)"

section \<open>Accounts\<close>

text \<open>The user part: its end (\<open>None\<close> when there is no host separator) and its value.\<close>

definition split_user :: "string \<Rightarrow> auto_quote \<Rightarrow> (nat option \<times> string) result" where
  "split_user acc auto_quote =
     (if acc = [] then Inl (Runtime_error ''User name must not be empty.'')
      else if acc ! 0 = CHR 0x60 then
        rbind (span_quotable_sql_identifier acc 0 False) (\<lambda>(pos, out). Inr (Some pos, out))
      else if acc ! 0 = CHR 0x27 \<or> acc ! 0 = CHR 0x22 then
        rbind (span_quotable_string_literal acc 0 False) (\<lambda>(pos, out). Inr (Some pos, out))
      else
        let pos = rfind_idx (\<lambda>c. c = CHR ''@'') acc
        in if pos = Some 0 then Inl (Runtime_error ''User name must not be empty.'')
           else if auto_quote \<noteq> USER_AND_HOST \<and>
                   (case pos of None \<Rightarrow> False
                    | Some p \<Rightarrow> rfind_idx (\<lambda>c. c = CHR ''@'') (take p acc) \<noteq> None)
           then Inl (Runtime_error (''Invalid user name: '' @
                  (case pos of None \<Rightarrow> acc | Some p \<Rightarrow> take p acc)))
           else Inr (pos, case pos of None \<Rightarrow> acc | Some p \<Rightarrow> take p acc))"

definition split_account :: "string \<Rightarrow> auto_quote \<Rightarrow> account result" where
  "split_account acc auto_quote =
     rbind (split_user acc auto_quote) (\<lambda>(pos, u).
       case pos of
         None \<Rightarrow> Inr \<lparr>user = u, host = []\<rparr>
       | Some p \<Rightarrow>
           if p \<ge> length acc then Inl (Undefined ''split_account: account[pos] behind the end'')
           else rbind
             (if acc ! p = CHR ''@'' then
                (if p + 1 < length acc then
                   (if drop (p + 1) acc = ''skip-grants host'' then Inr (length acc, ''skip-grants host'')
                    else span_account_hostname_relaxed acc (p + 1) (auto_quote \<noteq> NO))
                 else Inr (p + 1, []))
              else Inr (p, [])) (\<lambda>(end_pos, h).
             if end_pos < length acc
             then Inl (Runtime_error (''Invalid syntax in account name '' @ [CHR 0x27] @ acc @ [CHR 0x27]))
             else Inr \<lparr>user = u, host = h\<rparr>))"

fun to_accounts :: "string list \<Rightarrow> auto_quote \<Rightarrow> account list result" where
  "to_accounts [] auto_quote = Inr []"
| "to_accounts (i # c) auto_quote =
     rbind (split_account i auto_quote) (\<lambda>a. rbind (to_accounts c auto_quote) (\<lambda>as. Inr (a # as)))"

definition make_account :: "string \<Rightarrow> string \<Rightarrow> bool \<Rightarrow> string result" where
  "make_account u h no_backslash_escapes =
     rbind (sqlstring_new ''?@?'' (if no_backslash_escapes then NoBackslashEscapes else 0)) (\<lambda>q.
     rbind (sql_put_string q u) (\<lambda>q.
     rbind (sql_put_string q h) sql_str))"

definition make_account_of :: "account \<Rightarrow> string result" where
  "make_account_of a = make_account (user a) (host a) False"

definition show_account :: "account \<Rightarrow> string" where
  "show_account a = [CHR 0x60] @ user a @ [CHR 0x60, CHR ''@'', CHR 0x60] @ host a @ [CHR 0x60]"

section \<open>Round trip\<close>

lemma make_account_eq: "make_account u h False = Inr (quote_sql_string u @ ''@'' @ quote_sql_string h)"
proof -
  let ?q = "\<lambda>f l. \<lparr>formatted = f, format_left = l, format_flags = 0\<rparr>"
  have n: "sqlstring_new ''?@?'' 0 = Inr (?q [] ''?@?'')"
    unfolding sqlstring_new_def
    by (subst consume_plain [where a = "[]" and rest = "''?@?''"]) (simp_all add: npos_def)
  have p1: "sql_put (?q [] ''?@?'') (Arg_string u) = Inr (?q (quote_sql_string u @ ''@'') ''?'')"
    by (subst sql_put_value [where p = "''@''" and rest = "''?''"])
      (simp_all add: npos_def plain_char_def value_arg_def has_flag_def NoBackslashEscapes_def quote_sql_string_def)
  have p2: "sql_put (?q f ''?'') (Arg_string h) = Inr (?q (f @ quote_sql_string h) [])" for f
    by (subst sql_put_value [where p = "[]" and rest = "[]"])
      (simp_all add: npos_def value_arg_def has_flag_def NoBackslashEscapes_def quote_sql_string_def)
  show ?thesis
    using n p1 p2 [of "quote_sql_string u @ ''@''"]
    by (simp add: make_account_def sql_str_def sql_done_def)
qed

lemma literal_loop_char:
  "literal_loop (CHR 0x27) (escape_sql_char (CHR 0x27) False False ch @ cs) (CHR 0x00) p out =
     literal_loop (CHR 0x27) cs (CHR 0x00) (p + length (escape_sql_char (CHR 0x27) False False ch)) (out @ [ch])"
proof -
  have e: "ord ch = 0 \<longleftrightarrow> ch = CHR 0x00" using ord_inj [of ch "CHR 0x00"] by (simp del: ord_inj)
  show ?thesis
  proof (cases "ch \<in> {CHR 0x00, CHR 0x0A, CHR 0x0D, backslash, CHR 0x27, CHR 0x1A}")
    case True
    then show ?thesis
      by (elim insertE emptyE) (simp_all add: escape_sql_char_def backslash_def Let_def unescaped_char_def)
  next
    case False
    then have "escape_sql_char (CHR 0x27) False False ch = [ch]" "ch \<noteq> backslash" "ch \<noteq> CHR 0x27"
      by (auto simp: escape_sql_char_def e)
    then show ?thesis by (auto simp: backslash_def)
  qed
qed

lemma literal_loop_escape:
  assumes "rest = [] \<or> hd rest \<noteq> CHR 0x27"
  shows "literal_loop (CHR 0x27) (escape_sql_string s (CHR 0x27) False False @ CHR 0x27 # rest) (CHR 0x00) p out =
    Inr (p + length (escape_sql_string s (CHR 0x27) False False) + 1, out @ s)"
proof (induction s arbitrary: p out)
  case Nil
  show ?case using assms by (cases rest) (auto simp: escape_sql_string_def backslash_def)
next
  case (Cons ch s)
  then show ?case by (simp add: escape_sql_string_def literal_loop_char)
qed

text \<open>A quoted string is read back at any place where no further quote follows.\<close>

lemma span_literal_quoted:
  assumes "rest = [] \<or> hd rest \<noteq> CHR 0x27"
  shows "span_quotable_string_literal (pre @ quote_sql_string s @ rest) (length pre) num =
    Inr (length pre + length (quote_sql_string s), s)"
  using literal_loop_escape [OF assms, of s "Suc (length pre)" "[]"]
  by (simp add: span_quotable_string_literal_def Let_def quote_sql_string_def)

lemma escape_no_at: "CHR ''@'' \<notin> set s \<Longrightarrow> CHR ''@'' \<notin> set (escape_sql_string s (CHR 0x27) False False)"
  by (auto simp: escape_sql_string_def escape_sql_char_def Let_def backslash_def split: if_splits)

lemma find_char_None: "find_char c s p = None \<longleftrightarrow> c \<notin> set (drop p s)"
  by (auto simp: find_from_def find_idx_None_iff)

lemma relaxed_host_quoted:
  assumes "CHR ''@'' \<notin> set h"
  shows "span_account_hostname_relaxed (pre @ quote_sql_string h) (length pre) auto_quote_hosts =
    Inr (length (pre @ quote_sql_string h), h)"
proof -
  have "CHR ''@'' \<notin> set (quote_sql_string h)" using escape_no_at [OF assms] by (simp add: quote_sql_string_def)
  moreover have "last (quote_sql_string h) = CHR 0x27" "quote_sql_string h ! 0 = CHR 0x27" "quote_sql_string h \<noteq> []"
    by (simp_all add: quote_sql_string_def)
  moreover have "(pre @ quote_sql_string h) ! (length (pre @ quote_sql_string h) - 1) = last (quote_sql_string h)"
    using calculation by (metis append_is_Nil_conv last_appendR last_conv_nth)
  ultimately show ?thesis
    using span_literal_quoted [of "[]" pre h True]
    by (simp add: span_account_hostname_relaxed_def relaxed_literal_def find_char_None nth_append Let_def)
qed

text \<open>
  C1: An account name that make_account builds from a user and a host without @ is split again into exactly
  that user and that host, whatever quotes, backslashes, control characters and @ signs the user holds, and
  with every auto-quoting mode.
\<close>

theorem split_make_account_roundtrip:
  assumes "CHR ''@'' \<notin> set h"
  shows "\<exists>t. make_account u h False = Inr t \<and> split_account t mode = Inr \<lparr>user = u, host = h\<rparr>"
proof (intro exI conjI)
  let ?t = "quote_sql_string u @ ''@'' @ quote_sql_string h" and ?n = "length (quote_sql_string u)"
  have hd: "?t \<noteq> []" "?t ! 0 = CHR 0x27" by (simp_all add: quote_sql_string_def)
  have "split_user ?t mode = Inr (Some ?n, u)"
    using hd span_literal_quoted [of "''@'' @ quote_sql_string h" "[]" u False] by (simp add: split_user_def)
  moreover have "drop (?n + 1) ?t = quote_sql_string h" "?t ! ?n = CHR ''@''" by simp_all
  moreover have "quote_sql_string h \<noteq> ''skip-grants host''" by (simp add: quote_sql_string_def)
  moreover have "span_account_hostname_relaxed ?t (?n + 1) b = Inr (length ?t, h)" for b
    using relaxed_host_quoted [OF assms, of "quote_sql_string u @ ''@''" b] by simp
  moreover have "?n + 1 < length ?t" by (simp add: quote_sql_string_def)
  ultimately show "split_account ?t mode = Inr \<lparr>user = u, host = h\<rparr>"
    by (simp add: split_account_def del: drop_append nth_append_length length_append)
qed (rule make_account_eq)

theorem split_make_account_roundtrip_witness:
  "\<exists>t. make_account ''o'' ''%'' False = Inr t \<and> split_account t HOST = Inr \<lparr>user = ''o'', host = ''%''\<rparr>"
  by (rule split_make_account_roundtrip) simp

text \<open>
  A host that needs quoting is quoted with single quotes but escaped with the function for backticks, so a
  backtick of the host is doubled.
\<close>

theorem split_account_doubles_backtick:
  "split_account ''u@a`b'' HOST = Inr \<lparr>user = ''u'', host = ''a``b''\<rparr>"
  by code_simp

section \<open>Order\<close>

lemma account_less_iff:
  "account_less a b \<longleftrightarrow> str_less (user a) (user b) \<or> user a = user b \<and> str_less (host a) (host b)"
  unfolding account_less_def using str_less_linear str_less_irrefl str_less_trans by metis

text \<open>The order makes the accounts a linear order, so that the library's sorted containers apply to them.\<close>

instantiation account_ext :: (linorder) linorder
begin

definition less_account_ext :: "'a account_scheme \<Rightarrow> 'a account_scheme \<Rightarrow> bool" where
  "less_account_ext a b \<longleftrightarrow>
     str_less (user a) (user b) \<or> user a = user b \<and>
       (str_less (host a) (host b) \<or> host a = host b \<and> account.more a < account.more b)"

definition less_eq_account_ext :: "'a account_scheme \<Rightarrow> 'a account_scheme \<Rightarrow> bool" where
  "less_eq_account_ext a b \<longleftrightarrow> a < b \<or> a = b"

instance
proof
  fix x y z :: "'a account_scheme"
  have irr: "\<not> a < a" for a :: "'a account_scheme" by (simp add: less_account_ext_def str_less_irrefl)
  have tr: "a < c" if "a < b" "b < c" for a b c :: "'a account_scheme"
    using that str_less_trans [of "user a" "user b" "user c"] str_less_trans [of "host a" "host b" "host c"]
      less_trans [of "account.more a" "account.more b" "account.more c"]
    unfolding less_account_ext_def by (elim disjE conjE) simp_all
  have lin: "a < b \<or> a = b \<or> b < a" for a b :: "'a account_scheme"
    unfolding less_account_ext_def
    using str_less_linear [of "user a" "user b"] str_less_linear [of "host a" "host b"]
      linorder_less_linear [of "account.more a" "account.more b"]
    by (cases a; cases b) auto
  show "(x < y) = (x \<le> y \<and> \<not> y \<le> x)"
    using irr [of x] tr [of x y x] by (auto simp: less_eq_account_ext_def)
  show "x \<le> x" by (simp add: less_eq_account_ext_def)
  show "x \<le> y \<Longrightarrow> y \<le> z \<Longrightarrow> x \<le> z" using tr [of x y z] by (auto simp: less_eq_account_ext_def)
  show "x \<le> y \<Longrightarrow> y \<le> x \<Longrightarrow> x = y"
    using irr [of x] tr [of x y x] by (auto simp: less_eq_account_ext_def)
  show "x \<le> y \<or> y \<le> x" using lin [of x y] by (auto simp: less_eq_account_ext_def)
qed

end

lemma account_less_is_less: "account_less a b \<longleftrightarrow> a < (b :: account)"
  by (auto simp: account_less_iff less_account_ext_def)

end
