(* ===== verification/Sql_Injection.thy ===== *)
theory Sql_Injection
  imports Sql_Format
begin

text \<open>
  The formatter of statements against the lexer: the characters that the iterator of
  \<^verbatim>\<open>utils_lexing.cc\<close> reads as code in a filled statement are those of the format string, whatever the string
  values are. It rests on the quoting of \<open>Sql_String\<close>, the iterator of \<open>Sql_Iterator\<close> and the formatter of
  \<open>Sql_Format\<close>.
\<close>

text \<open>The characters visited by \<^verbatim>\<open>for (; it.valid(); ++it)\<close>.\<close>

function code_chars :: "sql_iterator \<Rightarrow> string result" where
  "code_chars it =
     (if valid it \<and> length (m_s it) < npos
      then rbind (iter_incr it) (\<lambda>it'. rbind (code_chars it') (\<lambda>cs. Inr (get_char it # cs)))
      else Inr [])"
  by pat_completeness auto
termination
  by (relation "measure (\<lambda>it. length (m_s it) - m_offset it)")
    (auto simp: valid_def dest!: iter_incr_progress)

declare code_chars.simps [simp del]

text \<open>The code of a statement: what is left of it without quoted text and comments.\<close>

definition code_text :: "string \<Rightarrow> string result" where
  "code_text s = rbind (SQL_iterator s 0 True True) code_chars"

definition code_from :: "string \<Rightarrow> nat \<Rightarrow> string result" where
  "code_from s off =
     rbind (iter_settle \<lparr>m_s = s, m_offset = off, m_skip_quoted = True, m_dollar_quotes = True,
              m_comment_hint = False\<rparr>) code_chars"

lemma code_text_from: "code_text s = code_from s 0"
  by (simp add: code_text_def code_from_def SQL_iterator_start)

lemma code_from_end: "code_from s (length s) = Inr []"
  unfolding code_from_def
  by (subst iter_settle.simps) (simp add: valid_def code_chars.simps)

lemma code_from_plain:
  assumes "plain_char c" "length (pre @ c # rest) < npos"
  shows "code_from (pre @ c # rest) (length pre) =
    rbind (code_from (pre @ c # rest) (length pre + 1)) (\<lambda>cs. Inr (c # cs))"
proof -
  let ?it = "\<lambda>k. \<lparr>m_s = pre @ c # rest, m_offset = k, m_skip_quoted = True, m_dollar_quotes = True,
    m_comment_hint = False\<rparr>"
  have g: "get_char (?it (length pre)) = c" by (simp add: get_char_def)
  have "iter_settle (?it (length pre)) = Inr (?it (length pre))"
    by (rule iter_settle_plain) (simp add: g assms(1))
  moreover have "iter_incr (?it (length pre)) = iter_settle (?it (length pre + 1))"
    using assms(2) by (simp add: iter_incr_def npos_def)
  ultimately show ?thesis
    using assms(2) g unfolding code_from_def
    by (cases "iter_settle (?it (length pre + 1))") (simp_all add: code_chars.simps [of "?it (length pre)"] valid_def)
qed

lemma code_from_quoted:
  "code_from (pre @ quote_sql_string v @ rest) (length pre) =
     code_from (pre @ quote_sql_string v @ rest) (length pre + length (quote_sql_string v))"
proof -
  have "(pre @ quote_sql_string v @ rest) ! length pre = CHR 0x27" by (simp add: quote_sql_string_def)
  then show ?thesis
    using span_quoted_quote_sql_string [of pre v rest] unfolding code_from_def
    by (subst iter_settle.simps) (simp add: valid_def iter_step_def Let_def quote_sql_string_def)
qed

lemma code_from_plain_piece:
  "list_all plain_char p \<Longrightarrow> length (pre @ p @ rest) < npos \<Longrightarrow>
     code_from (pre @ p @ rest) (length pre) =
       rbind (code_from (pre @ p @ rest) (length pre + length p)) (\<lambda>cs. Inr (p @ cs))"
proof (induction p arbitrary: pre)
  case Nil
  then show ?case by (cases "code_from (pre @ rest) (length pre)") simp_all
next
  case (Cons c p)
  then show ?case
    using code_from_plain [of c pre "p @ rest"] Cons.IH [of "pre @ [c]"]
    by (cases "code_from (pre @ c # p @ rest) (length pre + Suc (length p))") simp_all
qed

lemma code_from_filled:
  "list_all (list_all plain_char) ps \<Longrightarrow> length vs = length ps \<Longrightarrow>
     length (pre @ concat (map2 (\<lambda>v p. quote_sql_string v @ p) vs ps)) < npos \<Longrightarrow>
     code_from (pre @ concat (map2 (\<lambda>v p. quote_sql_string v @ p) vs ps)) (length pre) = Inr (concat ps)"
proof (induction ps arbitrary: vs pre)
  case Nil
  then show ?case using code_from_end [of pre] by simp
next
  case (Cons p ps)
  then obtain v vs' where vs: "vs = v # vs'" by (cases vs) auto
  let ?rest = "concat (map2 (\<lambda>v p. quote_sql_string v @ p) vs' ps)"
  have "code_from (pre @ quote_sql_string v @ p @ ?rest) (length (pre @ quote_sql_string v @ p)) = Inr (concat ps)"
    using Cons.IH [of vs' "pre @ quote_sql_string v @ p"] Cons.prems vs by simp
  then show ?case
    using Cons.prems vs code_from_quoted [of pre v "p @ ?rest"]
      code_from_plain_piece [of p "pre @ quote_sql_string v" ?rest]
    by (simp add: add.assoc)
qed

text \<open>C2: filling a statement with strings cannot change its code: for a format string that consists of plain pieces (none of the quotes, the backtick and
  \<^verbatim>\<open>/ * # - $ ? !\<close>) with \<^verbatim>\<open>?\<close> between them, as many string values as placeholders, no flags, and lengths below \<^verbatim>\<open>npos\<close>, the statement is built, and the
  characters of it that the lexer reads outside quoted text and comments are exactly those of the pieces, whatever the values contain.\<close>

theorem sqlformat_no_injection:
  assumes "ps \<noteq> []" "list_all (list_all plain_char) ps" "length vs + 1 = length ps"
    "length (str_join ps ''?'') < npos"
    "length (hd ps @ concat (map2 (\<lambda>v p. quote_sql_string v @ p) vs (tl ps))) < npos"
  shows "rbind (sqlformat 0 (str_join ps ''?'') (map Arg_string vs)) code_text = Inr (concat ps)"
proof -
  obtain p ps' where ps: "ps = p # ps'" using assms(1) by (cases ps) auto
  let ?t = "p @ concat (map2 (\<lambda>v p. quote_sql_string v @ p) vs ps')"
  have "map2 (@) (map (arg_text False) (map Arg_string vs)) ps' = map2 (\<lambda>v p. quote_sql_string v @ p) vs ps'"
    by (simp add: zip_map1 quote_sql_string_def comp_def case_prod_beta)
  then have f: "sqlformat 0 (str_join ps ''?'') (map Arg_string vs) = Inr ?t"
    using sqlformat_filled [OF assms(1,2) _ assms(4), of "map Arg_string vs" 0] assms(3) ps
    by (simp add: list_all_iff value_arg_def)
  have "code_from ?t (length p) = Inr (concat ps')"
    using code_from_filled [of ps' vs p] assms ps by simp
  then have "code_from ?t 0 = Inr (concat ps)"
    using code_from_plain_piece [of p "[]" "concat (map2 (\<lambda>v p. quote_sql_string v @ p) vs ps')"] assms ps by simp
  then show ?thesis using f by (simp add: code_text_from)
qed

theorem sqlformat_no_injection_witness:
  "rbind (sqlformat 0 (str_join [''WHERE a = '', '' ''] ''?'')
       (map Arg_string [[CHR 0x27] @ '' OR 1'' @ [CHR 0x23]])) code_text = Inr ''WHERE a =  ''"
  by (subst sqlformat_no_injection)
    (simp_all add: plain_char_def npos_def quote_sql_string_def escape_sql_string_def escape_sql_char_def
      Let_def backslash_def)

end
