(* ===== verification/Allocator.thy ===== *)
theory Allocator
  imports Prelude "HOL-Library.Multiset"
begin

text \<open>
  Model of \<^verbatim>\<open>mysqlshdk/libs/storage/backend/in_memory/allocator.{h,cc}\<close>: fixed size memory blocks served from
  pages. Pointers are addresses. The address of a new page comes from the operating system, through
  \<^verbatim>\<open>std::make_unique\<close>: it is the parameter \<open>heap\<close>, which is given the addresses of the live pages and may fail
  (\<^verbatim>\<open>std::bad_alloc\<close>). The two sets of pages, which are ordered by address, are sorted lists. The mutex makes
  every public operation one step.

  The lemmas: every operation keeps the invariant \<open>alloc_ok\<close>, also when memory runs out; blocks that
  are handed out are distinct and not in use; freeing returns them. They are collected in the contract
  \<open>block_pool\<close>, which the users of the allocator rely on. The theorems: in every state that is reached blocks in use can be freed;
  unless a request has failed there is at most one empty page, and when all blocks are returned the assertions of the destructor hold.
\<close>

section \<open>State\<close>

record page =
  m_memory :: nat
  page_available :: "nat list"

record allocator =
  m_blocks_per_page :: nat
  m_block_size :: nat
  m_page_size :: nat
  m_pages :: "page list"
  m_full_pages :: "page list"
  m_empty_page :: "nat option"
  m_available_blocks :: nat

type_synonym heap = "nat list \<Rightarrow> nat option"

section \<open>Pages\<close>

fun page_loop :: "nat \<Rightarrow> nat \<Rightarrow> nat \<Rightarrow> nat list" where
  "page_loop 0 ptr block_size = []"
| "page_loop (Suc i) ptr block_size = (ptr - block_size) # page_loop i (ptr - block_size) block_size"

definition new_page :: "nat \<Rightarrow> nat \<Rightarrow> nat \<Rightarrow> nat \<Rightarrow> page" where
  "new_page memory page_size blocks block_size =
     \<lparr>m_memory = memory, page_available = page_loop blocks (memory + page_size) block_size\<rparr>"

text \<open>Blocks are taken from the back of the vector. The result: the number of blocks, the page and the
  extended container.\<close>

fun use_blocks :: "nat \<Rightarrow> page \<Rightarrow> nat list \<Rightarrow> nat \<times> page \<times> nat list" where
  "use_blocks 0 p r = (0, p, r)"
| "use_blocks (Suc blocks) p r =
     (if page_available p = [] then (0, p, r)
      else let (used, p', r') = use_blocks blocks (p\<lparr>page_available := butlast (page_available p)\<rparr>)
                                  (r @ [last (page_available p)])
           in (used + 1, p', r'))"

text \<open>The ordered set of pages: insertion, and the search for the page of a block with the transparent
  comparator, whose \<open>m_page_size\<close> is the page size less one.\<close>

definition page_insert :: "page \<Rightarrow> page list \<Rightarrow> page list" where
  "page_insert p ps = insort_key m_memory p ps"

definition page_holds :: "nat \<Rightarrow> nat \<Rightarrow> page \<Rightarrow> bool" where
  "page_holds page_size block p \<longleftrightarrow> \<not> m_memory p + (page_size - 1) < block \<and> \<not> block < m_memory p"

definition page_find :: "nat \<Rightarrow> nat \<Rightarrow> page list \<Rightarrow> page option" where
  "page_find page_size block ps = find (page_holds page_size block) ps"

definition page_erase :: "nat \<Rightarrow> page list \<Rightarrow> page list" where
  "page_erase memory ps = filter (\<lambda>p. m_memory p \<noteq> memory) ps"

text \<open>A change of a page through its pointer.\<close>

definition put_page :: "page \<Rightarrow> page list \<Rightarrow> page list" where
  "put_page p' ps = map (\<lambda>q. if m_memory q = m_memory p' then p' else q) ps"

section \<open>Allocation\<close>

definition block_count :: "allocator \<Rightarrow> nat \<Rightarrow> nat" where
  "block_count a memory = (memory + m_block_size a - 1) mod 2 ^ 64 div m_block_size a"

definition add_page :: "heap \<Rightarrow> allocator \<Rightarrow> allocator result" where
  "add_page heap a =
     (case heap (map m_memory (m_pages a @ m_full_pages a)) of
        None \<Rightarrow> Inl Bad_alloc
      | Some memory \<Rightarrow>
          Inr (a\<lparr>m_empty_page := Some memory,
                 m_pages := page_insert
                   (new_page memory (m_page_size a) (m_blocks_per_page a) (m_block_size a)) (m_pages a),
                 m_available_blocks := m_available_blocks a + m_blocks_per_page a\<rparr>))"

definition new_allocator :: "heap \<Rightarrow> nat \<Rightarrow> nat \<Rightarrow> allocator result" where
  "new_allocator heap page_size block_size =
     (if block_size = 0 then Inl (Runtime_error ''The block size cannot be 0'')
      else let blocks_per_page = page_size div block_size
           in if blocks_per_page = 0 then Inl (Runtime_error ''The page size cannot be 0'')
              else add_page heap \<lparr>m_blocks_per_page = blocks_per_page, m_block_size = block_size,
                     m_page_size = blocks_per_page * block_size, m_pages = [], m_full_pages = [],
                     m_empty_page = None, m_available_blocks = 0\<rparr>)"

text \<open>\<^verbatim>\<open>while (blocks > m_available_blocks) add_page();\<close> The constructor makes the number of blocks of a page
  positive. An exception leaves the pages that were added before.\<close>

function add_pages :: "heap \<Rightarrow> nat \<Rightarrow> allocator \<Rightarrow> cpp_error option \<times> allocator" where
  "add_pages heap blocks a =
     (if blocks > m_available_blocks a \<and> m_blocks_per_page a > 0 then
        (case add_page heap a of Inl e \<Rightarrow> (Some e, a) | Inr a' \<Rightarrow> add_pages heap blocks a')
      else (None, a))"
  by pat_completeness auto
termination
  by (relation "measure (\<lambda>(_, blocks, a). blocks - m_available_blocks a)")
    (auto simp: add_page_def split: option.splits)

declare add_pages.simps [simp del]

text \<open>One turn of the loop that takes blocks from the first page.\<close>

definition take_from_first :: "nat \<Rightarrow> allocator \<Rightarrow> nat list \<Rightarrow> (nat \<times> allocator \<times> nat list) result" where
  "take_from_first blocks a r =
     (case m_pages a of
        [] \<Rightarrow> Inl (Undefined ''Allocator::allocate: no page'')
      | page # rest \<Rightarrow>
          let (allocated, page', r') = use_blocks blocks page r;
              a1 = (if m_empty_page a = Some (m_memory page) then a\<lparr>m_empty_page := None\<rparr> else a);
              a2 = (if page_available page' = []
                    then a1\<lparr>m_pages := rest, m_full_pages := page_insert page' (m_full_pages a)\<rparr>
                    else a1\<lparr>m_pages := page' # rest\<rparr>)
          in if allocated = 0 then Inl (Undefined ''Allocator::allocate: assert(allocated > 0)'')
             else Inr (allocated, a2\<lparr>m_available_blocks := m_available_blocks a - allocated\<rparr>, r'))"

function take_blocks :: "nat \<Rightarrow> allocator \<Rightarrow> nat list \<Rightarrow> (nat list \<times> allocator) result" where
  "take_blocks blocks a r =
     (if blocks = 0 then Inr (r, a)
      else rbind (take_from_first blocks a r) (\<lambda>(allocated, a', r').
             take_blocks (blocks - allocated) a' r'))"
  by pat_completeness auto
termination
  by (relation "measure (\<lambda>(blocks, _). blocks)")
    (auto simp: take_from_first_def Let_def split: list.splits prod.splits if_splits)

declare take_blocks.simps [simp del]

definition allocate :: "heap \<Rightarrow> allocator \<Rightarrow> nat \<Rightarrow> nat list result \<times> allocator" where
  "allocate heap a memory =
     (let blocks = block_count a memory
      in case add_pages heap blocks a of
           (Some e, a') \<Rightarrow> (Inl e, a')
         | (None, a') \<Rightarrow>
             (case take_blocks blocks a' [] of
                Inl e \<Rightarrow> (Inl e, a')
              | Inr (r, a'') \<Rightarrow> (Inr r, a'')))"

definition allocate_blocks :: "heap \<Rightarrow> allocator \<Rightarrow> nat \<Rightarrow> nat list result \<times> allocator" where
  "allocate_blocks heap a blocks = allocate heap a (blocks * m_block_size a mod 2 ^ 64)"

definition allocate_block :: "heap \<Rightarrow> allocator \<Rightarrow> nat result \<times> allocator" where
  "allocate_block heap a =
     (case allocate_blocks heap a 1 of
        (Inl e, a') \<Rightarrow> (Inl e, a')
      | (Inr [], a') \<Rightarrow> (Inl (Undefined ''Allocator::allocate_block: front of an empty vector''), a')
      | (Inr (b # _), a') \<Rightarrow> (Inr b, a'))"

section \<open>Release\<close>

definition remove_page :: "nat \<Rightarrow> allocator \<Rightarrow> allocator" where
  "remove_page memory a =
     a\<lparr>m_pages := page_erase memory (m_pages a),
       m_available_blocks := m_available_blocks a - m_blocks_per_page a\<rparr>"

text \<open>A block that belongs to no page makes the code dereference the end of the set.\<close>

definition free_block :: "nat \<Rightarrow> allocator \<Rightarrow> allocator result" where
  "free_block block a =
     (let a1 = (case page_find (m_page_size a) block (m_full_pages a) of
                  Some full \<Rightarrow> a\<lparr>m_full_pages := page_erase (m_memory full) (m_full_pages a),
                                m_pages := page_insert full (m_pages a)\<rparr>
                | None \<Rightarrow> a)
      in case page_find (m_page_size a) block (m_pages a1) of
           None \<Rightarrow> Inl (Undefined ''Allocator::free_block: page not found'')
         | Some page \<Rightarrow>
             let page' = page\<lparr>page_available := page_available page @ [block]\<rparr>;
                 a2 = a1\<lparr>m_pages := put_page page' (m_pages a1),
                         m_available_blocks := m_available_blocks a + 1\<rparr>
             in Inr (if m_blocks_per_page a = length (page_available page')
                     then (if m_empty_page a \<noteq> None then remove_page (m_memory page) a2
                           else a2\<lparr>m_empty_page := Some (m_memory page)\<rparr>)
                     else a2))"

definition free_blocks :: "nat list \<Rightarrow> allocator \<Rightarrow> allocator result" where
  "free_blocks blocks a = rfold free_block blocks a"

section \<open>Invariant\<close>

definition block_addrs :: "nat \<Rightarrow> nat \<Rightarrow> page \<Rightarrow> nat set" where
  "block_addrs bpp bs p = (\<lambda>i. m_memory p + i * bs) ` {..<bpp}"

definition all_pages :: "allocator \<Rightarrow> page list" where
  "all_pages a = m_pages a @ m_full_pages a"

text \<open>The pages are apart, and the available blocks of a page are different blocks of it.\<close>

definition geometry :: "nat \<Rightarrow> nat \<Rightarrow> page set \<Rightarrow> bool" where
  "geometry bpp bs S \<longleftrightarrow>
     (\<forall>p \<in> S. \<forall>q \<in> S. m_memory p < m_memory q \<longrightarrow> m_memory p + bpp * bs \<le> m_memory q) \<and>
     (\<forall>p \<in> S. distinct (page_available p) \<and> set (page_available p) \<subseteq> block_addrs bpp bs p)"

definition alloc_ok :: "allocator \<Rightarrow> bool" where
  "alloc_ok a \<longleftrightarrow>
     0 < m_blocks_per_page a \<and> 0 < m_block_size a \<and> m_page_size a = m_blocks_per_page a * m_block_size a \<and>
     distinct (map m_memory (all_pages a)) \<and>
     geometry (m_blocks_per_page a) (m_block_size a) (set (all_pages a)) \<and>
     sorted (map m_memory (m_pages a)) \<and> sorted (map m_memory (m_full_pages a)) \<and>
     (\<forall>p \<in> set (m_pages a). page_available p \<noteq> []) \<and> (\<forall>p \<in> set (m_full_pages a). page_available p = []) \<and>
     m_available_blocks a = sum_list (map (\<lambda>p. length (page_available p)) (m_pages a)) \<and>
     (\<forall>m. m_empty_page a = Some m \<longrightarrow>
        (\<exists>p \<in> set (m_pages a). m_memory p = m \<and> length (page_available p) = m_blocks_per_page a))"

text \<open>There is a page, and only the page kept at hand is empty.\<close>

definition alloc_tidy :: "allocator \<Rightarrow> bool" where
  "alloc_tidy a \<longleftrightarrow> all_pages a \<noteq> [] \<and>
     (\<forall>p \<in> set (m_pages a). length (page_available p) = m_blocks_per_page a \<longrightarrow> m_empty_page a = Some (m_memory p))"

text \<open>The blocks in use.\<close>

definition used_of :: "nat \<Rightarrow> nat \<Rightarrow> page set \<Rightarrow> nat set" where
  "used_of bpp bs S = (\<Union>p \<in> S. block_addrs bpp bs p - set (page_available p))"

definition used_blocks :: "allocator \<Rightarrow> nat set" where
  "used_blocks a = used_of (m_blocks_per_page a) (m_block_size a) (set (all_pages a))"

text \<open>What the code relies on of \<^verbatim>\<open>std::make_unique\<close>: new memory does not overlap live memory.\<close>

definition heap_ok :: "nat \<Rightarrow> heap \<Rightarrow> bool" where
  "heap_ok page_size heap \<longleftrightarrow>
     (\<forall>ms m. heap ms = Some m \<longrightarrow> (\<forall>x \<in> set ms. x + page_size \<le> m \<or> m + page_size \<le> x))"

section \<open>Pages\<close>

lemma page_loop_props:
  assumes "0 < bs"
  shows "length (page_loop n (base + n * bs) bs) = n"
    "set (page_loop n (base + n * bs) bs) = (\<lambda>i. base + i * bs) ` {..<n}"
    "distinct (page_loop n (base + n * bs) bs)"
proof (induction n)
  case (Suc n)
  have e: "base + Suc n * bs - bs = base + n * bs" by simp
  {
    case 1
    show ?case using Suc(1) by (simp only: page_loop.simps e length_Cons)
  next
    case 2
    show ?case using Suc(2) by (simp only: page_loop.simps e list.set lessThan_Suc image_insert)
  next
    case 3
    show ?case using Suc(2,3) assms by (simp only: page_loop.simps e distinct.simps) auto
  }
qed simp_all

lemma use_blocks_eq:
  "use_blocks n p r =
     (let k = min n (length (page_available p)); keep = length (page_available p) - k
      in (k, p\<lparr>page_available := take keep (page_available p)\<rparr>, r @ rev (drop keep (page_available p))))"
proof (induction n p r rule: use_blocks.induct)
  case (2 n p r)
  show ?case
  proof (cases "page_available p" rule: rev_cases)
    case (snoc xs x)
    then show ?thesis using 2 by (simp add: Let_def min_def)
  qed simp
qed simp

lemma page_insert_set [simp]: "set (page_insert p ps) = insert p (set ps)"
  by (simp add: page_insert_def set_insort_key)

lemma page_insert_mset [simp]: "mset (page_insert p ps) = add_mset p (mset ps)"
  by (induction ps) (auto simp: page_insert_def)

lemma page_insert_sorted: "sorted (map m_memory ps) \<Longrightarrow> sorted (map m_memory (page_insert p ps))"
  by (simp add: page_insert_def sorted_insort_key)

lemma geometry_replace:
  assumes "geometry bpp bs S" "p \<in> S" "m_memory p' = m_memory p" "distinct (page_available p')"
    "set (page_available p') \<subseteq> block_addrs bpp bs p"
  shows "geometry bpp bs (insert p' (S - {p}))"
  using assms unfolding geometry_def block_addrs_def by auto

lemma geometry_insert:
  assumes "geometry bpp bs S"
    "\<And>q. q \<in> S \<Longrightarrow> m_memory q + bpp * bs \<le> m_memory p \<or> m_memory p + bpp * bs \<le> m_memory q"
    "distinct (page_available p)" "set (page_available p) \<subseteq> block_addrs bpp bs p"
  shows "geometry bpp bs (insert p S)"
proof -
  have "m_memory x + bpp * bs \<le> m_memory y" if "x \<in> insert p S" "y \<in> insert p S" "m_memory x < m_memory y" for x y
    using that assms(1) assms(2) [of x] assms(2) [of y] unfolding geometry_def by (elim insertE) auto
  then show ?thesis using assms(1,3,4) unfolding geometry_def by blast
qed

lemma block_in_page:
  assumes "b \<in> block_addrs bpp bs p" "0 < bs"
  shows "m_memory p \<le> b" "b < m_memory p + bpp * bs"
proof -
  obtain i where i: "b = m_memory p + i * bs" "i < bpp" using assms by (auto simp: block_addrs_def)
  then have "i * bs < bpp * bs" using assms(2) by simp
  then show "m_memory p \<le> b" "b < m_memory p + bpp * bs" using i by auto
qed

lemma geometry_disjoint:
  assumes "geometry bpp bs S" "0 < bs" "p \<in> S" "q \<in> S" "m_memory p \<noteq> m_memory q"
    "b \<in> block_addrs bpp bs p"
  shows "\<not> (m_memory q \<le> b \<and> b < m_memory q + bpp * bs)"
  using block_in_page [OF assms(6,2)] assms(1,3-5) unfolding geometry_def
  by (metis linorder_neqE_nat not_le order.strict_trans1)

lemma used_of_replace:
  assumes "geometry bpp bs S" "0 < bs" "p \<in> S" "inj_on m_memory S" "m_memory p' = m_memory p"
  shows "used_of bpp bs S = used_of bpp bs (S - {p}) \<union> (block_addrs bpp bs p - set (page_available p))"
    "used_of bpp bs (insert p' (S - {p})) =
       used_of bpp bs (S - {p}) \<union> (block_addrs bpp bs p - set (page_available p'))"
    "used_of bpp bs (S - {p}) \<inter> block_addrs bpp bs p = {}"
proof -
  show "used_of bpp bs S = used_of bpp bs (S - {p}) \<union> (block_addrs bpp bs p - set (page_available p))"
    using assms(3) unfolding used_of_def by blast
  have "block_addrs bpp bs p' = block_addrs bpp bs p" using assms(5) by (simp add: block_addrs_def)
  then show "used_of bpp bs (insert p' (S - {p})) =
       used_of bpp bs (S - {p}) \<union> (block_addrs bpp bs p - set (page_available p'))"
    unfolding used_of_def by blast
  have "b \<notin> block_addrs bpp bs p" if "q \<in> S - {p}" "b \<in> block_addrs bpp bs q" for b q
  proof -
    have "m_memory q \<noteq> m_memory p" using that(1) assms(3,4) by (auto dest: inj_onD)
    then show ?thesis
      using geometry_disjoint [OF assms(1,2) _ assms(3) _ that(2)] that(1) block_in_page [of b bpp bs p] assms(2) by auto
  qed
  then show "used_of bpp bs (S - {p}) \<inter> block_addrs bpp bs p = {}" unfolding used_of_def by blast
qed

abbreviation same_config :: "allocator \<Rightarrow> allocator \<Rightarrow> bool" where
  "same_config a b \<equiv> m_blocks_per_page a = m_blocks_per_page b \<and> m_block_size a = m_block_size b \<and>
     m_page_size a = m_page_size b"

section \<open>Adding pages\<close>

lemma new_page_props:
  assumes "0 < bs"
  shows "m_memory (new_page m (n * bs) n bs) = m" "length (page_available (new_page m (n * bs) n bs)) = n"
    "set (page_available (new_page m (n * bs) n bs)) = block_addrs n bs (new_page m (n * bs) n bs)"
    "distinct (page_available (new_page m (n * bs) n bs))"
  using page_loop_props [OF assms, of n m] by (simp_all add: new_page_def block_addrs_def)

lemma add_page_ok:
  assumes "alloc_ok a" "heap_ok (m_page_size a) heap" "add_page heap a = Inr a'"
  shows "alloc_ok a' \<and> used_blocks a' = used_blocks a \<and> same_config a' a \<and> all_pages a' \<noteq> [] \<and>
    m_available_blocks a' = m_available_blocks a + m_blocks_per_page a"
proof -
  let ?n = "m_blocks_per_page a" and ?bs = "m_block_size a"
  obtain m where m: "heap (map m_memory (all_pages a)) = Some m"
    using assms(3) by (auto simp: add_page_def all_pages_def split: option.splits)
  let ?p = "new_page m (m_page_size a) ?n ?bs"
  have a': "a' = a\<lparr>m_empty_page := Some m, m_pages := page_insert ?p (m_pages a),
      m_available_blocks := m_available_blocks a + ?n\<rparr>"
    using assms(3) m by (simp add: add_page_def all_pages_def)
  note ok = assms(1)[unfolded alloc_ok_def]
  have p: "m_memory ?p = m" "length (page_available ?p) = ?n" "set (page_available ?p) = block_addrs ?n ?bs ?p"
    "distinct (page_available ?p)"
    using new_page_props [of ?bs m ?n] ok by simp_all
  have far: "m_memory q + ?n * ?bs \<le> m \<or> m + ?n * ?bs \<le> m_memory q" if "q \<in> set (all_pages a)" for q
    using assms(2) m that ok unfolding heap_ok_def by (metis image_eqI image_set)
  have pos: "0 < ?n * ?bs" using ok by simp
  have S: "set (all_pages a') = insert ?p (set (all_pages a))" by (auto simp: a' all_pages_def)
  have M: "mset (map m_memory (all_pages a')) = add_mset m (mset (map m_memory (all_pages a)))"
    by (simp add: a' all_pages_def p(1))
  have fresh: "m \<notin> m_memory ` set (all_pages a)" using far pos by fastforce
  have d: "distinct (map m_memory (all_pages a'))"
    using M ok fresh by (metis distinct.simps(2) image_set mset.simps(2) mset_eq_imp_distinct_iff)
  have g: "geometry ?n ?bs (set (all_pages a'))"
    unfolding S by (rule geometry_insert) (use ok far p in auto)
  have sum: "sum_list (map (\<lambda>p. length (page_available p)) (page_insert ?p (m_pages a))) =
      ?n + sum_list (map (\<lambda>p. length (page_available p)) (m_pages a))"
    by (simp flip: sum_mset_sum_list add: p(2))
  have s: "sorted (map m_memory (m_pages a'))" using ok by (simp add: a' page_insert_sorted)
  have e: "m_empty_page a' = Some m" "?p \<in> set (m_pages a')" by (simp_all add: a')
  have ne: "\<forall>p \<in> set (m_pages a'). page_available p \<noteq> []" using ok p(2) by (auto simp: a')
  have "alloc_ok a'"
    unfolding alloc_ok_def
  proof (intro conjI)
    show "geometry (m_blocks_per_page a') (m_block_size a') (set (all_pages a'))" using g by (simp add: a')
    show "\<forall>x. m_empty_page a' = Some x \<longrightarrow> (\<exists>p \<in> set (m_pages a'). m_memory p = x \<and>
        length (page_available p) = m_blocks_per_page a')"
      using e p(1,2) by (auto simp: a')
  qed (use ok d s ne sum in \<open>simp_all add: a'\<close>)
  moreover have "used_blocks a' = used_blocks a"
    unfolding used_blocks_def S using p by (simp add: used_of_def a')
  ultimately show ?thesis by (auto simp: a' all_pages_def page_insert_def)
qed

lemma add_page_fails: "add_page heap a = Inl e \<Longrightarrow> e = Bad_alloc"
  by (auto simp: add_page_def split: option.splits)

text \<open>After the loop there are enough blocks, unless memory ran out; and no more pages were added than
  needed.\<close>

lemma add_pages_ok:
  assumes "alloc_ok a" "heap_ok (m_page_size a) heap" "add_pages heap n a = (err, a')"
  shows "alloc_ok a' \<and> used_blocks a' = used_blocks a \<and> same_config a' a \<and>
    (err = None \<longrightarrow> n \<le> m_available_blocks a') \<and>
    (a' = a \<or> all_pages a' \<noteq> [] \<and> (err = None \<longrightarrow> m_available_blocks a' < n + m_blocks_per_page a))"
  using assms
proof (induction heap n a rule: add_pages.induct)
  case (1 heap n a)
  show ?case
  proof (cases "n > m_available_blocks a \<and> m_blocks_per_page a > 0")
    case False
    then show ?thesis
      using "1.prems"(3) "1.prems"(1) by (subst (asm) add_pages.simps) (auto simp: alloc_ok_def)
  next
    case True
    show ?thesis
    proof (cases "add_page heap a")
      case (Inl e)
      then show ?thesis using "1.prems"(3) "1.prems"(1) True by (subst (asm) add_pages.simps) auto
    next
      case (Inr b)
      note b = add_page_ok [OF "1.prems"(1,2) Inr]
      have "add_pages heap n b = (err, a')"
        using "1.prems"(3) True Inr by (subst (asm) add_pages.simps) simp
      then show ?thesis using "1.IH" [OF True Inr] b "1.prems"(2) True by auto
    qed
  qed
qed

lemma add_pages_fails: "add_pages heap n a = (Some e, a') \<Longrightarrow> e = Bad_alloc"
proof (induction heap n a rule: add_pages.induct)
  case (1 heap n a)
  show ?case
  proof (cases "n > m_available_blocks a \<and> m_blocks_per_page a > 0")
    case True
    show ?thesis
      using 1 True by (cases "add_page heap a") (auto simp: add_pages.simps [of heap n a] dest: add_page_fails)
  qed (use "1.prems" in \<open>subst (asm) add_pages.simps, auto\<close>)
qed

section \<open>Taking blocks\<close>

lemma take_from_first_ok:
  assumes "alloc_ok a" "0 < n" "n \<le> m_available_blocks a"
  obtains k a' bs where "take_from_first n a r = Inr (k, a', r @ bs)" "0 < k" "k \<le> n" "length bs = k"
    "distinct bs" "set bs \<inter> used_blocks a = {}" "used_blocks a' = used_blocks a \<union> set bs" "alloc_ok a'"
    "same_config a' a" "m_available_blocks a' = m_available_blocks a - k" "k \<le> m_available_blocks a"
    "alloc_tidy a \<longrightarrow> alloc_tidy a'" "all_pages a' \<noteq> []"
proof -
  let ?n = "m_blocks_per_page a" and ?bs = "m_block_size a" and ?f = "\<lambda>p. length (page_available p)"
  note ok = assms(1)[unfolded alloc_ok_def]
  obtain p rest where ps: "m_pages a = p # rest" using assms ok by (cases "m_pages a") auto
  define k keep where "k = min n (?f p)" and "keep = ?f p - k"
  define p' where "p' = p\<lparr>page_available := take keep (page_available p)\<rparr>"
  define bs where "bs = rev (drop keep (page_available p))"
  define a' where "a' = (if take keep (page_available p) = []
     then a\<lparr>m_pages := rest, m_full_pages := page_insert p' (m_full_pages a)\<rparr>
     else a\<lparr>m_pages := p' # rest\<rparr>)\<lparr>m_empty_page := (if m_empty_page a = Some (m_memory p) then None else m_empty_page a),
       m_available_blocks := m_available_blocks a - k\<rparr>"
  have sel: "same_config a' a" "m_available_blocks a' = m_available_blocks a - k"
    "m_pages a' = (if page_available p' = [] then rest else p' # rest)"
    "m_full_pages a' = (if page_available p' = [] then page_insert p' (m_full_pages a) else m_full_pages a)"
    "m_empty_page a' = (if m_empty_page a = Some (m_memory p) then None else m_empty_page a)"
    by (simp_all add: a'_def p'_def)
  have k: "0 < k" "k \<le> n" "k \<le> ?f p" using ok ps assms(2) by (auto simp: k_def)
  have u: "use_blocks n p r = (k, p', r @ bs)"
    by (simp add: use_blocks_eq k_def keep_def p'_def bs_def Let_def)
  have t: "take_from_first n a r = Inr (k, a', r @ bs)"
    using k u by (auto simp: take_from_first_def ps Let_def p'_def a'_def)
  have split: "page_available p = page_available p' @ rev bs" "m_memory p' = m_memory p" "?f p' = keep" "length bs = k"
    using k by (auto simp: p'_def bs_def keep_def)
  have d: "distinct (page_available p)" "set (page_available p) \<subseteq> block_addrs ?n ?bs p"
    using ok ps by (auto simp: geometry_def all_pages_def)
  have inj: "inj_on m_memory (set (all_pages a))" using ok by (simp add: distinct_map)
  have pin: "p \<in> set (all_pages a)" by (simp add: ps all_pages_def)
  have base: "m_memory p \<notin> m_memory ` set rest" "m_memory p \<notin> m_memory ` set (m_full_pages a)"
    using ok ps by (auto simp: all_pages_def)
  then have notin: "p \<notin> set rest \<union> set (m_full_pages a)" by blast
  have S: "set (all_pages a') = insert p' (set (all_pages a) - {p})"
    using notin by (auto simp: sel all_pages_def ps)
  have M: "mset (map m_memory (all_pages a')) = mset (map m_memory (all_pages a))"
    using split(2) by (simp add: sel all_pages_def ps)
  note g = geometry_replace [of ?n ?bs "set (all_pages a)" p p'] and r = used_of_replace [of ?n ?bs "set (all_pages a)" p p']
  have geo: "geometry ?n ?bs (set (all_pages a'))"
    unfolding S using g ok pin split d by auto
  have avail: "m_available_blocks a = ?f p + sum_list (map ?f rest)" using ok ps by simp
  have lt: "?f p' < ?n"
  proof -
    have "card (set (page_available p)) \<le> card (block_addrs ?n ?bs p)"
      by (rule card_mono) (use d in \<open>auto simp: block_addrs_def\<close>)
    then have "?f p \<le> ?n"
      using d(1) card_image_le [of "{..<?n}" "\<lambda>i. m_memory p + i * ?bs"] by (simp add: distinct_card block_addrs_def)
    then show ?thesis using k(1,3) split(3) keep_def by linarith
  qed
  have ok': "alloc_ok a'"
    unfolding alloc_ok_def
  proof (intro conjI)
    show "distinct (map m_memory (all_pages a'))" using M ok by (metis mset_eq_imp_distinct_iff)
    show "geometry (m_blocks_per_page a') (m_block_size a') (set (all_pages a'))" using geo by (simp add: sel)
    show "sorted (map m_memory (m_pages a'))" using ok ps split(2) by (auto simp: sel)
    show "sorted (map m_memory (m_full_pages a'))" using ok by (simp add: sel page_insert_sorted)
    show "\<forall>p \<in> set (m_pages a'). page_available p \<noteq> []" using ok ps by (auto simp: sel)
    show "\<forall>p \<in> set (m_full_pages a'). page_available p = []" using ok by (auto simp: sel)
    show "m_available_blocks a' = sum_list (map ?f (m_pages a'))"
      using avail k(3) split(3) keep_def by (auto simp: sel)
    show "\<forall>m. m_empty_page a' = Some m \<longrightarrow> (\<exists>p \<in> set (m_pages a'). m_memory p = m \<and> ?f p = m_blocks_per_page a')"
      using ok ps by (auto simp: sel)
  qed (use ok in \<open>simp_all add: sel\<close>)
  have used: "used_blocks a' = used_blocks a \<union> set bs" "set bs \<inter> used_blocks a = {}"
    using r [OF _ _ pin inj split(2)] ok split(1) d S
    by (auto simp: used_blocks_def sel)
  have tidy: "alloc_tidy a'" if "alloc_tidy a"
    unfolding alloc_tidy_def
  proof (intro conjI ballI impI)
    show "all_pages a' \<noteq> []" using S by auto
    fix q assume q: "q \<in> set (m_pages a')" "?f q = m_blocks_per_page a'"
    then have "q \<in> set rest" using lt by (auto simp: sel split: if_splits)
    moreover then have "m_memory q \<noteq> m_memory p" using base(1) by (metis imageI)
    ultimately show "m_empty_page a' = Some (m_memory q)"
      using that q(2) ps by (auto simp: alloc_tidy_def sel)
  qed
  show thesis
    by (rule that [OF t k(1,2) split(4) _ used(2,1) ok' _ _ _ impI])
      (use d(1) avail k S tidy in \<open>auto simp: bs_def sel\<close>)
qed

lemma take_blocks_ok:
  assumes "alloc_ok a" "n \<le> m_available_blocks a"
  obtains a' bs where "take_blocks n a r = Inr (r @ bs, a')" "length bs = n"
    "distinct bs" "set bs \<inter> used_blocks a = {}" "used_blocks a' = used_blocks a \<union> set bs" "alloc_ok a'"
    "same_config a' a" "m_available_blocks a' = m_available_blocks a - n"
    "alloc_tidy a \<longrightarrow> alloc_tidy a'" "all_pages a \<noteq> [] \<longrightarrow> all_pages a' \<noteq> []"
  using assms
proof (induction n arbitrary: a r thesis rule: less_induct)
  case (less n)
  show ?case
  proof (cases "n = 0")
    case True
    then have "take_blocks n a r = Inr (r @ [], a)" by (simp add: take_blocks.simps)
    then show ?thesis by (rule less.prems(1)) (use True less.prems(2) in simp_all)
  next
    case False
    then have n: "0 < n" by simp
    obtain k a1 bs1 where 1: "take_from_first n a r = Inr (k, a1, r @ bs1)" "0 < k" "k \<le> n" "length bs1 = k"
        "distinct bs1" "set bs1 \<inter> used_blocks a = {}" "used_blocks a1 = used_blocks a \<union> set bs1" "alloc_ok a1"
        "same_config a1 a" "m_available_blocks a1 = m_available_blocks a - k" "k \<le> m_available_blocks a"
        "alloc_tidy a \<longrightarrow> alloc_tidy a1" "all_pages a1 \<noteq> []"
      using take_from_first_ok [OF less.prems(2) n less.prems(3), of r] by blast
    have "n - k < n" "n - k \<le> m_available_blocks a1" using 1 n less.prems(3) by simp_all
    then obtain a2 bs2 where 2: "take_blocks (n - k) a1 (r @ bs1) = Inr ((r @ bs1) @ bs2, a2)" "length bs2 = n - k"
        "distinct bs2" "set bs2 \<inter> used_blocks a1 = {}" "used_blocks a2 = used_blocks a1 \<union> set bs2" "alloc_ok a2"
        "same_config a2 a1" "m_available_blocks a2 = m_available_blocks a1 - (n - k)"
        "alloc_tidy a1 \<longrightarrow> alloc_tidy a2" "all_pages a1 \<noteq> [] \<longrightarrow> all_pages a2 \<noteq> []"
      using less.IH [of "n - k" a1 "r @ bs1", OF _ _ 1(8)] by blast
    show ?thesis
    proof (rule less.prems(1) [where a' = a2 and bs = "bs1 @ bs2"])
      show "take_blocks n a r = Inr (r @ bs1 @ bs2, a2)"
        using n 1(1) 2(1) by (subst take_blocks.simps) simp
    qed (use 1 2 in auto)
  qed
qed

lemma page_avail_le: "p \<in> set ps \<Longrightarrow> length (page_available p) \<le> sum_list (map (\<lambda>p. length (page_available p)) ps)"
  by (induction ps) auto

lemma alloc_tidy_few:
  "alloc_ok a \<Longrightarrow> m_available_blocks a < m_blocks_per_page a \<Longrightarrow> all_pages a \<noteq> [] \<Longrightarrow> alloc_tidy a"
  using page_avail_le [of _ "m_pages a"] unfolding alloc_ok_def alloc_tidy_def by fastforce

lemma allocate_ok:
  assumes "alloc_ok a" "heap_ok (m_page_size a) heap" "allocate heap a memory = (res, a')"
  shows "alloc_ok a' \<and> same_config a' a \<and>
    (case res of
       Inl e \<Rightarrow> e = Bad_alloc \<and> used_blocks a' = used_blocks a
     | Inr bs \<Rightarrow> length bs = block_count a memory \<and> distinct bs \<and> set bs \<inter> used_blocks a = {} \<and>
         used_blocks a' = used_blocks a \<union> set bs \<and> (alloc_tidy a \<longrightarrow> alloc_tidy a'))"
proof -
  let ?n = "block_count a memory"
  obtain err a1 where 1: "add_pages heap ?n a = (err, a1)" by fastforce
  note ok = add_pages_ok [OF assms(1,2) 1]
  show ?thesis
  proof (cases err)
    case (Some e)
    moreover have "e = Bad_alloc" using add_pages_fails 1 Some by blast
    ultimately show ?thesis using assms(3) 1 ok by (auto simp: allocate_def)
  next
    case None
    then have "alloc_ok a1" "?n \<le> m_available_blocks a1" using ok by simp_all
    then obtain a2 bs where 2: "take_blocks ?n a1 [] = Inr ([] @ bs, a2)" "length bs = ?n"
        "distinct bs" "set bs \<inter> used_blocks a1 = {}" "used_blocks a2 = used_blocks a1 \<union> set bs" "alloc_ok a2"
        "same_config a2 a1" "m_available_blocks a2 = m_available_blocks a1 - ?n"
        "alloc_tidy a1 \<longrightarrow> alloc_tidy a2" "all_pages a1 \<noteq> [] \<longrightarrow> all_pages a2 \<noteq> []"
      by (rule take_blocks_ok [where r = "[]"])
    have "alloc_tidy a2" if "alloc_tidy a"
    proof (cases "a1 = a")
      case False
      then have "m_available_blocks a1 < ?n + m_blocks_per_page a" "all_pages a1 \<noteq> []" using ok None by auto
      moreover have "0 < m_blocks_per_page a" using assms(1) by (simp add: alloc_ok_def)
      ultimately show ?thesis using 2 ok by (intro alloc_tidy_few) auto
    qed (use 2 that in blast)
    then show ?thesis using assms(3) 1 2 ok None by (auto simp: allocate_def)
  qed
qed

section \<open>Freeing blocks\<close>

lemma page_erase_props:
  assumes "distinct (map m_memory ps)" "p \<in> set ps"
  shows "set (page_erase (m_memory p) ps) = set ps - {p}" "mset ps = add_mset p (mset (page_erase (m_memory p) ps))"
    "sorted (map m_memory ps) \<Longrightarrow> sorted (map m_memory (page_erase (m_memory p) ps))"
proof -
  have inj: "q = p" if "q \<in> set ps" "m_memory q = m_memory p" for q
    using assms that by (auto simp: distinct_map dest: inj_onD)
  have "distinct ps" using assms(1) by (simp add: distinct_map)
  then have "remove1 p ps = filter (\<lambda>q. p \<noteq> q) ps"
    by (simp add: distinct_remove1_removeAll removeAll_filter_not_eq)
  also have "\<dots> = page_erase (m_memory p) ps"
    unfolding page_erase_def using inj by (intro filter_cong) auto
  finally have f: "page_erase (m_memory p) ps = remove1 p ps" by (rule sym)
  have "distinct ps" using assms(1) by (simp add: distinct_map)
  then show "set (page_erase (m_memory p) ps) = set ps - {p}" using f by simp
  show "mset ps = add_mset p (mset (page_erase (m_memory p) ps))" using f assms(2) by simp
  show "sorted (map m_memory ps) \<Longrightarrow> sorted (map m_memory (page_erase (m_memory p) ps))"
    unfolding page_erase_def by (rule sorted_filter)
qed

lemma put_page_props:
  assumes "distinct (map m_memory ps)" "p \<in> set ps" "m_memory p' = m_memory p"
  shows "set (put_page p' ps) = insert p' (set ps - {p})" "map m_memory (put_page p' ps) = map m_memory ps"
    "sum_list (map (\<lambda>p. length (page_available p)) (put_page p' ps)) + length (page_available p) =
     sum_list (map (\<lambda>p. length (page_available p)) ps) + length (page_available p')"
proof -
  have "m_memory q \<noteq> m_memory p" if "q \<in> set ps - {p}" for q
    using assms that by (auto simp: distinct_map dest: inj_onD)
  then show "set (put_page p' ps) = insert p' (set ps - {p})"
    using assms(2,3) unfolding put_page_def by force
  show "map m_memory (put_page p' ps) = map m_memory ps" unfolding put_page_def by simp
  show "sum_list (map (\<lambda>p. length (page_available p)) (put_page p' ps)) + length (page_available p) =
     sum_list (map (\<lambda>p. length (page_available p)) ps) + length (page_available p')"
    using assms
  proof (induction ps)
    case (Cons q ps)
    have keep: "put_page p' ps = ps" if "m_memory p \<notin> m_memory ` set ps"
      unfolding put_page_def using that assms(3) by (intro map_idI) (metis imageI)
    show ?case
    proof (cases "q = p")
      case True
      then show ?thesis using Cons.prems keep by (simp add: put_page_def)
    next
      case False
      then have "p \<in> set ps" "m_memory q \<noteq> m_memory p" using Cons.prems by auto
      then show ?thesis using Cons by (simp add: put_page_def)
    qed
  qed simp
qed

lemma page_find_unique:
  assumes "p \<in> set ps" "\<And>q. q \<in> set ps \<Longrightarrow> page_holds sz b q \<longleftrightarrow> q = p"
  shows "page_find sz b ps = Some p"
  using assms by (induction ps) (auto simp: page_find_def)

lemma full_page_length:
  assumes "distinct (page_available p)" "set (page_available p) \<subseteq> block_addrs n bs p" "0 < bs"
  shows "length (page_available p) \<le> n" "length (page_available p) = n \<longleftrightarrow> set (page_available p) = block_addrs n bs p"
proof -
  have c: "card (block_addrs n bs p) = n"
    unfolding block_addrs_def using assms(3) by (subst card_image) (auto simp: inj_on_def)
  have f: "finite (block_addrs n bs p)" by (simp add: block_addrs_def)
  show "length (page_available p) \<le> n"
    using card_mono [OF f assms(2)] c distinct_card [OF assms(1)] by simp
  show "length (page_available p) = n \<longleftrightarrow> set (page_available p) = block_addrs n bs p"
    using card_subset_eq [OF f assms(2)] c distinct_card [OF assms(1)] by auto
qed

text \<open>The state after the first part of \<open>free_block\<close>: the page of the block among the pages with available blocks.\<close>

lemma used_block_page:
  assumes "alloc_ok a" "b \<in> used_blocks a"
  obtains p where "p \<in> set (all_pages a)" "b \<in> block_addrs (m_blocks_per_page a) (m_block_size a) p"
    "b \<notin> set (page_available p)" "\<And>q. q \<in> set (all_pages a) \<Longrightarrow> page_holds (m_page_size a) b q \<longleftrightarrow> q = p"
proof -
  let ?n = "m_blocks_per_page a" and ?bs = "m_block_size a"
  note ok = assms(1)[unfolded alloc_ok_def]
  obtain p where p: "p \<in> set (all_pages a)" "b \<in> block_addrs ?n ?bs p" "b \<notin> set (page_available p)"
    using assms(2) by (auto simp: used_blocks_def used_of_def)
  have holds: "page_holds (m_page_size a) b q \<longleftrightarrow> m_memory q \<le> b \<and> b < m_memory q + ?n * ?bs" for q
  proof -
    have "m_page_size a = ?n * ?bs" "0 < ?n * ?bs" using ok by simp_all
    then show ?thesis unfolding page_holds_def by linarith
  qed
  have "page_holds (m_page_size a) b q \<longleftrightarrow> q = p" if q: "q \<in> set (all_pages a)" for q
  proof (cases "m_memory q = m_memory p")
    case True
    then have "q = p" using p(1) q ok by (auto simp: distinct_map dest: inj_onD)
    then show ?thesis using block_in_page [OF p(2)] ok holds by auto
  next
    case False
    have g: "geometry ?n ?bs (set (all_pages a))" "0 < ?bs" using ok by simp_all
    have "\<not> page_holds (m_page_size a) b q"
      unfolding holds by (rule geometry_disjoint [OF g p(1) q False [symmetric] p(2)])
    then show ?thesis using False by blast
  qed
  then show thesis using that p by blast
qed

lemma free_block_append_ok:
  assumes "alloc_ok a" "p \<in> set (all_pages a)" "b \<in> block_addrs (m_blocks_per_page a) (m_block_size a) p"
    "b \<notin> set (page_available p)" "p' = p\<lparr>page_available := page_available p @ [b]\<rparr>"
    "pages = put_page p' (if p \<in> set (m_full_pages a) then page_insert p (m_pages a) else m_pages a)"
    "full = (if p \<in> set (m_full_pages a) then page_erase (m_memory p) (m_full_pages a) else m_full_pages a)"
    "a2 = a\<lparr>m_full_pages := full, m_pages := pages, m_available_blocks := m_available_blocks a + 1\<rparr>"
  shows "alloc_ok a2 \<and> used_blocks a2 = used_blocks a - {b} \<and> p' \<in> set pages \<and> set pages = insert p' (set (m_pages a) - {p}) \<and>
    m_empty_page a \<noteq> Some (m_memory p)"
proof -
  let ?n = "m_blocks_per_page a" and ?bs = "m_block_size a" and ?f = "\<lambda>p. length (page_available p)"
  let ?ps = "if p \<in> set (m_full_pages a) then page_insert p (m_pages a) else m_pages a"
  note ok = assms(1)[unfolded alloc_ok_def]
  have dist: "distinct (map m_memory (m_pages a))" "distinct (map m_memory (m_full_pages a))"
    "m_memory ` set (m_pages a) \<inter> m_memory ` set (m_full_pages a) = {}"
    using ok by (auto simp: all_pages_def)
  have avail: "distinct (page_available p)" "set (page_available p) \<subseteq> block_addrs ?n ?bs p"
    using ok assms(2) by (auto simp: geometry_def)
  have inj: "inj_on m_memory (set (all_pages a))" using ok by (simp add: distinct_map)
  have m: "m_memory p' = m_memory p" by (simp add: assms(5))
  have p_in: "p \<in> set ?ps" using assms(2) by (auto simp: all_pages_def)
  have psd: "distinct (map m_memory ?ps)" "sorted (map m_memory ?ps)" "set ?ps = insert p (set (m_pages a))"
    "sum_list (map ?f ?ps) = m_available_blocks a"
  proof -
    have "distinct (map m_memory (page_insert p (m_pages a)))" if "p \<in> set (m_full_pages a)"
    proof -
      have "mset (map m_memory (page_insert p (m_pages a))) = mset (m_memory p # map m_memory (m_pages a))" by simp
      moreover have "distinct (m_memory p # map m_memory (m_pages a))"
        using dist(1,3) that by (simp add: disjoint_iff) blast
      ultimately show ?thesis using mset_eq_imp_distinct_iff by blast
    qed
    then show "distinct (map m_memory ?ps)" using dist(1) by simp
    show "sorted (map m_memory ?ps)" using ok by (simp add: page_insert_sorted)
    show "set ?ps = insert p (set (m_pages a))" using p_in by auto
    show "sum_list (map ?f ?ps) = m_available_blocks a"
      using ok by (auto simp flip: sum_mset_sum_list)
  qed
  note pp = put_page_props [OF psd(1) p_in m, folded assms(6)]
  have full: "set full = set (m_full_pages a) - {p}" "sorted (map m_memory full)" "distinct (map m_memory full)"
    using page_erase_props [OF dist(2), of p] ok dist(2) by (auto simp: assms(7) page_erase_def distinct_map_filter)
  have S: "set (all_pages a2) = insert p' (set (all_pages a) - {p})"
    using pp(1) psd(3) full(1) by (auto simp: assms(8) all_pages_def)
  have pages: "set pages = insert p' (set (m_pages a) - {p})" using pp(1) psd(3) by auto
  have notfull: "?f p \<noteq> ?n" using full_page_length(2) [OF avail] assms(3,4) ok by auto
  have emp: "m_empty_page a \<noteq> Some (m_memory p)"
  proof
    assume "m_empty_page a = Some (m_memory p)"
    then obtain q where "q \<in> set (m_pages a)" "m_memory q = m_memory p" "?f q = ?n" using ok by auto
    moreover then have "q = p" using inj assms(2) by (auto simp: all_pages_def inj_on_def)
    ultimately show False using notfull by simp
  qed
  have okd: "distinct (map m_memory (all_pages a2))"
  proof -
    have "m_memory ` set ?ps \<inter> m_memory ` set full = {}"
      unfolding psd(3) full(1) using dist inj assms(2) by (auto simp: all_pages_def inj_on_def)
    then have "set (map m_memory pages) \<inter> set (map m_memory full) = {}" unfolding pp(2) by simp
    moreover have "distinct (map m_memory pages)" unfolding pp(2) by (rule psd(1))
    ultimately show ?thesis using full(3) by (simp add: assms(8) all_pages_def)
  qed
  have "alloc_ok a2"
    unfolding alloc_ok_def
  proof (intro conjI)
    show "geometry (m_blocks_per_page a2) (m_block_size a2) (set (all_pages a2))"
      unfolding S using geometry_replace [of ?n ?bs "set (all_pages a)" p p'] ok assms(2-5) avail by (simp add: assms(8))
    show "sorted (map m_memory (m_pages a2))" using pp(2) psd(2) by (simp add: assms(8))
    show "\<forall>p \<in> set (m_pages a2). page_available p \<noteq> []" using ok pages by (auto simp: assms(8,5))
    show "\<forall>p \<in> set (m_full_pages a2). page_available p = []" using ok full(1) by (simp add: assms(8))
    show "m_available_blocks a2 = sum_list (map ?f (m_pages a2))" using pp(3) psd(4) by (simp add: assms(5,8))
    show "\<forall>m. m_empty_page a2 = Some m \<longrightarrow> (\<exists>p \<in> set (m_pages a2). m_memory p = m \<and> ?f p = m_blocks_per_page a2)"
      using ok emp pages notfull by (fastforce simp: assms(8))
  qed (use ok okd full(2) in \<open>simp_all add: assms(8)\<close>)
  moreover have "used_blocks a2 = used_blocks a - {b}"
    unfolding used_blocks_def S
    using used_of_replace [of ?n ?bs "set (all_pages a)" p p'] ok assms(2-5) inj avail
    by (auto simp: assms(8))
  ultimately show ?thesis using pages emp by simp
qed

lemma remove_page_ok:
  assumes "alloc_ok a" "p \<in> set (m_pages a)" "length (page_available p) = m_blocks_per_page a"
    "m_empty_page a \<noteq> Some (m_memory p)"
  shows "alloc_ok (remove_page (m_memory p) a) \<and> used_blocks (remove_page (m_memory p) a) = used_blocks a \<and>
    set (m_pages (remove_page (m_memory p) a)) = set (m_pages a) - {p}"
proof -
  let ?a = "remove_page (m_memory p) a" and ?n = "m_blocks_per_page a" and ?bs = "m_block_size a"
  let ?f = "\<lambda>p. length (page_available p)"
  note ok = assms(1)[unfolded alloc_ok_def]
  have d: "distinct (map m_memory (m_pages a))" using ok by (simp add: all_pages_def)
  note e = page_erase_props [OF d assms(2)]
  have nf: "p \<notin> set (m_full_pages a)" using ok assms(2) by auto
  have S: "set (all_pages ?a) = set (all_pages a) - {p}"
    using e(1) nf by (auto simp: remove_page_def all_pages_def)
  have sum: "sum_list (map ?f (m_pages a)) = ?n + sum_list (map ?f (page_erase (m_memory p) (m_pages a)))"
    using arg_cong [OF e(2), of "\<lambda>M. sum_mset (image_mset ?f M)"] assms(3) by (simp flip: sum_mset_sum_list)
  have av: "distinct (page_available p)" "set (page_available p) \<subseteq> block_addrs ?n ?bs p"
    using ok assms(2) by (auto simp: geometry_def all_pages_def)
  have "alloc_ok ?a"
    unfolding alloc_ok_def
  proof (intro conjI)
    show "distinct (map m_memory (all_pages ?a))"
      using ok by (auto simp: remove_page_def all_pages_def page_erase_def distinct_map_filter)
    show "geometry (m_blocks_per_page ?a) (m_block_size ?a) (set (all_pages ?a))"
      unfolding S using ok by (auto simp: geometry_def remove_page_def)
    show "sorted (map m_memory (m_pages ?a))" using e(3) ok by (simp add: remove_page_def)
    show "m_available_blocks ?a = sum_list (map ?f (m_pages ?a))" using ok sum by (simp add: remove_page_def)
    show "\<forall>m. m_empty_page ?a = Some m \<longrightarrow> (\<exists>p \<in> set (m_pages ?a). m_memory p = m \<and> ?f p = m_blocks_per_page ?a)"
      using ok assms(4) e(1) by (fastforce simp: remove_page_def)
  qed (use ok e(1) in \<open>simp_all add: remove_page_def\<close>)
  moreover have "used_blocks ?a = used_blocks a"
    using full_page_length(2) [OF av] assms(2,3) ok S
    by (auto simp: used_blocks_def used_of_def remove_page_def all_pages_def)
  ultimately show ?thesis using e(1) by (simp add: remove_page_def)
qed

text \<open>What \<open>free_block\<close> returns, from the state with the block appended to its page.\<close>

lemma free_block_result:
  assumes "alloc_ok a" "b \<in> used_blocks a"
  obtains p p' a2 where
    "free_block b a = Inr (if m_blocks_per_page a = length (page_available p') then
       (if m_empty_page a \<noteq> None then remove_page (m_memory p) a2 else a2\<lparr>m_empty_page := Some (m_memory p)\<rparr>) else a2)"
    "alloc_ok a2" "used_blocks a2 = used_blocks a - {b}" "set (m_pages a2) = insert p' (set (m_pages a) - {p})"
    "m_memory p' = m_memory p" "same_config a2 a" "m_empty_page a2 = m_empty_page a"
    "m_empty_page a \<noteq> Some (m_memory p)"
proof -
  let ?n = "m_blocks_per_page a" and ?sz = "m_page_size a"
  obtain p where p: "p \<in> set (all_pages a)" "b \<in> block_addrs ?n (m_block_size a) p" "b \<notin> set (page_available p)"
      and u: "\<And>q. q \<in> set (all_pages a) \<Longrightarrow> page_holds ?sz b q \<longleftrightarrow> q = p"
    using used_block_page [OF assms] by blast
  define p' where "p' = p\<lparr>page_available := page_available p @ [b]\<rparr>"
  define full where "full = (if p \<in> set (m_full_pages a) then page_erase (m_memory p) (m_full_pages a) else m_full_pages a)"
  define ps where "ps = (if p \<in> set (m_full_pages a) then page_insert p (m_pages a) else m_pages a)"
  define a2 where "a2 = a\<lparr>m_full_pages := full, m_pages := put_page p' ps, m_available_blocks := m_available_blocks a + 1\<rparr>"
  note ok = free_block_append_ok [OF assms(1) p p'_def refl full_def, folded ps_def, OF a2_def]
  have f1: "page_find ?sz b (m_full_pages a) = (if p \<in> set (m_full_pages a) then Some p else None)"
  proof (cases "p \<in> set (m_full_pages a)")
    case True
    then show ?thesis using page_find_unique [of p "m_full_pages a"] u by (auto simp: all_pages_def)
  next
    case False
    then have "\<forall>q \<in> set (m_full_pages a). \<not> page_holds ?sz b q" using u by (auto simp: all_pages_def)
    then show ?thesis using False by (auto simp: page_find_def find_None_iff)
  qed
  have "set ps \<subseteq> set (all_pages a)" "p \<in> set ps" using p(1) by (auto simp: ps_def all_pages_def)
  then have f2: "page_find ?sz b ps = Some p" using u by (intro page_find_unique) auto
  have "free_block b a = Inr (if ?n = length (page_available p') then
       (if m_empty_page a \<noteq> None then remove_page (m_memory p) a2 else a2\<lparr>m_empty_page := Some (m_memory p)\<rparr>) else a2)"
    using f1 f2 unfolding free_block_def by (auto simp: Let_def a2_def full_def ps_def p'_def)
  then show thesis by (rule that) (use ok in \<open>auto simp: a2_def p'_def\<close>)
qed

lemma free_block_ok:
  assumes "alloc_ok a" "b \<in> used_blocks a"
  obtains a' where "free_block b a = Inr a'" "alloc_ok a'" "used_blocks a' = used_blocks a - {b}" "same_config a' a"
    "alloc_tidy a \<longrightarrow> alloc_tidy a'"
proof -
  let ?n = "m_blocks_per_page a"
  obtain p p' a2 where free: "free_block b a = Inr (if ?n = length (page_available p') then
         (if m_empty_page a \<noteq> None then remove_page (m_memory p) a2 else a2\<lparr>m_empty_page := Some (m_memory p)\<rparr>) else a2)"
      and a2: "alloc_ok a2" "used_blocks a2 = used_blocks a - {b}" "set (m_pages a2) = insert p' (set (m_pages a) - {p})"
        "m_memory p' = m_memory p" "same_config a2 a" "m_empty_page a2 = m_empty_page a" "m_empty_page a \<noteq> Some (m_memory p)"
    by (rule free_block_result [OF assms])
  have in2: "p' \<in> set (m_pages a2)" using a2 by simp
  have tidy: "m_empty_page a = Some (m_memory q)"
    if "alloc_tidy a" "q \<in> set (m_pages a) - {p}" "length (page_available q) = ?n" for q
    using that by (auto simp: alloc_tidy_def)
  consider "?n \<noteq> length (page_available p')" | "?n = length (page_available p')" "m_empty_page a = None"
    | e where "?n = length (page_available p')" "m_empty_page a = Some e" by fastforce
  then show thesis
  proof cases
    case 1
    then have "alloc_tidy a \<longrightarrow> alloc_tidy a2"
      using tidy a2 in2 by (auto simp: alloc_tidy_def all_pages_def)
    then show thesis using that free a2 1 by simp
  next
    case 2
    let ?a = "a2\<lparr>m_empty_page := Some (m_memory p)\<rparr>"
    have "alloc_ok ?a" using a2 in2 2 unfolding alloc_ok_def all_pages_def by auto
    moreover have "alloc_tidy a \<longrightarrow> alloc_tidy ?a" using tidy a2 in2 2 by (auto simp: alloc_tidy_def all_pages_def)
    ultimately show thesis using that [of ?a] free a2 2 by (simp add: used_blocks_def all_pages_def)
  next
    case 3
    let ?a = "remove_page (m_memory p) a2"
    have rm: "alloc_ok ?a" "used_blocks ?a = used_blocks a2" "set (m_pages ?a) = set (m_pages a2) - {p'}"
      using remove_page_ok [of a2 p'] a2 in2 3 by auto
    have "\<exists>q \<in> set (m_pages ?a). m_memory q = e"
      using rm(1) 3 a2 by (auto simp: alloc_ok_def remove_page_def)
    then have "all_pages ?a \<noteq> []" by (auto simp: all_pages_def)
    then have "alloc_tidy a \<longrightarrow> alloc_tidy ?a"
      using tidy a2 rm(3) 3 unfolding alloc_tidy_def by (auto simp: remove_page_def)
    then show thesis using that [of ?a] free a2 rm 3 by (simp add: remove_page_def)
  qed
qed

section \<open>The contract of the allocator\<close>

text \<open>A pool of blocks: blocks that are obtained were not in use, a failure changes nothing, and a block in use can be
  released.\<close>

locale block_pool =
  fixes pool_ok :: "'s \<Rightarrow> bool" and in_use :: "'s \<Rightarrow> nat set" and need :: "'s \<Rightarrow> nat \<Rightarrow> nat"
    and get_blocks :: "'s \<Rightarrow> nat \<Rightarrow> nat list result \<times> 's" and release :: "nat \<Rightarrow> 's \<Rightarrow> 's result"
  assumes get_ok: "pool_ok s \<Longrightarrow> get_blocks s m = (Inr bs, s') \<Longrightarrow>
      pool_ok s' \<and> length bs = need s m \<and> distinct bs \<and> set bs \<inter> in_use s = {} \<and> in_use s' = in_use s \<union> set bs"
    and get_fails: "pool_ok s \<Longrightarrow> get_blocks s m = (Inl e, s') \<Longrightarrow> pool_ok s' \<and> in_use s' = in_use s"
    and release_ok: "pool_ok s \<Longrightarrow> b \<in> in_use s \<Longrightarrow>
      \<exists>s'. release b s = Inr s' \<and> pool_ok s' \<and> in_use s' = in_use s - {b}"
begin

lemma release_all:
  "pool_ok s \<Longrightarrow> distinct bs \<Longrightarrow> set bs \<subseteq> in_use s \<Longrightarrow>
     \<exists>s'. rfold release bs s = Inr s' \<and> pool_ok s' \<and> in_use s' = in_use s - set bs"
proof (induction bs arbitrary: s)
  case (Cons b bs)
  then obtain s1 where s1: "release b s = Inr s1" "pool_ok s1" "in_use s1 = in_use s - {b}"
    using release_ok [of s b] by auto
  then obtain s2 where "rfold release bs s1 = Inr s2" "pool_ok s2" "in_use s2 = in_use s1 - set bs"
    using Cons.IH [of s1] Cons.prems by auto
  then show ?case using s1 by auto
qed simp

text \<open>Whatever the order, releasing the blocks of a request undoes it.\<close>

lemma get_release:
  assumes "pool_ok s" "get_blocks s m = (Inr bs, s')" "distinct cs" "set cs = set bs"
  shows "\<exists>s2. rfold release cs s' = Inr s2 \<and> pool_ok s2 \<and> in_use s2 = in_use s"
proof -
  note g = get_ok [OF assms(1,2)]
  then obtain s2 where "rfold release cs s' = Inr s2" "pool_ok s2" "in_use s2 = in_use s' - set cs"
    using release_all [of s' cs] assms(3,4) by auto
  then show ?thesis using g assms(4) by auto
qed

end

definition pool_state :: "heap \<Rightarrow> allocator \<Rightarrow> bool" where
  "pool_state heap a \<longleftrightarrow> alloc_ok a \<and> heap_ok (m_page_size a) heap"

interpretation pool: block_pool "pool_state heap" used_blocks block_count "allocate heap" free_block for heap
proof
  fix s s' m bs assume "pool_state heap s" "allocate heap s m = (Inr bs, s')"
  then show "pool_state heap s' \<and> length bs = block_count s m \<and> distinct bs \<and> set bs \<inter> used_blocks s = {} \<and>
      used_blocks s' = used_blocks s \<union> set bs"
    using allocate_ok [of s heap m "Inr bs" s'] by (auto simp: pool_state_def)
next
  fix s s' m e assume "pool_state heap s" "allocate heap s m = (Inl e, s')"
  then show "pool_state heap s' \<and> used_blocks s' = used_blocks s"
    using allocate_ok [of s heap m "Inl e" s'] by (auto simp: pool_state_def)
next
  fix s b assume "pool_state heap s" "b \<in> used_blocks s"
  then show "\<exists>s'. free_block b s = Inr s' \<and> pool_state heap s' \<and> used_blocks s' = used_blocks s - {b}"
    using free_block_ok [of s b] unfolding pool_state_def by metis
qed

lemma used_blocks_apart:
  assumes "alloc_ok a" "b \<in> used_blocks a" "c \<in> used_blocks a" "b < c"
  shows "b + m_block_size a \<le> c"
proof -
  let ?n = "m_blocks_per_page a" and ?bs = "m_block_size a"
  note ok = assms(1)[unfolded alloc_ok_def]
  obtain p q where p: "p \<in> set (all_pages a)" "b \<in> block_addrs ?n ?bs p" and q: "q \<in> set (all_pages a)" "c \<in> block_addrs ?n ?bs q"
    using assms(2,3) by (auto simp: used_blocks_def used_of_def)
  obtain i j where i: "b = m_memory p + i * ?bs" "i < ?n" and j: "c = m_memory q + j * ?bs" "j < ?n"
    using p q by (auto simp: block_addrs_def)
  show ?thesis
  proof (cases "m_memory p = m_memory q")
    case True
    then have "i * ?bs < j * ?bs" using i j assms(4) by simp
    then have "Suc i * ?bs \<le> j * ?bs" by (intro mult_le_mono1) simp
    then show ?thesis using True i j by simp
  next
    case False
    have g: "geometry ?n ?bs (set (all_pages a))" "0 < ?bs" using ok by simp_all
    have "Suc i * ?bs \<le> ?n * ?bs" using i(2) by (intro mult_le_mono1) simp
    moreover have "m_memory p < m_memory q"
      using geometry_disjoint [OF g p(1) q(1) False p(2)] block_in_page [OF q(2) g(2)] assms(4) False
        geometry_disjoint [OF g q(1) p(1) False [symmetric] q(2)] block_in_page [OF p(2) g(2)] by linarith
    ultimately show ?thesis using g(1) p(1) q(1) i j unfolding geometry_def by fastforce
  qed
qed

section \<open>Runs\<close>

text \<open>The states reached from the constructor by requests and by freeing blocks in use. The flag tells whether a request has failed: the pages
  that were added before the memory ran out then stay, all of them empty.\<close>

inductive alloc_run :: "heap \<Rightarrow> nat \<Rightarrow> nat \<Rightarrow> bool \<Rightarrow> allocator \<Rightarrow> bool" for heap page_size block_size where
  run_new: "new_allocator heap page_size block_size = Inr a \<Longrightarrow> alloc_run heap page_size block_size False a"
| run_allocate: "alloc_run heap page_size block_size failed a \<Longrightarrow> allocate heap a memory = (Inr bs, a') \<Longrightarrow>
    alloc_run heap page_size block_size failed a'"
| run_fails: "alloc_run heap page_size block_size failed a \<Longrightarrow> allocate heap a memory = (Inl e, a') \<Longrightarrow>
    alloc_run heap page_size block_size True a'"
| run_free: "alloc_run heap page_size block_size failed a \<Longrightarrow> b \<in> used_blocks a \<Longrightarrow> free_block b a = Inr a' \<Longrightarrow>
    alloc_run heap page_size block_size failed a'"

lemma new_allocator_ok:
  assumes "new_allocator heap page_size block_size = Inr a" "heap_ok (page_size div block_size * block_size) heap"
  shows "alloc_ok a \<and> alloc_tidy a \<and> m_page_size a = page_size div block_size * block_size"
proof -
  let ?a0 = "\<lparr>m_blocks_per_page = page_size div block_size, m_block_size = block_size,
    m_page_size = page_size div block_size * block_size, m_pages = [], m_full_pages = [],
    m_empty_page = None, m_available_blocks = 0\<rparr>"
  have c: "add_page heap ?a0 = Inr a" "0 < block_size" "0 < page_size div block_size"
    using assms(1) by (auto simp: new_allocator_def Let_def split: if_splits)
  then have "alloc_ok ?a0" by (simp add: alloc_ok_def all_pages_def geometry_def)
  then have "alloc_ok a \<and> m_page_size a = page_size div block_size * block_size"
    using add_page_ok [of ?a0 heap a] assms(2) c(1) by auto
  moreover have "alloc_tidy a"
    using c(1) by (auto simp: add_page_def alloc_tidy_def all_pages_def page_insert_def new_page_def split: option.splits)
  ultimately show ?thesis by blast
qed

lemma alloc_run_ok:
  "alloc_run heap page_size block_size failed a \<Longrightarrow> heap_ok (page_size div block_size * block_size) heap \<Longrightarrow>
     alloc_ok a \<and> (\<not> failed \<longrightarrow> alloc_tidy a) \<and> m_page_size a = page_size div block_size * block_size"
proof (induction rule: alloc_run.induct)
  case (run_new a)
  then show ?case using new_allocator_ok by blast
next
  case (run_allocate failed a memory bs a')
  then show ?case using allocate_ok [of a heap memory "Inr bs" a'] by auto
next
  case (run_fails failed a memory e a')
  then show ?case using allocate_ok [of a heap memory "Inl e" a'] by auto
next
  case (run_free failed a b a')
  then show ?case using free_block_ok [of a b] by (metis sum.inject(2))
qed

lemma unused_pages_full:
  assumes "alloc_ok a" "used_blocks a = {}" "p \<in> set (all_pages a)"
  shows "length (page_available p) = m_blocks_per_page a"
proof -
  have "distinct (page_available p)" "set (page_available p) \<subseteq> block_addrs (m_blocks_per_page a) (m_block_size a) p"
    "0 < m_block_size a"
    using assms(1,3) by (auto simp: alloc_ok_def geometry_def)
  note f = full_page_length(2) [OF this]
  show ?thesis using assms(2,3) \<open>set (page_available p) \<subseteq> _\<close> unfolding f used_blocks_def used_of_def by blast
qed

lemma tidy_one_empty:
  assumes "alloc_ok a" "alloc_tidy a"
  shows "length (filter (\<lambda>p. length (page_available p) = m_blocks_per_page a) (m_pages a)) \<le> 1"
proof -
  let ?E = "filter (\<lambda>p. length (page_available p) = m_blocks_per_page a) (m_pages a)"
  have "distinct (map m_memory (m_pages a))" using assms(1) by (simp add: all_pages_def alloc_ok_def)
  then have d: "distinct (map m_memory ?E)" by (rule distinct_map_filter)
  have "set (map m_memory ?E) \<subseteq> {the (m_empty_page a)}" using assms(2) by (auto simp: alloc_tidy_def)
  then have "card (set (map m_memory ?E)) \<le> 1" by (metis card_mono finite.intros is_singletonI is_singleton_altdef)
  then show ?thesis using distinct_card [OF d] by simp
qed

lemma tidy_unused:
  assumes "alloc_ok a" "alloc_tidy a" "used_blocks a = {}"
  shows "\<exists>p. m_pages a = [p] \<and> m_full_pages a = [] \<and> m_empty_page a = Some (m_memory p) \<and> m_available_blocks a = m_blocks_per_page a"
proof -
  note okd = assms(1) [unfolded alloc_ok_def] and full = unused_pages_full [OF assms(1,3)]
  have "p \<notin> set (m_full_pages a)" for p
  proof
    assume p: "p \<in> set (m_full_pages a)"
    then have "page_available p = []" "0 < m_blocks_per_page a" using okd by simp_all
    then show False using full [of p] p by (simp add: all_pages_def)
  qed
  then have e: "m_full_pages a = []" by (meson last_in_set)
  moreover have "filter (\<lambda>p. length (page_available p) = m_blocks_per_page a) (m_pages a) = m_pages a"
    using full by (simp add: filter_id_conv all_pages_def)
  ultimately obtain p where "m_pages a = [p]"
    using tidy_one_empty [OF assms(1,2)] assms(2) by (cases "m_pages a") (auto simp: alloc_tidy_def all_pages_def)
  then show ?thesis using full e assms(2) okd by (auto simp: alloc_tidy_def all_pages_def)
qed

text \<open>C17: in every state that is reached from the constructor by requests, also such that fail for lack of memory, and by freeing blocks in
  use, the structure of the pages is intact, and freeing any block in use succeeds, takes this block and no other out of use and leads to such a state again.
  If no request has failed, at most one page is empty, and when no block is in use any more, exactly one
  page is left, it is the empty page kept at hand and all of its blocks are available: the assertions of the
  destructor hold.\<close>

theorem allocator_runs_end_clean:
  assumes "alloc_run heap page_size block_size failed a" "heap_ok (page_size div block_size * block_size) heap"
  shows "alloc_ok a \<and>
    (\<forall>b \<in> used_blocks a. \<exists>a'. free_block b a = Inr a' \<and> used_blocks a' = used_blocks a - {b} \<and> alloc_run heap page_size block_size failed a') \<and>
    (\<not> failed \<longrightarrow>
       length (filter (\<lambda>p. length (page_available p) = m_blocks_per_page a) (m_pages a)) \<le> 1 \<and>
       (used_blocks a = {} \<longrightarrow>
          (\<exists>p. m_pages a = [p] \<and> m_full_pages a = [] \<and> m_empty_page a = Some (m_memory p) \<and>
               m_available_blocks a = m_blocks_per_page a)))"
proof -
  have ok: "alloc_ok a" and tidy: "\<not> failed \<Longrightarrow> alloc_tidy a" using alloc_run_ok [OF assms] by auto
  have "\<exists>a'. free_block b a = Inr a' \<and> used_blocks a' = used_blocks a - {b} \<and> alloc_run heap page_size block_size failed a'"
    if "b \<in> used_blocks a" for b
    using free_block_ok [OF ok that] run_free [OF assms(1) that] by metis
  then show ?thesis using ok tidy tidy_one_empty tidy_unused by blast
qed

definition bump_heap :: "nat \<Rightarrow> heap" where
  "bump_heap page_size ms = Some (fold max ms 0 + page_size)"

lemma bump_heap_ok: "heap_ok page_size (bump_heap page_size)"
proof -
  have "x \<le> fold max ms m" if "x \<in> set ms \<or> x \<le> m" for x m :: nat and ms
    using that
  proof (induction ms arbitrary: m)
    case (Cons y ms)
    have "x \<in> set ms \<or> x \<le> max y m" using Cons.prems by auto
    then show ?case using Cons.IH by simp
  qed simp
  then show ?thesis by (auto simp: heap_ok_def bump_heap_def)
qed

text \<open>An allocator for pages of two blocks of four bytes, before and after a request for both blocks.\<close>

definition two_blocks :: allocator where
  "two_blocks = \<lparr>m_blocks_per_page = 2, m_block_size = 4, m_page_size = 8, m_pages = [\<lparr>m_memory = 8, page_available = [12, 8]\<rparr>], m_full_pages = [],
     m_empty_page = Some 8, m_available_blocks = 2\<rparr>"

definition two_blocks_used :: allocator where
  "two_blocks_used = two_blocks\<lparr>m_pages := [], m_full_pages := [\<lparr>m_memory = 8, page_available = []\<rparr>], m_empty_page := None, m_available_blocks := 0\<rparr>"

lemma page_loop_2: "page_loop 2 ptr block_size = [ptr - block_size, ptr - block_size - block_size]"
  by (simp add: numeral_2_eq_2)

lemma two_blocks_requested:
  "new_allocator (bump_heap 8) 8 4 = Inr two_blocks" "allocate (bump_heap 8) two_blocks 8 = (Inr [8, 12], two_blocks_used)"
  "used_blocks two_blocks_used = {8, 12}"
proof -
  show "new_allocator (bump_heap 8) 8 4 = Inr two_blocks"
    by (simp add: new_allocator_def add_page_def bump_heap_def new_page_def page_insert_def page_loop_2 two_blocks_def)
  show "allocate (bump_heap 8) two_blocks 8 = (Inr [8, 12], two_blocks_used)"
    by (simp add: allocate_def block_count_def add_pages.simps take_blocks.simps take_from_first_def use_blocks_eq page_insert_def Let_def
        two_blocks_def two_blocks_used_def)
  have "{..<2 :: nat} = {0, 1}" by auto
  then show "used_blocks two_blocks_used = {8, 12}"
    by (auto simp: used_blocks_def used_of_def all_pages_def block_addrs_def two_blocks_used_def two_blocks_def)
qed

theorem allocator_runs_end_clean_witness:
  "\<exists>a p. allocate (bump_heap 8) two_blocks 8 = (Inr [8, 12], two_blocks_used) \<and> rbind (free_block 8 two_blocks_used) (free_block 12) = Inr a \<and>
     m_pages a = [p] \<and> m_full_pages a = [] \<and> m_available_blocks a = 2"
proof -
  have ok: "heap_ok (8 div 4 * 4) (bump_heap 8)" using bump_heap_ok [of 8] by simp
  have r: "alloc_run (bump_heap 8) 8 4 False two_blocks_used" using run_allocate [OF run_new] two_blocks_requested(1,2) by blast
  obtain a where a: "free_block 8 two_blocks_used = Inr a" "used_blocks a = {12}" "alloc_run (bump_heap 8) 8 4 False a"
    using allocator_runs_end_clean [OF r ok] two_blocks_requested(3) by auto
  obtain a' where a': "free_block 12 a = Inr a'" "used_blocks a' = {}" "alloc_run (bump_heap 8) 8 4 False a'"
    using allocator_runs_end_clean [OF a(3) ok] a(2) by auto
  have "rbind (free_block 8 two_blocks_used) (free_block 12) = Inr a'" using a(1) a'(1) by simp
  moreover have "m_blocks_per_page a' = 2"
    using calculation by (simp add: two_blocks_used_def two_blocks_def free_block_def page_find_def page_holds_def page_insert_def page_erase_def
        put_page_def Let_def) auto
  ultimately show ?thesis using allocator_runs_end_clean [OF a'(3) ok] a'(2) two_blocks_requested(2) by auto
qed

text \<open>A request for eight blocks when there is memory for two more pages only: it fails, and three pages stay, although no block is in use.\<close>

lemma failed_request_keeps_pages:
  "\<exists>a. allocate (\<lambda>ms. if length ms < 3 then bump_heap 8 ms else None) two_blocks 32 = (Inl Bad_alloc, a) \<and>
     length (m_pages a) = 3 \<and> m_full_pages a = [] \<and> m_available_blocks a = 6"
  by (simp add: allocate_def block_count_def add_pages.simps add_page_def bump_heap_def new_page_def page_insert_def page_loop_2 two_blocks_def Let_def)

text \<open>C18: a request that succeeds returns as many blocks as the size needs, all different, none of them in use
  before; they do not overlap each other or any other block in use; freeing them in any order brings back the blocks
  in use before. A request that fails (\<^verbatim>\<open>std::bad_alloc\<close>) leaves the blocks in use as they were.\<close>

theorem allocate_returns_fresh_blocks:
  assumes "alloc_ok a" "heap_ok (m_page_size a) heap" "allocate heap a memory = (res, a')"
  shows "alloc_ok a' \<and>
    (\<forall>b \<in> used_blocks a'. \<forall>c \<in> used_blocks a'. b < c \<longrightarrow> b + m_block_size a \<le> c) \<and>
    (case res of
       Inl e \<Rightarrow> e = Bad_alloc \<and> used_blocks a' = used_blocks a
     | Inr bs \<Rightarrow> length bs = block_count a memory \<and> distinct bs \<and> set bs \<inter> used_blocks a = {} \<and>
         used_blocks a' = used_blocks a \<union> set bs \<and>
         (\<forall>cs. distinct cs \<and> set cs = set bs \<longrightarrow>
            (\<exists>a2. free_blocks cs a' = Inr a2 \<and> alloc_ok a2 \<and> used_blocks a2 = used_blocks a)))"
proof -
  note ok = allocate_ok [OF assms]
  have "\<exists>a2. free_blocks cs a' = Inr a2 \<and> alloc_ok a2 \<and> used_blocks a2 = used_blocks a"
    if "res = Inr bs" "distinct cs" "set cs = set bs" for bs cs
    using pool.get_release [of heap a memory bs a' cs] assms that unfolding pool_state_def free_blocks_def by auto
  then show ?thesis using ok used_blocks_apart [of a'] by (auto split: sum.splits)
qed

theorem allocate_returns_fresh_blocks_witness:
  "\<exists>a2. free_blocks [8, 12] \<lparr>m_blocks_per_page = 2, m_block_size = 4, m_page_size = 8,
    m_pages = [], m_full_pages = [\<lparr>m_memory = 8, page_available = []\<rparr>], m_empty_page = None,
    m_available_blocks = 0\<rparr> = Inr a2 \<and> used_blocks a2 = {}"
proof -
  let ?a = "\<lparr>m_blocks_per_page = 2, m_block_size = 4, m_page_size = 8,
    m_pages = [\<lparr>m_memory = 8, page_available = [12, 8]\<rparr>], m_full_pages = [], m_empty_page = Some 8,
    m_available_blocks = 2\<rparr>"
  let ?b = "\<lparr>m_blocks_per_page = 2, m_block_size = 4, m_page_size = 8,
    m_pages = [], m_full_pages = [\<lparr>m_memory = 8, page_available = []\<rparr>], m_empty_page = None,
    m_available_blocks = 0\<rparr>"
  have "{..<2::nat} = {0, 1}" by auto
  then have u: "used_blocks ?a = {}" "alloc_ok ?a"
    by (simp_all add: used_blocks_def used_of_def all_pages_def block_addrs_def alloc_ok_def geometry_def)
  have "allocate (bump_heap 8) ?a 8 = (Inr [8, 12], ?b)"
    by (simp add: allocate_def block_count_def add_pages.simps take_blocks.simps take_from_first_def use_blocks_eq
        page_insert_def Let_def)
  then have "\<forall>cs. distinct cs \<and> set cs = set [8, 12] \<longrightarrow>
      (\<exists>a2. free_blocks cs ?b = Inr a2 \<and> alloc_ok a2 \<and> used_blocks a2 = used_blocks ?a)"
    using allocate_returns_fresh_blocks [of ?a "bump_heap 8" 8 "Inr [8, 12]" ?b] u bump_heap_ok [of 8] by simp
  from this [rule_format, of "[8, 12]"] show ?thesis using u by auto
qed

end
