(* ===== verification/Allocated_File.thy ===== *)
theory Allocated_File
  imports Allocator
begin

text \<open>
  Model of \<^verbatim>\<open>mysqlshdk/libs/storage/backend/in_memory/allocated_file.{h,cc}\<close> and of the block owner of
  \<^verbatim>\<open>allocator.cc\<close>: a file kept in blocks of the allocator. Blocks are added while writing and, unless the data is
  retained, released while reading. The memory is a store from addresses to bytes, next to the state of the
  allocator. Every operation returns its result or its exception together with the file, since some exceptions leave the
  file changed. Sizes and offsets count bytes that are held in memory and do not reach \<open>2 ^ 64\<close>; the
  subtractions of the code, which would wrap around, are written out.

  The theorems: writing replaces the bytes at the offset and leaves all other memory alone; reading returns
  the bytes at the offset and releases exactly the blocks in front of it; what was written is read back, after which all blocks are back
  in the allocator.
\<close>

record store =
  mem :: "nat \<Rightarrow> char"
  pool :: allocator

record alloc_file =
  f_name :: string
  f_is_open :: bool
  f_read_mode :: bool
  f_size :: nat
  f_capacity :: nat
  f_offset :: nat
  f_block_size :: nat
  f_bytes_consumed :: nat
  f_reading_from_beginning :: bool
  f_blocks :: "nat list"
  f_consume_if_first :: bool
  f_retain_data :: bool
  f_accepts_append :: bool

section \<open>Owned blocks\<close>

text \<open>The null pointer is the address 0.\<close>

record data_block =
  db_memory :: nat
  db_size :: nat

definition new_block :: "heap \<Rightarrow> store \<Rightarrow> data_block result \<times> store" where
  "new_block heap st =
     (case allocate_block heap (pool st) of
        (Inl e, a) \<Rightarrow> (Inl e, st\<lparr>pool := a\<rparr>)
      | (Inr b, a) \<Rightarrow> (Inr \<lparr>db_memory = b, db_size = 0\<rparr>, st\<lparr>pool := a\<rparr>))"

definition relinquish :: "data_block \<Rightarrow> data_block \<times> data_block" where
  "relinquish b = (b, \<lparr>db_memory = 0, db_size = 0\<rparr>)"

definition drop_block :: "data_block \<Rightarrow> store \<Rightarrow> store result" where
  "drop_block b st =
     (if db_memory b = 0 then Inr st
      else rbind (free_block (db_memory b) (pool st)) (\<lambda>a. Inr (st\<lparr>pool := a\<rparr>)))"

section \<open>Opening and positioning\<close>

definition new_file :: "string \<Rightarrow> store \<Rightarrow> bool \<Rightarrow> alloc_file" where
  "new_file name st consume_if_first =
     \<lparr>f_name = name, f_is_open = False, f_read_mode = False, f_size = 0, f_capacity = 0, f_offset = 0,
      f_block_size = m_block_size (pool st), f_bytes_consumed = 0, f_reading_from_beginning = False,
      f_blocks = [], f_consume_if_first = consume_if_first, f_retain_data = False, f_accepts_append = True\<rparr>"

definition retain_data :: "alloc_file \<Rightarrow> alloc_file" where
  "retain_data f = f\<lparr>f_retain_data := True\<rparr>"

definition file_error :: "string \<Rightarrow> alloc_file \<Rightarrow> string \<Rightarrow> cpp_error" where
  "file_error before f after = Runtime_error (before @ f_name f @ after)"

definition file_tell :: "alloc_file \<Rightarrow> nat result" where
  "file_tell f =
     (if \<not> f_is_open f then Inl (file_error ''Unable to fetch offset of file: '' f '', it is not open'')
      else Inr (f_offset f))"

definition file_seek :: "alloc_file \<Rightarrow> int \<Rightarrow> nat result \<times> alloc_file" where
  "file_seek f offset =
     (if offset < 0
      then (Inl (file_error ''Unable to seek file: '' f '', using disallowed negative value''), f)
      else if \<not> f_is_open f then (Inl (file_error ''Unable to seek file: '' f '', it is not open''), f)
      else let new_offset = min (nat offset) (f_size f)
           in if new_offset < f_bytes_consumed f
              then (Inl (file_error ''Unable to seek file: '' f '', requested offset has already been consumed''), f)
              else let f' = f\<lparr>f_offset := new_offset,
                     f_reading_from_beginning :=
                       \<not> f_retain_data f \<and>
                       (new_offset = f_bytes_consumed f \<or>
                        f_consume_if_first f \<and> new_offset < f_bytes_consumed f + f_block_size f)\<rparr>
                   in (file_tell f', f'))"

text \<open>The flags are set before the position is, also when setting the position fails.\<close>

definition file_open :: "alloc_file \<Rightarrow> bool \<Rightarrow> unit result \<times> alloc_file" where
  "file_open f read_mode =
     (if f_is_open f then (Inl (file_error ''Unable to open file: '' f '', it is already open''), f)
      else if f_bytes_consumed f \<noteq> 0 \<and> \<not> read_mode
      then (Inl (file_error ''Unable to open file: '' f '' for writing, it was already read from''), f)
      else (case file_seek (f\<lparr>f_is_open := True, f_read_mode := read_mode, f_accepts_append := False\<rparr>) 0 of
              (Inl e, f') \<Rightarrow> (Inl e, f')
            | (Inr _, f') \<Rightarrow> (Inr (), f')))"

definition file_close :: "alloc_file \<Rightarrow> unit result \<times> alloc_file" where
  "file_close f =
     (if \<not> f_is_open f then (Inl (file_error ''Unable to close file: '' f '', it is already closed''), f)
      else (Inr (), f\<lparr>f_is_open := False\<rparr>))"

section \<open>Reading\<close>

text \<open>The loop: the bytes that are left to read, the number of the block and the offset in it. A turn that reads nothing would repeat
  for ever.\<close>

function read_loop :: "nat \<Rightarrow> nat \<Rightarrow> nat \<Rightarrow> alloc_file \<Rightarrow> store \<Rightarrow> string \<Rightarrow> string result \<times> alloc_file \<times> store" where
  "read_loop len block_number block_offset f st out =
     (if len > 0 \<and> f_offset f \<noteq> f_size f then
        let to_read = min (min len (size_sub (f_block_size f) block_offset)) (size_sub (f_size f) (f_offset f))
        in if to_read = 0 then (Inl (Undefined ''Allocated_file::read: no progress''), f, st)
           else if block_number \<ge> length (f_blocks f)
           then (Inl (Undefined ''Allocated_file::read: m_blocks[block_number]''), f, st)
           else let from = f_blocks f ! block_number + block_offset;
                    out' = out @ map (mem st) [from ..< from + to_read];
                    f1 = f\<lparr>f_offset := f_offset f + to_read\<rparr>
                in if f_reading_from_beginning f \<and>
                      (block_offset + to_read = f_block_size f \<or> f_offset f1 = f_size f)
                   then (case free_block (hd (f_blocks f)) (pool st) of
                           Inl e \<Rightarrow> (Inl e, f1\<lparr>f_bytes_consumed := f_bytes_consumed f + f_block_size f\<rparr>, st)
                         | Inr a \<Rightarrow>
                             read_loop (len - to_read) block_number 0
                               (f1\<lparr>f_bytes_consumed := f_bytes_consumed f + f_block_size f,
                                   f_blocks := tl (f_blocks f)\<rparr>)
                               (st\<lparr>pool := a\<rparr>) out')
                   else read_loop (len - to_read) (block_number + 1) 0 f1 st out'
      else (Inr out, f, st))"
  by pat_completeness auto
termination
  by (relation "measure (\<lambda>(len, _). len)") auto

declare read_loop.simps [simp del]

definition file_read :: "alloc_file \<Rightarrow> store \<Rightarrow> nat \<Rightarrow> string result \<times> alloc_file \<times> store" where
  "file_read f st len =
     (if \<not> f_is_open f then (Inl (file_error ''Unable to read from file: '' f '', it is not open''), f, st)
      else if \<not> f_read_mode f
      then (Inl (file_error ''Unable to read from file: '' f '', it is opened for writing''), f, st)
      else if f_offset f = f_size f then (Inr [], f, st)
      else let block_number = size_sub (f_offset f) (f_bytes_consumed f) div f_block_size f;
               block_offset = size_sub (size_sub (f_offset f) (f_bytes_consumed f)) (block_number * f_block_size f)
           in read_loop len block_number block_offset f st [])"

section \<open>Writing\<close>

definition mem_copy :: "nat \<Rightarrow> string \<Rightarrow> (nat \<Rightarrow> char) \<Rightarrow> nat \<Rightarrow> char" where
  "mem_copy to_addr buf m = (\<lambda>a. if to_addr \<le> a \<and> a < to_addr + length buf then buf ! (a - to_addr) else m a)"

function write_loop :: "string \<Rightarrow> nat \<Rightarrow> nat \<Rightarrow> alloc_file \<Rightarrow> (nat \<Rightarrow> char) \<Rightarrow> (nat \<Rightarrow> char) result" where
  "write_loop buf block_number block_offset f m =
     (if buf = [] then Inr m
      else let to_write = min (length buf) (size_sub (f_block_size f) block_offset)
           in if to_write = 0 then Inl (Undefined ''Allocated_file::write: no progress'')
              else if block_number \<ge> length (f_blocks f)
              then Inl (Undefined ''Allocated_file::write: m_blocks[block_number]'')
              else write_loop (drop to_write buf) (block_number + 1) 0 f
                     (mem_copy (f_blocks f ! block_number + block_offset) (take to_write buf) m))"
  by pat_completeness auto
termination
  by (relation "measure (\<lambda>(buf, _). length buf)") auto

declare write_loop.simps [simp del]

definition grow_file :: "heap \<Rightarrow> alloc_file \<Rightarrow> store \<Rightarrow> nat \<Rightarrow> unit result \<times> alloc_file \<times> store" where
  "grow_file heap f st len =
     (let room = size_sub (f_capacity f) (f_offset f)
      in if room < len then
           (case allocate heap (pool st) (len - room) of
              (Inl e, a) \<Rightarrow> (Inl e, f, st\<lparr>pool := a\<rparr>)
            | (Inr bs, a) \<Rightarrow>
                (Inr (), f\<lparr>f_blocks := f_blocks f @ bs, f_capacity := f_capacity f + length bs * f_block_size f\<rparr>,
                 st\<lparr>pool := a\<rparr>))
         else (Inr (), f, st))"

definition file_write :: "heap \<Rightarrow> alloc_file \<Rightarrow> store \<Rightarrow> string \<Rightarrow> nat result \<times> alloc_file \<times> store" where
  "file_write heap f st buf =
     (if \<not> f_is_open f then (Inl (file_error ''Unable to write to file: '' f '', it is not open''), f, st)
      else if f_read_mode f
      then (Inl (file_error ''Unable to write to file: '' f '', it is opened for reading''), f, st)
      else case grow_file heap f st (length buf) of
             (Inl e, f1, st1) \<Rightarrow> (Inl e, f1, st1)
           | (Inr _, f1, st1) \<Rightarrow>
               let block_number = f_offset f1 div f_block_size f1;
                   block_offset = size_sub (f_offset f1) (block_number * f_block_size f1)
               in case write_loop buf block_number block_offset f1 (mem st1) of
                    Inl e \<Rightarrow> (Inl e, f1, st1)
                  | Inr m \<Rightarrow>
                      let off = f_offset f1 + length buf
                      in (Inr (length buf), f1\<lparr>f_offset := off, f_size := (if off > f_size f1 then off else f_size f1)\<rparr>,
                          st1\<lparr>mem := m\<rparr>))"

text \<open>The block is passed by value: if it is refused, it is freed on the way out.\<close>

definition file_append :: "alloc_file \<Rightarrow> store \<Rightarrow> data_block \<Rightarrow> unit result \<times> alloc_file \<times> store" where
  "file_append f st block =
     (if \<not> f_accepts_append f then
        (case drop_block block st of
           Inl e \<Rightarrow> (Inl e, f, st)
         | Inr st' \<Rightarrow> (Inl (file_error ''Unable to append a block to file: '' f '', not allowed''), f, st'))
      else (Inr (), f\<lparr>f_blocks := f_blocks f @ [db_memory block], f_size := f_size f + db_size block,
                      f_capacity := f_capacity f + f_block_size f,
                      f_accepts_append := (db_size block = f_block_size f)\<rparr>, st))"

definition delete_file :: "alloc_file \<Rightarrow> store \<Rightarrow> store result" where
  "delete_file f st = rbind (free_blocks (f_blocks f) (pool st)) (\<lambda>a. Inr (st\<lparr>pool := a\<rparr>))"

section \<open>Invariant\<close>

text \<open>The byte at an offset of the file, and the bytes that are still held.\<close>

definition byte_at :: "alloc_file \<Rightarrow> store \<Rightarrow> nat \<Rightarrow> char" where
  "byte_at f st off =
     (let i = off - f_bytes_consumed f
      in mem st (f_blocks f ! (i div f_block_size f) + i mod f_block_size f))"

definition file_data :: "alloc_file \<Rightarrow> store \<Rightarrow> string" where
  "file_data f st = map (byte_at f st) [f_bytes_consumed f ..< f_size f]"

text \<open>The blocks of the file are different blocks in use, they hold the data, and the file is positioned at
  data that is held or at its end. While blocks are released, the position is in the first of them.\<close>

definition blocks_ok :: "heap \<Rightarrow> alloc_file \<Rightarrow> store \<Rightarrow> bool" where
  "blocks_ok heap f st \<longleftrightarrow>
     pool_state heap (pool st) \<and> f_block_size f = m_block_size (pool st) \<and>
     distinct (f_blocks f) \<and> set (f_blocks f) \<subseteq> used_blocks (pool st) \<and>
     f_capacity f = f_bytes_consumed f + length (f_blocks f) * f_block_size f \<and>
     f_size f \<le> f_capacity f \<and> f_capacity f < 2 ^ 64"

definition position_ok :: "alloc_file \<Rightarrow> bool" where
  "position_ok f \<longleftrightarrow> f_offset f \<le> f_size f \<and>
     (f_is_open f \<and> \<not> f_read_mode f \<longrightarrow> f_bytes_consumed f = 0) \<and>
     (f_is_open f \<and> f_offset f < f_size f \<longrightarrow> f_bytes_consumed f \<le> f_offset f \<and>
        (f_read_mode f \<and> f_reading_from_beginning f \<longrightarrow> f_offset f < f_bytes_consumed f + f_block_size f))"

definition file_ok :: "heap \<Rightarrow> alloc_file \<Rightarrow> store \<Rightarrow> bool" where
  "file_ok heap f st \<longleftrightarrow> blocks_ok heap f st \<and> position_ok f"

lemma file_ok_block_size: "file_ok heap f st \<Longrightarrow> 0 < f_block_size f"
  by (simp add: file_ok_def blocks_ok_def pool_state_def alloc_ok_def)

lemma new_file_ok: "pool_state heap (pool st) \<Longrightarrow> file_ok heap (new_file name st c) st"
  by (simp add: file_ok_def blocks_ok_def position_ok_def new_file_def)

text \<open>The data and the state of the blocks depend on the blocks and the sizes only.\<close>

lemma file_cong:
  assumes "f_blocks f' = f_blocks f" "f_block_size f' = f_block_size f" "f_bytes_consumed f' = f_bytes_consumed f"
    "f_size f' = f_size f" "f_capacity f' = f_capacity f"
  shows "file_data f' st = file_data f st" "blocks_ok heap f' st = blocks_ok heap f st"
  using assms by (simp_all add: file_data_def byte_at_def blocks_ok_def)

lemma file_seek_fails: "file_seek f off = (Inl e, f') \<Longrightarrow> f' = f"
  by (auto simp: file_seek_def file_tell_def Let_def split: if_splits)

lemma file_seek_Inr:
  assumes "file_seek f off = (Inr n, f')"
  obtains rfb where "f' = f\<lparr>f_offset := n, f_reading_from_beginning := rfb\<rparr>" "n = min (nat off) (f_size f)"
    "f_is_open f" "f_bytes_consumed f \<le> n"
    "rfb \<longrightarrow> n = f_bytes_consumed f \<or> n < f_bytes_consumed f + f_block_size f"
proof -
  have "\<not> off < 0" "f_is_open f" "\<not> min (nat off) (f_size f) < f_bytes_consumed f"
    using assms unfolding file_seek_def by (auto simp: Let_def split: if_splits)
  then show thesis using assms by (intro that) (auto simp: file_seek_def file_tell_def Let_def)
qed

lemma file_seek_ok:
  assumes "file_ok heap f st" "file_seek f off = (res, f')"
  shows "file_ok heap f' st \<and> file_data f' st = file_data f st"
proof (cases res)
  case (Inl e)
  then show ?thesis using assms file_seek_fails by blast
next
  case (Inr n)
  obtain rfb where f': "f' = f\<lparr>f_offset := n, f_reading_from_beginning := rfb\<rparr>" "n = min (nat off) (f_size f)"
      "f_is_open f" "f_bytes_consumed f \<le> n"
      "rfb \<longrightarrow> n = f_bytes_consumed f \<or> n < f_bytes_consumed f + f_block_size f"
    by (rule file_seek_Inr [OF assms(2) [unfolded Inr]])
  have c: "file_data f' st = file_data f st" "blocks_ok heap f' st = blocks_ok heap f st"
    unfolding f'(1) by (rule file_cong, simp_all)+
  have "position_ok f'"
    using assms(1) f'(2-5) file_ok_block_size [OF assms(1)] unfolding file_ok_def position_ok_def f'(1) by auto
  then show ?thesis using c assms(1) by (simp add: file_ok_def)
qed

lemma file_close_ok:
  assumes "file_ok heap f st" "file_close f = (res, f')"
  shows "file_ok heap f' st \<and> file_data f' st = file_data f st"
proof (cases "f_is_open f")
  case True
  then have f': "f' = f\<lparr>f_is_open := False\<rparr>" using assms(2) by (simp add: file_close_def)
  have c: "file_data f' st = file_data f st" "blocks_ok heap f' st = blocks_ok heap f st"
    unfolding f' by (rule file_cong, simp_all)+
  have "position_ok f'" using assms(1) unfolding f' file_ok_def position_ok_def by simp
  then show ?thesis using c assms(1) by (simp add: file_ok_def)
qed (use assms in \<open>simp add: file_close_def\<close>)

lemma file_open_ok:
  assumes "file_ok heap f st" "file_open f mode = (Inr (), f')"
  shows "file_ok heap f' st \<and> file_data f' st = file_data f st \<and> f_is_open f' \<and> f_read_mode f' = mode \<and>
    f_offset f' = 0 \<and> f_bytes_consumed f' = 0 \<and> f_blocks f' = f_blocks f \<and> f_size f' = f_size f \<and>
    f_capacity f' = f_capacity f \<and> f_retain_data f' = f_retain_data f \<and>
    f_reading_from_beginning f' = (\<not> f_retain_data f)"
proof -
  let ?f = "f\<lparr>f_is_open := True, f_read_mode := mode, f_accepts_append := False\<rparr>"
  have "\<exists>n. file_seek ?f 0 = (Inr n, f')"
    using assms(2) by (auto simp: file_open_def split: if_splits sum.splits prod.splits)
  then obtain n where s: "file_seek ?f 0 = (Inr n, f')" by blast
  have c: "f_bytes_consumed f = 0"
    using s by (auto simp: file_seek_def Let_def split: if_splits)
  then have f': "f' = ?f\<lparr>f_offset := 0, f_reading_from_beginning := \<not> f_retain_data f\<rparr>"
    using s by (simp add: file_seek_def file_tell_def Let_def)
  have e: "file_data f' st = file_data f st" "blocks_ok heap f' st = blocks_ok heap f st"
    unfolding f' by (rule file_cong, simp_all)+
  have "position_ok f'" using c file_ok_block_size [OF assms(1)] unfolding position_ok_def f' by simp
  then show ?thesis using c e assms(1) by (simp add: f' file_ok_def)
qed

section \<open>Reading\<close>

lemma byte_at_block:
  assumes "0 < bs" "bo + n \<le> bs" "f_block_size f = bs" "f_offset f - f_bytes_consumed f = bn * bs + bo"
    "f_bytes_consumed f \<le> f_offset f"
  shows "map (mem st) [f_blocks f ! bn + bo ..< f_blocks f ! bn + bo + n] =
    map (byte_at f st) [f_offset f ..< f_offset f + n]"
proof (rule nth_equalityI)
  fix i assume "i < length (map (mem st) [f_blocks f ! bn + bo ..< f_blocks f ! bn + bo + n])"
  then have i: "i < n" by simp
  then have "f_offset f + i - f_bytes_consumed f = bn * bs + (bo + i)" "bo + i < bs" using assms by auto
  then have "byte_at f st (f_offset f + i) = mem st (f_blocks f ! bn + (bo + i))"
    using assms(1,3) by (simp add: byte_at_def)
  then show "map (mem st) [f_blocks f ! bn + bo ..< f_blocks f ! bn + bo + n] ! i =
      map (byte_at f st) [f_offset f ..< f_offset f + n] ! i"
    using i by (simp add: add.assoc)
qed simp

lemma byte_at_consume:
  assumes "0 < f_block_size f" "f_bytes_consumed f + f_block_size f \<le> off" "f_blocks f \<noteq> []"
    "f_blocks f' = tl (f_blocks f)" "f_bytes_consumed f' = f_bytes_consumed f + f_block_size f"
    "f_block_size f' = f_block_size f" "mem st' = mem st"
  shows "byte_at f' st' off = byte_at f st off"
proof -
  let ?i = "off - f_bytes_consumed f" and ?bs = "f_block_size f"
  have "?i div ?bs = Suc ((?i - ?bs) div ?bs)" "?i mod ?bs = (?i - ?bs) mod ?bs"
    using assms(1,2) by (simp_all add: le_div_geq le_mod_geq)
  moreover have "off - f_bytes_consumed f' = ?i - ?bs" using assms(5) by simp
  ultimately show ?thesis using assms by (simp add: byte_at_def nth_tl) (metis list.collapse nth_Cons_Suc)
qed

text \<open>What the read loop does to the file and the store: \<open>k\<close> blocks are released from the front.\<close>

definition read_effect :: "heap \<Rightarrow> nat \<Rightarrow> alloc_file \<Rightarrow> store \<Rightarrow> alloc_file \<Rightarrow> store \<Rightarrow> nat \<Rightarrow> bool" where
  "read_effect heap n f st f' st' k \<longleftrightarrow>
     blocks_ok heap f' st' \<and> mem st' = mem st \<and> k \<le> length (f_blocks f) \<and>
     f' = f\<lparr>f_offset := f_offset f + n, f_bytes_consumed := f_bytes_consumed f + k * f_block_size f,
            f_blocks := drop k (f_blocks f)\<rparr> \<and>
     used_blocks (pool st') = used_blocks (pool st) - set (take k (f_blocks f)) \<and>
     (\<forall>off \<ge> f_bytes_consumed f'. byte_at f' st' off = byte_at f st off)"

lemma release_first:
  assumes "blocks_ok heap f st" "f_blocks f \<noteq> []"
  obtains a where "free_block (hd (f_blocks f)) (pool st) = Inr a"
    "read_effect heap n f st (f\<lparr>f_offset := f_offset f + n, f_bytes_consumed := f_bytes_consumed f + f_block_size f,
       f_blocks := tl (f_blocks f)\<rparr>) (st\<lparr>pool := a\<rparr>) 1"
proof -
  obtain b bs where b: "f_blocks f = b # bs" using assms(2) by (cases "f_blocks f") auto
  note ok = assms(1)[unfolded blocks_ok_def]
  obtain a where a: "free_block b (pool st) = Inr a" "alloc_ok a" "used_blocks a = used_blocks (pool st) - {b}"
      "same_config a (pool st)" "alloc_tidy (pool st) \<longrightarrow> alloc_tidy a"
    by (rule free_block_ok [of "pool st" b]) (use ok b in \<open>auto simp: pool_state_def\<close>)
  let ?f = "f\<lparr>f_offset := f_offset f + n, f_bytes_consumed := f_bytes_consumed f + f_block_size f, f_blocks := tl (f_blocks f)\<rparr>"
  have "blocks_ok heap ?f (st\<lparr>pool := a\<rparr>)"
    using ok a b unfolding blocks_ok_def pool_state_def by auto
  moreover have "0 < f_block_size f" using ok by (simp add: pool_state_def alloc_ok_def)
  then have "\<forall>off \<ge> f_bytes_consumed ?f. byte_at ?f (st\<lparr>pool := a\<rparr>) off = byte_at f st off"
    using assms(2) by (auto intro!: byte_at_consume)
  ultimately have "read_effect heap n f st ?f (st\<lparr>pool := a\<rparr>) 1"
    using a b by (simp add: read_effect_def)
  then show thesis using that a b by simp
qed

lemma read_effect_advance:
  assumes "blocks_ok heap f st"
  shows "read_effect heap n f st (f\<lparr>f_offset := f_offset f + n\<rparr>) st 0"
proof -
  let ?f = "f\<lparr>f_offset := f_offset f + n\<rparr>"
  have "blocks_ok heap ?f st" using assms file_cong(2) [of ?f f heap st] by simp
  then show ?thesis by (simp add: read_effect_def byte_at_def)
qed

lemma read_effect_trans:
  assumes "read_effect heap n f st f1 st1 k" "read_effect heap m f1 st1 f2 st2 j"
  shows "read_effect heap (n + m) f st f2 st2 (k + j)"
proof -
  note 1 = assms(1)[unfolded read_effect_def] and 2 = assms(2)[unfolded read_effect_def]
  have "k \<le> length (f_blocks f)" "j \<le> length (f_blocks f) - k" using 1 2 by auto
  moreover have "set (take (k + j) (f_blocks f)) = set (take k (f_blocks f)) \<union> set (take j (drop k (f_blocks f)))"
    by (simp add: take_add)
  moreover have "f_bytes_consumed f1 \<le> f_bytes_consumed f2" using 2 by simp
  ultimately show ?thesis
    using 1 2 unfolding read_effect_def by (auto simp: algebra_simps)
qed

definition read_position :: "alloc_file \<Rightarrow> bool" where
  "read_position f \<longleftrightarrow> f_offset f \<le> f_size f \<and>
     (f_offset f < f_size f \<longrightarrow> f_bytes_consumed f \<le> f_offset f \<and>
        (f_reading_from_beginning f \<longrightarrow> f_offset f < f_bytes_consumed f + f_block_size f))"

text \<open>One turn of the loop.\<close>

lemma read_loop_turn:
  assumes ok: "blocks_ok heap f st" and pos: "read_position f" and len: "0 < len" "f_offset f < f_size f"
    and bn: "f_offset f - f_bytes_consumed f = bn * f_block_size f + bo" "bo < f_block_size f"
    and n: "n = min (min len (f_block_size f - bo)) (f_size f - f_offset f)"
  obtains f1 st1 k bn1 where
    "read_loop len bn bo f st out =
       read_loop (len - n) bn1 0 f1 st1 (out @ map (byte_at f st) [f_offset f ..< f_offset f + n])"
    "0 < n" "n \<le> len" "read_effect heap n f st f1 st1 k" "read_position f1" "\<not> f_reading_from_beginning f \<longrightarrow> k = 0"
    "n < len \<longrightarrow> f_offset f1 < f_size f \<longrightarrow> f_offset f1 - f_bytes_consumed f1 = bn1 * f_block_size f"
    "f_reading_from_beginning f \<and> f_offset f1 = f_size f \<longrightarrow> f_size f \<le> f_bytes_consumed f1"
proof -
  let ?bs = "f_block_size f" and ?c = "f_bytes_consumed f"
  have c: "?c \<le> f_offset f" "f_reading_from_beginning f \<longrightarrow> f_offset f < ?c + ?bs"
    using pos len by (auto simp: read_position_def)
  have lim: "f_size f \<le> ?c + length (f_blocks f) * ?bs" and bs0: "0 < ?bs"
    using ok bn(2) by (auto simp: blocks_ok_def)
  have "bn * ?bs < length (f_blocks f) * ?bs" using bn lim c(1) len(2) by linarith
  then have bnl: "bn < length (f_blocks f)" by simp
  have n0: "0 < n" "n \<le> len" "bo + n \<le> ?bs" "f_offset f + n \<le> f_size f" using n len bn(2) by auto
  have tr: "min (min len (size_sub ?bs bo)) (size_sub (f_size f) (f_offset f)) = n"
    using bn(2) len(2) n by (simp add: size_sub_def)
  have data: "map (mem st) [f_blocks f ! bn + bo ..< f_blocks f ! bn + bo + n] =
      map (byte_at f st) [f_offset f ..< f_offset f + n]"
    by (rule byte_at_block [OF bs0 n0(3) refl bn(1) c(1)])
  let ?out = "out @ map (byte_at f st) [f_offset f ..< f_offset f + n]"
  show thesis
  proof (cases "f_reading_from_beginning f \<and> (bo + n = ?bs \<or> f_offset f + n = f_size f)")
    case True
    then have "f_offset f - ?c < ?bs" using c by linarith
    then have bn0: "bn = 0" using bn bs0 by (cases bn) auto
    let ?f = "f\<lparr>f_offset := f_offset f + n, f_bytes_consumed := ?c + ?bs, f_blocks := tl (f_blocks f)\<rparr>"
    obtain a where a: "free_block (hd (f_blocks f)) (pool st) = Inr a" "read_effect heap n f st ?f (st\<lparr>pool := a\<rparr>) 1"
      using release_first [OF ok, of n] bnl by (metis length_0_conv not_less_zero)
    have "read_loop len bn bo f st out = read_loop (len - n) bn 0 ?f (st\<lparr>pool := a\<rparr>) ?out"
      using len n0(1) bnl True a(1) by (subst read_loop.simps) (simp add: Let_def tr data)
    moreover have "f_offset f + n < f_size f \<longrightarrow> f_offset f + n = ?c + ?bs"
      using True bn(1) bn0 c(1) by auto
    then have "read_position ?f" using n0 bs0 by (auto simp: read_position_def)
    moreover have "f_size f \<le> ?c + ?bs" if "f_offset f + n = f_size f" using that n0(3) bn(1) bn0 c(1) by simp
    ultimately show thesis
      using that [of bn ?f "st\<lparr>pool := a\<rparr>" 1] a(2) n0 True bn0 \<open>_ \<longrightarrow> f_offset f + n = ?c + ?bs\<close> by simp
  next
    case False
    let ?f = "f\<lparr>f_offset := f_offset f + n\<rparr>"
    have "read_loop len bn bo f st out = read_loop (len - n) (bn + 1) 0 ?f st ?out"
      using len n0(1) bnl False by (subst read_loop.simps) (auto simp: Let_def tr data)
    moreover have "f_offset f + n - ?c = bn * ?bs + (bo + n)" using bn(1) c(1) by linarith
    moreover have "read_position ?f"
    proof -
      have "f_offset f + n < ?c + ?bs" if "f_reading_from_beginning f" "f_offset f + n < f_size f"
      proof -
        have "bn * ?bs + bo < 1 * ?bs" using that(1) c bn(1) by linarith
        then have "bn = 0" using bs0 by (cases bn) auto
        then show ?thesis using False that n0(3) bn(1) c(1) by auto
      qed
      then show ?thesis using n0 c by (auto simp: read_position_def)
    qed
    moreover have "bo + n = ?bs" if "n < len" "f_offset f + n < f_size f" using that n bn(2) by (auto simp: min_def split: if_splits)
    ultimately show thesis
      using that [of "bn + 1" ?f st 0] read_effect_advance [OF ok] n0 False by (simp add: algebra_simps) blast
  qed
qed

lemma read_loop_ok:
  assumes "blocks_ok heap f st" "read_position f"
    "0 < len \<Longrightarrow> f_offset f < f_size f \<Longrightarrow>
       f_offset f - f_bytes_consumed f = bn * f_block_size f + bo \<and> bo < f_block_size f"
  shows "\<exists>f' st' k. let n = min len (f_size f - f_offset f) in
    read_loop len bn bo f st out = (Inr (out @ map (byte_at f st) [f_offset f ..< f_offset f + n]), f', st') \<and>
    read_effect heap n f st f' st' k \<and> read_position f' \<and> (\<not> f_reading_from_beginning f \<longrightarrow> k = 0) \<and>
    (f_reading_from_beginning f \<and> 0 < n \<and> f_offset f' = f_size f \<longrightarrow> f_size f \<le> f_bytes_consumed f')"
  using assms
proof (induction len arbitrary: bn bo f st out rule: less_induct)
  case (less len)
  show ?case
  proof (cases "0 < len \<and> f_offset f < f_size f")
    case False
    have "f_offset f \<le> f_size f" using less.prems(2) by (simp add: read_position_def)
    then have z: "min len (f_size f - f_offset f) = 0" using False by auto
    have "read_loop len bn bo f st out = (Inr out, f, st)"
      using False \<open>f_offset f \<le> f_size f\<close> by (subst read_loop.simps) auto
    then show ?thesis
      using less.prems read_effect_advance [OF less.prems(1), of 0] unfolding z Let_def by auto
  next
    case True
    define n where "n = min (min len (f_block_size f - bo)) (f_size f - f_offset f)"
    have bn: "f_offset f - f_bytes_consumed f = bn * f_block_size f + bo" "bo < f_block_size f"
      using less.prems(3) True by auto
    obtain f1 st1 k bn1 where
        step: "read_loop len bn bo f st out =
          read_loop (len - n) bn1 0 f1 st1 (out @ map (byte_at f st) [f_offset f ..< f_offset f + n])"
      and n: "0 < n" "n \<le> len" and eff: "read_effect heap n f st f1 st1 k" and pos: "read_position f1"
      and keep: "\<not> f_reading_from_beginning f \<longrightarrow> k = 0"
      and next_bn: "n < len \<longrightarrow> f_offset f1 < f_size f \<longrightarrow> f_offset f1 - f_bytes_consumed f1 = bn1 * f_block_size f"
      and fin: "f_reading_from_beginning f \<and> f_offset f1 = f_size f \<longrightarrow> f_size f \<le> f_bytes_consumed f1"
      using read_loop_turn [OF less.prems(1,2) _ _ bn n_def, of out] True by metis
    have f1: "f_size f1 = f_size f" "f_offset f1 = f_offset f + n" "f_block_size f1 = f_block_size f"
      "f_reading_from_beginning f1 = f_reading_from_beginning f" "blocks_ok heap f1 st1"
      using eff by (auto simp: read_effect_def)
    let ?m = "min (len - n) (f_size f - (f_offset f + n))"
    have "\<exists>f' st' j. let m = min (len - n) (f_size f1 - f_offset f1) in
        read_loop (len - n) bn1 0 f1 st1 (out @ map (byte_at f st) [f_offset f ..< f_offset f + n]) =
          (Inr ((out @ map (byte_at f st) [f_offset f ..< f_offset f + n]) @
             map (byte_at f1 st1) [f_offset f1 ..< f_offset f1 + m]), f', st') \<and>
        read_effect heap m f1 st1 f' st' j \<and> read_position f' \<and> (\<not> f_reading_from_beginning f1 \<longrightarrow> j = 0) \<and>
        (f_reading_from_beginning f1 \<and> 0 < m \<and> f_offset f' = f_size f1 \<longrightarrow> f_size f1 \<le> f_bytes_consumed f')"
      by (rule less.IH) (use n f1 pos next_bn bn in auto)
    then obtain f' st' j where r: "read_loop (len - n) bn1 0 f1 st1 (out @ map (byte_at f st) [f_offset f ..< f_offset f + n]) =
          (Inr ((out @ map (byte_at f st) [f_offset f ..< f_offset f + n]) @
             map (byte_at f1 st1) [f_offset f + n ..< f_offset f + n + ?m]), f', st')"
        and eff2: "read_effect heap ?m f1 st1 f' st' j" and pos2: "read_position f'"
        and keep2: "\<not> f_reading_from_beginning f \<longrightarrow> j = 0"
        and fin2: "f_reading_from_beginning f \<and> 0 < ?m \<and> f_offset f' = f_size f \<longrightarrow> f_size f \<le> f_bytes_consumed f'"
      unfolding Let_def f1(1,2,4) by blast
    have total: "n + ?m = min len (f_size f - f_offset f)" using n_def by linarith
    have bytes: "map (byte_at f1 st1) [f_offset f + n ..< f_offset f + n + ?m] =
        map (byte_at f st) [f_offset f + n ..< f_offset f + n + ?m]"
    proof (rule map_cong [OF refl])
      fix x assume x: "x \<in> set [f_offset f + n ..< f_offset f + n + ?m]"
      then have "f_offset f1 < f_size f1" using f1 by auto
      then have "f_bytes_consumed f1 \<le> x" using pos x f1 by (auto simp: read_position_def)
      then show "byte_at f1 st1 x = byte_at f st x" using eff unfolding read_effect_def by blast
    qed
    have "[f_offset f ..< f_offset f + n] @ [f_offset f + n ..< f_offset f + n + ?m] = [f_offset f ..< f_offset f + (n + ?m)]"
      using upt_add_eq_append [of "f_offset f" "f_offset f + n" ?m] by (simp add: add.assoc)
    then have out: "read_loop len bn bo f st out =
        (Inr (out @ map (byte_at f st) [f_offset f ..< f_offset f + (n + ?m)]), f', st')"
      unfolding step r bytes by (metis append.assoc map_append)
    have "f_size f \<le> f_bytes_consumed f'" if "f_reading_from_beginning f" "f_offset f' = f_size f"
    proof (cases "0 < ?m")
      case False
      then have "f_offset f1 = f_size f" using eff2 that(2) f1 by (auto simp: read_effect_def)
      then have "f_size f \<le> f_bytes_consumed f1" using fin that(1) by blast
      then show ?thesis using eff2 by (simp add: read_effect_def)
    qed (use fin2 that in blast)
    then show ?thesis
      using out read_effect_trans [OF eff eff2] pos2 keep keep2 unfolding total [symmetric] Let_def by auto
  qed
qed

lemma file_data_from:
  assumes "f_bytes_consumed f \<le> off" "off \<le> f_size f"
  shows "map (byte_at f st) [off ..< off + min len (f_size f - off)] = take len (drop (off - f_bytes_consumed f) (file_data f st))"
proof (cases "len \<le> f_size f - off")
  case True
  then show ?thesis using assms by (simp add: file_data_def drop_map take_map drop_upt take_upt)
next
  case False
  then show ?thesis using assms by (simp add: file_data_def drop_map take_map drop_upt)
qed

lemma file_read_ok:
  assumes "file_ok heap f st" "f_is_open f" "f_read_mode f"
  obtains f' st' k where
    "file_read f st len = (Inr (take len (drop (f_offset f - f_bytes_consumed f) (file_data f st))), f', st')"
    "file_ok heap f' st'" "read_effect heap (min len (f_size f - f_offset f)) f st f' st' k"
    "\<not> f_reading_from_beginning f \<longrightarrow> k = 0"
    "f_reading_from_beginning f \<and> f_offset f < f_size f \<and> f_offset f' = f_size f \<and> 0 < len \<longrightarrow> f_size f \<le> f_bytes_consumed f'"
proof (cases "f_offset f = f_size f")
  case True
  have "file_read f st len = (Inr [], f, st)" using assms True by (simp add: file_read_def)
  moreover have "drop (f_offset f - f_bytes_consumed f) (file_data f st) = []" using True by (simp add: file_data_def)
  moreover have "f\<lparr>f_offset := f_offset f + 0\<rparr> = f" by simp
  then have "read_effect heap 0 f st f st 0"
    using read_effect_advance [of heap f st 0] assms(1) by (simp only: file_ok_def)
  ultimately show thesis using that [of f st 0] assms True by simp
next
  case False
  have ok: "blocks_ok heap f st" "position_ok f" using assms(1) by (simp_all add: file_ok_def)
  have pos: "read_position f" and c: "f_bytes_consumed f \<le> f_offset f" "f_offset f < f_size f"
    using ok(2) assms(2,3) False by (auto simp: position_ok_def read_position_def)
  let ?i = "f_offset f - f_bytes_consumed f" and ?bs = "f_block_size f" and ?n = "min len (f_size f - f_offset f)"
  have loop: "file_read f st len = read_loop len (?i div ?bs) (?i mod ?bs) f st []"
    using assms False c by (simp add: file_read_def size_sub_def Let_def minus_div_mult_eq_mod)
  have bn: "f_offset f - f_bytes_consumed f = ?i div ?bs * ?bs + ?i mod ?bs \<and> ?i mod ?bs < ?bs"
    using file_ok_block_size [OF assms(1)] by simp
  obtain f' st' k where r:
      "read_loop len (?i div ?bs) (?i mod ?bs) f st [] = (Inr ([] @ map (byte_at f st) [f_offset f ..< f_offset f + ?n]), f', st')"
      "read_effect heap ?n f st f' st' k" "read_position f'" "\<not> f_reading_from_beginning f \<longrightarrow> k = 0"
      "f_reading_from_beginning f \<and> 0 < ?n \<and> f_offset f' = f_size f \<longrightarrow> f_size f \<le> f_bytes_consumed f'"
    using read_loop_ok [OF ok(1) pos bn, of len "[]"] unfolding Let_def by blast
  have "file_ok heap f' st'"
    using r(2,3) assms(2,3) unfolding file_ok_def position_ok_def read_position_def read_effect_def by auto
  then show thesis using that [OF _ _ r(2,4)] r loop file_data_from [of f "f_offset f" st len] c by simp
qed

lemma read_effect_data:
  assumes "read_effect heap n f st f' st' k"
  shows "file_data f' st' = drop (k * f_block_size f) (file_data f st)"
proof -
  have f': "f_bytes_consumed f' = f_bytes_consumed f + k * f_block_size f" "f_size f' = f_size f"
    using assms by (auto simp: read_effect_def)
  have "map (byte_at f' st') [f_bytes_consumed f' ..< f_size f] = map (byte_at f st) [f_bytes_consumed f' ..< f_size f]"
    using assms unfolding read_effect_def by (intro map_cong) auto
  then show ?thesis unfolding file_data_def f' by (simp add: drop_map drop_upt)
qed

text \<open>Reading returns the bytes of the file from the offset on, as many as asked for and available, and moves
  the offset behind them. The bytes and the blocks that are still held afterwards are the last of those held
  before; exactly the other blocks were given back to the allocator, and none unless the file is read from its first block.\<close>

theorem file_read_returns_data:
  assumes "file_ok heap f st" "f_is_open f" "f_read_mode f"
  shows "\<exists>f' st' k.
    file_read f st len = (Inr (take len (drop (f_offset f - f_bytes_consumed f) (file_data f st))), f', st') \<and>
    file_ok heap f' st' \<and> f_offset f' = min (f_offset f + len) (f_size f) \<and> mem st' = mem st \<and>
    f_blocks f' = drop k (f_blocks f) \<and> file_data f' st' = drop (k * f_block_size f) (file_data f st) \<and>
    used_blocks (pool st') = used_blocks (pool st) - set (take k (f_blocks f)) \<and>
    (\<not> f_reading_from_beginning f \<longrightarrow> k = 0)"
proof -
  obtain f' st' k where r:
      "file_read f st len = (Inr (take len (drop (f_offset f - f_bytes_consumed f) (file_data f st))), f', st')"
      "file_ok heap f' st'" "read_effect heap (min len (f_size f - f_offset f)) f st f' st' k"
      "\<not> f_reading_from_beginning f \<longrightarrow> k = 0"
      "f_reading_from_beginning f \<and> f_offset f < f_size f \<and> f_offset f' = f_size f \<and> 0 < len \<longrightarrow> f_size f \<le> f_bytes_consumed f'"
    by (rule file_read_ok [OF assms])
  have "f_offset f \<le> f_size f" using assms(1) by (simp add: file_ok_def position_ok_def)
  moreover note e = r(3)[unfolded read_effect_def]
  moreover have "f_offset f' = f_offset f + min len (f_size f - f_offset f)" "f_blocks f' = drop k (f_blocks f)"
    using e by auto
  ultimately show ?thesis using r(1,2,4) read_effect_data [OF r(3)] by (intro exI [of _ f'] exI [of _ st'] exI [of _ k]) auto
qed

section \<open>Writing\<close>

text \<open>The address of a byte of a list of blocks, and blocks that do not overlap.\<close>

definition addr_of :: "nat \<Rightarrow> nat list \<Rightarrow> nat \<Rightarrow> nat" where
  "addr_of bs blocks i = blocks ! (i div bs) + i mod bs"

definition spread :: "nat \<Rightarrow> nat list \<Rightarrow> bool" where
  "spread bs blocks \<longleftrightarrow> 0 < bs \<and> distinct blocks \<and> (\<forall>b \<in> set blocks. \<forall>c \<in> set blocks. b < c \<longrightarrow> b + bs \<le> c)"

lemma blocks_ok_spread: "blocks_ok heap f st \<Longrightarrow> spread (f_block_size f) (f_blocks f)"
  using used_blocks_apart [of "pool st"] unfolding blocks_ok_def spread_def pool_state_def
  by (auto simp: alloc_ok_def subset_iff)

lemma addr_in_block:
  assumes "spread bs blocks" "i < length blocks * bs" "n < length blocks" "bo + k \<le> bs" "0 < k"
  shows "blocks ! n + bo \<le> addr_of bs blocks i \<and> addr_of bs blocks i < blocks ! n + bo + k \<longleftrightarrow>
      n * bs + bo \<le> i \<and> i < n * bs + bo + k"
    "n * bs + bo \<le> i \<and> i < n * bs + bo + k \<Longrightarrow> addr_of bs blocks i - (blocks ! n + bo) = i - (n * bs + bo)"
proof -
  have bs: "0 < bs" "i mod bs < bs" using assms(1) by (simp_all add: spread_def)
  have idx: "i div bs < length blocks" using assms(2) bs by (simp add: less_mult_imp_div_less)
  have same: "i div bs = n" if "n * bs + bo \<le> i" "i < n * bs + bo + k"
  proof -
    have "n * bs \<le> i" "i < (n + 1) * bs" using that assms(4) by auto
    then show ?thesis using bs by (intro div_nat_eqI) (auto simp: mult.commute)
  qed
  have eq: "i = n * bs + i mod bs" if "i div bs = n" using that by (metis div_mult_mod_eq)
  show "n * bs + bo \<le> i \<and> i < n * bs + bo + k \<Longrightarrow> addr_of bs blocks i - (blocks ! n + bo) = i - (n * bs + bo)"
    using same eq unfolding addr_of_def by (metis Nat.diff_cancel diff_diff_left)
  have "i div bs = n" if "blocks ! n + bo \<le> addr_of bs blocks i" "addr_of bs blocks i < blocks ! n + bo + k"
  proof (rule ccontr)
    assume "i div bs \<noteq> n"
    then have ne: "blocks ! (i div bs) \<noteq> blocks ! n"
      using assms(1,3) idx by (simp add: spread_def nth_eq_iff_index_eq)
    have "blocks ! n + bs \<le> blocks ! (i div bs) \<or> blocks ! (i div bs) + bs \<le> blocks ! n"
      using assms(1,3) idx ne unfolding spread_def by (meson linorder_neqE_nat nth_mem)
    then show False using that bs assms(4) unfolding addr_of_def by linarith
  qed
  then show "blocks ! n + bo \<le> addr_of bs blocks i \<and> addr_of bs blocks i < blocks ! n + bo + k \<longleftrightarrow>
      n * bs + bo \<le> i \<and> i < n * bs + bo + k"
    using same eq unfolding addr_of_def by (smt (verit) add.commute add_le_cancel_left add_less_cancel_left add.assoc)
qed

text \<open>The memory after the loop: the buffer at its place in the blocks, everything else unchanged.\<close>

definition written :: "nat \<Rightarrow> nat list \<Rightarrow> nat \<Rightarrow> string \<Rightarrow> (nat \<Rightarrow> char) \<Rightarrow> (nat \<Rightarrow> char) \<Rightarrow> bool" where
  "written bs blocks start buf m m' \<longleftrightarrow>
     (\<forall>i < length blocks * bs. m' (addr_of bs blocks i) =
        (if start \<le> i \<and> i < start + length buf then buf ! (i - start) else m (addr_of bs blocks i))) \<and>
     (\<forall>a. (\<forall>b \<in> set blocks. \<not> (b \<le> a \<and> a < b + bs)) \<longrightarrow> m' a = m a)"

lemma written_copy:
  assumes "spread bs blocks" "n < length blocks" "bo + length buf \<le> bs" "buf \<noteq> []"
  shows "written bs blocks (n * bs + bo) buf m (mem_copy (blocks ! n + bo) buf m)"
  unfolding written_def
proof (intro conjI allI impI)
  fix i assume i: "i < length blocks * bs"
  show "mem_copy (blocks ! n + bo) buf m (addr_of bs blocks i) =
      (if n * bs + bo \<le> i \<and> i < n * bs + bo + length buf then buf ! (i - (n * bs + bo)) else m (addr_of bs blocks i))"
    using addr_in_block [OF assms(1) i assms(2,3)] assms(4) by (auto simp: mem_copy_def)
next
  fix a assume "\<forall>b \<in> set blocks. \<not> (b \<le> a \<and> a < b + bs)"
  then have "\<not> (blocks ! n \<le> a \<and> a < blocks ! n + bs)" using assms(2) by simp
  then show "mem_copy (blocks ! n + bo) buf m a = m a" using assms(3) by (auto simp: mem_copy_def)
qed

lemma written_trans:
  assumes "written bs blocks start buf m m1" "written bs blocks (start + length buf) buf2 m1 m2"
  shows "written bs blocks start (buf @ buf2) m m2"
  using assms unfolding written_def by (auto simp: nth_append diff_diff_left)

lemma write_loop_ok:
  "spread (f_block_size f) (f_blocks f) \<Longrightarrow> bo < f_block_size f \<Longrightarrow>
     bn * f_block_size f + bo + length buf \<le> length (f_blocks f) * f_block_size f \<Longrightarrow>
     \<exists>m'. write_loop buf bn bo f m = Inr m' \<and> written (f_block_size f) (f_blocks f) (bn * f_block_size f + bo) buf m m'"
proof (induction buf bn bo f m rule: write_loop.induct)
  case (1 buf bn bo f m)
  let ?bs = "f_block_size f" and ?blocks = "f_blocks f"
  define n where "n = min (length buf) (?bs - bo)"
  show ?case
  proof (cases "buf = []")
    case True
    then have "write_loop buf bn bo f m = Inr m" by (subst write_loop.simps) simp
    then show ?thesis using True by (auto simp: written_def)
  next
    case False
    have n: "min (length buf) (size_sub ?bs bo) = n" "0 < n" "bo + n \<le> ?bs" "n \<le> length buf"
      using False "1.prems"(2) by (auto simp: n_def size_sub_def)
    have "0 < length buf" using False by simp
    then have "bn * ?bs < length ?blocks * ?bs" using "1.prems"(3) by linarith
    then have bn: "bn < length ?blocks" by simp
    let ?m = "mem_copy (?blocks ! bn + bo) (take n buf) m"
    have step: "write_loop buf bn bo f m = write_loop (drop n buf) (bn + 1) 0 f ?m"
      using False n bn by (subst write_loop.simps) (simp add: Let_def)
    have w: "written ?bs ?blocks (bn * ?bs + bo) (take n buf) m ?m"
      by (rule written_copy) (use "1.prems" bn n False in auto)
    show ?thesis
    proof (cases "drop n buf = []")
      case True
      then have "write_loop buf bn bo f m = Inr ?m" unfolding step by (simp add: write_loop.simps)
      then show ?thesis using w True by simp
    next
      case more: False
      then have nb: "n = ?bs - bo" by (auto simp: n_def)
      then have start: "bn * ?bs + bo + length (take n buf) = (bn + 1) * ?bs + 0" using "1.prems"(2) n(4) by simp
      have "\<exists>m'. write_loop (drop n buf) (bn + 1) 0 f ?m = Inr m' \<and>
          written ?bs ?blocks ((bn + 1) * ?bs + 0) (drop n buf) ?m m'"
        using "1.IH" [OF False, unfolded n(1), OF refl _ _ "1.prems"(1)] "1.prems" n(2,4) bn nb start by (simp add: algebra_simps)
      then show ?thesis using written_trans [OF w, unfolded start] unfolding step by fastforce
    qed
  qed
qed

lemma block_count_bounds:
  assumes "0 < m_block_size a" "memory + m_block_size a \<le> 2 ^ 64"
  shows "memory \<le> block_count a memory * m_block_size a" "block_count a memory * m_block_size a < memory + m_block_size a"
proof -
  let ?bs = "m_block_size a"
  have c: "block_count a memory = (memory + ?bs - 1) div ?bs" using assms by (simp add: block_count_def)
  have "(memory + ?bs - 1) div ?bs * ?bs + (memory + ?bs - 1) mod ?bs = memory + ?bs - 1" by simp
  moreover have "(memory + ?bs - 1) mod ?bs < ?bs" using assms(1) by simp
  ultimately show "memory \<le> block_count a memory * ?bs" "block_count a memory * ?bs < memory + ?bs"
    unfolding c using assms(1) by linarith+
qed

text \<open>After growing, the file has room for the bytes; the blocks that were added were not in use.\<close>

lemma grow_file_ok:
  assumes "file_ok heap f st" "f_capacity f + len + f_block_size f < 2 ^ 64" "grow_file heap f st len = (res, f1, st1)"
  shows "file_ok heap f1 st1 \<and> mem st1 = mem st \<and>
    (case res of
       Inl e \<Rightarrow> e = Bad_alloc \<and> f1 = f \<and> used_blocks (pool st1) = used_blocks (pool st)
     | Inr _ \<Rightarrow> \<exists>bs. f1 = f\<lparr>f_blocks := f_blocks f @ bs, f_capacity := f_capacity f + length bs * f_block_size f\<rparr> \<and>
         f_offset f + len \<le> f_capacity f1 \<and> (bs \<noteq> [] \<longrightarrow> f_capacity f1 < f_offset f + len + f_block_size f) \<and>
         set bs \<inter> used_blocks (pool st) = {} \<and> used_blocks (pool st1) = used_blocks (pool st) \<union> set bs)"
proof -
  have ok: "blocks_ok heap f st" "position_ok f" "pool_state heap (pool st)" "f_block_size f = m_block_size (pool st)"
    using assms(1) unfolding file_ok_def blocks_ok_def by blast+
  let ?room = "f_capacity f - f_offset f"
  have room: "size_sub (f_capacity f) (f_offset f) = ?room" "f_offset f \<le> f_capacity f"
    using ok(1,2) by (auto simp: size_sub_def blocks_ok_def position_ok_def)
  show ?thesis
  proof (cases "?room < len")
    case False
    then have "res = Inr ()" "f1 = f" "st1 = st" using assms(3) room(1) by (simp_all add: grow_file_def)
    then show ?thesis using assms(1) False room(2) by (auto intro!: exI [of _ "[]"])
  next
    case True
    obtain r a where al: "allocate heap (pool st) (len - ?room) = (r, a)" by fastforce
    note pl = allocate_ok [of "pool st" heap, OF _ _ al]
    have p: "alloc_ok (pool st)" "heap_ok (m_page_size (pool st)) heap" using ok(3) by (simp_all add: pool_state_def)
    show ?thesis
    proof (cases r)
      case (Inl e)
      then have g: "res = Inl e" "f1 = f" "st1 = st\<lparr>pool := a\<rparr>"
        using assms(3) True room(1) al by (auto simp: grow_file_def)
      have "blocks_ok heap f st1" using ok(1) pl [OF p] Inl p unfolding blocks_ok_def pool_state_def by (auto simp: g)
      then show ?thesis using ok(2) pl [OF p] Inl by (simp add: g file_ok_def)
    next
      case (Inr bs)
      let ?f = "f\<lparr>f_blocks := f_blocks f @ bs, f_capacity := f_capacity f + length bs * f_block_size f\<rparr>"
      have g: "res = Inr ()" "f1 = ?f" "st1 = st\<lparr>pool := a\<rparr>"
        using assms(3) True room(1) al Inr by (auto simp: grow_file_def)
      have bs: "length bs = block_count (pool st) (len - ?room)" "distinct bs" "set bs \<inter> used_blocks (pool st) = {}"
          "used_blocks a = used_blocks (pool st) \<union> set bs" "alloc_ok a" "same_config a (pool st)"
        using pl [OF p] Inr by simp_all
      have "0 < m_block_size (pool st)" using p by (simp add: alloc_ok_def)
      then have cnt: "len - ?room \<le> length bs * f_block_size f" "length bs * f_block_size f < len - ?room + f_block_size f"
        using block_count_bounds [of "pool st" "len - ?room"] assms(2) ok(4) bs(1) by auto
      have "blocks_ok heap ?f st1"
        using ok(1,4) bs p cnt(2) assms(2) True unfolding blocks_ok_def pool_state_def g by (auto simp: algebra_simps)
      moreover have "position_ok ?f" using ok(2) by (simp add: position_ok_def)
      moreover have "f_offset f + len \<le> f_capacity ?f" "f_capacity ?f < f_offset f + len + f_block_size f"
        using cnt True room(2) by simp_all
      ultimately have "file_ok heap f1 st1 \<and> f1 = ?f \<and> f_offset f + len \<le> f_capacity f1 \<and>
          (bs \<noteq> [] \<longrightarrow> f_capacity f1 < f_offset f + len + f_block_size f) \<and> set bs \<inter> used_blocks (pool st) = {} \<and>
          used_blocks (pool st1) = used_blocks (pool st) \<union> set bs"
        using bs(3,4) by (simp add: g(2,3) file_ok_def)
      moreover have "mem st1 = mem st" by (simp add: g(3))
      ultimately show ?thesis unfolding g(1) sum.case by (intro conjI exI [of _ bs]) (elim conjE, assumption)+
    qed
  qed
qed

lemma file_data_addr:
  "f_bytes_consumed f = 0 \<Longrightarrow> file_data f st = map (\<lambda>i. mem st (addr_of (f_block_size f) (f_blocks f) i)) [0 ..< f_size f]"
  by (simp add: file_data_def byte_at_def addr_of_def)

lemma written_data:
  assumes "written bs (blocks @ ext) off buf m m'" "off \<le> n" "n \<le> length blocks * bs" "off + length buf \<le> length (blocks @ ext) * bs"
  shows "map (\<lambda>i. m' (addr_of bs (blocks @ ext) i)) [0 ..< max n (off + length buf)] =
    take off (map (\<lambda>i. m (addr_of bs blocks i)) [0 ..< n]) @ buf @ drop (off + length buf) (map (\<lambda>i. m (addr_of bs blocks i)) [0 ..< n])"
    (is "?l = ?r")
proof (rule nth_equalityI)
  show "length ?l = length ?r" using assms(2) by simp
  fix i assume "i < length ?l"
  then have i: "i < max n (off + length buf)" by simp
  then have "i < length (blocks @ ext) * bs" using assms(3,4) by (auto simp: algebra_simps)
  then have l: "?l ! i = (if off \<le> i \<and> i < off + length buf then buf ! (i - off) else m (addr_of bs (blocks @ ext) i))"
    using assms(1) i unfolding written_def by simp
  have old: "addr_of bs (blocks @ ext) i = addr_of bs blocks i" if "i < n"
    using that assms(3) by (simp add: addr_of_def nth_append less_mult_imp_div_less)
  consider "i < off" | "off \<le> i" "i < off + length buf" | "off + length buf \<le> i" by linarith
  then show "?l ! i = ?r ! i"
    by cases (use l old i assms(2) in \<open>auto simp: nth_append\<close>)
qed

lemma file_write_ok:
  assumes "file_ok heap f st" "f_is_open f" "\<not> f_read_mode f" "f_capacity f + length buf + f_block_size f < 2 ^ 64"
    "file_write heap f st buf = (res, f', st')"
  shows "file_ok heap f' st' \<and>
    (case res of
       Inl e \<Rightarrow> e = Bad_alloc \<and> f' = f \<and> mem st' = mem st \<and> used_blocks (pool st') = used_blocks (pool st)
     | Inr n \<Rightarrow> n = length buf \<and>
         file_data f' st' = take (f_offset f) (file_data f st) @ buf @ drop (f_offset f + length buf) (file_data f st) \<and>
         (\<exists>bs. set bs \<inter> used_blocks (pool st) = {} \<and> used_blocks (pool st') = used_blocks (pool st) \<union> set bs \<and>
            f' = f\<lparr>f_offset := f_offset f + length buf, f_size := max (f_size f) (f_offset f + length buf),
                   f_blocks := f_blocks f @ bs, f_capacity := f_capacity f + length bs * f_block_size f\<rparr> \<and>
            (bs \<noteq> [] \<longrightarrow> f_capacity f' < f_offset f' + f_block_size f)) \<and>
         (\<forall>a. (\<forall>b \<in> set (f_blocks f'). \<not> (b \<le> a \<and> a < b + f_block_size f)) \<longrightarrow> mem st' a = mem st a))"
proof -
  obtain r f1 st1 where g: "grow_file heap f st (length buf) = (r, f1, st1)" by (metis prod_cases3)
  note ok = grow_file_ok [OF assms(1,4) g]
  show ?thesis
  proof (cases r)
    case (Inl e)
    then have "res = Inl e" "f' = f1" "st' = st1" using assms(2,3,5) g by (simp_all add: file_write_def)
    then show ?thesis using ok Inl by auto
  next
    case (Inr u)
    then obtain bs where bs: "f1 = f\<lparr>f_blocks := f_blocks f @ bs, f_capacity := f_capacity f + length bs * f_block_size f\<rparr>"
        "f_offset f + length buf \<le> f_capacity f1" "bs \<noteq> [] \<longrightarrow> f_capacity f1 < f_offset f + length buf + f_block_size f"
        "set bs \<inter> used_blocks (pool st) = {}" "used_blocks (pool st1) = used_blocks (pool st) \<union> set bs"
      using ok by (auto simp only: sum.case)
    have ok1: "blocks_ok heap f1 st1" "position_ok f1" "mem st1 = mem st" using ok by (simp_all add: file_ok_def)
    let ?bs = "f_block_size f" and ?off = "f_offset f"
    have c0: "f_bytes_consumed f = 0" "?off \<le> f_size f" "f_size f \<le> length (f_blocks f) * ?bs"
      "f_capacity f1 = length (f_blocks f @ bs) * ?bs" "f_size f \<le> f_capacity f1" "f_capacity f1 < 2 ^ 64"
      using assms(1-3) ok1 bs(1) by (auto simp: file_ok_def blocks_ok_def position_ok_def)
    have bs0: "0 < ?bs" by (rule file_ok_block_size [OF assms(1)])
    obtain m where m: "write_loop buf (?off div ?bs) (?off mod ?bs) f1 (mem st1) = Inr m"
        "written ?bs (f_blocks f @ bs) ?off buf (mem st) m"
      using write_loop_ok [of f1 "?off mod ?bs" "?off div ?bs" buf "mem st1"] blocks_ok_spread [OF ok1(1)] bs(1,2) bs0 c0(4) ok1(3)
      by auto
    let ?f = "f1\<lparr>f_offset := ?off + length buf, f_size := max (f_size f) (?off + length buf)\<rparr>"
    have w: "res = Inr (length buf)" "f' = ?f" "st' = st1\<lparr>mem := m\<rparr>"
      using assms(2,3,5) g Inr m(1) bs(1)
      by (auto simp: file_write_def Let_def size_sub_def minus_div_mult_eq_mod max_def)
    have "blocks_ok heap ?f st'" using ok1(1) c0 bs(1,2) unfolding blocks_ok_def w(3) by auto
    moreover have "position_ok ?f" using c0(1) bs(1) assms(2,3) by (simp add: position_ok_def)
    ultimately have "file_ok heap f' st'" by (simp add: file_ok_def w)
    moreover have "file_data f' st' = take ?off (file_data f st) @ buf @ drop (?off + length buf) (file_data f st)"
      using written_data [OF m(2) c0(2,3)] bs(1,2) c0(1,4) by (simp add: file_data_addr w)
    moreover have "\<forall>a. (\<forall>b \<in> set (f_blocks f'). \<not> (b \<le> a \<and> a < b + ?bs)) \<longrightarrow> mem st' a = mem st a"
      using m(2) bs(1) by (simp add: written_def w)
    moreover have "f' = f\<lparr>f_offset := ?off + length buf, f_size := max (f_size f) (?off + length buf),
        f_blocks := f_blocks f @ bs, f_capacity := f_capacity f + length bs * ?bs\<rparr>" by (simp add: w bs(1))
    moreover have "used_blocks (pool st') = used_blocks (pool st) \<union> set bs" "bs \<noteq> [] \<longrightarrow> f_capacity f' < f_offset f' + ?bs"
      using bs by (simp_all add: w)
    ultimately show ?thesis unfolding w(1) sum.case using bs(4) by blast
  qed
qed

text \<open>A write that succeeds replaces the bytes at the offset by the buffer, extends the file if needed, and
  changes no byte of memory outside the blocks of the file; the blocks it adds were not in use. If memory runs out,
  the file and the memory are as before.\<close>

theorem file_write_stores_data:
  assumes "file_ok heap f st" "f_is_open f" "\<not> f_read_mode f" "f_capacity f + length buf + f_block_size f < 2 ^ 64"
    "file_write heap f st buf = (res, f', st')"
  shows "file_ok heap f' st' \<and>
    (case res of
       Inl e \<Rightarrow> e = Bad_alloc \<and> f' = f \<and> mem st' = mem st \<and> used_blocks (pool st') = used_blocks (pool st)
     | Inr n \<Rightarrow> n = length buf \<and> f_offset f' = f_offset f + length buf \<and>
         file_data f' st' = take (f_offset f) (file_data f st) @ buf @ drop (f_offset f + length buf) (file_data f st) \<and>
         (\<exists>bs. f_blocks f' = f_blocks f @ bs \<and> set bs \<inter> used_blocks (pool st) = {} \<and>
            used_blocks (pool st') = used_blocks (pool st) \<union> set bs) \<and>
         (\<forall>a. (\<forall>b \<in> set (f_blocks f'). \<not> (b \<le> a \<and> a < b + f_block_size f)) \<longrightarrow> mem st' a = mem st a))"
proof (cases res)
  case (Inl e)
  then show ?thesis using file_write_ok [OF assms] by auto
next
  case (Inr n)
  then obtain bs where "f' = f\<lparr>f_offset := f_offset f + length buf, f_size := max (f_size f) (f_offset f + length buf),
        f_blocks := f_blocks f @ bs, f_capacity := f_capacity f + length bs * f_block_size f\<rparr>"
      "set bs \<inter> used_blocks (pool st) = {}" "used_blocks (pool st') = used_blocks (pool st) \<union> set bs"
    using file_write_ok [OF assms] by (auto simp only: sum.case)
  then have "f_offset f' = f_offset f + length buf" "\<exists>bs. f_blocks f' = f_blocks f @ bs \<and> set bs \<inter> used_blocks (pool st) = {} \<and>
      used_blocks (pool st') = used_blocks (pool st) \<union> set bs" by auto
  then show ?thesis using file_write_ok [OF assms] unfolding Inr sum.case by blast
qed

section \<open>Round trip\<close>

text \<open>Sequences of writes and of reads.\<close>

fun file_writes :: "heap \<Rightarrow> alloc_file \<Rightarrow> store \<Rightarrow> string list \<Rightarrow> unit result \<times> alloc_file \<times> store" where
  "file_writes heap f st [] = (Inr (), f, st)"
| "file_writes heap f st (buf # bufs) =
     (case file_write heap f st buf of
        (Inl e, f', st') \<Rightarrow> (Inl e, f', st')
      | (Inr _, f', st') \<Rightarrow> file_writes heap f' st' bufs)"

fun file_reads :: "alloc_file \<Rightarrow> store \<Rightarrow> nat list \<Rightarrow> string result \<times> alloc_file \<times> store" where
  "file_reads f st [] = (Inr [], f, st)"
| "file_reads f st (len # lens) =
     (case file_read f st len of
        (Inl e, f', st') \<Rightarrow> (Inl e, f', st')
      | (Inr out, f', st') \<Rightarrow>
          (case file_reads f' st' lens of
             (Inl e, f2, st2) \<Rightarrow> (Inl e, f2, st2)
           | (Inr rest, f2, st2) \<Rightarrow> (Inr (out @ rest), f2, st2)))"

lemma file_data_length: "length (file_data f st) = f_size f - f_bytes_consumed f"
  by (simp add: file_data_def)

lemma file_writes_ok:
  assumes "file_ok heap f st" "f_is_open f" "\<not> f_read_mode f" "f_offset f = f_size f"
    "f_capacity f < f_size f + f_block_size f" "f_size f + length (concat bufs) + 2 * f_block_size f < 2 ^ 64"
    "file_writes heap f st bufs = (Inr (), f', st')"
  shows "file_ok heap f' st' \<and> f_is_open f' \<and> file_data f' st' = file_data f st @ concat bufs \<and>
    f_capacity f' < f_size f' + f_block_size f' \<and> f_bytes_consumed f' = 0 \<and> f_retain_data f' = f_retain_data f \<and>
    (\<exists>bs. f_blocks f' = f_blocks f @ bs \<and> set bs \<inter> used_blocks (pool st) = {} \<and>
       used_blocks (pool st') = used_blocks (pool st) \<union> set bs)"
  using assms
proof (induction bufs arbitrary: f st)
  case Nil
  then show ?case by (auto simp: file_ok_def position_ok_def)
next
  case (Cons buf bufs)
  obtain r f1 st1 where w: "file_write heap f st buf = (r, f1, st1)" by (metis prod_cases3)
  obtain n where r: "r = Inr n" using Cons.prems(7) w by (cases r) auto
  have rest: "file_writes heap f1 st1 bufs = (Inr (), f', st')" using Cons.prems(7) w r by simp
  have "f_capacity f + length buf + f_block_size f < 2 ^ 64" using Cons.prems(5,6) by simp
  note wo = file_write_ok [OF Cons.prems(1-3) this w, unfolded r sum.case]
  then obtain bs where f1: "f1 = f\<lparr>f_offset := f_offset f + length buf, f_size := max (f_size f) (f_offset f + length buf),
        f_blocks := f_blocks f @ bs, f_capacity := f_capacity f + length bs * f_block_size f\<rparr>"
      and bs: "set bs \<inter> used_blocks (pool st) = {}" "used_blocks (pool st1) = used_blocks (pool st) \<union> set bs"
        "bs \<noteq> [] \<longrightarrow> f_capacity f1 < f_offset f1 + f_block_size f"
    by blast
  have "f_bytes_consumed f = 0" using Cons.prems(1-3) by (simp add: file_ok_def position_ok_def)
  then have data: "file_data f1 st1 = file_data f st @ buf"
    using wo Cons.prems(4) by (simp add: file_data_length)
  have "f_capacity f1 < f_size f1 + f_block_size f1"
    using bs(3) Cons.prems(4,5) f1 by (cases "bs = []") auto
  then have IH: "file_ok heap f' st' \<and> f_is_open f' \<and> file_data f' st' = file_data f1 st1 @ concat bufs \<and>
      f_capacity f' < f_size f' + f_block_size f' \<and> f_bytes_consumed f' = 0 \<and> f_retain_data f' = f_retain_data f1 \<and>
      (\<exists>cs. f_blocks f' = f_blocks f1 @ cs \<and> set cs \<inter> used_blocks (pool st1) = {} \<and>
         used_blocks (pool st') = used_blocks (pool st1) \<union> set cs)"
    using wo f1 Cons.prems(2-4,6) rest by (intro Cons.IH) auto
  then obtain cs where cs: "f_blocks f' = f_blocks f1 @ cs" "set cs \<inter> used_blocks (pool st1) = {}"
      "used_blocks (pool st') = used_blocks (pool st1) \<union> set cs"
    by blast
  have "f_blocks f' = f_blocks f @ (bs @ cs)" using cs(1) f1 by simp
  moreover have "set (bs @ cs) \<inter> used_blocks (pool st) = {}" using cs(2) bs(1,2) by auto
  moreover have "used_blocks (pool st') = used_blocks (pool st) \<union> set (bs @ cs)" using cs(3) bs(2) by auto
  moreover have "f_retain_data f1 = f_retain_data f" by (simp add: f1)
  ultimately show ?case using IH data by (metis append.assoc concat.simps(2))
qed

lemma file_reads_ok:
  assumes "file_ok heap f st" "f_is_open f" "f_read_mode f" "f_reading_from_beginning f"
    "f_offset f = f_size f \<longrightarrow> f_size f \<le> f_bytes_consumed f"
  shows "\<exists>f' st' n k. file_reads f st lens =
      (Inr (take (sum_list lens) (drop (f_offset f - f_bytes_consumed f) (file_data f st))), f', st') \<and>
    file_ok heap f' st' \<and> read_effect heap n f st f' st' k \<and> f_offset f' = min (f_offset f + sum_list lens) (f_size f) \<and>
    (f_offset f' = f_size f \<longrightarrow> f_size f \<le> f_bytes_consumed f')"
  using assms
proof (induction lens arbitrary: f st)
  case Nil
  have "read_effect heap 0 f st (f\<lparr>f_offset := f_offset f + 0\<rparr>) st 0"
    using Nil by (intro read_effect_advance) (simp add: file_ok_def)
  then have "read_effect heap 0 f st f st 0" by simp
  moreover have "f_offset f = min (f_offset f + 0) (f_size f)" using Nil by (simp add: file_ok_def position_ok_def)
  ultimately show ?case using Nil by (intro exI [of _ f] exI [of _ st] exI [of _ 0]) simp
next
  case (Cons len lens)
  obtain f1 st1 k where r:
      "file_read f st len = (Inr (take len (drop (f_offset f - f_bytes_consumed f) (file_data f st))), f1, st1)"
      "file_ok heap f1 st1" "read_effect heap (min len (f_size f - f_offset f)) f st f1 st1 k"
      "\<not> f_reading_from_beginning f \<longrightarrow> k = 0"
      "f_reading_from_beginning f \<and> f_offset f < f_size f \<and> f_offset f1 = f_size f \<and> 0 < len \<longrightarrow> f_size f \<le> f_bytes_consumed f1"
    by (rule file_read_ok [OF Cons.prems(1-3)])
  have le: "f_offset f \<le> f_size f" using Cons.prems(1) by (simp add: file_ok_def position_ok_def)
  have f1: "f_is_open f1" "f_read_mode f1" "f_reading_from_beginning f1" "f_size f1 = f_size f"
      "f_offset f1 = min (f_offset f + len) (f_size f)" "f_bytes_consumed f1 = f_bytes_consumed f + k * f_block_size f"
    using r(3) Cons.prems le by (auto simp: read_effect_def)
  have J: "f_offset f1 = f_size f1 \<longrightarrow> f_size f1 \<le> f_bytes_consumed f1"
    using r(5) Cons.prems(4,5) f1 le by (cases "f_offset f = f_size f"; cases len) auto
  obtain f2 st2 n j where IH: "file_reads f1 st1 lens =
      (Inr (take (sum_list lens) (drop (f_offset f1 - f_bytes_consumed f1) (file_data f1 st1))), f2, st2)"
      "file_ok heap f2 st2" "read_effect heap n f1 st1 f2 st2 j" "f_offset f2 = min (f_offset f1 + sum_list lens) (f_size f1)"
      "f_offset f2 = f_size f1 \<longrightarrow> f_size f1 \<le> f_bytes_consumed f2"
    using Cons.IH [OF r(2) f1(1-3) J] f1(4) by metis
  have "drop (f_offset f1 - f_bytes_consumed f1) (file_data f1 st1) =
      drop len (drop (f_offset f - f_bytes_consumed f) (file_data f st))"
  proof -
    have d: "file_data f1 st1 = drop (k * f_block_size f) (file_data f st)" by (rule read_effect_data [OF r(3)])
    show ?thesis
    proof (cases "f_offset f1 < f_size f")
      case True
      have "f_bytes_consumed f1 \<le> f_offset f1" "f_bytes_consumed f \<le> f_offset f"
        using r(2) Cons.prems(1,2) True f1 by (auto simp: file_ok_def position_ok_def)
      then show ?thesis unfolding d using True f1 by (simp add: add.commute)
    next
      case False
      then have "f_offset f1 = f_size f" "f_size f \<le> f_offset f + len" using f1 by auto
      moreover then have "file_data f1 st1 = []" using J f1(4) by (simp add: file_data_def)
      ultimately show ?thesis by (simp add: file_data_length)
    qed
  qed
  then have "file_reads f st (len # lens) =
      (Inr (take (sum_list (len # lens)) (drop (f_offset f - f_bytes_consumed f) (file_data f st))), f2, st2)"
    using r(1) IH(1) by (simp add: take_add)
  moreover have "f_offset f2 = min (f_offset f + sum_list (len # lens)) (f_size f)" using IH(4) f1 by auto
  ultimately show ?case using IH(2,5) read_effect_trans [OF r(3) IH(3)] f1(4) by auto
qed

text \<open>C16: what is written to a new file in any number of pieces can be read back in pieces of any sizes; when the
  end is reached, every block that was allocated for the file has been given back to the allocator.\<close>

theorem file_roundtrip:
  assumes "pool_state heap (pool st)" "length (concat bufs) + 2 * m_block_size (pool st) < 2 ^ 64"
    "file_open (new_file name st c) False = (Inr (), f1)" "file_writes heap f1 st bufs = (Inr (), f2, st2)"
    "length (concat bufs) \<le> sum_list lens"
  shows "\<exists>f3 f4 f5 st5. file_close f2 = (Inr (), f3) \<and> file_open f3 True = (Inr (), f4) \<and>
    file_reads f4 st2 lens = (Inr (concat bufs), f5, st5) \<and> f_blocks f5 = [] \<and> pool_state heap (pool st5) \<and>
    used_blocks (pool st5) = used_blocks (pool st)"
proof -
  let ?bs = "m_block_size (pool st)"
  have f1: "file_ok heap f1 st" "f_is_open f1" "\<not> f_read_mode f1" "f_offset f1 = 0" "f_size f1 = 0" "f_capacity f1 = 0"
      "f_blocks f1 = []" "f_block_size f1 = ?bs" "\<not> f_retain_data f1" "f_bytes_consumed f1 = 0"
    using file_open_ok [OF new_file_ok [OF assms(1), of name c] assms(3)] assms(3)
    by (auto simp: new_file_def file_open_def file_seek_def file_tell_def)
  have bs0: "0 < ?bs" using file_ok_block_size [OF f1(1)] f1(8) by simp
  have w: "file_ok heap f2 st2" "f_is_open f2" "file_data f2 st2 = concat bufs" "f_capacity f2 < f_size f2 + f_block_size f2"
      "f_bytes_consumed f2 = 0" "\<not> f_retain_data f2" "set (f_blocks f2) \<inter> used_blocks (pool st) = {}"
      "used_blocks (pool st2) = used_blocks (pool st) \<union> set (f_blocks f2)"
    using file_writes_ok [OF f1(1-3) _ _ _ assms(4)] f1 bs0 assms(2) by (auto simp: file_data_def)
  let ?f3 = "f2\<lparr>f_is_open := False\<rparr>"
  have c: "file_close f2 = (Inr (), ?f3)" using w(2) by (simp add: file_close_def)
  have f3: "file_ok heap ?f3 st2" "file_data ?f3 st2 = concat bufs" using file_close_ok [OF w(1) c] w(3) by auto
  obtain f4 where o: "file_open ?f3 True = (Inr (), f4)"
    using w(5) by (simp add: file_open_def file_seek_def file_tell_def Let_def)
  note f4 = file_open_ok [OF f3(1) o]
  have size: "f_size f4 = length (concat bufs)" using f4 f3(2) file_data_length [of f4 st2] by simp
  have pre: "file_ok heap f4 st2" "f_is_open f4" "f_read_mode f4" "f_reading_from_beginning f4"
      "f_offset f4 = f_size f4 \<longrightarrow> f_size f4 \<le> f_bytes_consumed f4"
    using f4 w(6) by auto
  obtain f5 st5 n k where r: "file_reads f4 st2 lens =
        (Inr (take (sum_list lens) (drop (f_offset f4 - f_bytes_consumed f4) (file_data f4 st2))), f5, st5)"
      "file_ok heap f5 st5" "read_effect heap n f4 st2 f5 st5 k" "f_offset f5 = min (f_offset f4 + sum_list lens) (f_size f4)"
      "f_offset f5 = f_size f4 \<longrightarrow> f_size f4 \<le> f_bytes_consumed f5"
    using file_reads_ok [OF pre, of lens] by blast
  have out: "take (sum_list lens) (drop (f_offset f4 - f_bytes_consumed f4) (file_data f4 st2)) = concat bufs"
    using f4 f3(2) assms(5) by simp
  have cap: "f_size f4 \<le> f_bytes_consumed f5" "f_capacity f2 = f_bytes_consumed f5 + length (f_blocks f5) * f_block_size f2"
      "f_capacity f5 = f_capacity f2" "f_block_size f5 = f_block_size f2"
    using r size assms(5) f4 o by (auto simp: read_effect_def file_ok_def blocks_ok_def file_open_def file_seek_def
        file_tell_def Let_def split: if_splits)
  moreover have "f_size f4 = f_size f2" using f4 by simp
  ultimately have "length (f_blocks f5) * f_block_size f2 < 1 * f_block_size f2"
    unfolding cap(3,4) using w(4) by linarith
  then have none: "f_blocks f5 = []" unfolding mult_less_cancel2 by simp
  then have "take k (f_blocks f4) = f_blocks f2" using r(3) f4 by (auto simp: read_effect_def)
  then have "used_blocks (pool st5) = used_blocks (pool st)" using r(3) w(7,8) by (auto simp: read_effect_def)
  moreover have "pool_state heap (pool st5)" using r(2) by (simp add: file_ok_def blocks_ok_def)
  ultimately show ?thesis using c o r(1) out none by auto
qed

section \<open>Examples\<close>

text \<open>An allocator with one page of two blocks of four bytes.\<close>

definition small_pool :: allocator where
  "small_pool = \<lparr>m_blocks_per_page = 2, m_block_size = 4, m_page_size = 8,
     m_pages = [\<lparr>m_memory = 8, page_available = [12, 8]\<rparr>], m_full_pages = [], m_empty_page = Some 8,
     m_available_blocks = 2\<rparr>"

definition small_store :: store where
  "small_store = \<lparr>mem = (\<lambda>_. CHR ''x''), pool = small_pool\<rparr>"

lemma small_pool_ok: "pool_state (bump_heap 8) small_pool" "used_blocks small_pool = {}"
proof -
  have "{..<2::nat} = {0, 1}" by auto
  then show "pool_state (bump_heap 8) small_pool" "used_blocks small_pool = {}"
    using bump_heap_ok [of 8]
    by (simp_all add: pool_state_def small_pool_def used_blocks_def used_of_def all_pages_def block_addrs_def
        alloc_ok_def geometry_def)
qed

lemma small_allocate:
  "allocate (bump_heap 8) small_pool 2 = (Inr [8], small_pool\<lparr>m_pages := [\<lparr>m_memory = 8, page_available = [12]\<rparr>],
     m_empty_page := None, m_available_blocks := 1\<rparr>)"
  by (simp add: allocate_def block_count_def add_pages.simps take_blocks.simps take_from_first_def use_blocks_eq
      page_insert_def Let_def small_pool_def)

definition small_file :: "bool \<Rightarrow> alloc_file" where
  "small_file m = (new_file ''f'' small_store False)\<lparr>f_is_open := True, f_read_mode := m, f_accepts_append := False,
     f_reading_from_beginning := True\<rparr>"

lemma small_pool_block_size: "m_block_size small_pool = 4"
  by (simp add: small_pool_def)

lemma small_file_sel:
  "f_is_open (small_file m)" "f_read_mode (small_file m) = m" "f_blocks (small_file m) = []"
  "f_capacity (small_file m) = 0" "f_offset (small_file m) = 0" "f_size (small_file m) = 0"
  "f_block_size (small_file m) = 4" "f_bytes_consumed (small_file m) = 0"
  by (simp_all add: small_file_def new_file_def small_store_def small_pool_block_size)

lemma small_open: "file_open (new_file ''f'' small_store False) m = (Inr (), small_file m)"
  by (simp add: file_open_def file_seek_def file_tell_def new_file_def small_file_def)

lemma small_file_ok: "file_ok (bump_heap 8) (small_file m) small_store" "pool_state (bump_heap 8) (pool small_store)"
proof -
  show p: "pool_state (bump_heap 8) (pool small_store)" using small_pool_ok by (simp add: small_store_def)
  show "file_ok (bump_heap 8) (small_file m) small_store"
    using file_open_ok [OF new_file_ok [OF p] small_open] by blast
qed

lemma small_write: "\<exists>f2 st2. file_write (bump_heap 8) (small_file False) small_store ''ab'' = (Inr 2, f2, st2)"
proof -
  have g: "\<exists>f1 a. grow_file (bump_heap 8) (small_file False) small_store 2 = (Inr (), f1, small_store\<lparr>pool := a\<rparr>) \<and>
      f_blocks f1 = [8] \<and> f_offset f1 = 0 \<and> f_block_size f1 = 4"
    using small_allocate by (simp add: grow_file_def small_file_sel size_sub_def small_store_def)
  then obtain f1 a where g1: "grow_file (bump_heap 8) (small_file False) small_store 2 = (Inr (), f1, small_store\<lparr>pool := a\<rparr>)"
      and f1: "f_blocks f1 = [8]" "f_offset f1 = 0" "f_block_size f1 = 4" by blast
  have "write_loop ''ab'' 0 0 f1 m = Inr (mem_copy 8 ''ab'' m)" for m
    using f1 write_loop.simps [of "[]"] by (subst write_loop.simps) (simp add: size_sub_def)
  then show ?thesis
    using f1 g1 by (simp add: file_write_def small_file_sel numeral_2_eq_2 size_sub_def)
qed

theorem file_roundtrip_witness:
  "\<exists>f4 st2 f5 st5. file_reads f4 st2 [1, 5] = (Inr ''ab'', f5, st5) \<and> used_blocks (pool st5) = {}"
proof -
  obtain f2 st2 where "file_write (bump_heap 8) (small_file False) small_store ''ab'' = (Inr 2, f2, st2)"
    using small_write by blast
  then have ws: "file_writes (bump_heap 8) (small_file False) small_store [''ab''] = (Inr (), f2, st2)" by simp
  have "length (concat [''ab'']) + 2 * m_block_size (pool small_store) < 2 ^ 64"
    by (simp add: small_store_def small_pool_block_size)
  from file_roundtrip [OF small_file_ok(2) this small_open ws, of "[1, 5]"] show ?thesis
    using small_pool_ok(2) by (auto simp: small_store_def)
qed

theorem file_write_stores_data_witness:
  "\<exists>f2 st2. file_write (bump_heap 8) (small_file False) small_store ''ab'' = (Inr 2, f2, st2) \<and> file_data f2 st2 = ''ab''"
proof -
  obtain f2 st2 where w: "file_write (bump_heap 8) (small_file False) small_store ''ab'' = (Inr 2, f2, st2)"
    using small_write by blast
  then have "file_data f2 st2 = ''ab''"
    using file_write_stores_data [OF small_file_ok(1) _ _ _ w] by (simp add: small_file_sel file_data_def)
  then show ?thesis using w by blast
qed

theorem file_read_returns_data_witness:
  "\<exists>f' st'. file_read (small_file True) small_store 3 = (Inr [], f', st')"
  using file_read_returns_data [OF small_file_ok(1), of True 3] by (auto simp: small_file_sel file_data_def)

text \<open>A file that was read to its end cannot be opened again, but the attempt leaves it open.\<close>

lemma file_open_failure_leaves_open:
  assumes "\<not> f_is_open f" "f_bytes_consumed f \<noteq> 0"
  shows "\<exists>e f'. file_open f True = (Inl e, f') \<and> f_is_open f'"
  using assms by (simp add: file_open_def file_seek_def Let_def)

section \<open>Errors\<close>

lemma file_write_fails:
  assumes "file_ok heap f st" "f_capacity f + length buf + f_block_size f < 2 ^ 64" "file_write heap f st buf = (Inl e, f', st')"
  shows "f' = f \<and> file_ok heap f st' \<and> file_data f st' = file_data f st \<and> (e = Bad_alloc \<or> (\<exists>m. e = Runtime_error m))"
proof -
  have "f' = f \<and> file_ok heap f st' \<and> mem st' = mem st \<and> (e = Bad_alloc \<or> (\<exists>m. e = Runtime_error m))"
  proof (cases "f_is_open f \<and> \<not> f_read_mode f")
    case True
    then show ?thesis using file_write_ok [OF assms(1) _ _ assms(2,3)] by auto
  next
    case False
    then show ?thesis using assms(1,3) by (auto simp: file_write_def file_error_def split: if_splits)
  qed
  then show ?thesis by (simp add: file_data_def byte_at_def)
qed

lemma file_read_fails:
  assumes "file_ok heap f st" "file_read f st len = (Inl e, f', st')"
  shows "f' = f \<and> st' = st \<and> (\<exists>m. e = Runtime_error m)"
proof -
  have "\<not> (f_is_open f \<and> f_read_mode f)" using assms(2) file_read_ok [OF assms(1), of len] by force
  then show ?thesis using assms(2) by (auto simp: file_read_def file_error_def split: if_splits)
qed

text \<open>A block that the file refuses is freed, and the file keeps its own blocks.\<close>

lemma file_append_fails:
  assumes "file_ok heap f st" "db_memory block = 0 \<or> db_memory block \<in> used_blocks (pool st) - set (f_blocks f)"
    "file_append f st block = (Inl e, f', st')"
  shows "f' = f \<and> file_ok heap f st' \<and> file_data f st' = file_data f st \<and> (\<exists>m. e = Runtime_error m) \<and>
    used_blocks (pool st') = used_blocks (pool st) - (if db_memory block = 0 then {} else {db_memory block})"
proof (cases "db_memory block = 0")
  case True
  then show ?thesis using assms(1,3) by (auto simp: file_append_def drop_block_def file_error_def split: if_splits)
next
  case False
  then have b: "db_memory block \<in> used_blocks (pool st)" "db_memory block \<notin> set (f_blocks f)" using assms(2) by auto
  have ok: "blocks_ok heap f st" "position_ok f" using assms(1) by (simp_all add: file_ok_def)
  obtain a where a: "free_block (db_memory block) (pool st) = Inr a" "alloc_ok a" "used_blocks a = used_blocks (pool st) - {db_memory block}"
      "same_config a (pool st)"
    by (rule free_block_ok [of "pool st", OF _ b(1)]) (use ok in \<open>auto simp: blocks_ok_def pool_state_def\<close>)
  then have st': "f' = f" "st' = st\<lparr>pool := a\<rparr>" "\<exists>m. e = Runtime_error m"
    using False assms(3) by (auto simp: file_append_def drop_block_def file_error_def split: if_splits)
  have "blocks_ok heap f st'" using ok(1) a b(2) unfolding blocks_ok_def pool_state_def st'(2) by auto
  then show ?thesis using st' ok(2) a(3) False by (simp add: file_ok_def file_data_def byte_at_def)
qed

lemma file_open_fails:
  assumes "file_open f mode = (Inl e, f')"
  shows "(\<exists>m. e = Runtime_error m) \<and> file_data f' st = file_data f st \<and>
    (f' = f \<or> \<not> f_is_open f \<and> mode \<and> f_bytes_consumed f \<noteq> 0 \<and> f' = f\<lparr>f_is_open := True, f_read_mode := True, f_accepts_append := False\<rparr>)"
  using assms
  by (auto simp: file_open_def file_seek_def file_tell_def file_error_def Let_def file_data_def byte_at_def split: if_splits)

lemma file_seek_error: "file_seek f off = (Inl e, f') \<Longrightarrow> f' = f \<and> (\<exists>m. e = Runtime_error m)"
  by (auto simp: file_seek_def file_tell_def file_error_def Let_def split: if_splits)

lemma file_close_error: "file_close f = (Inl e, f') \<Longrightarrow> f' = f \<and> (\<exists>m. e = Runtime_error m)"
  by (auto simp: file_close_def file_error_def split: if_splits)

text \<open>C33: an operation on a file that fails leaves the data of the file as it was, and the error is one of the exceptions of the interface
  or the lack of memory: no operation reads or writes outside of the blocks of the file. Writing, reading, seeking, closing and appending a block leave the
  file itself as it was; a block that is refused is freed. Opening does the same with one exception: a file whose first blocks were released can not be opened for reading,
  but is marked as open.\<close>

theorem file_errors_keep_state:
  assumes "file_ok heap f st" "f_capacity f + length buf + f_block_size f < 2 ^ 64"
    "db_memory block = 0 \<or> db_memory block \<in> used_blocks (pool st) - set (f_blocks f)"
  shows "(\<forall>e f' st'. file_write heap f st buf = (Inl e, f', st') \<longrightarrow>
      f' = f \<and> file_ok heap f st' \<and> file_data f st' = file_data f st \<and> (e = Bad_alloc \<or> (\<exists>m. e = Runtime_error m))) \<and>
    (\<forall>e f' st'. file_read f st len = (Inl e, f', st') \<longrightarrow> f' = f \<and> st' = st \<and> (\<exists>m. e = Runtime_error m)) \<and>
    (\<forall>e f'. file_seek f off = (Inl e, f') \<longrightarrow> f' = f \<and> (\<exists>m. e = Runtime_error m)) \<and>
    (\<forall>e f'. file_close f = (Inl e, f') \<longrightarrow> f' = f \<and> (\<exists>m. e = Runtime_error m)) \<and>
    (\<forall>e f' st'. file_append f st block = (Inl e, f', st') \<longrightarrow>
      f' = f \<and> file_ok heap f st' \<and> file_data f st' = file_data f st \<and> (\<exists>m. e = Runtime_error m) \<and>
      used_blocks (pool st') = used_blocks (pool st) - (if db_memory block = 0 then {} else {db_memory block})) \<and>
    (\<forall>e f'. file_open f mode = (Inl e, f') \<longrightarrow> (\<exists>m. e = Runtime_error m) \<and> file_data f' st = file_data f st \<and>
      (f' = f \<or> \<not> f_is_open f \<and> mode \<and> f_bytes_consumed f \<noteq> 0 \<and> f' = f\<lparr>f_is_open := True, f_read_mode := True, f_accepts_append := False\<rparr>))"
  using file_write_fails [OF assms(1,2)] file_read_fails [OF assms(1)] file_append_fails [OF assms(1,3)] file_open_fails [of f mode]
    file_seek_error [of f off] file_close_error [of f]
  by blast

theorem file_errors_keep_state_witness:
  "\<exists>e f'. file_write (bump_heap 8) (small_file True) small_store ''ab'' = (Inl e, f', small_store) \<and> f' = small_file True \<and> (\<exists>m. e = Runtime_error m)"
proof -
  obtain e where e: "file_write (bump_heap 8) (small_file True) small_store ''ab'' = (Inl e, small_file True, small_store)" "e \<noteq> Bad_alloc"
    by (simp add: file_write_def small_file_sel file_error_def)
  have "f_capacity (small_file True) + length ''ab'' + f_block_size (small_file True) < 2 ^ 64" by (simp add: small_file_sel)
  from file_errors_keep_state [OF small_file_ok(1) this, of "\<lparr>db_memory = 0, db_size = 0\<rparr>" 0 0 True] show ?thesis using e by auto
qed

end
