(* ===== verification/Sync_Queue.thy ===== *)
theory Sync_Queue
  imports Prelude
begin

text \<open>
  Model of \<^verbatim>\<open>mysqlshdk/libs/utils/synchronized_queue.h\<close>: the queue between the threads of the program. There is one FIFO
  queue per priority, and one below all of them for the guards that tell the consumers to finish. The mutex
  makes every operation one step; an operation that has to wait on a condition variable is \<open>None\<close> in the states in which it waits. A
  default constructed element, \<^verbatim>\<open>T()\<close>, is a parameter.

  The theorem: elements leave the queue in the order of a stable sort by priority, and a guard never overtakes an
  element. The contract \<open>task_queue\<close> is what the users rely on that push with the default priority.
\<close>

section \<open>State and operations\<close>

datatype queue_priority = LOWEST | LOW | MEDIUM | HIGH

fun map_priority :: "queue_priority \<Rightarrow> nat" where
  "map_priority LOWEST = 1"
| "map_priority LOW = 2"
| "map_priority MEDIUM = 3"
| "map_priority HIGH = 4"

definition k_shutdown_priority :: nat where
  "k_shutdown_priority = 0"

definition k_max_priority :: nat where
  "k_max_priority = map_priority HIGH"

record 'a sync_queue =
  m_queues :: "'a list list"
  q_size :: nat
  m_max_size :: nat

definition new_queue :: "nat \<Rightarrow> 'a sync_queue" where
  "new_queue max_size = \<lparr>m_queues = replicate (1 + k_max_priority) [], q_size = 0, m_max_size = max_size\<rparr>"

definition unsynchronized_empty :: "'a sync_queue \<Rightarrow> bool" where
  "unsynchronized_empty q \<longleftrightarrow> 0 = q_size q"

definition unsynchronized_push :: "'a \<Rightarrow> nat \<Rightarrow> 'a sync_queue \<Rightarrow> 'a sync_queue" where
  "unsynchronized_push u p q =
     (let i = k_max_priority - p
      in q\<lparr>m_queues := (m_queues q)[i := m_queues q ! i @ [u]], q_size := q_size q + 1\<rparr>)"

text \<open>The first queue that is not empty.\<close>

fun pop_first :: "'a list list \<Rightarrow> ('a \<times> 'a list list) option" where
  "pop_first [] = None"
| "pop_first (queue # queues) =
     (case queue of
        [] \<Rightarrow> map_option (\<lambda>(r, queues'). (r, queue # queues')) (pop_first queues)
      | r # queue' \<Rightarrow> Some (r, queue' # queues))"

definition unsynchronized_pop :: "'a sync_queue \<Rightarrow> ('a \<times> 'a sync_queue) result" where
  "unsynchronized_pop q =
     (case pop_first (m_queues q) of
        None \<Rightarrow> Inl (Logic_error ''Trying to pop from an empty queue.'')
      | Some (r, queues) \<Rightarrow> Inr (r, q\<lparr>m_queues := queues, q_size := q_size q - 1\<rparr>))"

definition queue_push :: "'a \<Rightarrow> queue_priority \<Rightarrow> 'a sync_queue \<Rightarrow> 'a sync_queue option" where
  "queue_push r p q =
     (if m_max_size q > 0 \<and> \<not> q_size q < m_max_size q then None
      else Some (unsynchronized_push r (map_priority p) q))"

definition queue_pop :: "'a sync_queue \<Rightarrow> ('a \<times> 'a sync_queue) result option" where
  "queue_pop q = (if unsynchronized_empty q then None else Some (unsynchronized_pop q))"

text \<open>\<^verbatim>\<open>try_pop\<close> returns after the timeout also when the queue stays empty.\<close>

definition try_pop :: "'a sync_queue \<Rightarrow> ('a option \<times> 'a sync_queue) result" where
  "try_pop q =
     (if unsynchronized_empty q then Inr (None, q)
      else rbind (unsynchronized_pop q) (\<lambda>(r, q'). Inr (Some r, q')))"

fun shutdown_loop :: "nat \<Rightarrow> 'a \<Rightarrow> 'a sync_queue \<Rightarrow> 'a sync_queue" where
  "shutdown_loop 0 guard q = q"
| "shutdown_loop (Suc n) guard q = shutdown_loop n guard (unsynchronized_push guard k_shutdown_priority q)"

definition queue_shutdown :: "int \<Rightarrow> 'a \<Rightarrow> 'a sync_queue \<Rightarrow> 'a sync_queue" where
  "queue_shutdown n guard q = shutdown_loop (nat n) guard q"

section \<open>Invariant and contents\<close>

definition queue_items :: "'a sync_queue \<Rightarrow> 'a list" where
  "queue_items q = concat (m_queues q)"

definition queue_ok :: "'a sync_queue \<Rightarrow> bool" where
  "queue_ok q \<longleftrightarrow> length (m_queues q) = 1 + k_max_priority \<and> q_size q = length (queue_items q)"

lemma k_max_priority_4 [simp]: "k_max_priority = 4" "k_shutdown_priority = 0"
  by (simp_all add: k_max_priority_def k_shutdown_priority_def)

lemma map_priority_bounds [simp]: "map_priority p \<le> 4" "0 < map_priority p"
  by (cases p; simp)+

lemma new_queue_ok [simp]: "queue_ok (new_queue m)" "queue_items (new_queue m) = []"
  by (simp_all add: queue_ok_def new_queue_def queue_items_def)

lemma length_concat_append_at:
  "i < length xss \<Longrightarrow> length (concat (xss[i := xss ! i @ [x]])) = length (concat xss) + 1"
proof (induction xss arbitrary: i)
  case (Cons ys xss)
  then show ?case by (cases i) simp_all
qed simp

lemma push_ok: "queue_ok q \<Longrightarrow> queue_ok (unsynchronized_push u p q)"
  by (simp add: queue_ok_def unsynchronized_push_def queue_items_def Let_def length_concat_append_at)

lemma pop_first_concat:
  "pop_first xss = Some (x, yss) \<Longrightarrow> concat xss = x # concat yss \<and> length yss = length xss"
  by (induction xss arbitrary: yss) (auto split: list.splits)

lemma pop_first_None: "pop_first xss = None \<longleftrightarrow> concat xss = []"
  by (induction xss) (auto split: list.splits)

lemma unsynchronized_pop_ok:
  assumes "queue_ok q" "queue_items q \<noteq> []"
  obtains q' where "unsynchronized_pop q = Inr (hd (queue_items q), q')" "queue_ok q'"
    "queue_items q' = tl (queue_items q)" "pop_first (m_queues q) = Some (hd (queue_items q), m_queues q')"
    "m_max_size q' = m_max_size q"
proof -
  obtain x yss where p: "pop_first (m_queues q) = Some (x, yss)"
    using assms(2) pop_first_None [of "m_queues q"] by (auto simp: queue_items_def)
  note c = pop_first_concat [OF p]
  show ?thesis
  proof (rule that)
    show "unsynchronized_pop q = Inr (hd (queue_items q), q\<lparr>m_queues := yss, q_size := q_size q - 1\<rparr>)"
      using p c by (simp add: unsynchronized_pop_def queue_items_def)
  qed (use assms c p in \<open>simp_all add: queue_ok_def queue_items_def\<close>)
qed

lemma queue_pop_ok:
  assumes "queue_ok q"
  shows "queue_pop q = None \<longleftrightarrow> queue_items q = []"
    and "queue_items q = x # xs \<Longrightarrow> \<exists>q'. queue_pop q = Some (Inr (x, q')) \<and> queue_ok q' \<and> queue_items q' = xs"
proof -
  show "queue_pop q = None \<longleftrightarrow> queue_items q = []"
    using assms by (simp add: queue_pop_def unsynchronized_empty_def queue_ok_def)
next
  assume xs: "queue_items q = x # xs"
  then obtain q' where "unsynchronized_pop q = Inr (x, q')" "queue_ok q'" "queue_items q' = xs"
    using unsynchronized_pop_ok [OF assms] by (metis list.sel(1,3) list.simps(3))
  then show "\<exists>q'. queue_pop q = Some (Inr (x, q')) \<and> queue_ok q' \<and> queue_items q' = xs"
    using assms xs by (simp add: queue_pop_def unsynchronized_empty_def queue_ok_def)
qed

section \<open>The order of the elements\<close>

text \<open>What was pushed, with its number of priority, sorted into the queues.\<close>

definition holds_pushed :: "(nat \<times> 'a) list \<Rightarrow> 'a sync_queue \<Rightarrow> bool" where
  "holds_pushed ps q \<longleftrightarrow> m_queues q = map (\<lambda>i. map snd (filter (\<lambda>x. fst x = 4 - i) ps)) [0 ..< 5]"

lemma new_queue_holds: "holds_pushed [] (new_queue m)"
  by (simp add: holds_pushed_def new_queue_def map_replicate_const)

lemma push_holds:
  assumes "holds_pushed ps q" "p \<le> 4"
  shows "holds_pushed (ps @ [(p, u)]) (unsynchronized_push u p q)"
  unfolding holds_pushed_def unsynchronized_push_def Let_def
proof (rule nth_equalityI)
  fix i
  assume "i < length (m_queues (q\<lparr>m_queues := (m_queues q)[k_max_priority - p := m_queues q ! (k_max_priority - p) @ [u]],
    q_size := q_size q + 1\<rparr>))"
  then show "m_queues (q\<lparr>m_queues := (m_queues q)[k_max_priority - p := m_queues q ! (k_max_priority - p) @ [u]],
      q_size := q_size q + 1\<rparr>) ! i =
    map (\<lambda>i. map snd (filter (\<lambda>x. fst x = 4 - i) (ps @ [(p, u)]))) [0 ..< 5] ! i"
    using assms by (auto simp: holds_pushed_def nth_list_update)
qed (use assms in \<open>simp add: holds_pushed_def\<close>)

text \<open>A stable sort collects the elements of each priority in turn.\<close>

lemma insort_key_split:
  assumes "\<forall>y \<in> set xs. f y < f x" "\<forall>y \<in> set ys. f x \<le> f y"
  shows "insort_key f x (xs @ ys) = xs @ x # ys"
  using assms
proof (induction xs)
  case Nil
  then show ?case by (cases ys) simp_all
next
  case (Cons y xs)
  then show ?case by (auto simp: not_le)
qed

lemma sort_key_by_buckets:
  fixes f :: "'a \<Rightarrow> nat"
  assumes "\<forall>x \<in> set xs. f x < n"
  shows "sort_key f xs = concat (map (\<lambda>i. filter (\<lambda>x. f x = i) xs) [0 ..< n])"
  using assms
proof (induction xs)
  case (Cons x xs)
  let ?F = "\<lambda>xs i. filter (\<lambda>x. f x = i) xs"
  have split: "[0 ..< n] = [0 ..< f x] @ [f x] @ [Suc (f x) ..< n]"
    using Cons.prems upt_add_eq_append [of 0 "f x" "n - f x"] upt_conv_Cons [of "f x" n] by simp
  have same: "map (?F (x # xs)) [0 ..< f x] = map (?F xs) [0 ..< f x]"
    "map (?F (x # xs)) [Suc (f x) ..< n] = map (?F xs) [Suc (f x) ..< n]" "?F (x # xs) (f x) = x # ?F xs (f x)" by auto
  have "sort_key f (x # xs) = insort_key f x (concat (map (?F xs) [0 ..< n]))"
    using Cons by simp
  also have "\<dots> = insort_key f x (concat (map (?F xs) [0 ..< f x]) @ (?F xs (f x) @ concat (map (?F xs) [Suc (f x) ..< n])))"
    unfolding split by simp
  also have "\<dots> = concat (map (?F xs) [0 ..< f x]) @ x # (?F xs (f x) @ concat (map (?F xs) [Suc (f x) ..< n]))"
    by (rule insort_key_split) auto
  also have "\<dots> = concat (map (?F (x # xs)) [0 ..< n])"
    unfolding split map_append concat_append list.map same by simp
  finally show ?case .
qed simp

lemma sort_key_map: "sort_key f (map g xs) = map g (sort_key (\<lambda>x. f (g x)) xs)"
proof (induction xs)
  case (Cons x xs)
  have "insort_key f (g x) (map g ys) = map g (insort_key (\<lambda>x. f (g x)) x ys)" for ys
    by (induction ys) simp_all
  then show ?case using Cons by simp
qed simp

lemma holds_pushed_items:
  assumes "holds_pushed ps q" "\<forall>(p, _) \<in> set ps. p \<le> 4"
  shows "queue_items q = map snd (sort_key (\<lambda>x. 4 - fst x) ps)"
proof -
  have "sort_key (\<lambda>x. 4 - fst x) ps = concat (map (\<lambda>i. filter (\<lambda>x. 4 - fst x = i) ps) [0 ..< 5])"
    by (rule sort_key_by_buckets) auto
  also have "\<dots> = concat (map (\<lambda>i. filter (\<lambda>x. fst x = 4 - i) ps) [0 ..< 5])"
    using assms(2) by (intro arg_cong [where f = concat] map_cong filter_cong refl) auto
  finally have "sort_key (\<lambda>x. 4 - fst x) ps = concat (map (\<lambda>i. filter (\<lambda>x. fst x = 4 - i) ps) [0 ..< 5])" .
  then show ?thesis using assms(1) by (simp add: queue_items_def holds_pushed_def map_concat comp_def)
qed

text \<open>Runs of a producer and of a consumer.\<close>

fun queue_pushes :: "('a \<times> queue_priority) list \<Rightarrow> 'a sync_queue \<Rightarrow> 'a sync_queue option" where
  "queue_pushes [] q = Some q"
| "queue_pushes ((r, p) # rs) q = Option.bind (queue_push r p q) (queue_pushes rs)"

fun queue_pops :: "nat \<Rightarrow> 'a sync_queue \<Rightarrow> ('a list \<times> 'a sync_queue) result option" where
  "queue_pops 0 q = Some (Inr ([], q))"
| "queue_pops (Suc n) q =
     (case queue_pop q of
        None \<Rightarrow> None
      | Some (Inl e) \<Rightarrow> Some (Inl e)
      | Some (Inr (x, q')) \<Rightarrow> map_option (\<lambda>m. rbind m (\<lambda>(xs, q2). Inr (x # xs, q2))) (queue_pops n q'))"

lemma shutdown_holds:
  "queue_ok q \<Longrightarrow> holds_pushed ps q \<Longrightarrow>
     queue_ok (shutdown_loop n g q) \<and> holds_pushed (ps @ replicate n (0, g)) (shutdown_loop n g q)"
proof (induction n arbitrary: ps q)
  case (Suc n)
  from Suc.IH [OF push_ok [OF Suc.prems(1)] push_holds [OF Suc.prems(2), of 0 g]]
  show ?case by simp
qed simp

lemma queue_pushes_holds:
  assumes "queue_ok q" "holds_pushed ps q" "m_max_size q = 0 \<or> q_size q + length rs \<le> m_max_size q"
  shows "\<exists>q'. queue_pushes rs q = Some q' \<and> queue_ok q' \<and> holds_pushed (ps @ map (\<lambda>(r, p). (map_priority p, r)) rs) q'"
  using assms
proof (induction rs arbitrary: ps q)
  case (Cons rp rs)
  obtain r p where rp: "rp = (r, p)" by force
  let ?q = "unsynchronized_push r (map_priority p) q"
  have "queue_push r p q = Some ?q" using Cons.prems(3) rp by (auto simp: queue_push_def)
  moreover have "m_max_size ?q = m_max_size q" "q_size ?q = q_size q + 1"
    by (simp_all add: unsynchronized_push_def Let_def)
  ultimately show ?case
    using Cons.IH [OF push_ok [OF Cons.prems(1)] push_holds [OF Cons.prems(2) map_priority_bounds(1)]]
      Cons.prems(3) rp by auto
qed simp

lemma queue_pops_items:
  assumes "queue_ok q" "n = length (queue_items q)"
  shows "\<exists>q'. queue_pops n q = Some (Inr (queue_items q, q')) \<and> queue_pop q' = None"
  using assms
proof (induction n arbitrary: q)
  case 0
  then show ?case using queue_pop_ok(1) by auto
next
  case (Suc n)
  then obtain x xs where xs: "queue_items q = x # xs" by (cases "queue_items q") auto
  then obtain q1 where q1: "queue_pop q = Some (Inr (x, q1))" "queue_ok q1" "queue_items q1 = xs"
    using queue_pop_ok(2) [OF Suc.prems(1)] by blast
  then show ?case using Suc.IH [OF q1(2)] Suc.prems xs by auto
qed

text \<open>C23: whatever elements with whatever priorities were pushed into a queue that is large enough, before the
  guards of the shutdown, consumers get the elements in the order of a stable sort by priority, the highest first and
  first in, first out among equals; the guards come after all of them, and then a consumer waits. No element is lost
  and none is invented.\<close>

theorem queue_serves_by_priority:
  assumes "m = 0 \<or> length rs \<le> m" "0 \<le> n"
  shows "\<exists>q q'. queue_pushes rs (new_queue m) = Some q \<and>
    queue_pops (length rs + nat n) (queue_shutdown n g q) =
      Some (Inr (map fst (sort_key (\<lambda>x. 4 - map_priority (snd x)) rs) @ replicate (nat n) g, q')) \<and>
    queue_pop q' = None"
proof -
  let ?ps = "map (\<lambda>(r, p). (map_priority p, r)) rs"
  obtain q where q: "queue_pushes rs (new_queue m) = Some q" "queue_ok q" "holds_pushed ?ps q"
    using queue_pushes_holds [OF new_queue_ok(1) new_queue_holds, of m rs] assms(1) by (auto simp: new_queue_def)
  let ?s = "queue_shutdown n g q"
  have s: "queue_ok ?s" "holds_pushed (?ps @ replicate (nat n) (0, g)) ?s"
    using shutdown_holds [OF q(2,3)] by (simp_all add: queue_shutdown_def)
  have bound: "map_priority p \<noteq> 0" for p using map_priority_bounds(2) [of p] by simp
  have "queue_items ?s = concat (map (\<lambda>i. map snd (filter (\<lambda>x. fst x = 4 - i) (?ps @ replicate (nat n) (0, g)))) [0 ..< 5])"
    using s(2) by (simp add: queue_items_def holds_pushed_def)
  also have "\<dots> = concat (map (\<lambda>i. map snd (filter (\<lambda>x. fst x = 4 - i) ?ps)) [0 ..< 5]) @ replicate (nat n) g"
    using bound by (simp add: upt_rec filter_map comp_def filter_replicate)
  also have "concat (map (\<lambda>i. map snd (filter (\<lambda>x. fst x = 4 - i) ?ps)) [0 ..< 5]) =
      map snd (sort_key (\<lambda>x. 4 - fst x) ?ps)"
    using holds_pushed_items [OF q(3)] q(3) by (auto simp: queue_items_def holds_pushed_def case_prod_beta)
  also have "\<dots> = map fst (sort_key (\<lambda>x. 4 - map_priority (snd x)) rs)"
    by (simp add: sort_key_map case_prod_beta comp_def)
  finally show ?thesis using queue_pops_items [OF s(1) refl] q(1) by auto
qed

theorem queue_serves_by_priority_witness:
  "\<exists>q q'. queue_pushes [(7::nat, LOW), (8, HIGH), (9, LOW)] (new_queue 3) = Some q \<and>
     queue_pops 5 (queue_shutdown 2 0 q) = Some (Inr ([8, 7, 9, 0, 0], q')) \<and> queue_pop q' = None"
  using queue_serves_by_priority [of 3 "[(7, LOW), (8, HIGH), (9, LOW)]" 2 "0::nat"]
  by (simp add: eval_nat_numeral)

section \<open>The contract for tasks of one priority\<close>

text \<open>Tasks leave in the order in which they came; guards leave when there are no tasks; only an empty queue lets a consumer
  wait, and a producer never waits.\<close>

locale task_queue =
  fixes q_ok :: "'q \<Rightarrow> bool" and tasks :: "'q \<Rightarrow> 'a list" and guards :: "'q \<Rightarrow> nat" and guard :: 'a
    and push :: "'a \<Rightarrow> 'q \<Rightarrow> 'q option" and pop :: "'q \<Rightarrow> ('a \<times> 'q) result option"
    and shutdown :: "int \<Rightarrow> 'q \<Rightarrow> 'q"
  assumes push_task: "q_ok q \<Longrightarrow> \<exists>q'. push x q = Some q' \<and> q_ok q' \<and> tasks q' = tasks q @ [x] \<and> guards q' = guards q"
    and pop_task: "q_ok q \<Longrightarrow> tasks q = x # xs \<Longrightarrow>
      \<exists>q'. pop q = Some (Inr (x, q')) \<and> q_ok q' \<and> tasks q' = xs \<and> guards q' = guards q"
    and pop_guard: "q_ok q \<Longrightarrow> tasks q = [] \<Longrightarrow> guards q = Suc n \<Longrightarrow>
      \<exists>q'. pop q = Some (Inr (guard, q')) \<and> q_ok q' \<and> tasks q' = [] \<and> guards q' = n"
    and pop_waits: "q_ok q \<Longrightarrow> tasks q = [] \<Longrightarrow> guards q = 0 \<Longrightarrow> pop q = None"
    and shutdown_guards: "q_ok q \<Longrightarrow>
      q_ok (shutdown k q) \<and> tasks (shutdown k q) = tasks q \<and> guards (shutdown k q) = guards q + nat k"
begin

lemma pop_cases:
  assumes "q_ok q" "pop q = Some r"
  obtains (Task) x xs q' where "r = Inr (x, q')" "tasks q = x # xs" "q_ok q'" "tasks q' = xs" "guards q' = guards q"
  | (Guard) n q' where "r = Inr (guard, q')" "tasks q = []" "guards q = Suc n" "q_ok q'" "tasks q' = []" "guards q' = n"
proof (cases "tasks q")
  case (Cons x xs)
  then show ?thesis using pop_task [OF assms(1) Cons] assms(2) Task by auto
next
  case Nil
  then obtain n where n: "guards q = Suc n" using pop_waits [OF assms(1)] assms(2) by (cases "guards q") auto
  then show ?thesis using pop_guard [OF assms(1) Nil n] assms(2) Nil Guard by auto
qed

lemma pop_never_fails: "q_ok q \<Longrightarrow> pop q \<noteq> Some (Inl e)"
  by (metis Inl_Inr_False pop_cases)

lemma pop_ready: "q_ok q \<Longrightarrow> pop q = None \<longleftrightarrow> tasks q = [] \<and> guards q = 0"
  by (metis list.exhaust not0_implies_Suc option.distinct(1) pop_guard pop_task pop_waits)

end

definition queue_tasks :: "'a sync_queue \<Rightarrow> 'a list" where
  "queue_tasks q = m_queues q ! 1"

definition queue_guards :: "'a sync_queue \<Rightarrow> nat" where
  "queue_guards q = length (m_queues q ! 4)"

definition tasks_ok :: "'a \<Rightarrow> 'a sync_queue \<Rightarrow> bool" where
  "tasks_ok g q \<longleftrightarrow> queue_ok q \<and> m_max_size q = 0 \<and>
     m_queues q = [[], queue_tasks q, [], [], replicate (queue_guards q) g]"

definition push_medium :: "'a \<Rightarrow> 'a sync_queue \<Rightarrow> 'a sync_queue option" where
  "push_medium x q = queue_push x MEDIUM q"

lemma tasks_okI:
  "queue_ok q \<Longrightarrow> m_max_size q = 0 \<Longrightarrow> m_queues q = [[], t, [], [], replicate n g] \<Longrightarrow>
     tasks_ok g q \<and> queue_tasks q = t \<and> queue_guards q = n"
  by (simp add: tasks_ok_def queue_tasks_def queue_guards_def)

lemma tasks_okD:
  "tasks_ok g q \<Longrightarrow> queue_ok q" "tasks_ok g q \<Longrightarrow> m_max_size q = 0"
  "tasks_ok g q \<Longrightarrow> m_queues q = [[], queue_tasks q, [], [], replicate (queue_guards q) g]"
  by (simp_all add: tasks_ok_def)

lemma queue_pop_first:
  assumes "queue_ok q" "pop_first (m_queues q) = Some (x, yss)"
  shows "\<exists>q'. queue_pop q = Some (Inr (x, q')) \<and> queue_ok q' \<and> m_max_size q' = m_max_size q \<and> m_queues q' = yss"
  using assms pop_first_concat [OF assms(2)]
  by (auto simp: queue_pop_def unsynchronized_empty_def unsynchronized_pop_def queue_ok_def queue_items_def)

lemma new_queue_tasks: "tasks_ok g (new_queue 0)" "queue_tasks (new_queue 0) = []" "queue_guards (new_queue 0) = 0"
  by (simp_all add: tasks_ok_def queue_tasks_def queue_guards_def new_queue_def queue_ok_def queue_items_def
      eval_nat_numeral)

lemma shutdown_loop_tasks:
  "tasks_ok g q \<Longrightarrow> tasks_ok g (shutdown_loop n g q) \<and> queue_tasks (shutdown_loop n g q) = queue_tasks q \<and>
     queue_guards (shutdown_loop n g q) = queue_guards q + n"
proof (induction n arbitrary: q)
  case (Suc n)
  let ?q = "unsynchronized_push g k_shutdown_priority q"
  have "m_queues ?q = [[], queue_tasks q, [], [], replicate (Suc (queue_guards q)) g]" "m_max_size ?q = 0"
    using tasks_okD(2,3) [OF Suc.prems] by (simp_all add: unsynchronized_push_def Let_def replicate_append_same)
  from tasks_okI [OF push_ok [OF tasks_okD(1) [OF Suc.prems]] this(2,1)]
  have "tasks_ok g ?q" "queue_tasks ?q = queue_tasks q" "queue_guards ?q = Suc (queue_guards q)" by simp_all
  then show ?case using Suc.IH [of ?q] by simp
qed simp

interpretation tasks: task_queue "tasks_ok g" queue_tasks queue_guards g push_medium queue_pop "\<lambda>n. queue_shutdown n g"
  for g :: 'a
proof
  fix q :: "'a sync_queue" and x
  assume ok: "tasks_ok g q"
  let ?q = "unsynchronized_push x (map_priority MEDIUM) q"
  have "m_queues ?q = [[], queue_tasks q @ [x], [], [], replicate (queue_guards q) g]" "m_max_size ?q = 0"
    using tasks_okD(2,3) [OF ok] by (simp_all add: unsynchronized_push_def Let_def)
  note tasks_okI [OF push_ok [OF tasks_okD(1) [OF ok]] this(2,1)]
  then show "\<exists>q'. push_medium x q = Some q' \<and> tasks_ok g q' \<and> queue_tasks q' = queue_tasks q @ [x] \<and>
      queue_guards q' = queue_guards q"
    using tasks_okD(2) [OF ok] by (auto simp: push_medium_def queue_push_def)
next
  fix q :: "'a sync_queue" and x xs
  assume ok: "tasks_ok g q" and xs: "queue_tasks q = x # xs"
  have "pop_first (m_queues q) = Some (x, [[], xs, [], [], replicate (queue_guards q) g])"
    using tasks_okD(3) [OF ok] xs by auto
  from queue_pop_first [OF tasks_okD(1) [OF ok] this]
  show "\<exists>q'. queue_pop q = Some (Inr (x, q')) \<and> tasks_ok g q' \<and> queue_tasks q' = xs \<and> queue_guards q' = queue_guards q"
    using tasks_okD(2) [OF ok] tasks_okI by metis
next
  fix q :: "'a sync_queue" and n
  assume ok: "tasks_ok g q" and t: "queue_tasks q = []" "queue_guards q = Suc n"
  have "pop_first (m_queues q) = Some (g, [[], [], [], [], replicate n g])"
    using tasks_okD(3) [OF ok] t by auto
  from queue_pop_first [OF tasks_okD(1) [OF ok] this]
  show "\<exists>q'. queue_pop q = Some (Inr (g, q')) \<and> tasks_ok g q' \<and> queue_tasks q' = [] \<and> queue_guards q' = n"
    using tasks_okD(2) [OF ok] tasks_okI by metis
next
  fix q :: "'a sync_queue"
  assume ok: "tasks_ok g q" and t: "queue_tasks q = []" "queue_guards q = 0"
  then have "m_queues q = [[], [], [], [], []]" using tasks_okD(3) [OF ok] by simp
  then have "queue_items q = []" by (simp add: queue_items_def)
  then show "queue_pop q = None" using queue_pop_ok(1) [OF tasks_okD(1) [OF ok]] by simp
next
  fix q :: "'a sync_queue" and n :: int
  assume "tasks_ok g q"
  then show "tasks_ok g (queue_shutdown n g q) \<and> queue_tasks (queue_shutdown n g q) = queue_tasks q \<and>
      queue_guards (queue_shutdown n g q) = queue_guards q + nat n"
    using shutdown_loop_tasks [of g q "nat n"] by (simp add: queue_shutdown_def)
qed

section \<open>Producers that wait\<close>

text \<open>The condition variable \<^verbatim>\<open>m_not_full\<close> in more detail: a producer that finds the queue full sleeps until it is notified, and looks again when it wakes
  up. \<^verbatim>\<open>pop\<close> notifies one producer, and only if the queue was full.\<close>

record 'a waiting_queue =
  wq_queue :: "'a sync_queue"
  wq_asleep :: "'a list"
  wq_woken :: "'a list"

definition wait_push :: "'a \<Rightarrow> 'a waiting_queue \<Rightarrow> 'a waiting_queue" where
  "wait_push r w =
     (case queue_push r MEDIUM (wq_queue w) of
        None \<Rightarrow> w\<lparr>wq_asleep := wq_asleep w @ [r]\<rparr>
      | Some q \<Rightarrow> w\<lparr>wq_queue := q\<rparr>)"

definition wake_push :: "'a waiting_queue \<Rightarrow> 'a waiting_queue" where
  "wake_push w =
     (case wq_woken w of
        [] \<Rightarrow> w
      | r # rs \<Rightarrow> wait_push r (w\<lparr>wq_woken := rs\<rparr>))"

definition notify_pop :: "'a waiting_queue \<Rightarrow> ('a \<times> 'a waiting_queue) result option" where
  "notify_pop w =
     (let q = wq_queue w; was_full = (m_max_size q > 0 \<and> q_size q = m_max_size q)
      in map_option (\<lambda>m. rbind m (\<lambda>(r, q').
           Inr (r, case wq_asleep w of
                     p # ps \<Rightarrow> if was_full then w\<lparr>wq_queue := q', wq_asleep := ps, wq_woken := wq_woken w @ [p]\<rparr>
                               else w\<lparr>wq_queue := q'\<rparr>
                   | [] \<Rightarrow> w\<lparr>wq_queue := q'\<rparr>))) (queue_pop q))"

text \<open>Two producers wait at a full queue of two elements; both elements are taken before a producer runs. The second producer is not notified,
  and is never notified afterwards: it sleeps although the queue is empty.\<close>

lemma waiting_producer_forgotten:
  assumes w: "w = wait_push 4 (wait_push 3 (wait_push 2 (wait_push (1::nat) \<lparr>wq_queue = new_queue 2, wq_asleep = [], wq_woken = []\<rparr>)))"
  shows "\<exists>w1 w2 w3. wq_asleep w = [3, 4] \<and> notify_pop w = Some (Inr (1, w1)) \<and> notify_pop w1 = Some (Inr (2, w2)) \<and>
    notify_pop (wake_push w2) = Some (Inr (3, w3)) \<and>
    unsynchronized_empty (wq_queue w3) \<and> wq_asleep w3 = [4] \<and> wq_woken w3 = []"
  unfolding w
  by (simp add: wait_push_def wake_push_def notify_pop_def queue_push_def new_queue_def unsynchronized_push_def queue_pop_def
      unsynchronized_empty_def unsynchronized_pop_def Let_def eval_nat_numeral)

end
