(* ===== verification/Threaded_File.thy ===== *)
theory Threaded_File
  imports Allocated_File Sync_Queue
begin

text \<open>
  Model of \<^verbatim>\<open>mysqlshdk/libs/storage/backend/in_memory/threaded_file.{h,cc}\<close>: a file that is fetched by several threads into blocks of the
  allocator, ahead of its reader. The main thread owns the list of blocks and pushes pointers to its nodes to a queue of tasks; each
  worker takes a pointer, reads that part of the file with a handle of its own and marks the block as ready.

  A pointer to a node of \<^verbatim>\<open>std::list\<close>, which stays valid until the node is removed, is the number of the node. The
  step relation \<open>worker_step\<close> has one rule for each access of a worker to state that is shared; a pointer to a node that is gone
  leads to the phase \<open>Crashed\<close>. The file itself is the parameter \<open>content\<close>: a read of it gives at least one byte and
  at most what was asked for, or nothing at its end, or fails; opening, positioning and closing a handle may fail with any
  exception. The calls of the main thread are relations between the state before and after, in which steps of the workers and of other
  users of the allocator (\<open>tf_steps\<close>) come between its accesses to shared state. Offsets do not reach \<open>2 ^ 64\<close>.
\<close>

section \<open>State\<close>

record tf_block =
  b_data :: data_block
  b_offset_in_file :: nat
  b_consumed :: nat
  b_ready :: bool

datatype worker_phase =
    Starting
  | Waiting
  | Seeking nat
  | Reading nat nat
  | Published nat
  | Closing
  | Raising cpp_error
  | Recording cpp_error
  | Finished
  | Crashed

record worker =
  w_phase :: worker_phase
  w_position :: nat

text \<open>The last two components: the memory that is shared with the rest of the program, and the extracted blocks that the
  caller still holds, with the bytes it got in them.\<close>

record threaded_file =
  tf_path :: string
  tf_threads :: nat
  tf_max_memory :: nat
  tf_is_open :: bool
  tf_compressed :: bool
  tf_file_size :: nat
  tf_offset :: nat
  tf_eof :: bool
  tf_read_eof :: bool
  tf_blocks :: "(nat \<times> tf_block) list"
  tf_next_node :: nat
  tf_block_size :: nat
  tf_workers :: "worker list"
  tf_tasks :: "nat option sync_queue option"
  tf_has_exception :: bool
  tf_worker_exception :: "cpp_error option"
  tf_exception_is_set :: bool
  tf_store :: store
  tf_held :: "(nat \<times> string) list"

record tf_config =
  cfg_path :: string
  cfg_threads :: nat
  cfg_max_memory :: nat
  cfg_allocator :: "store option"

section \<open>Construction\<close>

text \<open>The result of \<^verbatim>\<open>make_file\<close> is a parameter: the size of the file and whether it is a compressed file.\<close>

definition new_threaded_file :: "tf_config \<Rightarrow> (nat \<times> bool) result \<Rightarrow> threaded_file result" where
  "new_threaded_file cfg made =
     (case cfg_allocator cfg of
        None \<Rightarrow> Inl (Invalid_argument ''Threaded_file: allocator is missing'')
      | Some st \<Rightarrow>
          if cfg_max_memory cfg < m_block_size (pool st)
          then Inl (Invalid_argument ''Threaded_file: maximum memory is smaller than the block size'')
          else if cfg_threads cfg = 0
          then Inl (Invalid_argument ''Threaded_file: need at least one thread'')
          else rbind made (\<lambda>(file_size, compressed).
            Inr \<lparr>tf_path = cfg_path cfg, tf_threads = cfg_threads cfg, tf_max_memory = cfg_max_memory cfg,
                 tf_is_open = False, tf_compressed = compressed, tf_file_size = file_size, tf_offset = 0,
                 tf_eof = False, tf_read_eof = False, tf_blocks = [], tf_next_node = 0,
                 tf_block_size = m_block_size (pool st), tf_workers = [], tf_tasks = None,
                 tf_has_exception = False, tf_worker_exception = None, tf_exception_is_set = False,
                 tf_store = st, tf_held = []\<rparr>))"

text \<open>A compressed file is read through a second threaded file by one thread; \<open>raw\<close> and \<open>made\<close> are the files of the
  inner and of the outer object.\<close>

definition make_threaded_file :: "bool \<Rightarrow> tf_config \<Rightarrow> (nat \<times> bool) result \<Rightarrow> (nat \<times> bool) result \<Rightarrow>
    (threaded_file option \<times> threaded_file) result" where
  "make_threaded_file compression cfg raw made =
     (if compression
      then rbind (new_threaded_file cfg raw) (\<lambda>inner.
           rbind (new_threaded_file (cfg\<lparr>cfg_threads := 1\<rparr>) made) (\<lambda>outer. Inr (Some inner, outer)))
      else rbind (new_threaded_file cfg made) (\<lambda>file. Inr (None, file)))"

section \<open>Workers\<close>

definition put_block :: "nat \<Rightarrow> tf_block \<Rightarrow> (nat \<times> tf_block) list \<Rightarrow> (nat \<times> tf_block) list" where
  "put_block p b = map (\<lambda>(q, c). (q, if q = p then b else c))"

definition set_worker :: "nat \<Rightarrow> worker_phase \<Rightarrow> nat \<Rightarrow> threaded_file \<Rightarrow> threaded_file" where
  "set_worker i ph pos s = s\<lparr>tf_workers := (tf_workers s)[i := \<lparr>w_phase = ph, w_position = pos\<rparr>]\<rparr>"

definition phase_is :: "threaded_file \<Rightarrow> nat \<Rightarrow> worker_phase \<Rightarrow> nat \<Rightarrow> bool" where
  "phase_is s i ph pos \<longleftrightarrow> i < length (tf_workers s) \<and> tf_workers s ! i = \<lparr>w_phase = ph, w_position = pos\<rparr>"

definition read_failure :: "threaded_file \<Rightarrow> int \<Rightarrow> cpp_error" where
  "read_failure s err = Runtime_error (''Failed to read '' @ [CHR 39] @ tf_path s @ [CHR 39] @ '', error: '' @ show_int err)"

inductive worker_step :: "string \<Rightarrow> threaded_file \<Rightarrow> threaded_file \<Rightarrow> bool" for content where
  ws_start: "phase_is s i Starting pos \<Longrightarrow> worker_step content s (set_worker i Waiting 0 s)"
| ws_pop_task: "phase_is s i Waiting pos \<Longrightarrow> tf_tasks s = Some q \<Longrightarrow> queue_pop q = Some (Inr (Some p, q')) \<Longrightarrow>
    worker_step content s
      (set_worker i (if tf_compressed s then Reading p 0 else Seeking p) pos (s\<lparr>tf_tasks := Some q'\<rparr>))"
| ws_pop_guard: "phase_is s i Waiting pos \<Longrightarrow> tf_tasks s = Some q \<Longrightarrow> queue_pop q = Some (Inr (None, q')) \<Longrightarrow>
    worker_step content s (set_worker i Closing pos (s\<lparr>tf_tasks := Some q'\<rparr>))"
| ws_seek: "phase_is s i (Seeking p) pos \<Longrightarrow> map_of (tf_blocks s) p = Some b \<Longrightarrow>
    worker_step content s (set_worker i (Reading p 0) (b_offset_in_file b) s)"
| ws_read: "phase_is s i (Reading p bytes) pos \<Longrightarrow> map_of (tf_blocks s) p = Some b \<Longrightarrow> bytes \<noteq> tf_block_size s \<Longrightarrow>
    0 < n \<Longrightarrow> n \<le> tf_block_size s - bytes \<Longrightarrow> pos + n \<le> length content \<Longrightarrow>
    worker_step content s (set_worker i (Reading p (bytes + n)) (pos + n)
      (s\<lparr>tf_store := (tf_store s)\<lparr>mem := mem_copy (db_memory (b_data b) + bytes) (substr content pos n) (mem (tf_store s))\<rparr>\<rparr>))"
| ws_publish: "phase_is s i (Reading p bytes) pos \<Longrightarrow> map_of (tf_blocks s) p = Some b \<Longrightarrow>
    bytes = tf_block_size s \<or> length content \<le> pos \<Longrightarrow>
    worker_step content s (set_worker i (Published bytes) pos
      (s\<lparr>tf_blocks := put_block p (b\<lparr>b_data := (b_data b)\<lparr>db_size := bytes\<rparr>, b_ready := True\<rparr>) (tf_blocks s)\<rparr>))"
| ws_published: "phase_is s i (Published bytes) pos \<Longrightarrow>
    worker_step content s (set_worker i (if 0 = bytes then Closing else Waiting) pos
      (if 0 = bytes then s\<lparr>tf_eof := True\<rparr> else s))"
| ws_close: "phase_is s i Closing pos \<Longrightarrow> worker_step content s (set_worker i Finished pos s)"
| ws_fails: "phase_is s i ph pos \<Longrightarrow> ph = Starting \<or> ph = Seeking p \<or> ph = Reading p bytes \<or> ph = Closing \<Longrightarrow>
    worker_step content s (set_worker i (Raising e) pos s)"
| ws_read_fails: "phase_is s i (Reading p bytes) pos \<Longrightarrow> bytes \<noteq> tf_block_size s \<Longrightarrow>
    worker_step content s (set_worker i (Raising (read_failure s err)) pos s)"
| ws_pop_fails: "phase_is s i Waiting pos \<Longrightarrow> tf_tasks s = Some q \<Longrightarrow> queue_pop q = Some (Inl e) \<Longrightarrow>
    worker_step content s (set_worker i (Raising e) pos s)"
| ws_raise: "phase_is s i (Raising e) pos \<Longrightarrow>
    worker_step content s
      (if tf_exception_is_set s then set_worker i Finished pos s
       else set_worker i (Recording e) pos (s\<lparr>tf_exception_is_set := True\<rparr>))"
| ws_record: "phase_is s i (Recording e) pos \<Longrightarrow>
    worker_step content s
      (set_worker i Finished pos (s\<lparr>tf_worker_exception := Some e, tf_has_exception := True\<rparr>))"
| ws_dangling: "phase_is s i ph pos \<Longrightarrow> ph = Seeking p \<or> ph = Reading p bytes \<Longrightarrow> map_of (tf_blocks s) p = None \<Longrightarrow>
    worker_step content s (set_worker i Crashed pos s)"
| ws_no_queue: "phase_is s i Waiting pos \<Longrightarrow> tf_tasks s = None \<Longrightarrow>
    worker_step content s (set_worker i Crashed pos s)"

text \<open>What other users of the allocator do leaves the blocks of this file and the blocks its caller holds alone.\<close>

definition owned_blocks :: "threaded_file \<Rightarrow> nat list" where
  "owned_blocks s = map (\<lambda>(p, b). db_memory (b_data b)) (tf_blocks s) @ map fst (tf_held s)"

definition other_users :: "heap \<Rightarrow> threaded_file \<Rightarrow> store \<Rightarrow> bool" where
  "other_users heap s st \<longleftrightarrow>
     pool_state heap (pool st) \<and> m_block_size (pool st) = m_block_size (pool (tf_store s)) \<and>
     (\<forall>a \<in> set (owned_blocks s). a \<in> used_blocks (pool st) \<and>
        (\<forall>i < tf_block_size s. mem st (a + i) = mem (tf_store s) (a + i)))"

inductive env_step :: "heap \<Rightarrow> string \<Rightarrow> threaded_file \<Rightarrow> threaded_file \<Rightarrow> bool" for heap content where
  env_worker: "worker_step content s s' \<Longrightarrow> env_step heap content s s'"
| env_others: "other_users heap s st \<Longrightarrow> env_step heap content s (s\<lparr>tf_store := st\<rparr>)"

abbreviation tf_steps :: "heap \<Rightarrow> string \<Rightarrow> threaded_file \<Rightarrow> threaded_file \<Rightarrow> bool" where
  "tf_steps heap content \<equiv> (env_step heap content)\<^sup>*\<^sup>*"

section \<open>The main thread\<close>

text \<open>\<open>eof\<close> is the value of \<^verbatim>\<open>m_eof\<close> at the start of the call; from the request for memory on the call is one step, since nothing but the push
  to the queue at its end is seen by the workers.\<close>

definition schedule_block :: "heap \<Rightarrow> bool \<Rightarrow> bool \<Rightarrow> threaded_file \<Rightarrow> bool result \<times> threaded_file" where
  "schedule_block heap force eof s =
     (if eof then (Inr False, s)
      else if \<not> (tf_offset s < tf_file_size s) \<and> \<not> force then (Inr False, s)
      else case allocate_block heap (pool (tf_store s)) of
             (Inl e, a) \<Rightarrow> (Inl e, s\<lparr>tf_store := (tf_store s)\<lparr>pool := a\<rparr>\<rparr>)
           | (Inr m, a) \<Rightarrow>
               let b = \<lparr>b_data = \<lparr>db_memory = m, db_size = 0\<rparr>, b_offset_in_file = tf_offset s, b_consumed = 0,
                        b_ready = False\<rparr>;
                   p = tf_next_node s;
                   s1 = s\<lparr>tf_store := (tf_store s)\<lparr>pool := a\<rparr>, tf_offset := tf_offset s + tf_block_size s,
                          tf_blocks := tf_blocks s @ [(p, b)], tf_next_node := p + 1\<rparr>
               in case tf_tasks s of
                    None \<Rightarrow> (Inl (Undefined ''Threaded_file::schedule_block: no queue''), s1)
                  | Some q \<Rightarrow>
                      (case push_medium (Some p) q of
                         None \<Rightarrow> (Inl (Undefined ''Threaded_file::schedule_block: the queue is full''), s1)
                       | Some q' \<Rightarrow> (Inr True, s1\<lparr>tf_tasks := Some q'\<rparr>)))"

definition handle_exception :: "threaded_file \<Rightarrow> unit result" where
  "handle_exception s =
     (if tf_has_exception s
      then case tf_worker_exception s of
             None \<Rightarrow> Inl (Undefined ''Threaded_file::handle_exception: no exception'')
           | Some e \<Rightarrow> Inl e
      else Inr ())"

text \<open>The beginning of \<^verbatim>\<open>front\<close>: whether there is a block to wait for.\<close>

definition front_begin :: "threaded_file \<Rightarrow> bool result" where
  "front_begin s = rbind (handle_exception s) (\<lambda>_. Inr (\<not> (tf_blocks s = [] \<or> tf_read_eof s)))"

definition front_wakes :: "threaded_file \<Rightarrow> bool" where
  "front_wakes s \<longleftrightarrow> b_ready (snd (hd (tf_blocks s))) \<or> tf_has_exception s"

definition front_end :: "threaded_file \<Rightarrow> tf_block result \<times> threaded_file" where
  "front_end s =
     (case handle_exception s of
        Inl e \<Rightarrow> (Inl e, s)
      | Inr _ \<Rightarrow>
          let block = snd (hd (tf_blocks s))
          in (Inr block, if 0 = db_size (b_data block) then s\<lparr>tf_read_eof := True\<rparr> else s))"

text \<open>A call of \<^verbatim>\<open>schedule_block\<close>, and of \<^verbatim>\<open>front\<close>: it returns the first block, the null pointer or an exception.\<close>

inductive schedule_call :: "heap \<Rightarrow> string \<Rightarrow> bool \<Rightarrow> threaded_file \<Rightarrow> bool result \<Rightarrow> threaded_file \<Rightarrow> bool"
  for heap content force where
  schedule_callI: "tf_steps heap content s s1 \<Longrightarrow> schedule_block heap force (tf_eof s) s1 = (r, s2) \<Longrightarrow>
    schedule_call heap content force s r s2"

inductive schedule_if :: "heap \<Rightarrow> string \<Rightarrow> bool \<Rightarrow> bool \<Rightarrow> threaded_file \<Rightarrow> unit result \<Rightarrow> threaded_file \<Rightarrow> bool"
  for heap content where
  schedule_if_not: "schedule_if heap content False force s (Inr ()) s"
| schedule_if_so: "schedule_call heap content force s r s' \<Longrightarrow>
    schedule_if heap content True force s (rbind r (\<lambda>_. Inr ())) s'"

inductive front_call :: "heap \<Rightarrow> string \<Rightarrow> threaded_file \<Rightarrow> tf_block option result \<Rightarrow> threaded_file \<Rightarrow> bool"
  for heap content where
  front_throws: "front_begin s = Inl e \<Longrightarrow> front_call heap content s (Inl e) s"
| front_null: "front_begin s = Inr False \<Longrightarrow> front_call heap content s (Inr None) s"
| front_block: "front_begin s = Inr True \<Longrightarrow> tf_steps heap content s s1 \<Longrightarrow> front_wakes s1 \<Longrightarrow>
    tf_steps heap content s1 s2 \<Longrightarrow> front_end s2 = (r, s3) \<Longrightarrow>
    front_call heap content s (rbind r (\<lambda>b. Inr (Some b))) s3"

definition block_bytes :: "store \<Rightarrow> data_block \<Rightarrow> string" where
  "block_bytes st d = map (mem st) [db_memory d ..< db_memory d + db_size d]"

definition pop_node :: "threaded_file \<Rightarrow> threaded_file" where
  "pop_node s = s\<lparr>tf_blocks := tl (tf_blocks s)\<rparr>"

text \<open>The null block of the result has the address 0. A block that is handed over leaves the list for the caller.\<close>

definition hand_over :: "data_block \<Rightarrow> threaded_file \<Rightarrow> threaded_file" where
  "hand_over d s = (pop_node s)\<lparr>tf_held := (db_memory d, block_bytes (tf_store s) d) # tf_held s\<rparr>"

inductive extract_call :: "heap \<Rightarrow> string \<Rightarrow> threaded_file \<Rightarrow> data_block result \<Rightarrow> threaded_file \<Rightarrow> bool"
  for heap content where
  extract_no_block: "schedule_if heap content (tf_compressed s) True s (Inl e) s1 \<Longrightarrow>
    extract_call heap content s (Inl e) s1"
| extract_throws: "schedule_if heap content (tf_compressed s) True s (Inr ()) s1 \<Longrightarrow>
    front_call heap content s1 (Inl e) s2 \<Longrightarrow> extract_call heap content s (Inl e) s2"
| extract_null: "schedule_if heap content (tf_compressed s) True s (Inr ()) s1 \<Longrightarrow>
    front_call heap content s1 (Inr None) s2 \<Longrightarrow>
    extract_call heap content s (Inr \<lparr>db_memory = 0, db_size = 0\<rparr>) s2"
| extract_block: "schedule_if heap content (tf_compressed s) True s (Inr ()) s1 \<Longrightarrow>
    front_call heap content s1 (Inr (Some b)) s2 \<Longrightarrow>
    schedule_if heap content (\<not> tf_compressed s) False (hand_over (b_data b) s2) r s3 \<Longrightarrow>
    extract_call heap content s (rbind r (\<lambda>_. Inr (b_data b))) s3"

text \<open>\<^verbatim>\<open>peek\<close> returns the first block and leaves it in its place; \<^verbatim>\<open>pop_front\<close> removes it from the list and leaves its memory to the caller.\<close>

inductive peek_call :: "heap \<Rightarrow> string \<Rightarrow> threaded_file \<Rightarrow> data_block result \<Rightarrow> threaded_file \<Rightarrow> bool"
  for heap content where
  peek_front: "front_call heap content s r s1 \<Longrightarrow>
    peek_call heap content s
      (rbind r (\<lambda>b. Inr (case b of None \<Rightarrow> \<lparr>db_memory = 0, db_size = 0\<rparr> | Some b \<Rightarrow> b_data b))) s1"

inductive pop_front_call :: "heap \<Rightarrow> string \<Rightarrow> threaded_file \<Rightarrow> unit result \<Rightarrow> threaded_file \<Rightarrow> bool"
  for heap content where
  pop_front_no_block: "schedule_if heap content (tf_compressed s) True s (Inl e) s1 \<Longrightarrow>
    pop_front_call heap content s (Inl e) s1"
| pop_front_throws: "schedule_if heap content (tf_compressed s) True s (Inr ()) s1 \<Longrightarrow>
    front_call heap content s1 (Inl e) s2 \<Longrightarrow> pop_front_call heap content s (Inl e) s2"
| pop_front_null: "schedule_if heap content (tf_compressed s) True s (Inr ()) s1 \<Longrightarrow>
    front_call heap content s1 (Inr None) s2 \<Longrightarrow> pop_front_call heap content s (Inr ()) s2"
| pop_front_block: "schedule_if heap content (tf_compressed s) True s (Inr ()) s1 \<Longrightarrow>
    front_call heap content s1 (Inr (Some b)) s2 \<Longrightarrow>
    schedule_if heap content (\<not> tf_compressed s) False (hand_over (b_data b) s2) r s3 \<Longrightarrow>
    pop_front_call heap content s r s3"

text \<open>The part of a turn of \<^verbatim>\<open>read\<close> after the block has been found: \<open>None\<close> ends the loop. The flag tells whether the block was used up.\<close>

definition use_up :: "tf_block \<Rightarrow> threaded_file \<Rightarrow> threaded_file result" where
  "use_up block s =
     rbind (free_block (db_memory (b_data block)) (pool (tf_store s)))
       (\<lambda>a. Inr (pop_node (s\<lparr>tf_store := (tf_store s)\<lparr>pool := a\<rparr>\<rparr>)))"

definition read_turn :: "nat \<Rightarrow> tf_block \<Rightarrow> threaded_file \<Rightarrow> (string \<times> bool \<times> threaded_file) option result" where
  "read_turn len block s =
     (let bytes = min len (size_sub (db_size (b_data block)) (b_consumed block))
      in if 0 = bytes then Inr None
         else let from = db_memory (b_data block) + b_consumed block;
                  out = map (mem (tf_store s)) [from ..< from + bytes];
                  block' = block\<lparr>b_consumed := b_consumed block + bytes\<rparr>;
                  s1 = s\<lparr>tf_blocks := (fst (hd (tf_blocks s)), block') # tl (tf_blocks s)\<rparr>
              in if b_consumed block' = db_size (b_data block')
                 then rbind (use_up block' s1) (\<lambda>s2. Inr (Some (out, True, s2)))
                 else Inr (Some (out, False, s1)))"

inductive read_call :: "heap \<Rightarrow> string \<Rightarrow> nat \<Rightarrow> threaded_file \<Rightarrow> string result \<Rightarrow> threaded_file \<Rightarrow> bool"
  for heap content where
  read_end: "read_call heap content 0 s (Inr []) s"
| read_no_block: "0 < len \<Longrightarrow> schedule_if heap content (tf_compressed s) True s (Inl e) s1 \<Longrightarrow>
    read_call heap content len s (Inl e) s1"
| read_throws: "0 < len \<Longrightarrow> schedule_if heap content (tf_compressed s) True s (Inr ()) s1 \<Longrightarrow>
    front_call heap content s1 (Inl e) s2 \<Longrightarrow> read_call heap content len s (Inl e) s2"
| read_null: "0 < len \<Longrightarrow> schedule_if heap content (tf_compressed s) True s (Inr ()) s1 \<Longrightarrow>
    front_call heap content s1 (Inr None) s2 \<Longrightarrow> read_call heap content len s (Inr []) s2"
| read_stops: "0 < len \<Longrightarrow> schedule_if heap content (tf_compressed s) True s (Inr ()) s1 \<Longrightarrow>
    front_call heap content s1 (Inr (Some b)) s2 \<Longrightarrow> read_turn len b s2 = Inr None \<Longrightarrow>
    read_call heap content len s (Inr []) s2"
| read_turn_fails: "0 < len \<Longrightarrow> schedule_if heap content (tf_compressed s) True s (Inr ()) s1 \<Longrightarrow>
    front_call heap content s1 (Inr (Some b)) s2 \<Longrightarrow> read_turn len b s2 = Inl e \<Longrightarrow>
    read_call heap content len s (Inl e) s2"
| read_schedule_fails: "0 < len \<Longrightarrow> schedule_if heap content (tf_compressed s) True s (Inr ()) s1 \<Longrightarrow>
    front_call heap content s1 (Inr (Some b)) s2 \<Longrightarrow> read_turn len b s2 = Inr (Some (out, used, s3)) \<Longrightarrow>
    schedule_if heap content (used \<and> \<not> tf_compressed s) False s3 (Inl e) s4 \<Longrightarrow>
    read_call heap content len s (Inl e) s4"
| read_more: "0 < len \<Longrightarrow> schedule_if heap content (tf_compressed s) True s (Inr ()) s1 \<Longrightarrow>
    front_call heap content s1 (Inr (Some b)) s2 \<Longrightarrow> read_turn len b s2 = Inr (Some (out, used, s3)) \<Longrightarrow>
    schedule_if heap content (used \<and> \<not> tf_compressed s) False s3 (Inr ()) s4 \<Longrightarrow>
    read_call heap content (len - length out) s4 r s5 \<Longrightarrow>
    read_call heap content len s (rbind r (\<lambda>rest. Inr (out @ rest))) s5"

section \<open>Opening and closing\<close>

text \<open>The loop of \<^verbatim>\<open>open\<close> that schedules the first blocks.\<close>

inductive open_loop :: "heap \<Rightarrow> string \<Rightarrow> nat \<Rightarrow> threaded_file \<Rightarrow> unit result \<Rightarrow> threaded_file \<Rightarrow> bool"
  for heap content where
  open_enough: "\<not> allocated < tf_max_memory s \<Longrightarrow> open_loop heap content allocated s (Inr ()) s"
| open_next: "allocated < tf_max_memory s \<Longrightarrow> schedule_call heap content False s (Inr True) s1 \<Longrightarrow>
    open_loop heap content (allocated + tf_block_size s1) s1 r s2 \<Longrightarrow> open_loop heap content allocated s r s2"
| open_all: "allocated < tf_max_memory s \<Longrightarrow> schedule_call heap content False s (Inr False) s1 \<Longrightarrow>
    open_loop heap content allocated s (Inr ()) s1"
| open_throws: "allocated < tf_max_memory s \<Longrightarrow> schedule_call heap content False s (Inl e) s1 \<Longrightarrow>
    open_loop heap content allocated s (Inl e) s1"

text \<open>That a thread cannot be started is not modelled.\<close>

definition open_begin :: "threaded_file \<Rightarrow> threaded_file" where
  "open_begin s = s\<lparr>tf_is_open := True, tf_tasks := Some (new_queue 0),
     tf_workers := replicate (tf_threads s) \<lparr>w_phase = Starting, w_position = 0\<rparr>\<rparr>"

text \<open>\<open>file_error\<close> is what opening the file throws.\<close>

inductive open_call :: "heap \<Rightarrow> string \<Rightarrow> bool \<Rightarrow> threaded_file \<Rightarrow> unit result \<Rightarrow> threaded_file \<Rightarrow> bool"
  for heap content where
  open_not_read: "open_call heap content False s
    (Inl (Invalid_argument ''Threaded_file: only READ mode is supported'')) s"
| open_file_throws: "open_call heap content True s (Inl e) s"
| open_file: "open_loop heap content 0 (open_begin s) r s1 \<Longrightarrow> open_call heap content True s r s1"

text \<open>Closing the handle of the main thread does not fail: it was opened for reading.\<close>

definition close_begin :: "threaded_file \<Rightarrow> threaded_file" where
  "close_begin s = s\<lparr>tf_is_open := False, tf_tasks := map_option (queue_shutdown (int (tf_threads s)) None) (tf_tasks s)\<rparr>"

definition all_joined :: "threaded_file \<Rightarrow> bool" where
  "all_joined s \<longleftrightarrow> (\<forall>w \<in> set (tf_workers s). w_phase w = Finished)"

definition close_end :: "threaded_file \<Rightarrow> threaded_file result" where
  "close_end s =
     rbind (rfold (\<lambda>(p, b) a. free_block (db_memory (b_data b)) a) (tf_blocks s) (pool (tf_store s)))
       (\<lambda>a. Inr (s\<lparr>tf_workers := [], tf_tasks := None, tf_has_exception := False, tf_worker_exception := None,
                  tf_exception_is_set := False, tf_store := (tf_store s)\<lparr>pool := a\<rparr>, tf_blocks := []\<rparr>))"

inductive close_call :: "heap \<Rightarrow> string \<Rightarrow> threaded_file \<Rightarrow> threaded_file result \<Rightarrow> bool" for heap content where
  close_join: "tf_steps heap content (close_begin s) s1 \<Longrightarrow> all_joined s1 \<Longrightarrow> close_call heap content s (close_end s1)"

end
