(* ===== verification/Threaded_Reads.thy ===== *)
theory Threaded_Reads
  imports Threaded_File
begin

text \<open>
  The invariant \<open>tf_inv\<close> of the threaded file and the proof that every step of a worker, and everything that other users of the allocator do, keeps it.
  It has five parts. The blocks of the list and the blocks that the reader holds are different blocks in use (\<open>memory_ok\<close>); the nodes are
  numbered without gaps and the offset of a node is its number times the block size (\<open>nodes_ok\<close>); a ready block holds the bytes of the file at its
  offset (\<open>data_ok\<close>); the queue holds the last nodes of the list in order (\<open>tasks_at\<close>); and every node that is neither ready nor queued
  belongs to exactly one worker, unless an exception is on its way (\<open>workers_ok\<close>, \<open>flags_ok\<close>). At the end: what the steps of
  the workers leave to the main thread unchanged.
\<close>

section \<open>Invariant\<close>

definition first_node :: "threaded_file \<Rightarrow> nat" where
  "first_node s = tf_next_node s - length (tf_blocks s)"

definition end_seen :: "threaded_file \<Rightarrow> bool" where
  "end_seen s \<longleftrightarrow> tf_read_eof s \<or> (\<exists>(p, b) \<in> set (tf_blocks s). b_ready b \<and> db_size (b_data b) = 0)"

definition memory_ok :: "heap \<Rightarrow> threaded_file \<Rightarrow> bool" where
  "memory_ok heap s \<longleftrightarrow>
     pool_state heap (pool (tf_store s)) \<and> m_block_size (pool (tf_store s)) = tf_block_size s \<and>
     2 * tf_block_size s \<le> 2 ^ 64 \<and> distinct (owned_blocks s) \<and> set (owned_blocks s) \<subseteq> used_blocks (pool (tf_store s)) \<and>
     (\<forall>(a, bytes) \<in> set (tf_held s). length bytes \<le> tf_block_size s \<and> map (mem (tf_store s)) [a ..< a + length bytes] = bytes)"

definition nodes_ok :: "string \<Rightarrow> threaded_file \<Rightarrow> bool" where
  "nodes_ok content s \<longleftrightarrow>
     length (tf_blocks s) \<le> tf_next_node s \<and> map fst (tf_blocks s) = [first_node s ..< tf_next_node s] \<and>
     tf_offset s = tf_next_node s * tf_block_size s \<and>
     (\<forall>(p, b) \<in> set (tf_blocks s). b_offset_in_file b = p * tf_block_size s) \<and>
     (\<not> tf_compressed s \<longrightarrow> tf_file_size s = length content \<and>
        (\<forall>(p, b) \<in> set (tf_blocks s). p * tf_block_size s < length content)) \<and>
     (tf_read_eof s \<longrightarrow> length content \<le> first_node s * tf_block_size s)"

definition data_ok :: "string \<Rightarrow> threaded_file \<Rightarrow> bool" where
  "data_ok content s \<longleftrightarrow>
     (\<forall>(p, b) \<in> set (tf_blocks s).
        if b_ready b
        then block_bytes (tf_store s) (b_data b) = substr content (p * tf_block_size s) (tf_block_size s) \<and>
             (b_consumed b = 0 \<or> b_consumed b < db_size (b_data b))
        else db_size (b_data b) = 0 \<and> b_consumed b = 0)"

definition tasks_at :: "threaded_file \<Rightarrow> nat option sync_queue \<Rightarrow> nat \<Rightarrow> bool" where
  "tasks_at s q t \<longleftrightarrow>
     tf_tasks s = Some q \<and> tasks_ok None q \<and> queue_tasks q = map Some [t ..< tf_next_node s] \<and>
     first_node s \<le> t \<and> t \<le> tf_next_node s \<and> (\<forall>(p, b) \<in> set (tf_blocks s). t \<le> p \<longrightarrow> \<not> b_ready b)"

definition unread :: "threaded_file \<Rightarrow> nat \<Rightarrow> bool" where
  "unread s p \<longleftrightarrow> (\<exists>b. map_of (tf_blocks s) p = Some b \<and> \<not> b_ready b)"

fun busy_with :: "worker_phase \<Rightarrow> nat option" where
  "busy_with (Seeking p) = Some p"
| "busy_with (Reading p _) = Some p"
| "busy_with _ = None"

abbreviation phase_of :: "threaded_file \<Rightarrow> nat \<Rightarrow> worker_phase" where
  "phase_of s i \<equiv> w_phase (tf_workers s ! i)"

definition read_part :: "string \<Rightarrow> threaded_file \<Rightarrow> nat \<Rightarrow> nat \<Rightarrow> bool" where
  "read_part content s p bytes \<longleftrightarrow>
     (\<forall>b. map_of (tf_blocks s) p = Some b \<longrightarrow>
        map (mem (tf_store s)) [db_memory (b_data b) ..< db_memory (b_data b) + bytes] =
        substr content (p * tf_block_size s) bytes)"

text \<open>A file that is compressed is read by one worker, whose position is the end of the last block it has read.\<close>

fun worker_ok :: "string \<Rightarrow> nat \<Rightarrow> threaded_file \<Rightarrow> worker_phase \<Rightarrow> nat \<Rightarrow> bool" where
  "worker_ok content t s Starting pos \<longleftrightarrow> (tf_compressed s \<longrightarrow> t = 0)"
| "worker_ok content t s Waiting pos \<longleftrightarrow> (tf_compressed s \<longrightarrow> pos = min (t * tf_block_size s) (length content))"
| "worker_ok content t s (Seeking p) pos \<longleftrightarrow> \<not> tf_compressed s \<and> p < t \<and> unread s p"
| "worker_ok content t s (Reading p bytes) pos \<longleftrightarrow>
     (tf_compressed s \<longrightarrow> p + 1 = t) \<and> p < t \<and> unread s p \<and> bytes \<le> tf_block_size s \<and>
     pos = min (p * tf_block_size s) (length content) + bytes \<and> pos \<le> length content \<and> read_part content s p bytes"
| "worker_ok content t s (Published bytes) pos \<longleftrightarrow>
     (if bytes = 0 then end_seen s else tf_compressed s \<longrightarrow> pos = min (t * tf_block_size s) (length content))"
| "worker_ok content t s (Recording e) pos \<longleftrightarrow> tf_exception_is_set s"
| "worker_ok content t s Crashed pos \<longleftrightarrow> False"
| "worker_ok content t s _ pos \<longleftrightarrow> True"

definition troubled :: "threaded_file \<Rightarrow> bool" where
  "troubled s \<longleftrightarrow> tf_exception_is_set s \<or> (\<exists>i < length (tf_workers s). \<exists>e. phase_of s i = Raising e)"

definition workers_ok :: "string \<Rightarrow> nat \<Rightarrow> threaded_file \<Rightarrow> bool" where
  "workers_ok content t s \<longleftrightarrow>
     length (tf_workers s) = tf_threads s \<and> 0 < tf_threads s \<and> (tf_compressed s \<longrightarrow> tf_threads s = 1) \<and>
     (\<forall>i < length (tf_workers s). worker_ok content t s (phase_of s i) (w_position (tf_workers s ! i))) \<and>
     (\<forall>i < length (tf_workers s). \<forall>j < length (tf_workers s). \<forall>p.
        busy_with (phase_of s i) = Some p \<and> busy_with (phase_of s j) = Some p \<longrightarrow> i = j) \<and>
     (\<forall>p < t. unread s p \<longrightarrow> troubled s \<or> (\<exists>i < length (tf_workers s). busy_with (phase_of s i) = Some p))"

definition flags_ok :: "threaded_file \<Rightarrow> bool" where
  "flags_ok s \<longleftrightarrow>
     (tf_exception_is_set s \<longrightarrow> tf_has_exception s \<or> (\<exists>i < length (tf_workers s). \<exists>e. phase_of s i = Recording e)) \<and>
     (tf_has_exception s \<longrightarrow> tf_worker_exception s \<noteq> None) \<and> (tf_eof s \<longrightarrow> end_seen s)"

definition tf_inv :: "heap \<Rightarrow> string \<Rightarrow> threaded_file \<Rightarrow> bool" where
  "tf_inv heap content s \<longleftrightarrow> memory_ok heap s \<and> nodes_ok content s \<and> data_ok content s \<and> flags_ok s \<and>
     (\<exists>q t. tasks_at s q t \<and> workers_ok content t s)"

section \<open>Steps that change one worker\<close>

lemma set_worker_sel [simp]:
  "tf_blocks (set_worker i ph pos s) = tf_blocks s" "tf_next_node (set_worker i ph pos s) = tf_next_node s"
  "tf_block_size (set_worker i ph pos s) = tf_block_size s" "tf_offset (set_worker i ph pos s) = tf_offset s"
  "tf_compressed (set_worker i ph pos s) = tf_compressed s" "tf_file_size (set_worker i ph pos s) = tf_file_size s"
  "tf_read_eof (set_worker i ph pos s) = tf_read_eof s" "tf_eof (set_worker i ph pos s) = tf_eof s"
  "tf_store (set_worker i ph pos s) = tf_store s" "tf_held (set_worker i ph pos s) = tf_held s"
  "tf_tasks (set_worker i ph pos s) = tf_tasks s" "tf_threads (set_worker i ph pos s) = tf_threads s"
  "tf_exception_is_set (set_worker i ph pos s) = tf_exception_is_set s"
  "tf_has_exception (set_worker i ph pos s) = tf_has_exception s" "tf_max_memory (set_worker i ph pos s) = tf_max_memory s"
  "tf_worker_exception (set_worker i ph pos s) = tf_worker_exception s"
  "length (tf_workers (set_worker i ph pos s)) = length (tf_workers s)"
  by (simp_all add: set_worker_def)

lemma set_worker_parts [simp]:
  "first_node (set_worker i ph pos s) = first_node s" "end_seen (set_worker i ph pos s) = end_seen s"
  "owned_blocks (set_worker i ph pos s) = owned_blocks s" "memory_ok heap (set_worker i ph pos s) = memory_ok heap s"
  "nodes_ok content (set_worker i ph pos s) = nodes_ok content s" "data_ok content (set_worker i ph pos s) = data_ok content s"
  "tasks_at (set_worker i ph pos s) q t = tasks_at s q t" "unread (set_worker i ph pos s) p = unread s p"
  "read_part content (set_worker i ph pos s) p bytes = read_part content s p bytes"
  by (simp_all add: first_node_def end_seen_def owned_blocks_def memory_ok_def nodes_ok_def data_ok_def tasks_at_def
      unread_def read_part_def)

lemma set_worker_worker_ok [simp]: "worker_ok content t (set_worker i ph pos s) ph' pos' = worker_ok content t s ph' pos'"
  by (cases ph') simp_all

lemma phase_isD:
  assumes "phase_is s i ph pos"
  shows "i < length (tf_workers s)" "phase_of s i = ph" "w_position (tf_workers s ! i) = pos"
  using assms by (auto simp: phase_is_def)

lemma set_worker_nth:
  "i < length (tf_workers s) \<Longrightarrow>
     tf_workers (set_worker i ph pos s) ! j = (if j = i then \<lparr>w_phase = ph, w_position = pos\<rparr> else tf_workers s ! j)"
  by (auto simp: set_worker_def nth_list_update)

lemma worker_okD:
  assumes "workers_ok content t s" "phase_is s i ph pos"
  shows "worker_ok content t s ph pos"
  using assms by (auto simp: workers_ok_def phase_is_def)

lemma troubled_set_worker:
  assumes "phase_is s i ph pos"
  shows "troubled (set_worker i ph' pos' s) \<longleftrightarrow>
    tf_exception_is_set s \<or> (\<exists>e. ph' = Raising e) \<or> (\<exists>j < length (tf_workers s). j \<noteq> i \<and> (\<exists>e. phase_of s j = Raising e))"
  using phase_isD [OF assms] by (auto simp: troubled_def set_worker_nth)

lemma troubled_step:
  assumes "troubled s" "phase_is s i ph pos" "\<And>e. ph \<noteq> Raising e" "tf_workers s1 = tf_workers s"
    "tf_exception_is_set s \<Longrightarrow> tf_exception_is_set s1"
  shows "troubled (set_worker i ph' pos' s1)"
proof -
  note i = phase_isD [OF assms(2)]
  have "phase_of (set_worker i ph' pos' s1) j = Raising e" if "phase_of s j = Raising e" for j e
    using that i assms(3,4) by (auto simp: set_worker_nth)
  then show ?thesis using assms(1,4,5) unfolding troubled_def by auto
qed

text \<open>One worker moves on and the rest of the state changes with it, from \<open>s\<close> to \<open>s1\<close>.\<close>

lemma workers_ok_step:
  assumes ok: "workers_ok content t s" and ph: "phase_is s i ph pos"
    and same: "tf_workers s1 = tf_workers s" "tf_threads s1 = tf_threads s" "tf_compressed s1 = tf_compressed s"
    and new: "worker_ok content t1 s1 ph' pos'"
    and others: "\<And>j. j < length (tf_workers s) \<Longrightarrow> j \<noteq> i \<Longrightarrow> worker_ok content t s (phase_of s j) (w_position (tf_workers s ! j)) \<Longrightarrow>
      worker_ok content t1 s1 (phase_of s j) (w_position (tf_workers s ! j))"
    and busy: "\<And>p. busy_with ph' = Some p \<Longrightarrow>
      busy_with ph = Some p \<or> (\<forall>j < length (tf_workers s). busy_with (phase_of s j) \<noteq> Some p)"
    and tr: "troubled s \<Longrightarrow> troubled (set_worker i ph' pos' s1)"
    and un: "\<And>p. p < t1 \<Longrightarrow> unread s1 p \<Longrightarrow> busy_with ph' \<noteq> Some p \<Longrightarrow> \<not> troubled (set_worker i ph' pos' s1) \<Longrightarrow>
      p < t \<and> unread s p \<and> busy_with ph \<noteq> Some p"
  shows "workers_ok content t1 (set_worker i ph' pos' s1)"
proof -
  let ?s = "set_worker i ph' pos' s1"
  note i = phase_isD [OF ph]
  have nth: "phase_of ?s j = (if j = i then ph' else phase_of s j)"
    "w_position (tf_workers ?s ! j) = (if j = i then pos' else w_position (tf_workers s ! j))" for j
    using i(1) same(1) by (simp_all add: set_worker_nth)
  have each: "worker_ok content t1 ?s (phase_of ?s j) (w_position (tf_workers ?s ! j))" if "j < length (tf_workers s)" for j
    using that new others ok by (simp add: nth workers_ok_def)
  have one: "j = k" if "j < length (tf_workers s)" "k < length (tf_workers s)"
    "busy_with (phase_of ?s j) = Some p" "busy_with (phase_of ?s k) = Some p" for j k p
  proof (cases "busy_with ph = Some p \<or> j \<noteq> i \<and> k \<noteq> i")
    case True
    then have "busy_with (phase_of s j) = Some p" "busy_with (phase_of s k) = Some p"
      using that(3,4) i(2) by (auto simp: nth split: if_splits)
    then show ?thesis using ok that(1,2) unfolding workers_ok_def by blast
  next
    case False
    then have "busy_with ph' = Some p" using that(3,4) by (auto simp: nth split: if_splits)
    then show ?thesis using busy False that by (auto simp: nth split: if_splits)
  qed
  have found: "troubled ?s \<or> (\<exists>j < length (tf_workers s). busy_with (phase_of ?s j) = Some p)"
    if p: "p < t1" "unread s1 p" for p
  proof (cases "troubled ?s \<or> busy_with ph' = Some p")
    case True
    then show ?thesis using i(1) by (auto simp: nth)
  next
    case False
    then have old: "p < t" "unread s p" "busy_with ph \<noteq> Some p" "\<not> troubled s" using un [OF p] tr by auto
    then obtain j where j: "j < length (tf_workers s)" "busy_with (phase_of s j) = Some p"
      using ok unfolding workers_ok_def by blast
    then have "busy_with (phase_of ?s j) = Some p" using old(3) i(2) by (auto simp: nth)
    then show ?thesis using j(1) by blast
  qed
  show ?thesis using ok each one found same unfolding workers_ok_def by simp
qed

lemma workers_ok_set_worker:
  assumes "workers_ok content t s" "phase_is s i ph pos" "worker_ok content t s ph' pos'"
    "troubled s \<Longrightarrow> troubled (set_worker i ph' pos' s)"
    "busy_with ph' = busy_with ph \<or> busy_with ph' = None \<and> (troubled (set_worker i ph' pos' s) \<or> busy_with ph = None)"
  shows "workers_ok content t (set_worker i ph' pos' s)"
  using assms(3-5) by (intro workers_ok_step [OF assms(1,2)]) auto

lemma flags_ok_step:
  assumes ok: "flags_ok s" and ph: "phase_is s i ph pos" and not_recording: "\<And>e. ph \<noteq> Recording e"
    and same: "tf_workers s1 = tf_workers s" "tf_exception_is_set s1 = tf_exception_is_set s"
      "tf_has_exception s1 = tf_has_exception s" "tf_worker_exception s1 = tf_worker_exception s"
    and eof: "tf_eof s1 \<Longrightarrow> tf_eof s \<or> end_seen s1" "end_seen s \<Longrightarrow> end_seen s1"
  shows "flags_ok (set_worker i ph' pos' s1)"
proof -
  note i = phase_isD [OF ph]
  have "phase_of (set_worker i ph' pos' s1) j = Recording e" if "phase_of s j = Recording e" for j e
    using that i not_recording same(1) by (auto simp: set_worker_nth)
  then show ?thesis using ok same eof unfolding flags_ok_def by auto
qed

section \<open>The queue of tasks\<close>

lemma map_of_nodes:
  assumes "nodes_ok content s"
  shows "map_of (tf_blocks s) p = Some b \<longleftrightarrow> (p, b) \<in> set (tf_blocks s)"
  using assms by (intro map_of_eq_Some_iff) (simp add: nodes_ok_def)

lemma node_present:
  assumes "nodes_ok content s" "first_node s \<le> p" "p < tf_next_node s"
  obtains b where "(p, b) \<in> set (tf_blocks s)"
proof -
  have "p \<in> set (map fst (tf_blocks s))" using assms by (simp add: nodes_ok_def)
  then show ?thesis using that by force
qed

lemma tasks_parts [simp]:
  "first_node (s\<lparr>tf_tasks := x\<rparr>) = first_node s" "end_seen (s\<lparr>tf_tasks := x\<rparr>) = end_seen s"
  "owned_blocks (s\<lparr>tf_tasks := x\<rparr>) = owned_blocks s" "memory_ok heap (s\<lparr>tf_tasks := x\<rparr>) = memory_ok heap s"
  "nodes_ok content (s\<lparr>tf_tasks := x\<rparr>) = nodes_ok content s" "data_ok content (s\<lparr>tf_tasks := x\<rparr>) = data_ok content s"
  "unread (s\<lparr>tf_tasks := x\<rparr>) p = unread s p" "read_part content (s\<lparr>tf_tasks := x\<rparr>) p bytes = read_part content s p bytes"
  "troubled (s\<lparr>tf_tasks := x\<rparr>) = troubled s" "flags_ok (s\<lparr>tf_tasks := x\<rparr>) = flags_ok s"
  "phase_is (s\<lparr>tf_tasks := x\<rparr>) i ph pos = phase_is s i ph pos"
  by (simp_all add: first_node_def end_seen_def owned_blocks_def memory_ok_def nodes_ok_def data_ok_def tasks_at_def
      unread_def read_part_def troubled_def flags_ok_def phase_is_def)

lemma tasks_workers_ok [simp]: "workers_ok content t (s\<lparr>tf_tasks := x\<rparr>) = workers_ok content t s"
proof -
  have "worker_ok content t (s\<lparr>tf_tasks := x\<rparr>) ph pos = worker_ok content t s ph pos" for ph pos by (cases ph) simp_all
  then show ?thesis by (simp add: workers_ok_def)
qed

lemma tasks_at_pop:
  assumes t: "tasks_at s q t" and n: "nodes_ok content s" and pop: "queue_pop q = Some (Inr (Some p, q'))"
  shows "p = t \<and> t < tf_next_node s \<and> unread s t \<and> tasks_at (s\<lparr>tf_tasks := Some q'\<rparr>) q' (t + 1)"
proof -
  have q: "tasks_ok None q" "queue_tasks q = map Some [t ..< tf_next_node s]" using t by (auto simp: tasks_at_def)
  from q(1) pop obtain xs where x: "queue_tasks q = Some p # xs" "tasks_ok None q'" "queue_tasks q' = xs"
    by (cases rule: tasks.pop_cases) simp_all
  then have less: "t < tf_next_node s" using q(2) by (cases "t < tf_next_node s") auto
  then have p: "p = t" "queue_tasks q' = map Some [t + 1 ..< tf_next_node s]" using x q(2) by (auto simp: upt_conv_Cons)
  obtain b where b: "(t, b) \<in> set (tf_blocks s)" using node_present [OF n _ less] t by (auto simp: tasks_at_def)
  then have "unread s t" using t map_of_nodes [OF n] by (auto simp: unread_def tasks_at_def)
  then show ?thesis using t x(2) p less by (auto simp: tasks_at_def)
qed

lemma tasks_at_guard:
  assumes t: "tasks_at s q t" and pop: "queue_pop q = Some (Inr (None, q'))"
  shows "tasks_at (s\<lparr>tf_tasks := Some q'\<rparr>) q' t \<and> t = tf_next_node s \<and> queue_guards q = Suc (queue_guards q')"
proof -
  have q: "tasks_ok None q" "queue_tasks q = map Some [t ..< tf_next_node s]" using t by (auto simp: tasks_at_def)
  from q(1) pop show ?thesis
  proof (cases rule: tasks.pop_cases)
    case (Task x xs q1)
    then have "None \<in> set (map Some [t ..< tf_next_node s])" using q(2) by (metis Pair_inject list.set_intros(1) sum.inject(2))
    then show ?thesis by auto
  next
    case (Guard n q1)
    then show ?thesis using t q(2) by (auto simp: tasks_at_def)
  qed
qed

lemma workers_ok_take:
  assumes ok: "workers_ok content t s" and ph: "phase_is s i Waiting pos"
    and mine: "worker_ok content (t + 1) s ph' pos" and busy: "busy_with ph' = Some t"
  shows "workers_ok content (t + 1) (set_worker i ph' pos s)"
proof (rule workers_ok_step [OF ok ph refl refl refl mine])
  note i = phase_isD [OF ph]
  fix j
  assume j: "j < length (tf_workers s)" "j \<noteq> i" "worker_ok content t s (phase_of s j) (w_position (tf_workers s ! j))"
  have "\<not> tf_compressed s" using ok j i(1) by (auto simp: workers_ok_def)
  then show "worker_ok content (t + 1) s (phase_of s j) (w_position (tf_workers s ! j))"
    using j(3) by (cases "phase_of s j") (auto split: if_splits)
next
  fix p
  assume "busy_with ph' = Some p"
  then have "p = t" using busy by simp
  moreover have "busy_with (phase_of s j) \<noteq> Some t" if "j < length (tf_workers s)" for j
  proof -
    have "worker_ok content t s (phase_of s j) (w_position (tf_workers s ! j))" using ok that by (simp add: workers_ok_def)
    then show ?thesis by (cases "phase_of s j") auto
  qed
  ultimately show "busy_with Waiting = Some p \<or> (\<forall>j < length (tf_workers s). busy_with (phase_of s j) \<noteq> Some p)" by blast
next
  show "troubled s \<Longrightarrow> troubled (set_worker i ph' pos s)"
    by (rule troubled_step [OF _ ph]) auto
qed (use busy in \<open>auto simp: less_Suc_eq\<close>)

section \<open>Changes of the memory\<close>

definition same_block :: "nat \<Rightarrow> store \<Rightarrow> store \<Rightarrow> nat \<Rightarrow> bool" where
  "same_block n st st' a \<longleftrightarrow> (\<forall>i < n. mem st' (a + i) = mem st (a + i))"

lemma same_block_bytes: "same_block n st st' a \<Longrightarrow> k \<le> n \<Longrightarrow> map (mem st') [a ..< a + k] = map (mem st) [a ..< a + k]"
  by (auto simp: same_block_def list_eq_iff_nth_eq)

lemma block_bytes_length [simp]: "length (block_bytes st d) = db_size d"
  by (simp add: block_bytes_def)

lemma store_parts [simp]:
  "first_node (s\<lparr>tf_store := st\<rparr>) = first_node s" "end_seen (s\<lparr>tf_store := st\<rparr>) = end_seen s"
  "owned_blocks (s\<lparr>tf_store := st\<rparr>) = owned_blocks s" "nodes_ok content (s\<lparr>tf_store := st\<rparr>) = nodes_ok content s"
  "unread (s\<lparr>tf_store := st\<rparr>) p = unread s p" "tasks_at (s\<lparr>tf_store := st\<rparr>) q t = tasks_at s q t"
  "troubled (s\<lparr>tf_store := st\<rparr>) = troubled s" "flags_ok (s\<lparr>tf_store := st\<rparr>) = flags_ok s"
  "phase_is (s\<lparr>tf_store := st\<rparr>) i ph pos = phase_is s i ph pos"
  by (simp_all add: first_node_def end_seen_def owned_blocks_def nodes_ok_def tasks_at_def unread_def troubled_def
      flags_ok_def phase_is_def)

lemma memory_ok_store:
  assumes "memory_ok heap s" "pool_state heap (pool st)" "m_block_size (pool st) = tf_block_size s"
    "set (owned_blocks s) \<subseteq> used_blocks (pool st)" "\<forall>(a, bytes) \<in> set (tf_held s). same_block (tf_block_size s) (tf_store s) st a"
  shows "memory_ok heap (s\<lparr>tf_store := st\<rparr>)"
proof -
  have "map (mem st) [a ..< a + length bytes] = bytes \<and> length bytes \<le> tf_block_size s"
    if "(a, bytes) \<in> set (tf_held s)" for a bytes
  proof -
    have "length bytes \<le> tf_block_size s" "map (mem (tf_store s)) [a ..< a + length bytes] = bytes"
      using assms(1) that by (auto simp: memory_ok_def)
    moreover have "same_block (tf_block_size s) (tf_store s) st a" using assms(5) that by auto
    ultimately show ?thesis using same_block_bytes by metis
  qed
  then show ?thesis using assms(1-4) by (auto simp: memory_ok_def)
qed

lemma ready_size:
  assumes "data_ok content s" "(p, b) \<in> set (tf_blocks s)" "b_ready b"
  shows "db_size (b_data b) = min (tf_block_size s) (length content - p * tf_block_size s)"
proof -
  have "block_bytes (tf_store s) (b_data b) = substr content (p * tf_block_size s) (tf_block_size s)"
    using assms by (auto simp: data_ok_def split: if_splits)
  then have "length (block_bytes (tf_store s) (b_data b)) = length (substr content (p * tf_block_size s) (tf_block_size s))"
    by (rule arg_cong)
  then show ?thesis by (simp add: min.commute)
qed

lemma data_ok_store:
  assumes "data_ok content s"
    "\<And>p b. (p, b) \<in> set (tf_blocks s) \<Longrightarrow> b_ready b \<Longrightarrow> same_block (tf_block_size s) (tf_store s) st (db_memory (b_data b))"
  shows "data_ok content (s\<lparr>tf_store := st\<rparr>)"
proof -
  have "block_bytes st (b_data b) = block_bytes (tf_store s) (b_data b)" if "(p, b) \<in> set (tf_blocks s)" "b_ready b" for p b
    unfolding block_bytes_def using ready_size [OF assms(1) that] by (intro same_block_bytes [OF assms(2) [OF that]]) simp
  then show ?thesis using assms(1) by (auto simp: data_ok_def)
qed

lemma read_part_store:
  assumes "read_part content s p bytes" "bytes \<le> tf_block_size s"
    "\<And>b. map_of (tf_blocks s) p = Some b \<Longrightarrow> same_block (tf_block_size s) (tf_store s) st (db_memory (b_data b))"
  shows "read_part content (s\<lparr>tf_store := st\<rparr>) p bytes"
  using assms(1) same_block_bytes [OF assms(3) assms(2)] unfolding read_part_def by simp

text \<open>Different blocks do not overlap.\<close>

lemma owned_apart:
  assumes "memory_ok heap s" "a \<in> set (owned_blocks s)" "b \<in> set (owned_blocks s)" "a \<noteq> b"
  shows "a + tf_block_size s \<le> b \<or> b + tf_block_size s \<le> a"
proof -
  have "alloc_ok (pool (tf_store s))" "m_block_size (pool (tf_store s)) = tf_block_size s"
    "a \<in> used_blocks (pool (tf_store s))" "b \<in> used_blocks (pool (tf_store s))"
    using assms(1-3) by (auto simp: memory_ok_def pool_state_def)
  then show ?thesis using used_blocks_apart [of "pool (tf_store s)"] assms(4) by (metis linorder_neqE_nat)
qed

lemma write_same_block:
  assumes "memory_ok heap s" "a \<in> set (owned_blocks s)" "b \<in> set (owned_blocks s)" "a \<noteq> b"
    "bytes + length data \<le> tf_block_size s"
  shows "same_block (tf_block_size s) (tf_store s) ((tf_store s)\<lparr>mem := mem_copy (a + bytes) data (mem (tf_store s))\<rparr>) b"
  using owned_apart [OF assms(1-4)] assms(5) by (auto simp: same_block_def mem_copy_def)

lemma owned_distinct:
  assumes "memory_ok heap s"
  shows "(p, b) \<in> set (tf_blocks s) \<Longrightarrow> (q, c) \<in> set (tf_blocks s) \<Longrightarrow> p \<noteq> q \<Longrightarrow> db_memory (b_data b) \<noteq> db_memory (b_data c)"
    and "(p, b) \<in> set (tf_blocks s) \<Longrightarrow> (a, bytes) \<in> set (tf_held s) \<Longrightarrow> db_memory (b_data b) \<noteq> a"
    and "(p, b) \<in> set (tf_blocks s) \<Longrightarrow> db_memory (b_data b) \<in> set (owned_blocks s)"
    and "(a, bytes) \<in> set (tf_held s) \<Longrightarrow> a \<in> set (owned_blocks s)"
proof -
  have d: "distinct (map (\<lambda>(p, b). db_memory (b_data b)) (tf_blocks s))"
    "set (map (\<lambda>(p, b). db_memory (b_data b)) (tf_blocks s)) \<inter> set (map fst (tf_held s)) = {}"
    using assms by (auto simp: memory_ok_def owned_blocks_def)
  show "(p, b) \<in> set (tf_blocks s) \<Longrightarrow> (q, c) \<in> set (tf_blocks s) \<Longrightarrow> p \<noteq> q \<Longrightarrow> db_memory (b_data b) \<noteq> db_memory (b_data c)"
    using d(1) by (auto simp: distinct_map inj_on_def)
  show "(p, b) \<in> set (tf_blocks s) \<Longrightarrow> (a, bytes) \<in> set (tf_held s) \<Longrightarrow> db_memory (b_data b) \<noteq> a"
    using d(2) by force
qed (force simp: owned_blocks_def)+

section \<open>Reading and publishing\<close>

lemma reading_position:
  assumes "pos = min (p * n) (length content) + bytes" "pos < length content"
  shows "pos = p * n + bytes"
  using assms by (auto simp: min_def split: if_splits)

lemma read_part_extend:
  assumes part: "read_part content s p bytes" and b: "map_of (tf_blocks s) p = Some b"
    and pos: "pos = p * tf_block_size s + bytes" "pos + n \<le> length content"
  shows "read_part content (s\<lparr>tf_store := (tf_store s)\<lparr>mem := mem_copy (db_memory (b_data b) + bytes) (substr content pos n)
    (mem (tf_store s))\<rparr>\<rparr>) p (bytes + n)"
proof -
  let ?a = "db_memory (b_data b)" and ?m = "mem (tf_store s)"
  let ?m' = "mem_copy (?a + bytes) (substr content pos n) ?m" and ?o = "p * tf_block_size s"
  have "map ?m' [?a ..< ?a + (bytes + n)] = map ?m' [?a ..< ?a + bytes] @ map ?m' [?a + bytes ..< ?a + bytes + n]"
    using upt_add_eq_append [of ?a "?a + bytes" n] by (simp add: add.assoc)
  also have "map ?m' [?a ..< ?a + bytes] = substr content ?o bytes"
    using part b unfolding read_part_def by (metis (mono_tags, lifting) mem_copy_def atLeastLessThan_iff atLeastLessThan_upt
        map_eq_conv not_le)
  also have "map ?m' [?a + bytes ..< ?a + bytes + n] = substr content pos n"
    using pos by (auto simp: list_eq_iff_nth_eq mem_copy_def)
  also have "substr content ?o bytes @ substr content pos n = substr content ?o (bytes + n)"
    by (simp add: pos take_add add.commute)
  finally show ?thesis using b by (simp add: read_part_def)
qed

lemma inv_read:
  assumes mem: "memory_ok heap s" and nodes: "nodes_ok content s" and data: "data_ok content s" and ok: "workers_ok content t s"
    and ph: "phase_is s i (Reading p bytes) pos" and b: "map_of (tf_blocks s) p = Some b"
    and n: "0 < n" "n \<le> tf_block_size s - bytes" "pos + n \<le> length content"
    and st: "st = (tf_store s)\<lparr>mem := mem_copy (db_memory (b_data b) + bytes) (substr content pos n) (mem (tf_store s))\<rparr>"
  shows "memory_ok heap (s\<lparr>tf_store := st\<rparr>)" "data_ok content (s\<lparr>tf_store := st\<rparr>)"
    "workers_ok content t (set_worker i (Reading p (bytes + n)) (pos + n) (s\<lparr>tf_store := st\<rparr>))"
proof -
  have w: "worker_ok content t s (Reading p bytes) pos" by (rule worker_okD [OF ok ph])
  then have pos: "pos = p * tf_block_size s + bytes" and un: "unread s p" and len: "bytes \<le> tf_block_size s"
    using n reading_position [of pos p "tf_block_size s" content bytes] by auto
  have lim: "bytes + n \<le> tf_block_size s" "min (p * tf_block_size s) (length content) = p * tf_block_size s"
    using n len pos by auto
  have pb: "(p, b) \<in> set (tf_blocks s)" using b map_of_nodes [OF nodes] by simp
  have same: "same_block (tf_block_size s) (tf_store s) st c"
    if "c \<in> set (owned_blocks s)" "db_memory (b_data b) \<noteq> c" for c
    unfolding st using that n len owned_distinct(3) [OF mem pb] by (intro write_same_block [OF mem]) auto
  have sameb: "same_block (tf_block_size s) (tf_store s) st (db_memory (b_data c))" if "(q, c) \<in> set (tf_blocks s)" "q \<noteq> p" for q c
    using same owned_distinct(1,3) [OF mem] pb that by metis
  show "memory_ok heap (s\<lparr>tf_store := st\<rparr>)"
  proof (rule memory_ok_store [OF mem])
    show "\<forall>(a, bytes) \<in> set (tf_held s). same_block (tf_block_size s) (tf_store s) st a"
      using same owned_distinct(2,4) [OF mem] pb by fast
  qed (use mem st in \<open>auto simp: memory_ok_def\<close>)
  show "data_ok content (s\<lparr>tf_store := st\<rparr>)"
  proof (rule data_ok_store [OF data])
    fix q c
    assume qc: "(q, c) \<in> set (tf_blocks s)" "b_ready c"
    then have "q \<noteq> p" using un b map_of_nodes [OF nodes, of q c] by (auto simp: unread_def)
    then show "same_block (tf_block_size s) (tf_store s) st (db_memory (b_data c))" using sameb qc by blast
  qed
  show "workers_ok content t (set_worker i (Reading p (bytes + n)) (pos + n) (s\<lparr>tf_store := st\<rparr>))"
  proof (rule workers_ok_step [OF ok ph])
    show "worker_ok content t (s\<lparr>tf_store := st\<rparr>) (Reading p (bytes + n)) (pos + n)"
      using w lim un read_part_extend [OF _ b pos n(3)] n(3) by (simp add: st pos)
  next
    fix j
    assume j: "j < length (tf_workers s)" "j \<noteq> i" "worker_ok content t s (phase_of s j) (w_position (tf_workers s ! j))"
    then have "busy_with (phase_of s j) \<noteq> Some p" using ok phase_isD [OF ph] unfolding workers_ok_def by auto
    moreover have "read_part content (s\<lparr>tf_store := st\<rparr>) q k"
      if "read_part content s q k" "k \<le> tf_block_size s" "q \<noteq> p" for q k
      using that sameb map_of_nodes [OF nodes] by (intro read_part_store) auto
    ultimately show "worker_ok content t (s\<lparr>tf_store := st\<rparr>) (phase_of s j) (w_position (tf_workers s ! j))"
      using j(3) by (cases "phase_of s j") auto
  next
    show "troubled s \<Longrightarrow> troubled (set_worker i (Reading p (bytes + n)) (pos + n) (s\<lparr>tf_store := st\<rparr>))"
      by (rule troubled_step [OF _ ph]) auto
  qed auto
qed

lemma put_block_nodes [simp]: "map fst (put_block p b bs) = map fst bs" "length (put_block p b bs) = length bs"
  by (simp_all add: put_block_def comp_def case_prod_beta)

lemma set_put_block:
  "(q, c) \<in> set (put_block p b bs) \<longleftrightarrow> (if q = p then c = b \<and> p \<in> fst ` set bs else (q, c) \<in> set bs)"
  by (force simp: put_block_def)

lemma map_of_put_block:
  "map_of (put_block p b bs) q = (if q = p then map_option (\<lambda>_. b) (map_of bs q) else map_of bs q)"
  by (induction bs) (auto simp: put_block_def)

text \<open>The block with the number \<open>p\<close> becomes ready.\<close>

definition publish_at :: "nat \<Rightarrow> tf_block \<Rightarrow> nat \<Rightarrow> threaded_file \<Rightarrow> threaded_file" where
  "publish_at p b bytes s =
     s\<lparr>tf_blocks := put_block p (b\<lparr>b_data := (b_data b)\<lparr>db_size := bytes\<rparr>, b_ready := True\<rparr>) (tf_blocks s)\<rparr>"

lemma publish_sel [simp]:
  "tf_workers (publish_at p b bytes s) = tf_workers s" "tf_threads (publish_at p b bytes s) = tf_threads s"
  "tf_compressed (publish_at p b bytes s) = tf_compressed s" "tf_block_size (publish_at p b bytes s) = tf_block_size s"
  "tf_exception_is_set (publish_at p b bytes s) = tf_exception_is_set s" "first_node (publish_at p b bytes s) = first_node s"
  "tf_next_node (publish_at p b bytes s) = tf_next_node s" "phase_is (publish_at p b bytes s) i ph pos = phase_is s i ph pos"
  by (simp_all add: publish_at_def first_node_def phase_is_def)

lemma publish_owned:
  assumes "map_of (tf_blocks s) p = Some b" "nodes_ok content s"
  shows "owned_blocks (publish_at p b bytes s) = owned_blocks s"
proof -
  have "db_memory (b_data (if q = p then b\<lparr>b_data := (b_data b)\<lparr>db_size := bytes\<rparr>, b_ready := True\<rparr> else c)) = db_memory (b_data c)"
    if "(q, c) \<in> set (tf_blocks s)" for q c
    using that map_of_nodes [OF assms(2), of q c] assms(1) by auto
  then show ?thesis unfolding owned_blocks_def publish_at_def put_block_def
    by (auto simp: case_prod_beta)
qed

lemma publish_unread:
  assumes "map_of (tf_blocks s) p = Some b"
  shows "unread (publish_at p b bytes s) q \<longleftrightarrow> unread s q \<and> q \<noteq> p"
  using assms by (auto simp: unread_def publish_at_def map_of_put_block)

lemma publish_end_seen:
  assumes "unread s p" "map_of (tf_blocks s) p = Some b" "nodes_ok content s"
  shows "end_seen s \<Longrightarrow> end_seen (publish_at p b bytes s)" and "end_seen (publish_at p b 0 s)"
proof -
  have p: "p \<in> fst ` set (tf_blocks s)" using assms(2) by (force dest: map_of_SomeD)
  show "end_seen (publish_at p b 0 s)"
    unfolding end_seen_def publish_at_def
    by (rule disjI2, rule bexI [of _ "(p, b\<lparr>b_data := (b_data b)\<lparr>db_size := 0\<rparr>, b_ready := True\<rparr>)"])
      (simp_all add: set_put_block p)
  assume "end_seen s"
  then consider "tf_read_eof s" | q c where "(q, c) \<in> set (tf_blocks s)" "b_ready c" "db_size (b_data c) = 0"
    by (auto simp: end_seen_def)
  then show "end_seen (publish_at p b bytes s)"
  proof cases
    case (2 q c)
    then have "q \<noteq> p" using assms map_of_nodes [OF assms(3), of q c] by (auto simp: unread_def)
    then have "(q, c) \<in> set (tf_blocks (publish_at p b bytes s))" using 2 by (simp add: publish_at_def set_put_block)
    then show ?thesis using 2 by (auto simp: end_seen_def)
  qed (simp add: end_seen_def publish_at_def)
qed

lemma published_bytes:
  assumes "pos = min (p * n) (length content) + bytes" "pos \<le> length content" "bytes \<le> n" "bytes = n \<or> length content \<le> pos"
  shows "substr content (p * n) bytes = substr content (p * n) n"
    and "bytes \<noteq> 0 \<Longrightarrow> pos = min ((p + 1) * n) (length content)"
proof -
  consider "bytes = n" | "length content \<le> p * n" | "length content = p * n + bytes"
    using assms by (fastforce simp: min_def split: if_splits)
  then show "substr content (p * n) bytes = substr content (p * n) n"
    using assms(3) by cases simp_all
  show "bytes \<noteq> 0 \<Longrightarrow> pos = min ((p + 1) * n) (length content)"
    using assms by (auto simp: min_def split: if_splits)
qed

lemma inv_publish:
  assumes mem: "memory_ok heap s" and nodes: "nodes_ok content s" and data: "data_ok content s" and ok: "workers_ok content t s"
    and flags: "flags_ok s" and tasks: "tasks_at s q t"
    and ph: "phase_is s i (Reading p bytes) pos" and b: "map_of (tf_blocks s) p = Some b"
    and stop: "bytes = tf_block_size s \<or> length content \<le> pos"
  shows "memory_ok heap (publish_at p b bytes s)" "nodes_ok content (publish_at p b bytes s)"
    "data_ok content (publish_at p b bytes s)" "tasks_at (publish_at p b bytes s) q t"
    "flags_ok (set_worker i (Published bytes) pos (publish_at p b bytes s))"
    "workers_ok content t (set_worker i (Published bytes) pos (publish_at p b bytes s))"
proof -
  let ?s = "publish_at p b bytes s"
  have w: "worker_ok content t s (Reading p bytes) pos" by (rule worker_okD [OF ok ph])
  then have un: "unread s p" and len: "bytes \<le> tf_block_size s" and lt: "p < t"
    and pos: "pos = min (p * tf_block_size s) (length content) + bytes" "pos \<le> length content"
    and part: "read_part content s p bytes" by auto
  note bytes = published_bytes [OF pos len stop]
  note seen = publish_end_seen [OF un b nodes]
  have pb: "(p, b) \<in> set (tf_blocks s)" using b map_of_nodes [OF nodes] by simp
  have nb: "\<not> b_ready b" using un b by (simp add: unread_def)
  then have c0: "b_consumed b = 0" using data pb by (auto simp: data_ok_def)
  show "memory_ok heap ?s"
    using mem publish_owned [OF b nodes] by (auto simp: memory_ok_def publish_at_def)
  have "b_offset_in_file c = r * tf_block_size s \<and> (\<not> tf_compressed s \<longrightarrow> r * tf_block_size s < length content)"
    if "(r, c) \<in> set (tf_blocks ?s)" for r c
    using that nodes pb by (auto simp: publish_at_def set_put_block nodes_ok_def split: if_splits)
  then show "nodes_ok content ?s" using nodes unfolding nodes_ok_def by (auto simp: publish_at_def first_node_def)
  have "block_bytes (tf_store s) ((b_data b)\<lparr>db_size := bytes\<rparr>) = substr content (p * tf_block_size s) (tf_block_size s)"
    using part b bytes(1) by (simp add: read_part_def block_bytes_def)
  then show "data_ok content ?s" using data c0 unfolding data_ok_def by (fastforce simp: publish_at_def set_put_block split: if_splits)
  show "tasks_at ?s q t"
    using tasks lt by (auto simp: tasks_at_def publish_at_def first_node_def set_put_block split: if_splits)
  show "flags_ok (set_worker i (Published bytes) pos ?s)"
    using seen(1) by (intro flags_ok_step [OF flags ph]) (auto simp: publish_at_def)
  show "workers_ok content t (set_worker i (Published bytes) pos ?s)"
  proof (rule workers_ok_step [OF ok ph])
    show "worker_ok content t ?s (Published bytes) pos" using seen(2) bytes(2) w by auto
  next
    fix j
    assume j: "j < length (tf_workers s)" "j \<noteq> i" "worker_ok content t s (phase_of s j) (w_position (tf_workers s ! j))"
    then have "busy_with (phase_of s j) \<noteq> Some p" using ok phase_isD [OF ph] unfolding workers_ok_def by auto
    moreover have "read_part content ?s r k = read_part content s r k" if "r \<noteq> p" for r k
      using that by (simp add: read_part_def publish_at_def map_of_put_block)
    ultimately show "worker_ok content t ?s (phase_of s j) (w_position (tf_workers s ! j))"
      using j(3) publish_unread [OF b] seen(1) by (cases "phase_of s j") (auto split: if_splits)
  next
    show "troubled s \<Longrightarrow> troubled (set_worker i (Published bytes) pos ?s)"
      by (rule troubled_step [OF _ ph]) auto
  next
    fix r
    assume "r < t" "unread ?s r"
    then show "r < t \<and> unread s r \<and> busy_with (Reading p bytes) \<noteq> Some r" using publish_unread [OF b] by auto
  qed auto
qed

section \<open>Every step keeps the invariant\<close>

lemma tf_invI:
  "memory_ok heap s \<Longrightarrow> nodes_ok content s \<Longrightarrow> data_ok content s \<Longrightarrow> flags_ok s \<Longrightarrow> tasks_at s q t \<Longrightarrow> workers_ok content t s \<Longrightarrow>
     tf_inv heap content s"
  by (auto simp: tf_inv_def)

lemma tf_invE:
  assumes "tf_inv heap content s"
  obtains q t where "memory_ok heap s" "nodes_ok content s" "data_ok content s" "flags_ok s" "tasks_at s q t"
    "workers_ok content t s"
  using assms by (auto simp: tf_inv_def)

lemma flag_parts [simp]:
  "memory_ok heap (s\<lparr>tf_eof := x\<rparr>) = memory_ok heap s" "nodes_ok content (s\<lparr>tf_eof := x\<rparr>) = nodes_ok content s"
  "data_ok content (s\<lparr>tf_eof := x\<rparr>) = data_ok content s" "tasks_at (s\<lparr>tf_eof := x\<rparr>) q t = tasks_at s q t"
  "end_seen (s\<lparr>tf_eof := x\<rparr>) = end_seen s"
  "memory_ok heap (s\<lparr>tf_exception_is_set := x\<rparr>) = memory_ok heap s" "nodes_ok content (s\<lparr>tf_exception_is_set := x\<rparr>) = nodes_ok content s"
  "data_ok content (s\<lparr>tf_exception_is_set := x\<rparr>) = data_ok content s" "tasks_at (s\<lparr>tf_exception_is_set := x\<rparr>) q t = tasks_at s q t"
  "end_seen (s\<lparr>tf_exception_is_set := x\<rparr>) = end_seen s"
  "memory_ok heap (s\<lparr>tf_worker_exception := y, tf_has_exception := x\<rparr>) = memory_ok heap s"
  "nodes_ok content (s\<lparr>tf_worker_exception := y, tf_has_exception := x\<rparr>) = nodes_ok content s"
  "data_ok content (s\<lparr>tf_worker_exception := y, tf_has_exception := x\<rparr>) = data_ok content s"
  "tasks_at (s\<lparr>tf_worker_exception := y, tf_has_exception := x\<rparr>) q t = tasks_at s q t"
  "end_seen (s\<lparr>tf_worker_exception := y, tf_has_exception := x\<rparr>) = end_seen s"
  by (simp_all add: first_node_def end_seen_def owned_blocks_def memory_ok_def nodes_ok_def data_ok_def tasks_at_def)

lemma flag_worker_ok [simp]:
  "worker_ok content t (s\<lparr>tf_eof := x\<rparr>) ph pos = worker_ok content t s ph pos"
  "worker_ok content t (s\<lparr>tf_worker_exception := y, tf_has_exception := x\<rparr>) ph pos = worker_ok content t s ph pos"
  by (cases ph; simp add: unread_def read_part_def)+

lemma raised_worker_ok:
  "worker_ok content t s ph pos \<Longrightarrow> worker_ok content t (s\<lparr>tf_exception_is_set := True\<rparr>) ph pos"
  by (cases ph) (auto simp: unread_def read_part_def split: if_splits)

lemma flag_unread [simp]:
  "unread (s\<lparr>tf_eof := x\<rparr>) p = unread s p" "unread (s\<lparr>tf_exception_is_set := x\<rparr>) p = unread s p"
  "unread (s\<lparr>tf_worker_exception := y, tf_has_exception := x\<rparr>) p = unread s p"
  by (simp_all add: unread_def)

text \<open>A step that changes the phase of one worker and flags.\<close>

lemma inv_phase:
  assumes inv: "tf_inv heap content s" and ph: "phase_is s i ph pos" "\<And>e. ph \<noteq> Recording e" "\<And>e. ph \<noteq> Raising e"
    and new: "\<And>t. worker_ok content t s ph pos \<Longrightarrow> worker_ok content t s ph' pos'"
    and busy: "busy_with ph' = busy_with ph \<or> busy_with ph = None \<or> (\<exists>e. ph' = Raising e)" "busy_with ph' = busy_with ph \<or> busy_with ph' = None"
  shows "tf_inv heap content (set_worker i ph' pos' s)"
proof -
  obtain q t where i: "memory_ok heap s" "nodes_ok content s" "data_ok content s" "flags_ok s" "tasks_at s q t" "workers_ok content t s"
    by (rule tf_invE [OF inv])
  have "troubled s \<Longrightarrow> troubled (set_worker i ph' pos' s)"
    by (rule troubled_step [OF _ ph(1,3)]) auto
  moreover have "\<exists>e. ph' = Raising e \<Longrightarrow> troubled (set_worker i ph' pos' s)" using troubled_set_worker [OF ph(1)] by blast
  ultimately have "workers_ok content t (set_worker i ph' pos' s)"
    using busy new [OF worker_okD [OF i(6) ph(1)]] by (intro workers_ok_set_worker [OF i(6) ph(1)]) auto
  moreover have "flags_ok (set_worker i ph' pos' s)" using ph(2) by (intro flags_ok_step [OF i(4) ph(1)]) auto
  ultimately show ?thesis using i by (intro tf_invI [where q = q and t = t]) simp_all
qed

lemma inv_published:
  assumes inv: "tf_inv heap content s" and ph: "phase_is s i (Published bytes) pos"
  shows "tf_inv heap content (set_worker i (if 0 = bytes then Closing else Waiting) pos (if 0 = bytes then s\<lparr>tf_eof := True\<rparr> else s))"
proof (cases "bytes = 0")
  case True
  obtain q t where i: "memory_ok heap s" "nodes_ok content s" "data_ok content s" "flags_ok s" "tasks_at s q t" "workers_ok content t s"
    by (rule tf_invE [OF inv])
  let ?s = "set_worker i Closing pos (s\<lparr>tf_eof := True\<rparr>)"
  have seen: "end_seen s" using worker_okD [OF i(6) ph] True by simp
  have "flags_ok ?s" using seen by (intro flags_ok_step [OF i(4) ph]) auto
  moreover have "workers_ok content t ?s"
  proof (rule workers_ok_step [OF i(6) ph])
    show "troubled s \<Longrightarrow> troubled ?s" by (rule troubled_step [OF _ ph]) auto
  qed auto
  ultimately show ?thesis using i True by (intro tf_invI [where q = q and t = t]) simp_all
next
  case False
  then show ?thesis using inv_phase [OF inv ph, of Waiting pos] by simp
qed

lemma inv_raise:
  assumes inv: "tf_inv heap content s" and ph: "phase_is s i (Raising e) pos"
  shows "tf_inv heap content (if tf_exception_is_set s then set_worker i Finished pos s
       else set_worker i (Recording e) pos (s\<lparr>tf_exception_is_set := True\<rparr>))"
proof -
  obtain q t where i: "memory_ok heap s" "nodes_ok content s" "data_ok content s" "flags_ok s" "tasks_at s q t" "workers_ok content t s"
    by (rule tf_invE [OF inv])
  show ?thesis
  proof (cases "tf_exception_is_set s")
    case True
    have "workers_ok content t (set_worker i Finished pos s)"
      using True by (intro workers_ok_set_worker [OF i(6) ph]) (auto simp: troubled_def)
    moreover have "flags_ok (set_worker i Finished pos s)" by (intro flags_ok_step [OF i(4) ph]) auto
    ultimately show ?thesis using i True by (intro tf_invI [where q = q and t = t]) simp_all
  next
    case False
    let ?s = "set_worker i (Recording e) pos (s\<lparr>tf_exception_is_set := True\<rparr>)"
    have "troubled ?s" by (simp add: troubled_def)
    then have "workers_ok content t ?s" by (intro workers_ok_step [OF i(6) ph]) (auto intro: raised_worker_ok)
    moreover have "flags_ok ?s" using i(4) phase_isD [OF ph] by (auto simp: flags_ok_def set_worker_nth)
    ultimately show ?thesis using i False by (intro tf_invI [where q = q and t = t]) simp_all
  qed
qed

lemma inv_record:
  assumes inv: "tf_inv heap content s" and ph: "phase_is s i (Recording e) pos"
  shows "tf_inv heap content (set_worker i Finished pos (s\<lparr>tf_worker_exception := Some e, tf_has_exception := True\<rparr>))"
proof -
  obtain q t where i: "memory_ok heap s" "nodes_ok content s" "data_ok content s" "flags_ok s" "tasks_at s q t" "workers_ok content t s"
    by (rule tf_invE [OF inv])
  let ?s = "set_worker i Finished pos (s\<lparr>tf_worker_exception := Some e, tf_has_exception := True\<rparr>)"
  have "workers_ok content t ?s"
  proof (rule workers_ok_step [OF i(6) ph])
    show "troubled s \<Longrightarrow> troubled ?s" by (rule troubled_step [OF _ ph]) auto
  qed auto
  moreover have "flags_ok ?s" using i(4) by (auto simp: flags_ok_def)
  ultimately show ?thesis using i by (intro tf_invI [where q = q and t = t]) simp_all
qed

lemma inv_pop_task:
  assumes inv: "tf_inv heap content s" and ph: "phase_is s i Waiting pos"
    and q: "tf_tasks s = Some q" "queue_pop q = Some (Inr (Some p, q'))"
  shows "tf_inv heap content
    (set_worker i (if tf_compressed s then Reading p 0 else Seeking p) pos (s\<lparr>tf_tasks := Some q'\<rparr>))"
proof -
  obtain q0 t where i: "memory_ok heap s" "nodes_ok content s" "data_ok content s" "flags_ok s" "tasks_at s q0 t" "workers_ok content t s"
    by (rule tf_invE [OF inv])
  have "q0 = q" using i(5) q(1) by (simp add: tasks_at_def)
  with tasks_at_pop [OF _ i(2) q(2)] i(5) have p: "p = t" "unread s t" "tasks_at (s\<lparr>tf_tasks := Some q'\<rparr>) q' (t + 1)" by auto
  let ?ph = "if tf_compressed s then Reading p 0 else Seeking p"
  have "worker_ok content (t + 1) (s\<lparr>tf_tasks := Some q'\<rparr>) ?ph pos"
    using worker_okD [OF i(6) ph] p(1,2) by (auto simp: read_part_def)
  then have "workers_ok content (t + 1) (set_worker i ?ph pos (s\<lparr>tf_tasks := Some q'\<rparr>))"
    using i(6) ph p(1) by (intro workers_ok_take) auto
  moreover have "flags_ok (set_worker i ?ph pos (s\<lparr>tf_tasks := Some q'\<rparr>))" by (intro flags_ok_step [OF i(4) ph]) auto
  ultimately show ?thesis using i p(3) by (intro tf_invI [where q = q' and t = "t + 1"]) simp_all
qed

lemma inv_pop_guard:
  assumes inv: "tf_inv heap content s" and ph: "phase_is s i Waiting pos"
    and q: "tf_tasks s = Some q" "queue_pop q = Some (Inr (None, q'))"
  shows "tf_inv heap content (set_worker i Closing pos (s\<lparr>tf_tasks := Some q'\<rparr>))"
proof -
  obtain q0 t where i: "memory_ok heap s" "nodes_ok content s" "data_ok content s" "flags_ok s" "tasks_at s q0 t" "workers_ok content t s"
    by (rule tf_invE [OF inv])
  have "tasks_at (s\<lparr>tf_tasks := Some q'\<rparr>) q' t" using tasks_at_guard [of s q t q'] q i(5) by (auto simp: tasks_at_def)
  then have "tf_inv heap content (s\<lparr>tf_tasks := Some q'\<rparr>)" using i by (intro tf_invI [where q = q' and t = t]) simp_all
  then show ?thesis by (rule inv_phase [where ph = Waiting and pos = pos]) (use ph in simp_all)
qed

lemma inv_seek:
  assumes inv: "tf_inv heap content s" and ph: "phase_is s i (Seeking p) pos" and b: "map_of (tf_blocks s) p = Some b"
  shows "tf_inv heap content (set_worker i (Reading p 0) (b_offset_in_file b) s)"
proof -
  obtain q t where i: "nodes_ok content s" "workers_ok content t s" by (rule tf_invE [OF inv])
  have "(p, b) \<in> set (tf_blocks s)" using b map_of_nodes [OF i(1)] by simp
  moreover have "\<not> tf_compressed s" using worker_okD [OF i(2) ph] by simp
  ultimately have "b_offset_in_file b = p * tf_block_size s" "p * tf_block_size s < length content"
    using i(1) by (auto simp: nodes_ok_def)
  then show ?thesis by (intro inv_phase [OF inv ph]) (auto simp: read_part_def)
qed

lemma worker_step_inv:
  assumes "worker_step content s s'" "tf_inv heap content s"
  shows "tf_inv heap content s'"
proof -
  obtain q0 t where i: "memory_ok heap s" "nodes_ok content s" "data_ok content s" "flags_ok s" "tasks_at s q0 t" "workers_ok content t s"
    by (rule tf_invE [OF assms(2)])
  from assms(1) show ?thesis
  proof cases
    case (ws_start i pos)
    then show ?thesis using assms(2) by (auto intro!: inv_phase)
  next
    case (ws_pop_task i pos q p q')
    then show ?thesis using inv_pop_task [OF assms(2)] by simp
  next
    case (ws_pop_guard i pos q q')
    then show ?thesis using inv_pop_guard [OF assms(2)] by simp
  next
    case (ws_seek i p pos b)
    then show ?thesis using inv_seek [OF assms(2)] by simp
  next
    case (ws_read j p bytes pos b n)
    have "flags_ok s'" unfolding ws_read(1) by (intro flags_ok_step [OF i(4) ws_read(2)]) auto
    then show ?thesis using inv_read [OF i(1-3,6) ws_read(2,3,5-7) refl] i ws_read(1)
      by (intro tf_invI [where q = q0 and t = t]) simp_all
  next
    case (ws_publish j p bytes pos b)
    then show ?thesis using inv_publish [OF i(1-3,6,4,5) ws_publish(2-4)] i
      by (intro tf_invI [where q = q0 and t = t]) (simp_all add: publish_at_def)
  next
    case (ws_published i bytes pos)
    then show ?thesis using inv_published [OF assms(2)] by simp
  next
    case (ws_close i pos)
    then show ?thesis using inv_phase [OF assms(2) ws_close(2)] by simp
  next
    case (ws_fails j ph pos p bytes e)
    have "ph \<noteq> Recording e' \<and> ph \<noteq> Raising e'" for e' using ws_fails(3) by auto
    then show ?thesis unfolding ws_fails(1) by (intro inv_phase [OF assms(2) ws_fails(2)]) auto
  next
    case (ws_read_fails j p bytes pos err)
    then show ?thesis using inv_phase [OF assms(2) ws_read_fails(2)] by simp
  next
    case (ws_pop_fails j pos q e)
    then show ?thesis using tasks.pop_never_fails [of None q e] i(5) by (auto simp: tasks_at_def)
  next
    case (ws_raise i e pos)
    then show ?thesis using inv_raise [OF assms(2)] by simp
  next
    case (ws_record i e pos)
    then show ?thesis using inv_record [OF assms(2)] by simp
  next
    case (ws_dangling j ph pos p bytes)
    then show ?thesis using worker_okD [OF i(6) ws_dangling(2)] by (auto simp: unread_def)
  next
    case (ws_no_queue j pos)
    then show ?thesis using i(5) by (simp add: tasks_at_def)
  qed
qed

text \<open>The other users of the memory.\<close>

lemma other_users_inv:
  assumes inv: "tf_inv heap content s" and others: "other_users heap s st"
  shows "tf_inv heap content (s\<lparr>tf_store := st\<rparr>)"
proof -
  obtain q t where i: "memory_ok heap s" "nodes_ok content s" "data_ok content s" "flags_ok s" "tasks_at s q t" "workers_ok content t s"
    by (rule tf_invE [OF inv])
  let ?s = "s\<lparr>tf_store := st\<rparr>"
  have same: "same_block (tf_block_size s) (tf_store s) st a" "a \<in> used_blocks (pool st)" if "a \<in> set (owned_blocks s)" for a
    using others that by (auto simp: other_users_def same_block_def)
  have "memory_ok heap ?s"
    using others same owned_distinct(4) [OF i(1)] i(1)
    by (intro memory_ok_store [OF i(1)]) (auto simp: other_users_def memory_ok_def)
  moreover have "data_ok content ?s" using same(1) owned_distinct(3) [OF i(1)] by (intro data_ok_store [OF i(3)]) blast
  moreover have "workers_ok content t ?s"
  proof -
    have "read_part content ?s p k" if "read_part content s p k" "k \<le> tf_block_size s" for p k
      using same(1) owned_distinct(3) [OF i(1)] map_of_nodes [OF i(2)] by (intro read_part_store [OF that]) blast
    then have "worker_ok content t ?s ph pos" if "worker_ok content t s ph pos" for ph pos
      using that by (cases ph) auto
    then show ?thesis using i(6) by (auto simp: workers_ok_def)
  qed
  ultimately show ?thesis using i by (intro tf_invI [where q = q and t = t]) simp_all
qed

lemma env_step_inv: "env_step heap content s s' \<Longrightarrow> tf_inv heap content s \<Longrightarrow> tf_inv heap content s'"
  by (erule env_step.cases) (auto intro: worker_step_inv other_users_inv)

lemma tf_steps_inv:
  assumes "tf_steps heap content s s'" "tf_inv heap content s"
  shows "tf_inv heap content s'"
  using assms by (induction rule: rtranclp_induct) (auto intro: env_step_inv)

section \<open>What the steps of the workers leave alone\<close>

text \<open>The workers change a block only by making it ready.\<close>

definition block_kept :: "tf_block \<Rightarrow> tf_block \<Rightarrow> bool" where
  "block_kept b b' \<longleftrightarrow> db_memory (b_data b') = db_memory (b_data b) \<and> b_consumed b' = b_consumed b \<and>
     (b_ready b \<longrightarrow> b' = b)"

fun node_kept :: "nat \<times> tf_block \<Rightarrow> nat \<times> tf_block \<Rightarrow> bool" where
  "node_kept (p, b) (p', b') \<longleftrightarrow> p' = p \<and> block_kept b b'"

definition main_kept :: "threaded_file \<Rightarrow> threaded_file \<Rightarrow> bool" where
  "main_kept s s' \<longleftrightarrow>
     tf_threads s' = tf_threads s \<and> tf_max_memory s' = tf_max_memory s \<and> tf_compressed s' = tf_compressed s \<and>
     tf_file_size s' = tf_file_size s \<and> tf_offset s' = tf_offset s \<and> tf_read_eof s' = tf_read_eof s \<and>
     tf_next_node s' = tf_next_node s \<and> tf_block_size s' = tf_block_size s \<and> tf_held s' = tf_held s \<and>
     list_all2 node_kept (tf_blocks s) (tf_blocks s') \<and>
     (tf_eof s \<longrightarrow> tf_eof s') \<and> (tf_has_exception s \<longrightarrow> tf_has_exception s')"

lemma block_kept_refl [simp]: "block_kept b b"
  by (simp add: block_kept_def)

lemma block_kept_trans: "block_kept a b \<Longrightarrow> block_kept b c \<Longrightarrow> block_kept a c"
  by (auto simp: block_kept_def)

lemma node_kept_refl [simp]: "node_kept x x"
  by (cases x) simp

lemma node_kept_trans: "node_kept x y \<Longrightarrow> node_kept y z \<Longrightarrow> node_kept x z"
  by (cases x; cases y; cases z) (auto intro: block_kept_trans)

lemma main_kept_refl [simp]: "main_kept s s"
  by (auto simp: main_kept_def list_all2_same)

lemma main_kept_trans:
  assumes "main_kept s s1" "main_kept s1 s2"
  shows "main_kept s s2"
proof -
  have "transp node_kept" using node_kept_trans by (rule transpI)
  then have "list_all2 node_kept (tf_blocks s) (tf_blocks s2)"
    using assms unfolding main_kept_def by (metis list.rel_transp transpE)
  then show ?thesis using assms by (simp add: main_kept_def)
qed

lemma main_kept_set_worker [simp]: "main_kept s (set_worker i ph pos s1) \<longleftrightarrow> main_kept s s1"
  by (simp add: main_kept_def)

lemma main_kept_publish:
  assumes "map_of (tf_blocks s) p = Some b" "\<not> b_ready b" "nodes_ok content s"
  shows "main_kept s (publish_at p b bytes s)"
proof -
  have "b = c" if "(p, c) \<in> set (tf_blocks s)" for c using map_of_nodes [OF assms(3), of p c] assms(1) that by simp
  then have "list_all2 node_kept (tf_blocks s) (tf_blocks (publish_at p b bytes s))"
    using assms(2) unfolding publish_at_def put_block_def
    by (auto simp: list_all2_map2 list_all2_same block_kept_def)
  then show ?thesis by (simp add: main_kept_def publish_at_def)
qed

lemma worker_step_kept:
  assumes "worker_step content s s'" "tf_inv heap content s"
  shows "main_kept s s'"
proof -
  obtain t where i: "nodes_ok content s" "workers_ok content t s" by (rule tf_invE [OF assms(2)])
  have upd: "main_kept s (s\<lparr>tf_tasks := x\<rparr>)" "main_kept s (s\<lparr>tf_store := st\<rparr>)" "main_kept s (s\<lparr>tf_eof := True\<rparr>)"
    "main_kept s (s\<lparr>tf_exception_is_set := True\<rparr>)" "main_kept s (s\<lparr>tf_worker_exception := y, tf_has_exception := True\<rparr>)" for x st y
    by (auto simp: main_kept_def list_all2_same)
  from assms(1) show ?thesis
  proof cases
    case (ws_publish j p bytes pos b)
    have "unread s p" using worker_okD [OF i(2) ws_publish(2)] by simp
    then have "\<not> b_ready b" using ws_publish(3) by (simp add: unread_def)
    then show ?thesis using main_kept_publish [OF ws_publish(3) _ i(1)] ws_publish(1) by (simp add: publish_at_def)
  qed (use upd in \<open>simp_all add: main_kept_refl\<close>)
qed

lemma tf_steps_kept:
  assumes "tf_steps heap content s s'" "tf_inv heap content s"
  shows "main_kept s s' \<and> tf_inv heap content s'"
  using assms
proof (induction rule: rtranclp_induct)
  case (step s1 s2)
  have "main_kept s1 s2"
    using step(2)
  proof cases
    case env_worker
    then show ?thesis using worker_step_kept step.IH [OF step.prems] by blast
  next
    case (env_others st)
    then show ?thesis by (auto simp: main_kept_def list_all2_same)
  qed
  then show ?case using step env_step_inv main_kept_trans by blast
qed simp

end
