(* ===== verification/Threaded_Run.thy ===== *)
theory Threaded_Run
  imports Threaded_Reads
begin

text \<open>
  The calls of the main thread that schedule blocks, wait for the first one and extract it: \<open>schedule_block_ok\<close>, \<open>front_call_ok\<close> and
  \<open>extract_call_ok\<close> say what each of them returns and that it keeps the invariant, whatever the workers do in between. While the file is open, the
  invariant \<open>serving\<close> says in addition why a worker may have ended.
\<close>

section \<open>While the file is open\<close>

text \<open>Before the file is closed a worker ends only because of an exception or at the end of the file.\<close>

definition serving :: "threaded_file \<Rightarrow> bool" where
  "serving s \<longleftrightarrow> (\<forall>q. tf_tasks s = Some q \<longrightarrow> queue_guards q = 0) \<and>
     (\<forall>i < length (tf_workers s). phase_of s i = Closing \<or> phase_of s i = Finished \<longrightarrow> troubled s \<or> end_seen s)"

lemma worker_step_mono:
  assumes "worker_step content s s'" "tf_inv heap content s"
  shows "(troubled s \<longrightarrow> troubled s') \<and> (end_seen s \<longrightarrow> end_seen s')"
proof -
  obtain t where i: "nodes_ok content s" "workers_ok content t s" by (rule tf_invE [OF assms(2)])
  from assms(1) show ?thesis
  proof cases
    case (ws_publish j p bytes pos b)
    have "unread s p" using worker_okD [OF i(2) ws_publish(2)] by simp
    then show ?thesis using publish_end_seen(1) [OF _ ws_publish(3) i(1)] troubled_step [OF _ ws_publish(2)] ws_publish(1)
      by (simp add: publish_at_def)
  next
    case (ws_raise j e pos)
    then show ?thesis by (auto simp: troubled_def)
  next
    case (ws_fails j ph pos p bytes e)
    then show ?thesis using troubled_step [OF _ ws_fails(2)] by auto
  next
    case (ws_dangling j ph pos p bytes)
    then show ?thesis using troubled_step [OF _ ws_dangling(2)] by auto
  qed (auto intro!: troubled_step)
qed

lemma serving_set_worker:
  assumes "serving s" "tf_workers s1 = tf_workers s" "\<And>q. tf_tasks s1 = Some q \<Longrightarrow> queue_guards q = 0"
    "troubled s \<longrightarrow> troubled (set_worker i ph pos s1)" "end_seen s \<longrightarrow> end_seen s1" "i < length (tf_workers s)"
    "ph = Closing \<or> ph = Finished \<Longrightarrow> troubled (set_worker i ph pos s1) \<or> end_seen s1"
  shows "serving (set_worker i ph pos s1)"
proof -
  have "phase_of (set_worker i ph pos s1) j = (if j = i then ph else phase_of s j)" for j
    using assms(2,6) by (simp add: set_worker_nth)
  then show ?thesis using assms unfolding serving_def by (simp add: assms(2)) blast
qed

lemma worker_step_serving:
  assumes step: "worker_step content s s'" and inv: "tf_inv heap content s" and srv: "serving s"
  shows "serving s'"
proof -
  obtain q0 t where i: "nodes_ok content s" "tasks_at s q0 t" "workers_ok content t s" by (rule tf_invE [OF inv])
  have g: "queue_guards q = 0" if "tf_tasks s = Some q" for q using srv that by (simp add: serving_def)
  have closing: "troubled s \<or> end_seen s" if "phase_is s j Closing pos" for j pos
    using srv phase_isD [OF that] by (auto simp: serving_def)
  note mono = worker_step_mono [OF step inv]
  from step show ?thesis
  proof cases
    case (ws_pop_task j pos q p q')
    have "queue_guards q' = 0"
      using tasks.pop_cases [of None q "Inr (Some p, q')"] i(2) ws_pop_task(3,4) g by (auto simp: tasks_at_def)
    then show ?thesis using mono ws_pop_task phase_isD [OF ws_pop_task(2)] by (auto intro!: serving_set_worker [OF srv])
  next
    case (ws_pop_guard j pos q q')
    then show ?thesis using tasks_at_guard [of s q t q'] i(2) g by (auto simp: tasks_at_def)
  next
    case (ws_published j bytes pos)
    then show ?thesis using mono g phase_isD [OF ws_published(2)] worker_okD [OF i(3) ws_published(2)]
      by (auto intro!: serving_set_worker [OF srv] split: if_splits)
  next
    case (ws_close j pos)
    then show ?thesis using mono g phase_isD [OF ws_close(2)] closing [OF ws_close(2)] by (auto intro!: serving_set_worker [OF srv])
  next
    case (ws_raise j e pos)
    then show ?thesis using mono g phase_isD [OF ws_raise(2)]
      by (auto intro!: serving_set_worker [OF srv] simp: troubled_def split: if_splits)
  next
    case (ws_record j e pos)
    then show ?thesis using mono g phase_isD [OF ws_record(2)] worker_okD [OF i(3) ws_record(2)]
      by (auto intro!: serving_set_worker [OF srv] simp: troubled_def)
  qed (use mono g in \<open>auto intro!: serving_set_worker [OF srv] dest: phase_isD(1)\<close>)
qed

text \<open>Only the first block may have been read in part.\<close>

definition front_only :: "threaded_file \<Rightarrow> bool" where
  "front_only s \<longleftrightarrow> (\<forall>(p, b) \<in> set (tl (tf_blocks s)). b_consumed b = 0)"

lemma main_kept_front_only:
  assumes "main_kept s s'" "front_only s"
  shows "front_only s'"
proof -
  have "list_all2 node_kept (tl (tf_blocks s)) (tl (tf_blocks s'))"
    using assms(1) unfolding main_kept_def by (cases "tf_blocks s"; cases "tf_blocks s'") auto
  moreover have "\<forall>(p, b) \<in> set ys. b_consumed b = 0" if "list_all2 node_kept xs ys" "\<forall>(p, b) \<in> set xs. b_consumed b = 0" for xs ys
    using that by (induction rule: list_all2_induct) (auto simp: block_kept_def)
  ultimately show ?thesis using assms(2) unfolding front_only_def by blast
qed

definition tf_good :: "heap \<Rightarrow> string \<Rightarrow> threaded_file \<Rightarrow> bool" where
  "tf_good heap content s \<longleftrightarrow> tf_inv heap content s \<and> serving s \<and> front_only s"

lemma tf_steps_good:
  assumes "tf_steps heap content s s'" "tf_good heap content s"
  shows "tf_good heap content s' \<and> main_kept s s'"
proof -
  have "serving s'" using assms(1)
  proof (induction rule: rtranclp_induct)
    case base
    then show ?case using assms(2) by (simp add: tf_good_def)
  next
    case (step s1 s2)
    have inv: "tf_inv heap content s1" using tf_steps_inv [OF step(1)] assms(2) by (simp add: tf_good_def)
    from step(2) show ?case
    proof cases
      case env_worker
      then show ?thesis using worker_step_serving inv step.IH by blast
    next
      case (env_others st)
      then show ?thesis using step.IH by (simp add: serving_def)
    qed
  qed
  then show ?thesis using tf_steps_kept [OF assms(1)] assms(2) main_kept_front_only by (auto simp: tf_good_def)
qed

section \<open>Scheduling\<close>

lemma allocate_block_ok:
  assumes ok: "pool_state heap a" and small: "2 * m_block_size a \<le> 2 ^ 64"
  shows "case allocate_block heap a of
      (Inl e, a') \<Rightarrow> e = Bad_alloc \<and> pool_state heap a' \<and> m_block_size a' = m_block_size a \<and> used_blocks a' = used_blocks a
    | (Inr m, a') \<Rightarrow> pool_state heap a' \<and> m_block_size a' = m_block_size a \<and> m \<notin> used_blocks a \<and>
        used_blocks a' = insert m (used_blocks a)"
proof -
  have pos: "0 < m_block_size a" using ok by (simp add: pool_state_def alloc_ok_def)
  obtain res a' where r: "allocate heap a (m_block_size a) = (res, a')" by fastforce
  have same: "1 * m_block_size a mod 2 ^ 64 = m_block_size a" using small pos by simp
  note f = allocate_ok [OF _ _ r]
  have "(m_block_size a + m_block_size a - 1) mod 2 ^ 64 = m_block_size a + (m_block_size a - 1)" using small pos by simp
  then have "block_count a (m_block_size a) = (m_block_size a + (m_block_size a - 1)) div m_block_size a"
    by (simp add: block_count_def)
  then have one: "block_count a (m_block_size a) = 1" using pos by (simp add: div_nat_eqI)
  show ?thesis
  proof (cases res)
    case (Inl e)
    then show ?thesis using f r ok same
      by (auto simp: allocate_block_def allocate_blocks_def pool_state_def)
  next
    case (Inr bs)
    then obtain m where "bs = [m]" using f ok one by (auto simp: pool_state_def length_Suc_conv)
    then show ?thesis using f r ok same Inr
      by (auto simp: allocate_block_def allocate_blocks_def pool_state_def)
  qed
qed

lemma memory_ok_alloc:
  assumes "memory_ok heap s"
  shows "case allocate_block heap (pool (tf_store s)) of
      (Inl e, a) \<Rightarrow> e = Bad_alloc \<and> memory_ok heap (s\<lparr>tf_store := (tf_store s)\<lparr>pool := a\<rparr>\<rparr>)
    | (Inr m, a) \<Rightarrow> m \<notin> set (owned_blocks s) \<and> m \<in> used_blocks a \<and> memory_ok heap (s\<lparr>tf_store := (tf_store s)\<lparr>pool := a\<rparr>\<rparr>)"
proof -
  have m: "pool_state heap (pool (tf_store s))" "2 * m_block_size (pool (tf_store s)) \<le> 2 ^ 64"
    using assms by (auto simp: memory_ok_def)
  have "memory_ok heap (s\<lparr>tf_store := (tf_store s)\<lparr>pool := a\<rparr>\<rparr>)"
    if "pool_state heap a" "m_block_size a = m_block_size (pool (tf_store s))"
      "used_blocks (pool (tf_store s)) \<subseteq> used_blocks a" for a
    using assms that by (intro memory_ok_store) (auto simp: memory_ok_def same_block_def)
  then show ?thesis using allocate_block_ok [OF m] assms
    by (auto simp: memory_ok_def split: prod.splits sum.splits)
qed

text \<open>The state after a block has been scheduled.\<close>

definition add_node :: "nat \<Rightarrow> allocator \<Rightarrow> nat option sync_queue \<Rightarrow> threaded_file \<Rightarrow> threaded_file" where
  "add_node m a q s =
     s\<lparr>tf_store := (tf_store s)\<lparr>pool := a\<rparr>, tf_offset := tf_offset s + tf_block_size s,
       tf_blocks := tf_blocks s @ [(tf_next_node s, \<lparr>b_data = \<lparr>db_memory = m, db_size = 0\<rparr>, b_offset_in_file = tf_offset s,
         b_consumed = 0, b_ready = False\<rparr>)],
       tf_next_node := tf_next_node s + 1, tf_tasks := Some q\<rparr>"

lemma add_node_sel [simp]:
  "tf_workers (add_node m a q s) = tf_workers s" "tf_threads (add_node m a q s) = tf_threads s"
  "tf_compressed (add_node m a q s) = tf_compressed s" "tf_block_size (add_node m a q s) = tf_block_size s"
  "tf_read_eof (add_node m a q s) = tf_read_eof s" "tf_exception_is_set (add_node m a q s) = tf_exception_is_set s"
  "tf_has_exception (add_node m a q s) = tf_has_exception s" "tf_eof (add_node m a q s) = tf_eof s"
  "tf_worker_exception (add_node m a q s) = tf_worker_exception s" "tf_held (add_node m a q s) = tf_held s"
  "tf_max_memory (add_node m a q s) = tf_max_memory s" "tf_next_node (add_node m a q s) = tf_next_node s + 1"
  "tf_tasks (add_node m a q s) = Some q" "tf_file_size (add_node m a q s) = tf_file_size s"
  "mem (tf_store (add_node m a q s)) = mem (tf_store s)" "tf_offset (add_node m a q s) = tf_offset s + tf_block_size s"
  "end_seen (add_node m a q s) = end_seen s" "troubled (add_node m a q s) = troubled s" "flags_ok (add_node m a q s) = flags_ok s"
  "length (tf_blocks (add_node m a q s)) = length (tf_blocks s) + 1" "first_node (add_node m a q s) = first_node s"
  by (auto simp: add_node_def end_seen_def troubled_def flags_ok_def first_node_def)

lemma add_node_map_of:
  assumes "nodes_ok content s" "p < tf_next_node s"
  shows "map_of (tf_blocks (add_node m a q s)) p = map_of (tf_blocks s) p"
  using assms by (simp add: add_node_def map_of_append map_add_def split: option.splits)

lemma add_node_inv:
  assumes inv: "tf_inv heap content s" and m: "m \<notin> set (owned_blocks s)" "m \<in> used_blocks a"
    "memory_ok heap (s\<lparr>tf_store := (tf_store s)\<lparr>pool := a\<rparr>\<rparr>)"
    and q: "tf_tasks s = Some q" "push_medium (Some (tf_next_node s)) q = Some q'"
    and raw: "\<not> tf_compressed s \<Longrightarrow> tf_offset s < tf_file_size s"
  shows "tf_inv heap content (add_node m a q' s)"
proof -
  let ?s = "add_node m a q' s"
  obtain q0 t where i: "memory_ok heap s" "nodes_ok content s" "data_ok content s" "flags_ok s" "tasks_at s q0 t" "workers_ok content t s"
    by (rule tf_invE [OF inv])
  have le: "length (tf_blocks s) \<le> tf_next_node s" "first_node s \<le> tf_next_node s" using i(2) by (auto simp: nodes_ok_def first_node_def)
  have "memory_ok heap ?s" using m by (auto simp: memory_ok_def add_node_def owned_blocks_def)
  moreover have "nodes_ok content ?s"
    using i(2) raw le unfolding nodes_ok_def by (auto simp: add_node_def first_node_def upt_Suc_append algebra_simps)
  moreover have "data_ok content ?s" using i(3) by (auto simp: data_ok_def add_node_def block_bytes_def)
  moreover have "tasks_at ?s q' t"
    using i(5) q tasks.push_task [of None q "Some (tf_next_node s)"] le
    by (auto simp: tasks_at_def) (auto simp: add_node_def)
  moreover have "workers_ok content t ?s"
  proof -
    have t: "t \<le> tf_next_node s" using i(5) by (simp add: tasks_at_def)
    have un: "unread ?s p = unread s p" "read_part content ?s p k = read_part content s p k" if "p < t" for p k
      using add_node_map_of [OF i(2), of p] that t by (simp_all add: unread_def read_part_def)
    have "worker_ok content t ?s ph pos" if "worker_ok content t s ph pos" for ph pos
      using that un by (cases ph) auto
    then show ?thesis using i(6) un by (auto simp: workers_ok_def)
  qed
  ultimately show ?thesis using i(4) by (intro tf_invI [where q = q' and t = t]) simp_all
qed

text \<open>A call of \<^verbatim>\<open>schedule_block\<close> fails only for lack of memory.\<close>

lemma schedule_block_ok:
  assumes good: "tf_good heap content s" and sched: "schedule_block heap force eof s = (r, s')"
    and raw: "\<not> tf_compressed s \<longrightarrow> \<not> force"
  obtains (Failed) a where "r = Inl Bad_alloc" "s' = s\<lparr>tf_store := (tf_store s)\<lparr>pool := a\<rparr>\<rparr>" "tf_good heap content s'"
  | (Idle) "r = Inr False" "s' = s" "eof \<or> \<not> tf_offset s < tf_file_size s \<and> \<not> force"
  | (Added) m a q where "r = Inr True" "s' = add_node m a q s" "\<not> eof" "tf_good heap content s'"
proof -
  have inv: "tf_inv heap content s" and srv: "serving s" and fo: "front_only s" using good by (auto simp: tf_good_def)
  obtain q0 t where i: "memory_ok heap s" "nodes_ok content s" "data_ok content s" "flags_ok s" "tasks_at s q0 t" "workers_ok content t s"
    by (rule tf_invE [OF inv])
  obtain res a where ra: "allocate_block heap (pool (tf_store s)) = (res, a)" by fastforce
  note al = memory_ok_alloc [OF i(1), unfolded ra]
  show ?thesis
  proof (cases "eof \<or> \<not> tf_offset s < tf_file_size s \<and> \<not> force")
    case True
    then have "schedule_block heap force eof s = (Inr False, s)" by (auto simp: schedule_block_def)
    then show ?thesis using sched Idle True by simp
  next
    case go: False
    show ?thesis
    proof (cases res)
      case (Inl e)
      then have e: "e = Bad_alloc" "memory_ok heap (s\<lparr>tf_store := (tf_store s)\<lparr>pool := a\<rparr>\<rparr>)" using al by auto
      have "data_ok content (s\<lparr>tf_store := (tf_store s)\<lparr>pool := a\<rparr>\<rparr>)" by (rule data_ok_store [OF i(3)]) (simp add: same_block_def)
      moreover have "worker_ok content t (s\<lparr>tf_store := (tf_store s)\<lparr>pool := a\<rparr>\<rparr>) ph pos" if "worker_ok content t s ph pos" for ph pos
        using that by (cases ph) (auto simp: read_part_def)
      then have "workers_ok content t (s\<lparr>tf_store := (tf_store s)\<lparr>pool := a\<rparr>\<rparr>)" using i(6) by (auto simp: workers_ok_def)
      ultimately have "tf_inv heap content (s\<lparr>tf_store := (tf_store s)\<lparr>pool := a\<rparr>\<rparr>)"
        using i e by (intro tf_invI [where q = q0 and t = t]) simp_all
      moreover have "serving (s\<lparr>tf_store := (tf_store s)\<lparr>pool := a\<rparr>\<rparr>)" "front_only (s\<lparr>tf_store := (tf_store s)\<lparr>pool := a\<rparr>\<rparr>)"
        using srv fo by (simp_all add: serving_def front_only_def)
      ultimately show ?thesis using sched go Inl ra e Failed by (auto simp: schedule_block_def tf_good_def)
    next
      case (Inr m)
      obtain q where q: "tf_tasks s = Some q" "tasks_ok None q" using i(5) by (auto simp: tasks_at_def)
      obtain q' where q': "push_medium (Some (tf_next_node s)) q = Some q'" "queue_guards q' = queue_guards q"
        using tasks.push_task [OF q(2)] by blast
      have "tf_inv heap content (add_node m a q' s)"
        using al Inr go raw by (intro add_node_inv [OF inv _ _ _ q(1) q'(1)]) auto
      moreover have "serving (add_node m a q' s)" using srv q(1) q'(2) by (auto simp: serving_def)
      moreover have "front_only (add_node m a q' s)" using fo by (cases "tf_blocks s") (auto simp: front_only_def add_node_def)
      moreover have "r = Inr True" "s' = add_node m a q' s"
        using sched go Inr ra q q' by (auto simp: schedule_block_def add_node_def Let_def)
      ultimately show ?thesis using go Added by (auto simp: tf_good_def)
    qed
  qed
qed

section \<open>Taking the first block\<close>

definition tf_consumed :: "threaded_file \<Rightarrow> nat" where
  "tf_consumed s = (case tf_blocks s of [] \<Rightarrow> 0 | (p, b) # _ \<Rightarrow> b_consumed b)"

text \<open>What neither the workers nor the scheduling of blocks change.\<close>

definition calm :: "threaded_file \<Rightarrow> threaded_file \<Rightarrow> bool" where
  "calm s s' \<longleftrightarrow>
     tf_threads s' = tf_threads s \<and> tf_max_memory s' = tf_max_memory s \<and> tf_compressed s' = tf_compressed s \<and>
     tf_file_size s' = tf_file_size s \<and> tf_block_size s' = tf_block_size s \<and> tf_held s' = tf_held s \<and>
     first_node s' = first_node s \<and> tf_consumed s' = tf_consumed s \<and> length (tf_blocks s) \<le> length (tf_blocks s') \<and>
     (tf_read_eof s \<longrightarrow> tf_read_eof s')"

lemma calm_trans: "calm s s1 \<Longrightarrow> calm s1 s2 \<Longrightarrow> calm s s2"
  by (auto simp: calm_def)

lemma main_kept_calm:
  assumes "main_kept s s'"
  shows "calm s s'" "length (tf_blocks s') = length (tf_blocks s)" "tf_read_eof s' = tf_read_eof s"
    "tf_offset s' = tf_offset s" "tf_eof s \<Longrightarrow> tf_eof s'" "tf_has_exception s \<Longrightarrow> tf_has_exception s'"
proof -
  have l: "list_all2 node_kept (tf_blocks s) (tf_blocks s')" using assms by (simp add: main_kept_def)
  then have len: "length (tf_blocks s') = length (tf_blocks s)" by (simp add: list_all2_lengthD)
  have "tf_consumed s' = tf_consumed s"
    using l by (cases "tf_blocks s"; cases "tf_blocks s'") (auto simp: tf_consumed_def block_kept_def)
  then show "calm s s'" using assms len by (simp add: calm_def main_kept_def first_node_def)
  show "length (tf_blocks s') = length (tf_blocks s)" by (rule len)
qed (use assms in \<open>auto simp: main_kept_def\<close>)

lemma add_node_consumed: "tf_consumed (add_node m a q s) = tf_consumed s"
  by (cases "tf_blocks s") (auto simp: tf_consumed_def add_node_def)

lemma add_node_calm: "calm s (add_node m a q s)"
  by (simp add: calm_def add_node_consumed)

text \<open>An uncompressed file has blocks as long as there is something left to read.\<close>

definition supplied :: "threaded_file \<Rightarrow> bool" where
  "supplied s \<longleftrightarrow> (\<not> tf_compressed s \<and> tf_blocks s = [] \<longrightarrow> tf_file_size s \<le> tf_offset s)"

lemma end_seen_offset:
  assumes "tf_inv heap content s" "end_seen s" "tf_blocks s = []"
  shows "length content \<le> tf_offset s" "tf_read_eof s"
proof -
  obtain "nodes_ok content s" by (rule tf_invE [OF assms(1)])
  then show "length content \<le> tf_offset s" "tf_read_eof s"
    using assms(2,3) by (auto simp: end_seen_def nodes_ok_def first_node_def)
qed

lemma tf_good_eof: "tf_good heap content s \<Longrightarrow> tf_eof s \<Longrightarrow> end_seen s"
  by (auto simp: tf_good_def flags_ok_def elim!: tf_invE)

lemma tf_good_raw: "tf_good heap content s \<Longrightarrow> \<not> tf_compressed s \<Longrightarrow> tf_file_size s = length content"
  by (auto simp: tf_good_def nodes_ok_def elim!: tf_invE)

lemma schedule_call_ok:
  assumes good: "tf_good heap content s" and call: "schedule_call heap content force s r s'"
    and raw: "\<not> tf_compressed s \<Longrightarrow> \<not> force"
  shows "tf_good heap content s' \<and> calm s s' \<and> tf_read_eof s' = tf_read_eof s \<and>
    (case r of
       Inl e \<Rightarrow> e = Bad_alloc \<and> length (tf_blocks s') = length (tf_blocks s)
     | Inr True \<Rightarrow> length (tf_blocks s') = length (tf_blocks s) + 1
     | Inr False \<Rightarrow> length (tf_blocks s') = length (tf_blocks s) \<and> (end_seen s' \<or> \<not> force \<and> tf_file_size s' \<le> tf_offset s'))"
  using call
proof cases
  case (schedule_callI s1)
  note k = tf_steps_good [OF schedule_callI(1) good]
  note c = main_kept_calm [OF conjunct2 [OF k]]
  have raw1: "\<not> tf_compressed s1 \<longrightarrow> \<not> force" using raw c(1) by (simp add: calm_def)
  have good1: "tf_good heap content s1" using k by simp
  from good1 schedule_callI(2) raw1 show ?thesis
  proof (cases rule: schedule_block_ok)
    case (Failed a)
    then show ?thesis using c by (auto simp: calm_def tf_consumed_def)
  next
    case Idle
    have "tf_eof s \<Longrightarrow> end_seen s1" using c(5) tf_good_eof [OF good1] by blast
    then show ?thesis using Idle c good1 by auto
  next
    case (Added m a q)
    then show ?thesis using c calm_trans [OF c(1) add_node_calm] by auto
  qed
qed

lemma schedule_if_ok:
  assumes good: "tf_good heap content s" and call: "schedule_if heap content b force s r s'"
    and raw: "\<not> tf_compressed s \<Longrightarrow> b \<Longrightarrow> \<not> force"
  shows "tf_good heap content s' \<and> calm s s' \<and> tf_read_eof s' = tf_read_eof s \<and>
    length (tf_blocks s') \<le> length (tf_blocks s) + (if b then 1 else 0) \<and> (\<forall>e. r = Inl e \<longrightarrow> e = Bad_alloc) \<and>
    (b \<and> r = Inr () \<and> tf_blocks s' = [] \<longrightarrow> end_seen s' \<or> \<not> force \<and> tf_file_size s' \<le> tf_offset s')"
  using call
proof cases
  case schedule_if_not
  then show ?thesis using good by (simp add: calm_def)
next
  case (schedule_if_so r0)
  then show ?thesis using schedule_call_ok [OF good schedule_if_so(3)] raw
    by (auto split: sum.splits bool.splits)
qed

lemma schedule_if_supplied:
  assumes "tf_good heap content s" "schedule_if heap content True False s (Inr ()) s'" "\<not> tf_compressed s"
  shows "supplied s'"
proof -
  note k = schedule_if_ok [OF assms(1,2)]
  have "\<not> tf_compressed s'" using k assms(3) by (simp add: calm_def)
  then show ?thesis using k tf_good_raw [of heap content s'] end_seen_offset [of heap content s']
    by (auto simp: supplied_def tf_good_def)
qed

lemma block_size_positive: "memory_ok heap s \<Longrightarrow> 0 < tf_block_size s"
  by (auto simp: memory_ok_def pool_state_def alloc_ok_def)

lemma empty_block_at_end:
  assumes "tf_inv heap content s" "(p, b) \<in> set (tf_blocks s)" "b_ready b" "db_size (b_data b) = 0"
  shows "length content \<le> p * tf_block_size s"
proof -
  obtain m: "memory_ok heap s" and d: "data_ok content s" by (rule tf_invE [OF assms(1)])
  show ?thesis using ready_size [OF d assms(2,3)] block_size_positive [OF m] assms(4) by (auto simp: min_def split: if_splits)
qed

lemma read_eof_good:
  assumes good: "tf_good heap content s" and b: "tf_blocks s = (first_node s, b) # rest" "b_ready b" "db_size (b_data b) = 0"
  shows "tf_good heap content (s\<lparr>tf_read_eof := True\<rparr>)"
proof -
  have inv: "tf_inv heap content s" and srv: "serving s" and fo: "front_only s" using good by (auto simp: tf_good_def)
  obtain q t where i: "memory_ok heap s" "nodes_ok content s" "data_ok content s" "flags_ok s" "tasks_at s q t" "workers_ok content t s"
    by (rule tf_invE [OF inv])
  let ?s = "s\<lparr>tf_read_eof := True\<rparr>"
  have same: "unread ?s p = unread s p" "read_part content ?s p k = read_part content s p k" "troubled ?s = troubled s"
    "first_node ?s = first_node s" "owned_blocks ?s = owned_blocks s" "end_seen ?s" for p k
    by (auto simp: unread_def read_part_def troubled_def first_node_def owned_blocks_def end_seen_def)
  have "worker_ok content t ?s ph pos" if "worker_ok content t s ph pos" for ph pos
    using that same by (cases ph) (auto split: if_splits)
  then have "workers_ok content t ?s" using i(6) by (auto simp: workers_ok_def same)
  moreover have "length content \<le> first_node s * tf_block_size s" using empty_block_at_end [OF inv _ b(2,3)] b(1) by simp
  then have "nodes_ok content ?s" using i(2) by (simp add: nodes_ok_def same)
  moreover have "memory_ok heap ?s" "data_ok content ?s" "flags_ok ?s" "tasks_at ?s q t"
    using i by (auto simp: memory_ok_def data_ok_def flags_ok_def tasks_at_def same)
  ultimately have "tf_inv heap content ?s" by (intro tf_invI)
  moreover have "serving ?s" "front_only ?s" using srv fo by (simp_all add: serving_def same front_only_def)
  ultimately show ?thesis by (simp add: tf_good_def)
qed

lemma first_node_hd:
  assumes "nodes_ok content s" "tf_blocks s = (p, b) # rest"
  shows "p = first_node s"
proof -
  have "p # map fst rest = [first_node s ..< tf_next_node s]" using assms by (simp add: nodes_ok_def)
  then show ?thesis by (metis hd_upt list.distinct(1) list.sel(1) upt_eq_Nil_conv not_le)
qed

lemma front_call_ok:
  assumes good: "tf_good heap content s" and call: "front_call heap content s r s'"
  shows "tf_good heap content s' \<and> calm s s' \<and> length (tf_blocks s') = length (tf_blocks s) \<and>
    (case r of
       Inl e \<Rightarrow> tf_worker_exception s' = Some e \<and> tf_has_exception s'
     | Inr None \<Rightarrow> s' = s \<and> (tf_blocks s = [] \<or> tf_read_eof s)
     | Inr (Some b) \<Rightarrow> \<not> tf_has_exception s' \<and> b_ready b \<and>
         (\<exists>rest. tf_blocks s' = (first_node s', b) # rest) \<and> (db_size (b_data b) = 0 \<longrightarrow> tf_read_eof s'))"
proof -
  have exc: "\<exists>e. tf_worker_exception s = Some e \<and> handle_exception s = Inl e" if "tf_good heap content s" "tf_has_exception s" for s
    using that by (auto simp: tf_good_def flags_ok_def handle_exception_def elim!: tf_invE)
  from call show ?thesis
  proof cases
    case (front_throws e)
    then have "tf_has_exception s" by (auto simp: front_begin_def handle_exception_def split: if_splits)
    then show ?thesis using front_throws exc [OF good] good by (auto simp: front_begin_def calm_def)
  next
    case front_null
    then show ?thesis using good by (auto simp: front_begin_def calm_def)
  next
    case (front_block s1 s2 r0)
    note k1 = tf_steps_good [OF front_block(3) good]
    note k2 = tf_steps_good [OF front_block(5) conjunct1 [OF k1]]
    note c1 = main_kept_calm [OF conjunct2 [OF k1]] and c2 = main_kept_calm [OF conjunct2 [OF k2]]
    note c = calm_trans [OF c1(1) c2(1)]
    have good2: "tf_good heap content s2" using k2 by simp
    obtain q t where i: "nodes_ok content s2" "data_ok content s2"
      using good2 by (auto simp: tf_good_def elim!: tf_invE)
    have "tf_blocks s \<noteq> []" using front_block(2) by (auto simp: front_begin_def)
    then have "tf_blocks s1 \<noteq> []" "tf_blocks s2 \<noteq> []" using c1(2) c2(2) by (metis length_0_conv)+
    then obtain x1 b1 rest1 p b rest where b1: "tf_blocks s1 = (x1, b1) # rest1" and b: "tf_blocks s2 = (p, b) # rest"
      by (metis list.exhaust surj_pair)
    have p: "p = first_node s2" by (rule first_node_hd [OF i(1) b])
    show ?thesis
    proof (cases "tf_has_exception s2")
      case True
      then show ?thesis using exc [OF good2 True] front_block c c1(2) c2(2) good2 by (auto simp: front_end_def)
    next
      case False
      then have "b_ready b1" using front_block(4) b1 c2(6) by (auto simp: front_wakes_def)
      moreover have "node_kept (x1, b1) (p, b)"
        using conjunct2 [OF k2] b1 b by (simp add: main_kept_def)
      ultimately have ready: "b_ready b" by (simp add: block_kept_def)
      then have e: "s' = (if 0 = db_size (b_data b) then s2\<lparr>tf_read_eof := True\<rparr> else s2)" "r = Inr (Some b)"
        using front_block False b by (auto simp: front_end_def handle_exception_def)
      have "tf_good heap content s'" using good2 read_eof_good [OF good2, of b rest] b p ready by (simp add: e(1))
      moreover have "calm s2 s'" "tf_blocks s' = tf_blocks s2" "tf_has_exception s' = tf_has_exception s2" "first_node s' = first_node s2"
        by (auto simp: e(1) calm_def tf_consumed_def first_node_def)
      moreover have "db_size (b_data b) = 0 \<longrightarrow> tf_read_eof s'" by (simp add: e(1))
      ultimately show ?thesis using e(2) ready False b p c c1(2) c2(2) calm_trans by auto
    qed
  qed
qed

lemma pop_good:
  assumes good: "tf_good heap content s" and b: "tf_blocks s = (p, b) # rest" "b_ready b" "db_size (b_data b) = 0 \<longrightarrow> tf_read_eof s"
    and s1: "s1 = s\<lparr>tf_blocks := rest, tf_store := st, tf_held := h\<rparr>" "mem st = mem (tf_store s)" "memory_ok heap s1"
  shows "tf_good heap content s1 \<and> first_node s1 = first_node s + 1 \<and> tf_consumed s1 = 0"
proof -
  have inv: "tf_inv heap content s" and srv: "serving s" and fo: "front_only s" using good by (auto simp: tf_good_def)
  obtain q t where i: "memory_ok heap s" "nodes_ok content s" "data_ok content s" "flags_ok s" "tasks_at s q t" "workers_ok content t s"
    by (rule tf_invE [OF inv])
  have sel: "tf_blocks s1 = rest" "tf_workers s1 = tf_workers s" "tf_next_node s1 = tf_next_node s" by (simp_all add: s1)
  have p: "p = first_node s" by (rule first_node_hd [OF i(2) b(1)])
  have le: "Suc (length rest) \<le> tf_next_node s" using i(2) b(1) by (simp add: nodes_ok_def)
  then have f: "first_node s1 = first_node s + 1" using b(1) by (simp add: s1 first_node_def)
  have nodes: "map fst rest = [first_node s + 1 ..< tf_next_node s]"
    using i(2) b(1) p by (auto simp: nodes_ok_def upt_conv_Cons [of "first_node s"] simp del: upt_Suc dest: arg_cong [where f = tl])
  then have notin: "p \<notin> fst ` set rest" using p by (metis Suc_eq_plus1 atLeastLessThan_iff atLeastLessThan_upt image_set lessI not_le)
  have mo: "map_of (tf_blocks s1) r = (if r = p then None else map_of (tf_blocks s) r)" for r
    using b(1) notin by (auto simp: sel map_of_eq_None_iff)
  have np: "\<not> unread s p" using b by (simp add: unread_def)
  have un: "unread s1 r = unread s r" for r using np by (auto simp: unread_def mo)
  have rp: "read_part content s1 r k" if "read_part content s r k" for r k
    using that mo [of r] by (auto simp: read_part_def s1 split: if_splits)
  have es: "end_seen s \<Longrightarrow> end_seen s1" using b by (auto simp: end_seen_def s1)
  have tr: "troubled s1 = troubled s" by (simp add: troubled_def s1)
  have "nodes_ok content s1"
    using i(2) b(1) nodes f le unfolding nodes_ok_def by (auto simp: s1)
  moreover have "data_ok content s1" using i(3) b(1) by (auto simp: data_ok_def s1 block_bytes_def)
  moreover have "flags_ok s1" using i(4) es by (auto simp: flags_ok_def s1)
  moreover have "tasks_at s1 q t"
  proof -
    have "first_node s < t" using i(5) b(1,2) p by (auto simp: tasks_at_def)
    then show ?thesis using i(5) b(1) f by (auto simp: tasks_at_def s1)
  qed
  moreover have "workers_ok content t s1"
  proof -
    have "worker_ok content t s1 ph pos" if "worker_ok content t s ph pos" for ph pos
      using that un rp es by (cases ph) (auto simp: s1 split: if_splits)
    then show ?thesis using i(6) un tr by (auto simp: workers_ok_def s1)
  qed
  ultimately have "tf_inv heap content s1" using s1(3) by (intro tf_invI)
  moreover have "serving s1" using srv es tr by (auto simp: serving_def s1)
  moreover have "front_only s1" "tf_consumed s1 = 0"
    using fo b(1) by (cases rest; auto simp: front_only_def tf_consumed_def s1)+
  ultimately show ?thesis using f by (simp add: tf_good_def)
qed

lemma hand_over_good:
  assumes good: "tf_good heap content s" and b: "tf_blocks s = (p, b) # rest" "b_ready b" "db_size (b_data b) = 0 \<longrightarrow> tf_read_eof s"
  shows "tf_good heap content (hand_over (b_data b) s) \<and> first_node (hand_over (b_data b) s) = first_node s + 1 \<and>
    tf_consumed (hand_over (b_data b) s) = 0"
proof -
  have inv: "tf_inv heap content s" using good by (auto simp: tf_good_def)
  obtain q t where i: "memory_ok heap s" "data_ok content s" by (rule tf_invE [OF inv])
  let ?s = "hand_over (b_data b) s"
  have len: "db_size (b_data b) \<le> tf_block_size s" using ready_size [OF i(2) _ b(2), of p] b(1) by simp
  have "memory_ok heap ?s"
    using i(1) b(1) len by (auto simp: memory_ok_def hand_over_def pop_node_def owned_blocks_def block_bytes_def)
  then show ?thesis
    using b by (intro pop_good [OF good b(1), where st = "tf_store s" and h = "(db_memory (b_data b), block_bytes (tf_store s) (b_data b)) # tf_held s"])
      (auto simp: hand_over_def pop_node_def)
qed

section \<open>Extraction\<close>

text \<open>The number of bytes that have been delivered.\<close>

definition tf_pos :: "threaded_file \<Rightarrow> nat" where
  "tf_pos s = first_node s * tf_block_size s + tf_consumed s"

definition same_setup :: "threaded_file \<Rightarrow> threaded_file \<Rightarrow> bool" where
  "same_setup s s' \<longleftrightarrow> tf_threads s' = tf_threads s \<and> tf_max_memory s' = tf_max_memory s \<and> tf_compressed s' = tf_compressed s \<and>
     tf_file_size s' = tf_file_size s \<and> tf_block_size s' = tf_block_size s"

lemma same_setup_trans: "same_setup s s1 \<Longrightarrow> same_setup s1 s2 \<Longrightarrow> same_setup s s2"
  by (simp add: same_setup_def)

lemma calm_setup: "calm s s' \<Longrightarrow> same_setup s s'"
  by (simp add: calm_def same_setup_def)

lemma calm_pos: "calm s s' \<Longrightarrow> tf_pos s' = tf_pos s"
  by (simp add: calm_def tf_pos_def)

lemma hand_over_setup: "same_setup s (hand_over d s)" "tf_blocks (hand_over d s) = tl (tf_blocks s)"
  "tf_held (hand_over d s) = (db_memory d, block_bytes (tf_store s) d) # tf_held s"
  by (simp_all add: same_setup_def hand_over_def pop_node_def)

text \<open>The null pointer comes only at the end.\<close>

lemma front_null_at_end:
  assumes good: "tf_good heap content s" and sup: "supplied s"
    and sched: "schedule_if heap content (tf_compressed s) True s (Inr ()) s1"
    and null: "tf_blocks s1 = [] \<or> tf_read_eof s1"
  shows "length content \<le> tf_pos s"
proof -
  have k: "tf_good heap content s1" "calm s s1"
    "tf_compressed s \<Longrightarrow> tf_blocks s1 = [] \<Longrightarrow> end_seen s1"
    using schedule_if_ok [OF good sched] by auto
  have inv: "tf_inv heap content s1" using k(1) by (simp add: tf_good_def)
  obtain n: "nodes_ok content s1" by (rule tf_invE [OF inv])
  have "length content \<le> first_node s1 * tf_block_size s1"
  proof (cases "tf_read_eof s1")
    case True
    then show ?thesis using n by (simp add: nodes_ok_def)
  next
    case False
    then have e: "tf_blocks s1 = []" using null by simp
    show ?thesis
    proof (cases "tf_compressed s")
      case True
      then show ?thesis using k(3) e end_seen_offset(2) [OF inv] False by blast
    next
      case raw: False
      then have "s1 = s" using sched by (auto elim: schedule_if.cases)
      then show ?thesis using sup raw e n by (auto simp: supplied_def nodes_ok_def first_node_def)
    qed
  qed
  then show ?thesis using k(2) by (simp add: tf_pos_def calm_def)
qed

lemma first_block_bytes:
  assumes "tf_good heap content s" "tf_blocks s = (first_node s, b) # rest" "b_ready b"
  shows "block_bytes (tf_store s) (b_data b) = substr content (first_node s * tf_block_size s) (tf_block_size s)"
    "tf_consumed s = b_consumed b" "b_consumed b = 0 \<or> b_consumed b < db_size (b_data b)"
  using assms by (auto simp: tf_good_def data_ok_def tf_consumed_def elim!: tf_invE split: if_splits)

lemma extract_call_ok:
  assumes good: "tf_good heap content s" and sup: "supplied s" and c0: "tf_consumed s = 0" and call: "extract_call heap content s r s'"
  shows "tf_good heap content s' \<and> same_setup s s' \<and> tf_consumed s' = 0 \<and>
    (\<not> tf_compressed s \<longrightarrow> length (tf_blocks s') \<le> length (tf_blocks s)) \<and>
    (case r of
       Inl e \<Rightarrow> e = Bad_alloc \<or> tf_worker_exception s' = Some e \<and> tf_has_exception s'
     | Inr d \<Rightarrow> supplied s' \<and>
         (let bytes = substr content (tf_pos s) (tf_block_size s)
          in db_size d = length bytes \<and> take (tf_pos s') content = take (tf_pos s) content @ bytes \<and>
             (bytes = [] \<longrightarrow> length content \<le> tf_pos s) \<and>
             (d = \<lparr>db_memory = 0, db_size = 0\<rparr> \<and> tf_held s' = tf_held s \<or>
              tf_held s' = (db_memory d, bytes) # tf_held s)))"
  using call
proof cases
  case (extract_no_block e)
  note k = schedule_if_ok [OF good extract_no_block(2)]
  have "\<not> tf_compressed s \<Longrightarrow> s' = s" using extract_no_block(2) by (auto elim: schedule_if.cases)
  then show ?thesis using k extract_no_block calm_setup c0 by (auto simp: calm_def same_setup_def)
next
  case (extract_throws s1 e)
  note k = schedule_if_ok [OF good extract_throws(2)]
  have "\<not> tf_compressed s \<Longrightarrow> s1 = s" using extract_throws(2) by (auto elim: schedule_if.cases)
  then show ?thesis using k front_call_ok [OF _ extract_throws(3)] extract_throws(1) c0 by (auto simp: calm_def same_setup_def)
next
  case (extract_null s1)
  note k = schedule_if_ok [OF good extract_null(2)]
  note f = front_call_ok [OF conjunct1 [OF k] extract_null(3)]
  have raw: "\<not> tf_compressed s \<Longrightarrow> s1 = s" using extract_null(2) by (auto elim: schedule_if.cases)
  have e: "length content \<le> tf_pos s" using front_null_at_end [OF good sup extract_null(2)] f by auto
  have "s' = s1" "calm s s1" using f k by auto
  then show ?thesis using k f e extract_null(1) raw sup c0 calm_pos [of s s1]
    by (auto simp: calm_def same_setup_def supplied_def)
next
  case (extract_block s1 b s2 r0)
  note k = schedule_if_ok [OF good extract_block(2)]
  note f = front_call_ok [OF conjunct1 [OF k] extract_block(3)]
  obtain rest where b: "tf_blocks s2 = (first_node s2, b) # rest" "b_ready b" "db_size (b_data b) = 0 \<longrightarrow> tf_read_eof s2"
    using f by auto
  have good2: "tf_good heap content s2" and calm2: "calm s s2" using f k calm_trans by auto
  note h = hand_over_good [OF good2 b]
  let ?h = "hand_over (b_data b) s2"
  have cmp: "tf_compressed ?h = tf_compressed s" using calm2 hand_over_setup(1) by (simp add: calm_def same_setup_def)
  note m = schedule_if_ok [OF conjunct1 [OF h] extract_block(4)]
  have bytes: "block_bytes (tf_store s2) (b_data b) = substr content (tf_pos s) (tf_block_size s)"
    using first_block_bytes [OF good2 b(1,2)] calm2 c0 by (simp add: calm_def tf_pos_def)
  have pos: "tf_pos s' = tf_pos s + tf_block_size s" "tf_consumed s' = 0"
    using m h calm2 c0 hand_over_setup(1) [of s2] by (auto simp: calm_def tf_pos_def same_setup_def)
  have stup: "same_setup s s'" using m calm2 calm_setup hand_over_setup(1) same_setup_trans by blast
  have len: "length (tf_blocks s') \<le> length (tf_blocks s)" if "\<not> tf_compressed s"
  proof -
    have "s1 = s" using extract_block(2) that by (auto elim: schedule_if.cases)
    then show ?thesis using m f b(1) by (auto simp: hand_over_setup that)
  qed
  have sup': "supplied s'" if "r0 = Inr ()"
  proof (cases "tf_compressed s")
    case True
    then show ?thesis using stup by (simp add: supplied_def same_setup_def)
  next
    case False
    then show ?thesis using schedule_if_supplied [OF conjunct1 [OF h]] extract_block(4) that cmp by simp
  qed
  have held: "tf_held s' = (db_memory (b_data b), substr content (tf_pos s) (tf_block_size s)) # tf_held s"
    using m bytes hand_over_setup(3) [of "b_data b" s2] calm2 by (simp add: calm_def)
  have size: "db_size (b_data b) = length (substr content (tf_pos s) (tf_block_size s))"
    using bytes block_bytes_length by metis
  have bs: "0 < tf_block_size s" using good block_size_positive by (auto simp: tf_good_def elim!: tf_invE)
  have emp: "substr content (tf_pos s) (tf_block_size s) = [] \<longrightarrow> length content \<le> tf_pos s" using bs by auto
  have good': "tf_good heap content s'" and fails: "\<And>e. r0 = Inl e \<Longrightarrow> e = Bad_alloc" using m by auto
  show ?thesis
  proof (cases r0)
    case (Inl e)
    then show ?thesis using extract_block(1) good' fails stup pos(2) len by auto
  next
    case (Inr u)
    then have r: "r = Inr (b_data b)" and s': "supplied s'" using extract_block(1) sup' by simp_all
    have "take (tf_pos s') content = take (tf_pos s) content @ substr content (tf_pos s) (tf_block_size s)"
      unfolding pos(1) by (rule take_add)
    then show ?thesis unfolding r sum.case Let_def using good' stup pos(2) len held size emp s' by blast
  qed
qed

end
