(* ===== verification/Threaded_Calls.thy ===== *)
theory Threaded_Calls
  imports Threaded_Run
begin

text \<open>
  Reading bytes, opening the file, and the runs of a reader. \<open>read_call_ok\<close> and \<open>open_loop_ok\<close> are proved by induction on the calls, and
  \<open>tf_run_ok\<close> by induction on the run: the pieces that were delivered are the first bytes of the file.
\<close>

section \<open>Reading\<close>

lemma tf_good_block_size: "tf_good heap content s \<Longrightarrow> 0 < tf_block_size s"
  using block_size_positive by (auto simp: tf_good_def tf_inv_def)

lemma memory_ok_release:
  assumes mem: "memory_ok heap s" and b: "tf_blocks s = (p, b) # rest"
  obtains a where "free_block (db_memory (b_data b)) (pool (tf_store s)) = Inr a"
    "memory_ok heap (s\<lparr>tf_blocks := rest, tf_store := (tf_store s)\<lparr>pool := a\<rparr>\<rparr>)"
proof -
  let ?m = "db_memory (b_data b)" and ?st = "tf_store s"
  have m: "pool_state heap (pool ?st)" "?m \<in> used_blocks (pool ?st)" "?m \<notin> set (map (\<lambda>(p, b). db_memory (b_data b)) rest @ map fst (tf_held s))"
    using mem b by (auto simp: memory_ok_def owned_blocks_def)
  then obtain a where a: "free_block ?m (pool ?st) = Inr a" "pool_state heap a" "used_blocks a = used_blocks (pool ?st) - {?m}"
    using pool.release_ok by blast
  moreover have "m_block_size a = m_block_size (pool ?st)"
    using free_block_ok [of "pool ?st" ?m] m a(1) by (auto simp: pool_state_def)
  moreover have own: "owned_blocks s = ?m # (map (\<lambda>(p, b). db_memory (b_data b)) rest @ map fst (tf_held s))"
    using b by (simp add: owned_blocks_def)
  have "set (map (\<lambda>(p, b). db_memory (b_data b)) rest @ map fst (tf_held s)) \<subseteq> used_blocks (pool ?st) - {?m}"
    using m(3) mem unfolding memory_ok_def own list.set by blast
  moreover have "owned_blocks (s\<lparr>tf_blocks := rest, tf_store := ?st\<lparr>pool := a\<rparr>\<rparr>) =
      map (\<lambda>(p, b). db_memory (b_data b)) rest @ map fst (tf_held s)" by (simp add: owned_blocks_def)
  ultimately show ?thesis using mem unfolding memory_ok_def own by (intro that [OF a(1)]) (simp add: memory_ok_def)
qed

lemma consume_good:
  assumes good: "tf_good heap content s" and b: "tf_blocks s = (p, b) # rest" "b_ready b" and c: "c < db_size (b_data b)"
    and s1: "s1 = s\<lparr>tf_blocks := (p, b\<lparr>b_consumed := c\<rparr>) # rest\<rparr>"
  shows "tf_good heap content s1"
proof -
  have inv: "tf_inv heap content s" and srv: "serving s" and fo: "front_only s" using good by (auto simp: tf_good_def)
  obtain q t where i: "memory_ok heap s" "nodes_ok content s" "data_ok content s" "flags_ok s" "tasks_at s q t" "workers_ok content t s"
    by (rule tf_invE [OF inv])
  have f: "first_node s1 = first_node s" "owned_blocks s1 = owned_blocks s" using b(1) by (simp_all add: s1 first_node_def owned_blocks_def)
  have un: "unread s1 r = unread s r" "read_part content s1 r k = read_part content s r k" for r k
    using b by (auto simp: unread_def read_part_def s1)
  have es: "end_seen s1 = end_seen s" "troubled s1 = troubled s" using b(1) by (auto simp: end_seen_def troubled_def s1)
  have "worker_ok content t s1 ph pos = worker_ok content t s ph pos" for ph pos
    using un es by (cases ph) (auto simp: s1)
  then have "workers_ok content t s1" using i(6) un(1) es(2) by (auto simp: workers_ok_def s1)
  moreover have "memory_ok heap s1" using i(1) f(2) by (simp add: memory_ok_def s1)
  moreover have "nodes_ok content s1" using i(2) b(1) f(1) by (auto simp: nodes_ok_def s1)
  moreover have "data_ok content s1" using i(3) b c by (auto simp: data_ok_def s1)
  moreover have "flags_ok s1" using i(4) es by (simp add: flags_ok_def s1)
  moreover have "tasks_at s1 q t" using i(5) b f(1) by (auto simp: tasks_at_def s1)
  ultimately have "tf_inv heap content s1" by (intro tf_invI)
  moreover have "serving s1" "front_only s1" using srv fo es b(1) by (auto simp: serving_def front_only_def s1)
  ultimately show ?thesis by (simp add: tf_good_def)
qed

lemma read_turn_ok:
  assumes good: "tf_good heap content s" and b: "tf_blocks s = (first_node s, b) # rest" "b_ready b"
    "db_size (b_data b) = 0 \<longrightarrow> tf_read_eof s" and len: "0 < len"
  shows "read_turn len b s = Inr None \<and> length content \<le> tf_pos s \<or>
    (\<exists>out used s1. read_turn len b s = Inr (Some (out, used, s1)) \<and> tf_good heap content s1 \<and> same_setup s s1 \<and> tf_held s1 = tf_held s \<and>
       out \<noteq> [] \<and> length out \<le> len \<and> take (tf_pos s1) content = take (tf_pos s) content @ out \<and>
       length (tf_blocks s1) + (if used then 1 else 0) = length (tf_blocks s))"
proof -
  let ?size = "db_size (b_data b)" and ?c = "b_consumed b" and ?st = "tf_store s" and ?o = "first_node s * tf_block_size s"
  have inv: "tf_inv heap content s" using good by (simp add: tf_good_def)
  obtain mem: "memory_ok heap s" by (rule tf_invE [OF inv])
  note fb = first_block_bytes [OF good b(1,2)]
  define n where "n = min len (?size - ?c)"
  have sub: "size_sub ?size ?c = ?size - ?c" using fb(3) by (auto simp: size_sub_def)
  show ?thesis
  proof (cases "n = 0")
    case True
    then have "?size = 0" using fb(3) len by (auto simp: n_def)
    then have "length content \<le> ?o" using empty_block_at_end [OF inv _ b(2)] b(1) by simp
    then show ?thesis using True by (simp add: read_turn_def sub n_def [symmetric] tf_pos_def)
  next
    case False
    let ?from = "db_memory (b_data b) + ?c"
    let ?out = "map (mem ?st) [?from ..< ?from + n]" and ?b = "b\<lparr>b_consumed := ?c + n\<rparr>"
    have n: "?c + n \<le> ?size" "n \<le> len" using False by (auto simp: n_def)
    have "?out = take n (drop ?c (block_bytes ?st (b_data b)))"
      using n(1) by (auto simp: block_bytes_def list_eq_iff_nth_eq add.assoc)
    define B where "B = substr content ?o (tf_block_size s)"
    have out: "?out = take n (drop ?c B)" using \<open>?out = _\<close> fb(1) by (simp add: B_def)
    have size: "?size = length B" using fb(1) block_bytes_length unfolding B_def by metis
    have takes: "take (?o + k) content = take ?o content @ take k B" if "k \<le> ?size" for k
      using that size by (simp add: take_add min_absorb1 B_def)
    have delivered: "take (?o + (?c + n)) content = take (tf_pos s) content @ ?out"
      using takes [OF n(1)] takes [of ?c] n(1) unfolding out tf_pos_def fb(2) by (simp add: take_add)
    show ?thesis
    proof (cases "?c + n = ?size")
      case True
      obtain a where a: "free_block (db_memory (b_data b)) (pool ?st) = Inr a"
        "memory_ok heap (s\<lparr>tf_blocks := rest, tf_store := ?st\<lparr>pool := a\<rparr>\<rparr>)"
        by (rule memory_ok_release [OF mem b(1)])
      let ?s = "s\<lparr>tf_blocks := rest, tf_store := ?st\<lparr>pool := a\<rparr>\<rparr>"
      have p: "tf_good heap content ?s \<and> first_node ?s = first_node s + 1 \<and> tf_consumed ?s = 0"
        using a(2) by (intro pop_good [OF good b, where st = "?st\<lparr>pool := a\<rparr>" and h = "tf_held s"]) simp_all
      have "read_turn len b s = Inr (Some (?out, True, ?s))"
        using True False a(1) b(1) by (simp add: read_turn_def sub n_def [symmetric] Let_def use_up_def pop_node_def)
      moreover have "tf_pos ?s = ?o + tf_block_size s" using p by (simp add: tf_pos_def)
      then have "take (tf_pos ?s) content = take (tf_pos s) content @ ?out"
        using delivered takes [of ?size] take_add [of ?o "tf_block_size s" content] unfolding True B_def [symmetric] size by simp
      ultimately show ?thesis using p n False b(1) by (auto simp: same_setup_def)
    next
      case False
      let ?s = "s\<lparr>tf_blocks := (first_node s, ?b) # rest\<rparr>"
      have "read_turn len b s = Inr (Some (?out, False, ?s))"
        using False \<open>n \<noteq> 0\<close> b(1) by (simp add: read_turn_def sub n_def [symmetric] Let_def)
      moreover have "tf_good heap content ?s" using False n by (intro consume_good [OF good b(1,2), of "?c + n"]) auto
      moreover have "length (tf_blocks s) = Suc (length rest)" using b(1) by (metis length_Cons)
      then have "tf_pos ?s = ?o + (?c + n)" by (simp add: tf_pos_def first_node_def tf_consumed_def)
      ultimately show ?thesis using delivered n \<open>n \<noteq> 0\<close> b(1) by (auto simp: same_setup_def)
    qed
  qed
qed

lemma read_call_ok:
  assumes "read_call heap content len s r s'" "tf_good heap content s" "supplied s"
  shows "tf_good heap content s' \<and> same_setup s s' \<and> tf_held s' = tf_held s \<and>
    (\<not> tf_compressed s \<longrightarrow> length (tf_blocks s') \<le> length (tf_blocks s)) \<and>
    (case r of
       Inl e \<Rightarrow> e = Bad_alloc \<or> tf_worker_exception s' = Some e \<and> tf_has_exception s'
     | Inr out \<Rightarrow> supplied s' \<and> length out \<le> len \<and> take (tf_pos s') content = take (tf_pos s) content @ out \<and>
         (length out < len \<longrightarrow> length content \<le> tf_pos s'))"
  using assms
proof (induction rule: read_call.induct)
  case (read_end s)
  then show ?case by (simp add: same_setup_def)
next
  case (read_no_block len s e s1)
  note k = schedule_if_ok [OF read_no_block(3,2)]
  have "\<not> tf_compressed s \<Longrightarrow> s1 = s" using read_no_block(2) by (auto elim: schedule_if.cases)
  then show ?case using k by (auto simp: calm_def same_setup_def)
next
  case (read_throws len s s1 e s2)
  note k = schedule_if_ok [OF read_throws(4,2)]
  have "\<not> tf_compressed s \<Longrightarrow> s1 = s" using read_throws(2) by (auto elim: schedule_if.cases)
  then show ?case using k front_call_ok [OF _ read_throws(3)] by (auto simp: calm_def same_setup_def)
next
  case (read_null len s s1 s2)
  note k = schedule_if_ok [OF read_null(4,2)]
  note f = front_call_ok [OF conjunct1 [OF k] read_null(3)]
  have raw: "\<not> tf_compressed s \<Longrightarrow> s1 = s" using read_null(2) by (auto elim: schedule_if.cases)
  have e: "length content \<le> tf_pos s" using front_null_at_end [OF read_null(4,5,2)] f by auto
  have "s2 = s1" "calm s s1" using f k by auto
  then show ?case using k f e raw read_null(5) calm_pos [of s s1] by (auto simp: calm_def same_setup_def supplied_def)
next
  case (read_stops len s s1 b s2)
  note k = schedule_if_ok [OF read_stops(5,2)]
  note f = front_call_ok [OF conjunct1 [OF k] read_stops(3)]
  have raw: "\<not> tf_compressed s \<Longrightarrow> s1 = s" using read_stops(2) by (auto elim: schedule_if.cases)
  obtain rest where b: "tf_blocks s2 = (first_node s2, b) # rest" "b_ready b" "db_size (b_data b) = 0 \<longrightarrow> tf_read_eof s2"
    using f by auto
  have good2: "tf_good heap content s2" and calm2: "calm s s2" using f k calm_trans by auto
  have "length content \<le> tf_pos s2" using read_turn_ok [OF good2 b read_stops(1)] read_stops(4) by auto
  moreover have "supplied s2" using b(1) by (simp add: supplied_def)
  ultimately show ?case using good2 calm2 raw f calm_pos [OF calm2] by (auto simp: calm_def same_setup_def)
next
  case (read_turn_fails len s s1 b s2 e)
  note k = schedule_if_ok [OF read_turn_fails(5,2)]
  note f = front_call_ok [OF conjunct1 [OF k] read_turn_fails(3)]
  obtain rest where b: "tf_blocks s2 = (first_node s2, b) # rest" "b_ready b" "db_size (b_data b) = 0 \<longrightarrow> tf_read_eof s2"
    using f by auto
  have "tf_good heap content s2" using f by simp
  from read_turn_ok [OF this b read_turn_fails(1)] show ?case using read_turn_fails(4) by auto
next
  case (read_schedule_fails len s s1 b s2 out used s3 e s4)
  note k = schedule_if_ok [OF read_schedule_fails(6,2)]
  note f = front_call_ok [OF conjunct1 [OF k] read_schedule_fails(3)]
  have raw: "\<not> tf_compressed s \<Longrightarrow> s1 = s" using read_schedule_fails(2) by (auto elim: schedule_if.cases)
  obtain rest where b: "tf_blocks s2 = (first_node s2, b) # rest" "b_ready b" "db_size (b_data b) = 0 \<longrightarrow> tf_read_eof s2"
    using f by auto
  have good2: "tf_good heap content s2" and calm2: "calm s s2" using f k calm_trans by auto
  have t: "tf_good heap content s3" "same_setup s2 s3" "tf_held s3 = tf_held s2"
    "length (tf_blocks s3) + (if used then 1 else 0) = length (tf_blocks s2)"
    using read_turn_ok [OF good2 b read_schedule_fails(1)] read_schedule_fails(4) by auto
  have m: "tf_good heap content s4 \<and> calm s3 s4 \<and> e = Bad_alloc \<and> length (tf_blocks s4) \<le> length (tf_blocks s3) + (if used then 1 else 0)"
    using schedule_if_ok [OF t(1) read_schedule_fails(5)] by (auto split: if_splits)
  moreover have "same_setup s s4" using calm_setup calm2 t(2) m same_setup_trans by blast
  ultimately show ?case using t f raw calm2 by (auto simp: calm_def split: if_splits)
next
  case (read_more len s s1 b s2 out used s3 s4 r s5)
  note k = schedule_if_ok [OF read_more(8,2)]
  note f = front_call_ok [OF conjunct1 [OF k] read_more(3)]
  have raw: "\<not> tf_compressed s \<Longrightarrow> s1 = s" using read_more(2) by (auto elim: schedule_if.cases)
  obtain rest where b: "tf_blocks s2 = (first_node s2, b) # rest" "b_ready b" "db_size (b_data b) = 0 \<longrightarrow> tf_read_eof s2"
    using f by auto
  have good2: "tf_good heap content s2" and calm2: "calm s s2" using f k calm_trans by auto
  have t: "tf_good heap content s3" "same_setup s2 s3" "tf_held s3 = tf_held s2" "length out \<le> len"
    "length (tf_blocks s3) + (if used then 1 else 0) = length (tf_blocks s2)"
    "take (tf_pos s3) content = take (tf_pos s2) content @ out"
    using read_turn_ok [OF good2 b read_more(1)] read_more(4) by auto
  have m: "tf_good heap content s4" "calm s3 s4" "length (tf_blocks s4) \<le> length (tf_blocks s3) + (if used then 1 else 0)"
    using schedule_if_ok [OF t(1) read_more(5)] by (auto split: if_splits)
  have setup4: "same_setup s s4" using calm_setup calm2 t(2) m(2) same_setup_trans by blast
  have sup4: "supplied s4"
  proof (cases "tf_compressed s \<or> tf_blocks s3 \<noteq> []")
    case True
    then show ?thesis using setup4 m(2) by (auto simp: supplied_def same_setup_def calm_def)
  next
    case False
    then have "used" using t(5) b(1) by (auto split: if_splits)
    then show ?thesis using schedule_if_supplied [OF t(1)] read_more(5) False t(2) calm2 by (simp add: same_setup_def calm_def)
  qed
  note ih = read_more.IH [OF m(1) sup4]
  have "take (tf_pos s4) content = take (tf_pos s) content @ out" using t(6) calm_pos [OF m(2)] calm_pos [OF calm2] by simp
  moreover have "same_setup s s5" using ih setup4 same_setup_trans by blast
  moreover have "tf_held s5 = tf_held s" using ih m(2) t(3) calm2 by (simp add: calm_def)
  moreover have "\<not> tf_compressed s \<Longrightarrow> length (tf_blocks s5) \<le> length (tf_blocks s)"
    using ih setup4 m(3) t(5) f raw by (auto simp: same_setup_def split: if_splits)
  ultimately show ?case using ih t(4) by (cases r) auto
qed

section \<open>Opening\<close>

text \<open>A new object, for a file with this content. A compressed file is read by one thread; the size of any other file is that of its content.\<close>

definition fresh_file :: "heap \<Rightarrow> string \<Rightarrow> threaded_file \<Rightarrow> bool" where
  "fresh_file heap content s \<longleftrightarrow>
     (\<exists>cfg st n compressed. cfg_allocator cfg = Some st \<and> new_threaded_file cfg (Inr (n, compressed)) = Inr s \<and>
        pool_state heap (pool st) \<and> 2 * m_block_size (pool st) \<le> 2 ^ 64 \<and>
        (if compressed then cfg_threads cfg = 1 else n = length content))"

lemma fresh_file_opened:
  assumes "fresh_file heap content s"
  shows "tf_good heap content (open_begin s)" "tf_blocks (open_begin s) = []" "tf_pos (open_begin s) = 0"
    "tf_block_size s \<le> tf_max_memory s" "same_setup s (open_begin s)" "tf_held (open_begin s) = []"
proof -
  obtain cfg st n c where f: "cfg_allocator cfg = Some st" "new_threaded_file cfg (Inr (n, c)) = Inr s"
    "pool_state heap (pool st)" "2 * m_block_size (pool st) \<le> 2 ^ 64" "if c then cfg_threads cfg = 1 else n = length content"
    using assms by (auto simp: fresh_file_def)
  have e: "s = \<lparr>tf_path = cfg_path cfg, tf_threads = cfg_threads cfg, tf_max_memory = cfg_max_memory cfg,
      tf_is_open = False, tf_compressed = c, tf_file_size = n, tf_offset = 0, tf_eof = False, tf_read_eof = False, tf_blocks = [],
      tf_next_node = 0, tf_block_size = m_block_size (pool st), tf_workers = [], tf_tasks = None, tf_has_exception = False,
      tf_worker_exception = None, tf_exception_is_set = False, tf_store = st, tf_held = []\<rparr>"
    and t: "0 < cfg_threads cfg" "m_block_size (pool st) \<le> cfg_max_memory cfg"
    using f(1,2) by (auto simp: new_threaded_file_def split: if_splits)
  let ?s = "open_begin s"
  have "memory_ok heap ?s" using f by (simp add: memory_ok_def open_begin_def e owned_blocks_def)
  moreover have "nodes_ok content ?s" using f(5) by (simp add: nodes_ok_def open_begin_def e first_node_def)
  moreover have "data_ok content ?s" "flags_ok ?s" by (simp_all add: data_ok_def flags_ok_def open_begin_def e)
  moreover have "tasks_at ?s (new_queue 0) 0" by (simp add: tasks_at_def open_begin_def e first_node_def new_queue_tasks)
  moreover have "workers_ok content 0 ?s" using f(5) t by (auto simp: workers_ok_def open_begin_def e)
  ultimately have "tf_inv heap content ?s" by (intro tf_invI)
  moreover have "serving ?s" "front_only ?s" by (simp_all add: serving_def front_only_def open_begin_def e new_queue_tasks)
  ultimately show "tf_good heap content ?s" by (simp add: tf_good_def)
  show "tf_blocks ?s = []" "tf_pos ?s = 0" "tf_block_size s \<le> tf_max_memory s" "same_setup s ?s" "tf_held ?s = []"
    using t by (simp_all add: open_begin_def e tf_pos_def first_node_def tf_consumed_def same_setup_def)
qed

lemma open_loop_ok:
  assumes "open_loop heap content allocated s r s'" "tf_good heap content s" "allocated = length (tf_blocks s) * tf_block_size s"
    "allocated < tf_max_memory s + tf_block_size s" "0 < tf_max_memory s"
  shows "tf_good heap content s' \<and> same_setup s s' \<and> tf_pos s' = tf_pos s \<and> tf_held s' = tf_held s \<and>
    length (tf_blocks s') * tf_block_size s < tf_max_memory s + tf_block_size s \<and> (r = Inr () \<longrightarrow> supplied s')"
  using assms
proof (induction rule: open_loop.induct)
  case (open_enough allocated s)
  then show ?case by (auto simp: supplied_def same_setup_def)
next
  case (open_next allocated s s1 r s2)
  note k = schedule_call_ok [OF open_next(5,2)]
  have c: "calm s s1" and len: "length (tf_blocks s1) = length (tf_blocks s) + 1" using k by auto
  then have "allocated + tf_block_size s1 = length (tf_blocks s1) * tf_block_size s1"
    "allocated + tf_block_size s1 < tf_max_memory s1 + tf_block_size s1" "0 < tf_max_memory s1"
    using open_next(1,6,8) by (auto simp: calm_def)
  note ih = open_next.IH [OF conjunct1 [OF k] this]
  then show ?case using c calm_setup [OF c] same_setup_trans calm_pos [OF c] by (auto simp: calm_def)
next
  case (open_all allocated s s1)
  note k = schedule_call_ok [OF open_all(3,2)]
  have "\<not> tf_compressed s1 \<Longrightarrow> tf_blocks s1 = [] \<Longrightarrow> tf_file_size s1 \<le> tf_offset s1"
    using k tf_good_raw [of heap content s1] end_seen_offset [of heap content s1] by (auto simp: tf_good_def)
  then have "supplied s1" by (simp add: supplied_def)
  then show ?case using k open_all calm_setup calm_pos [of s s1] by (auto simp: calm_def)
next
  case (open_throws allocated s e s1)
  note k = schedule_call_ok [OF open_throws(3,2)]
  then show ?case using open_throws calm_setup calm_pos [of s s1] by (auto simp: calm_def)
qed

section \<open>Runs\<close>

text \<open>The file is opened, the caller extracts blocks or reads bytes, and releases extracted blocks at any time; the pieces
  it gets are collected. It does not extract a block that was read in part, of which it would get the first bytes again.\<close>

inductive tf_run :: "heap \<Rightarrow> string \<Rightarrow> threaded_file \<Rightarrow> string list \<Rightarrow> threaded_file \<Rightarrow> bool" for heap content s0 where
  run_open: "open_call heap content True s0 (Inr ()) s \<Longrightarrow> tf_run heap content s0 [] s"
| run_steps: "tf_run heap content s0 outs s \<Longrightarrow> tf_steps heap content s s' \<Longrightarrow> tf_run heap content s0 outs s'"
| run_extract: "tf_run heap content s0 outs s \<Longrightarrow> tf_consumed s = 0 \<Longrightarrow> extract_call heap content s (Inr d) s' \<Longrightarrow>
    tf_run heap content s0 (outs @ [block_bytes (tf_store s') d]) s'"
| run_read: "tf_run heap content s0 outs s \<Longrightarrow> 0 < len \<Longrightarrow> read_call heap content len s (Inr out) s' \<Longrightarrow>
    tf_run heap content s0 (outs @ [out]) s'"
| run_drop: "tf_run heap content s0 outs s \<Longrightarrow> tf_held s = xs @ (a, bytes) # ys \<Longrightarrow>
    drop_block \<lparr>db_memory = a, db_size = length bytes\<rparr> (tf_store s) = Inr st \<Longrightarrow>
    tf_run heap content s0 outs (s\<lparr>tf_store := st, tf_held := xs @ ys\<rparr>)"

definition run_ok :: "heap \<Rightarrow> string \<Rightarrow> threaded_file \<Rightarrow> string list \<Rightarrow> threaded_file \<Rightarrow> bool" where
  "run_ok heap content s0 outs s \<longleftrightarrow>
     tf_good heap content s \<and> supplied s \<and> same_setup s0 s \<and> concat outs = take (tf_pos s) content \<and>
     ([] \<in> set outs \<longrightarrow> length content \<le> tf_pos s) \<and>
     (\<not> tf_compressed s \<longrightarrow> length (tf_blocks s) * tf_block_size s < tf_max_memory s + tf_block_size s)"

lemma held_bytes: "tf_good heap content s \<Longrightarrow> (a, bytes) \<in> set (tf_held s) \<Longrightarrow> map (mem (tf_store s)) [a ..< a + length bytes] = bytes"
  by (auto simp: tf_good_def memory_ok_def elim!: tf_invE)

lemma run_ok_deliver:
  assumes "run_ok heap content s0 outs s" "tf_good heap content s'" "supplied s'" "same_setup s s'"
    "take (tf_pos s') content = take (tf_pos s) content @ out" "out = [] \<longrightarrow> length content \<le> tf_pos s"
    "\<not> tf_compressed s \<longrightarrow> length (tf_blocks s') \<le> length (tf_blocks s)"
  shows "run_ok heap content s0 (outs @ [out]) s'"
proof -
  have "length content \<le> tf_pos s'" if "[] \<in> set (outs @ [out])"
  proof -
    have t: "length content \<le> tf_pos s" using assms(1,6) that by (auto simp: run_ok_def)
    then have "length (take (tf_pos s') content) = length content + length out" using assms(5) by simp
    then show ?thesis by simp
  qed
  moreover have "length (tf_blocks s') * tf_block_size s' < tf_max_memory s' + tf_block_size s'" if "\<not> tf_compressed s'"
  proof -
    have "length (tf_blocks s') \<le> length (tf_blocks s)"
      "length (tf_blocks s) * tf_block_size s < tf_max_memory s + tf_block_size s"
      using that assms(1,4,7) unfolding run_ok_def same_setup_def by metis+
    then have "length (tf_blocks s') * tf_block_size s < tf_max_memory s + tf_block_size s"
      by (meson le_less_trans mult_le_mono1)
    then show ?thesis using assms(4) by (simp add: same_setup_def)
  qed
  moreover have "same_setup s0 s'" using assms(1,4) same_setup_trans by (auto simp: run_ok_def)
  ultimately show ?thesis using assms(1-3,5) by (simp add: run_ok_def)
qed

lemma drop_good:
  assumes good: "tf_good heap content s" and held: "tf_held s = xs @ (a, bytes) # ys"
    and drop: "drop_block \<lparr>db_memory = a, db_size = length bytes\<rparr> (tf_store s) = Inr st"
  shows "tf_good heap content (s\<lparr>tf_store := st, tf_held := xs @ ys\<rparr>)"
proof -
  have inv: "tf_inv heap content s" and srv: "serving s" and fo: "front_only s" using good by (auto simp: tf_good_def)
  obtain q t where i: "memory_ok heap s" "nodes_ok content s" "data_ok content s" "flags_ok s" "tasks_at s q t" "workers_ok content t s"
    by (rule tf_invE [OF inv])
  let ?s = "s\<lparr>tf_store := st, tf_held := xs @ ys\<rparr>"
  have mem: "mem st = mem (tf_store s)" using drop by (auto simp: drop_block_def split: if_splits)
  have a: "a \<in> used_blocks (pool (tf_store s))" "pool_state heap (pool (tf_store s))"
    using i(1) held by (auto simp: memory_ok_def owned_blocks_def)
  obtain p where free: "free_block a (pool (tf_store s)) = Inr p" "pool_state heap p" "used_blocks p = used_blocks (pool (tf_store s)) - {a}"
    using pool.release_ok [OF a(2,1)] by blast
  moreover have "pool st = (if a = 0 then pool (tf_store s) else p)"
    using drop free(1) by (cases "a = 0") (auto simp: drop_block_def)
  moreover have "m_block_size p = m_block_size (pool (tf_store s))" using free(1)
    using free_block_ok [of "pool (tf_store s)" a] a unfolding pool_state_def by (metis sum.inject(2))
  ultimately have p: "pool_state heap (pool st) \<and> m_block_size (pool st) = m_block_size (pool (tf_store s)) \<and>
      used_blocks (pool (tf_store s)) - {a} \<subseteq> used_blocks (pool st)"
    using a(2) by (cases "a = 0") simp_all
  have own: "a \<notin> set (owned_blocks ?s)" "set (owned_blocks ?s) \<subseteq> set (owned_blocks s)" "distinct (owned_blocks ?s)"
    using i(1) held by (auto simp: memory_ok_def owned_blocks_def)
  have "set (owned_blocks ?s) \<subseteq> used_blocks (pool st)" using own(1,2) p i(1) unfolding memory_ok_def by blast
  then have "memory_ok heap ?s" using i(1) p held mem own(3) by (auto simp: memory_ok_def)
  moreover have same: "unread ?s r = unread s r" "read_part content ?s r k = read_part content s r k" "troubled ?s = troubled s"
    "end_seen ?s = end_seen s" "first_node ?s = first_node s" for r k
    by (auto simp: unread_def read_part_def troubled_def end_seen_def first_node_def mem)
  have "worker_ok content t ?s ph pos = worker_ok content t s ph pos" for ph pos using same by (cases ph) auto
  then have "workers_ok content t ?s" using i(6) same by (auto simp: workers_ok_def)
  moreover have bb: "block_bytes st d = block_bytes (tf_store s) d" for d by (simp add: block_bytes_def mem)
  have "nodes_ok content ?s" using i(2) same(5) by (simp add: nodes_ok_def)
  moreover have "data_ok content ?s" using i(3) by (auto simp: data_ok_def bb)
  moreover have "flags_ok ?s" using i(4) same(4) by (simp add: flags_ok_def)
  moreover have "tasks_at ?s q t" using i(5) same(5) by (simp add: tasks_at_def)
  ultimately have "tf_inv heap content ?s" by (intro tf_invI)
  moreover have "serving ?s" "front_only ?s" using srv fo same by (auto simp: serving_def front_only_def)
  ultimately show ?thesis by (simp add: tf_good_def)
qed

lemma tf_run_ok:
  assumes "tf_run heap content s0 outs s" "fresh_file heap content s0"
  shows "run_ok heap content s0 outs s"
  using assms
proof (induction rule: tf_run.induct)
  case (run_open s)
  note o = fresh_file_opened [OF run_open(2)]
  have loop: "open_loop heap content 0 (open_begin s0) (Inr ()) s" using run_open(1) by (auto elim: open_call.cases)
  have "0 < tf_block_size s0" using tf_good_block_size [OF o(1)] o(5) by (simp add: same_setup_def)
  then show ?case using open_loop_ok [OF loop o(1)] o(2-5) same_setup_trans by (auto simp: run_ok_def same_setup_def)
next
  case (run_steps outs s s')
  then have ok: "run_ok heap content s0 outs s" by blast
  then have k: "tf_good heap content s'" "main_kept s s'" using tf_steps_good [OF run_steps(2)] by (auto simp: run_ok_def)
  note c = main_kept_calm [OF k(2)]
  have "supplied s'" using ok c by (auto simp: run_ok_def supplied_def calm_def)
  then show ?case using ok k(1) c calm_pos [OF c(1)] by (auto simp: run_ok_def same_setup_def calm_def)
next
  case (run_extract outs s d s')
  then have ok: "run_ok heap content s0 outs s" by blast
  let ?bytes = "substr content (tf_pos s) (tf_block_size s)"
  have k: "tf_good heap content s'" "same_setup s s'" "supplied s'" "db_size d = length ?bytes"
    "take (tf_pos s') content = take (tf_pos s) content @ ?bytes" "?bytes = [] \<longrightarrow> length content \<le> tf_pos s"
    "\<not> tf_compressed s \<longrightarrow> length (tf_blocks s') \<le> length (tf_blocks s)"
    "d = \<lparr>db_memory = 0, db_size = 0\<rparr> \<or> tf_held s' = (db_memory d, ?bytes) # tf_held s"
    using extract_call_ok [OF _ _ run_extract(2,3)] ok by (auto simp: run_ok_def Let_def)
  have "block_bytes (tf_store s') d = ?bytes"
  proof (cases "d = \<lparr>db_memory = 0, db_size = 0\<rparr>")
    case True
    then have "length ?bytes = 0" using k(4) by simp
    then show ?thesis using True by (simp only: block_bytes_def length_0_conv) simp
  next
    case False
    then have "(db_memory d, ?bytes) \<in> set (tf_held s')" using k(8) by simp
    from held_bytes [OF k(1) this] show ?thesis using k(4) by (simp add: block_bytes_def)
  qed
  then show ?case using run_ok_deliver [OF ok k(1,3,2,5,6,7)] by simp
next
  case (run_read outs s len out s')
  then have ok: "run_ok heap content s0 outs s" by blast
  have k: "tf_good heap content s'" "same_setup s s'" "supplied s'" "length out \<le> len"
    "take (tf_pos s') content = take (tf_pos s) content @ out" "length out < len \<longrightarrow> length content \<le> tf_pos s'"
    "\<not> tf_compressed s \<longrightarrow> length (tf_blocks s') \<le> length (tf_blocks s)"
    using read_call_ok [OF run_read(3)] ok by (auto simp: run_ok_def)
  have "out = [] \<longrightarrow> length content \<le> tf_pos s" using k(5,6) run_read(2) by (auto dest: arg_cong [where f = length])
  then show ?case using run_ok_deliver [OF ok k(1,3,2,5) _ k(7)] by simp
next
  case (run_drop outs s xs a bytes ys st)
  then have ok: "run_ok heap content s0 outs s" by blast
  let ?s = "s\<lparr>tf_store := st, tf_held := xs @ ys\<rparr>"
  have "tf_good heap content ?s" using drop_good [OF _ run_drop(2,3)] ok by (simp add: run_ok_def)
  moreover have "supplied ?s = supplied s" "tf_pos ?s = tf_pos s" "same_setup s ?s"
    by (simp_all add: supplied_def tf_pos_def first_node_def tf_consumed_def same_setup_def)
  ultimately show ?case using ok same_setup_trans by (auto simp: run_ok_def)
qed

end
