(* ===== verification/Threaded_Progress.thy ===== *)
theory Threaded_Progress
  imports Threaded_Calls
begin

text \<open>
  Progress: a number that every step of a worker makes smaller (\<open>tf_work\<close>), the proof that some worker can move while the reader waits for its
  block (\<open>waiting_moves\<close>) and while the file is being closed (\<open>join_moves\<close>), and the release of the blocks at the end.
\<close>

section \<open>The work that is left\<close>

text \<open>Every step of a worker makes this number smaller.\<close>

fun phase_work :: "nat \<Rightarrow> worker_phase \<Rightarrow> nat" where
  "phase_work n Starting = 5"
| "phase_work n Waiting = 4"
| "phase_work n (Seeking p) = 7 + n"
| "phase_work n (Reading p bytes) = 6 + (n - bytes)"
| "phase_work n (Published bytes) = 5"
| "phase_work n Closing = 3"
| "phase_work n (Raising e) = 2"
| "phase_work n (Recording e) = 1"
| "phase_work n Finished = 0"
| "phase_work n Crashed = 0"

definition tf_work :: "threaded_file \<Rightarrow> nat" where
  "tf_work s = (case tf_tasks s of None \<Rightarrow> 0 | Some q \<Rightarrow> length (queue_tasks q) * (tf_block_size s + 5)) +
     sum_list (map (\<lambda>w. phase_work (tf_block_size s) (w_phase w)) (tf_workers s))"

lemma sum_list_update_less:
  fixes f :: "'a \<Rightarrow> nat"
  assumes "i < length xs" "f x < f (xs ! i) + d"
  shows "sum_list (map f (xs[i := x])) < sum_list (map f xs) + d"
  using assms
proof (induction xs arbitrary: i)
  case (Cons y ys)
  then show ?case by (cases i) auto
qed simp

lemma tf_work_set_worker:
  assumes ph: "phase_is s i ph pos" and same: "tf_workers s1 = tf_workers s" "tf_block_size s1 = tf_block_size s" "tf_tasks s1 = tf_tasks s"
    and less: "phase_work (tf_block_size s) ph' < phase_work (tf_block_size s) ph"
  shows "tf_work (set_worker i ph' pos' s1) < tf_work s"
proof -
  let ?f = "\<lambda>w. phase_work (tf_block_size s) (w_phase w)"
  have "sum_list (map ?f ((tf_workers s)[i := \<lparr>w_phase = ph', w_position = pos'\<rparr>])) < sum_list (map ?f (tf_workers s)) + 0"
    using phase_isD [OF ph] less by (intro sum_list_update_less) auto
  then show ?thesis using same by (cases "tf_tasks s") (simp_all add: tf_work_def set_worker_def)
qed

lemma worker_step_work:
  assumes step: "worker_step content s s'" and inv: "tf_inv heap content s"
  shows "tf_work s' < tf_work s"
proof -
  obtain q0 t where i: "nodes_ok content s" "tasks_at s q0 t" "workers_ok content t s" by (rule tf_invE [OF inv])
  from step show ?thesis
  proof cases
    case (ws_pop_task j pos q p q')
    let ?n = "tf_block_size s" and ?ph = "if tf_compressed s then Reading p 0 else Seeking p"
    have "q0 = q" using i(2) ws_pop_task(3) by (simp add: tasks_at_def)
    then have "length (queue_tasks q) = Suc (length (queue_tasks q'))"
      using tasks_at_pop [OF _ i(1) ws_pop_task(4), of t] i(2) by (auto simp: tasks_at_def)
    moreover have "sum_list (map (\<lambda>w. phase_work ?n (w_phase w)) ((tf_workers s)[j := \<lparr>w_phase = ?ph, w_position = pos\<rparr>]))
        < sum_list (map (\<lambda>w. phase_work ?n (w_phase w)) (tf_workers s)) + (?n + 5)"
      using phase_isD [OF ws_pop_task(2)] by (intro sum_list_update_less) auto
    ultimately show ?thesis using ws_pop_task(1,3) by (simp add: tf_work_def set_worker_def)
  next
    case (ws_pop_guard j pos q q')
    then have "queue_tasks q' = queue_tasks q" using tasks_at_guard [of s q t q'] i(2) by (auto simp: tasks_at_def)
    then have "tf_work (s\<lparr>tf_tasks := Some q'\<rparr>) = tf_work s" using ws_pop_guard(3) by (simp add: tf_work_def)
    moreover have "tf_work s' < tf_work (s\<lparr>tf_tasks := Some q'\<rparr>)"
      unfolding ws_pop_guard(1) using ws_pop_guard(2) by (intro tf_work_set_worker) auto
    ultimately show ?thesis by simp
  next
    case (ws_fails j ph pos p bytes e)
    then show ?thesis by (auto intro!: tf_work_set_worker)
  next
    case (ws_dangling j ph pos p bytes)
    then show ?thesis by (auto intro!: tf_work_set_worker)
  qed (auto intro!: tf_work_set_worker)
qed

text \<open>A worker stands still only when it has ended, or waits for a task or a guard.\<close>

lemma worker_can_step:
  assumes inv: "tf_inv heap content s" and i: "i < length (tf_workers s)" and run: "phase_of s i \<noteq> Finished"
    and wait: "phase_of s i = Waiting \<Longrightarrow> \<exists>q. tf_tasks s = Some q \<and> queue_pop q \<noteq> None"
  shows "\<exists>s'. worker_step content s s'"
proof -
  obtain q0 t where ok: "memory_ok heap s" "nodes_ok content s" "tasks_at s q0 t" "workers_ok content t s" by (rule tf_invE [OF inv])
  define ph pos where "ph = phase_of s i" and "pos = w_position (tf_workers s ! i)"
  have is_ph: "phase_is s i ph pos" using i by (simp add: phase_is_def ph_def pos_def)
  have w: "worker_ok content t s ph pos" by (rule worker_okD [OF ok(4) is_ph])
  show ?thesis
  proof (cases ph)
    case Waiting
    then obtain q where q: "tf_tasks s = Some q" "queue_pop q \<noteq> None" using wait ph_def by auto
    then obtain r where r: "queue_pop q = Some r" by blast
    show ?thesis
    proof (cases r)
      case (Inl e)
      then show ?thesis using ws_pop_fails is_ph Waiting q r by blast
    next
      case (Inr xq)
      obtain x q' where xq: "xq = (x, q')" by fastforce
      show ?thesis
        using ws_pop_task [of s i pos q _ q'] ws_pop_guard [of s i pos q q'] is_ph Waiting q(1) r Inr xq by (cases x) blast+
    qed
  next
    case (Seeking p)
    then obtain b where "map_of (tf_blocks s) p = Some b" using w by (auto simp: unread_def)
    then show ?thesis using ws_seek is_ph Seeking by blast
  next
    case (Reading p bytes)
    then obtain b where b: "map_of (tf_blocks s) p = Some b" using w by (auto simp: unread_def)
    show ?thesis
    proof (cases "bytes = tf_block_size s \<or> length content \<le> pos")
      case True
      then show ?thesis using ws_publish is_ph Reading b by blast
    next
      case False
      then have "1 \<le> tf_block_size s - bytes" "pos + 1 \<le> length content" using w Reading by auto
      then show ?thesis using ws_read [of s i p bytes pos b 1] is_ph Reading b False by auto
    qed
  next
    case Starting
    then show ?thesis using ws_start is_ph by blast
  next
    case (Published bytes)
    then show ?thesis using ws_published is_ph by blast
  next
    case Closing
    then show ?thesis using ws_close is_ph by blast
  next
    case (Raising e)
    then show ?thesis using ws_raise is_ph by blast
  next
    case (Recording e)
    then show ?thesis using ws_record is_ph by blast
  qed (use run w ph_def in simp_all)
qed

text \<open>While the caller waits for the first block, either it can wake up or a worker can move.\<close>

lemma waiting_moves:
  assumes good: "tf_good heap content s" and front: "tf_blocks s \<noteq> []" "\<not> tf_read_eof s" and sleep: "\<not> front_wakes s"
  shows "\<exists>s'. worker_step content s s'"
proof -
  have inv: "tf_inv heap content s" and srv: "serving s" using good by (auto simp: tf_good_def)
  obtain q t where i: "memory_ok heap s" "nodes_ok content s" "data_ok content s" "flags_ok s" "tasks_at s q t" "workers_ok content t s"
    by (rule tf_invE [OF inv])
  obtain p b rest where b: "tf_blocks s = (p, b) # rest" using front(1) by (metis list.exhaust surj_pair)
  have p: "p = first_node s" by (rule first_node_hd [OF i(2) b])
  have nr: "\<not> b_ready b" "\<not> tf_has_exception s" using sleep b by (auto simp: front_wakes_def)
  have un: "unread s p" using b nr(1) by (simp add: unread_def)
  show ?thesis
  proof (cases "troubled s")
    case True
    then obtain j where "j < length (tf_workers s)" "(\<exists>e. phase_of s j = Raising e) \<or> (\<exists>e. phase_of s j = Recording e)"
      using i(4) nr(2) unfolding troubled_def flags_ok_def by blast
    then show ?thesis by (intro worker_can_step [OF inv, of j]) auto
  next
    case calm: False
    show ?thesis
    proof (cases "p < t")
      case True
      then obtain j where "j < length (tf_workers s)" "busy_with (phase_of s j) = Some p"
        using i(6) un calm unfolding workers_ok_def by blast
      then show ?thesis by (intro worker_can_step [OF inv, of j]) auto
    next
      case False
      then have t: "t = p" using i(5) p unfolding tasks_at_def by linarith
      have "p \<in> set (map fst (tf_blocks s))" unfolding b by simp
      then have "p < tf_next_node s" using i(2) unfolding nodes_ok_def by (metis atLeastLessThan_iff atLeastLessThan_upt)
      then have "queue_tasks q \<noteq> []" using i(5) t by (auto simp: tasks_at_def)
      then have pop: "queue_pop q \<noteq> None" using tasks.pop_ready [of None q] i(5) by (auto simp: tasks_at_def)
      have ws: "0 < length (tf_workers s)" using i(6) by (simp add: workers_ok_def)
      have "phase_of s 0 \<noteq> Finished"
      proof
        assume "phase_of s 0 = Finished"
        then have "end_seen s" using srv ws calm by (auto simp: serving_def)
        then obtain r c where rc: "(r, c) \<in> set (tf_blocks s)" "b_ready c" using front(2) by (auto simp: end_seen_def)
        then have "r < t" using i(5) by (auto simp: tasks_at_def not_le)
        moreover have "r \<in> set (map fst (tf_blocks s))" using rc(1) by force
        then have "first_node s \<le> r" using i(2) unfolding nodes_ok_def by (metis atLeastLessThan_iff atLeastLessThan_upt)
        ultimately show False using t p by simp
      qed
      then show ?thesis using pop i(5) ws by (intro worker_can_step [OF inv, of 0]) (auto simp: tasks_at_def)
    qed
  qed
qed

lemma worker_steps_env: "(worker_step content ^^ n) s s' \<Longrightarrow> tf_steps heap content s s'"
  by (induction n arbitrary: s') (auto intro: rtranclp.rtrancl_into_rtrancl env_worker)

lemma worker_steps_work:
  assumes "(worker_step content ^^ n) s s'" "tf_inv heap content s"
  shows "n + tf_work s' \<le> tf_work s"
  using assms
proof (induction n arbitrary: s')
  case (Suc n)
  then obtain s1 where s1: "(worker_step content ^^ n) s s1" "worker_step content s1 s'" by auto
  have "tf_inv heap content s1" using tf_steps_inv [OF worker_steps_env [OF s1(1)]] Suc.prems(2) by blast
  then show ?case using Suc.IH [OF s1(1) Suc.prems(2)] worker_step_work [OF s1(2)] by force
qed simp

section \<open>Closing\<close>

fun active :: "worker_phase \<Rightarrow> bool" where
  "active Starting = True"
| "active Waiting = True"
| "active (Seeking p) = True"
| "active (Reading p bytes) = True"
| "active (Published bytes) = True"
| "active _ = False"

abbreviation active_count :: "threaded_file \<Rightarrow> nat" where
  "active_count s \<equiv> length (filter (\<lambda>w. active (w_phase w)) (tf_workers s))"

text \<open>There is a guard for every worker that has still to end.\<close>

definition closing :: "threaded_file \<Rightarrow> bool" where
  "closing s \<longleftrightarrow> (\<exists>q. tf_tasks s = Some q \<and> active_count s \<le> queue_guards q)"

lemma filter_length_update:
  "i < length xs \<Longrightarrow> length (filter P (xs[i := x])) + (if P (xs ! i) then 1 else 0) = length (filter P xs) + (if P x then 1 else 0)"
proof (induction xs arbitrary: i)
  case (Cons y ys)
  then show ?case by (cases i) auto
qed simp

lemma active_count_set_worker:
  assumes "phase_is s i ph pos" "tf_workers s1 = tf_workers s"
  shows "active_count (set_worker i ph' pos' s1) + (if active ph then 1 else 0) = active_count s + (if active ph' then 1 else 0)"
  using filter_length_update [of i "tf_workers s" "\<lambda>w. active (w_phase w)"] phase_isD [OF assms(1)] assms(2)
  by (simp add: set_worker_def)

lemma closing_set_worker:
  assumes "closing s" "phase_is s i ph pos" "tf_workers s1 = tf_workers s" "tf_tasks s1 = tf_tasks s" "active ph' \<longrightarrow> active ph"
  shows "closing (set_worker i ph' pos' s1)"
  using assms(1,4,5) active_count_set_worker [OF assms(2,3), of ph' pos'] by (auto simp: closing_def split: if_splits)

lemma worker_step_closing:
  assumes step: "worker_step content s s'" and inv: "tf_inv heap content s" and cl: "closing s"
  shows "closing s'"
proof -
  obtain q0 t where i: "nodes_ok content s" "tasks_at s q0 t" by (rule tf_invE [OF inv])
  from step show ?thesis
  proof cases
    case (ws_pop_task j pos q p q')
    have "tasks_ok None q" using i(2) ws_pop_task(3) by (simp add: tasks_at_def)
    then have "queue_guards q' = queue_guards q" using ws_pop_task(4) by (cases rule: tasks.pop_cases) auto
    then show ?thesis
      using cl ws_pop_task(1,3) active_count_set_worker [OF ws_pop_task(2), of "s\<lparr>tf_tasks := Some q'\<rparr>"
        "if tf_compressed s then Reading p 0 else Seeking p" pos]
      by (auto simp: closing_def)
  next
    case (ws_pop_guard j pos q q')
    then have "queue_guards q = Suc (queue_guards q')" using tasks_at_guard [of s q t q'] i(2) by (auto simp: tasks_at_def)
    then show ?thesis
      using cl ws_pop_guard active_count_set_worker [OF ws_pop_guard(2), of "s\<lparr>tf_tasks := Some q'\<rparr>" Closing pos]
      by (auto simp: closing_def)
  next
    case (ws_fails j ph pos p bytes e)
    then show ?thesis using cl by (auto intro: closing_set_worker)
  next
    case (ws_dangling j ph pos p bytes)
    then show ?thesis using cl by (auto intro: closing_set_worker)
  qed (use cl in \<open>auto intro: closing_set_worker\<close>)
qed

lemma tf_steps_closing:
  assumes "tf_steps heap content s s'" "tf_inv heap content s" "closing s"
  shows "tf_inv heap content s' \<and> closing s'"
  using assms
proof (induction rule: rtranclp_induct)
  case (step s1 s2)
  then have k: "tf_inv heap content s1" "closing s1" by auto
  from step(2) have "closing s2"
  proof cases
    case env_worker
    then show ?thesis using worker_step_closing k by blast
  next
    case (env_others st)
    then show ?thesis using k by (simp add: closing_def)
  qed
  then show ?case using env_step_inv [OF step(2) k(1)] by simp
qed simp

lemma close_begin_ok:
  assumes "tf_inv heap content s"
  shows "tf_inv heap content (close_begin s)" "closing (close_begin s)"
proof -
  obtain q t where i: "memory_ok heap s" "nodes_ok content s" "data_ok content s" "flags_ok s" "tasks_at s q t" "workers_ok content t s"
    by (rule tf_invE [OF assms])
  let ?q = "queue_shutdown (int (tf_threads s)) None q" and ?s = "close_begin s"
  have g: "tasks_ok None ?q" "queue_tasks ?q = queue_tasks q" "queue_guards ?q = queue_guards q + tf_threads s"
    using tasks.shutdown_guards [of None q "int (tf_threads s)"] i(5) by (auto simp: tasks_at_def)
  have same: "unread ?s r = unread s r" "read_part content ?s r k = read_part content s r k" "troubled ?s = troubled s"
    "end_seen ?s = end_seen s" "first_node ?s = first_node s" "owned_blocks ?s = owned_blocks s" "tf_tasks ?s = Some ?q" for r k
    using i(5) by (auto simp: close_begin_def unread_def read_part_def troubled_def end_seen_def first_node_def owned_blocks_def tasks_at_def)
  have sel: "tf_blocks ?s = tf_blocks s" "tf_store ?s = tf_store s" "tf_workers ?s = tf_workers s" "tf_threads ?s = tf_threads s"
    "tf_compressed ?s = tf_compressed s" "tf_block_size ?s = tf_block_size s" "tf_next_node ?s = tf_next_node s" "tf_held ?s = tf_held s"
    "tf_exception_is_set ?s = tf_exception_is_set s"
    by (simp_all add: close_begin_def)
  have "worker_ok content t ?s ph pos = worker_ok content t s ph pos" for ph pos using same sel by (cases ph) auto
  then have "workers_ok content t ?s" using i(6) same(1,3) sel by (auto simp: workers_ok_def)
  moreover have "memory_ok heap ?s" using i(1) same(6) sel by (simp add: memory_ok_def)
  moreover have "nodes_ok content ?s" using i(2) same(5) by (simp add: nodes_ok_def close_begin_def)
  moreover have "data_ok content ?s" using i(3) unfolding data_ok_def sel .
  moreover have "flags_ok ?s" using i(4) same(4) by (simp add: flags_ok_def close_begin_def)
  moreover have "tasks_at ?s ?q t" using i(5) g same(5,7) sel by (simp add: tasks_at_def)
  ultimately show "tf_inv heap content ?s" by (intro tf_invI)
  have "active_count ?s \<le> length (tf_workers s)" by (simp add: sel)
  then show "closing ?s" using same(7) g(3) i(6) by (auto simp: closing_def workers_ok_def)
qed

lemma join_moves:
  assumes inv: "tf_inv heap content s" and cl: "closing s" and "\<not> all_joined s"
  shows "\<exists>s'. worker_step content s s'"
proof -
  obtain q t where i: "tasks_at s q t" by (rule tf_invE [OF inv])
  obtain j where j: "j < length (tf_workers s)" "phase_of s j \<noteq> Finished"
    using assms(3) by (auto simp: all_joined_def in_set_conv_nth)
  have "queue_pop q \<noteq> None" if "phase_of s j = Waiting"
  proof -
    have "tf_workers s ! j \<in> set (filter (\<lambda>w. active (w_phase w)) (tf_workers s))" using j(1) that by simp
    then have "0 < active_count s" by (rule length_pos_if_in_set)
    moreover have "active_count s \<le> queue_guards q" using cl i by (auto simp: closing_def tasks_at_def)
    ultimately have "queue_guards q \<noteq> 0" by linarith
    then show ?thesis using tasks.pop_ready [of None q] i by (auto simp: tasks_at_def)
  qed
  then show ?thesis using i j by (intro worker_can_step [OF inv]) (auto simp: tasks_at_def)
qed

lemma rfold_map: "rfold f (map g xs) s = rfold (\<lambda>x. f (g x)) xs s"
proof (induction xs arbitrary: s)
  case (Cons x xs)
  then have "rfold f (map g xs) = rfold (\<lambda>x. f (g x)) xs" by blast
  then show ?case by simp
qed simp

lemma close_end_ok:
  assumes inv: "tf_inv heap content s"
  shows "\<exists>s'. close_end s = Inr s' \<and> tf_blocks s' = [] \<and> pool_state heap (pool (tf_store s')) \<and> mem (tf_store s') = mem (tf_store s) \<and>
    used_blocks (pool (tf_store s')) = used_blocks (pool (tf_store s)) - set (map (\<lambda>(p, b). db_memory (b_data b)) (tf_blocks s))"
proof -
  obtain m: "memory_ok heap s" by (rule tf_invE [OF inv])
  let ?bs = "map (\<lambda>(p, b). db_memory (b_data b)) (tf_blocks s)"
  have "pool_state heap (pool (tf_store s))" "distinct ?bs" "set ?bs \<subseteq> used_blocks (pool (tf_store s))"
    using m by (auto simp: memory_ok_def owned_blocks_def)
  from pool.release_all [OF this] obtain a where a: "rfold free_block ?bs (pool (tf_store s)) = Inr a" "pool_state heap a"
    "used_blocks a = used_blocks (pool (tf_store s)) - set ?bs" by blast
  have "rfold (\<lambda>(p, b) a. free_block (db_memory (b_data b)) a) (tf_blocks s) (pool (tf_store s)) = Inr a"
    using a(1) unfolding rfold_map by (simp add: case_prod_beta')
  then show ?thesis using a(2,3) by (simp add: close_end_def)
qed

end
