(* ===== verification/Threaded_Theorems.thy ===== *)
theory Threaded_Theorems
  imports Threaded_Progress
begin

text \<open>
  The theorems on the threaded file, for every run from its construction and every interleaving of its threads: what the reader gets, that it
  does not wait for ever, that the workers stay out of each other's memory, what errors it sees, that closing ends and
  releases the blocks, and how much memory is held. First a small file and a run of it, on which the theorems are applied.
\<close>

section \<open>A run\<close>

definition tiny_file :: threaded_file where
  "tiny_file = \<lparr>tf_path = ''f'', tf_threads = 1, tf_max_memory = 4, tf_is_open = False, tf_compressed = False,
     tf_file_size = 2, tf_offset = 0, tf_eof = False, tf_read_eof = False, tf_blocks = [], tf_next_node = 0,
     tf_block_size = 4, tf_workers = [], tf_tasks = None, tf_has_exception = False, tf_worker_exception = None,
     tf_exception_is_set = False, tf_store = small_store, tf_held = []\<rparr>"

lemma small_store_sel [simp]: "pool small_store = small_pool" "m_block_size small_pool = 4"
  by (simp_all add: small_store_def small_pool_def)

lemma tiny_file_fresh: "fresh_file (bump_heap 8) ''ab'' tiny_file"
proof -
  let ?cfg = "\<lparr>cfg_path = ''f'', cfg_threads = 1, cfg_max_memory = 4, cfg_allocator = Some small_store\<rparr>"
  have "new_threaded_file ?cfg (Inr (2, False)) = Inr tiny_file" by (simp add: new_threaded_file_def tiny_file_def)
  then show ?thesis unfolding fresh_file_def
    by (intro exI [of _ ?cfg] exI [of _ small_store] exI [of _ 2] exI [of _ False]) (simp add: small_pool_ok)
qed

definition one_used :: allocator where
  "one_used = snd (allocate_block (bump_heap 8) small_pool)"

lemma small_allocate_block: "allocate_block (bump_heap 8) small_pool = (Inr 8, one_used)"
  by (simp add: one_used_def allocate_block_def allocate_blocks_def allocate_def block_count_def small_pool_def add_pages.simps take_blocks.simps
      take_from_first_def use_blocks_eq page_insert_def Let_def)

definition tiny_queue :: "nat option sync_queue" where
  "tiny_queue = the (push_medium (Some 0) (new_queue 0))"

lemma tiny_push: "push_medium (Some 0) (new_queue 0) = Some tiny_queue"
  by (simp add: tiny_queue_def push_medium_def queue_push_def new_queue_def)

definition tiny_open :: threaded_file where
  "tiny_open = add_node 8 one_used tiny_queue (open_begin tiny_file)"

lemma tiny_open_call: "open_call (bump_heap 8) ''ab'' True tiny_file (Inr ()) tiny_open"
proof -
  have "schedule_block (bump_heap 8) False False (open_begin tiny_file) = (Inr True, tiny_open)"
    by (simp add: schedule_block_def tiny_open_def add_node_def open_begin_def tiny_file_def small_allocate_block tiny_push Let_def)
  then have "schedule_call (bump_heap 8) ''ab'' False (open_begin tiny_file) (Inr True) tiny_open"
    by (intro schedule_callI [of _ _ _ "open_begin tiny_file"]) (simp_all add: open_begin_def tiny_file_def)
  then have "open_loop (bump_heap 8) ''ab'' 0 (open_begin tiny_file) (Inr ()) tiny_open"
  proof (rule open_next [rotated])
    show "open_loop (bump_heap 8) ''ab'' (0 + tf_block_size tiny_open) tiny_open (Inr ()) tiny_open"
      by (rule open_enough) (simp add: tiny_open_def add_node_def open_begin_def tiny_file_def)
  qed (simp add: open_begin_def tiny_file_def)
  then show ?thesis by (rule open_file)
qed

lemma tiny_run_open: "tf_run (bump_heap 8) ''ab'' tiny_file [] tiny_open"
  by (rule run_open [OF tiny_open_call])

definition tiny_step :: "nat \<Rightarrow> threaded_file" where
  "tiny_step n =
     (let s1 = set_worker 0 Waiting 0 tiny_open;
          s2 = set_worker 0 (Seeking 0) 0 (s1\<lparr>tf_tasks := Some (new_queue 0)\<rparr>);
          s3 = set_worker 0 (Reading 0 0) 0 s2;
          s4 = set_worker 0 (Reading 0 2) 2 (s3\<lparr>tf_store := (tf_store s3)\<lparr>mem := mem_copy 8 ''ab'' (mem (tf_store s3))\<rparr>\<rparr>);
          b = \<lparr>b_data = \<lparr>db_memory = 8, db_size = 2\<rparr>, b_offset_in_file = 0, b_consumed = 0, b_ready = True\<rparr>;
          s5 = set_worker 0 (Published 2) 2 (s4\<lparr>tf_blocks := [(0, b)]\<rparr>)
      in [tiny_open, s1, s2, s3, s4, s5] ! n)"

lemmas tiny_defs = tiny_step_def Let_def tiny_open_def add_node_def open_begin_def tiny_file_def set_worker_def phase_is_def

lemma tiny_pop: "queue_pop tiny_queue = Some (Inr (Some 0, new_queue 0))"
  by (simp add: tiny_queue_def push_medium_def queue_push_def new_queue_def unsynchronized_push_def Let_def queue_pop_def
      unsynchronized_empty_def unsynchronized_pop_def eval_nat_numeral)

lemma tiny_steps: "worker_step ''ab'' (tiny_step n) (tiny_step (Suc n))" if "n < 5"
proof -
  have "worker_step ''ab'' (tiny_step 0) (tiny_step 1)"
    using ws_start [of "tiny_step 0" 0 0 "''ab''"] by (simp add: tiny_defs)
  moreover have "worker_step ''ab'' (tiny_step 1) (tiny_step 2)"
    using ws_pop_task [of "tiny_step 1" 0 0 tiny_queue 0 "new_queue 0" "''ab''"] tiny_pop by (simp add: tiny_defs)
  moreover have "worker_step ''ab'' (tiny_step 2) (tiny_step 3)"
    using ws_seek [of "tiny_step 2" 0 0 0 _ "''ab''"] by (simp add: tiny_defs)
  moreover have "worker_step ''ab'' (tiny_step 3) (tiny_step 4)"
    using ws_read [of "tiny_step 3" 0 0 0 0 _ 2 "''ab''"] by (simp add: tiny_defs numeral_2_eq_2)
  moreover have "worker_step ''ab'' (tiny_step 4) (tiny_step 5)"
    using ws_publish [of "tiny_step 4" 0 0 2 2 _ "''ab''"] by (simp add: tiny_defs put_block_def)
  ultimately show ?thesis using that by (auto simp: less_Suc_eq numeral_eq_Suc)
qed

definition tiny_end :: threaded_file where
  "tiny_end = hand_over \<lparr>db_memory = 8, db_size = 2\<rparr> (tiny_step 5)"

lemma tiny_run_step:
  assumes "n \<le> 5"
  shows "tf_run (bump_heap 8) ''ab'' tiny_file [] (tiny_step n)"
  using assms
proof (induction n)
  case 0
  then show ?case using tiny_run_open by (simp add: tiny_step_def Let_def)
next
  case (Suc n)
  then show ?case using tiny_steps [of n] by (auto intro: run_steps env_worker)
qed

lemma tiny_extract: "extract_call (bump_heap 8) ''ab'' (tiny_step 5) (Inr \<lparr>db_memory = 8, db_size = 2\<rparr>) tiny_end"
proof -
  let ?b = "\<lparr>b_data = \<lparr>db_memory = 8, db_size = 2\<rparr>, b_offset_in_file = 0, b_consumed = 0, b_ready = True\<rparr>"
  have "front_call (bump_heap 8) ''ab'' (tiny_step 5) (rbind (Inr ?b) (\<lambda>b. Inr (Some b))) (tiny_step 5)"
    by (rule front_block [where ?s1.0 = "tiny_step 5" and ?s2.0 = "tiny_step 5"])
      (simp_all add: front_begin_def handle_exception_def front_wakes_def front_end_def tiny_defs)
  then have front: "front_call (bump_heap 8) ''ab'' (tiny_step 5) (Inr (Some ?b)) (tiny_step 5)" by simp
  have raw: "\<not> tf_compressed (tiny_step 5)" by (simp add: tiny_defs)
  have "schedule_call (bump_heap 8) ''ab'' False tiny_end (Inr False) tiny_end"
    by (intro schedule_callI [of _ _ _ tiny_end])
      (simp_all add: schedule_block_def tiny_end_def hand_over_def pop_node_def tiny_defs)
  from schedule_if_so [OF this] have "schedule_if (bump_heap 8) ''ab'' True False tiny_end (Inr ()) tiny_end" by simp
  then have "extract_call (bump_heap 8) ''ab'' (tiny_step 5) (rbind (Inr ()) (\<lambda>_. Inr (b_data ?b))) tiny_end"
    using raw front by (intro extract_block [where ?s1.0 = "tiny_step 5" and ?s2.0 = "tiny_step 5"])
      (simp_all add: tiny_end_def schedule_if_not)
  then show ?thesis by simp
qed

lemma tiny_bytes: "block_bytes (tf_store tiny_end) \<lparr>db_memory = 8, db_size = 2\<rparr> = ''ab''"
  by (simp add: tiny_end_def hand_over_def pop_node_def tiny_defs block_bytes_def mem_copy_def eval_nat_numeral)

lemma tiny_run: "tf_run (bump_heap 8) ''ab'' tiny_file [''ab''] tiny_end"
proof -
  have "tf_consumed (tiny_step 5) = 0" by (simp add: tf_consumed_def tiny_defs)
  from run_extract [OF tiny_run_step [OF order_refl] this tiny_extract] show ?thesis by (simp add: tiny_bytes)
qed

section \<open>Theorems\<close>

text \<open>C12: whatever the order in which the threads read the parts of a file, the pieces that its reader gets, as blocks or as
  bytes, are the content of the file in order, nothing left out and nothing twice; an empty piece comes only when the whole content has
  been delivered. The memory of the blocks that the reader still holds is allocated and keeps the bytes that were
  delivered in it, while the workers go on reading.\<close>

theorem threaded_reads_in_order:
  assumes "fresh_file heap content s0" "tf_run heap content s0 outs s"
  shows "prefix (concat outs) content \<and> ([] \<in> set outs \<longrightarrow> concat outs = content) \<and>
    (\<forall>(a, bytes) \<in> set (tf_held s). a \<in> used_blocks (pool (tf_store s)) \<and> map (mem (tf_store s)) [a ..< a + length bytes] = bytes)"
proof -
  have ok: "run_ok heap content s0 outs s" by (rule tf_run_ok [OF assms(2,1)])
  then obtain m: "memory_ok heap s" by (auto simp: run_ok_def tf_good_def elim!: tf_invE)
  have "a \<in> used_blocks (pool (tf_store s))" if "(a, bytes) \<in> set (tf_held s)" for a bytes
    using owned_distinct(4) [OF m that] m by (auto simp: memory_ok_def)
  then show ?thesis using ok held_bytes [of heap content s] by (auto simp: run_ok_def take_is_prefix)
qed

theorem threaded_reads_in_order_witness:
  "tf_run (bump_heap 8) ''ab'' tiny_file [''ab''] tiny_end \<and> prefix (concat [''ab'']) ''ab'' \<and>
     map (mem (tf_store tiny_end)) [8 ..< 10] = ''ab''"
proof -
  have "(8, ''ab'') \<in> set (tf_held tiny_end)"
    by (simp add: tiny_end_def hand_over_def pop_node_def tiny_defs block_bytes_def mem_copy_def eval_nat_numeral)
  then show ?thesis using threaded_reads_in_order [OF tiny_file_fresh tiny_run] tiny_run by fastforce
qed

text \<open>C13: the reader never waits for ever. When it waits for the first block, the workers can make only a bounded number of
  steps, and as long as the block is not ready and no exception was recorded, one of them can make a step: also when workers
  have failed, and when the single worker of a compressed file has reached its end and gone.\<close>

theorem threaded_wait_ends:
  assumes "fresh_file heap content s0" "tf_run heap content s0 outs s" "tf_blocks s \<noteq> []" "\<not> tf_read_eof s"
    "(worker_step content ^^ n) s s'"
  shows "n \<le> tf_work s \<and> (front_wakes s' \<or> (\<exists>s2. worker_step content s' s2))"
proof -
  have good: "tf_good heap content s" using tf_run_ok [OF assms(2,1)] by (simp add: run_ok_def)
  then have "tf_good heap content s' \<and> main_kept s s'" by (intro tf_steps_good [OF worker_steps_env [OF assms(5)]])
  moreover from this have "length (tf_blocks s') = length (tf_blocks s)" "tf_read_eof s' = tf_read_eof s"
    using main_kept_calm by blast+
  then have "tf_blocks s' \<noteq> []" "\<not> tf_read_eof s'" using assms(3,4) by auto
  ultimately have "front_wakes s' \<or> (\<exists>s2. worker_step content s' s2)" using waiting_moves by blast
  moreover have "n + tf_work s' \<le> tf_work s" using good by (intro worker_steps_work [OF assms(5), of heap]) (simp add: tf_good_def)
  ultimately show ?thesis by simp
qed

theorem threaded_wait_ends_witness:
  "\<not> front_wakes tiny_open \<and> (\<exists>s2. worker_step ''ab'' tiny_open s2) \<and> tf_work tiny_open = 14"
proof -
  have "\<not> front_wakes tiny_open" by (simp add: front_wakes_def tiny_defs)
  moreover have "tf_work tiny_open = 14"
    by (simp add: tf_work_def tiny_defs queue_tasks_def tiny_queue_def push_medium_def queue_push_def new_queue_def
        unsynchronized_push_def)
  moreover have "front_wakes tiny_open \<or> (\<exists>s2. worker_step ''ab'' tiny_open s2)"
    using threaded_wait_ends [OF tiny_file_fresh tiny_run_open, of 0 tiny_open] by (simp add: tiny_defs)
  ultimately show ?thesis by blast
qed

text \<open>C15: no worker ever follows a pointer to a block that is gone. The blocks into which different workers read are different
  nodes of the list, their memory is allocated and does not overlap, and it overlaps no block that the reader
  holds.\<close>

theorem threaded_workers_apart:
  assumes "fresh_file heap content s0" "tf_run heap content s0 outs s" "i < length (tf_workers s)"
  shows "phase_of s i \<noteq> Crashed \<and>
    (\<forall>p. busy_with (phase_of s i) = Some p \<longrightarrow>
       (\<exists>b. map_of (tf_blocks s) p = Some b \<and> \<not> b_ready b \<and> db_memory (b_data b) \<in> used_blocks (pool (tf_store s)) \<and>
          (\<forall>(a, bytes) \<in> set (tf_held s). db_memory (b_data b) + tf_block_size s \<le> a \<or> a + tf_block_size s \<le> db_memory (b_data b)) \<and>
          (\<forall>j < length (tf_workers s). \<forall>q c. j \<noteq> i \<and> busy_with (phase_of s j) = Some q \<and> map_of (tf_blocks s) q = Some c \<longrightarrow>
             q \<noteq> p \<and> (db_memory (b_data b) + tf_block_size s \<le> db_memory (b_data c) \<or>
                db_memory (b_data c) + tf_block_size s \<le> db_memory (b_data b)))))"
proof -
  have inv: "tf_inv heap content s" using tf_run_ok [OF assms(2,1)] by (simp add: run_ok_def tf_good_def)
  obtain q t where i: "memory_ok heap s" "nodes_ok content s" "workers_ok content t s" by (rule tf_invE [OF inv])
  have w: "worker_ok content t s (phase_of s i) (w_position (tf_workers s ! i))" using i(3) assms(3) by (simp add: workers_ok_def)
  have apart: "db_memory (b_data b) + tf_block_size s \<le> a \<or> a + tf_block_size s \<le> db_memory (b_data b)"
    if "(p, b) \<in> set (tf_blocks s)" "(a, bytes) \<in> set (tf_held s)" for p b a bytes
    using owned_apart [OF i(1)] owned_distinct(2-4) [OF i(1)] that by metis
  have apart2: "db_memory (b_data b) + tf_block_size s \<le> db_memory (b_data c) \<or>
      db_memory (b_data c) + tf_block_size s \<le> db_memory (b_data b)"
    if "(p, b) \<in> set (tf_blocks s)" "(q, c) \<in> set (tf_blocks s)" "q \<noteq> p" for p b q c
    using owned_apart [OF i(1)] owned_distinct(1,3) [OF i(1)] that by metis
  have other: "q \<noteq> p" if "busy_with (phase_of s i) = Some p" "j < length (tf_workers s)" "j \<noteq> i" "busy_with (phase_of s j) = Some q" for j p q
    using i(3) that assms(3) unfolding workers_ok_def by blast
  show ?thesis
  proof (intro conjI allI impI)
    show "phase_of s i \<noteq> Crashed" using w by auto
    fix p
    assume p: "busy_with (phase_of s i) = Some p"
    then have "unread s p" using w by (cases "phase_of s i") auto
    then obtain b where b: "map_of (tf_blocks s) p = Some b" "\<not> b_ready b" by (auto simp: unread_def)
    then have pb: "(p, b) \<in> set (tf_blocks s)" using map_of_nodes [OF i(2)] by simp
    have others: "\<forall>j < length (tf_workers s). \<forall>q c. j \<noteq> i \<and> busy_with (phase_of s j) = Some q \<and> map_of (tf_blocks s) q = Some c \<longrightarrow>
        q \<noteq> p \<and> (db_memory (b_data b) + tf_block_size s \<le> db_memory (b_data c) \<or>
          db_memory (b_data c) + tf_block_size s \<le> db_memory (b_data b))"
      using apart2 [OF pb] other [OF p] map_of_nodes [OF i(2)] by blast
    have "db_memory (b_data b) \<in> used_blocks (pool (tf_store s))"
      using owned_distinct(3) [OF i(1) pb] i(1) by (auto simp: memory_ok_def)
    then show "\<exists>b. map_of (tf_blocks s) p = Some b \<and> \<not> b_ready b \<and> db_memory (b_data b) \<in> used_blocks (pool (tf_store s)) \<and>
        (\<forall>(a, bytes) \<in> set (tf_held s). db_memory (b_data b) + tf_block_size s \<le> a \<or> a + tf_block_size s \<le> db_memory (b_data b)) \<and>
        (\<forall>j < length (tf_workers s). \<forall>q c. j \<noteq> i \<and> busy_with (phase_of s j) = Some q \<and> map_of (tf_blocks s) q = Some c \<longrightarrow>
           q \<noteq> p \<and> (db_memory (b_data b) + tf_block_size s \<le> db_memory (b_data c) \<or>
              db_memory (b_data c) + tf_block_size s \<le> db_memory (b_data b)))"
      using b apart [OF pb] others by (intro exI [of _ b]) auto
  qed
qed

theorem threaded_workers_apart_witness:
  "phase_of (tiny_step 3) 0 = Reading 0 0 \<and> phase_of (tiny_step 3) 0 \<noteq> Crashed \<and> 8 \<in> used_blocks (pool (tf_store (tiny_step 3)))"
proof -
  have "tf_run (bump_heap 8) ''ab'' tiny_file [] (tiny_step 3)" by (rule tiny_run_step) simp
  from threaded_workers_apart [OF tiny_file_fresh this, of 0] show ?thesis by (simp add: tiny_defs)
qed

lemma pop_front_fails: "pop_front_call heap content s (Inl e) s' \<Longrightarrow> extract_call heap content s (Inl e) s'"
proof (induction s "Inl e :: unit result" s' rule: pop_front_call.induct)
  case (pop_front_no_block s s1)
  then show ?case by (rule extract_no_block)
next
  case (pop_front_throws s s1 s2)
  then show ?case by (rule extract_throws)
next
  case (pop_front_block s s1 b s2 s3)
  from extract_block [OF this] show ?case by simp
qed

lemma peek_fails:
  assumes "tf_good heap content s" "peek_call heap content s (Inl e) s'"
  shows "tf_good heap content s' \<and> tf_worker_exception s' = Some e \<and> tf_has_exception s'"
proof -
  have "front_call heap content s (Inl e) s'" using assms(2) by (auto elim!: peek_call.cases simp: rbind_def split: sum.splits)
  then show ?thesis using front_call_ok [OF assms(1)] by fastforce
qed

text \<open>C24: of the calls on an open file, \<^verbatim>\<open>read\<close> and \<^verbatim>\<open>peek\<close>, and \<^verbatim>\<open>extract\<close> and \<^verbatim>\<open>pop_front\<close> while the first block has not been read in part, fail only
  with \<^verbatim>\<open>std::bad_alloc\<close>, when there is no memory for another block, or with the exception that a
  worker has recorded. After the latter every wait for a block throws, whatever the workers do, until the file is closed.\<close>

theorem threaded_errors:
  assumes "fresh_file heap content s0" "tf_run heap content s0 outs s"
    "(extract_call heap content s (Inl e) s' \<or> pop_front_call heap content s (Inl e) s') \<and> tf_consumed s = 0 \<or>
     read_call heap content len s (Inl e) s' \<or> peek_call heap content s (Inl e) s'"
  shows "e = Bad_alloc \<or> tf_worker_exception s' = Some e \<and>
    (\<forall>s2 r s3. tf_steps heap content s' s2 \<and> front_call heap content s2 r s3 \<longrightarrow> (\<exists>e2. r = Inl e2 \<and> tf_worker_exception s3 = Some e2))"
proof -
  have ok: "tf_good heap content s" "supplied s" using tf_run_ok [OF assms(2,1)] by (simp_all add: run_ok_def)
  have k: "tf_good heap content s'" "e = Bad_alloc \<or> tf_worker_exception s' = Some e \<and> tf_has_exception s'"
    using assms(3) extract_call_ok [OF ok, of "Inl e" s'] read_call_ok [OF _ ok, of len "Inl e" s'] pop_front_fails peek_fails [OF ok(1)]
    by auto
  have "\<exists>e2. r = Inl e2 \<and> tf_worker_exception s3 = Some e2"
    if "tf_has_exception s'" "tf_steps heap content s' s2" "front_call heap content s2 r s3" for s2 r s3
  proof -
    have good: "tf_good heap content s2" and "tf_has_exception s2"
      using tf_steps_good [OF that(2) k(1)] that(1) main_kept_calm(6) by blast+
    then have "front_begin s2 \<noteq> Inr x" for x by (auto simp: front_begin_def handle_exception_def split: option.splits)
    with that(3) have "\<exists>e2. r = Inl e2" by (auto elim: front_call.cases)
    then show ?thesis using front_call_ok [OF good that(3)] by auto
  qed
  then show ?thesis using k(2) by blast
qed

definition tiny_failed :: threaded_file where
  "tiny_failed = set_worker 0 Finished 0 (tiny_open\<lparr>tf_exception_is_set := True,
     tf_worker_exception := Some (Runtime_error ''x''), tf_has_exception := True\<rparr>)"

lemma tiny_run_failed: "tf_run (bump_heap 8) ''ab'' tiny_file [] tiny_failed"
proof -
  let ?e = "Runtime_error ''x''"
  let ?s1 = "set_worker 0 (Raising ?e) 0 tiny_open" and ?s2 = "set_worker 0 (Recording ?e) 0 (tiny_open\<lparr>tf_exception_is_set := True\<rparr>)"
  have "worker_step ''ab'' tiny_open ?s1" using ws_fails [of tiny_open 0 Starting 0] by (simp add: tiny_defs)
  moreover have "worker_step ''ab'' ?s1 ?s2" using ws_raise [of ?s1 0 ?e 0 "''ab''"] by (simp add: tiny_defs)
  moreover have "worker_step ''ab'' ?s2 tiny_failed"
    using ws_record [of ?s2 0 ?e 0 "''ab''"] by (simp add: tiny_defs tiny_failed_def)
  ultimately have "tf_steps (bump_heap 8) ''ab'' tiny_open tiny_failed"
    by (meson env_worker r_into_rtranclp rtranclp.rtrancl_into_rtrancl)
  then show ?thesis by (rule run_steps [OF tiny_run_open])
qed

theorem threaded_errors_witness:
  "extract_call (bump_heap 8) ''ab'' tiny_failed (Inl (Runtime_error ''x'')) tiny_failed \<and>
     \<not> front_call (bump_heap 8) ''ab'' tiny_failed (Inr None) tiny_failed"
proof -
  have "front_call (bump_heap 8) ''ab'' tiny_failed (Inl (Runtime_error ''x'')) tiny_failed"
    by (rule front_throws) (simp add: front_begin_def handle_exception_def tiny_failed_def)
  moreover have "\<not> tf_compressed tiny_failed" by (simp add: tiny_failed_def tiny_defs)
  ultimately have ex: "extract_call (bump_heap 8) ''ab'' tiny_failed (Inl (Runtime_error ''x'')) tiny_failed"
    by (intro extract_throws [where ?s1.0 = tiny_failed]) (simp_all add: schedule_if_not)
  have "tf_consumed tiny_failed = 0" by (simp add: tf_consumed_def tiny_failed_def tiny_defs)
  then show ?thesis using ex threaded_errors [OF tiny_file_fresh tiny_run_failed, of "Runtime_error ''x''" tiny_failed 0]
    by (metis Inr_Inl_False cpp_error.distinct rtranclp.rtrancl_refl)
qed

text \<open>C14: the file is closed from every state that is reached, also after a call has failed. After the guards have been
  pushed, a worker can make a step until all of them have ended, and they make only a bounded number of steps; then all blocks in the list
  are back in the allocator, exactly these, and the blocks that the reader holds are not touched.\<close>

theorem threaded_close_releases:
  assumes "fresh_file heap content s0" "tf_run heap content s0 outs s"
    "s1 = s \<or> extract_call heap content s r s1 \<and> tf_consumed s = 0 \<or> read_call heap content len s r2 s1"
    "tf_steps heap content (close_begin s1) s2"
  shows "(all_joined s2 \<or> (\<exists>s3. worker_step content s2 s3)) \<and>
    (\<forall>n s3. (worker_step content ^^ n) s2 s3 \<longrightarrow> n \<le> tf_work s2) \<and>
    (\<exists>s3. close_end s2 = Inr s3 \<and> tf_blocks s3 = [] \<and> tf_workers s3 = [] \<and> pool_state heap (pool (tf_store s3)) \<and>
       used_blocks (pool (tf_store s3)) =
         used_blocks (pool (tf_store s2)) - set (map (\<lambda>(p, b). db_memory (b_data b)) (tf_blocks s2)) \<and>
       (\<forall>(a, bytes) \<in> set (tf_held s3). a \<in> used_blocks (pool (tf_store s3)) \<and> map (mem (tf_store s3)) [a ..< a + length bytes] = bytes))"
proof -
  have ok: "tf_good heap content s" "supplied s" using tf_run_ok [OF assms(2,1)] by (simp_all add: run_ok_def)
  have "tf_good heap content s1"
    using assms(3) ok(1) extract_call_ok [OF ok, of r s1] read_call_ok [OF _ ok, of len r2 s1] by auto
  then have inv: "tf_inv heap content s2" and cl: "closing s2"
    using tf_steps_closing [OF assms(4)] close_begin_ok by (auto simp: tf_good_def)
  obtain m: "memory_ok heap s2" by (rule tf_invE [OF inv])
  obtain s3 where s3: "close_end s2 = Inr s3" "tf_blocks s3 = []" "pool_state heap (pool (tf_store s3))" "mem (tf_store s3) = mem (tf_store s2)"
    "used_blocks (pool (tf_store s3)) = used_blocks (pool (tf_store s2)) - set (map (\<lambda>(p, b). db_memory (b_data b)) (tf_blocks s2))"
    using close_end_ok [OF inv] by blast
  have held: "tf_held s3 = tf_held s2" "tf_workers s3 = []" using s3(1) by (auto simp: close_end_def)
  have "a \<in> used_blocks (pool (tf_store s3)) \<and> map (mem (tf_store s3)) [a ..< a + length bytes] = bytes"
    if "(a, bytes) \<in> set (tf_held s3)" for a bytes
  proof -
    have h: "(a, bytes) \<in> set (tf_held s2)" using that held by simp
    have "a \<notin> set (map (\<lambda>(p, b). db_memory (b_data b)) (tf_blocks s2))" using owned_distinct(2) [OF m _ h] by auto
    moreover have "a \<in> used_blocks (pool (tf_store s2))" using owned_distinct(4) [OF m h] m by (auto simp: memory_ok_def)
    moreover have "map (mem (tf_store s2)) [a ..< a + length bytes] = bytes" using m h by (auto simp: memory_ok_def)
    ultimately show ?thesis using s3(4,5) by simp
  qed
  moreover have "n \<le> tf_work s2" if "(worker_step content ^^ n) s2 s'" for n s' using worker_steps_work [OF that inv] by simp
  ultimately show ?thesis using join_moves [OF inv cl] s3 held by blast
qed

theorem threaded_close_releases_witness:
  "\<exists>s3. close_end (close_begin (tiny_step 5)) = Inr s3 \<and> tf_blocks s3 = [] \<and>
     used_blocks (pool (tf_store s3)) = used_blocks (pool (tf_store (tiny_step 5))) - {8}"
proof -
  have run: "tf_run (bump_heap 8) ''ab'' tiny_file [] (tiny_step 5)" by (rule tiny_run_step) simp
  from threaded_close_releases [OF tiny_file_fresh run, of "tiny_step 5" undefined undefined undefined "close_begin (tiny_step 5)"]
  show ?thesis by (auto simp: tiny_defs close_begin_def)
qed

text \<open>C25: an uncompressed file never holds more memory in its list than the configured maximum, rounded up to whole
  blocks, and the blocks are never more than the file needs.\<close>

theorem threaded_memory_bounded:
  assumes "fresh_file heap content s0" "tf_run heap content s0 outs s" "\<not> tf_compressed s0"
  shows "length (tf_blocks s) * tf_block_size s < tf_max_memory s0 + tf_block_size s \<and>
    (\<forall>(p, b) \<in> set (tf_blocks s). b_offset_in_file b < length content)"
proof -
  have ok: "run_ok heap content s0 outs s" by (rule tf_run_ok [OF assms(2,1)])
  then have inv: "tf_inv heap content s" and same: "same_setup s0 s" by (auto simp: run_ok_def tf_good_def)
  obtain n: "nodes_ok content s" by (rule tf_invE [OF inv])
  show ?thesis using ok same assms(3) n by (fastforce simp: run_ok_def same_setup_def nodes_ok_def)
qed

theorem threaded_memory_bounded_witness:
  "length (tf_blocks tiny_open) * 4 < 4 + 4 \<and> tf_max_memory tiny_file = 4"
  using threaded_memory_bounded [OF tiny_file_fresh tiny_run_open] by (simp add: tiny_defs)

text \<open>The maximum does not hold for a compressed file: every call of \<^verbatim>\<open>read\<close> schedules another block, also when the first block has enough bytes
  for it.\<close>

lemma compressed_read_adds_block:
  assumes s: "tf_compressed s" "\<not> tf_eof s" "\<not> tf_has_exception s" "\<not> tf_read_eof s" "tf_tasks s = Some q"
    "tf_blocks s = (p, b) # rest" "b_ready b" "b_consumed b + 1 < db_size (b_data b)"
    and m: "allocate_block heap (pool (tf_store s)) = (Inr m, a)" and q: "push_medium (Some (tf_next_node s)) q = Some q'"
  shows "\<exists>s' c. read_call heap content 1 s (Inr [c]) s' \<and> length (tf_blocks s') = length (tf_blocks s) + 1"
proof -
  let ?s = "add_node m a q' s"
  let ?c = "mem (tf_store s) (db_memory (b_data b) + b_consumed b)"
  let ?s2 = "?s\<lparr>tf_blocks := (p, b\<lparr>b_consumed := b_consumed b + 1\<rparr>) # tl (tf_blocks ?s)\<rparr>"
  have "schedule_block heap True (tf_eof s) s = (Inr True, ?s)"
    using s m q by (simp add: schedule_block_def add_node_def Let_def)
  then have "schedule_call heap content True s (Inr True) ?s" by (intro schedule_callI [of _ _ _ s]) simp_all
  from schedule_if_so [OF this] have sched: "schedule_if heap content (tf_compressed s) True s (Inr ()) ?s" using s(1) by simp
  have hd: "tf_blocks ?s \<noteq> []" "hd (tf_blocks ?s) = (p, b)" using s(6) by (simp_all add: add_node_def)
  have "front_call heap content ?s (rbind (Inr b) (\<lambda>b. Inr (Some b))) ?s"
    using s hd by (intro front_block [where ?s1.0 = ?s and ?s2.0 = ?s])
      (auto simp: front_begin_def handle_exception_def front_wakes_def front_end_def Let_def)
  then have front: "front_call heap content ?s (Inr (Some b)) ?s" by simp
  have turn: "read_turn 1 b ?s = Inr (Some ([?c], False, ?s2))"
    using s(8) hd by (simp add: read_turn_def size_sub_def Let_def add_node_def) 
  from read_more [OF _ sched front turn, of ?s2 "Inr []" ?s2]
  have "read_call heap content 1 s (Inr [?c]) ?s2" by (simp add: schedule_if_not read_end)
  moreover have "length (tf_blocks ?s2) = length (tf_blocks s) + 1" using s(6) by (simp add: add_node_def)
  ultimately show ?thesis by blast
qed

text \<open>When there is no memory for the next block, \<^verbatim>\<open>extract\<close> throws after it has taken the first block out of the list: the block is still allocated,
  but neither the list nor the caller has it, and its bytes are skipped.\<close>

lemma extract_failure_loses_block:
  assumes good: "tf_good heap content s" and raw: "\<not> tf_compressed s" and front: "front_call heap content s (Inr (Some b)) s2"
    and sched: "schedule_if heap content True False (hand_over (b_data b) s2) (Inl e) s3"
  shows "extract_call heap content s (Inl e) s3 \<and> first_node s3 = first_node s + 1 \<and>
    db_memory (b_data b) \<in> used_blocks (pool (tf_store s3)) \<and> (\<forall>(p, c) \<in> set (tf_blocks s3). db_memory (b_data c) \<noteq> db_memory (b_data b))"
proof -
  note f = front_call_ok [OF good front]
  obtain rest where b: "tf_blocks s2 = (first_node s2, b) # rest" "b_ready b" "db_size (b_data b) = 0 \<longrightarrow> tf_read_eof s2"
    using f by auto
  have good2: "tf_good heap content s2" "first_node s2 = first_node s" using f by (auto simp: calm_def)
  note h = hand_over_good [OF good2(1) b]
  note k = schedule_if_ok [OF conjunct1 [OF h] sched]
  have held: "(db_memory (b_data b), block_bytes (tf_store s2) (b_data b)) \<in> set (tf_held s3)"
    using k hand_over_setup(3) [of "b_data b" s2] by (simp add: calm_def)
  obtain m: "memory_ok heap s3" using k by (auto simp: tf_good_def elim!: tf_invE)
  have "db_memory (b_data b) \<in> used_blocks (pool (tf_store s3))" using owned_distinct(4) [OF m held] m by (auto simp: memory_ok_def)
  moreover have "first_node s3 = first_node s + 1" using k h good2(2) by (simp add: calm_def)
  moreover have "schedule_if heap content (tf_compressed s) True s (Inr ()) s" using raw by (simp add: schedule_if_not)
  from extract_block [OF this front, of "Inl e" s3] have "extract_call heap content s (Inl e) s3" using sched raw by simp
  ultimately show ?thesis using owned_distinct(2) [OF m _ held] by auto
qed

end
