(* ===== verification/Dialect.thy ===== *)
theory Dialect
  imports Sql_Format
begin

text \<open>
  Model of \<^verbatim>\<open>modules/util/import_table/dialect.{h,cc}\<close>: the separators of an import file, the named dialects, their
  validation, and the clause of the \<^verbatim>\<open>LOAD DATA\<close> statement that tells the server about them.

  The theorems: the clause is always built and contains the separators as quoted literals; every
  named dialect is valid; and whatever is accepted has at most one enclosing and one escaping character and a line terminator that does
  not start with the latter.
\<close>

record dialect =
  lines_terminated_by :: string
  fields_escaped_by :: string
  fields_terminated_by :: string
  fields_enclosed_by :: string
  fields_optionally_enclosed :: bool
  lines_starting_by :: string

definition default_dialect :: dialect where
  "default_dialect = \<lparr>lines_terminated_by = [CHR 0x0A], fields_escaped_by = [CHR 0x5C], fields_terminated_by = [CHR 0x09],
     fields_enclosed_by = [], fields_optionally_enclosed = False, lines_starting_by = []\<rparr>"

definition json :: dialect where
  "json = \<lparr>lines_terminated_by = [CHR 0x0A], fields_escaped_by = [], fields_terminated_by = [CHR 0x0A],
     fields_enclosed_by = [], fields_optionally_enclosed = False, lines_starting_by = []\<rparr>"

definition csv :: dialect where
  "csv = \<lparr>lines_terminated_by = [CHR 0x0D, CHR 0x0A], fields_escaped_by = [CHR 0x5C], fields_terminated_by = '','',
     fields_enclosed_by = [CHR 0x22], fields_optionally_enclosed = True, lines_starting_by = []\<rparr>"

definition tsv :: dialect where
  "tsv = csv\<lparr>fields_terminated_by := [CHR 0x09]\<rparr>"

definition csv_unix :: dialect where
  "csv_unix = \<lparr>lines_terminated_by = [CHR 0x0A], fields_escaped_by = [CHR 0x5C], fields_terminated_by = '','',
     fields_enclosed_by = [CHR 0x22], fields_optionally_enclosed = False, lines_starting_by = []\<rparr>"

definition csv_rfc_unix :: dialect where
  "csv_rfc_unix = \<lparr>lines_terminated_by = [CHR 0x0A], fields_escaped_by = [], fields_terminated_by = '','',
     fields_enclosed_by = [CHR 0x22], fields_optionally_enclosed = True, lines_starting_by = []\<rparr>"

definition set_dialect :: "string \<Rightarrow> dialect \<Rightarrow> dialect result" where
  "set_dialect name d =
     (if name = [] then Inr d
      else if str_caseeq name ''default'' then Inr d
      else if str_caseeq name ''csv'' then Inr csv
      else if str_caseeq name ''tsv'' then Inr tsv
      else if str_caseeq name ''json'' then Inr json
      else if str_caseeq name ''csv-unix'' then Inr csv_unix
      else if str_caseeq name ''csv-rfc-unix'' then Inr csv_rfc_unix
      else Inl (Argument_error ''dialect value must be default, csv, tsv, json, csv-unix or csv-rfc-unix.''))"

definition dialect_eq :: "dialect \<Rightarrow> dialect \<Rightarrow> bool" where
  "dialect_eq a b \<longleftrightarrow>
     lines_terminated_by a = lines_terminated_by b \<and> fields_escaped_by a = fields_escaped_by b \<and>
     fields_terminated_by a = fields_terminated_by b \<and> fields_enclosed_by a = fields_enclosed_by b \<and>
     fields_optionally_enclosed a = fields_optionally_enclosed b \<and> lines_starting_by a = lines_starting_by b"

section \<open>Validation\<close>

definition k_escaped_chars :: string where
  "k_escaped_chars = ''ntrb0ZN''"

definition k_numeric_chars :: string where
  "k_numeric_chars = ''.0123456789e+-''"

definition BUFFER_SIZE :: nat where
  "BUFFER_SIZE = 65536"

definition validate :: "dialect \<Rightarrow> unit result" where
  "validate d =
     (let lt = lines_terminated_by d; esc = fields_escaped_by d; ft = fields_terminated_by d; enc = fields_enclosed_by d;
          opt = fields_optionally_enclosed d
      in if \<not> length lt div 2 < BUFFER_SIZE then Inl (Invalid_argument ''Line terminator string is too long.'')
      else if 1 < length esc then Inl (Invalid_argument ''fieldsEscapedBy must be empty or a char.'')
      else if lt \<noteq> [] \<and> esc \<noteq> [] \<and> find_sub esc lt = Some 0
      then Inl (Invalid_argument ''Separators cannot be the same or be a prefix of another.'')
      else if 1 < length enc then Inl (Invalid_argument ''fieldsEnclosedBy must be empty or a char.'')
      else if opt \<and> enc = []
      then Inl (Invalid_argument ''fieldsEnclosedBy must be set if fieldsOptionallyEnclosed is true.'')
      else if ft = [] \<and> enc = []
      then Inl (Invalid_argument (''The fieldsTerminatedBy and fieldsEnclosedBy are both empty, resulting '' @
             ''in a fixed-row format. This is currently not supported.''))
      else if ft \<noteq> [] \<and> (enc = [] \<and> hd ft \<in> set k_escaped_chars \<or> opt \<and> hd ft \<in> set k_numeric_chars)
      then Inl (Invalid_argument (''First character of the fieldsTerminatedBy string is ambiguous: '' @ [hd ft] @
             '', please use non-empty fieldsEnclosedBy and set fieldsOptionallyEnclosed to false.''))
      else Inr ())"

definition on_unpacked_options :: "dialect \<Rightarrow> dialect result" where
  "on_unpacked_options d =
     rbind (validate d) (\<lambda>_.
       Inr (if lines_terminated_by d = [] \<and> fields_terminated_by d \<noteq> []
            then d\<lparr>lines_terminated_by := fields_terminated_by d\<rparr> else d))"

section \<open>The clause of the statement\<close>

definition build_sql :: "dialect \<Rightarrow> string result" where
  "build_sql d =
     rbind (sqlformat 0 ''FIELDS TERMINATED BY ?'' [Arg_string (fields_terminated_by d)]) (\<lambda>sql.
     rbind (if fields_enclosed_by d \<noteq> []
            then rbind (sqlformat 0 '' ENCLOSED BY ?'' [Arg_string (fields_enclosed_by d)])
                   (\<lambda>e. Inr (sql @ (if fields_optionally_enclosed d then '' OPTIONALLY'' else []) @ e))
            else Inr sql) (\<lambda>sql.
     rbind (sqlformat 0 '' ESCAPED BY ? LINES STARTING BY ? TERMINATED BY ?''
              [Arg_string (fields_escaped_by d), Arg_string (lines_starting_by d), Arg_string (lines_terminated_by d)])
       (\<lambda>t. Inr (sql @ t))))"

lemma sqlformat_one:
  assumes "list_all plain_char p" "length p + 1 < npos"
  shows "sqlformat 0 (p @ ''?'') [Arg_string v] = Inr (p @ quote_sql_string v)"
  using sqlformat_filled [of "[p, []]" "[Arg_string v]" 0] assms by (simp add: value_arg_def quote_sql_string_def)

lemma plain_text:
  "list_all plain_char ''FIELDS TERMINATED BY ''" "list_all plain_char '' ENCLOSED BY ''"
  "list_all plain_char '' ESCAPED BY ''" "list_all plain_char '' LINES STARTING BY ''"
  "list_all plain_char '' TERMINATED BY ''"
  by (simp_all add: plain_char_def)

text \<open>The clause is built for every dialect, and holds the separators as quoted literals (which the
  lexer reads back as the separators) in the places the statement has for them.\<close>

theorem build_sql_clause:
  "build_sql d = Inr (
     ''FIELDS TERMINATED BY '' @ quote_sql_string (fields_terminated_by d) @
     (if fields_enclosed_by d = [] then []
      else (if fields_optionally_enclosed d then '' OPTIONALLY'' else []) @
        '' ENCLOSED BY '' @ quote_sql_string (fields_enclosed_by d)) @
     '' ESCAPED BY '' @ quote_sql_string (fields_escaped_by d) @
     '' LINES STARTING BY '' @ quote_sql_string (lines_starting_by d) @
     '' TERMINATED BY '' @ quote_sql_string (lines_terminated_by d))"
proof -
  have "sqlformat 0 ''FIELDS TERMINATED BY ?'' [Arg_string v] = Inr (''FIELDS TERMINATED BY '' @ quote_sql_string v)" for v
    using sqlformat_one [OF plain_text(1), of v] by (simp add: npos_def)
  moreover have "sqlformat 0 '' ENCLOSED BY ?'' [Arg_string v] = Inr ('' ENCLOSED BY '' @ quote_sql_string v)" for v
    using sqlformat_one [OF plain_text(2), of v] by (simp add: npos_def)
  moreover have "sqlformat 0 '' ESCAPED BY ? LINES STARTING BY ? TERMINATED BY ?'' [Arg_string u, Arg_string v, Arg_string w] =
      Inr ('' ESCAPED BY '' @ quote_sql_string u @ '' LINES STARTING BY '' @ quote_sql_string v @
           '' TERMINATED BY '' @ quote_sql_string w)" for u v w
    using sqlformat_filled [of "['' ESCAPED BY '', '' LINES STARTING BY '', '' TERMINATED BY '', []]"
        "[Arg_string u, Arg_string v, Arg_string w]" 0] plain_text
    by (simp add: value_arg_def quote_sql_string_def npos_def)
  ultimately show ?thesis unfolding build_sql_def by simp
qed

section \<open>What validation guarantees\<close>

text \<open>The dialects the import utility works with.\<close>

definition dialect_ok :: "dialect \<Rightarrow> bool" where
  "dialect_ok d \<longleftrightarrow>
     length (fields_escaped_by d) \<le> 1 \<and> length (fields_enclosed_by d) \<le> 1 \<and>
     (fields_terminated_by d \<noteq> [] \<or> fields_enclosed_by d \<noteq> []) \<and>
     (fields_optionally_enclosed d \<longrightarrow> fields_enclosed_by d \<noteq> []) \<and>
     (lines_terminated_by d \<noteq> [] \<and> fields_escaped_by d \<noteq> [] \<longrightarrow> hd (lines_terminated_by d) \<noteq> hd (fields_escaped_by d))"

lemma validate_ok:
  assumes "validate d = Inr ()"
  shows "dialect_ok d"
proof -
  have v: "length (fields_escaped_by d) \<le> 1" "length (fields_enclosed_by d) \<le> 1"
      "fields_terminated_by d \<noteq> [] \<or> fields_enclosed_by d \<noteq> []"
      "fields_optionally_enclosed d \<longrightarrow> fields_enclosed_by d \<noteq> []"
      "lines_terminated_by d \<noteq> [] \<and> fields_escaped_by d \<noteq> [] \<longrightarrow> find_sub (fields_escaped_by d) (lines_terminated_by d) \<noteq> Some 0"
    using assms unfolding validate_def Let_def by (simp_all split: if_splits) blast
  moreover have "hd (lines_terminated_by d) \<noteq> hd (fields_escaped_by d)"
    if ne: "lines_terminated_by d \<noteq> []" "fields_escaped_by d \<noteq> []"
  proof -
    obtain e where e: "fields_escaped_by d = [e]" using v(1) ne(2) by (cases "fields_escaped_by d") auto
    obtain c l where l: "lines_terminated_by d = c # l" using ne(1) by (cases "lines_terminated_by d") auto
    show ?thesis using v(5) by (auto simp: e l split: if_splits)
  qed
  ultimately show ?thesis by (simp add: dialect_ok_def)
qed

lemmas dialect_defs = default_dialect_def json_def csv_def tsv_def csv_unix_def csv_rfc_unix_def

lemma named_dialect_valid:
  "validate default_dialect = Inr ()" "validate json = Inr ()" "validate csv = Inr ()" "validate tsv = Inr ()"
  "validate csv_unix = Inr ()" "validate csv_rfc_unix = Inr ()"
  by (simp_all add: validate_def dialect_defs BUFFER_SIZE_def k_escaped_chars_def k_numeric_chars_def)

lemma named_dialects_valid: "d \<in> {default_dialect, json, csv, tsv, csv_unix, csv_rfc_unix} \<Longrightarrow> validate d = Inr ()"
  using named_dialect_valid by blast

text \<open>A name selects its dialect whatever the case of its letters; the empty name and the default keep the dialect.\<close>

lemma set_dialect_valid:
  assumes "set_dialect name d = Inr d'" "validate d = Inr ()"
  shows "validate d' = Inr ()"
  using assms named_dialects_valid [of d'] by (auto simp: set_dialect_def split: if_splits)

end
