(* ===== verification/Scanner.thy ===== *)
theory Scanner
  imports Dialect "HOL-Library.Sublist"
begin

text \<open>
  Model of \<^verbatim>\<open>modules/util/import_table/scanner.{h,cc}\<close>: the scanner that reads an import file block by block and finds the
  first row that starts in a block. A sequence that is cut by the end of a block is put back on a small stack and read again with the
  next block.

  A character that was read is a value of \<open>chr\<close>: the code uses an int, with its largest value for a separator that is not
  used and its smallest value for the end of the block. The block is the list of the characters that are left in it, so \<^verbatim>\<open>m_length\<close> is
  its length; the stack is a list with the top first, with room for \<open>stack_size\<close> characters: writing beyond it is
  undefined.
\<close>

datatype chr = Chr char | End_of_block | Not_used

fun as_char :: "chr \<Rightarrow> char" where
  "as_char (Chr c) = c"
| "as_char End_of_block = CHR 0x00"
| "as_char Not_used = CHR 0xFF"

definition first_char :: "string \<Rightarrow> chr" where
  "first_char s = (if s \<noteq> [] then Chr (hd s) else Not_used)"

definition used :: "chr \<Rightarrow> bool" where
  "used c \<longleftrightarrow> c \<noteq> Not_used"

datatype row_status = BEGIN | PREFIX | BEGIN_OF_FIELD | FIELD

datatype field_status = CONTINUED | END_OF_FIELD | END_OF_LINE

text \<open>A sequence is a string; its first character is \<open>first_char\<close>.\<close>

record scanner =
  m_skip_rows :: nat
  m_fields_terminated_by :: string
  m_lines_starting_by :: string
  m_lines_terminated_by :: string
  m_enclosed_char :: chr
  m_escaped_char :: chr
  stack_size :: nat
  m_stack :: string
  m_data :: string
  m_end_of_block :: bool
  m_status :: row_status
  m_found_enclosed_char :: chr

definition new_scanner :: "dialect \<Rightarrow> nat \<Rightarrow> scanner result" where
  "new_scanner d skip_rows =
     (if lines_terminated_by d = [] \<or> lines_terminated_by d = fields_terminated_by d
      then Inl (Invalid_argument (''Scanner: unsupported LINES TERMINATED BY: '' @ [CHR 0x27] @ lines_terminated_by d @ [CHR 0x27]))
      else Inr \<lparr>m_skip_rows = skip_rows, m_fields_terminated_by = fields_terminated_by d,
             m_lines_starting_by = lines_starting_by d, m_lines_terminated_by = lines_terminated_by d,
             m_enclosed_char = first_char (fields_enclosed_by d), m_escaped_char = first_char (fields_escaped_by d),
             stack_size = max (length (fields_terminated_by d) + 1)
               (max (length (lines_starting_by d)) (length (lines_terminated_by d) + 1)),
             m_stack = [], m_data = [], m_end_of_block = False, m_status = BEGIN, m_found_enclosed_char = Not_used\<rparr>)"

section \<open>Reading and putting back\<close>

definition get :: "scanner \<Rightarrow> chr \<times> scanner" where
  "get sc =
     (case m_stack sc of
        c # cs \<Rightarrow> (Chr c, sc\<lparr>m_stack := cs\<rparr>)
      | [] \<Rightarrow> (case m_data sc of
                c # cs \<Rightarrow> (Chr c, sc\<lparr>m_data := cs\<rparr>)
              | [] \<Rightarrow> (End_of_block, sc\<lparr>m_end_of_block := True\<rparr>)))"

definition unget :: "char \<Rightarrow> scanner \<Rightarrow> scanner result" where
  "unget c sc =
     (if length (m_stack sc) < stack_size sc then Inr (sc\<lparr>m_stack := c # m_stack sc\<rparr>)
      else Inl (Undefined ''Scanner::unget: stack overflow''))"

text \<open>The loop that compares, with the index at which it stops and the last character it read, and the loop that puts
  back the characters that matched.\<close>

function contains_loop :: "string \<Rightarrow> nat \<Rightarrow> chr \<Rightarrow> scanner \<Rightarrow> nat \<times> chr \<times> scanner" where
  "contains_loop s i chr sc =
     (if i < length s then
        let (chr', sc') = get sc
        in if chr' \<noteq> Chr (s ! i) then (i, chr', sc') else contains_loop s (i + 1) chr' sc'
      else (i, chr, sc))"
  by pat_completeness auto
termination
  by (relation "measure (\<lambda>(s, i, _). length s - i)") auto

declare contains_loop.simps [simp del]

fun unget_loop :: "string \<Rightarrow> nat \<Rightarrow> scanner \<Rightarrow> scanner result" where
  "unget_loop s i sc = (if 1 < i then rbind (unget (s ! (i - 1)) sc) (unget_loop s (i - 1)) else Inr sc)"

declare unget_loop.simps [simp del]

definition contains :: "string \<Rightarrow> scanner \<Rightarrow> (bool \<times> scanner) result" where
  "contains s sc =
     (let (i, chr, sc1) = contains_loop s 1 (Chr (CHR 0x00)) sc
      in if length s = i then Inr (True, sc1)
         else rbind (if m_end_of_block sc1 then Inr sc1 else unget (as_char chr) sc1) (\<lambda>sc2.
              rbind (unget_loop s i sc2) (\<lambda>sc3. Inr (False, sc3))))"

section \<open>Loops over the characters of the block\<close>

text \<open>The number of characters that can still be read: the measure of the loops.\<close>

definition left :: "scanner \<Rightarrow> nat" where
  "left sc = length (m_stack sc) + length (m_data sc)"

text \<open>The comparison with a sequence in \<^verbatim>\<open>skip_row\<close> and \<^verbatim>\<open>skip_line_start\<close>: if the block ends before it is decided, the
  first character is put back as well.\<close>

definition at_sequence :: "string \<Rightarrow> chr \<Rightarrow> scanner \<Rightarrow> (bool \<times> scanner) result" where
  "at_sequence s chr sc =
     rbind (if chr = first_char s then contains s sc else Inr (False, sc)) (\<lambda>(found, sc1).
       if found then Inr (True, sc1)
       else rbind (if m_end_of_block sc1 then unget (as_char chr) sc1 else Inr sc1) (\<lambda>sc2. Inr (False, sc2)))"

definition skip_row_turn :: "scanner \<Rightarrow> (bool \<times> scanner) result" where
  "skip_row_turn sc =
     (let (chr, sc1) = get sc
      in if chr = m_escaped_char sc1 then
           let (chr, sc2) = get sc1
           in rbind (if m_end_of_block sc2 then unget (as_char (m_escaped_char sc2)) sc2 else Inr sc2)
                (\<lambda>sc3. Inr (False, sc3))
         else at_sequence (m_lines_terminated_by sc1) chr sc1)"

definition skip_line_start_turn :: "scanner \<Rightarrow> (bool \<times> scanner) result" where
  "skip_line_start_turn sc = (let (chr, sc1) = get sc in at_sequence (m_lines_starting_by sc1) chr sc1)"

text \<open>The comparison with a terminator that occurs four times in \<^verbatim>\<open>scan_field\<close>: the terminator ends the field or the line; if
  the block ends first, the characters that were read are put back and the function returns; otherwise it goes on.\<close>

definition unget_all :: "chr list \<Rightarrow> scanner \<Rightarrow> scanner result" where
  "unget_all = rfold (\<lambda>c. unget (as_char c))"

definition at_terminator :: "string \<Rightarrow> chr list \<Rightarrow> field_status \<Rightarrow> chr \<Rightarrow> scanner \<Rightarrow> (field_status option \<times> scanner) result" where
  "at_terminator s back status chr sc =
     (if chr = first_char s then
        rbind (contains s sc) (\<lambda>(found, sc1).
          if found then Inr (Some status, sc1)
          else if m_end_of_block sc1 then rbind (unget_all back sc1) (\<lambda>sc2. Inr (Some CONTINUED, sc2))
          else Inr (None, sc1))
      else Inr (None, sc))"

definition or_else :: "('a option \<times> 's) result \<Rightarrow> ('s \<Rightarrow> ('a option \<times> 's) result) \<Rightarrow> ('a option \<times> 's) result" where
  "or_else m f = rbind m (\<lambda>(r, s). case r of Some x \<Rightarrow> Inr (Some x, s) | None \<Rightarrow> f s)"

text \<open>The enclosing character was read in an enclosed field.\<close>

definition scan_enclosed :: "scanner \<Rightarrow> (field_status option \<times> scanner) result" where
  "scan_enclosed sc =
     (let (chr, sc1) = get sc; q = m_found_enclosed_char sc1
      in if m_end_of_block sc1 then rbind (unget_all [q] sc1) (\<lambda>sc2. Inr (Some CONTINUED, sc2))
         else if chr = q then Inr (None, sc1)
         else or_else (at_terminator (m_lines_terminated_by sc1) [chr, q] END_OF_LINE chr sc1) (\<lambda>sc2.
              or_else (at_terminator (m_fields_terminated_by sc2) [chr, q] END_OF_FIELD chr sc2) (\<lambda>sc3.
              rbind (unget (as_char chr) sc3) (\<lambda>sc4. Inr (None, sc4)))))"

definition scan_char :: "chr \<Rightarrow> scanner \<Rightarrow> (field_status option \<times> scanner) result" where
  "scan_char chr sc =
     or_else (if \<not> used (m_found_enclosed_char sc)
              then at_terminator (m_lines_terminated_by sc) [chr] END_OF_LINE chr sc else Inr (None, sc)) (\<lambda>sc1.
       if chr = m_found_enclosed_char sc1 then scan_enclosed sc1
       else if \<not> used (m_found_enclosed_char sc1)
       then at_terminator (m_fields_terminated_by sc1) [chr] END_OF_FIELD chr sc1
       else Inr (None, sc1))"

definition scan_field_turn :: "scanner \<Rightarrow> (field_status option \<times> scanner) result" where
  "scan_field_turn sc =
     (let (chr, sc1) = get sc
      in if chr = m_escaped_char sc1 then
           let (chr, sc2) = get sc1
           in if m_end_of_block sc2 then rbind (unget_all [m_escaped_char sc2] sc2) (\<lambda>sc3. Inr (Some CONTINUED, sc3))
              else if m_escaped_char sc2 \<noteq> m_enclosed_char sc2 \<or> chr = m_escaped_char sc2 then Inr (None, sc2)
              else rbind (unget (as_char chr) sc2) (\<lambda>sc3. scan_char (m_escaped_char sc3) sc3)
         else scan_char chr sc1)"


text \<open>Reading does not make progress when the end of the block was seen although there is data left. This does not
  happen: \<open>scan\<close> resets the flag, and from then on it is set only when the block is empty. The loops of the code, which would not return
  in such a state, are undefined there.\<close>

lemma get_progress:
  assumes "get sc = (c, sc')" "\<not> m_end_of_block sc"
  shows "left sc' + (if m_end_of_block sc' then 0 else 1) = left sc" "m_end_of_block sc' \<longrightarrow> m_data sc' = [] \<and> left sc = 0" "c \<noteq> Not_used"
  using assms by (auto simp: get_def left_def split: list.splits)

lemma unget_progress:
  "unget c sc = Inr sc' \<Longrightarrow> left sc' = left sc + 1 \<and> m_data sc' = m_data sc \<and> m_end_of_block sc' = m_end_of_block sc"
  by (auto simp: unget_def left_def split: if_splits)

lemma contains_loop_progress:
  assumes "contains_loop s i c sc = (i', c', sc')" "\<not> m_end_of_block sc" "i \<le> length s"
  shows "left sc' + i' + (if m_end_of_block sc' \<or> i' = length s then 0 else 1) = left sc + i \<and>
    (m_end_of_block sc' \<longrightarrow> m_data sc' = [] \<and> i' < length s) \<and> i \<le> i'"
  using assms
proof (induction s i c sc rule: contains_loop.induct)
  case (1 s i c sc)
  obtain d sc1 where g: "get sc = (d, sc1)" by fastforce
  note p = get_progress [OF g 1(3)]
  show ?case
  proof (cases "i < length s \<and> d = Chr (s ! i)")
    case True
    then have "\<not> m_end_of_block sc1" using g 1(3) by (auto simp: get_def split: list.splits)
    then show ?thesis using 1(1) [of "(d, sc1)" d sc1] 1(2) True g p by (auto simp: contains_loop.simps [of s i])
  next
    case False
    then show ?thesis using 1(2-) g p by (auto simp: contains_loop.simps [of s i] split: if_splits)
  qed
qed

lemma unget_loop_progress:
  "unget_loop s i sc = Inr sc' \<Longrightarrow> left sc' = left sc + (i - 1) \<and> m_data sc' = m_data sc \<and> m_end_of_block sc' = m_end_of_block sc"
proof (induction s i sc rule: unget_loop.induct)
  case (1 s i sc)
  show ?case
  proof (cases "1 < i")
    case True
    then obtain sc1 where u: "unget (s ! (i - 1)) sc = Inr sc1" "unget_loop s (i - 1) sc1 = Inr sc'"
      using 1(2) by (auto simp: unget_loop.simps [of s i])
    show ?thesis using 1(1) [OF True u] unget_progress [OF u(1)] True by simp
  qed (use 1(2) in \<open>simp add: unget_loop.simps [of s i]\<close>)
qed

lemma contains_progress:
  assumes "contains s sc = Inr (b, sc')" "\<not> m_end_of_block sc" "s \<noteq> []"
  shows "left sc' \<le> left sc \<and> (m_end_of_block sc' \<longrightarrow> m_data sc' = [] \<and> \<not> b)"
proof -
  obtain i c sc1 where l: "contains_loop s 1 (Chr (CHR 0x00)) sc = (i, c, sc1)" by (metis prod_cases3)
  note p = contains_loop_progress [OF l assms(2)]
  moreover have "1 \<le> length s" using assms(3) by (simp add: Suc_le_eq)
  ultimately show ?thesis using assms
    by (auto simp: contains_def l simp del: One_nat_def dest!: unget_progress unget_loop_progress split: if_splits)
qed

definition turn_ok :: "nat \<Rightarrow> field_status option \<Rightarrow> scanner \<Rightarrow> bool" where
  "turn_ok n r sc \<longleftrightarrow>
     (if r = Some CONTINUED then m_data sc = [] else \<not> m_end_of_block sc \<and> left sc \<le> n) \<and>
     (m_end_of_block sc \<longrightarrow> m_data sc = [])"

lemma unget_all_progress:
  "unget_all cs sc = Inr sc' \<Longrightarrow> m_data sc' = m_data sc \<and> m_end_of_block sc' = m_end_of_block sc"
proof (induction cs arbitrary: sc)
  case (Cons c cs)
  then show ?case by (fastforce simp: unget_all_def dest: unget_progress)
qed (simp add: unget_all_def)

lemma first_char_eq: "c = first_char s \<Longrightarrow> c \<noteq> Not_used \<Longrightarrow> s \<noteq> []"
  by (auto simp: first_char_def split: if_splits)

lemma at_terminator_progress:
  assumes "at_terminator s back status chr sc = Inr (r, sc')" "\<not> m_end_of_block sc" "chr \<noteq> Not_used" "status \<noteq> CONTINUED"
  shows "turn_ok (left sc) r sc'"
proof (cases "chr = first_char s")
  case True
  then have "s \<noteq> []" using assms(3) first_char_eq by blast
  then show ?thesis using assms True
    by (auto simp: at_terminator_def turn_ok_def dest!: contains_progress unget_all_progress split: if_splits prod.splits)
next
  case False
  then show ?thesis using assms by (auto simp: at_terminator_def turn_ok_def)
qed

lemma turn_ok_mono: "turn_ok n r sc \<Longrightarrow> n \<le> n' \<Longrightarrow> turn_ok n' r sc"
  by (auto simp: turn_ok_def)

lemma or_else_turn_ok:
  assumes "or_else m f = Inr (r, sc')" "\<And>r1 sc1. m = Inr (r1, sc1) \<Longrightarrow> turn_ok n0 r1 sc1" "n0 \<le> n"
    "\<And>sc1. \<not> m_end_of_block sc1 \<Longrightarrow> left sc1 \<le> n0 \<Longrightarrow> f sc1 = Inr (r, sc') \<Longrightarrow> turn_ok n r sc'"
  shows "turn_ok n r sc'"
proof -
  from assms(1) obtain r1 sc1 where m: "m = Inr (r1, sc1)" by (auto simp: or_else_def)
  show ?thesis
  proof (cases r1)
    case None
    then show ?thesis using assms(1) assms(2) [OF m] assms(4) [of sc1] m by (auto simp: or_else_def turn_ok_def)
  next
    case (Some x)
    then show ?thesis using assms(1,3) assms(2) [OF m] turn_ok_mono m by (auto simp: or_else_def)
  qed
qed

lemma scan_enclosed_progress:
  assumes "scan_enclosed sc = Inr (r, sc')" "\<not> m_end_of_block sc"
  shows "turn_ok (left sc) r sc'"
proof -
  obtain c sc1 where g: "get sc = (c, sc1)" by fastforce
  note p = get_progress [OF g assms(2)]
  show ?thesis
  proof (cases "m_end_of_block sc1 \<or> c = m_found_enclosed_char sc1")
    case True
    then show ?thesis using assms(1) g p
      by (auto simp: scan_enclosed_def turn_ok_def Let_def dest!: unget_all_progress split: if_splits)
  next
    case False
    then have n: "left sc1 + 1 = left sc" "\<not> m_end_of_block sc1" using p by (auto split: if_splits)
    let ?q = "m_found_enclosed_char sc1"
    have "or_else (at_terminator (m_lines_terminated_by sc1) [c, ?q] END_OF_LINE c sc1) (\<lambda>sc2.
        or_else (at_terminator (m_fields_terminated_by sc2) [c, ?q] END_OF_FIELD c sc2) (\<lambda>sc3.
        rbind (unget (as_char c) sc3) (\<lambda>sc4. Inr (None, sc4)))) = Inr (r, sc')"
      using assms(1) g False by (simp add: scan_enclosed_def Let_def)
    then show ?thesis
    proof (rule or_else_turn_ok)
      show "turn_ok (left sc1) r1 sc2" if "at_terminator (m_lines_terminated_by sc1) [c, ?q] END_OF_LINE c sc1 = Inr (r1, sc2)" for r1 sc2
        using at_terminator_progress [OF that n(2) p(3)] by simp
    next
      fix sc2
      assume a: "\<not> m_end_of_block sc2" "left sc2 \<le> left sc1"
        "or_else (at_terminator (m_fields_terminated_by sc2) [c, ?q] END_OF_FIELD c sc2) (\<lambda>sc3.
          rbind (unget (as_char c) sc3) (\<lambda>sc4. Inr (None, sc4))) = Inr (r, sc')"
      from a(3) show "turn_ok (left sc) r sc'"
      proof (rule or_else_turn_ok)
        show "turn_ok (left sc2) r1 sc3" if "at_terminator (m_fields_terminated_by sc2) [c, ?q] END_OF_FIELD c sc2 = Inr (r1, sc3)" for r1 sc3
          using at_terminator_progress [OF that a(1) p(3)] by simp
      qed (use n a in \<open>auto simp: turn_ok_def dest!: unget_progress\<close>)
    qed (use n in simp)
  qed
qed

lemma scan_char_progress:
  assumes "scan_char chr sc = Inr (r, sc')" "\<not> m_end_of_block sc" "chr \<noteq> Not_used"
  shows "turn_ok (left sc) r sc'"
  using assms(1) unfolding scan_char_def
proof (rule or_else_turn_ok)
  show "turn_ok (left sc) r1 sc1" if "(if \<not> used (m_found_enclosed_char sc)
      then at_terminator (m_lines_terminated_by sc) [chr] END_OF_LINE chr sc else Inr (None, sc)) = Inr (r1, sc1)" for r1 sc1
    using that assms(2,3) at_terminator_progress [of _ _ END_OF_LINE] by (auto simp: turn_ok_def split: if_splits)
next
  fix sc1
  assume "\<not> m_end_of_block sc1" "left sc1 \<le> left sc"
    "(if chr = m_found_enclosed_char sc1 then scan_enclosed sc1
      else if \<not> used (m_found_enclosed_char sc1)
      then at_terminator (m_fields_terminated_by sc1) [chr] END_OF_FIELD chr sc1 else Inr (None, sc1)) = Inr (r, sc')"
  then have "turn_ok (left sc1) r sc' \<and> left sc1 \<le> left sc"
    using scan_enclosed_progress [of sc1 r sc']
      at_terminator_progress [of "m_fields_terminated_by sc1" "[chr]" END_OF_FIELD chr sc1 r sc', OF _ _ assms(3)]
    by (cases "chr = m_found_enclosed_char sc1"; cases "used (m_found_enclosed_char sc1)") (simp_all add: turn_ok_def)
  then show "turn_ok (left sc) r sc'" using turn_ok_mono by blast
qed simp

lemma scan_field_turn_progress:
  assumes "scan_field_turn sc = Inr (r, sc')" "\<not> m_end_of_block sc" "m_data sc \<noteq> []"
  shows "turn_ok (left sc - 1) r sc'"
proof -
  obtain c sc1 where g: "get sc = (c, sc1)" by fastforce
  obtain c2 sc2 where g2: "get sc1 = (c2, sc2)" by fastforce
  have "left sc \<noteq> 0" using assms(3) by (simp add: left_def)
  then have e1: "\<not> m_end_of_block sc1" "left sc = left sc1 + 1" "c \<noteq> Not_used"
    using get_progress [OF g assms(2)] by (auto split: if_splits)
  note p2 = get_progress [OF g2 e1(1)]
  show ?thesis
  proof (cases "c = m_escaped_char sc1 \<and> \<not> m_end_of_block sc2 \<and> \<not> (m_escaped_char sc2 \<noteq> m_enclosed_char sc2 \<or> c2 = m_escaped_char sc2)")
    case True
    then obtain sc3 where u: "unget (as_char c2) sc2 = Inr sc3" "scan_char (m_escaped_char sc3) sc3 = Inr (r, sc')"
      using assms(1) g g2 by (auto simp: scan_field_turn_def)
    have "m_escaped_char sc3 = c" using u(1) g2 True by (auto simp: unget_def get_def split: if_splits list.splits)
    then show ?thesis using scan_char_progress [OF u(2)] unget_progress [OF u(1)] p2 e1 True by simp
  next
    case False
    then show ?thesis using assms(1) g g2 e1 p2 scan_char_progress [of c sc1 r sc']
      by (auto simp: scan_field_turn_def turn_ok_def dest!: unget_all_progress split: if_splits)
  qed
qed

lemma at_sequence_progress:
  assumes "at_sequence s chr sc = Inr (b, sc')" "\<not> m_end_of_block sc" "chr \<noteq> Not_used"
  shows "(m_end_of_block sc' \<longrightarrow> m_data sc' = [] \<and> \<not> b) \<and> (\<not> m_end_of_block sc' \<longrightarrow> left sc' \<le> left sc)"
proof (cases "chr = first_char s")
  case True
  then have "s \<noteq> []" using assms(3) first_char_eq by blast
  then show ?thesis using assms(1,2) True
    by (auto simp: at_sequence_def dest!: contains_progress unget_progress split: if_splits)
next
  case False
  then show ?thesis using assms by (auto simp: at_sequence_def split: if_splits)
qed

lemma line_turns_progress:
  assumes "skip_row_turn sc = Inr (b, sc') \<or> skip_line_start_turn sc = Inr (b, sc')" "\<not> m_end_of_block sc" "m_data sc \<noteq> []"
  shows "(m_end_of_block sc' \<longrightarrow> m_data sc' = [] \<and> \<not> b) \<and> (\<not> m_end_of_block sc' \<longrightarrow> left sc' < left sc)"
proof -
  obtain c sc1 where g: "get sc = (c, sc1)" by fastforce
  obtain c2 sc2 where g2: "get sc1 = (c2, sc2)" by fastforce
  have "left sc \<noteq> 0" using assms(3) by (simp add: left_def)
  then have e1: "\<not> m_end_of_block sc1" "left sc = left sc1 + 1" "c \<noteq> Not_used"
    using get_progress [OF g assms(2)] by (auto split: if_splits)
  note p2 = get_progress [OF g2 e1(1)]
  show ?thesis
  proof (cases "skip_row_turn sc = Inr (b, sc') \<and> c = m_escaped_char sc1")
    case True
    then show ?thesis using g g2 e1 p2 by (auto simp: skip_row_turn_def dest!: unget_progress split: if_splits)
  next
    case False
    then obtain s where "at_sequence s c sc1 = Inr (b, sc')"
      using assms(1) g by (auto simp: skip_row_turn_def skip_line_start_turn_def)
    from at_sequence_progress [OF this e1(1,3)] e1(2) show ?thesis by auto
  qed
qed

definition no_progress :: "'a result" where
  "no_progress = Inl (Undefined ''Scanner: end of block with data left'')"

definition pending :: "scanner \<Rightarrow> nat" where
  "pending sc = (if m_data sc = [] then 0 else left sc)"

lemma line_turns_pending:
  assumes "skip_row_turn sc = Inr (b, sc') \<or> skip_line_start_turn sc = Inr (b, sc')" "\<not> m_end_of_block sc" "m_data sc \<noteq> []"
  shows "pending sc' < pending sc"
  using line_turns_progress [OF assms] assms(3) by (auto simp: pending_def left_def)

lemmas skip_row_turn_pending = line_turns_pending [OF disjI1]
  and skip_line_start_turn_pending = line_turns_pending [OF disjI2]

function skip_row :: "scanner \<Rightarrow> (bool \<times> scanner) result" where
  "skip_row sc =
     (if m_data sc = [] then Inr (False, sc)
      else if m_end_of_block sc then no_progress
      else rbind (skip_row_turn sc) (\<lambda>(found, sc1). if found then Inr (True, sc1) else skip_row sc1))"
  by pat_completeness auto
termination
  by (relation "measure pending") (auto dest: skip_row_turn_pending)

function skip_line_start_loop :: "scanner \<Rightarrow> (bool \<times> scanner) result" where
  "skip_line_start_loop sc =
     (if m_data sc = [] then Inr (False, sc)
      else if m_end_of_block sc then no_progress
      else rbind (skip_line_start_turn sc) (\<lambda>(found, sc1). if found then Inr (True, sc1) else skip_line_start_loop sc1))"
  by pat_completeness auto
termination
  by (relation "measure pending") (auto dest: skip_line_start_turn_pending)

definition skip_line_start :: "scanner \<Rightarrow> (bool \<times> scanner) result" where
  "skip_line_start sc =
     (if \<not> used (first_char (m_lines_starting_by sc)) then Inr (True, sc) else skip_line_start_loop sc)"

lemma scan_field_turn_pending:
  assumes "scan_field_turn sc = Inr (None, sc')" "\<not> m_end_of_block sc" "m_data sc \<noteq> []"
  shows "pending sc' < pending sc"
proof -
  have "0 < left sc" using assms(3) by (simp add: left_def)
  then show ?thesis using scan_field_turn_progress [OF assms] assms(3) by (auto simp: pending_def turn_ok_def)
qed

function scan_field :: "scanner \<Rightarrow> (field_status \<times> scanner) result" where
  "scan_field sc =
     (if m_data sc = [] then Inr (CONTINUED, sc)
      else if m_end_of_block sc then no_progress
      else rbind (scan_field_turn sc) (\<lambda>(r, sc1). case r of Some status \<Rightarrow> Inr (status, sc1) | None \<Rightarrow> scan_field sc1))"
  by pat_completeness auto
termination
  by (relation "measure pending") (auto simp: scan_field_turn_pending)

declare skip_row.simps [simp del] skip_line_start_loop.simps [simp del] scan_field.simps [simp del]

section \<open>Scanning a block\<close>

function skip_rows :: "scanner \<Rightarrow> (bool \<times> scanner) result" where
  "skip_rows sc =
     (if 0 < m_skip_rows sc
      then rbind (skip_row sc) (\<lambda>(found, sc1).
             if found then skip_rows (sc1\<lparr>m_skip_rows := m_skip_rows sc - 1\<rparr>) else Inr (False, sc1))
      else Inr (True, sc))"
  by pat_completeness auto
termination
  by (relation "measure m_skip_rows") auto

declare skip_rows.simps [simp del]

text \<open>The loops return with an empty block or with fewer characters to read.\<close>

lemma skip_line_start_progress:
  "skip_line_start_loop sc = Inr (b, sc') \<Longrightarrow> pending sc' \<le> pending sc"
proof (induction sc rule: skip_line_start_loop.induct)
  case (1 sc)
  show ?case
  proof (cases "m_data sc = [] \<or> m_end_of_block sc")
    case True
    then show ?thesis using 1(2) by (auto simp: skip_line_start_loop.simps [of sc] no_progress_def split: if_splits)
  next
    case False
    then obtain f sc1 where t: "skip_line_start_turn sc = Inr (f, sc1)"
        "(if f then Inr (True, sc1) else skip_line_start_loop sc1) = Inr (b, sc')"
      using 1(2) by (auto simp: skip_line_start_loop.simps [of sc])
    have "pending sc1 < pending sc" using line_turns_pending t(1) False by blast
    then show ?thesis using t 1(1) [of "(f, sc1)" f sc1] False by (auto split: if_splits)
  qed
qed

lemma scan_field_progress:
  "scan_field sc = Inr (r, sc') \<Longrightarrow> m_data sc \<noteq> [] \<Longrightarrow> pending sc' < pending sc \<and> (r = CONTINUED \<longrightarrow> m_data sc' = [])"
proof (induction sc rule: scan_field.induct)
  case (1 sc)
  then have e: "\<not> m_end_of_block sc" by (auto simp: scan_field.simps [of sc] no_progress_def split: if_splits)
  then obtain t sc1 where t: "scan_field_turn sc = Inr (t, sc1)"
      "(case t of Some status \<Rightarrow> Inr (status, sc1) | None \<Rightarrow> scan_field sc1) = Inr (r, sc')"
    using 1(2,3) by (auto simp: scan_field.simps [of sc])
  note p = scan_field_turn_progress [OF t(1) e 1(3)]
  have l: "0 < left sc" "pending sc = left sc" using 1(3) by (auto simp: left_def pending_def)
  show ?case
  proof (cases t)
    case None
    then have "scan_field sc1 = Inr (r, sc')" "pending sc1 < pending sc"
      using t scan_field_turn_pending [OF _ e 1(3)] by auto
    moreover have "r = CONTINUED" "sc' = sc1" if "m_data sc1 = []"
      using that calculation(1) by (auto simp: scan_field.simps [of sc1])
    ultimately show ?thesis using 1(1) [OF 1(3) e t(1), of t sc1] None by (cases "m_data sc1 = []") auto
  next
    case (Some x)
    then show ?thesis using p t(2) l by (auto simp: turn_ok_def pending_def split: if_splits)
  qed
qed

fun status_rank :: "row_status \<Rightarrow> nat" where
  "status_rank BEGIN = 3"
| "status_rank PREFIX = 2"
| "status_rank BEGIN_OF_FIELD = 1"
| "status_rank FIELD = 0"

text \<open>The switch of the main loop: what it leaves for the next turn, or the end of the function.\<close>

definition scan_turn :: "nat \<Rightarrow> int \<Rightarrow> scanner \<Rightarrow> (bool \<times> int \<times> scanner) result" where
  "scan_turn len first_row sc =
     (case m_status sc of
        BEGIN \<Rightarrow>
          Inr (True, if first_row = -1 then int len - int (length (m_data sc)) else first_row, sc\<lparr>m_status := PREFIX\<rparr>)
      | PREFIX \<Rightarrow>
          rbind (skip_line_start sc) (\<lambda>(found, sc1).
            if \<not> found then Inr (False, first_row, sc1) else Inr (True, first_row, sc1\<lparr>m_status := BEGIN_OF_FIELD\<rparr>))
      | BEGIN_OF_FIELD \<Rightarrow>
          let (chr, sc1) = get sc
          in if chr = m_enclosed_char sc1
             then Inr (True, first_row, sc1\<lparr>m_found_enclosed_char := chr, m_status := FIELD\<rparr>)
             else rbind (unget (as_char chr) (sc1\<lparr>m_found_enclosed_char := Not_used\<rparr>))
                    (\<lambda>sc2. Inr (True, first_row, sc2\<lparr>m_status := FIELD\<rparr>))
      | FIELD \<Rightarrow>
          rbind (scan_field sc) (\<lambda>(r, sc1).
            Inr (True, first_row, case r of CONTINUED \<Rightarrow> sc1 | END_OF_FIELD \<Rightarrow> sc1\<lparr>m_status := BEGIN_OF_FIELD\<rparr>
                                  | END_OF_LINE \<Rightarrow> sc1\<lparr>m_status := BEGIN\<rparr>)))"

definition scan_measure :: "scanner \<Rightarrow> nat" where
  "scan_measure sc = 4 * pending sc + (if m_data sc = [] then 0 else status_rank (m_status sc))"

lemma pending_status [simp]: "pending (sc\<lparr>m_status := s\<rparr>) = pending sc" "pending (sc\<lparr>m_found_enclosed_char := q\<rparr>) = pending sc"
  by (simp_all add: pending_def left_def)

lemma status_rank_le: "status_rank s \<le> 3"
  by (cases s) auto

lemma scan_turn_progress:
  assumes "scan_turn len first_row sc = Inr (True, first', sc')" "m_data sc \<noteq> []"
  shows "scan_measure sc' < scan_measure sc"
proof (cases "m_status sc")
  case BEGIN
  then show ?thesis using assms by (auto simp: scan_turn_def scan_measure_def)
next
  case PREFIX
  then obtain sc1 where p: "skip_line_start sc = Inr (True, sc1)" "sc' = sc1\<lparr>m_status := BEGIN_OF_FIELD\<rparr>"
    using assms(1) by (auto simp: scan_turn_def split: if_splits)
  then have "pending sc1 \<le> pending sc" by (auto simp: skip_line_start_def dest!: skip_line_start_progress split: if_splits)
  then show ?thesis using p PREFIX assms(2) by (auto simp: scan_measure_def)
next
  case BEGIN_OF_FIELD
  then have "pending sc' \<le> pending sc \<and> m_status sc' = FIELD"
    using assms by (auto simp: scan_turn_def get_def unget_def pending_def left_def Let_def split: list.splits if_splits)
  then show ?thesis using BEGIN_OF_FIELD assms(2) by (auto simp: scan_measure_def)
next
  case FIELD
  then obtain r sc1 where f: "scan_field sc = Inr (r, sc1)" and s: "pending sc' = pending sc1" "m_data sc' = m_data sc1"
    using assms(1) by (fastforce simp: scan_turn_def split: field_status.split)
  then show ?thesis using scan_field_progress [OF f assms(2)] status_rank_le [of "m_status sc'"] FIELD assms(2)
    by (auto simp: scan_measure_def)
qed

function scan_loop :: "nat \<Rightarrow> int \<Rightarrow> scanner \<Rightarrow> (int \<times> scanner) result" where
  "scan_loop len first_row sc =
     (if m_data sc = [] then Inr (first_row, sc)
      else rbind (scan_turn len first_row sc) (\<lambda>(again, first', sc').
             if again then scan_loop len first' sc' else Inr (first', sc')))"
  by pat_completeness auto
termination
  by (relation "measure (\<lambda>(_, _, sc). scan_measure sc)") (auto simp: scan_turn_progress)

declare scan_loop.simps [simp del]

definition scan :: "string \<Rightarrow> scanner \<Rightarrow> (int \<times> scanner) result" where
  "scan data sc =
     (if data = [] then Inl (Undefined ''Scanner::scan: assert(length)'')
      else rbind (skip_rows (sc\<lparr>m_data := data, m_end_of_block := False\<rparr>)) (\<lambda>(found, sc1).
             if found then scan_loop (length data) (-1) sc1 else Inr (-1, sc1)))"

end
