(* ===== verification/Scanner_Steps.thy ===== *)
theory Scanner_Steps
  imports Scanner
begin

text \<open>
  One turn of each loop of the scanner, against a reference that looks at the data that is to be read as a whole: which item comes next, or
  that more data is needed to tell. A turn of the scanner either consumes the item, or it puts everything back and stops at the end of the
  block; the lemmas also say how many characters the scanner may have taken from the block beyond the item.
\<close>

section \<open>Reference\<close>

text \<open>A sequence at the head of the data is found, missed, or cut by the end of the data.\<close>

datatype hit = Found | Missed | Cut

definition look_for :: "string \<Rightarrow> string \<Rightarrow> hit" where
  "look_for s r =
     (if s \<noteq> [] \<and> prefix s r then Found else if r \<noteq> [] \<and> strict_prefix r s then Cut else Missed)"

text \<open>The next item of a field: nothing is known before more data is there, some characters of the field, the end of the
  field or of the line, with the number of characters it has.\<close>

datatype item = More | Plain nat | End_field nat | End_line nat

text \<open>The next character is not the start of an escape sequence.\<close>

definition char_item :: "dialect \<Rightarrow> chr \<Rightarrow> string \<Rightarrow> item" where
  "char_item d q r =
     (let i = (if q = Not_used then 0 else 1)
      in if q \<noteq> Not_used \<and> q \<noteq> Chr (hd r) then Plain 1
         else if q \<noteq> Not_used \<and> tl r = [] then More
         else if q \<noteq> Not_used \<and> q = Chr (hd (tl r)) then Plain 2
         else case look_for (lines_terminated_by d) (drop i r) of
                Found \<Rightarrow> End_line (i + length (lines_terminated_by d))
              | Cut \<Rightarrow> More
              | Missed \<Rightarrow> (case look_for (fields_terminated_by d) (drop i r) of
                            Found \<Rightarrow> End_field (i + length (fields_terminated_by d))
                          | Cut \<Rightarrow> More
                          | Missed \<Rightarrow> Plain 1))"

definition field_item :: "dialect \<Rightarrow> chr \<Rightarrow> string \<Rightarrow> item" where
  "field_item d q r =
     (if r = [] then More
      else if Chr (hd r) = first_char (fields_escaped_by d) then
        (if tl r = [] then More
         else if first_char (fields_escaped_by d) \<noteq> first_char (fields_enclosed_by d) \<or> hd (tl r) = hd r then Plain 2
         else char_item d q r)
      else char_item d q r)"

section \<open>Where the scanner is\<close>

text \<open>The scanner that has the characters \<open>r\<close> still to read, the last \<open>k\<close> of them in the block.\<close>

definition placed :: "string \<Rightarrow> nat \<Rightarrow> scanner \<Rightarrow> scanner" where
  "placed r k sc = sc\<lparr>m_stack := take (length r - k) r, m_data := drop (length r - k) r\<rparr>"

lemma placed_simps [simp]:
  "m_stack (placed r k sc) = take (length r - k) r" "m_data (placed r k sc) = drop (length r - k) r"
  "m_skip_rows (placed r k sc) = m_skip_rows sc" "m_fields_terminated_by (placed r k sc) = m_fields_terminated_by sc"
  "m_lines_starting_by (placed r k sc) = m_lines_starting_by sc" "m_lines_terminated_by (placed r k sc) = m_lines_terminated_by sc"
  "m_enclosed_char (placed r k sc) = m_enclosed_char sc" "m_escaped_char (placed r k sc) = m_escaped_char sc"
  "stack_size (placed r k sc) = stack_size sc" "m_end_of_block (placed r k sc) = m_end_of_block sc"
  "m_status (placed r k sc) = m_status sc" "m_found_enclosed_char (placed r k sc) = m_found_enclosed_char sc"
  "placed r k (placed r' k' sc) = placed r k sc"
  by (simp_all add: placed_def)

lemma placed_update [simp]:
  "(placed r k sc)\<lparr>m_end_of_block := e\<rparr> = placed r k (sc\<lparr>m_end_of_block := e\<rparr>)"
  "(placed r k sc)\<lparr>m_status := s\<rparr> = placed r k (sc\<lparr>m_status := s\<rparr>)"
  "(placed r k sc)\<lparr>m_found_enclosed_char := q\<rparr> = placed r k (sc\<lparr>m_found_enclosed_char := q\<rparr>)"
  "(placed r k sc)\<lparr>m_skip_rows := n\<rparr> = placed r k (sc\<lparr>m_skip_rows := n\<rparr>)"
  by (simp_all add: placed_def)

lemma placed_self: "sc = placed (m_stack sc @ m_data sc) (length (m_data sc)) sc"
  by (simp add: placed_def)

lemma get_placed:
  assumes "k \<le> Suc (length r)"
  shows "get (placed (c # r) k sc) = (Chr c, placed r (min k (length r)) sc)"
proof (cases "k = Suc (length r)")
  case False
  then have "Suc (length r) - k = Suc (length r - k)" using assms by simp
  moreover have "min k (length r) = k" using False assms by simp
  ultimately show ?thesis by (simp add: get_def placed_def)
qed (simp add: get_def placed_def)

lemma get_placed_end: "get (placed [] 0 sc) = (End_of_block, placed [] 0 (sc\<lparr>m_end_of_block := True\<rparr>))"
  by (simp add: get_def placed_def)

lemma unget_placed:
  assumes "k \<le> length r" "length r - k < stack_size sc"
  shows "unget c (placed r k sc) = Inr (placed (c # r) k sc)"
  using assms by (simp add: unget_def placed_def Suc_diff_le)

fun lcp :: "string \<Rightarrow> string \<Rightarrow> nat" where
  "lcp (x # xs) (y # ys) = (if x = y then Suc (lcp xs ys) else 0)"
| "lcp _ _ = 0"

lemma lcp_le: "lcp xs ys \<le> length xs" "lcp xs ys \<le> length ys" "take (lcp xs ys) xs = take (lcp xs ys) ys"
  by (induction xs ys rule: lcp.induct) auto

lemma lcp_prefix: "lcp xs ys = length xs \<longleftrightarrow> prefix xs ys" "lcp xs ys = length ys \<longleftrightarrow> prefix ys xs"
  by (induction xs ys rule: lcp.induct) auto

lemma contains_loop_placed:
  assumes "k \<le> length r"
  shows "(lcp w r = length w \<longrightarrow> (\<exists>c'. contains_loop (pre @ w) (length pre) c (placed r k sc) =
      (length pre + length w, c', placed (drop (length w) r) (min k (length r - length w)) sc))) \<and>
    (lcp w r \<noteq> length w \<longrightarrow> contains_loop (pre @ w) (length pre) c (placed r k sc) =
      (if lcp w r = length r then (length pre + length r, End_of_block, placed [] 0 (sc\<lparr>m_end_of_block := True\<rparr>))
       else (length pre + lcp w r, Chr (r ! lcp w r), placed (drop (lcp w r + 1) r) (min k (length r - (lcp w r + 1))) sc)))"
  using assms
proof (induction w arbitrary: pre c r k)
  case Nil
  then show ?case by (simp add: contains_loop.simps)
next
  case (Cons x w)
  show ?case
  proof (cases r)
    case Nil
    then show ?thesis using Cons(2) by (simp add: contains_loop.simps [of "pre @ x # w"] get_placed_end)
  next
    case r: (Cons y r')
    then have g: "get (placed r k sc) = (Chr y, placed r' (min k (length r')) sc)" using Cons(2) get_placed by simp
    show ?thesis
    proof (cases "x = y")
      case True
      then have "contains_loop (pre @ x # w) (length pre) c (placed r k sc) =
          contains_loop ((pre @ [x]) @ w) (length (pre @ [x])) (Chr y) (placed r' (min k (length r')) sc)"
        using g by (subst contains_loop.simps) simp
      moreover have "min (min k (length r')) (length r' - m) = min k (length r' - m)" for m by simp
      moreover note Cons(1) [of "min k (length r')" r' "pre @ [x]" "Chr y"]
      ultimately show ?thesis using r True by simp
    next
      case False
      then show ?thesis using g r by (subst contains_loop.simps) (simp add: contains_loop.simps [of "pre @ x # w"])
    qed
  qed
qed

lemma unget_loop_placed:
  assumes "k \<le> length r" "length r - k + n \<le> stack_size sc" "n \<le> length w"
  shows "unget_loop (c # w) (Suc n) (placed r k sc) = Inr (placed (take n w @ r) k sc)"
  using assms
proof (induction n arbitrary: r)
  case 0
  then show ?case by (simp add: unget_loop.simps)
next
  case (Suc n)
  have u: "unget (w ! n) (placed r k sc) = Inr (placed (w ! n # r) k sc)" using Suc(2,3) unget_placed by simp
  have "unget_loop (c # w) (Suc (Suc n)) (placed r k sc) = unget_loop (c # w) (Suc n) (placed (w ! n # r) k sc)"
    using u by (subst unget_loop.simps) simp
  then show ?case using Suc(1) [of "w ! n # r"] Suc(2-) by (simp add: take_Suc_conv_app_nth Suc_diff_le)
qed

lemma contains_placed:
  assumes "k \<le> length r" "length r - k \<le> stack_size sc" "length w \<le> stack_size sc" "\<not> m_end_of_block sc"
  shows "contains (c # w) (placed r k sc) =
    (if prefix w r then Inr (True, placed (drop (length w) r) (min k (length r - length w)) sc)
     else if prefix r w then Inr (False, placed r 0 (sc\<lparr>m_end_of_block := True\<rparr>))
     else Inr (False, placed r (min k (length r - (lcp w r + 1))) sc))"
proof -
  note l = contains_loop_placed [OF assms(1), of w "[c]" "Chr (CHR 0x00)" sc]
  consider (found) "lcp w r = length w" | (cut) "lcp w r \<noteq> length w" "lcp w r = length r"
    | (missed) "lcp w r \<noteq> length w" "lcp w r \<noteq> length r" by blast
  then show ?thesis
  proof cases
    case found
    then show ?thesis using l lcp_prefix(1) [of w r] by (auto simp: contains_def)
  next
    case cut
    then have p: "prefix r w" "\<not> prefix w r" using cut lcp_prefix [of w r] by auto
    then have "take (length r) w = r" by (auto simp: prefix_def)
    moreover have "length r \<le> length w" using p(1) prefix_length_le by blast
    moreover have "length r \<noteq> length w" using cut by simp
    ultimately show ?thesis
      using l p cut assms(3) unget_loop_placed [of 0 "[]" "length r" "sc\<lparr>m_end_of_block := True\<rparr>" w c] by (simp add: contains_def)
  next
    case missed
    let ?n = "lcp w r" and ?k = "min k (length r - (lcp w r + 1))"
    have n: "?n < length w" "?n < length r" using missed lcp_le [of w r] by auto
    have "unget (r ! ?n) (placed (drop (?n + 1) r) ?k sc) = Inr (placed (drop ?n r) ?k sc)"
      using unget_placed [of ?k "drop (?n + 1) r" sc "r ! ?n"] n assms(2,3) by (simp add: Cons_nth_drop_Suc)
    moreover have "unget_loop (c # w) (Suc ?n) (placed (drop ?n r) ?k sc) = Inr (placed (take ?n w @ drop ?n r) ?k sc)"
      by (rule unget_loop_placed) (use n assms(2,3) in auto)
    moreover have "take ?n w @ drop ?n r = r" using lcp_le(3) [of w r] by simp
    ultimately show ?thesis using l missed n assms(4) lcp_prefix [of w r] by (simp add: contains_def)
  qed
qed

section \<open>One turn of the field loop\<close>

text \<open>The scanner is configured for the dialect.\<close>

definition conf :: "dialect \<Rightarrow> scanner \<Rightarrow> bool" where
  "conf d sc \<longleftrightarrow>
     m_fields_terminated_by sc = fields_terminated_by d \<and> m_lines_starting_by sc = lines_starting_by d \<and>
     m_lines_terminated_by sc = lines_terminated_by d \<and> m_enclosed_char sc = first_char (fields_enclosed_by d) \<and>
     m_escaped_char sc = first_char (fields_escaped_by d) \<and> lines_terminated_by d \<noteq> [] \<and>
     stack_size sc = max (length (fields_terminated_by d) + 1)
               (max (length (lines_starting_by d)) (length (lines_terminated_by d) + 1))"

text \<open>What the stack has to hold before a field is read on.\<close>

definition reach :: "dialect \<Rightarrow> nat" where
  "reach d = max (length (lines_terminated_by d)) (length (fields_terminated_by d))"

definition look :: "dialect \<Rightarrow> chr \<Rightarrow> nat" where
  "look d q = (if q = Not_used then reach d else reach d + 1)"

lemma conf_room: "conf d sc \<Longrightarrow> reach d < stack_size sc" "conf d sc \<Longrightarrow> 0 < reach d"
  by (auto simp: conf_def reach_def less_max_iff_disj)

lemma conf_update [simp]:
  "conf d (placed r k sc) = conf d sc" "conf d (sc\<lparr>m_end_of_block := e\<rparr>) = conf d sc"
  "conf d (sc\<lparr>m_status := s\<rparr>) = conf d sc" "conf d (sc\<lparr>m_found_enclosed_char := q\<rparr>) = conf d sc"
  "conf d (sc\<lparr>m_skip_rows := n\<rparr>) = conf d sc"
  by (simp_all add: conf_def)

text \<open>What a turn that starts with \<open>r\<close> to read, \<open>k\<close> of it in the block, does for an item of \<open>n\<close> characters: at most
  \<open>ahead\<close> characters of \<open>r\<close> were taken from the block.\<close>

definition stepped :: "string \<Rightarrow> nat \<Rightarrow> nat \<Rightarrow> scanner \<Rightarrow> nat \<Rightarrow> 'a \<Rightarrow> ('a \<times> scanner) result \<Rightarrow> bool" where
  "stepped r k ahead sc n x res \<longleftrightarrow>
     (\<exists>k'. res = Inr (x, placed (drop n r) k' sc) \<and> n \<le> length r \<and> k' \<le> k \<and> k' \<le> length r - n \<and>
        length r - n - k' \<le> max (length r - k) ahead - n)"

fun turned :: "string \<Rightarrow> nat \<Rightarrow> nat \<Rightarrow> nat \<Rightarrow> scanner \<Rightarrow> item \<Rightarrow> (field_status option \<times> scanner) result \<Rightarrow> bool" where
  "turned r k ahead a sc More res \<longleftrightarrow> res = Inr (Some CONTINUED, placed r 0 (sc\<lparr>m_end_of_block := True\<rparr>))"
| "turned r k ahead a sc (Plain n) res \<longleftrightarrow> stepped r k ahead sc n None res"
| "turned r k ahead a sc (End_field n) res \<longleftrightarrow> stepped r k ahead sc n (Some END_OF_FIELD) res"
| "turned r k ahead a sc (End_line n) res \<longleftrightarrow> stepped r k (max n a) sc n (Some END_OF_LINE) res"

lemma stepped_mono:
  assumes "stepped r k' ahead' sc n x res" "k' \<le> k" "max (length r - k') ahead' \<le> max (length r - k) ahead"
  shows "stepped r k ahead sc n x res"
proof -
  have "max (length r - k') ahead' - n \<le> max (length r - k) ahead - n" using assms(3) diff_le_mono by blast
  moreover obtain k2 where "res = Inr (x, placed (drop n r) k2 sc)" "n \<le> length r" "k2 \<le> k'" "k2 \<le> length r - n"
      "length r - n - k2 \<le> max (length r - k') ahead' - n"
    using assms(1) unfolding stepped_def by blast
  ultimately show ?thesis using assms(2) unfolding stepped_def by (intro exI [of _ k2]) linarith
qed

lemma turned_mono:
  assumes "turned r k' ahead' 0 sc it res" "k' \<le> k" "length r - k' \<le> max (length r - k) m" "max m ahead' \<le> ahead" "m \<le> max 1 a"
    "\<And>n. it = End_line n \<Longrightarrow> 0 < n"
  shows "turned r k ahead a sc it res"
proof -
  have "max (length r - k') ahead' \<le> max (length r - k) ahead" using assms(3,4) by auto
  note m1 = stepped_mono [OF _ assms(2) this]
  have "max (length r - k') n \<le> max (length r - k) (max n a)" if "0 < n" for n using assms(3,5) that by auto
  note m2 = stepped_mono [OF _ assms(2) this]
  show ?thesis using assms(1,6) m1 m2 by (cases it) simp_all
qed

lemma stepped_found:
  assumes "res = Inr (x, placed (drop m r) (min k' (length r - m)) sc)" "m \<le> length r" "k' \<le> length r" "k' \<le> k"
    "length p + length r \<le> k' + max (length p + length r - k) ahead"
  shows "stepped (p @ r) k ahead sc (length p + m) x res"
proof -
  have "length (p @ r) - (length p + m) - min k' (length r - m) \<le> max (length (p @ r) - k) ahead - (length p + m)"
    unfolding length_append using assms(2-5) by linarith
  then show ?thesis
    unfolding stepped_def using assms(1-4) by (intro exI [of _ "min k' (length r - m)"]) (simp add: min.coboundedI1)
qed

lemma stepped_missed:
  assumes "res = Inr (x, placed r k' sc)" "k' \<le> length r" "k' \<le> k" "length p + length r \<le> k' + max (length p + length r - k) ahead"
  shows "stepped (p @ r) k ahead sc (length p) x res"
  using stepped_found [of res x 0 r k' sc k p ahead] assms by simp

lemma unget_all_placed:
  assumes "length r + length cs \<le> stack_size sc"
  shows "unget_all cs (placed r 0 sc) = Inr (placed (rev (map as_char cs) @ r) 0 sc)"
  using assms
proof (induction cs arbitrary: r)
  case (Cons c cs)
  have "unget (as_char c) (placed r 0 sc) = Inr (placed (as_char c # r) 0 sc)" using Cons(2) unget_placed by simp
  then show ?case using Cons(1) [of "as_char c # r"] Cons(2) by (simp add: unget_all_def)
qed (simp add: unget_all_def)

lemma look_for_Cons:
  "look_for (x # w) (c # r) = (if c \<noteq> x then Missed else if prefix w r then Found else if prefix r w then Cut else Missed)"
  by (auto simp: look_for_def strict_prefix_def)

lemma look_for_Nil [simp]: "look_for [] r = Missed"
  by (simp add: look_for_def)

text \<open>After the character \<open>c\<close> was read, a comparison with a terminator finds it, reaches the end of the block, or leaves
  what is to be read as it was.\<close>

lemma at_terminator_placed:
  assumes "k \<le> length r" "length r - k \<le> reach d" "conf d sc" "length s \<le> reach d" "\<not> m_end_of_block sc"
    "s \<noteq> [] \<Longrightarrow> length back + (length s - 1) \<le> stack_size sc + 1"
  shows "case look_for s (c # r) of
      Found \<Rightarrow> length s \<le> Suc (length r) \<and> at_terminator s back st (Chr c) (placed r k sc) =
        Inr (Some st, placed (drop (length s - 1) r) (min k (length r - (length s - 1))) sc)
    | Cut \<Rightarrow> at_terminator s back st (Chr c) (placed r k sc) =
        Inr (Some CONTINUED, placed (rev (map as_char back) @ r) 0 (sc\<lparr>m_end_of_block := True\<rparr>))
    | Missed \<Rightarrow> (\<exists>k'. at_terminator s back st (Chr c) (placed r k sc) = Inr (None, placed r k' sc) \<and> k' \<le> k \<and>
        length r - k' \<le> max (length r - k) (length s - 1))"
proof (cases s)
  case Nil
  then show ?thesis by (auto simp: at_terminator_def first_char_def)
next
  case (Cons x w)
  have room: "length r - k \<le> stack_size sc" "length w \<le> stack_size sc"
    using assms(2,4) conf_room [OF assms(3)] Cons by auto
  note t = contains_placed [OF assms(1) room assms(5), of x]
  have f: "at_terminator s back st (Chr c) (placed r k sc) =
      (if c = x then rbind (contains (x # w) (placed r k sc)) (\<lambda>(found, sc1).
          if found then Inr (Some st, sc1)
          else if m_end_of_block sc1 then rbind (unget_all back sc1) (\<lambda>sc2. Inr (Some CONTINUED, sc2))
          else Inr (None, sc1)) else Inr (None, placed r k sc))"
    using Cons by (simp add: at_terminator_def first_char_def)
  consider (found) "c = x" "prefix w r" | (cut) "c = x" "\<not> prefix w r" "prefix r w"
    | (missed) "c \<noteq> x \<or> \<not> prefix w r \<and> \<not> prefix r w" by blast
  then show ?thesis
  proof cases
    case found
    then show ?thesis using Cons f t prefix_length_le by (auto simp: look_for_Cons)
  next
    case cut
    then have "length r < length w" using cut(2,3) by (auto simp: prefix_def)
    then have "unget_all back (placed r 0 (sc\<lparr>m_end_of_block := True\<rparr>)) =
        Inr (placed (rev (map as_char back) @ r) 0 (sc\<lparr>m_end_of_block := True\<rparr>))"
      by (intro unget_all_placed) (use assms(6) Cons in simp)
    then show ?thesis using cut Cons f t by (simp add: look_for_Cons)
  next
    case missed
    have "lcp w r + 1 \<le> length w" if "\<not> prefix w r" using that lcp_le(1) [of w r] lcp_prefix(1) [of w r] by simp
    then have "length r - min k (length r - (lcp w r + 1)) \<le> max (length r - k) (length w)" if "\<not> prefix w r"
      using that by auto
    then show ?thesis using missed Cons f t assms(5)
      by (cases "c = x") (auto simp: look_for_Cons)
  qed
qed

lemma or_else_simps [simp]:
  "or_else (Inr (Some x, s)) f = Inr (Some x, s)" "or_else (Inr (None, s)) f = f s"
  by (simp_all add: or_else_def)

lemma scan_enclosed_placed:
  assumes "k \<le> length r" "length r - k \<le> reach d" "conf d sc" "\<not> m_end_of_block sc" "m_found_enclosed_char sc = Chr e"
  shows "turned (e # r) k (reach d + 1) 0 sc (char_item d (Chr e) (e # r)) (scan_enclosed (placed r k sc))"
proof (cases r)
  case Nil
  have "unget e (placed [] 0 (sc\<lparr>m_end_of_block := True\<rparr>)) = Inr (placed [e] 0 (sc\<lparr>m_end_of_block := True\<rparr>))"
    using unget_placed conf_room [OF assms(3)] by simp
  then show ?thesis using Nil assms by (simp add: char_item_def scan_enclosed_def get_placed_end unget_all_def)
next
  case r: (Cons c r')
  let ?k = "min k (length r')"
  have g: "get (placed r k sc) = (Chr c, placed r' ?k sc)" using assms(1) r get_placed by simp
  have k: "?k \<le> length r'" "length r' - ?k \<le> reach d" using assms(1,2) r by auto
  have len: "length r = Suc (length r')" using r by simp
  have L: "length (lines_terminated_by d) \<le> reach d" "length (fields_terminated_by d) \<le> reach d" by (auto simp: reach_def)
  have sz: "length [Chr c, Chr e] + (length (lines_terminated_by d) - 1) \<le> stack_size sc + 1"
      "length [Chr c, Chr e] + (length (fields_terminated_by d) - 1) \<le> stack_size sc + 1"
    using conf_room [OF assms(3)] L by auto
  show ?thesis
  proof (cases "c = e")
    case True
    then show ?thesis using g r assms k
      by (auto simp: char_item_def scan_enclosed_def stepped_def)
  next
    case False
    have m: "m_lines_terminated_by sc = lines_terminated_by d" "m_fields_terminated_by sc = fields_terminated_by d"
      using assms(3) by (auto simp: conf_def)
    note tL = at_terminator_placed [OF k assms(3) L(1) assms(4) sz(1), of END_OF_LINE c]
    have ne: "0 < length (lines_terminated_by d)" using assms(3) by (simp add: conf_def)
    have e: "scan_enclosed (placed r k sc) =
        or_else (at_terminator (lines_terminated_by d) [Chr c, Chr e] END_OF_LINE (Chr c) (placed r' ?k sc)) (\<lambda>sc2.
        or_else (at_terminator (m_fields_terminated_by sc2) [Chr c, Chr e] END_OF_FIELD (Chr c) sc2) (\<lambda>sc3.
        rbind (unget c sc3) (\<lambda>sc4. Inr (None, sc4))))"
      using g False assms(4,5) m by (simp add: scan_enclosed_def Let_def)
    show ?thesis
    proof (cases "look_for (lines_terminated_by d) (c # r')")
      case Found
      then have "char_item d (Chr e) (e # r) = End_line (2 + (length (lines_terminated_by d) - 1))"
        using r False ne by (simp add: char_item_def)
      moreover have "stepped ([e, c] @ r') k (2 + (length (lines_terminated_by d) - 1)) sc
          (length [e, c] + (length (lines_terminated_by d) - 1)) (Some END_OF_LINE) (scan_enclosed (placed r k sc))"
      proof (rule stepped_found)
        show "scan_enclosed (placed r k sc) = Inr (Some END_OF_LINE, placed (drop (length (lines_terminated_by d) - 1) r')
            (min ?k (length r' - (length (lines_terminated_by d) - 1))) sc)" using Found tL e by simp
        show "length [e, c] + length r' \<le> ?k + max (length [e, c] + length r' - k) (2 + (length (lines_terminated_by d) - 1))"
          using len assms(1) by simp
      qed (use Found tL in auto)
      ultimately show ?thesis using r by simp
    next
      case Cut
      then show ?thesis using tL e r False by (simp add: char_item_def)
    next
      case Missed
      then obtain k2 where k2: "at_terminator (lines_terminated_by d) [Chr c, Chr e] END_OF_LINE (Chr c) (placed r' ?k sc) =
          Inr (None, placed r' k2 sc)" "k2 \<le> ?k" "length r' - k2 \<le> max (length r' - ?k) (length (lines_terminated_by d) - 1)"
        using tL by auto
      have "k2 \<le> length r'" "length r' - k2 \<le> reach d" using k k2 L by auto
      note tF = at_terminator_placed [OF this assms(3) L(2) assms(4) sz(2), of END_OF_FIELD c]
      show ?thesis
      proof (cases "look_for (fields_terminated_by d) (c # r')")
        case Found
        moreover from this have "fields_terminated_by d \<noteq> []" by auto
        ultimately have "char_item d (Chr e) (e # r) = End_field (2 + (length (fields_terminated_by d) - 1))"
          using r False Missed by (simp add: char_item_def Suc_le_eq)
        moreover have "stepped ([e, c] @ r') k (reach d + 1) sc (length [e, c] + (length (fields_terminated_by d) - 1)) (Some END_OF_FIELD)
            (scan_enclosed (placed r k sc))"
        proof (rule stepped_found)
          show "scan_enclosed (placed r k sc) = Inr (Some END_OF_FIELD, placed (drop (length (fields_terminated_by d) - 1) r')
              (min k2 (length r' - (length (fields_terminated_by d) - 1))) sc)" using Found tF e k2(1) m by simp
          show "length [e, c] + length r' \<le> k2 + max (length [e, c] + length r' - k) (reach d + 1)"
            using len assms(1) k k2(2,3) L conf_room(2) [OF assms(3)] by simp
        qed (use Found tF k2 in auto)
        ultimately show ?thesis using r by simp
      next
        case Cut
        then show ?thesis using tF e r False k2(1) Missed m by (simp add: char_item_def)
      next
        case missF: Missed
        then obtain k3 where k3: "at_terminator (fields_terminated_by d) [Chr c, Chr e] END_OF_FIELD (Chr c) (placed r' k2 sc) =
            Inr (None, placed r' k3 sc)" "k3 \<le> k2" "length r' - k3 \<le> max (length r' - k2) (length (fields_terminated_by d) - 1)"
          using tF by auto
        have b: "k3 \<le> length r'" "length r' - k3 \<le> max (length r' - ?k) (reach d - 1)"
          using k(1) k2(2,3) k3(2,3) L by linarith+
        have "length r' - k3 < stack_size sc" using b k conf_room [OF assms(3)] by auto
        then have "unget c (placed r' k3 sc) = Inr (placed r k3 sc)" using b(1) r unget_placed by simp
        then have "scan_enclosed (placed r k sc) = Inr (None, placed r k3 sc)" using e k2(1) k3(1) m by simp
        then have "stepped ([e] @ r) k (reach d + 1) sc (length [e]) None (scan_enclosed (placed r k sc))"
        proof (rule stepped_missed)
          show "length [e] + length r \<le> k3 + max (length [e] + length r - k) (reach d + 1)"
            using len b assms(1) conf_room(2) [OF assms(3)] by simp
        qed (use b k2 k3 len in auto)
        then show ?thesis using r False Missed missF by (simp add: char_item_def)
      qed
    qed
  qed
qed

lemma scan_char_placed:
  assumes "k \<le> length r" "length r - k \<le> reach d" "conf d sc" "\<not> m_end_of_block sc" "m_found_enclosed_char sc \<noteq> End_of_block"
  shows "turned (c # r) k (look d (m_found_enclosed_char sc)) 0 sc (char_item d (m_found_enclosed_char sc) (c # r)) (scan_char (Chr c) (placed r k sc))"
proof -
  have L: "length (lines_terminated_by d) \<le> reach d" "length (fields_terminated_by d) \<le> reach d" by (auto simp: reach_def)
  have sz: "length [Chr c] + (length (lines_terminated_by d) - 1) \<le> stack_size sc + 1"
      "length [Chr c] + (length (fields_terminated_by d) - 1) \<le> stack_size sc + 1"
    using conf_room [OF assms(3)] L by auto
  have m: "m_lines_terminated_by sc = lines_terminated_by d" "m_fields_terminated_by sc = fields_terminated_by d"
    using assms(3) by (auto simp: conf_def)
  show ?thesis
  proof (cases "m_found_enclosed_char sc")
    case (Chr e)
    show ?thesis
    proof (cases "e = c")
      case True
      then show ?thesis using scan_enclosed_placed [OF assms(1-4)] Chr by (simp add: scan_char_def used_def look_def)
    next
      case False
      then show ?thesis using Chr assms(1) by (auto simp: scan_char_def used_def char_item_def stepped_def look_def)
    qed
  next
    case Not_used
    note tL = at_terminator_placed [OF assms(1-3) L(1) assms(4) sz(1), of END_OF_LINE c]
    have e: "scan_char (Chr c) (placed r k sc) =
        or_else (at_terminator (lines_terminated_by d) [Chr c] END_OF_LINE (Chr c) (placed r k sc)) (\<lambda>sc1.
          if Chr c = m_found_enclosed_char sc1 then scan_enclosed sc1
          else if \<not> used (m_found_enclosed_char sc1)
          then at_terminator (m_fields_terminated_by sc1) [Chr c] END_OF_FIELD (Chr c) sc1 else Inr (None, sc1))"
      using Not_used m by (simp add: scan_char_def used_def)
    show ?thesis
    proof (cases "look_for (lines_terminated_by d) (c # r)")
      case Found
      moreover have "stepped ([c] @ r) k (max n 0) sc (length [c] + (length (lines_terminated_by d) - 1)) (Some END_OF_LINE)
          (scan_char (Chr c) (placed r k sc))" for n
        by (rule stepped_found [where k' = k]) (use Found tL e assms(1) in auto)
      ultimately show ?thesis using Not_used assms(3) by (simp add: char_item_def conf_def)
    next
      case Cut
      then show ?thesis using tL e Not_used by (simp add: char_item_def)
    next
      case Missed
      then obtain k2 where k2: "at_terminator (lines_terminated_by d) [Chr c] END_OF_LINE (Chr c) (placed r k sc) =
          Inr (None, placed r k2 sc)" "k2 \<le> k" "length r - k2 \<le> max (length r - k) (length (lines_terminated_by d) - 1)"
        using tL by auto
      have b: "k2 \<le> length r" "length r - k2 \<le> reach d" using assms(1,2) k2 L by auto
      note tF = at_terminator_placed [OF b assms(3) L(2) assms(4) sz(2), of END_OF_FIELD c]
      have e2: "scan_char (Chr c) (placed r k sc) =
          at_terminator (fields_terminated_by d) [Chr c] END_OF_FIELD (Chr c) (placed r k2 sc)"
        using e k2(1) Not_used m by (simp add: used_def)
      show ?thesis
      proof (cases "look_for (fields_terminated_by d) (c # r)")
        case Found
        moreover from this have "0 < length (fields_terminated_by d)" by auto
        moreover have "stepped ([c] @ r) k (reach d) sc (length [c] + (length (fields_terminated_by d) - 1)) (Some END_OF_FIELD)
            (scan_char (Chr c) (placed r k sc))"
        proof (rule stepped_found)
          show "scan_char (Chr c) (placed r k sc) = Inr (Some END_OF_FIELD, placed (drop (length (fields_terminated_by d) - 1) r)
              (min k2 (length r - (length (fields_terminated_by d) - 1))) sc)" using Found tF e2 by simp
          show "length [c] + length r \<le> k2 + max (length [c] + length r - k) (reach d)"
            using assms(1) b k2(2,3) L by simp
        qed (use Found tF k2 b in auto)
        ultimately show ?thesis using Not_used Missed by (simp add: char_item_def look_def)
      next
        case Cut
        then show ?thesis using tF e2 Not_used Missed by (simp add: char_item_def)
      next
        case missF: Missed
        then obtain k3 where k3: "scan_char (Chr c) (placed r k sc) = Inr (None, placed r k3 sc)" "k3 \<le> k2"
            "length r - k3 \<le> max (length r - k2) (length (fields_terminated_by d) - 1)" using tF e2 by auto
        have "stepped ([c] @ r) k (reach d) sc (length [c]) None (scan_char (Chr c) (placed r k sc))"
        proof (rule stepped_missed [OF k3(1)])
          show "length [c] + length r \<le> k3 + max (length [c] + length r - k) (reach d)"
            using k2(2,3) k3(2,3) L b(1) assms(1) by simp linarith
        qed (use b k2 k3 in auto)
        then show ?thesis using Not_used Missed missF by (simp add: char_item_def look_def)
      qed
    qed
  qed (use assms(5) in simp)
qed

lemma scan_field_turn_placed:
  assumes "0 < k" "k \<le> length r" "length r - k \<le> reach d" "conf d sc" "\<not> m_end_of_block sc" "m_found_enclosed_char sc \<noteq> End_of_block"
  shows "turned r k (max 2 (look d (m_found_enclosed_char sc))) (if Chr (hd r) = first_char (fields_escaped_by d) then 2 else 0) sc
    (field_item d (m_found_enclosed_char sc) r) (scan_field_turn (placed r k sc))"
proof -
  obtain c r1 where r: "r = c # r1" using assms(1,2) by (cases r) auto
  let ?k1 = "min k (length r1)" and ?look = "look d (m_found_enclosed_char sc)"
  have g: "get (placed r k sc) = (Chr c, placed r1 ?k1 sc)" using r assms(2) get_placed by simp
  have k1: "?k1 \<le> length r1" "length r1 - ?k1 \<le> reach d" using assms(2,3) r by auto
  have cf: "m_escaped_char sc = first_char (fields_escaped_by d)" "m_enclosed_char sc = first_char (fields_enclosed_by d)"
    using assms(4) by (auto simp: conf_def)
  have item_pos: "0 < n" if "char_item d (m_found_enclosed_char sc) r = End_line n" for n
    using that assms(4) by (auto simp: char_item_def conf_def Let_def split: if_splits hit.splits)
  show ?thesis
  proof (cases "Chr c = first_char (fields_escaped_by d)")
    case False
    have "turned r ?k1 ?look 0 sc (char_item d (m_found_enclosed_char sc) r) (scan_char (Chr c) (placed r1 ?k1 sc))"
      using scan_char_placed [OF k1 assms(4-6), of c] r by simp
    moreover have "scan_field_turn (placed r k sc) = scan_char (Chr c) (placed r1 ?k1 sc)"
      using g cf False by (simp add: scan_field_turn_def)
    moreover have "length r - ?k1 \<le> max (length r - k) 1" using r assms(2) by auto
    ultimately show ?thesis
      using turned_mono [of r ?k1 ?look sc _ _ k 1 "max 2 ?look" 0] item_pos False r by (simp add: field_item_def)
  next
    case True
    show ?thesis
    proof (cases r1)
      case Nil
      have "unget c (placed [] 0 (sc\<lparr>m_end_of_block := True\<rparr>)) = Inr (placed [c] 0 (sc\<lparr>m_end_of_block := True\<rparr>))"
        using unget_placed conf_room [OF assms(4)] by simp
      then show ?thesis using g r Nil cf
        by (simp add: scan_field_turn_def field_item_def get_placed_end unget_all_def True [symmetric])
    next
      case r1: (Cons c2 r2)
      let ?k2 = "min k (length r2)"
      have "min ?k1 (length r2) = ?k2" using r1 by simp
      then have g2: "get (placed r1 ?k1 sc) = (Chr c2, placed r2 ?k2 sc)" using r1 get_placed [of ?k1 r2 c2] by simp
      have k2: "?k2 \<le> length r1" "length r1 - ?k2 \<le> reach d" using assms(2,3) conf_room(2) [OF assms(4)] r r1 by auto
      show ?thesis
      proof (cases "first_char (fields_escaped_by d) \<noteq> first_char (fields_enclosed_by d) \<or> c2 = c")
        case e: True
        then have "scan_field_turn (placed r k sc) = Inr (None, placed r2 ?k2 sc)"
          using g g2 cf True assms(5) by (auto simp: scan_field_turn_def)
        then show ?thesis using e True r r1 assms(1,2) by (auto simp: field_item_def stepped_def)
      next
        case e: False
        have "length r2 - ?k2 < stack_size sc" using k2 conf_room [OF assms(4)] r1 by auto
        then have u: "unget c2 (placed r2 ?k2 sc) = Inr (placed r1 ?k2 sc)" using r1 unget_placed by simp
        have "scan_field_turn (placed r k sc) = scan_char (Chr c) (placed r1 ?k2 sc)"
        proof -
          have "first_char (fields_escaped_by d) = Chr c" "first_char (fields_enclosed_by d) = Chr c" "c2 \<noteq> c"
            using True e by auto
          then show ?thesis using g g2 cf assms(5) u by (simp add: scan_field_turn_def)
        qed
        moreover have "turned r ?k2 ?look 0 sc (char_item d (m_found_enclosed_char sc) r) (scan_char (Chr c) (placed r1 ?k2 sc))"
          using scan_char_placed [OF k2 assms(4-6), of c] r by simp
        moreover have "length r - ?k2 \<le> max (length r - k) 2" using r r1 assms(2) by auto
        ultimately have "turned r k (max 2 ?look) 2 sc (char_item d (m_found_enclosed_char sc) r) (scan_field_turn (placed r k sc))"
          using turned_mono [of r ?k2 ?look sc _ _ k 2 "max 2 ?look" 2] item_pos by simp
        then show ?thesis using e True r r1 by (simp add: field_item_def)
      qed
    qed
  qed
qed

section \<open>The other loops\<close>

lemma at_sequence_placed:
  assumes "k \<le> length r" "length r - k < stack_size sc" "length s \<le> stack_size sc" "\<not> m_end_of_block sc"
  shows "case look_for s (c # r) of
      Found \<Rightarrow> stepped ([c] @ r) k (length s) sc (length s) True (at_sequence s (Chr c) (placed r k sc))
    | Cut \<Rightarrow> at_sequence s (Chr c) (placed r k sc) = Inr (False, placed (c # r) 0 (sc\<lparr>m_end_of_block := True\<rparr>))
    | Missed \<Rightarrow> stepped ([c] @ r) k (max 1 (length s)) sc 1 False (at_sequence s (Chr c) (placed r k sc))" (is "case _ of Found \<Rightarrow> stepped _ _ _ _ _ _ ?res | Cut \<Rightarrow> _ | Missed \<Rightarrow> _")
proof (cases s)
  case Nil
  then have "?res = Inr (False, placed r k sc)" using assms(4) by (simp add: at_sequence_def first_char_def)
  then have "stepped ([c] @ r) k (max 1 (length s)) sc (length [c]) False ?res"
    by (rule stepped_missed) (use assms(1) in auto)
  then show ?thesis using Nil by simp
next
  case (Cons x w)
  have t: "contains (x # w) (placed r k sc) =
    (if prefix w r then Inr (True, placed (drop (length w) r) (min k (length r - length w)) sc)
     else if prefix r w then Inr (False, placed r 0 (sc\<lparr>m_end_of_block := True\<rparr>))
     else Inr (False, placed r (min k (length r - (lcp w r + 1))) sc))"
    by (rule contains_placed) (use assms Cons in auto)
  consider (found) "c = x" "prefix w r" | (cut) "c = x" "\<not> prefix w r" "prefix r w"
    | (missed) "c \<noteq> x \<or> \<not> prefix w r \<and> \<not> prefix r w" by blast
  then show ?thesis
  proof cases
    case found
    then have "?res = Inr (True, placed (drop (length w) r) (min k (length r - length w)) sc)"
      using Cons t by (simp add: at_sequence_def first_char_def)
    then have "stepped ([c] @ r) k (length s) sc (length [c] + length w) True ?res"
      by (rule stepped_found) (use assms(1) found prefix_length_le in auto)
    then show ?thesis using found Cons by (simp add: look_for_Cons)
  next
    case cut
    then have "length r < length w" using cut(2,3) by (auto simp: prefix_def)
    then have "unget c (placed r 0 (sc\<lparr>m_end_of_block := True\<rparr>)) = Inr (placed (c # r) 0 (sc\<lparr>m_end_of_block := True\<rparr>))"
      by (intro unget_placed) (use assms(3) Cons in auto)
    then show ?thesis using cut Cons t by (simp add: look_for_Cons at_sequence_def first_char_def)
  next
    case missed
    let ?k = "if c = x then min k (length r - (lcp w r + 1)) else k"
    have "?res = Inr (False, placed r ?k sc)"
      using Cons t missed assms(4) by (auto simp: at_sequence_def first_char_def)
    moreover have "lcp w r + 1 \<le> length w" if "c = x"
      using that missed lcp_le(1) [of w r] lcp_prefix(1) [of w r] by simp
    then have "length [c] + length r \<le> ?k + max (length [c] + length r - k) (max 1 (length s))"
      using assms(1) Cons by auto
    moreover have "?k \<le> length r" "?k \<le> k" using assms(1) by auto
    ultimately have "stepped ([c] @ r) k (max 1 (length s)) sc (length [c]) False ?res"
      by (intro stepped_missed [of _ _ _ ?k]) auto
    then show ?thesis using Cons missed by (auto simp: look_for_Cons)
  qed
qed

text \<open>The next item while rows are skipped.\<close>

definition skip_item :: "dialect \<Rightarrow> string \<Rightarrow> item" where
  "skip_item d r =
     (if r = [] then More
      else if Chr (hd r) = first_char (fields_escaped_by d) then (if tl r = [] then More else Plain 2)
      else case look_for (lines_terminated_by d) r of
             Found \<Rightarrow> End_line (length (lines_terminated_by d)) | Cut \<Rightarrow> More | Missed \<Rightarrow> Plain 1)"

lemma stepped_get:
  assumes "stepped (c # r) (min k (length r)) ahead' sc n x res" "k \<le> Suc (length r)" "0 < ahead" "ahead' \<le> ahead"
  shows "stepped (c # r) k ahead sc n x res"
  by (rule stepped_mono [OF assms(1)]) (use assms(2-) in auto)

lemma skip_row_turn_placed:
  assumes "0 < k" "k \<le> length r" "length r - k \<le> reach d" "conf d sc" "\<not> m_end_of_block sc"
  shows "case skip_item d r of
      More \<Rightarrow> skip_row_turn (placed r k sc) = Inr (False, placed r 0 (sc\<lparr>m_end_of_block := True\<rparr>))
    | Plain n \<Rightarrow> stepped r k (max 2 (length (lines_terminated_by d))) sc n False (skip_row_turn (placed r k sc))
    | End_line n \<Rightarrow> stepped r k n sc n True (skip_row_turn (placed r k sc))
    | End_field n \<Rightarrow> False"
proof -
  obtain c r1 where r: "r = c # r1" using assms(1,2) by (cases r) auto
  let ?k1 = "min k (length r1)" and ?L = "lines_terminated_by d"
  have g: "get (placed r k sc) = (Chr c, placed r1 ?k1 sc)" using r assms(2) get_placed by simp
  have cf: "m_escaped_char sc = first_char (fields_escaped_by d)" "m_lines_terminated_by sc = ?L" "0 < length ?L"
    using assms(4) by (auto simp: conf_def)
  show ?thesis
  proof (cases "Chr c = first_char (fields_escaped_by d)")
    case True
    show ?thesis
    proof (cases r1)
      case Nil
      have "unget c (placed [] 0 (sc\<lparr>m_end_of_block := True\<rparr>)) = Inr (placed [c] 0 (sc\<lparr>m_end_of_block := True\<rparr>))"
        using unget_placed conf_room [OF assms(4)] by simp
      then show ?thesis using g r Nil cf
        by (simp add: skip_row_turn_def skip_item_def get_placed_end True [symmetric])
    next
      case r1: (Cons c2 r2)
      have g2: "get (placed r1 ?k1 sc) = (Chr c2, placed r2 (min ?k1 (length r2)) sc)" using r1 get_placed [of ?k1 r2 c2] by simp
      then have "skip_row_turn (placed r k sc) = Inr (False, placed r2 (min ?k1 (length r2)) sc)"
        using g cf True assms(5) by (simp add: skip_row_turn_def)
      then have "stepped ([c, c2] @ r2) k (max 2 (length ?L)) sc (length [c, c2]) False (skip_row_turn (placed r k sc))"
        by (rule stepped_missed) (use assms(2) r r1 in auto)
      then show ?thesis using True r r1 by (simp add: skip_item_def numeral_2_eq_2)
    qed
  next
    case False
    have room: "length r1 - ?k1 < stack_size sc" "length ?L \<le> stack_size sc"
      using assms(2,3) r conf_room [OF assms(4)] by (auto simp: reach_def)
    have "skip_row_turn (placed r k sc) = at_sequence ?L (Chr c) (placed r1 ?k1 sc)"
      using g cf False by (simp add: skip_row_turn_def)
    moreover have "?k1 \<le> length r1" by simp
    note t = at_sequence_placed [OF this room assms(5), of c]
    moreover have "stepped r k ahead sc n x res" if "stepped ([c] @ r1) ?k1 ahead' sc n x res" "0 < ahead" "ahead' \<le> ahead"
      for ahead' ahead n x and res :: "(bool \<times> scanner) result"
      using stepped_get [of c r1 k ahead' sc n x res ahead] that r assms(2) by simp
    ultimately show ?thesis using False r cf(3)
      by (cases "look_for ?L (c # r1)") (auto simp: skip_item_def)
  qed
qed

lemma skip_line_start_turn_placed:
  assumes "0 < k" "k \<le> length r" "length r - k < stack_size sc" "conf d sc" "\<not> m_end_of_block sc" "lines_starting_by d \<noteq> []"
  shows "case look_for (lines_starting_by d) r of
      Cut \<Rightarrow> skip_line_start_turn (placed r k sc) = Inr (False, placed r 0 (sc\<lparr>m_end_of_block := True\<rparr>))
    | Missed \<Rightarrow> stepped r k (length (lines_starting_by d)) sc 1 False (skip_line_start_turn (placed r k sc))
    | Found \<Rightarrow> stepped r k (length (lines_starting_by d)) sc (length (lines_starting_by d)) True (skip_line_start_turn (placed r k sc))"
proof -
  obtain c r1 where r: "r = c # r1" using assms(1,2) by (cases r) auto
  let ?k1 = "min k (length r1)" and ?S = "lines_starting_by d"
  have g: "get (placed r k sc) = (Chr c, placed r1 ?k1 sc)" using r assms(2) get_placed by simp
  have cf: "m_lines_starting_by sc = ?S" "length ?S \<le> stack_size sc" "0 < length ?S"
    using assms(4,6) by (auto simp: conf_def)
  have room: "?k1 \<le> length r1" "length r1 - ?k1 < stack_size sc" using assms(2,3) r by auto
  have "skip_line_start_turn (placed r k sc) = at_sequence ?S (Chr c) (placed r1 ?k1 sc)"
    using g cf by (simp add: skip_line_start_turn_def)
  moreover note at_sequence_placed [OF room cf(2) assms(5), of c]
  moreover have "stepped r k ahead sc n x res" if "stepped ([c] @ r1) ?k1 ahead' sc n x res" "0 < ahead" "ahead' \<le> ahead"
    for ahead' ahead n x and res :: "(bool \<times> scanner) result"
    using stepped_get [of c r1 k ahead' sc n x res ahead] that r assms(2) by simp
  ultimately show ?thesis using r cf(3) by (cases "look_for ?S (c # r1)") auto
qed

end
