(* ===== verification/Scanner_Rows.thy ===== *)
theory Scanner_Rows
  imports Scanner_Steps
begin

text \<open>
  What the scanner computes, without blocks and without a stack: a reference that runs over the whole data and lists the positions
  at which rows start. The scanner is proved to find, in each block, the first of these positions that lies in the
  block, wherever the data is cut.
\<close>

section \<open>Rows\<close>

text \<open>The state of the reference: the rows that are still skipped, the status, and the enclosing character of the field. A step
  says how many characters it consumes; there is none when more data is needed.\<close>

type_synonym ctl = "nat \<times> row_status \<times> chr"

definition ref_step :: "dialect \<Rightarrow> ctl \<Rightarrow> string \<Rightarrow> (nat \<times> ctl) option" where
  "ref_step d = (\<lambda>(skip, st, q) r.
     if r = [] then None
     else if 0 < skip then
       (case skip_item d r of
          More \<Rightarrow> None | Plain n \<Rightarrow> Some (n, skip, st, q) | End_line n \<Rightarrow> Some (n, skip - 1, st, q) | End_field n \<Rightarrow> None)
     else case st of
       BEGIN \<Rightarrow> Some (0, 0, PREFIX, q)
     | PREFIX \<Rightarrow>
         if lines_starting_by d = [] then Some (0, 0, BEGIN_OF_FIELD, q)
         else (case look_for (lines_starting_by d) r of
                 Found \<Rightarrow> Some (length (lines_starting_by d), 0, BEGIN_OF_FIELD, q)
               | Cut \<Rightarrow> None
               | Missed \<Rightarrow> Some (1, 0, PREFIX, q))
     | BEGIN_OF_FIELD \<Rightarrow>
         if Chr (hd r) = first_char (fields_enclosed_by d) then Some (1, 0, FIELD, Chr (hd r)) else Some (0, 0, FIELD, Not_used)
     | FIELD \<Rightarrow>
         (case field_item d q r of
            More \<Rightarrow> None
          | Plain n \<Rightarrow> Some (n, 0, FIELD, q)
          | End_field n \<Rightarrow> Some (n, 0, BEGIN_OF_FIELD, q)
          | End_line n \<Rightarrow> Some (n, 0, BEGIN, q)))"

fun ctl_rank :: "ctl \<Rightarrow> nat" where
  "ctl_rank (skip, st, q) = (if 0 < skip then 0 else status_rank st)"

lemma look_for_length: "look_for s r = Found \<Longrightarrow> 0 < length s \<and> length s \<le> length r"
  by (auto simp: look_for_def prefix_length_le split: if_splits)

fun item_size :: "item \<Rightarrow> nat" where
  "item_size More = 1" | "item_size (Plain n) = n" | "item_size (End_field n) = n" | "item_size (End_line n) = n"

lemma char_item_size:
  assumes "r \<noteq> []"
  shows "0 < item_size (char_item d q r) \<and> item_size (char_item d q r) \<le> length r"
proof -
  obtain c r1 where r: "r = c # r1" using assms by (cases r) auto
  show ?thesis
  proof (cases "q = Not_used")
    case True
    then show ?thesis using r by (auto simp: char_item_def Suc_le_eq dest: look_for_length split: hit.split)
  next
    case False
    show ?thesis
    proof (cases r1)
      case (Cons c2 r2)
      then show ?thesis using r False by (auto simp: char_item_def Suc_le_eq dest: look_for_length split: hit.split)
    qed (use r False in \<open>simp add: char_item_def\<close>)
  qed
qed

lemma item_sizes:
  assumes "r \<noteq> []"
  shows "0 < item_size (field_item d q r)" "item_size (field_item d q r) \<le> length r"
    "0 < item_size (skip_item d r)" "item_size (skip_item d r) \<le> length r"
proof -
  obtain c r1 where r: "r = c # r1" using assms by (cases r) auto
  show "0 < item_size (field_item d q r)" "item_size (field_item d q r) \<le> length r"
    "0 < item_size (skip_item d r)" "item_size (skip_item d r) \<le> length r"
    using char_item_size [OF assms, of d q] r
    by (cases r1; auto simp: field_item_def skip_item_def dest: look_for_length split: hit.split)+
qed

lemma status_rank_bound: "ctl_rank c \<le> 3"
  by (cases c) (simp add: status_rank_le)

lemma ref_step_progress:
  assumes "ref_step d c r = Some (n, c')"
  shows "r \<noteq> [] \<and> n \<le> length r \<and> (n = 0 \<longrightarrow> ctl_rank c' < ctl_rank c)"
proof -
  obtain skip st q where c: "c = (skip, st, q)" by (cases c)
  have ne: "r \<noteq> []" using assms c by (auto simp: ref_step_def)
  note sz = item_sizes [OF ne, of d]
  have "n \<le> length r \<and> (n = 0 \<longrightarrow> ctl_rank c' < ctl_rank c)"
  proof (cases "0 < skip")
    case True
    then show ?thesis using assms c ne sz(3,4) by (auto simp: ref_step_def split: item.splits)
  next
    case False
    then show ?thesis using assms c ne sz(1,2) [of q]
      by (cases st) (auto simp: ref_step_def Suc_le_eq dest: look_for_length split: item.splits hit.splits if_splits)
  qed
  then show ?thesis using ne by blast
qed

text \<open>The positions of the rows, counting from \<open>p\<close>.\<close>

function row_starts :: "dialect \<Rightarrow> ctl \<Rightarrow> nat \<Rightarrow> string \<Rightarrow> nat list" where
  "row_starts d c p r =
     (case ref_step d c r of
        None \<Rightarrow> []
      | Some (n, c') \<Rightarrow> (if fst c = 0 \<and> fst (snd c) = BEGIN then [p] else []) @ row_starts d c' (p + n) (drop n r))"
  by pat_completeness auto
termination
proof (relation "measure (\<lambda>(d, c, p, r). 4 * length r + ctl_rank c)")
  show "((d, c', p + n, drop n r), d, c, p, r) \<in> measure (\<lambda>(d, c, p, r). 4 * length r + ctl_rank c)"
    if "ref_step d c r = Some x" "(n, c') = x" for d c p r x n c'
  proof -
    have "n \<le> length r \<and> (n = 0 \<longrightarrow> ctl_rank c' < ctl_rank c)" using ref_step_progress that by blast
    moreover have "ctl_rank c' \<le> 3" by (rule status_rank_bound)
    ultimately show ?thesis by auto
  qed
qed simp

declare row_starts.simps [simp del]

text \<open>More data does not change a step.\<close>

lemma look_for_append: "look_for s r \<noteq> Cut \<Longrightarrow> r \<noteq> [] \<Longrightarrow> look_for s (r @ t) = look_for s r"
proof (cases s)
  case (Cons x w)
  moreover assume "look_for s r \<noteq> Cut" "r \<noteq> []"
  moreover obtain c r1 where "r = c # r1" using calculation(3) by (cases r) auto
  ultimately show ?thesis
    by (auto simp: look_for_Cons prefix_append dest: append_prefixD split: if_splits)
qed simp

lemma char_item_append:
  assumes "char_item d q r \<noteq> More" "r \<noteq> []"
  shows "char_item d q (r @ t) = char_item d q r"
proof -
  obtain c r1 where r: "r = c # r1" using assms(2) by (cases r) auto
  show ?thesis
  proof (cases "q = Not_used")
    case True
    then show ?thesis using assms look_for_append [of "lines_terminated_by d" r t] look_for_append [of "fields_terminated_by d" r t]
      by (auto simp: char_item_def split: hit.splits)
  next
    case False
    show ?thesis
    proof (cases r1)
      case (Cons c2 r2)
      then show ?thesis
        using assms r False look_for_append [of "lines_terminated_by d" r1 t] look_for_append [of "fields_terminated_by d" r1 t]
        by (auto simp: char_item_def split: hit.splits if_splits)
    qed (use assms r False in \<open>auto simp: char_item_def split: if_splits\<close>)
  qed
qed

lemma field_item_append: "field_item d q r \<noteq> More \<Longrightarrow> field_item d q (r @ t) = field_item d q r"
proof (cases r)
  case (Cons c r1)
  assume "field_item d q r \<noteq> More"
  then show ?thesis using Cons char_item_append [of d q r t] by (cases r1) (auto simp: field_item_def split: if_splits)
qed (simp add: field_item_def)

lemma skip_item_append: "skip_item d r \<noteq> More \<Longrightarrow> skip_item d (r @ t) = skip_item d r"
proof (cases r)
  case (Cons c r1)
  assume "skip_item d r \<noteq> More"
  then show ?thesis using Cons look_for_append [of "lines_terminated_by d" r t]
    by (cases r1) (auto simp: skip_item_def split: if_splits hit.splits)
qed (simp add: skip_item_def)

lemma ref_step_append:
  assumes "ref_step d c r = Some x"
  shows "ref_step d c (r @ t) = Some x"
proof -
  obtain skip st q where c: "c = (skip, st, q)" by (cases c)
  have ne: "r \<noteq> []" using assms c by (auto simp: ref_step_def)
  show ?thesis
  proof (cases "0 < skip")
    case True
    then show ?thesis using assms c ne skip_item_append [of d r t] by (cases "skip_item d r") (auto simp: ref_step_def)
  next
    case False
    show ?thesis
    proof (cases st)
      case PREFIX
      then show ?thesis using assms c ne False look_for_append [of "lines_starting_by d" r t]
        by (cases "look_for (lines_starting_by d) r") (auto simp: ref_step_def split: if_splits)
    next
      case FIELD
      then show ?thesis using assms c ne False field_item_append [of d q r t]
        by (cases "field_item d q r") (auto simp: ref_step_def)
    qed (use assms c ne False in \<open>auto simp: ref_step_def split: if_splits\<close>)
  qed
qed

text \<open>The reference gets from one state to another, whatever data follows, and finds some rows on the way.\<close>

definition follows :: "dialect \<Rightarrow> nat \<Rightarrow> ctl \<Rightarrow> string \<Rightarrow> nat list \<Rightarrow> nat \<Rightarrow> ctl \<Rightarrow> string \<Rightarrow> bool" where
  "follows d p c r rows p' c' r' \<longleftrightarrow>
     p + length r = p' + length r' \<and> (\<forall>t. row_starts d c p (r @ t) = rows @ row_starts d c' p' (r' @ t))"

lemma follows_refl: "follows d p c r [] p c r"
  by (simp add: follows_def)

lemma follows_trans: "follows d p c r rows p1 c1 r1 \<Longrightarrow> follows d p1 c1 r1 rows' p' c' r' \<Longrightarrow> follows d p c r (rows @ rows') p' c' r'"
  by (simp add: follows_def)

lemma follows_step:
  assumes "ref_step d c r = Some (n, c')"
  shows "follows d p c r (if fst c = 0 \<and> fst (snd c) = BEGIN then [p] else []) (p + n) c' (drop n r)"
  using ref_step_progress [OF assms] ref_step_append [OF assms]
  by (simp add: follows_def row_starts.simps [of d c])

section \<open>How far the scanner is ahead\<close>

text \<open>The characters on the stack were taken from the block before they were consumed. Their number is bounded in every state. If the field
  terminator is not much longer than the line terminator and a line terminator cannot be taken for an escape sequence, none are left
  when a row starts: then the place in the block is the position of the row.\<close>

definition aligned :: "dialect \<Rightarrow> bool" where
  "aligned d \<longleftrightarrow>
     length (fields_terminated_by d) \<le> length (lines_terminated_by d) + 1 \<and>
     first_char (fields_escaped_by d) \<noteq> first_char (lines_terminated_by d)"

fun lag :: "dialect \<Rightarrow> ctl \<Rightarrow> nat" where
  "lag d (skip, st, q) =
     (if 0 < skip then length (lines_terminated_by d)
      else case st of
        BEGIN \<Rightarrow> 0
      | PREFIX \<Rightarrow> length (lines_starting_by d) - 1
      | BEGIN_OF_FIELD \<Rightarrow> length (lines_terminated_by d)
      | FIELD \<Rightarrow> (if q = Not_used then length (lines_terminated_by d) else length (lines_terminated_by d) + 1))"

fun room :: "dialect \<Rightarrow> ctl \<Rightarrow> nat" where
  "room d (skip, st, q) = (if skip = 0 \<and> st = PREFIX then max (reach d) (length (lines_starting_by d) - 1) else reach d)"

definition bounded :: "dialect \<Rightarrow> ctl \<Rightarrow> nat \<Rightarrow> bool" where
  "bounded d c j \<longleftrightarrow> j \<le> room d c \<and> (aligned d \<longrightarrow> j \<le> lag d c)"

lemma look_for_Cut: "look_for s r = Cut \<Longrightarrow> length r < length s"
  by (auto simp: look_for_def strict_prefix_def prefix_length_less split: if_splits intro: prefix_length_less)

lemma char_item_More:
  assumes "char_item d q r = More" "r \<noteq> []"
  shows "length r < max 2 (look d q)"
proof -
  obtain c r1 where r: "r = c # r1" using assms(2) by (cases r) auto
  show ?thesis
  proof (cases "q = Not_used")
    case True
    then show ?thesis using assms(1) r
      by (auto simp: char_item_def look_def reach_def less_max_iff_disj dest!: look_for_Cut split: hit.splits)
  next
    case False
    then show ?thesis using assms(1) r
      by (auto simp: char_item_def look_def reach_def less_max_iff_disj dest!: look_for_Cut split: hit.splits if_splits)
  qed
qed

lemma items_More:
  "field_item d q r = More \<Longrightarrow> length r < max 2 (look d q)"
  "skip_item d r = More \<Longrightarrow> length r < max 2 (length (lines_terminated_by d))"
proof -
  show "length r < max 2 (look d q)" if "field_item d q r = More"
  proof (cases r)
    case (Cons c r1)
    then show ?thesis using that char_item_More [of d q r] by (auto simp: field_item_def split: if_splits)
  qed simp
  show "length r < max 2 (length (lines_terminated_by d))" if "skip_item d r = More"
    using that by (cases r) (auto simp: skip_item_def less_max_iff_disj dest!: look_for_Cut split: if_splits hit.splits)
qed

lemma skip_item_End_field [simp]: "skip_item d r \<noteq> End_field n"
  by (auto simp: skip_item_def split: hit.split)

lemma aligned_reach: "aligned d \<Longrightarrow> reach d \<le> length (lines_terminated_by d) + 1"
  by (auto simp: aligned_def reach_def)

lemma reach_line: "length (lines_terminated_by d) \<le> reach d"
  by (simp add: reach_def)

lemma look_reach: "look d q \<le> reach d + 1" "q = Not_used \<Longrightarrow> look d q = reach d"
  by (auto simp: look_def)

lemma bounded_cut:
  assumes "ref_step d c r = None" "lines_terminated_by d \<noteq> []"
  shows "bounded d c (length r)"
proof -
  obtain skip st q where c: "c = (skip, st, q)" by (cases c)
  let ?L = "length (lines_terminated_by d)"
  have L: "0 < ?L" "?L \<le> reach d" using assms(2) by (auto simp: reach_line)
  consider "r = [] \<or> skip = 0 \<and> st \<noteq> FIELD" | (skip) "r \<noteq> []" "0 < skip" | (field) "r \<noteq> []" "skip = 0" "st = FIELD" by blast
  then show ?thesis
  proof cases
    case 1
    then show ?thesis using assms(1) c
      by (cases st) (auto simp: bounded_def ref_step_def dest!: look_for_Cut split: if_splits hit.splits)
  next
    case skip
    then have "skip_item d r = More" using assms(1) c by (auto simp: ref_step_def split: item.splits)
    then have "length r < max 2 ?L" by (rule items_More)
    then have "length r \<le> ?L" using L by linarith
    then show ?thesis using c skip L by (simp add: bounded_def)
  next
    case field
    then have "field_item d q r = More" using assms(1) c by (auto simp: ref_step_def split: item.splits)
    then have "length r < max 2 (look d q)" by (rule items_More)
    then have "length r \<le> reach d" "q = Not_used \<Longrightarrow> length r \<le> max 1 (reach d - 1)"
      using L look_reach [where d = d and q = q] by linarith+
    moreover have "max 1 (reach d - 1) \<le> ?L" if "aligned d" using aligned_reach [OF that] L by linarith
    moreover have "length r \<le> lag d c" if "aligned d"
    proof (cases "q = Not_used")
      case True
      then have "length r \<le> ?L" using calculation(2) calculation(3) [OF that] by (meson le_trans)
      then show ?thesis using True c field by simp
    next
      case False
      then show ?thesis using calculation(1) aligned_reach [OF that] c field by simp
    qed
    ultimately show ?thesis using c field by (simp add: bounded_def)
  qed
qed

text \<open>A step that takes at most \<open>ahead\<close> characters from the block keeps the bounds.\<close>

lemma bounded_field:
  assumes "field_item d q r = Plain n \<or> field_item d q r = End_field n" "bounded d (0, FIELD, q) j" "lines_terminated_by d \<noteq> []"
    "j' \<le> max j (max 2 (look d q)) - n"
  shows "bounded d (0, if field_item d q r = Plain n then FIELD else BEGIN_OF_FIELD, q) j'"
proof -
  let ?L = "length (lines_terminated_by d)"
  have L: "0 < ?L" "?L \<le> reach d" using assms(3) by (auto simp: reach_line)
  have ne: "r \<noteq> []" using assms(1) by (auto simp: field_item_def)
  have n: "0 < n" using item_sizes(1) [OF ne, of d q] assms(1) by auto
  have b: "j \<le> reach d" "aligned d \<Longrightarrow> j \<le> (if q = Not_used then ?L else ?L + 1)"
    using assms(2) by (auto simp: bounded_def)
  have "j' \<le> reach d" using assms(4) n b(1) L look_reach(1) [of d q] by linarith
  moreover have "j' \<le> (if q = Not_used then ?L else ?L + 1)" if "aligned d"
  proof (cases "q = Not_used")
    case True
    then have "j \<le> ?L" "look d q \<le> ?L + 1" using b(2) [OF that] aligned_reach [OF that] look_reach(2) by auto
    then have "j' \<le> ?L" using assms(4) n L by linarith
    then show ?thesis using True by simp
  next
    case False
    then have "j \<le> ?L + 1" using b(2) [OF that] by simp
    then have "j' \<le> ?L + 1" using assms(4) n L aligned_reach [OF that] look_reach(1) [of d q] by linarith
    then show ?thesis using False by simp
  qed
  moreover have "j' \<le> ?L" if "aligned d" "field_item d q r = End_field n"
  proof (cases "q = Not_used")
    case False
    then have "2 \<le> n" using that(2)
      by (auto simp: field_item_def char_item_def Suc_le_eq dest: look_for_length split: if_splits hit.splits)
    moreover have "j \<le> ?L + 1" using b(2) [OF that(1)] False by simp
    ultimately show ?thesis using assms(4) L aligned_reach [OF that(1)] look_reach(1) [of d q] by linarith
  qed (use calculation(2) that in simp)
  ultimately show ?thesis using assms(1) by (auto simp: bounded_def)
qed

lemma bounded_End_line:
  assumes "field_item d q r = End_line n" "bounded d (0, FIELD, q) j" "lines_terminated_by d \<noteq> []"
    "j' \<le> max j (max n (if Chr (hd r) = first_char (fields_escaped_by d) then 2 else 0)) - n"
  shows "bounded d (0, BEGIN, q) j'"
proof -
  let ?L = "length (lines_terminated_by d)"
  have L: "0 < ?L" "?L \<le> reach d" using assms(3) by (auto simp: reach_line)
  have ne: "r \<noteq> []" using assms(1) by (auto simp: field_item_def)
  have n: "0 < n" using item_sizes(1) [OF ne, of d q] assms(1) by auto
  have i: "char_item d q r = End_line n" using assms(1) by (auto simp: field_item_def split: if_splits)
  have "j \<le> reach d" using assms(2) by (simp add: bounded_def)
  moreover have "(if Chr (hd r) = first_char (fields_escaped_by d) then 2 else 0) \<le> (2::nat)" by simp
  ultimately have "j' \<le> reach d" using assms(4) n L by linarith
  moreover have "j' = 0" if a: "aligned d"
  proof (cases "q = Not_used")
    case True
    then have "n = ?L" "look_for (lines_terminated_by d) r = Found"
      using i by (auto simp: char_item_def split: hit.splits)
    then have "Chr (hd r) = first_char (lines_terminated_by d)"
      by (auto simp: look_for_def prefix_def first_char_def split: if_splits)
    then have "Chr (hd r) \<noteq> first_char (fields_escaped_by d)" using a by (auto simp: aligned_def)
    moreover have "j \<le> ?L" using assms(2) a True by (simp add: bounded_def)
    ultimately show ?thesis using assms(4) \<open>n = ?L\<close> by simp
  next
    case False
    then have "n = ?L + 1" using i by (auto simp: char_item_def split: hit.splits if_splits)
    moreover have "j \<le> ?L + 1" using assms(2) a False by (simp add: bounded_def)
    ultimately show ?thesis using assms(4) L by (auto split: if_splits)
  qed
  ultimately show ?thesis by (simp add: bounded_def)
qed

section \<open>Simulation\<close>

fun status_of :: "field_status \<Rightarrow> row_status" where
  "status_of CONTINUED = FIELD" | "status_of END_OF_FIELD = BEGIN_OF_FIELD" | "status_of END_OF_LINE = BEGIN"

definition ctl_of :: "scanner \<Rightarrow> ctl" where
  "ctl_of sc = (m_skip_rows sc, m_status sc, m_found_enclosed_char sc)"

text \<open>The scanner is ready to go on.\<close>

definition ready :: "dialect \<Rightarrow> string \<Rightarrow> nat \<Rightarrow> scanner \<Rightarrow> bool" where
  "ready d r k sc \<longleftrightarrow>
     conf d sc \<and> (m_end_of_block sc \<longrightarrow> k = 0) \<and> m_found_enclosed_char sc \<noteq> End_of_block \<and> k \<le> length r \<and>
     bounded d (ctl_of sc) (length r - k)"

lemma placed_empty: "k \<le> length r \<Longrightarrow> m_data (placed r k sc) = [] \<longleftrightarrow> k = 0"
  by auto

lemma scan_field_sim:
  assumes "ready d r k sc" "ctl_of sc = (0, FIELD, q)"
  shows "\<exists>st e p' r' k'. scan_field (placed r k sc) = Inr (st, placed r' k' (sc\<lparr>m_end_of_block := e\<rparr>)) \<and> k' \<le> k \<and>
    ready d r' k' (sc\<lparr>m_end_of_block := e, m_status := status_of st\<rparr>) \<and> (st = CONTINUED \<longrightarrow> k' = 0) \<and>
    follows d p (0, FIELD, q) r [] p' (0, status_of st, q) r'"
  using assms
proof (induction "length r" arbitrary: p r k rule: less_induct)
  case less
  note rd = less(2)[unfolded ready_def less(3)] and q = less(3)[unfolded ctl_of_def prod.inject]
  have ne: "lines_terminated_by d \<noteq> []" using rd by (simp add: conf_def)
  have same: "sc\<lparr>m_end_of_block := m_end_of_block sc\<rparr> = sc" by simp
  show ?case
  proof (cases "k = 0")
    case True
    then have "scan_field (placed r k sc) = Inr (CONTINUED, placed r 0 (sc\<lparr>m_end_of_block := m_end_of_block sc\<rparr>))"
      by (simp add: scan_field.simps)
    moreover have "ready d r 0 (sc\<lparr>m_end_of_block := m_end_of_block sc, m_status := status_of CONTINUED\<rparr>)"
      using less(2,3) True by (simp add: ready_def ctl_of_def)
    ultimately show ?thesis using follows_refl [of d p "(0, FIELD, q)" r]
      by (intro exI [of _ CONTINUED] exI [of _ "m_end_of_block sc"] exI [of _ p] exI [of _ r] exI [of _ 0]) simp
  next
    case False
    then have e: "\<not> m_end_of_block sc" using rd by simp
    have j: "length r - k \<le> reach d" using rd by (simp add: bounded_def)
    note t = scan_field_turn_placed [of k r d sc, OF _ _ j _ e]
    have u: "scan_field (placed r k sc) = rbind (scan_field_turn (placed r k sc))
        (\<lambda>(r, sc1). case r of Some status \<Rightarrow> Inr (status, sc1) | None \<Rightarrow> scan_field sc1)"
    proof -
      have "\<not> length r \<le> length r - k" using False rd by linarith
      then show ?thesis using e by (subst scan_field.simps) simp
    qed
    have t: "turned r k (max 2 (look d q)) (if Chr (hd r) = first_char (fields_escaped_by d) then 2 else 0) sc
        (field_item d q r) (scan_field_turn (placed r k sc))"
      using scan_field_turn_placed [of k r d sc] False rd e j q by auto
    have r: "r \<noteq> []" using False rd by auto
    note sz = item_sizes(1,2) [OF r, of d q]
    let ?e = "sc\<lparr>m_end_of_block := m_end_of_block sc\<rparr>"
    show ?thesis
    proof (cases "field_item d q r")
      case More
      then have "scan_field (placed r k sc) = Inr (CONTINUED, placed r 0 (sc\<lparr>m_end_of_block := True\<rparr>))" using t u by simp
      moreover have "bounded d (0, FIELD, q) (length r)"
        by (rule bounded_cut) (use More r ne in \<open>auto simp: ref_step_def\<close>)
      then have "ready d r 0 (sc\<lparr>m_end_of_block := True, m_status := status_of CONTINUED\<rparr>)"
        using rd q by (simp add: ready_def ctl_of_def)
      ultimately show ?thesis using follows_refl [of d p "(0, FIELD, q)" r]
        by (intro exI [of _ CONTINUED] exI [of _ True] exI [of _ p] exI [of _ r] exI [of _ 0]) simp
    next
      case (Plain n)
      then obtain k1 where k1: "scan_field_turn (placed r k sc) = Inr (None, placed (drop n r) k1 sc)" "n \<le> length r" "k1 \<le> k"
          "k1 \<le> length r - n" "length r - n - k1 \<le> max (length r - k) (max 2 (look d q)) - n"
        using t by (auto simp: stepped_def)
      have "bounded d (0, FIELD, q) (length r - n - k1)"
        using bounded_field [of d q r n "length r - k"] Plain rd ne k1(5) by auto
      then have "ready d (drop n r) k1 sc" using rd e k1 less(3) by (simp add: ready_def)
      moreover have "length (drop n r) < length r" using sz Plain by simp
      ultimately obtain st e2 p' r' k' where ih: "scan_field (placed (drop n r) k1 sc) = Inr (st, placed r' k' (sc\<lparr>m_end_of_block := e2\<rparr>))"
          "k' \<le> k1" "ready d r' k' (sc\<lparr>m_end_of_block := e2, m_status := status_of st\<rparr>)" "st = CONTINUED \<longrightarrow> k' = 0"
          "follows d (p + n) (0, FIELD, q) (drop n r) [] p' (0, status_of st, q) r'"
        using less(1) [of "drop n r" k1 "p + n"] less(3) by blast
      have "follows d p (0, FIELD, q) r [] (p + n) (0, FIELD, q) (drop n r)"
        using follows_step [of d "(0, FIELD, q)" r n "(0, FIELD, q)" p] Plain r by (simp add: ref_step_def)
      from follows_trans [OF this ih(5)] have "follows d p (0, FIELD, q) r [] p' (0, status_of st, q) r'" by simp
      moreover have "scan_field (placed r k sc) = Inr (st, placed r' k' (sc\<lparr>m_end_of_block := e2\<rparr>))" using u k1(1) ih(1) by simp
      ultimately show ?thesis using ih(2-4) k1(3) le_trans by blast
    next
      case (End_field n)
      then obtain k1 where k1: "scan_field_turn (placed r k sc) = Inr (Some END_OF_FIELD, placed (drop n r) k1 sc)" "n \<le> length r" "k1 \<le> k"
          "k1 \<le> length r - n" "length r - n - k1 \<le> max (length r - k) (max 2 (look d q)) - n"
        using t by (auto simp: stepped_def)
      have "bounded d (0, BEGIN_OF_FIELD, q) (length r - n - k1)"
        using bounded_field [of d q r n "length r - k"] End_field rd ne k1(5) by auto
      then have "ready d (drop n r) k1 (sc\<lparr>m_end_of_block := False, m_status := status_of END_OF_FIELD\<rparr>)"
        using rd e k1 q by (simp add: ready_def ctl_of_def)
      moreover have "follows d p (0, FIELD, q) r [] (p + n) (0, status_of END_OF_FIELD, q) (drop n r)"
        using follows_step [of d "(0, FIELD, q)" r n] End_field r by (simp add: ref_step_def)
      moreover have "scan_field (placed r k sc) = Inr (END_OF_FIELD, placed (drop n r) k1 (sc\<lparr>m_end_of_block := False\<rparr>))"
        using u k1(1) e same by simp
      ultimately show ?thesis using k1(3) by blast
    next
      case (End_line n)
      then obtain k1 where k1: "scan_field_turn (placed r k sc) = Inr (Some END_OF_LINE, placed (drop n r) k1 sc)" "n \<le> length r" "k1 \<le> k"
          "k1 \<le> length r - n" "length r - n - k1 \<le> max (length r - k) (max n (if Chr (hd r) = first_char (fields_escaped_by d) then 2 else 0)) - n"
        using t by (auto simp: stepped_def)
      have "bounded d (0, BEGIN, q) (length r - n - k1)"
        using bounded_End_line [OF End_line _ ne k1(5)] rd by auto
      then have "ready d (drop n r) k1 (sc\<lparr>m_end_of_block := False, m_status := status_of END_OF_LINE\<rparr>)"
        using rd e k1 q by (simp add: ready_def ctl_of_def)
      moreover have "follows d p (0, FIELD, q) r [] (p + n) (0, status_of END_OF_LINE, q) (drop n r)"
        using follows_step [of d "(0, FIELD, q)" r n] End_line r by (simp add: ref_step_def)
      moreover have "scan_field (placed r k sc) = Inr (END_OF_LINE, placed (drop n r) k1 (sc\<lparr>m_end_of_block := False\<rparr>))"
        using u k1(1) e same by simp
      ultimately show ?thesis using k1(3) by blast
    qed
  qed
qed

lemma loop_head: "0 < k \<Longrightarrow> k \<le> length r \<Longrightarrow> \<not> length r \<le> length r - k"
  by linarith

lemma reach_room: "reach d \<le> room d c"
  by (cases c) simp

lemma skip_row_sim:
  assumes "ready d r k sc" "ctl_of sc = (Suc m, st, q)"
  shows "\<exists>b e p' r' k'. skip_row (placed r k sc) = Inr (b, placed r' k' (sc\<lparr>m_end_of_block := e\<rparr>)) \<and> k' \<le> k \<and>
    ready d r' k' (sc\<lparr>m_end_of_block := e, m_skip_rows := if b then m else Suc m\<rparr>) \<and> (\<not> b \<longrightarrow> k' = 0) \<and>
    follows d p (Suc m, st, q) r [] p' (if b then m else Suc m, st, q) r'"
  using assms
proof (induction "length r" arbitrary: p r k rule: less_induct)
  case less
  note rd = less(2)[unfolded ready_def less(3)] and q = less(3)[unfolded ctl_of_def prod.inject]
  let ?L = "length (lines_terminated_by d)"
  have ne: "lines_terminated_by d \<noteq> []" "0 < ?L" using rd by (auto simp: conf_def)
  show ?case
  proof (cases "k = 0")
    case True
    then have "skip_row (placed r k sc) = Inr (False, placed r 0 (sc\<lparr>m_end_of_block := m_end_of_block sc\<rparr>))"
      by (simp add: skip_row.simps)
    moreover have "ready d r 0 (sc\<lparr>m_end_of_block := m_end_of_block sc, m_skip_rows := if False then m else Suc m\<rparr>)"
      using less(2,3) True by (simp add: ready_def ctl_of_def)
    ultimately show ?thesis using follows_refl [of d p "(Suc m, st, q)" r]
      by (intro exI [of _ False] exI [of _ "m_end_of_block sc"] exI [of _ p] exI [of _ r] exI [of _ 0]) simp
  next
    case False
    then have e: "\<not> m_end_of_block sc" using rd by simp
    have j: "length r - k \<le> reach d" "aligned d \<Longrightarrow> length r - k \<le> ?L" using rd by (auto simp: bounded_def)
    have u: "skip_row (placed r k sc) = rbind (skip_row_turn (placed r k sc))
        (\<lambda>(found, sc1). if found then Inr (True, sc1) else skip_row sc1)"
      using loop_head [of k r] False rd e by (subst skip_row.simps) simp
    have r: "r \<noteq> []" using False rd by auto
    note t = skip_row_turn_placed [of k r d sc] and sz = item_sizes(3,4) [OF r, of d]
    show ?thesis
    proof (cases "skip_item d r")
      case More
      then have "skip_row (placed r k sc) = skip_row (placed r 0 (sc\<lparr>m_end_of_block := True\<rparr>))" using t u False rd e j by simp
      also have "\<dots> = Inr (False, placed r 0 (sc\<lparr>m_end_of_block := True\<rparr>))" by (simp add: skip_row.simps)
      finally have "skip_row (placed r k sc) = Inr (False, placed r 0 (sc\<lparr>m_end_of_block := True\<rparr>))" .
      moreover have "bounded d (Suc m, st, q) (length r)"
        by (rule bounded_cut) (use More r ne in \<open>auto simp: ref_step_def\<close>)
      then have "ready d r 0 (sc\<lparr>m_end_of_block := True, m_skip_rows := if False then m else Suc m\<rparr>)"
        using rd q by (simp add: ready_def ctl_of_def)
      ultimately show ?thesis using follows_refl [of d p "(Suc m, st, q)" r]
        by (intro exI [of _ False] exI [of _ True] exI [of _ p] exI [of _ r] exI [of _ 0]) simp
    next
      case (Plain n)
      then obtain k1 where k1: "skip_row_turn (placed r k sc) = Inr (False, placed (drop n r) k1 sc)" "n \<le> length r" "k1 \<le> k"
          "k1 \<le> length r - n" "length r - n - k1 \<le> max (length r - k) (max 2 ?L) - n"
        using t False rd e j by (auto simp: stepped_def)
      have n: "0 < n" using sz Plain by simp
      have "length r - n - k1 \<le> reach d" using k1(5) j(1) n ne(2) reach_line [of d] by linarith
      moreover have "length r - n - k1 \<le> ?L" if "aligned d" using k1(5) j(2) [OF that] n ne(2) by linarith
      ultimately have "ready d (drop n r) k1 sc" using rd e k1 less(3) by (simp add: ready_def bounded_def)
      moreover have "length (drop n r) < length r" using n r by simp
      ultimately obtain b e2 p' r' k' where ih: "skip_row (placed (drop n r) k1 sc) = Inr (b, placed r' k' (sc\<lparr>m_end_of_block := e2\<rparr>))"
          "k' \<le> k1" "ready d r' k' (sc\<lparr>m_end_of_block := e2, m_skip_rows := if b then m else Suc m\<rparr>)" "\<not> b \<longrightarrow> k' = 0"
          "follows d (p + n) (Suc m, st, q) (drop n r) [] p' (if b then m else Suc m, st, q) r'"
        using less(1) [of "drop n r" k1 "p + n"] less(3) by blast
      have "follows d p (Suc m, st, q) r [] (p + n) (Suc m, st, q) (drop n r)"
        using follows_step [of d "(Suc m, st, q)" r n "(Suc m, st, q)" p] Plain r by (simp add: ref_step_def)
      from follows_trans [OF this ih(5)]
      have "follows d p (Suc m, st, q) r [] p' (if b then m else Suc m, st, q) r'" by simp
      moreover have "skip_row (placed r k sc) = Inr (b, placed r' k' (sc\<lparr>m_end_of_block := e2\<rparr>))" using u k1(1) ih(1) by simp
      ultimately show ?thesis using ih(2-4) k1(3) le_trans by blast
    next
      case (End_line n)
      then obtain k1 where k1: "skip_row_turn (placed r k sc) = Inr (True, placed (drop n r) k1 sc)" "n \<le> length r" "k1 \<le> k"
          "k1 \<le> length r - n" "length r - n - k1 \<le> max (length r - k) n - n"
        using t False rd e j by (auto simp: stepped_def)
      have n: "n = ?L" using End_line by (auto simp: skip_item_def split: if_splits hit.splits)
      have "length r - n - k1 \<le> room d (m, st, q)" using k1(5) j(1) reach_room [of d "(m, st, q)"] by linarith
      moreover have "length r - n - k1 = 0" if "aligned d" using k1(5) j(2) [OF that] n by linarith
      ultimately have "ready d (drop n r) k1 (sc\<lparr>m_end_of_block := False, m_skip_rows := if True then m else Suc m\<rparr>)"
        using rd e k1 q by (simp add: ready_def ctl_of_def bounded_def)
      moreover have "follows d p (Suc m, st, q) r [] (p + n) (if True then m else Suc m, st, q) (drop n r)"
        using follows_step [of d "(Suc m, st, q)" r n "(m, st, q)" p] End_line r by (simp add: ref_step_def)
      moreover have "skip_row (placed r k sc) = Inr (True, placed (drop n r) k1 (sc\<lparr>m_end_of_block := False\<rparr>))"
        using u k1(1) e by simp
      ultimately show ?thesis using k1(3) by blast
    qed simp
  qed
qed

lemma skip_line_start_loop_sim:
  assumes "ready d r k sc" "ctl_of sc = (0, PREFIX, q)" "lines_starting_by d \<noteq> []"
  shows "\<exists>b e p' r' k'. skip_line_start_loop (placed r k sc) = Inr (b, placed r' k' (sc\<lparr>m_end_of_block := e\<rparr>)) \<and> k' \<le> k \<and>
    ready d r' k' (sc\<lparr>m_end_of_block := e, m_status := if b then BEGIN_OF_FIELD else PREFIX\<rparr>) \<and> (\<not> b \<longrightarrow> k' = 0) \<and>
    follows d p (0, PREFIX, q) r [] p' (0, if b then BEGIN_OF_FIELD else PREFIX, q) r'"
  using assms
proof (induction "length r" arbitrary: p r k rule: less_induct)
  case less
  note rd = less(2)[unfolded ready_def less(3)] and q = less(3)[unfolded ctl_of_def prod.inject]
  let ?S = "length (lines_starting_by d)"
  have S: "0 < ?S" using less(4) by simp
  show ?case
  proof (cases "k = 0")
    case True
    then have "skip_line_start_loop (placed r k sc) = Inr (False, placed r 0 (sc\<lparr>m_end_of_block := m_end_of_block sc\<rparr>))"
      by (simp add: skip_line_start_loop.simps)
    moreover have "ready d r 0 (sc\<lparr>m_end_of_block := m_end_of_block sc, m_status := PREFIX\<rparr>)"
      using less(2,3) True by (simp add: ready_def ctl_of_def)
    ultimately show ?thesis using follows_refl [of d p "(0, PREFIX, q)" r]
      by (intro exI [of _ False] exI [of _ "m_end_of_block sc"] exI [of _ p] exI [of _ r] exI [of _ 0]) simp
  next
    case False
    then have e: "\<not> m_end_of_block sc" using rd by simp
    have j: "length r - k \<le> max (reach d) (?S - 1)" "aligned d \<Longrightarrow> length r - k \<le> ?S - 1" using rd by (auto simp: bounded_def)
    have "?S \<le> stack_size sc" "reach d < stack_size sc" using rd conf_room [of d sc] by (auto simp: conf_def)
    then have room: "length r - k < stack_size sc" using j(1) S by linarith
    have u: "skip_line_start_loop (placed r k sc) = rbind (skip_line_start_turn (placed r k sc))
        (\<lambda>(found, sc1). if found then Inr (True, sc1) else skip_line_start_loop sc1)"
      using loop_head [of k r] False rd e by (subst skip_line_start_loop.simps) simp
    have r: "r \<noteq> []" using False rd by auto
    note t = skip_line_start_turn_placed [of k r sc d, OF _ _ room _ e less(4)]
    show ?thesis
    proof (cases "look_for (lines_starting_by d) r")
      case Cut
      then have "skip_line_start_loop (placed r k sc) = skip_line_start_loop (placed r 0 (sc\<lparr>m_end_of_block := True\<rparr>))"
        using t u False rd by simp
      also have "\<dots> = Inr (False, placed r 0 (sc\<lparr>m_end_of_block := True\<rparr>))" by (simp add: skip_line_start_loop.simps)
      finally have "skip_line_start_loop (placed r k sc) = Inr (False, placed r 0 (sc\<lparr>m_end_of_block := True\<rparr>))" .
      moreover have "bounded d (0, PREFIX, q) (length r)"
        by (rule bounded_cut) (use Cut r less(4) rd in \<open>auto simp: ref_step_def conf_def\<close>)
      then have "ready d r 0 (sc\<lparr>m_end_of_block := True, m_status := PREFIX\<rparr>)"
        using rd q by (simp add: ready_def ctl_of_def)
      ultimately show ?thesis using follows_refl [of d p "(0, PREFIX, q)" r]
        by (intro exI [of _ False] exI [of _ True] exI [of _ p] exI [of _ r] exI [of _ 0]) simp
    next
      case Missed
      then obtain k1 where k1: "skip_line_start_turn (placed r k sc) = Inr (False, placed (drop 1 r) k1 sc)" "1 \<le> length r" "k1 \<le> k"
          "k1 \<le> length r - 1" "length r - 1 - k1 \<le> max (length r - k) ?S - 1"
        using t False rd by (auto simp: stepped_def)
      have "length r - 1 - k1 \<le> max (reach d) (?S - 1)" using k1(5) j(1) by linarith
      moreover have "length r - 1 - k1 \<le> ?S - 1" if "aligned d" using k1(5) j(2) [OF that] by linarith
      ultimately have "ready d (drop 1 r) k1 sc" using rd e k1 less(3) by (simp add: ready_def bounded_def)
      moreover have "length (drop 1 r) < length r" using r by simp
      ultimately obtain b e2 p' r' k' where ih:
          "skip_line_start_loop (placed (drop 1 r) k1 sc) = Inr (b, placed r' k' (sc\<lparr>m_end_of_block := e2\<rparr>))"
          "k' \<le> k1" "ready d r' k' (sc\<lparr>m_end_of_block := e2, m_status := if b then BEGIN_OF_FIELD else PREFIX\<rparr>)" "\<not> b \<longrightarrow> k' = 0"
          "follows d (p + 1) (0, PREFIX, q) (drop 1 r) [] p' (0, if b then BEGIN_OF_FIELD else PREFIX, q) r'"
        using less(1) [of "drop 1 r" k1 "p + 1"] less(3,4) by blast
      have "follows d p (0, PREFIX, q) r [] (p + 1) (0, PREFIX, q) (drop 1 r)"
        using follows_step [of d "(0, PREFIX, q)" r 1 "(0, PREFIX, q)" p] Missed r less(4) by (simp add: ref_step_def)
      from follows_trans [OF this ih(5)]
      have "follows d p (0, PREFIX, q) r [] p' (0, if b then BEGIN_OF_FIELD else PREFIX, q) r'" by simp
      moreover have "skip_line_start_loop (placed r k sc) = Inr (b, placed r' k' (sc\<lparr>m_end_of_block := e2\<rparr>))" using u k1(1) ih(1) by simp
      ultimately show ?thesis using ih(2-4) k1(3) le_trans by blast
    next
      case Found
      then obtain k1 where k1: "skip_line_start_turn (placed r k sc) = Inr (True, placed (drop ?S r) k1 sc)" "?S \<le> length r" "k1 \<le> k"
          "k1 \<le> length r - ?S" "length r - ?S - k1 \<le> max (length r - k) ?S - ?S"
        using t False rd by (auto simp: stepped_def)
      have "length r - ?S - k1 \<le> reach d" using k1(5) j(1) by linarith
      moreover have "length r - ?S - k1 = 0" if "aligned d" using k1(5) j(2) [OF that] by linarith
      ultimately have "ready d (drop ?S r) k1 (sc\<lparr>m_end_of_block := False, m_status := if True then BEGIN_OF_FIELD else PREFIX\<rparr>)"
        using rd e k1 q by (simp add: ready_def ctl_of_def bounded_def)
      moreover have "follows d p (0, PREFIX, q) r [] (p + ?S) (0, if True then BEGIN_OF_FIELD else PREFIX, q) (drop ?S r)"
        using follows_step [of d "(0, PREFIX, q)" r ?S "(0, BEGIN_OF_FIELD, q)" p] Found r less(4) by (simp add: ref_step_def)
      moreover have "skip_line_start_loop (placed r k sc) = Inr (True, placed (drop ?S r) k1 (sc\<lparr>m_end_of_block := False\<rparr>))"
        using u k1(1) e by simp
      ultimately show ?thesis using k1(3) by blast
    qed
  qed
qed

lemma skip_line_start_sim:
  assumes "ready d r k sc" "ctl_of sc = (0, PREFIX, q)" "0 < k"
  shows "\<exists>b e p' r' k'. skip_line_start (placed r k sc) = Inr (b, placed r' k' (sc\<lparr>m_end_of_block := e\<rparr>)) \<and> k' \<le> k \<and>
    ready d r' k' (sc\<lparr>m_end_of_block := e, m_status := if b then BEGIN_OF_FIELD else PREFIX\<rparr>) \<and> (\<not> b \<longrightarrow> k' = 0) \<and>
    follows d p (0, PREFIX, q) r [] p' (0, if b then BEGIN_OF_FIELD else PREFIX, q) r'"
proof -
  have S: "m_lines_starting_by sc = lines_starting_by d" using assms(1) by (simp add: ready_def conf_def)
  show ?thesis
  proof (cases "lines_starting_by d = []")
    case True
    have r: "r \<noteq> []" and e: "\<not> m_end_of_block sc" using assms(1,3) by (auto simp: ready_def)
    have "skip_line_start (placed r k sc) = Inr (True, placed r k (sc\<lparr>m_end_of_block := False\<rparr>))"
      using S True e by (simp add: skip_line_start_def first_char_def used_def)
    moreover have "ready d r k (sc\<lparr>m_end_of_block := False, m_status := BEGIN_OF_FIELD\<rparr>)"
      using assms(1,2) True by (simp add: ready_def ctl_of_def bounded_def)
    moreover have "follows d p (0, PREFIX, q) r [] p (0, BEGIN_OF_FIELD, q) r"
      using follows_step [of d "(0, PREFIX, q)" r 0 "(0, BEGIN_OF_FIELD, q)" p] True r by (simp add: ref_step_def)
    ultimately show ?thesis by (intro exI [of _ True] exI [of _ False] exI [of _ p] exI [of _ r] exI [of _ k]) simp
  next
    case False
    then have "skip_line_start (placed r k sc) = skip_line_start_loop (placed r k sc)"
      using S by (simp add: skip_line_start_def first_char_def used_def)
    then show ?thesis using skip_line_start_loop_sim [OF assms(1,2) False, of p] by simp
  qed
qed

end
