(* ===== verification/Scanner_Blocks.thy ===== *)
theory Scanner_Blocks
  imports Scanner_Rows
begin

text \<open>
  The scanner over a sequence of blocks: it never writes beyond its stack and always returns, and in each block it finds the first row of the
  reference that starts there.
\<close>

lemma begin_of_field_sim:
  assumes "ready d r k sc" "ctl_of sc = (0, BEGIN_OF_FIELD, q)" "0 < k"
  shows "\<exists>p' r' k' q'. scan_turn len first_row (placed r k sc) =
      Inr (True, first_row, placed r' k' (sc\<lparr>m_found_enclosed_char := q', m_status := FIELD\<rparr>)) \<and> k' \<le> k \<and>
    ready d r' k' (sc\<lparr>m_found_enclosed_char := q', m_status := FIELD\<rparr>) \<and>
    follows d p (0, BEGIN_OF_FIELD, q) r [] p' (0, FIELD, q') r'"
proof -
  note rd = assms(1)[unfolded ready_def assms(2)] and cq = assms(2)[unfolded ctl_of_def prod.inject]
  let ?L = "length (lines_terminated_by d)"
  obtain c r1 where r: "r = c # r1" using assms(3) rd by (cases r) auto
  let ?k1 = "min k (length r1)"
  have e: "\<not> m_end_of_block sc" and enc: "m_enclosed_char sc = first_char (fields_enclosed_by d)" and L: "0 < ?L" "?L \<le> reach d"
    using assms(3) rd by (auto simp: conf_def reach_line)
  have j: "length r - k \<le> reach d" "aligned d \<Longrightarrow> length r - k \<le> ?L" using rd by (auto simp: bounded_def)
  have g: "get (placed r k sc) = (Chr c, placed r1 ?k1 sc)" using r rd get_placed by simp
  show ?thesis
  proof (cases "Chr c = first_char (fields_enclosed_by d)")
    case True
    let ?sc = "sc\<lparr>m_found_enclosed_char := Chr c, m_status := FIELD\<rparr>"
    have "scan_turn len first_row (placed r k sc) = Inr (True, first_row, placed r1 ?k1 ?sc)"
      using cq g True enc by (simp add: scan_turn_def)
    moreover have "length r1 - ?k1 \<le> reach d" "aligned d \<Longrightarrow> length r1 - ?k1 \<le> ?L + 1" using j r by auto
    then have "ready d r1 ?k1 ?sc" using rd cq e by (simp add: ready_def ctl_of_def bounded_def)
    moreover have "follows d p (0, BEGIN_OF_FIELD, q) r [] (p + 1) (0, FIELD, Chr c) r1"
      using follows_step [of d "(0, BEGIN_OF_FIELD, q)" r 1 "(0, FIELD, Chr c)" p] True r by (simp add: ref_step_def)
    ultimately show ?thesis by (intro exI [of _ "p + 1"] exI [of _ r1] exI [of _ ?k1] exI [of _ "Chr c"]) simp
  next
    case False
    let ?sc = "sc\<lparr>m_found_enclosed_char := Not_used, m_status := FIELD\<rparr>"
    have "length r1 - ?k1 < stack_size sc" using j(1) r conf_room [of d sc] rd by auto
    then have "unget c (placed r1 ?k1 (sc\<lparr>m_found_enclosed_char := Not_used\<rparr>)) = Inr (placed r ?k1 (sc\<lparr>m_found_enclosed_char := Not_used\<rparr>))"
      using r by (simp add: unget_placed)
    then have "scan_turn len first_row (placed r k sc) = Inr (True, first_row, placed r ?k1 ?sc)"
      using cq g False enc by (simp add: scan_turn_def)
    moreover have "length r - ?k1 \<le> max (length r - k) 1" using r rd by auto
    then have "length r - ?k1 \<le> reach d" "aligned d \<Longrightarrow> length r - ?k1 \<le> ?L" using j L by linarith+
    then have "ready d r ?k1 ?sc" using rd cq e r by (simp add: ready_def ctl_of_def bounded_def)
    moreover have "follows d p (0, BEGIN_OF_FIELD, q) r [] p (0, FIELD, Not_used) r"
      using follows_step [of d "(0, BEGIN_OF_FIELD, q)" r 0 "(0, FIELD, Not_used)" p] False r by (simp add: ref_step_def)
    ultimately show ?thesis by (intro exI [of _ p] exI [of _ r] exI [of _ ?k1] exI [of _ Not_used]) simp
  qed
qed

lemma scan_turn_sim:
  assumes "ready d r k sc" "ctl_of sc = (0, st, q)" "0 < k"
  obtains again first' sc' p' r' k' where
    "scan_turn len first_row (placed r k sc) = Inr (again, first', placed r' k' sc')"
    "ready d r' k' sc'" "m_skip_rows sc' = 0" "k' \<le> k" "\<not> again \<longrightarrow> k' = 0"
    "follows d p (0, st, q) r (if st = BEGIN then [p] else []) p' (ctl_of sc') r'"
    "first' = (if st = BEGIN \<and> first_row = -1 then int len - int k else first_row)"
proof (cases st)
  case BEGIN
  have r: "r \<noteq> []" using assms(1,3) by (auto simp: ready_def)
  let ?sc = "sc\<lparr>m_status := PREFIX\<rparr>"
  have "length r - k \<le> room d (0, PREFIX, q)" "aligned d \<Longrightarrow> length r - k = 0"
    using assms(1,2) BEGIN by (auto simp: ready_def bounded_def)
  then have "ready d r k ?sc" using assms(1,2) by (auto simp: ready_def ctl_of_def bounded_def)
  moreover have "follows d p (0, BEGIN, q) r [p] p (0, PREFIX, q) r"
    using follows_step [of d "(0, BEGIN, q)" r 0 "(0, PREFIX, q)" p] r by (simp add: ref_step_def)
  moreover have "scan_turn len first_row (placed r k sc) =
      Inr (True, if first_row = -1 then int len - int k else first_row, placed r k ?sc)"
    using assms(1,2) BEGIN by (simp add: scan_turn_def ctl_of_def ready_def)
  ultimately show thesis using that [of True _ r k ?sc p] assms(2) BEGIN by (simp add: ctl_of_def)
next
  case PREFIX
  obtain b e p' r' k' where s: "skip_line_start (placed r k sc) = Inr (b, placed r' k' (sc\<lparr>m_end_of_block := e\<rparr>))" "k' \<le> k"
      "ready d r' k' (sc\<lparr>m_end_of_block := e, m_status := if b then BEGIN_OF_FIELD else PREFIX\<rparr>)" "\<not> b \<longrightarrow> k' = 0"
      "follows d p (0, PREFIX, q) r [] p' (0, if b then BEGIN_OF_FIELD else PREFIX, q) r'"
    using skip_line_start_sim [of d r k sc q p] assms PREFIX by blast
  have "sc\<lparr>m_end_of_block := e\<rparr> = sc\<lparr>m_end_of_block := e, m_status := PREFIX\<rparr>"
    using assms(2) PREFIX by (simp add: ctl_of_def)
  then have "scan_turn len first_row (placed r k sc) =
      Inr (b, first_row, placed r' k' (sc\<lparr>m_end_of_block := e, m_status := if b then BEGIN_OF_FIELD else PREFIX\<rparr>))"
    using s(1) assms(2) PREFIX by (simp add: scan_turn_def ctl_of_def)
  then show thesis using that s assms(2) PREFIX by (simp add: ctl_of_def)
next
  case BEGIN_OF_FIELD
  obtain p' r' k' q' where s: "scan_turn len first_row (placed r k sc) =
      Inr (True, first_row, placed r' k' (sc\<lparr>m_found_enclosed_char := q', m_status := FIELD\<rparr>))" "k' \<le> k"
      "ready d r' k' (sc\<lparr>m_found_enclosed_char := q', m_status := FIELD\<rparr>)"
      "follows d p (0, BEGIN_OF_FIELD, q) r [] p' (0, FIELD, q') r'"
    using begin_of_field_sim [of d r k sc q len first_row p] assms BEGIN_OF_FIELD by blast
  show thesis using that [OF s(1,3)] s(2,4) assms(2) BEGIN_OF_FIELD by (simp add: ctl_of_def)
next
  case FIELD
  obtain st' e p' r' k' where s: "scan_field (placed r k sc) = Inr (st', placed r' k' (sc\<lparr>m_end_of_block := e\<rparr>))" "k' \<le> k"
      "ready d r' k' (sc\<lparr>m_end_of_block := e, m_status := status_of st'\<rparr>)"
      "follows d p (0, FIELD, q) r [] p' (0, status_of st', q) r'"
    using scan_field_sim [of d r k sc q p] assms FIELD by blast
  have "sc\<lparr>m_end_of_block := e\<rparr> = sc\<lparr>m_end_of_block := e, m_status := FIELD\<rparr>"
    using assms(2) FIELD by (simp add: ctl_of_def)
  then have "scan_turn len first_row (placed r k sc) =
      Inr (True, first_row, placed r' k' (sc\<lparr>m_end_of_block := e, m_status := status_of st'\<rparr>))"
    using s(1) assms(2) FIELD by (cases st') (simp_all add: scan_turn_def ctl_of_def)
  then show thesis using that [of True first_row r' k' _ p'] s assms(2) FIELD by (simp add: ctl_of_def)
qed

text \<open>What one call reports for the rows it passes: the place of the first one in the block of length \<open>len\<close> that ends at
  the position \<open>stop\<close>. That the place is right, and that the rows are in the block, holds for aligned dialects.\<close>

definition reported :: "dialect \<Rightarrow> nat \<Rightarrow> nat \<Rightarrow> nat list \<Rightarrow> int \<Rightarrow> bool" where
  "reported d stop len rows res \<longleftrightarrow>
     (if rows = [] then res = -1 else 0 \<le> res \<and> res < int len) \<and>
     (aligned d \<longrightarrow> (rows \<noteq> [] \<longrightarrow> int stop + res = int (hd rows) + int len) \<and> (\<forall>x \<in> set rows. stop - len \<le> x \<and> x < stop))"

lemma scan_loop_sim:
  assumes "ready d r k sc" "m_skip_rows sc = 0" "k \<le> len"
  shows "\<exists>res sc' p' r' rows. scan_loop len first_row (placed r k sc) = Inr (res, placed r' 0 sc') \<and>
    ready d r' 0 sc' \<and> m_skip_rows sc' = 0 \<and> follows d p (ctl_of sc) r rows p' (ctl_of sc') r' \<and>
    (if first_row = -1 then reported d (p + length r) len rows res
     else res = first_row \<and> (aligned d \<longrightarrow> (\<forall>x \<in> set rows. p + length r - len \<le> x \<and> x < p + length r)))"
  using assms
proof (induction "scan_measure (placed r k sc)" arbitrary: first_row p r k sc rule: less_induct)
  case less
  show ?case
  proof (cases "k = 0")
    case True
    then have "scan_loop len first_row (placed r k sc) = Inr (first_row, placed r 0 sc)" by (simp add: scan_loop.simps)
    moreover have "reported d (p + length r) len [] (-1)" by (simp add: reported_def)
    ultimately show ?thesis using follows_refl [of d p "ctl_of sc" r] less(2,3) True
      by (intro exI [of _ first_row] exI [of _ sc] exI [of _ p] exI [of _ r] exI [of _ "[]"]) auto
  next
    case False
    obtain st q where c: "ctl_of sc = (0, st, q)" using less(3) by (simp add: ctl_of_def)
    have k: "0 < k" "k \<le> length r" using False less(2) by (auto simp: ready_def)
    obtain again first' sc1 p1 r1 k1 where t:
        "scan_turn len first_row (placed r k sc) = Inr (again, first', placed r1 k1 sc1)"
        "ready d r1 k1 sc1" "m_skip_rows sc1 = 0" "k1 \<le> k" "\<not> again \<longrightarrow> k1 = 0"
        "follows d p (0, st, q) r (if st = BEGIN then [p] else []) p1 (ctl_of sc1) r1"
        "first' = (if st = BEGIN \<and> first_row = -1 then int len - int k else first_row)"
      by (rule scan_turn_sim [OF less(2) c k(1), where len = len and first_row = first_row and p = p])
    have ne: "m_data (placed r k sc) \<noteq> []" using loop_head [OF k] by simp
    have stop: "p1 + length r1 = p + length r" using t(6) by (simp add: follows_def)
    have start: "length r - k = 0" if "st = BEGIN" "aligned d"
      using less(2) c that by (simp add: ready_def bounded_def)
    have here: "\<forall>x \<in> set (if st = BEGIN then [p] else []). p + length r - len \<le> x \<and> x < p + length r" if "aligned d"
      using start [OF _ that] k less(4) by auto
    have u: "scan_loop len first_row (placed r k sc) =
        (if again then scan_loop len first' (placed r1 k1 sc1) else Inr (first', placed r1 0 sc1))"
      using t(1,5) ne by (subst scan_loop.simps) simp
    have "\<exists>res sc' p' r' rows. scan_loop len first_row (placed r k sc) = Inr (res, placed r' 0 sc') \<and>
        ready d r' 0 sc' \<and> m_skip_rows sc' = 0 \<and> follows d p1 (ctl_of sc1) r1 rows p' (ctl_of sc') r' \<and>
        (if first' = -1 then reported d (p + length r) len rows res
         else res = first' \<and> (aligned d \<longrightarrow> (\<forall>x \<in> set rows. p + length r - len \<le> x \<and> x < p + length r)))"
    proof (cases again)
      case True
      have "scan_measure (placed r1 k1 sc1) < scan_measure (placed r k sc)"
        using scan_turn_progress [OF t(1)[unfolded eqTrueI [OF True]] ne] .
      from less(1) [OF this t(2,3) le_trans [OF t(4) less(4)], of first' p1] show ?thesis
        unfolding stop u by (simp only: True if_True)
    next
      case False
      have "reported d (p + length r) len [] (-1)" by (simp add: reported_def)
      then show ?thesis using u False t(2,3,5) follows_refl [of d p1 "ctl_of sc1" r1]
        by (intro exI [of _ first'] exI [of _ sc1] exI [of _ p1] exI [of _ r1] exI [of _ "[]"]) auto
    qed
    then obtain res sc' p' r' rows where ih: "scan_loop len first_row (placed r k sc) = Inr (res, placed r' 0 sc')"
        "ready d r' 0 sc'" "m_skip_rows sc' = 0" "follows d p1 (ctl_of sc1) r1 rows p' (ctl_of sc') r'"
        "if first' = -1 then reported d (p + length r) len rows res
         else res = first' \<and> (aligned d \<longrightarrow> (\<forall>x \<in> set rows. p + length r - len \<le> x \<and> x < p + length r))"
      by blast
    let ?rows = "(if st = BEGIN then [p] else []) @ rows"
    have f: "follows d p (ctl_of sc) r ?rows p' (ctl_of sc') r'" using follows_trans [OF t(6) ih(4)] c by simp
    have "if first_row = -1 then reported d (p + length r) len ?rows res
        else res = first_row \<and> (aligned d \<longrightarrow> (\<forall>x \<in> set ?rows. p + length r - len \<le> x \<and> x < p + length r))"
    proof (cases "st = BEGIN \<and> first_row = -1")
      case True
      then have f': "first' = int len - int k" "first' \<noteq> -1" using t(7) less(4) by auto
      then have "res = int len - int k" "0 \<le> res" "res < int len" using ih(5) k less(4) by auto
      moreover have "int (p + length r) + res = int p + int len" if "aligned d"
        using start [OF _ that] True k calculation(1) by auto
      ultimately show ?thesis using True ih(5) f'(2) here by (auto simp: reported_def)
    next
      case False
      then have "first' = first_row" using t(7) by presburger
      then show ?thesis using ih(5) here False by (auto simp: reported_def)
    qed
    then show ?thesis using ih(1-3) f by blast
  qed
qed

lemma skip_rows_sim:
  assumes "ready d r k sc"
  shows "\<exists>b sc' p' r' k'. skip_rows (placed r k sc) = Inr (b, placed r' k' sc') \<and> ready d r' k' sc' \<and> k' \<le> k \<and>
    (if b then m_skip_rows sc' = 0 else k' = 0) \<and> follows d p (ctl_of sc) r [] p' (ctl_of sc') r'"
  using assms
proof (induction "m_skip_rows sc" arbitrary: p r k sc)
  case 0
  then have "skip_rows (placed r k sc) = Inr (True, placed r k sc)" by (simp add: skip_rows.simps)
  then show ?case using 0 follows_refl by (intro exI [of _ True] exI [of _ sc] exI [of _ p] exI [of _ r] exI [of _ k]) auto
next
  case (Suc m)
  have c: "ctl_of sc = (Suc m, m_status sc, m_found_enclosed_char sc)" using Suc(2) by (simp add: ctl_of_def)
  obtain b e p1 r1 k1 where s: "skip_row (placed r k sc) = Inr (b, placed r1 k1 (sc\<lparr>m_end_of_block := e\<rparr>))" "k1 \<le> k"
      "ready d r1 k1 (sc\<lparr>m_end_of_block := e, m_skip_rows := if b then m else Suc m\<rparr>)" "\<not> b \<longrightarrow> k1 = 0"
      "follows d p (ctl_of sc) r [] p1 (if b then m else Suc m, m_status sc, m_found_enclosed_char sc) r1"
    using skip_row_sim [OF Suc(3) c, of p] c by metis
  let ?sc = "sc\<lparr>m_end_of_block := e, m_skip_rows := if b then m else Suc m\<rparr>"
  have u: "skip_rows (placed r k sc) = (if b then skip_rows (placed r1 k1 ?sc) else Inr (False, placed r1 k1 (sc\<lparr>m_end_of_block := e\<rparr>)))"
    using s(1) Suc(2) by (subst skip_rows.simps) (auto simp flip: Suc(2))
  have c1: "ctl_of ?sc = (if b then m else Suc m, m_status sc, m_found_enclosed_char sc)" by (simp add: ctl_of_def)
  show ?case
  proof (cases b)
    case True
    then have "m = m_skip_rows ?sc" by simp
    from Suc(1) [OF this s(3), of p1] obtain b' sc' p' r' k' where i: "skip_rows (placed r1 k1 ?sc) = Inr (b', placed r' k' sc')"
        "ready d r' k' sc'" "k' \<le> k1" "if b' then m_skip_rows sc' = 0 else k' = 0"
        "follows d p1 (ctl_of ?sc) r1 [] p' (ctl_of sc') r'" by blast
    have "follows d p (ctl_of sc) r [] p' (ctl_of sc') r'"
      using follows_trans [OF s(5) i(5)[unfolded c1]] by simp
    then show ?thesis using u True i s(2) le_trans by (metis (no_types, lifting))
  next
    case False
    moreover have "?sc = sc\<lparr>m_end_of_block := e\<rparr>" using Suc(2) False by simp
    ultimately show ?thesis using u s(2-5) c1
      by (intro exI [of _ False] exI [of _ ?sc] exI [of _ p1] exI [of _ r1] exI [of _ 0]) simp
  qed
qed

text \<open>Between two calls the block is empty.\<close>

definition idle :: "dialect \<Rightarrow> scanner \<Rightarrow> bool" where
  "idle d sc \<longleftrightarrow> m_data sc = [] \<and> ready d (m_stack sc) 0 sc"

lemma new_scanner_idle:
  assumes "new_scanner d n = Inr sc"
  shows "idle d sc" "ctl_of sc = (n, BEGIN, Not_used)" "m_stack sc = []"
proof -
  have ne: "lines_terminated_by d \<noteq> []" using assms by (auto simp: new_scanner_def split: if_splits)
  show "idle d sc" "ctl_of sc = (n, BEGIN, Not_used)" "m_stack sc = []"
    using assms ne by (auto simp: new_scanner_def idle_def ready_def conf_def ctl_of_def bounded_def split: if_splits)
qed

lemma placed_idle: "ready d r 0 sc \<Longrightarrow> idle d (placed r 0 sc) \<and> m_stack (placed r 0 sc) = r \<and> ctl_of (placed r 0 sc) = ctl_of sc"
  by (simp add: idle_def ready_def ctl_of_def)

lemma scan_sim:
  assumes "idle d sc" "data \<noteq> []"
  obtains res sc' p' rows where "scan data sc = Inr (res, sc')" "idle d sc'"
    "follows d p (ctl_of sc) (m_stack sc @ data) rows p' (ctl_of sc') (m_stack sc')"
    "reported d (p + length (m_stack sc) + length data) (length data) rows res"
proof -
  let ?r = "m_stack sc @ data" and ?sc = "sc\<lparr>m_end_of_block := False\<rparr>"
  have c: "ctl_of ?sc = ctl_of sc" by (simp add: ctl_of_def)
  have rd: "ready d ?r (length data) ?sc" using assms(1) c by (simp add: idle_def ready_def)
  have pl: "sc\<lparr>m_data := data, m_end_of_block := False\<rparr> = placed ?r (length data) ?sc" by (simp add: placed_def)
  have s: "scan data sc = rbind (skip_rows (placed ?r (length data) ?sc)) (\<lambda>(found, sc1).
      if found then scan_loop (length data) (-1) sc1 else Inr (-1, sc1))"
    using assms(2) unfolding scan_def pl by (simp only: if_False)
  obtain b sc1 p1 r1 k1 where k: "skip_rows (placed ?r (length data) ?sc) = Inr (b, placed r1 k1 sc1)" "ready d r1 k1 sc1"
      "k1 \<le> length data" "if b then m_skip_rows sc1 = 0 else k1 = 0" "follows d p (ctl_of sc) ?r [] p1 (ctl_of sc1) r1"
    using skip_rows_sim [OF rd, of p] c by auto
  have stop: "p1 + length r1 = p + length (m_stack sc) + length data" using k(5) by (simp add: follows_def)
  show thesis
  proof (cases b)
    case True
    then obtain res sc2 p2 r2 rows where l: "scan_loop (length data) (-1) (placed r1 k1 sc1) = Inr (res, placed r2 0 sc2)"
        "ready d r2 0 sc2" "follows d p1 (ctl_of sc1) r1 rows p2 (ctl_of sc2) r2" "reported d (p1 + length r1) (length data) rows res"
      using scan_loop_sim [OF k(2) _ k(3), of "-1" p1] k(4) by auto
    have "scan data sc = Inr (res, placed r2 0 sc2)" using s k(1) l(1) True by simp
    moreover have "follows d p (ctl_of sc) ?r rows p2 (ctl_of sc2) r2" using follows_trans [OF k(5) l(3)] by simp
    ultimately show ?thesis using that placed_idle [OF l(2)] l(4) stop by simp
  next
    case False
    then have "scan data sc = Inr (-1, placed r1 0 sc1)" using s k(1,4) by simp
    moreover have "reported d (p + length (m_stack sc) + length data) (length data) [] (-1)" by (simp add: reported_def)
    ultimately show ?thesis using that placed_idle [of d r1 sc1] k(2,4,5) False by simp
  qed
qed

section \<open>A sequence of blocks\<close>

fun scan_blocks :: "string list \<Rightarrow> scanner \<Rightarrow> (int list \<times> scanner) result" where
  "scan_blocks [] sc = Inr ([], sc)"
| "scan_blocks (b # bs) sc =
     rbind (scan b sc) (\<lambda>(r, sc1). rbind (scan_blocks bs sc1) (\<lambda>(rs, sc2). Inr (r # rs, sc2)))"

lemma scan_blocks_returns:
  assumes "idle d sc" "[] \<notin> set bs"
  shows "\<exists>rs sc'. scan_blocks bs sc = Inr (rs, sc') \<and> list_all2 (\<lambda>r b. r = -1 \<or> 0 \<le> r \<and> r < int (length b)) rs bs \<and> idle d sc'"
  using assms
proof (induction bs arbitrary: sc)
  case (Cons b bs)
  obtain res sc1 p' rows where s: "scan b sc = Inr (res, sc1)" "idle d sc1"
      "reported d (0 + length (m_stack sc) + length b) (length b) rows res"
    by (rule scan_sim [OF Cons(2), where data = b and p = 0]) (use Cons(3) in auto)
  moreover have "res = -1 \<or> 0 \<le> res \<and> res < int (length b)" using s(3) by (auto simp: reported_def split: if_splits)
  moreover obtain rs sc' where "scan_blocks bs sc1 = Inr (rs, sc')"
      "list_all2 (\<lambda>r b. r = -1 \<or> 0 \<le> r \<and> r < int (length b)) rs bs" "idle d sc'"
    using Cons(1) [OF s(2)] Cons(3) by auto
  ultimately show ?case by simp
qed simp

text \<open>C32: for every dialect the scanner accepts, scanning any sequence of blocks never writes beyond the stack and always returns; the result for a block
  is -1 or an index into the block.\<close>

theorem scan_blocks_safe:
  assumes "new_scanner d skip = Inr sc" "[] \<notin> set bs"
  shows "\<exists>rs sc'. scan_blocks bs sc = Inr (rs, sc') \<and> list_all2 (\<lambda>r b. r = -1 \<or> 0 \<le> r \<and> r < int (length b)) rs bs"
  using scan_blocks_returns [OF new_scanner_idle(1) [OF assms(1)] assms(2)] by blast

text \<open>No row of the reference starts in what is on the stack.\<close>

lemma bounded_ref_step:
  assumes "ref_step d c r = Some (n, c')" "bounded d c j" "lines_terminated_by d \<noteq> []"
  shows "bounded d c' (j - n)"
proof -
  obtain skip st q where c: "c = (skip, st, q)" by (cases c)
  have ne: "r \<noteq> []" using assms(1) c by (auto simp: ref_step_def)
  consider (skip) "0 < skip" | (field) "skip = 0" "st = FIELD" | (other) "skip = 0" "st \<noteq> FIELD" by blast
  then show ?thesis
  proof cases
    case skip
    have j: "j \<le> reach d" "aligned d \<Longrightarrow> j \<le> length (lines_terminated_by d)" using assms(2) c skip by (auto simp: bounded_def)
    show ?thesis
    proof (cases "skip_item d r")
      case (Plain m)
      then show ?thesis using assms(1) c ne skip j by (auto simp: ref_step_def bounded_def)
    next
      case (End_line m)
      then have "m = length (lines_terminated_by d)" by (auto simp: skip_item_def split: if_splits hit.splits)
      then show ?thesis using assms(1) c ne skip j End_line reach_room [of d c'] by (auto simp: ref_step_def bounded_def)
    qed (use assms(1) c ne skip in \<open>auto simp: ref_step_def\<close>)
  next
    case field
    note b = assms(2)[unfolded c field]
    show ?thesis
    proof (cases "field_item d q r")
      case (Plain m)
      then show ?thesis using assms(1,3) c ne field bounded_field [OF _ b, of r m "j - m"] by (auto simp: ref_step_def)
    next
      case (End_field m)
      then show ?thesis using assms(1,3) c ne field bounded_field [OF _ b, of r m "j - m"] by (auto simp: ref_step_def)
    next
      case (End_line m)
      then show ?thesis using assms(1,3) c ne field bounded_End_line [OF _ b, of r m "j - m"] by (auto simp: ref_step_def)
    qed (use assms(1) c ne field in \<open>auto simp: ref_step_def\<close>)
  next
    case other
    then show ?thesis using assms c ne
      by (cases st) (auto simp: ref_step_def bounded_def split: if_splits hit.splits)
  qed
qed

lemma rows_beyond:
  assumes "aligned d" "bounded d c j" "j \<le> length r" "lines_terminated_by d \<noteq> []" "x \<in> set (row_starts d c p r)"
  shows "p + j \<le> x \<and> x < p + length r"
  using assms
proof (induction d c p r arbitrary: j rule: row_starts.induct)
  case (1 d c p r)
  show ?case
  proof (cases "ref_step d c r")
    case None
    then show ?thesis using 1(6) by (simp add: row_starts.simps)
  next
    case (Some a)
    then obtain n c' where s: "ref_step d c r = Some (n, c')" by (cases a) auto
    have n: "r \<noteq> []" "n \<le> length r" using ref_step_progress [OF s] by auto
    have "x = p \<and> fst c = 0 \<and> fst (snd c) = BEGIN \<or> x \<in> set (row_starts d c' (p + n) (drop n r))"
      using 1(6) s by (auto simp: row_starts.simps [of d c] split: if_splits)
    then show ?thesis
    proof
      assume a: "x = p \<and> fst c = 0 \<and> fst (snd c) = BEGIN"
      then have "j = 0" using 1(2,3) by (cases c) (auto simp: bounded_def)
      then show ?thesis using a n by simp
    next
      assume "x \<in> set (row_starts d c' (p + n) (drop n r))"
      then have "p + n + (j - n) \<le> x \<and> x < p + n + length (drop n r)"
        using 1(1) [OF s refl 1(2) bounded_ref_step [OF s 1(3,5)]] 1(4,5) by simp
      then show ?thesis using n by auto
    qed
  qed
qed

text \<open>The first of the rows that starts in the block of length \<open>len\<close> at the position \<open>off\<close>, as an index into the block.\<close>

definition first_row_in :: "nat list \<Rightarrow> nat \<Rightarrow> nat \<Rightarrow> int" where
  "first_row_in rows off len = (case filter (\<lambda>x. off \<le> x \<and> x < off + len) rows of [] \<Rightarrow> -1 | x # _ \<Rightarrow> int x - int off)"

fun first_rows :: "nat list \<Rightarrow> nat \<Rightarrow> string list \<Rightarrow> int list" where
  "first_rows rows off [] = []"
| "first_rows rows off (b # bs) = first_row_in rows off (length b) # first_rows rows (off + length b) bs"

lemma first_rows_append:
  "\<forall>x \<in> set rows. x < off \<Longrightarrow> first_rows (rows @ rows') off bs = first_rows rows' off bs"
proof (induction bs arbitrary: off)
  case (Cons b bs)
  have "filter (\<lambda>x. off \<le> x \<and> x < off + length b) rows = []" using Cons(2) by (auto simp: filter_empty_conv)
  moreover have "\<forall>x \<in> set rows. x < off + length b" using Cons(2) by auto
  ultimately show ?case using Cons(1) by (simp add: first_row_in_def)
qed simp

lemma scan_blocks_rows:
  assumes "idle d sc" "[] \<notin> set bs" "aligned d" "off = p + length (m_stack sc)"
  shows "\<exists>sc'. scan_blocks bs sc = Inr (first_rows (row_starts d (ctl_of sc) p (m_stack sc @ concat bs)) off bs, sc')"
  using assms
proof (induction bs arbitrary: sc p off)
  case (Cons b bs)
  obtain res sc1 p1 rows where s: "scan b sc = Inr (res, sc1)" "idle d sc1"
      "follows d p (ctl_of sc) (m_stack sc @ b) rows p1 (ctl_of sc1) (m_stack sc1)"
      "reported d (p + length (m_stack sc) + length b) (length b) rows res"
    by (rule scan_sim [OF Cons(2), where data = b and p = p]) (use Cons(3) in auto)
  let ?rest = "row_starts d (ctl_of sc1) p1 (m_stack sc1 @ concat bs)"
  have ne: "lines_terminated_by d \<noteq> []" using s(2) by (simp add: idle_def ready_def conf_def)
  have stop: "off + length b = p1 + length (m_stack sc1)" using s(3) Cons(5) by (simp add: follows_def)
  have all: "row_starts d (ctl_of sc) p (m_stack sc @ concat (b # bs)) = rows @ ?rest"
    using s(3) by (simp add: follows_def)
  have rest: "off + length b \<le> x" if "x \<in> set ?rest" for x
    using rows_beyond [OF Cons(4) _ _ ne that, of "length (m_stack sc1)"] s(2) stop by (simp add: idle_def ready_def)
  have rows: "\<forall>x \<in> set rows. off \<le> x \<and> x < off + length b" using s(4) Cons(4,5) by (auto simp: reported_def)
  then have "filter (\<lambda>x. off \<le> x \<and> x < off + length b) (rows @ ?rest) = rows"
    using rest by (fastforce simp: filter_id_conv filter_empty_conv)
  then have "first_row_in (rows @ ?rest) off (length b) = res"
    using s(4) Cons(4,5) by (cases rows) (auto simp: first_row_in_def reported_def)
  moreover have "first_rows (rows @ ?rest) (off + length b) bs = first_rows ?rest (off + length b) bs"
    using rows by (intro first_rows_append) auto
  moreover obtain sc' where "scan_blocks bs sc1 = Inr (first_rows ?rest (off + length b) bs, sc')"
    using Cons(1) [OF s(2) _ Cons(4) stop] Cons(3) by auto
  ultimately show ?case using s(1) all by simp
qed simp

text \<open>C8: scanning a file in blocks finds, in every block, the first row of the whole file that starts in this block, wherever the file is
  cut: the results are those of a scan of the file as a whole. This holds for aligned dialects, whose field terminator is at most one character longer than
  the line terminator and whose line terminator does not start with the escape character, and not for all others (\<open>scan_misplaced_row\<close>).\<close>

theorem scan_blocks_finds_rows:
  assumes "new_scanner d skip = Inr sc" "[] \<notin> set bs" "aligned d"
  shows "\<exists>sc'. scan_blocks bs sc = Inr (first_rows (row_starts d (skip, BEGIN, Not_used) 0 (concat bs)) 0 bs, sc')"
  using scan_blocks_rows [OF new_scanner_idle(1) [OF assms(1)] assms(2,3), of 0 0] new_scanner_idle(2,3) [OF assms(1)] by simp

section \<open>Dialects\<close>

text \<open>Valid dialects are aligned unless the field terminator is long; the named dialects are.\<close>

lemma dialect_ok_aligned:
  assumes "dialect_ok d" "lines_terminated_by d \<noteq> []" "length (fields_terminated_by d) \<le> length (lines_terminated_by d) + 1"
  shows "aligned d"
  using assms by (auto simp: dialect_ok_def aligned_def first_char_def)

lemma named_dialects_aligned: "d \<in> {default_dialect, csv, tsv, csv_unix, csv_rfc_unix} \<Longrightarrow> aligned d"
  by (auto simp: aligned_def first_char_def dialect_defs)

theorem scan_blocks_safe_witness:
  "\<exists>sc rs sc'. new_scanner csv 0 = Inr sc \<and> scan_blocks [''a'' @ [CHR 0x0D], [CHR 0x0A] @ ''b''] sc = Inr (rs, sc') \<and> length rs = 2"
proof -
  obtain sc where sc: "new_scanner csv 0 = Inr sc" by (simp add: new_scanner_def csv_def)
  then show ?thesis using scan_blocks_safe [OF sc, of "[''a'' @ [CHR 0x0D], [CHR 0x0A] @ ''b'']"]
    by (auto dest: list_all2_lengthD)
qed

lemma csv_rows: "row_starts csv (0, BEGIN, Not_used) 0 (''a'' @ [CHR 0x0D, CHR 0x0A] @ ''b'') = [0, 3]"
  by (simp add: row_starts.simps ref_step_def field_item_def char_item_def look_for_def first_char_def csv_def strict_prefix_def)

theorem scan_blocks_finds_rows_witness:
  "\<exists>sc sc'. new_scanner csv 0 = Inr sc \<and> scan_blocks [''a'' @ [CHR 0x0D], [CHR 0x0A] @ ''b''] sc = Inr ([0, 1], sc')"
proof -
  obtain sc where sc: "new_scanner csv 0 = Inr sc" by (simp add: new_scanner_def csv_def)
  have "aligned csv" by (rule named_dialects_aligned) simp
  then show ?thesis
    using scan_blocks_finds_rows [OF sc, of "[''a'' @ [CHR 0x0D], [CHR 0x0A] @ ''b'']"] csv_rows sc
    by (simp add: first_row_in_def)
qed

text \<open>With a field terminator that is longer, the place of a row can be wrong: the characters that were taken from the block to compare with the field
  terminator are not given back when the row starts. The row starts at 2 in the
  second block, the scanner reports 3.\<close>

definition long_separator :: dialect where
  "long_separator = default_dialect\<lparr>fields_terminated_by := [CHR '','', CHR 0x0A, CHR '','']\<rparr>"

lemma long_separator_valid: "validate long_separator = Inr ()"
  by (simp add: validate_def dialect_defs long_separator_def BUFFER_SIZE_def k_escaped_chars_def)

lemma long_separator_rows:
  "first_rows (row_starts long_separator (0, BEGIN, Not_used) 0 (''x,'' @ [CHR 0x0A] @ ''bcd'')) 0 [''x'', '','' @ [CHR 0x0A] @ ''bcd''] = [0, 2]"
  by (simp add: row_starts.simps ref_step_def field_item_def char_item_def look_for_def first_char_def dialect_defs long_separator_def
      strict_prefix_def first_row_in_def)

lemma scan_misplaced_row:
  "rbind (rbind (new_scanner long_separator 0) (scan_blocks [''x'', '','' @ [CHR 0x0A] @ ''bcd''])) (\<lambda>(rs, _). Inr rs) = Inr [0, 3]"
  by (simp add: new_scanner_def scan_def skip_rows.simps scan_loop.simps scan_turn_def skip_line_start_def scan_field.simps scan_field_turn_def
      scan_char_def at_terminator_def contains_def contains_loop.simps get_def unget_def unget_loop.simps unget_all_def
      first_char_def used_def dialect_defs long_separator_def)

end
