(* ===== verification/Import_Chunks.thy ===== *)
theory Import_Chunks
  imports Threaded_Theorems Scanner_Blocks
begin

text \<open>
  Model of \<^verbatim>\<open>Import_table::scan_file\<close> of \<^verbatim>\<open>modules/util/import_table/import_table.cc\<close> and of the part of
  \<^verbatim>\<open>load_data.cc\<close> that sends a chunk to the server. The main thread extracts the blocks of a threaded file, finds in each block the first row
  that starts there and collects the blocks in chunks, files in memory that begin with a row; a chunk that is big enough is put on the queue of the loading
  threads. A block in which one chunk ends and the next one starts is needed twice: the smaller part of it is copied to a new
  block.

  The step relation \<open>import_step\<close> has one step for each part of a turn between two points at which the main thread waits: for the block
  it extracts, and for a loading thread to be free. The ghost component of the threaded file, the blocks its caller holds,
  is kept equal to the blocks of the chunks (\<open>own_blocks\<close>), so that other users of the allocator leave them alone.
\<close>

section \<open>State\<close>

record import_info =
  ii_file :: alloc_file
  ii_range_read :: bool
  ii_range :: "nat \<times> nat"
  ii_context :: string
  ii_is_guard :: bool

text \<open>Where the main thread is: before the next block is extracted, in \<^verbatim>\<open>schedule_chunk\<close> with the block and the offset of the next chunk,
  in \<^verbatim>\<open>schedule_chunk\<close> at the end of the file, or out of the loop.\<close>

datatype import_phase =
    Scanning
  | Pausing data_block nat
  | Pausing_last
  | Complete
  | Interrupted
  | Failed cpp_error

record import_config =
  ic_name :: string
  ic_block_size :: nat
  ic_bytes_per_chunk :: nat
  ic_threads :: nat

text \<open>The chunks that were pushed to the queue, in order; for a chunk that has been loaded, the bytes that were sent to the server.\<close>

record import_state =
  im_phase :: import_phase
  im_scanner :: scanner
  im_chunk :: "alloc_file option"
  im_first :: nat
  im_extracted :: nat
  im_total :: nat
  im_queue :: "(import_info \<times> string option) list"

definition import_block_size :: "nat \<Rightarrow> nat \<Rightarrow> nat \<Rightarrow> nat" where
  "import_block_size file_size threads bytes_per_chunk =
     (let k_one_mb = 1024 * 1024
      in if file_size \<ge> k_one_mb * threads \<and> bytes_per_chunk \<ge> k_one_mb then k_one_mb else 8192)"

text \<open>The allocator and the file that is read; what \<^verbatim>\<open>make_file\<close> gives for the two objects of a compressed file are parameters.\<close>

definition import_source :: "heap \<Rightarrow> (nat \<Rightarrow> char) \<Rightarrow> string \<Rightarrow> nat \<Rightarrow> nat \<Rightarrow> nat \<Rightarrow> bool \<Rightarrow> (nat \<times> bool) result \<Rightarrow> (nat \<times> bool) result \<Rightarrow>
    (threaded_file option \<times> threaded_file) result" where
  "import_source heap m name file_size threads bytes_per_chunk compression raw made =
     (let block_size = import_block_size file_size threads bytes_per_chunk
      in rbind (new_allocator heap (threads * block_size) block_size) (\<lambda>a.
           make_threaded_file compression
             \<lparr>cfg_path = name, cfg_threads = threads, cfg_max_memory = bytes_per_chunk, cfg_allocator = Some \<lparr>mem = m, pool = a\<rparr>\<rparr>
             raw made))"

definition new_import :: "scanner \<Rightarrow> import_state" where
  "new_import sc = \<lparr>im_phase = Scanning, im_scanner = sc, im_chunk = None, im_first = 0, im_extracted = 0, im_total = 0,
     im_queue = []\<rparr>"

section \<open>Chunks\<close>

definition make_chunk :: "import_config \<Rightarrow> store \<Rightarrow> alloc_file" where
  "make_chunk cfg st = retain_data (new_file (ic_name cfg) st False)"

text \<open>The part of \<^verbatim>\<open>schedule_chunk\<close> after the wait; the chunk is moved to the queue.\<close>

definition chunks_in_flight :: "import_state \<Rightarrow> nat" where
  "chunks_in_flight im = length (filter (\<lambda>(c, sent). sent = None) (im_queue im))"

definition schedule_chunk :: "import_config \<Rightarrow> alloc_file \<Rightarrow> import_state \<Rightarrow> import_state" where
  "schedule_chunk cfg chunk im =
     (let file_offset = ic_block_size cfg * (im_extracted im - 1);
          info = \<lparr>ii_file = chunk, ii_range_read = True, ii_range = (im_first im, f_size chunk),
                  ii_context = '' @ file bytes range ['' @ show_nat (file_offset + im_first im) @ '', '' @
                    show_nat (file_offset + f_size chunk) @ '')'',
                  ii_is_guard = False\<rparr>
      in im\<lparr>im_chunk := None, im_queue := im_queue im @ [(info, None)]\<rparr>)"

definition copy_memory :: "nat \<Rightarrow> nat \<Rightarrow> nat \<Rightarrow> store \<Rightarrow> store" where
  "copy_memory dest src len st = st\<lparr>mem := mem_copy dest (map (mem st) [src ..< src + len]) (mem st)\<rparr>"

text \<open>The block is used by the chunk and by the next one: the result is the chunk, which has the bytes up to the offset, and a block with the bytes from
  the offset on.\<close>

definition split_block :: "heap \<Rightarrow> nat \<Rightarrow> data_block \<Rightarrow> alloc_file \<Rightarrow> store \<Rightarrow> (alloc_file \<times> data_block) result \<times> store" where
  "split_block heap offset block chunk st =
     (case new_block heap st of
        (Inl e, st1) \<Rightarrow> (Inl e, st1)
      | (Inr new, st1) \<Rightarrow>
          if offset < db_size block div 2
          then let st2 = copy_memory (db_memory new) (db_memory block) offset st1
               in case file_append chunk st2 (new\<lparr>db_size := offset\<rparr>) of
                    (Inl e, _, st3) \<Rightarrow> (Inl e, st3)
                  | (Inr _, chunk', st3) \<Rightarrow> (Inr (chunk', block), st3)
          else let st2 = copy_memory (db_memory new + offset) (db_memory block + offset) (db_size block - offset) st1
               in case file_append chunk st2 (block\<lparr>db_size := offset\<rparr>) of
                    (Inl e, _, st3) \<Rightarrow> (Inl e, st3)
                  | (Inr _, chunk', st3) \<Rightarrow> (Inr (chunk', new\<lparr>db_size := db_size block\<rparr>), st3))"

text \<open>The end of a turn: a block is appended to the chunk, if there is one, or else freed when it goes out of scope.\<close>

definition keep_block :: "data_block \<Rightarrow> import_state \<Rightarrow> store \<Rightarrow> import_state result \<times> store" where
  "keep_block block im st =
     (case im_chunk im of
        None \<Rightarrow> (case drop_block block st of Inl e \<Rightarrow> (Inl e, st) | Inr st' \<Rightarrow> (Inr (im\<lparr>im_phase := Scanning\<rparr>), st'))
      | Some chunk \<Rightarrow>
          (case file_append chunk st block of
             (Inl e, _, st') \<Rightarrow> (Inl e, st')
           | (Inr _, chunk', st') \<Rightarrow> (Inr (im\<lparr>im_chunk := Some chunk', im_phase := Scanning\<rparr>), st')))"

definition begin_chunk :: "import_config \<Rightarrow> nat \<Rightarrow> data_block \<Rightarrow> import_state \<Rightarrow> store \<Rightarrow> import_state result \<times> store" where
  "begin_chunk cfg offset block im st =
     keep_block block (im\<lparr>im_chunk := Some (make_chunk cfg st), im_first := offset\<rparr>) st"

text \<open>A turn from the extracted block on, up to the call of \<^verbatim>\<open>schedule_chunk\<close> if there is one.\<close>

definition take_block :: "heap \<Rightarrow> import_config \<Rightarrow> data_block \<Rightarrow> import_state \<Rightarrow> store \<Rightarrow> import_state result \<times> store" where
  "take_block heap cfg block im st =
     (case scan (block_bytes st block) (im_scanner im) of
        Inl e \<Rightarrow> (Inl e, st)
      | Inr (offset, sc) \<Rightarrow>
          let im1 = im\<lparr>im_scanner := sc, im_extracted := im_extracted im + 1, im_total := im_total im + db_size block\<rparr>
          in if offset \<ge> 0
             then case im_chunk im of
                    None \<Rightarrow> begin_chunk cfg (nat offset) block im1 st
                  | Some chunk \<Rightarrow>
                      if (size_sub (f_size chunk) (im_first im) + nat offset) mod 2 ^ 64 \<ge> ic_bytes_per_chunk cfg
                      then if offset > 0
                           then (case split_block heap (nat offset) block chunk st of
                                   (Inl e, st') \<Rightarrow> (Inl e, st')
                                 | (Inr (chunk', block'), st') \<Rightarrow>
                                     (Inr (im1\<lparr>im_chunk := Some chunk', im_phase := Pausing block' (nat offset)\<rparr>), st'))
                           else (Inr (im1\<lparr>im_phase := Pausing block 0\<rparr>), st)
                      else keep_block block im1 st
             else keep_block block im1 st)"

definition end_of_file :: "data_block \<Rightarrow> import_state \<Rightarrow> store \<Rightarrow> import_state result \<times> store" where
  "end_of_file block im st =
     (case drop_block block st of
        Inl e \<Rightarrow> (Inl e, st)
      | Inr st' \<Rightarrow>
          (Inr (im\<lparr>im_phase := (case im_chunk im of
                                 None \<Rightarrow> Complete
                               | Some chunk \<Rightarrow> if f_size chunk > 0 then Pausing_last else Complete)\<rparr>), st'))"

section \<open>Loading a chunk\<close>

text \<open>The constructor of \<^verbatim>\<open>Transaction_buffer\<close> opens the file and skips to the beginning of the range. The loading thread reads as the server asks
  for more, within the range; a deadlock that the server has rolled back makes it return to the
  beginning of the range and send the bytes again.\<close>

definition open_range :: "alloc_file \<Rightarrow> nat \<Rightarrow> unit result \<times> alloc_file" where
  "open_range f skip =
     (case (if f_is_open f then (Inr (), f) else file_open f True) of
        (Inl e, f1) \<Rightarrow> (Inl e, f1)
      | (Inr _, f1) \<Rightarrow>
          if skip > 0
          then (case file_seek f1 (int skip) of (Inl e, f2) \<Rightarrow> (Inl e, f2) | (Inr _, f2) \<Rightarrow> (Inr (), f2))
          else (Inr (), f1))"

fun infile_reads :: "nat list \<Rightarrow> nat \<Rightarrow> alloc_file \<Rightarrow> store \<Rightarrow> (string \<times> nat) result \<times> alloc_file \<times> store" where
  "infile_reads [] bytes_left f st = (Inr ([], bytes_left), f, st)"
| "infile_reads (len # lens) bytes_left f st =
     (case file_read f st (min len bytes_left) of
        (Inl e, f1, st1) \<Rightarrow> (Inl e, f1, st1)
      | (Inr out, f1, st1) \<Rightarrow>
          (case infile_reads lens (size_sub bytes_left (length out)) f1 st1 of
             (Inl e, f2, st2) \<Rightarrow> (Inl e, f2, st2)
           | (Inr (outs, remaining), f2, st2) \<Rightarrow> (Inr (out @ outs, remaining), f2, st2)))"

text \<open>The pauses before the statement is tried again, as the next pause and the sum of the pauses so far.\<close>

definition retry_pause :: "nat \<times> nat \<Rightarrow> (nat \<times> nat) option" where
  "retry_pause = (\<lambda>(sleep_time_ms, total_sleep_time_ms).
     if total_sleep_time_ms < 30000
     then let sleep = (if total_sleep_time_ms + sleep_time_ms > 30000 then 30000 - total_sleep_time_ms else sleep_time_ms)
          in Some (sleep * 2, total_sleep_time_ms + sleep)
     else None)"

text \<open>One list of reads for each attempt; all attempts but the last end in a deadlock, of which the server says \<open>message\<close>. The bytes of the last attempt
  are the result.\<close>

fun load_attempts :: "string \<Rightarrow> nat \<times> nat \<Rightarrow> nat list list \<Rightarrow> nat \<Rightarrow> nat \<Rightarrow> alloc_file \<Rightarrow> store \<Rightarrow>
    (string \<times> nat) result \<times> alloc_file \<times> store" where
  "load_attempts message pause [] retry_offset retry_bytes_left f st = (Inr ([], retry_bytes_left), f, st)"
| "load_attempts message pause (lens # retries) retry_offset retry_bytes_left f st =
     (case infile_reads lens retry_bytes_left f st of
        (Inl e, f1, st1) \<Rightarrow> (Inl e, f1, st1)
      | (Inr (out, remaining), f1, st1) \<Rightarrow>
          if retries = [] then (Inr (out, remaining), f1, st1)
          else (case retry_pause pause of
                  None \<Rightarrow> (Inl (Runtime_error message), f1, st1)
                | Some pause' \<Rightarrow>
                    (case file_seek f1 (int retry_offset) of
                       (Inl e, f2) \<Rightarrow> (Inl (Runtime_error message), f2, st1)
                     | (Inr _, f2) \<Rightarrow> load_attempts message pause' retries retry_offset retry_bytes_left f2 st1)))"

definition load_chunk :: "string \<Rightarrow> nat list list \<Rightarrow> import_info \<Rightarrow> store \<Rightarrow> (string \<times> nat) result \<times> alloc_file \<times> store" where
  "load_chunk message attempts c st =
     (case open_range (ii_file c) (fst (ii_range c)) of
        (Inl e, f) \<Rightarrow> (Inl e, f, st)
      | (Inr _, f) \<Rightarrow>
          (case file_tell f of
             Inl e \<Rightarrow> (Inl e, f, st)
           | Inr retry_offset \<Rightarrow>
               load_attempts message (200, 0) attempts retry_offset (size_sub (snd (ii_range c)) (fst (ii_range c))) f st))"

section \<open>Steps\<close>

definition import_blocks :: "import_state \<Rightarrow> nat list" where
  "import_blocks im =
     (case im_chunk im of None \<Rightarrow> [] | Some f \<Rightarrow> f_blocks f) @
     (case im_phase im of Pausing b _ \<Rightarrow> [db_memory b] | _ \<Rightarrow> []) @
     concat (map (\<lambda>(c, sent). if sent = None then f_blocks (ii_file c) else []) (im_queue im))"

definition own_blocks :: "import_state \<Rightarrow> store \<Rightarrow> threaded_file \<Rightarrow> threaded_file" where
  "own_blocks im st s =
     s\<lparr>tf_store := st, tf_held := map (\<lambda>a. (a, map (mem st) [a ..< a + tf_block_size s])) (import_blocks im)\<rparr>"

text \<open>After an exception or an interruption the destructors free the blocks of the chunk; from then on it
  is what other users of the allocator do.\<close>

definition leave_loop :: "import_phase \<Rightarrow> import_state \<Rightarrow> import_state" where
  "leave_loop ph im = im\<lparr>im_phase := ph, im_chunk := None\<rparr>"

fun after_call :: "import_state \<Rightarrow> import_state result \<times> store \<Rightarrow> threaded_file \<Rightarrow> import_state \<times> threaded_file" where
  "after_call im (Inr im', st) s = (im', own_blocks im' st s)"
| "after_call im (Inl e, st) s = (leave_loop (Failed e) im, own_blocks (leave_loop (Failed e) im) st s)"

inductive import_step :: "heap \<Rightarrow> string \<Rightarrow> import_config \<Rightarrow> import_state \<times> threaded_file \<Rightarrow> import_state \<times> threaded_file \<Rightarrow> bool"
  for heap content cfg where
  is_others: "tf_steps heap content s s' \<Longrightarrow> import_step heap content cfg (im, s) (im, s')"
| is_block: "im_phase im = Scanning \<Longrightarrow> extract_call heap content s (Inr block) s1 \<Longrightarrow> db_size block \<noteq> 0 \<Longrightarrow>
    import_step heap content cfg (im, s) (after_call im (take_block heap cfg block im (tf_store s1)) s1)"
| is_end: "im_phase im = Scanning \<Longrightarrow> extract_call heap content s (Inr block) s1 \<Longrightarrow> db_size block = 0 \<Longrightarrow>
    import_step heap content cfg (im, s) (after_call im (end_of_file block im (tf_store s1)) s1)"
| is_no_block: "im_phase im = Scanning \<Longrightarrow> extract_call heap content s (Inl e) s1 \<Longrightarrow>
    import_step heap content cfg (im, s) (after_call im (Inl e, tf_store s1) s1)"
| is_schedule: "im_phase im = Pausing block offset \<Longrightarrow> im_chunk im = Some chunk \<Longrightarrow> chunks_in_flight im < ic_threads cfg \<Longrightarrow>
    import_step heap content cfg (im, s)
      (after_call im (begin_chunk cfg offset block (schedule_chunk cfg chunk im) (tf_store s)) s)"
| is_last: "im_phase im = Pausing_last \<Longrightarrow> im_chunk im = Some chunk \<Longrightarrow> chunks_in_flight im < ic_threads cfg \<Longrightarrow>
    import_step heap content cfg (im, s)
      (after_call im (Inr ((schedule_chunk cfg chunk im)\<lparr>im_phase := Complete\<rparr>), tf_store s) s)"
| is_interrupted: "im_phase im = Scanning \<or> im_phase im = Pausing block offset \<or> im_phase im = Pausing_last \<Longrightarrow>
    import_step heap content cfg (im, s) (after_call im (Inr (leave_loop Interrupted im), tf_store s) s)"
| is_load: "i < length (im_queue im) \<Longrightarrow> im_queue im ! i = (c, None) \<Longrightarrow>
    load_chunk message attempts c (tf_store s) = (Inr (sent, remaining), f, st1) \<Longrightarrow> infile_reads [1] remaining f st1 = (Inr ([], remaining), f, st1) \<Longrightarrow>
    delete_file f st1 = Inr st \<Longrightarrow>
    import_step heap content cfg (im, s) (after_call im (Inr (im\<lparr>im_queue := (im_queue im)[i := (c, Some sent)]\<rparr>), st) s)"

end
