(* ===== verification/Import_Memory.thy ===== *)
theory Import_Memory
  imports Import_Chunks
begin

text \<open>
  The parts of the import by themselves: a chunk and what appending a block adds to its data, splitting a block between two chunks (\<open>split_block_ok\<close>),
  the blocks that the import holds while the threaded file goes on (\<open>own_blocks_good\<close>), the row that the scanner finds in the next block of the
  file (\<open>scan_block_ok\<close>), and reading a chunk in any number of attempts (\<open>load_chunk_prefix\<close>).
\<close>

section \<open>Chunks\<close>

definition chunk_ok :: "nat \<Rightarrow> alloc_file \<Rightarrow> bool" where
  "chunk_ok bs f \<longleftrightarrow>
     0 < bs \<and> f_block_size f = bs \<and> f_bytes_consumed f = 0 \<and> f_retain_data f \<and> \<not> f_is_open f \<and> f_offset f = 0 \<and>
     f_capacity f = length (f_blocks f) * bs \<and> f_size f \<le> f_capacity f \<and> f_capacity f < f_size f + bs \<and>
     (f_accepts_append f \<longrightarrow> f_size f = f_capacity f)"

lemma chunk_byte:
  assumes "chunk_ok bs f" "i < f_size f"
  shows "byte_at f st i = mem st (f_blocks f ! (i div bs) + i mod bs)" "i div bs < length (f_blocks f)" "i mod bs < bs"
  using assms by (auto simp: chunk_ok_def byte_at_def Let_def less_mult_imp_div_less)

lemma file_data_same:
  assumes "chunk_ok bs f" "\<And>a. a \<in> set (f_blocks f) \<Longrightarrow> same_block bs st st' a"
  shows "file_data f st' = file_data f st"
  using assms chunk_byte [OF assms(1)] by (auto simp: file_data_def same_block_def)

lemma make_chunk_ok:
  assumes "0 < m_block_size (pool st)"
  shows "chunk_ok (m_block_size (pool st)) (make_chunk cfg st)" "f_blocks (make_chunk cfg st) = []" "f_size (make_chunk cfg st) = 0"
    "f_accepts_append (make_chunk cfg st)" "file_data (make_chunk cfg st) st' = []"
  using assms by (simp_all add: make_chunk_def retain_data_def new_file_def chunk_ok_def file_data_def)

definition appended :: "alloc_file \<Rightarrow> data_block \<Rightarrow> alloc_file" where
  "appended f b = f\<lparr>f_blocks := f_blocks f @ [db_memory b], f_size := f_size f + db_size b,
     f_capacity := f_capacity f + f_block_size f, f_accepts_append := (db_size b = f_block_size f)\<rparr>"

lemma appended_sel [simp]:
  "f_blocks (appended f b) = f_blocks f @ [db_memory b]" "f_size (appended f b) = f_size f + db_size b"
  "f_accepts_append (appended f b) = (db_size b = f_block_size f)"
  by (simp_all add: appended_def)

lemma chunk_append:
  assumes "chunk_ok bs f" "f_accepts_append f" "0 < db_size b" "db_size b \<le> bs"
  shows "file_append f st b = (Inr (), appended f b, st)" "chunk_ok bs (appended f b)"
    "file_data (appended f b) st = file_data f st @ block_bytes st b"
proof -
  let ?f = "appended f b"
  have f: "f_block_size f = bs" "f_size f = length (f_blocks f) * bs" "f_bytes_consumed f = 0" "0 < bs" using assms by (auto simp: chunk_ok_def)
  show "chunk_ok bs ?f" "file_append f st b = (Inr (), ?f, st)"
    using assms by (auto simp: chunk_ok_def algebra_simps appended_def file_append_def)
  note a = appended_def [of f b]
  have old: "byte_at ?f st i = byte_at f st i" if "i < f_size f" for st i
    using chunk_byte [OF assms(1) that] f by (simp add: byte_at_def nth_append a)
  have new: "byte_at ?f st (f_size f + i) = mem st (db_memory b + i)" if "i < db_size b" for st i
  proof -
    have "i < bs" using that assms(4) by simp
    then have "(f_size f + i) div bs = length (f_blocks f)" "(f_size f + i) mod bs = i" using f(2,4) by simp_all
    then show ?thesis using f by (simp add: byte_at_def nth_append a)
  qed
  show "file_data ?f st = file_data f st @ block_bytes st b"
  proof (rule nth_equalityI)
    show "length (file_data ?f st) = length (file_data f st @ block_bytes st b)" using f by (simp add: file_data_length a)
    fix i assume "i < length (file_data ?f st)"
    then have i: "i < f_size f + db_size b" using f by (simp add: file_data_length a)
    show "file_data ?f st ! i = (file_data f st @ block_bytes st b) ! i"
    proof (cases "i < f_size f")
      case True
      then show ?thesis using i old f by (simp add: file_data_def nth_append a)
    next
      case False
      then show ?thesis using i new [of "i - f_size f" st] f by (simp add: file_data_def nth_append block_bytes_def a)
    qed
  qed
qed

section \<open>Splitting a block\<close>

text \<open>Memory is written in the new block only.\<close>

definition grown :: "heap \<Rightarrow> store \<Rightarrow> nat \<Rightarrow> store \<Rightarrow> bool" where
  "grown heap st m st' \<longleftrightarrow> pool_state heap (pool st') \<and> m_block_size (pool st') = m_block_size (pool st) \<and>
     m \<notin> used_blocks (pool st) \<and> used_blocks (pool st') = insert m (used_blocks (pool st)) \<and>
     (\<forall>a \<in> used_blocks (pool st). same_block (m_block_size (pool st)) st st' a)"

lemma copy_memory_pool [simp]: "pool (copy_memory dest src len st) = pool st"
  by (simp add: copy_memory_def)

lemma copy_memory_read: "i < len \<Longrightarrow> mem (copy_memory dest src len st) (dest + i) = mem st (src + i)"
  by (simp add: copy_memory_def mem_copy_def)

lemma copy_memory_grown:
  assumes "pool_state heap (pool st)" "2 * m_block_size (pool st) \<le> 2 ^ 64" "allocate_block heap (pool st) = (Inr m, a)"
    "k + len \<le> m_block_size (pool st)"
  shows "grown heap st m (copy_memory (m + k) src len (st\<lparr>pool := a\<rparr>))"
proof -
  let ?bs = "m_block_size (pool st)"
  have a: "pool_state heap a" "m_block_size a = ?bs" "m \<notin> used_blocks (pool st)" "used_blocks a = insert m (used_blocks (pool st))"
    using allocate_block_ok [OF assms(1,2)] assms(3) by auto
  have "same_block ?bs st (copy_memory (m + k) src len (st\<lparr>pool := a\<rparr>)) b" if "b \<in> used_blocks (pool st)" for b
  proof -
    have "m + ?bs \<le> b \<or> b + ?bs \<le> m"
      using used_blocks_apart [of a m b] used_blocks_apart [of a b m] a that by (cases m b rule: linorder_cases) (auto simp: pool_state_def)
    then show ?thesis using assms(4) by (auto simp: same_block_def copy_memory_def mem_copy_def)
  qed
  then show ?thesis using a by (simp add: grown_def)
qed

lemma split_block_ok:
  assumes ok: "pool_state heap (pool st)" "2 * m_block_size (pool st) \<le> 2 ^ 64" "bs = m_block_size (pool st)"
    and f: "chunk_ok bs f" "f_accepts_append f" and b: "0 < off" "off < db_size b" "db_size b \<le> bs" "db_memory b \<in> used_blocks (pool st)"
  shows "case split_block heap off b f st of
      (Inl e, st') \<Rightarrow> e = Bad_alloc \<and> pool_state heap (pool st') \<and> m_block_size (pool st') = bs \<and>
        used_blocks (pool st') = used_blocks (pool st) \<and> mem st' = mem st
    | (Inr (f', b'), st') \<Rightarrow> \<exists>m c. grown heap st m st' \<and> chunk_ok bs f' \<and> {c, db_memory b'} = {db_memory b, m} \<and> c \<noteq> db_memory b' \<and>
        f_blocks f' = f_blocks f @ [c] \<and> f_size f' = f_size f + off \<and> db_size b' = db_size b \<and>
        file_data f' st' = file_data f st' @ take off (block_bytes st b) \<and> drop off (block_bytes st' b') = drop off (block_bytes st b)"
proof (cases "allocate_block heap (pool st)")
  case (Pair r a)
  show ?thesis
  proof (cases r)
    case (Inl e)
    then show ?thesis using Pair allocate_block_ok [OF ok(1,2)] ok(3) by (simp add: split_block_def new_block_def)
  next
    case (Inr m)
    let ?st = "st\<lparr>pool := a\<rparr>" and ?b = "db_memory b"
    have m: "m \<noteq> ?b" using allocate_block_ok [OF ok(1,2)] Pair Inr b(4) by auto
    show ?thesis
    proof (cases "off < db_size b div 2")
      case True
      define st2 where "st2 = copy_memory m ?b off ?st"
      have g: "grown heap st m st2" using copy_memory_grown [OF ok(1,2) Pair [unfolded Inr], of 0 off ?b] b ok(3) by (simp add: st2_def)
      then have s: "same_block bs st st2 ?b" using b(4) ok(3) by (simp add: grown_def)
      let ?f = "appended f \<lparr>db_memory = m, db_size = off\<rparr>"
      note f' = chunk_append [OF f, of "\<lparr>db_memory = m, db_size = off\<rparr>"]
      have "map (mem st2) [m ..< m + off] = map (mem ?st) [?b ..< ?b + off]"
        using copy_memory_read [of _ off m ?b ?st] by (simp add: st2_def list_eq_iff_nth_eq)
      then have "block_bytes st2 \<lparr>db_memory = m, db_size = off\<rparr> = take off (block_bytes st b)"
        using b by (simp add: block_bytes_def take_map take_upt)
      moreover have "block_bytes st2 b = block_bytes st b" unfolding block_bytes_def by (rule same_block_bytes [OF s b(3)])
      moreover have "split_block heap off b f st = (Inr (?f, b), st2)"
        using True Pair Inr f'(1) b by (simp add: split_block_def new_block_def Let_def st2_def)
      ultimately show ?thesis using g f' m b by (auto intro!: exI [of _ m])
    next
      case False
      let ?n = "db_size b - off"
      define st2 where "st2 = copy_memory (m + off) (?b + off) ?n ?st"
      have g: "grown heap st m st2" using copy_memory_grown [OF ok(1,2) Pair [unfolded Inr], of off ?n "?b + off"] b ok(3) by (simp add: st2_def)
      then have s: "same_block bs st st2 ?b" using b(4) ok(3) by (simp add: grown_def)
      let ?f = "appended f (b\<lparr>db_size := off\<rparr>)"
      note f' = chunk_append [OF f, of "b\<lparr>db_size := off\<rparr>"]
      have "mem st2 (m + off + i) = mem st (?b + off + i)" if "i < ?n" for i
        using copy_memory_read [OF that, of "m + off" "?b + off" ?st] by (simp add: st2_def)
      then have "drop off (block_bytes st2 \<lparr>db_memory = m, db_size = db_size b\<rparr>) = drop off (block_bytes st b)"
        by (auto simp: block_bytes_def list_eq_iff_nth_eq add.assoc)
      moreover have "block_bytes st2 (b\<lparr>db_size := off\<rparr>) = take off (block_bytes st b)"
        using same_block_bytes [OF s, of off] b by (simp add: block_bytes_def take_map take_upt)
      moreover have "split_block heap off b f st = (Inr (?f, \<lparr>db_memory = m, db_size = db_size b\<rparr>), st2)"
        using False Pair Inr f'(1) b by (simp add: split_block_def new_block_def Let_def st2_def)
      ultimately show ?thesis using g f' m b by (auto intro!: exI [of _ m])
    qed
  qed
qed

section \<open>Blocks that are held\<close>

lemma held_parts [simp]:
  "first_node (s\<lparr>tf_held := h\<rparr>) = first_node s" "end_seen (s\<lparr>tf_held := h\<rparr>) = end_seen s"
  "unread (s\<lparr>tf_held := h\<rparr>) p = unread s p" "read_part content (s\<lparr>tf_held := h\<rparr>) p k = read_part content s p k"
  "troubled (s\<lparr>tf_held := h\<rparr>) = troubled s" "tf_pos (s\<lparr>tf_held := h\<rparr>) = tf_pos s" "tf_consumed (s\<lparr>tf_held := h\<rparr>) = tf_consumed s"
  "supplied (s\<lparr>tf_held := h\<rparr>) = supplied s" "nodes_ok content (s\<lparr>tf_held := h\<rparr>) = nodes_ok content s"
  "data_ok content (s\<lparr>tf_held := h\<rparr>) = data_ok content s" "flags_ok (s\<lparr>tf_held := h\<rparr>) = flags_ok s"
  "tasks_at (s\<lparr>tf_held := h\<rparr>) q t = tasks_at s q t"
  by (simp_all add: first_node_def end_seen_def unread_def read_part_def troubled_def tf_pos_def tf_consumed_def supplied_def
      nodes_ok_def data_ok_def flags_ok_def tasks_at_def)

lemma tf_good_held:
  assumes "tf_good heap content s" "memory_ok heap (s\<lparr>tf_held := h\<rparr>)"
  shows "tf_good heap content (s\<lparr>tf_held := h\<rparr>)"
proof -
  let ?s = "s\<lparr>tf_held := h\<rparr>"
  have inv: "tf_inv heap content s" and srv: "serving s" and fo: "front_only s" using assms(1) by (auto simp: tf_good_def)
  obtain q t where i: "nodes_ok content s" "data_ok content s" "flags_ok s" "tasks_at s q t" "workers_ok content t s"
    by (rule tf_invE [OF inv])
  have "worker_ok content t ?s ph pos = worker_ok content t s ph pos" for ph pos by (cases ph) auto
  then have "workers_ok content t ?s" using i(5) by (auto simp: workers_ok_def)
  then have "tf_inv heap content ?s" using assms(2) i(1-4) unfolding tf_inv_def by auto
  then show ?thesis using srv fo by (simp add: tf_good_def serving_def front_only_def)
qed

lemma tf_good_store:
  assumes "tf_good heap content s" "other_users heap s st"
  shows "tf_good heap content (s\<lparr>tf_store := st\<rparr>)"
  using assms other_users_inv [OF _ assms(2)] by (auto simp: tf_good_def serving_def front_only_def)

abbreviation file_blocks :: "threaded_file \<Rightarrow> nat list" where
  "file_blocks s \<equiv> map (\<lambda>(p, b). db_memory (b_data b)) (tf_blocks s)"

lemma tf_good_memory:
  assumes "tf_good heap content s"
  shows "pool_state heap (pool (tf_store s))" "m_block_size (pool (tf_store s)) = tf_block_size s" "2 * tf_block_size s \<le> 2 ^ 64"
    "distinct (file_blocks s @ map fst (tf_held s))" "set (file_blocks s @ map fst (tf_held s)) \<subseteq> used_blocks (pool (tf_store s))"
    "0 < tf_block_size s"
proof -
  obtain "memory_ok heap s" by (rule tf_invE [of heap content s]) (use assms in \<open>auto simp: tf_good_def\<close>)
  then show "pool_state heap (pool (tf_store s))" "m_block_size (pool (tf_store s)) = tf_block_size s" "2 * tf_block_size s \<le> 2 ^ 64"
    "distinct (file_blocks s @ map fst (tf_held s))" "set (file_blocks s @ map fst (tf_held s)) \<subseteq> used_blocks (pool (tf_store s))"
    by (auto simp: memory_ok_def owned_blocks_def)
qed (rule tf_good_block_size [OF assms])

lemma own_blocks_good:
  assumes good: "tf_good heap content s" and st: "pool_state heap (pool st)" "m_block_size (pool st) = tf_block_size s"
    and kept: "\<And>a. a \<in> set (file_blocks s) \<Longrightarrow> a \<in> used_blocks (pool st) \<and> same_block (tf_block_size s) (tf_store s) st a"
    and own: "distinct (file_blocks s @ import_blocks im)" "set (import_blocks im) \<subseteq> used_blocks (pool st)"
  shows "tf_good heap content (own_blocks im st s)"
proof -
  note m = tf_good_memory [OF good]
  let ?s = "s\<lparr>tf_held := []\<rparr>" and ?h = "map (\<lambda>a. (a, map (mem st) [a ..< a + tf_block_size s])) (import_blocks im)"
  have "memory_ok heap ?s" using m by (simp add: memory_ok_def owned_blocks_def)
  then have "tf_good heap content ?s" by (rule tf_good_held [OF good])
  moreover have "other_users heap ?s st"
    using kept st m(2) by (auto simp: other_users_def owned_blocks_def same_block_def)
  ultimately have g: "tf_good heap content (?s\<lparr>tf_store := st\<rparr>)" by (rule tf_good_store)
  have "memory_ok heap (?s\<lparr>tf_store := st, tf_held := ?h\<rparr>)"
    using m(3) st kept own by (auto simp: memory_ok_def owned_blocks_def comp_def)
  from tf_good_held [OF g this] show ?thesis by (simp add: own_blocks_def)
qed

section \<open>Rows\<close>

text \<open>The scanner has seen the first \<open>n\<close> bytes, and \<open>rows\<close> are the starts of all rows of the file.\<close>

definition scanned :: "dialect \<Rightarrow> string \<Rightarrow> nat list \<Rightarrow> scanner \<Rightarrow> nat \<Rightarrow> bool" where
  "scanned d content rows sc n \<longleftrightarrow> idle d sc \<and> n \<le> length content \<and>
     (\<exists>p seen. n = p + length (m_stack sc) \<and> rows = seen @ row_starts d (ctl_of sc) p (m_stack sc @ drop n content) \<and>
        (\<forall>x \<in> set seen. x < n))"

lemma scanned_start:
  assumes "new_scanner d skip = Inr sc"
  shows "scanned d content (row_starts d (skip, BEGIN, Not_used) 0 content) sc 0"
  using new_scanner_idle [OF assms] by (simp add: scanned_def)

lemma idle_rows_beyond:
  assumes "aligned d" "idle d sc" "x \<in> set (row_starts d (ctl_of sc) p (m_stack sc @ r))"
  shows "p + length (m_stack sc) \<le> x \<and> x < p + length (m_stack sc) + length r"
  using rows_beyond [OF assms(1) _ _ _ assms(3), of "length (m_stack sc)"] assms(2) by (simp add: idle_def ready_def conf_def)

lemma scanned_end:
  assumes "aligned d" "scanned d content rows sc (length content)" "x \<in> set rows"
  shows "x < length content"
proof -
  obtain p seen where i: "idle d sc" "length content = p + length (m_stack sc)"
      "rows = seen @ row_starts d (ctl_of sc) p (m_stack sc @ [])" "\<forall>x \<in> set seen. x < length content"
    using assms(2) by (auto simp: scanned_def)
  then show ?thesis using assms(3) idle_rows_beyond [OF assms(1) i(1), of x p "[]"] by (cases "x \<in> set seen") auto
qed

lemma scan_block_ok:
  assumes al: "aligned d" and sc: "scanned d content rows sc n" and data: "data = take len (drop n content)" "data \<noteq> []"
  shows "\<exists>res sc'. scan data sc = Inr (res, sc') \<and> scanned d content rows sc' (n + length data) \<and> res < int (length data) \<and>
    (if res < 0 then \<forall>x \<in> set rows. \<not> (n \<le> x \<and> x < n + length data)
     else n + nat res \<in> set rows \<and> ((\<forall>x \<in> set rows. n \<le> x) \<longrightarrow> hd rows = n + nat res))"
proof -
  obtain p seen where i: "idle d sc" "n \<le> length content" "n = p + length (m_stack sc)"
      "rows = seen @ row_starts d (ctl_of sc) p (m_stack sc @ drop n content)" "\<forall>x \<in> set seen. x < n"
    using sc by (auto simp: scanned_def)
  obtain res sc1 p1 found where s: "scan data sc = Inr (res, sc1)" "idle d sc1"
      "follows d p (ctl_of sc) (m_stack sc @ data) found p1 (ctl_of sc1) (m_stack sc1)"
      "reported d (p + length (m_stack sc) + length data) (length data) found res"
    by (rule scan_sim [OF i(1) data(2), where p = p])
  let ?n = "n + length data"
  let ?rest = "row_starts d (ctl_of sc1) p1 (m_stack sc1 @ drop ?n content)"
  have le: "?n \<le> length content" using data i(2) by simp
  have cut: "drop n content = data @ drop ?n content"
    using append_take_drop_id [of "length data" "drop n content"] data(1) by (simp add: add.commute min_def split: if_splits)
  have stop: "?n = p1 + length (m_stack sc1)" using s(3) i(3) by (simp add: follows_def)
  have rows: "rows = (seen @ found) @ ?rest" using s(3) i(4) cut by (simp add: follows_def)
  have f: "\<forall>x \<in> set found. n \<le> x \<and> x < ?n" using s(4) al i(3) by (auto simp: reported_def)
  have rest: "?n \<le> x" if "x \<in> set ?rest" for x using idle_rows_beyond [OF al s(2) that] stop by simp
  have "scanned d content rows sc1 ?n"
    unfolding scanned_def using s(2) le stop rows i(5) f by (intro conjI exI [of _ p1] exI [of _ "seen @ found"]) auto
  moreover have "if res < 0 then \<forall>x \<in> set rows. \<not> (n \<le> x \<and> x < ?n)
     else n + nat res \<in> set rows \<and> ((\<forall>x \<in> set rows. n \<le> x) \<longrightarrow> hd rows = n + nat res)"
  proof (cases found)
    case Nil
    then have "res = -1" using s(4) by (simp add: reported_def)
    then show ?thesis using rows rest i(5) Nil by fastforce
  next
    case (Cons x xs)
    then have "0 \<le> res" "int ?n + res = int x + int (length data)" using s(4) al i(3) by (auto simp: reported_def)
    then have "n + nat res = x" "\<not> res < 0" by linarith+
    moreover have "hd rows = x" if "\<forall>y \<in> set rows. n \<le> y" using that i(5) rows Cons by (cases seen) force+
    ultimately show ?thesis using rows Cons by auto
  qed
  moreover have "res < int (length data)" using s(4) data(2) by (auto simp: reported_def split: if_splits)
  ultimately show ?thesis using s(1) by blast
qed

section \<open>Loading\<close>

text \<open>A file whose data is retained is not changed by reading, but for its position.\<close>

definition reading_at :: "alloc_file \<Rightarrow> nat \<Rightarrow> alloc_file" where
  "reading_at f off = f\<lparr>f_is_open := True, f_read_mode := True, f_accepts_append := False, f_offset := off,
     f_reading_from_beginning := False\<rparr>"

lemma read_loop_retained:
  assumes "read_loop len bn bo f st out = (r, f', st')" "\<not> f_reading_from_beginning f"
  shows "st' = st \<and> f' = f\<lparr>f_offset := f_offset f'\<rparr>"
  using assms
proof (induction len bn bo f st out arbitrary: r f' st' rule: read_loop.induct)
  case (1 len bn bo f st out)
  show ?case using 1(3,4) 1(2) [OF _ refl _ _ refl refl refl]
    by (subst (asm) read_loop.simps) (auto simp: Let_def split: if_splits)
qed

lemma reading_at_read:
  assumes "chunk_ok bs f" "blocks_ok heap f st" "off \<le> f_size f"
  shows "file_read (reading_at f off) st n =
    (Inr (take n (drop off (file_data f st))), reading_at f (off + min n (f_size f - off)), st)"
proof -
  let ?f = "reading_at f off"
  have c: "f_bytes_consumed f = 0" using assms(1) by (simp add: chunk_ok_def)
  have "blocks_ok heap ?f st" "file_data ?f st = file_data f st"
    using assms(2) file_cong [of ?f f] by (simp_all add: reading_at_def)
  moreover have "position_ok ?f" using assms(3) c by (simp add: position_ok_def reading_at_def)
  ultimately have ok: "file_ok heap ?f st" and d: "file_data ?f st = file_data f st" by (simp_all add: file_ok_def)
  obtain f' st' k where r: "file_read ?f st n = (Inr (take n (drop (f_offset ?f - f_bytes_consumed ?f) (file_data ?f st))), f', st')"
      "read_effect heap (min n (f_size ?f - f_offset ?f)) ?f st f' st' k" "\<not> f_reading_from_beginning ?f \<longrightarrow> k = 0"
    by (rule file_read_ok [OF ok, where len = n]) (simp_all add: reading_at_def)
  have "st' = st" using r(1) read_loop_retained [of _ _ _ ?f st "[]" _ f' st']
    by (auto simp: file_read_def Let_def reading_at_def split: if_splits)
  moreover have "f' = ?f\<lparr>f_offset := off + min n (f_size f - off)\<rparr>" using r(2,3) by (simp add: read_effect_def reading_at_def)
  ultimately show ?thesis using r(1) d c by (simp add: reading_at_def)
qed

lemma seek_reading_at:
  assumes "chunk_ok bs f" "off \<le> f_size f"
  shows "file_seek (reading_at f off') (int off) = (Inr off, reading_at f off)"
  using assms by (simp add: file_seek_def reading_at_def file_tell_def chunk_ok_def Let_def)

lemma open_range_ok:
  assumes "chunk_ok bs f" "off \<le> f_size f"
  shows "open_range f off = (Inr (), reading_at f off)"
proof -
  have "file_open f True = (Inr (), reading_at f 0)"
    using assms by (simp add: file_open_def file_seek_def reading_at_def file_tell_def chunk_ok_def Let_def)
  then show ?thesis using seek_reading_at [OF assms, of 0] assms by (simp add: open_range_def chunk_ok_def)
qed

lemma infile_reads_ok:
  assumes "chunk_ok bs f" "blocks_ok heap f st" "off + bytes = f_size f"
  shows "infile_reads lens bytes (reading_at f off) st =
    (Inr (take (sum_list lens) (drop off (file_data f st)), bytes - sum_list lens), reading_at f (off + min (sum_list lens) bytes), st)"
  using assms(3)
proof (induction lens arbitrary: off bytes)
  case (Cons len lens)
  let ?out = "take (min len bytes) (drop off (file_data f st))"
  have l: "length ?out = min len bytes" using Cons.prems assms(1) by (simp add: file_data_length chunk_ok_def)
  have r: "file_read (reading_at f off) st (min len bytes) = (Inr ?out, reading_at f (off + min len bytes), st)"
    using reading_at_read [OF assms(1,2), of off "min len bytes"] Cons.prems by (simp add: min.commute)
  have o: "?out = take len (drop off (file_data f st))"
    using Cons.prems assms(1) by (auto simp: file_data_length chunk_ok_def min_def)
  let ?off = "off + min len bytes" and ?bytes = "bytes - min len bytes"
  have sub: "size_sub bytes (length ?out) = ?bytes" unfolding l by (simp add: size_sub_def)
  have "infile_reads lens ?bytes (reading_at f ?off) st =
      (Inr (take (sum_list lens) (drop ?off (file_data f st)), ?bytes - sum_list lens), reading_at f (?off + min (sum_list lens) ?bytes), st)"
    by (rule Cons.IH) (use Cons.prems in auto)
  then have "infile_reads (len # lens) bytes (reading_at f off) st =
      (Inr (?out @ take (sum_list lens) (drop ?off (file_data f st)), ?bytes - sum_list lens), reading_at f (?off + min (sum_list lens) ?bytes), st)"
    unfolding infile_reads.simps r prod.case sum.case sub by simp
  moreover have "take (sum_list lens) (drop ?off (file_data f st)) = take (sum_list lens) (drop len (drop off (file_data f st)))"
    using Cons.prems assms(1) by (auto simp: file_data_length chunk_ok_def min_def add.commute)
  then have "?out @ take (sum_list lens) (drop ?off (file_data f st)) = take (sum_list (len # lens)) (drop off (file_data f st))"
    unfolding o by (simp add: take_add)
  moreover have "?bytes - sum_list lens = bytes - sum_list (len # lens)" "?off + min (sum_list lens) ?bytes = off + min (sum_list (len # lens)) bytes"
    by auto
  ultimately show ?case by simp
qed simp

definition last_total :: "nat list list \<Rightarrow> nat" where
  "last_total attempts = (if attempts = [] then 0 else sum_list (last attempts))"

fun retries_allowed :: "nat \<times> nat \<Rightarrow> nat \<Rightarrow> bool" where
  "retries_allowed pause 0 \<longleftrightarrow> True"
| "retries_allowed pause (Suc n) \<longleftrightarrow> (case retry_pause pause of None \<Rightarrow> False | Some pause' \<Rightarrow> retries_allowed pause' n)"

text \<open>The statement is tried again eight times: after 0.2 seconds, each time twice as long, and after 30 seconds in all.\<close>

lemma retries_allowed_iff: "retries_allowed (200, 0) n \<longleftrightarrow> n \<le> 8"
proof -
  have next_pause: "retries_allowed p n \<longleftrightarrow> n \<le> Suc k" if "retry_pause p = Some q" "\<And>n. retries_allowed q n \<longleftrightarrow> n \<le> k" for p q k n
    using that by (cases n) auto
  have "retries_allowed (9200, 30000) n \<longleftrightarrow> n \<le> 0" for n by (cases n) (simp_all add: retry_pause_def)
  then have "retries_allowed (25600, 25400) n \<longleftrightarrow> n \<le> Suc 0" for n by (rule next_pause [rotated]) (simp add: retry_pause_def)
  then have "retries_allowed (12800, 12600) n \<longleftrightarrow> n \<le> Suc (Suc 0)" for n by (rule next_pause [rotated]) (simp add: retry_pause_def)
  then have "retries_allowed (6400, 6200) n \<longleftrightarrow> n \<le> Suc (Suc (Suc 0))" for n by (rule next_pause [rotated]) (simp add: retry_pause_def)
  then have "retries_allowed (3200, 3000) n \<longleftrightarrow> n \<le> Suc (Suc (Suc (Suc 0)))" for n by (rule next_pause [rotated]) (simp add: retry_pause_def)
  then have "retries_allowed (1600, 1400) n \<longleftrightarrow> n \<le> Suc (Suc (Suc (Suc (Suc 0))))" for n by (rule next_pause [rotated]) (simp add: retry_pause_def)
  then have "retries_allowed (800, 600) n \<longleftrightarrow> n \<le> Suc (Suc (Suc (Suc (Suc (Suc 0)))))" for n by (rule next_pause [rotated]) (simp add: retry_pause_def)
  then have "retries_allowed (400, 200) n \<longleftrightarrow> n \<le> Suc (Suc (Suc (Suc (Suc (Suc (Suc 0))))))" for n by (rule next_pause [rotated]) (simp add: retry_pause_def)
  then have "retries_allowed (200, 0) n \<longleftrightarrow> n \<le> Suc (Suc (Suc (Suc (Suc (Suc (Suc (Suc 0)))))))" by (rule next_pause [rotated]) (simp add: retry_pause_def)
  then show ?thesis by (simp add: eval_nat_numeral)
qed

lemma load_attempts_ok:
  assumes "chunk_ok bs f" "blocks_ok heap f st" "off + bytes = f_size f"
  shows "retries_allowed pause (length attempts - 1) \<Longrightarrow> load_attempts message pause attempts off bytes (reading_at f off) st =
      (Inr (take (last_total attempts) (drop off (file_data f st)), bytes - last_total attempts),
       reading_at f (off + min (last_total attempts) bytes), st)"
    and "\<not> retries_allowed pause (length attempts - 1) \<Longrightarrow>
      fst (load_attempts message pause attempts off bytes (reading_at f off) st) = Inl (Runtime_error message)"
proof (induction attempts arbitrary: pause)
  case (Cons lens retries)
  have le: "off \<le> f_size f" using assms(3) by simp
  note r = infile_reads_ok [OF assms, of lens] seek_reading_at [OF assms(1) le]
  {
    case 1
    then show ?case using Cons(1) r by (cases retries) (auto simp: last_total_def split: option.splits)
  next
    case 2
    then show ?case using Cons(2) r by (cases retries) (auto split: option.splits)
  }
qed (simp_all add: last_total_def)

lemma load_chunk_prefix:
  assumes "chunk_ok bs f" "blocks_ok heap f st" "ii_file c = f" "ii_range c = (first, f_size f)" "first \<le> f_size f"
  shows "length attempts \<le> 9 \<Longrightarrow> load_chunk message attempts c st =
      (Inr (take (last_total attempts) (drop first (file_data f st)), f_size f - first - last_total attempts),
       reading_at f (first + min (last_total attempts) (f_size f - first)), st)"
    and "9 < length attempts \<Longrightarrow> fst (load_chunk message attempts c st) = Inl (Runtime_error message)"
proof -
  have e: "first + (f_size f - first) = f_size f" using assms(5) by simp
  have "file_tell (reading_at f first) = Inr first" by (simp add: file_tell_def reading_at_def)
  then have l: "load_chunk message attempts c st = load_attempts message (200, 0) attempts first (f_size f - first) (reading_at f first) st"
    using open_range_ok [OF assms(1,5)] assms(3-5) by (simp add: load_chunk_def size_sub_def)
  note a = load_attempts_ok [OF assms(1,2) e, of "(200, 0)" attempts, unfolded retries_allowed_iff]
  show "length attempts \<le> 9 \<Longrightarrow> load_chunk message attempts c st =
      (Inr (take (last_total attempts) (drop first (file_data f st)), f_size f - first - last_total attempts),
       reading_at f (first + min (last_total attempts) (f_size f - first)), st)"
    "9 < length attempts \<Longrightarrow> fst (load_chunk message attempts c st) = Inl (Runtime_error message)"
    using a unfolding l by simp_all
qed

lemma load_chunk_ok:
  assumes "chunk_ok bs f" "blocks_ok heap f st" "ii_file c = f" "ii_range c = (first, f_size f)" "first \<le> f_size f"
    and load: "load_chunk message attempts c st = (Inr (sent, remaining), f1, st1)"
    and fin: "infile_reads [1] remaining f1 st1 = (Inr ([], remaining), f1, st1)"
  shows "sent = drop first (file_data f st)" "st1 = st" "f_blocks f1 = f_blocks f"
proof -
  let ?k = "last_total attempts"
  have r: "sent = take ?k (drop first (file_data f st))" "remaining = f_size f - first - ?k"
      "f1 = reading_at f (first + min ?k (f_size f - first))" "st1 = st"
    using load load_chunk_prefix [OF assms(1-5), where attempts = attempts and message = message] by (cases "length attempts \<le> 9"; auto)+
  have n: "length (file_data f st) = f_size f" using assms(1) by (simp add: file_data_length chunk_ok_def)
  have "f_size f - first \<le> ?k"
  proof (rule ccontr)
    assume "\<not> f_size f - first \<le> ?k"
    then have "infile_reads [1] remaining f1 st1 = (Inr (take 1 (drop (first + ?k) (file_data f st)), remaining - 1), reading_at f (first + ?k + 1), st)"
      using infile_reads_ok [OF assms(1,2), of "first + ?k" remaining "[1]"] r by (simp add: min_def)
    then show False using fin n \<open>\<not> f_size f - first \<le> ?k\<close> by auto
  qed
  then show "sent = drop first (file_data f st)" using r(1) n by simp
  show "st1 = st" "f_blocks f1 = f_blocks f" using r by (simp_all add: reading_at_def)
qed

end
