(* ===== verification/Import_Turns.thy ===== *)
theory Import_Turns
  imports Import_Memory
begin

text \<open>
  The invariant of the import and a turn of its loop. \<open>import_progress\<close> says, for each place where the main thread waits, which part of the file
  the queued chunks, the current chunk and the block at hand have; \<open>holding\<close> that their blocks are allocated and
  nobody else's. \<open>take_block_ok\<close> is the turn that follows the extraction of a block.
\<close>

section \<open>Invariant\<close>

text \<open>The texts are consecutive parts of the file, the first one at \<open>p\<close> and the last one up to \<open>e\<close>, and each starts with a row.\<close>

fun tiled :: "string \<Rightarrow> nat list \<Rightarrow> nat \<Rightarrow> string list \<Rightarrow> nat \<Rightarrow> bool" where
  "tiled content rows p [] e \<longleftrightarrow> p = e"
| "tiled content rows p (t # ts) e \<longleftrightarrow> p \<in> set rows \<and> p + length t \<le> length content \<and> substr content p (length t) = t \<and>
     tiled content rows (p + length t) ts e"

lemma tiled_append: "tiled content rows p (ts @ us) e \<longleftrightarrow> (\<exists>q. tiled content rows p ts q \<and> tiled content rows q us e)"
  by (induction ts arbitrary: p) auto

lemma tiled_concat:
  assumes "tiled content rows p ts e" "p \<le> length content"
  shows "p \<le> e \<and> e \<le> length content \<and> concat ts = substr content p (e - p)"
  using assms
proof (induction ts arbitrary: p)
  case (Cons t ts)
  have ih: "p + length t \<le> e \<and> e \<le> length content \<and> concat ts = substr content (p + length t) (e - (p + length t))"
    using Cons.IH [of "p + length t"] Cons.prems(1) by auto
  have "substr content p (e - p) = substr content p (length t) @ substr content (p + length t) (e - (p + length t))"
    using ih take_add [of "length t" "e - (p + length t)" "drop p content"] by (simp add: add.commute)
  moreover have "substr content p (length t) = t" using Cons.prems(1) by simp
  ultimately show ?case using ih by simp
qed simp

fun chunk_text :: "store \<Rightarrow> import_info \<times> string option \<Rightarrow> string" where
  "chunk_text st (c, None) = drop (fst (ii_range c)) (file_data (ii_file c) st)"
| "chunk_text st (c, Some sent) = sent"

definition queue_texts :: "store \<Rightarrow> import_state \<Rightarrow> string list" where
  "queue_texts st im = map (chunk_text st) (im_queue im)"

lemma queue_texts_parts [simp]:
  "queue_texts st (im\<lparr>im_phase := a\<rparr>) = queue_texts st im" "queue_texts st (im\<lparr>im_scanner := sc\<rparr>) = queue_texts st im"
  "queue_texts st (im\<lparr>im_chunk := c\<rparr>) = queue_texts st im" "queue_texts st (im\<lparr>im_first := n\<rparr>) = queue_texts st im"
  "queue_texts st (im\<lparr>im_extracted := n\<rparr>) = queue_texts st im" "queue_texts st (im\<lparr>im_total := n\<rparr>) = queue_texts st im"
  by (simp_all add: queue_texts_def)

fun queued_ok :: "nat \<Rightarrow> import_info \<times> string option \<Rightarrow> bool" where
  "queued_ok bs (c, None) \<longleftrightarrow> chunk_ok bs (ii_file c) \<and> f_capacity (ii_file c) < 2 ^ 64 \<and>
     snd (ii_range c) = f_size (ii_file c) \<and> fst (ii_range c) \<le> f_size (ii_file c)"
| "queued_ok bs (c, Some sent) \<longleftrightarrow> True"

text \<open>There is a chunk, and its bytes from the first row on end at \<open>p\<close>.\<close>

definition chunk_at :: "string \<Rightarrow> nat list \<Rightarrow> nat \<Rightarrow> import_state \<Rightarrow> store \<Rightarrow> alloc_file \<Rightarrow> nat \<Rightarrow> bool" where
  "chunk_at content rows bs im st f p \<longleftrightarrow>
     im_chunk im = Some f \<and> chunk_ok bs f \<and> im_first im < f_size f \<and> im_first im < bs \<and>
     tiled content rows (hd rows) (queue_texts st im @ [drop (im_first im) (file_data f st)]) p"

fun phase_ok :: "dialect \<Rightarrow> string \<Rightarrow> nat list \<Rightarrow> import_config \<Rightarrow> nat \<Rightarrow> nat \<Rightarrow> import_state \<Rightarrow> store \<Rightarrow> import_phase \<Rightarrow> bool" where
  "phase_ok d content rows cfg bs n im st Scanning \<longleftrightarrow> scanned d content rows (im_scanner im) n \<and> im_total im = n \<and>
     (im_chunk im = None \<and> im_queue im = [] \<and> (\<forall>x \<in> set rows. n \<le> x) \<or>
      (\<exists>f. chunk_at content rows bs im st f n \<and> (n < length content \<longrightarrow> f_accepts_append f)))"
| "phase_ok d content rows cfg bs n im st (Pausing b off) \<longleftrightarrow> scanned d content rows (im_scanner im) n \<and> im_total im = n \<and>
     (\<exists>f p. chunk_at content rows bs im st f p \<and> p \<in> set rows \<and> off < db_size b \<and> db_size b \<le> bs \<and> n = p + (db_size b - off) \<and>
        drop off (block_bytes st b) = substr content p (n - p) \<and> (n < length content \<longrightarrow> db_size b = bs) \<and>
        ic_bytes_per_chunk cfg \<le> length (drop (im_first im) (file_data f st)))"
| "phase_ok d content rows cfg bs n im st Pausing_last \<longleftrightarrow> im_total im = length content \<and>
     (\<exists>f. chunk_at content rows bs im st f (length content))"
| "phase_ok d content rows cfg bs n im st Complete \<longleftrightarrow> im_total im = length content \<and> im_chunk im = None \<and>
     (if rows = [] then im_queue im = [] else tiled content rows (hd rows) (queue_texts st im) (length content))"
| "phase_ok d content rows cfg bs n im st _ \<longleftrightarrow> im_chunk im = None \<and>
     (im_queue im = [] \<or> (\<exists>e. tiled content rows (hd rows) (queue_texts st im) e))"

definition import_progress :: "dialect \<Rightarrow> string \<Rightarrow> nat list \<Rightarrow> import_config \<Rightarrow> nat \<Rightarrow> nat \<Rightarrow> import_state \<Rightarrow> store \<Rightarrow> bool" where
  "import_progress d content rows cfg bs n im st \<longleftrightarrow>
     phase_ok d content rows cfg bs n im st (im_phase im) \<and> (\<forall>x \<in> set (im_queue im). queued_ok bs x) \<and>
     (\<forall>t \<in> set (if im_phase im = Complete then butlast (queue_texts st im) else queue_texts st im). ic_bytes_per_chunk cfg \<le> length t)"

text \<open>All of this depends on the memory of the import's own blocks only.\<close>

lemma chunk_text_same:
  assumes "queued_ok bs x" "\<And>a. a \<in> set (if snd x = None then f_blocks (ii_file (fst x)) else []) \<Longrightarrow> same_block bs st st' a"
  shows "chunk_text st' x = chunk_text st x"
proof (cases x)
  case (Pair c sent)
  then show ?thesis using assms file_data_same [of bs "ii_file c" st st'] by (cases sent) auto
qed

lemma queue_texts_same:
  assumes "\<forall>x \<in> set (im_queue im). queued_ok bs x" "\<And>a. a \<in> set (import_blocks im) \<Longrightarrow> same_block bs st st' a"
  shows "queue_texts st' im = queue_texts st im"
proof -
  have "chunk_text st' x = chunk_text st x" if "x \<in> set (im_queue im)" for x
  proof (rule chunk_text_same)
    show "queued_ok bs x" using assms(1) that by blast
    fix a assume "a \<in> set (if snd x = None then f_blocks (ii_file (fst x)) else [])"
    then have "a \<in> set (concat (map (\<lambda>(c, sent). if sent = None then f_blocks (ii_file c) else []) (im_queue im)))"
      using that by (cases x) fastforce
    then have "a \<in> set (import_blocks im)" unfolding import_blocks_def by simp
    then show "same_block bs st st' a" by (rule assms(2))
  qed
  then show ?thesis by (simp add: queue_texts_def)
qed

lemma import_progress_same:
  assumes "import_progress d content rows cfg bs n im st" "\<And>a. a \<in> set (import_blocks im) \<Longrightarrow> same_block bs st st' a"
  shows "import_progress d content rows cfg bs n im st'"
proof -
  have q: "queue_texts st' im = queue_texts st im"
    using assms(1) by (intro queue_texts_same [OF _ assms(2)]) (auto simp: import_progress_def)
  have f: "file_data f st' = file_data f st" if "chunk_ok bs f" "im_chunk im = Some f" for f
    using that assms(2) by (intro file_data_same) (auto simp: import_blocks_def)
  have c: "chunk_at content rows bs im st' f p = chunk_at content rows bs im st f p" for f p
    using q f [of f] by (auto simp: chunk_at_def)
  have b: "block_bytes st' b = block_bytes st b" if "im_phase im = Pausing b off" "db_size b \<le> bs" for b off
    unfolding block_bytes_def by (rule same_block_bytes [OF assms(2) that(2)]) (simp add: import_blocks_def that(1))
  have "phase_ok d content rows cfg bs n im st' (im_phase im)"
  proof (cases "im_phase im")
    case (Pausing b off)
    then obtain p g where "chunk_at content rows bs im st g p \<and> p \<in> set rows \<and> off < db_size b \<and> db_size b \<le> bs \<and> n = p + (db_size b - off) \<and>
        drop off (block_bytes st b) = substr content p (n - p) \<and> (n < length content \<longrightarrow> db_size b = bs) \<and>
        ic_bytes_per_chunk cfg \<le> length (drop (im_first im) (file_data g st))"
      using assms(1) by (auto simp: import_progress_def)
    moreover then have "file_data g st' = file_data g st" by (intro f) (auto simp: chunk_at_def)
    moreover have "scanned d content rows (im_scanner im) n" "im_total im = n" using assms(1) Pausing by (auto simp: import_progress_def)
    ultimately show ?thesis unfolding Pausing phase_ok.simps using c b [OF Pausing] by metis
  qed (use assms(1) c q in \<open>auto simp: import_progress_def\<close>)
  then show ?thesis using assms(1) q by (simp add: import_progress_def)
qed

section \<open>Memory\<close>

text \<open>The blocks of the import are allocated, different from each other and from the blocks \<open>others\<close>.\<close>

definition holding :: "heap \<Rightarrow> nat set \<Rightarrow> nat \<Rightarrow> store \<Rightarrow> nat list \<Rightarrow> bool" where
  "holding heap others bs st blocks \<longleftrightarrow>
     pool_state heap (pool st) \<and> m_block_size (pool st) = bs \<and> 0 < bs \<and> 2 * bs \<le> 2 ^ 64 \<and> others \<subseteq> used_blocks (pool st) \<and>
     distinct blocks \<and> set blocks \<subseteq> used_blocks (pool st) \<and> set blocks \<inter> others = {}"

definition moved :: "heap \<Rightarrow> nat set \<Rightarrow> nat \<Rightarrow> store \<Rightarrow> import_state \<Rightarrow> store \<Rightarrow> bool" where
  "moved heap others bs st im' st' \<longleftrightarrow> holding heap others bs st' (import_blocks im') \<and> (\<forall>a \<in> others. same_block bs st st' a)"

lemma same_block_refl [simp]: "same_block bs st st a"
  by (simp add: same_block_def)

lemma holding_perm: "holding heap others bs st bl \<Longrightarrow> mset bl' = mset bl \<Longrightarrow> holding heap others bs st bl'"
  unfolding holding_def by (metis mset_eq_imp_distinct_iff mset_eq_setD)

lemma moved_perm: "holding heap others bs st bl \<Longrightarrow> mset (import_blocks im') = mset bl \<Longrightarrow> moved heap others bs st im' st"
  unfolding moved_def by (simp add: holding_perm)

lemma grown_holding:
  assumes "holding heap others bs st bl" "grown heap st m st'"
  shows "holding heap others bs st' (m # bl)" "\<forall>a \<in> others. same_block bs st st' a" "a \<in> set bl \<Longrightarrow> same_block bs st st' a"
  using assms by (auto simp: holding_def grown_def)

lemma free_block_holding:
  assumes "holding heap others bs st (b # bl)"
  obtains a where "free_block b (pool st) = Inr a" "holding heap others bs (st\<lparr>pool := a\<rparr>) bl"
proof -
  have h: "pool_state heap (pool st)" "b \<in> used_blocks (pool st)" using assms by (auto simp: holding_def)
  obtain a where a: "free_block b (pool st) = Inr a" "alloc_ok a" "used_blocks a = used_blocks (pool st) - {b}" "same_config a (pool st)"
    by (rule free_block_ok [of "pool st" b]) (use h in \<open>auto simp: pool_state_def\<close>)
  have "holding heap others bs (st\<lparr>pool := a\<rparr>) bl" using assms a by (auto simp: holding_def pool_state_def)
  then show thesis using that a(1) by blast
qed

lemma drop_block_holding:
  assumes "holding heap others bs st (db_memory b # bl)"
  obtains st' where "drop_block b st = Inr st'" "holding heap others bs st' bl" "mem st' = mem st"
proof (cases "db_memory b = 0")
  case True
  then show thesis using that [of st] assms by (auto simp: drop_block_def holding_def)
next
  case False
  obtain a where "free_block (db_memory b) (pool st) = Inr a" "holding heap others bs (st\<lparr>pool := a\<rparr>) bl"
    by (rule free_block_holding [OF assms])
  then show thesis using that [of "st\<lparr>pool := a\<rparr>"] False by (simp add: drop_block_def)
qed

lemma delete_file_holding:
  assumes "holding heap others bs st (f_blocks f @ bl)"
  shows "\<exists>a. delete_file f st = Inr (st\<lparr>pool := a\<rparr>) \<and> holding heap others bs (st\<lparr>pool := a\<rparr>) bl"
proof -
  have "\<exists>a. rfold free_block bl1 (pool st) = Inr a \<and> holding heap others bs (st\<lparr>pool := a\<rparr>) bl"
    if "holding heap others bs st (bl1 @ bl)" for bl1 st
    using that
  proof (induction bl1 arbitrary: st)
    case (Cons b bl1)
    obtain a where a: "free_block b (pool st) = Inr a" "holding heap others bs (st\<lparr>pool := a\<rparr>) (bl1 @ bl)"
      by (rule free_block_holding) (use Cons.prems in simp)
    then show ?case using Cons.IH [OF a(2)] by simp
  qed simp
  then show ?thesis using assms by (fastforce simp: delete_file_def free_blocks_def)
qed

lemma import_blocks_mset:
  "mset (import_blocks im) = (case im_chunk im of None \<Rightarrow> {#} | Some f \<Rightarrow> mset (f_blocks f)) +
     (case im_phase im of Pausing b _ \<Rightarrow> {#db_memory b#} | _ \<Rightarrow> {#}) +
     mset (concat (map (\<lambda>(c, sent). if sent = None then f_blocks (ii_file c) else []) (im_queue im)))"
  by (auto simp: import_blocks_def split: option.splits import_phase.splits)

section \<open>Texts\<close>

lemma tiled_extend:
  assumes "tiled content rows p (ts @ [t]) n" "bytes = substr content n k" "n \<le> length content"
  shows "tiled content rows p (ts @ [t @ bytes]) (n + length bytes)"
proof -
  obtain q where q: "tiled content rows p ts q" "q \<in> set rows" "q + length t \<le> length content" "substr content q (length t) = t" "n = q + length t"
    using assms(1) by (auto simp: tiled_append)
  have "substr content q (length t + length bytes) = t @ substr content n (length bytes)"
    using q(4,5) take_add [of "length t" "length bytes" "drop q content"] by (simp add: add.commute)
  moreover have "substr content n (length bytes) = bytes" using assms(2) by (simp add: min_def)
  moreover have "n + length bytes \<le> length content" using assms(2,3) by simp
  ultimately show ?thesis using q by (auto simp: tiled_append add.assoc)
qed

lemma tiled_start: "p \<in> set rows \<Longrightarrow> p \<le> length content \<Longrightarrow> t = substr content p k \<Longrightarrow> tiled content rows p [t] (p + length t)"
  by (auto simp: min_def)

lemma chunk_at_length:
  assumes "chunk_at content rows bs im st f p" "hd rows \<le> length content"
  shows "length (drop (im_first im) (file_data f st)) = f_size f - im_first im" "f_size f - im_first im \<le> p" "p \<le> length content"
    "hd rows \<le> p"
proof -
  let ?t = "drop (im_first im) (file_data f st)"
  have c: "chunk_ok bs f" "tiled content rows (hd rows) (queue_texts st im @ [?t]) p" using assms(1) by (auto simp: chunk_at_def)
  show l: "length ?t = f_size f - im_first im" using c(1) by (simp add: file_data_length chunk_ok_def)
  obtain q where "tiled content rows q [?t] p" using c(2) by (auto simp: tiled_append)
  then have "q + length ?t = p" "p \<le> length content" by auto
  then show "f_size f - im_first im \<le> p" "p \<le> length content" using l by linarith+
  show "hd rows \<le> p" using tiled_concat [OF c(2) assms(2)] by simp
qed

section \<open>A turn\<close>

text \<open>A block that is appended to the chunk.\<close>

lemma keep_block_ok:
  assumes f: "chunk_ok bs f" "f_accepts_append f" and b: "0 < db_size b" "db_size b \<le> bs" and im: "im_chunk im = Some f"
  shows "keep_block b im st = (Inr (im\<lparr>im_chunk := Some (appended f b), im_phase := Scanning\<rparr>), st)"
  using chunk_append(1) [OF f b] im by (simp add: keep_block_def)

lemma append_at:
  assumes at: "chunk_at content rows bs im st f n" and acc: "f_accepts_append f" and b: "0 < db_size b" "db_size b \<le> bs"
    and bytes: "block_bytes st b = substr content n k" and n: "n \<le> length content"
    and im': "im_chunk im' = Some (appended f b)" "im_first im' = im_first im" "im_queue im' = im_queue im"
  shows "chunk_at content rows bs im' st (appended f b) (n + db_size b)"
proof -
  have f: "chunk_ok bs f" "im_first im < f_size f" "im_first im < bs"
    "tiled content rows (hd rows) (queue_texts st im @ [drop (im_first im) (file_data f st)]) n"
    using at by (auto simp: chunk_at_def)
  have "im_first im \<le> length (file_data f st)" using f(1,2) by (simp add: file_data_length chunk_ok_def)
  then have "drop (im_first im) (file_data (appended f b) st) = drop (im_first im) (file_data f st) @ block_bytes st b"
    using chunk_append(3) [OF f(1) acc b] by simp
  moreover have "queue_texts st im' = queue_texts st im" using im'(3) by (simp add: queue_texts_def)
  ultimately show ?thesis
    using tiled_extend [OF f(4) bytes n] chunk_append(2) [OF f(1) acc b] f(2,3) im' by (simp add: chunk_at_def)
qed

lemma begin_at:
  assumes bs: "m_block_size (pool st) = bs" "0 < bs" and b: "off < db_size b" "db_size b \<le> bs"
    and bytes: "drop off (block_bytes st b) = substr content p k" and p: "p \<in> set rows" "p \<le> length content"
    and q: "tiled content rows (hd rows) (queue_texts st im) p"
  shows "begin_chunk cfg off b im st =
      (Inr (im\<lparr>im_chunk := Some (appended (make_chunk cfg st) b), im_first := off, im_phase := Scanning\<rparr>), st)"
    "chunk_at content rows bs (im\<lparr>im_chunk := Some (appended (make_chunk cfg st) b), im_first := off, im_phase := Scanning\<rparr>) st
      (appended (make_chunk cfg st) b) (p + (db_size b - off))"
proof -
  let ?c = "make_chunk cfg st"
  have b0: "0 < db_size b" using b by simp
  note c = make_chunk_ok [of st cfg, unfolded bs(1), OF bs(2)]
  show "begin_chunk cfg off b im st = (Inr (im\<lparr>im_chunk := Some (appended ?c b), im_first := off, im_phase := Scanning\<rparr>), st)"
    using keep_block_ok [OF c(1,4) b0 b(2), of "im\<lparr>im_chunk := Some ?c, im_first := off\<rparr>" st] by (simp add: begin_chunk_def)
  have "drop off (file_data (appended ?c b) st) = substr content p k"
    using chunk_append(3) [OF c(1,4) b0 b(2)] c(5) bytes by simp
  moreover have "length (substr content p k) = db_size b - off" using bytes by (metis block_bytes_length length_drop)
  ultimately have "tiled content rows p [drop off (file_data (appended ?c b) st)] (p + (db_size b - off))"
    using tiled_start [OF p, of "drop off (file_data (appended ?c b) st)" k] by metis
  then show "chunk_at content rows bs (im\<lparr>im_chunk := Some (appended ?c b), im_first := off, im_phase := Scanning\<rparr>) st (appended ?c b) (p + (db_size b - off))"
    using q chunk_append(2) [OF c(1,4) b0 b(2)] b c(3)
    by (auto simp: chunk_at_def tiled_append queue_texts_def)
qed

section \<open>Taking a block\<close>

lemma take_append:
  assumes prog: "import_progress d content rows cfg bs n im st" "im_phase im = Scanning" and n: "n \<le> length content"
    and hold: "holding heap others bs st (db_memory b # import_blocks im)"
    and b: "block_bytes st b = substr content n bs" "0 < db_size b" "db_size b \<le> bs" "n + db_size b < length content \<longrightarrow> db_size b = bs"
    and f: "chunk_at content rows bs im st f n" "f_accepts_append f"
    and im1: "im1 = im\<lparr>im_scanner := sc', im_extracted := k, im_total := n + db_size b\<rparr>" "scanned d content rows sc' (n + db_size b)"
  shows "\<exists>im'. keep_block b im1 st = (Inr im', st) \<and> import_progress d content rows cfg bs (n + db_size b) im' st \<and> moved heap others bs st im' st"
proof -
  have ok: "chunk_ok bs f" "im_chunk im = Some f" using f(1) by (auto simp: chunk_at_def)
  let ?im = "im1\<lparr>im_chunk := Some (appended f b), im_phase := Scanning\<rparr>"
  have "keep_block b im1 st = (Inr ?im, st)" using keep_block_ok [OF ok(1) f(2) b(2,3)] ok(2) im1(1) by simp
  moreover have "chunk_at content rows bs ?im st (appended f b) (n + db_size b)"
    using append_at [OF f b(2,3,1) n] by (simp add: im1(1))
  then have "import_progress d content rows cfg bs (n + db_size b) ?im st"
    using prog b(4) im1 ok by (auto simp: import_progress_def queue_texts_def chunk_ok_def)
  moreover have "moved heap others bs st ?im st"
    by (rule moved_perm [OF hold]) (simp add: import_blocks_mset im1(1) ok(2) prog(2))
  ultimately show ?thesis by blast
qed

lemma take_pause:
  assumes al: "aligned d" and prog: "import_progress d content rows cfg bs n im st" "im_phase im = Scanning" and n: "n + off < length content"
    and hold: "holding heap others bs st (db_memory b # import_blocks im)"
    and b: "block_bytes st b = substr content n bs" "off < db_size b" "db_size b \<le> bs" "n + db_size b < length content \<longrightarrow> db_size b = bs"
    and f: "chunk_at content rows bs im st f n" "f_accepts_append f" "n + off \<in> set rows" "ic_bytes_per_chunk cfg \<le> f_size f - im_first im + off"
    and im1: "im1 = im\<lparr>im_scanner := sc', im_extracted := k, im_total := n + db_size b\<rparr>" "scanned d content rows sc' (n + db_size b)"
    and r: "r = (if 0 < off
      then (case split_block heap off b f st of
              (Inl e, st') \<Rightarrow> (Inl e, st')
            | (Inr (chunk', block'), st') \<Rightarrow> (Inr (im1\<lparr>im_chunk := Some chunk', im_phase := Pausing block' off\<rparr>), st'))
      else (Inr (im1\<lparr>im_phase := Pausing b 0\<rparr>), st))"
  shows "case r of
      (Inl e, st') \<Rightarrow> e = Bad_alloc \<and> holding heap others bs st' (import_blocks im) \<and>
        (\<forall>a \<in> others \<union> set (import_blocks im). same_block bs st st' a)
    | (Inr im', st') \<Rightarrow> import_progress d content rows cfg bs (n + db_size b) im' st' \<and> moved heap others bs st im' st'"
proof -
  have ok: "chunk_ok bs f" "im_chunk im = Some f" "im_first im < f_size f" "im_first im < bs"
    "tiled content rows (hd rows) (queue_texts st im @ [drop (im_first im) (file_data f st)]) n"
    using f(1) by (auto simp: chunk_at_def)
  have queue: "\<forall>x \<in> set (im_queue im). queued_ok bs x" "\<forall>t \<in> set (queue_texts st im). ic_bytes_per_chunk cfg \<le> length t"
    using prog by (auto simp: import_progress_def)
  have size: "length (file_data f st) = f_size f" using ok(1) by (simp add: file_data_length chunk_ok_def)
  have rest: "drop off (substr content n bs) = substr content (n + off) (n + db_size b - (n + off))" (is "?l = ?r")
  proof -
    have "db_size b = length (substr content n bs)" using b(1) by (metis block_bytes_length)
    then show ?thesis by (simp add: drop_take add.commute min_def)
  qed
  show ?thesis
  proof (cases "0 < off")
    case False
    let ?im = "im1\<lparr>im_phase := Pausing b 0\<rparr>"
    have "chunk_at content rows bs ?im st f n" using f(1) by (simp add: chunk_at_def im1(1) queue_texts_def)
    then have "import_progress d content rows cfg bs (n + db_size b) ?im st"
      using queue b f(3,4) im1 rest False size
      by (auto simp: import_progress_def queue_texts_def intro!: exI [of _ f] exI [of _ n])
    moreover have "moved heap others bs st ?im st"
      by (rule moved_perm [OF hold]) (simp add: import_blocks_mset im1(1) ok(2) prog(2))
    ultimately show ?thesis using False r by simp
  next
    case True
    have h: "pool_state heap (pool st)" "2 * m_block_size (pool st) \<le> 2 ^ 64" "bs = m_block_size (pool st)" "db_memory b \<in> used_blocks (pool st)"
      using hold by (auto simp: holding_def)
    note s = split_block_ok [OF h(1-3) ok(1) f(2) True b(2,3) h(4)]
    show ?thesis
    proof (cases "split_block heap off b f st")
      case (Pair res st')
      show ?thesis
      proof (cases res)
        case (Inl e)
        then show ?thesis using s Pair r True hold by (auto simp: holding_def same_block_def)
      next
        case (Inr fb)
        obtain f' b' where fb: "fb = (f', b')" by (cases fb)
        obtain m c where p: "grown heap st m st'" "chunk_ok bs f'" "{c, db_memory b'} = {db_memory b, m}" "c \<noteq> db_memory b'"
            "f_blocks f' = f_blocks f @ [c]" "f_size f' = f_size f + off" "db_size b' = db_size b"
            "file_data f' st' = file_data f st' @ take off (block_bytes st b)" "drop off (block_bytes st' b') = drop off (block_bytes st b)"
          using s Pair Inr fb by auto
        let ?im = "im1\<lparr>im_chunk := Some f', im_phase := Pausing b' off\<rparr>"
        note g = grown_holding [OF hold p(1)]
        have own: "same_block bs st st' a" if "a \<in> set (import_blocks im)" for a using g(3) that by simp
        have fd: "file_data f st' = file_data f st"
          by (rule file_data_same [OF ok(1) own]) (simp add: import_blocks_def ok(2))
        have qt: "queue_texts st' im = queue_texts st im" by (rule queue_texts_same [OF queue(1) own])
        have text': "drop (im_first im) (file_data f' st') = drop (im_first im) (file_data f st) @ substr content n off"
          using p(8) fd ok(3) size b by (simp add: min_def)
        have l: "length (substr content n off) = off" using n by simp
        have "chunk_at content rows bs ?im st' f' (n + off)"
          using tiled_extend [OF ok(5), of "substr content n off" off] l n p(2,6) ok(3,4) qt text'
          by (simp add: chunk_at_def im1(1))
        moreover have "drop off (block_bytes st' b') = ?r" using p(9) b(1) rest by simp
        moreover have "ic_bytes_per_chunk cfg \<le> length (drop (im_first im) (file_data f' st'))" using text' l f(4) size by simp
        ultimately have "import_progress d content rows cfg bs (n + db_size b) ?im st'"
          using queue qt b f(3) im1 p(7) by (auto simp: import_progress_def intro!: exI [of _ f'] exI [of _ "n + off"])
        moreover have "{#c, db_memory b'#} = {#db_memory b, m#}" using p(3,4) by (auto simp: doubleton_eq_iff add_eq_conv_ex)
        then have "mset (import_blocks ?im) = mset (m # db_memory b # import_blocks im)"
          by (simp add: import_blocks_mset im1(1) ok(2) prog(2) p(5) add_mset_commute)
        then have "moved heap others bs st ?im st'" using holding_perm [OF g(1)] g(2) by (simp add: moved_def)
        ultimately show ?thesis using r True Pair Inr fb by simp
      qed
    qed
  qed
qed

lemma take_block_ok:
  assumes al: "aligned d" and len: "length content < 2 ^ 64" and prog: "import_progress d content rows cfg bs n im st" "im_phase im = Scanning"
    and hold: "holding heap others bs st (db_memory b # import_blocks im)"
    and b: "block_bytes st b = substr content n bs" "db_size b \<noteq> 0"
  shows "case take_block heap cfg b im st of
      (Inl e, st') \<Rightarrow> e = Bad_alloc \<and> holding heap others bs st' (import_blocks im) \<and>
        (\<forall>a \<in> others \<union> set (import_blocks im). same_block bs st st' a)
    | (Inr im', st') \<Rightarrow> import_progress d content rows cfg bs (n + db_size b) im' st' \<and> moved heap others bs st im' st'"
proof -
  have size: "db_size b = min (length content - n) bs" using b(1) by (metis block_bytes_length length_take length_drop)
  then have n: "n < length content" "db_size b \<le> bs" "n + db_size b < length content \<longrightarrow> db_size b = bs" "n + db_size b \<le> length content"
    using b(2) by auto
  have sc: "scanned d content rows (im_scanner im) n" "im_total im = n" using prog by (auto simp: import_progress_def)
  obtain res sc' where s: "scan (block_bytes st b) (im_scanner im) = Inr (res, sc')" "scanned d content rows sc' (n + db_size b)"
      "res < int (db_size b)" "if res < 0 then \<forall>x \<in> set rows. \<not> (n \<le> x \<and> x < n + db_size b)
       else n + nat res \<in> set rows \<and> ((\<forall>x \<in> set rows. n \<le> x) \<longrightarrow> hd rows = n + nat res)"
    using scan_block_ok [OF al sc(1) b(1)] b(2) by (metis block_bytes_length length_0_conv)
  define im1 where "im1 = im\<lparr>im_scanner := sc', im_extracted := im_extracted im + 1, im_total := n + db_size b\<rparr>"
  have h: "m_block_size (pool st) = bs" "0 < bs" using hold by (auto simp: holding_def)
  consider (none) "im_chunk im = None" "im_queue im = []" "\<forall>x \<in> set rows. n \<le> x"
    | (chunk) f where "chunk_at content rows bs im st f n" "f_accepts_append f"
    using prog n(1) by (auto simp: import_progress_def)
  then show ?thesis
  proof cases
    case none
    show ?thesis
    proof (cases "res < 0")
      case True
      obtain st' where d: "drop_block b st = Inr st'" "holding heap others bs st' (import_blocks im)" "mem st' = mem st"
        by (rule drop_block_holding [OF hold])
      let ?im = "im1\<lparr>im_phase := Scanning\<rparr>"
      have "take_block heap cfg b im st = (Inr ?im, st')"
        using s(1) True none d(1) sc(2) by (simp add: take_block_def keep_block_def im1_def)
      moreover have "\<forall>x \<in> set rows. n + db_size b \<le> x" using s(4) True none(3) by (auto simp: not_less)
      then have "import_progress d content rows cfg bs (n + db_size b) ?im st'"
        using none s(2) by (simp add: import_progress_def im1_def queue_texts_def)
      moreover have "moved heap others bs st ?im st'"
        unfolding moved_def using holding_perm [OF d(2), of "import_blocks ?im"] d(3) none prog(2)
        by (simp add: import_blocks_mset im1_def same_block_def)
      ultimately show ?thesis by simp
    next
      case False
      let ?off = "nat res" and ?c = "make_chunk cfg st"
      have hd: "hd rows = n + ?off" "n + ?off \<in> set rows" "?off < db_size b" using s(3,4) False none(3) by auto
      have "drop ?off (block_bytes st b) = substr content (n + ?off) (bs - ?off)" using b(1) by (simp add: drop_take add.commute)
      note bg = begin_at [OF h hd(3) n(2) this hd(2), of im1 cfg]
      have q: "tiled content rows (hd rows) (queue_texts st im1) (n + ?off)" using none(2) hd by (simp add: im1_def queue_texts_def)
      let ?im = "im1\<lparr>im_chunk := Some (appended ?c b), im_first := ?off, im_phase := Scanning\<rparr>"
      have le: "n + ?off \<le> length content" using hd(3) n(4) by simp
      have "take_block heap cfg b im st = (Inr ?im, st)"
        using s(1) False none bg(1) [OF le q] sc(2) by (simp add: take_block_def im1_def)
      moreover have "n + ?off + (db_size b - ?off) = n + db_size b" using hd(3) by simp
      then have "import_progress d content rows cfg bs (n + db_size b) ?im st"
        using bg(2) [OF le q] s(2) n(3) none(2) make_chunk_ok(1) [of st cfg] h
        by (auto simp: import_progress_def queue_texts_def im1_def chunk_ok_def)
      moreover have "moved heap others bs st ?im st"
        by (rule moved_perm [OF hold]) (use none prog(2) make_chunk_ok(2) [of st cfg] h in \<open>simp add: import_blocks_mset im1_def\<close>)
      ultimately show ?thesis by simp
    qed
  next
    case chunk
    have ch: "im_chunk im = Some f" using chunk(1) by (simp add: chunk_at_def)
    have app: "case keep_block b im1 st of
        (Inl e, st') \<Rightarrow> e = Bad_alloc \<and> holding heap others bs st' (import_blocks im) \<and>
          (\<forall>a \<in> others \<union> set (import_blocks im). same_block bs st st' a)
      | (Inr im', st') \<Rightarrow> import_progress d content rows cfg bs (n + db_size b) im' st' \<and> moved heap others bs st im' st'"
      using take_append [OF prog _ hold b(1) _ n(2,3) chunk im1_def s(2)] n(1) b(2) by fastforce
    show ?thesis
    proof (cases "res \<ge> 0 \<and> (size_sub (f_size f) (im_first im) + nat res) mod 2 ^ 64 \<ge> ic_bytes_per_chunk cfg")
      case False
      then have "take_block heap cfg b im st = keep_block b im1 st"
        using s(1) ch sc(2) by (auto simp: take_block_def im1_def Let_def)
      then show ?thesis using app by simp
    next
      case True
      have off: "n + nat res \<in> set rows" "nat res < db_size b" using s(3,4) True by auto
      have "tiled content rows (hd rows) (queue_texts st im @ [drop (im_first im) (file_data f st)]) n" using chunk(1) by (simp add: chunk_at_def)
      then have "f_size f - im_first im \<le> n"
        using chunk(1) by (auto simp: tiled_append file_data_length chunk_at_def chunk_ok_def)
      moreover have "im_first im < f_size f" using chunk(1) by (simp add: chunk_at_def)
      moreover have "f_size f - im_first im + nat res < 2 ^ 64" using off(2) n(4) len calculation(1) by linarith
      ultimately have big: "ic_bytes_per_chunk cfg \<le> f_size f - im_first im + nat res" using True by (simp add: size_sub_def)
      have lt: "n + nat res < length content" using off(2) n(4) by linarith
      have "take_block heap cfg b im st = (if 0 < nat res
          then (case split_block heap (nat res) b f st of
                  (Inl e, st') \<Rightarrow> (Inl e, st')
                | (Inr (chunk', block'), st') \<Rightarrow> (Inr (im1\<lparr>im_chunk := Some chunk', im_phase := Pausing block' (nat res)\<rparr>), st'))
          else (Inr (im1\<lparr>im_phase := Pausing b 0\<rparr>), st))"
        using s(1) ch sc(2) True unfolding im1_def by (auto simp: take_block_def Let_def split: prod.split sum.split)
      from take_pause [OF al prog lt hold b(1) off(2) n(2,3) chunk off(1) big im1_def s(2) this] show ?thesis .
    qed
  qed
qed

end
