(* ===== verification/Import_Steps.thy ===== *)
theory Import_Steps
  imports Import_Turns
begin

text \<open>
  The invariant \<open>import_ok\<close> joins that of the threaded file with the progress of the import. Every step of the main thread keeps it, and so does
  everything that the workers and other users of the memory do (\<open>others_ok\<close>).
\<close>

section \<open>The invariant of the import\<close>

definition import_ok :: "heap \<Rightarrow> dialect \<Rightarrow> string \<Rightarrow> nat list \<Rightarrow> import_config \<Rightarrow> nat \<Rightarrow> import_state \<times> threaded_file \<Rightarrow> bool" where
  "import_ok heap d content rows cfg bs = (\<lambda>(im, s).
     tf_good heap content s \<and> (supplied s \<or> (\<exists>e. im_phase im = Failed e)) \<and> tf_consumed s = 0 \<and> tf_block_size s = bs \<and>
     map fst (tf_held s) = import_blocks im \<and> (\<forall>(a, bytes) \<in> set (tf_held s). length bytes = bs) \<and>
     import_progress d content rows cfg bs (min (tf_pos s) (length content)) im (tf_store s) \<and>
     (\<forall>e. im_phase im = Failed e \<longrightarrow> e = Bad_alloc \<or> tf_has_exception s))"

lemma holding_sub:
  assumes "holding heap others bs st bl" "mset bl' \<subseteq># mset bl"
  shows "holding heap others bs st bl'"
proof -
  obtain ys where "mset bl = mset bl' + mset ys" using assms(2) by (metis ex_mset mset_subset_eq_exists_conv)
  then have "holding heap others bs st (bl' @ ys)" by (intro holding_perm [OF assms(1)]) simp
  then show ?thesis by (auto simp: holding_def)
qed

lemma source_holding:
  assumes "tf_good heap content s"
  shows "holding heap (set (file_blocks s)) (tf_block_size s) (tf_store s) (map fst (tf_held s))"
  using tf_good_memory [OF assms] unfolding holding_def by (metis distinct_append inf_commute set_append sup.bounded_iff)

lemma held_same:
  assumes "tf_good heap content s" "tf_good heap content s'" "set (tf_held s) \<subseteq> set (tf_held s')"
    "\<forall>(a, bytes) \<in> set (tf_held s). length bytes = bs" "a \<in> set (map fst (tf_held s))"
  shows "same_block bs (tf_store s) (tf_store s') a"
proof -
  obtain bytes where b: "(a, bytes) \<in> set (tf_held s)" using assms(5) by auto
  then have "length bytes = bs" "(a, bytes) \<in> set (tf_held s')" using assms(3,4) by auto
  then have "map (mem (tf_store s)) [a ..< a + bs] = map (mem (tf_store s')) [a ..< a + bs]"
    using held_bytes [OF assms(1) b] held_bytes [OF assms(2), of a bytes] by metis
  then show ?thesis by (simp add: same_block_def)
qed

lemma own_blocks_parts [simp]:
  "tf_pos (own_blocks im st s) = tf_pos s" "tf_consumed (own_blocks im st s) = tf_consumed s"
  "supplied (own_blocks im st s) = supplied s" "tf_block_size (own_blocks im st s) = tf_block_size s"
  "tf_store (own_blocks im st s) = st" "tf_has_exception (own_blocks im st s) = tf_has_exception s"
  "map fst (tf_held (own_blocks im st s)) = import_blocks im"
  by (simp_all add: own_blocks_def tf_pos_def first_node_def tf_consumed_def supplied_def comp_def)

lemma own_ok:
  assumes "tf_good heap content s" "supplied s \<or> (\<exists>e. im_phase im = Failed e)" "tf_consumed s = 0" "tf_block_size s = bs"
    "moved heap (set (file_blocks s)) bs (tf_store s) im st" "n = min (tf_pos s) (length content)"
    "import_progress d content rows cfg bs n im st" "\<And>e. im_phase im = Failed e \<Longrightarrow> e = Bad_alloc \<or> tf_has_exception s"
  shows "import_ok heap d content rows cfg bs (im, own_blocks im st s)"
proof -
  have "tf_good heap content (own_blocks im st s)"
  proof (rule own_blocks_good [OF assms(1)])
    show "distinct (file_blocks s @ import_blocks im)"
      using assms(5) tf_good_memory(4) [OF assms(1)] by (auto simp: moved_def holding_def)
  qed (use assms(4,5) in \<open>auto simp: moved_def holding_def\<close>)
  moreover have "\<forall>(a, bytes) \<in> set (tf_held (own_blocks im st s)). length bytes = bs" using assms(4) by (auto simp: own_blocks_def)
  ultimately show ?thesis using assms by (simp add: import_ok_def)
qed

lemma queue_tiled:
  assumes "chunk_at content rows bs im st f p"
  shows "\<exists>e. tiled content rows (hd rows) (queue_texts st im) e"
  using assms by (auto simp: chunk_at_def tiled_append)

lemma leave_ok:
  assumes "import_progress d content rows cfg bs n im st" "ph = Interrupted \<or> ph = Failed e"
    "im_phase im \<noteq> Complete"
  shows "import_progress d content rows cfg bs n (leave_loop ph im) st"
proof -
  have "im_queue im = [] \<or> (\<exists>e. tiled content rows (hd rows) (queue_texts st im) e)"
    using assms(1,3) queue_tiled [of content rows bs im st] by (cases "im_phase im") (auto simp: import_progress_def)
  then have "phase_ok d content rows cfg bs n (leave_loop ph im) st ph"
    using assms(2) by (auto simp: leave_loop_def)
  then show ?thesis using assms by (auto simp: import_progress_def leave_loop_def)
qed

lemma leave_blocks: "mset (import_blocks (leave_loop ph im)) \<subseteq># mset (import_blocks im)" if "ph = Interrupted \<or> ph = Failed e"
  using that by (auto simp: import_blocks_mset leave_loop_def)

lemma fails_ok:
  assumes "tf_good heap content s" "tf_consumed s = 0" "tf_block_size s = bs"
    "holding heap (set (file_blocks s)) bs st bl" "mset (import_blocks im) \<subseteq># mset bl" "\<forall>a \<in> set (file_blocks s). same_block bs (tf_store s) st a"
    "import_progress d content rows cfg bs n im st" "im_phase im \<noteq> Complete" "e = Bad_alloc \<or> tf_has_exception s"
  shows "import_ok heap d content rows cfg bs (after_call im (Inl e, st) s)"
proof -
  let ?im = "leave_loop (Failed e) im"
  have "mset (import_blocks ?im) \<subseteq># mset bl" using leave_blocks [of "Failed e" e im] assms(5) by (auto intro: subset_mset.order_trans)
  then have "moved heap (set (file_blocks s)) bs (tf_store s) ?im st"
    using holding_sub [OF assms(4)] assms(6) by (auto simp: moved_def)
  moreover have "import_progress d content rows cfg bs n ?im st" by (rule leave_ok [OF assms(7) _ assms(8)]) simp
  then have "import_progress d content rows cfg bs (min (tf_pos s) (length content)) ?im st"
    by (simp add: import_progress_def leave_loop_def)
  ultimately show ?thesis unfolding after_call.simps
    using assms(1-3,9) by (intro own_ok) (auto simp: leave_loop_def)
qed

lemma others_ok:
  assumes ok: "import_ok heap d content rows cfg bs (im, s)" and steps: "tf_steps heap content s s'"
  shows "import_ok heap d content rows cfg bs (im, s')"
proof -
  have o: "tf_good heap content s" "supplied s \<or> (\<exists>e. im_phase im = Failed e)" "tf_consumed s = 0" "tf_block_size s = bs" "map fst (tf_held s) = import_blocks im"
    "\<forall>(a, bytes) \<in> set (tf_held s). length bytes = bs"
    "import_progress d content rows cfg bs (min (tf_pos s) (length content)) im (tf_store s)"
    using ok by (auto simp: import_ok_def)
  have k: "tf_good heap content s'" "main_kept s s'" using tf_steps_good [OF steps o(1)] by auto
  note c = main_kept_calm [OF k(2)]
  have h: "tf_held s' = tf_held s" "tf_block_size s' = bs" "tf_consumed s' = 0" using c(1) o(3,4) by (auto simp: calm_def)
  have "supplied s' \<or> (\<exists>e. im_phase im = Failed e)" using o(2) c by (auto simp: supplied_def calm_def)
  moreover have "import_progress d content rows cfg bs (min (tf_pos s') (length content)) im (tf_store s')"
    unfolding calm_pos [OF c(1)] by (rule import_progress_same [OF o(7)]) (use held_same [OF o(1) k(1) _ o(6)] o(5) h(1) in auto)
  ultimately show ?thesis using ok k(1) h o c(6) by (auto simp: import_ok_def)
qed

lemma end_of_file_ok:
  assumes prog: "import_progress d content rows cfg bs (length content) im st" "im_phase im = Scanning" and al: "aligned d"
    and drop: "drop_block b st = Inr st'" "mem st' = mem st"
    "holding heap others bs st' (import_blocks im)"
  obtains im' where "end_of_file b im st = (Inr im', st')" "import_progress d content rows cfg bs (length content) im' st'"
    "moved heap others bs st im' st'" "\<forall>e. im_phase im' \<noteq> Failed e"
proof -
  let ?ph = "case im_chunk im of None \<Rightarrow> Complete | Some chunk \<Rightarrow> if f_size chunk > 0 then Pausing_last else Complete"
  let ?im = "im\<lparr>im_phase := ?ph\<rparr>"
  have prog': "import_progress d content rows cfg bs (length content) im st'"
    by (rule import_progress_same [OF prog(1)]) (simp add: same_block_def drop(2))
  have sc: "scanned d content rows (im_scanner im) (length content)" using prog by (simp add: import_progress_def)
  consider (none) "im_chunk im = None" "im_queue im = []" "\<forall>x \<in> set rows. length content \<le> x"
    | (chunk) f where "chunk_at content rows bs im st' f (length content)"
    using prog' prog(2) by (auto simp: import_progress_def)
  then have "import_progress d content rows cfg bs (length content) ?im st' \<and> (?ph = Complete \<or> ?ph = Pausing_last)"
  proof cases
    case none
    have "rows = []" using none(3) scanned_end [OF al sc] by (metis hd_in_set not_less)
    then show ?thesis using none prog' prog(2) by (simp add: import_progress_def queue_texts_def)
  next
    case chunk
    then have "im_chunk im = Some f" "0 < f_size f" by (auto simp: chunk_at_def)
    moreover then have "chunk_at content rows bs ?im st' f (length content)" using chunk by (simp add: chunk_at_def)
    ultimately show ?thesis using prog' prog(2) by (auto simp: import_progress_def)
  qed
  moreover have "moved heap others bs st ?im st'"
    unfolding moved_def using holding_perm [OF drop(3), of "import_blocks ?im"] prog(2) drop(2) calculation
    by (auto simp: import_blocks_mset same_block_def)
  ultimately show thesis using that [of ?im] drop(1) by (auto simp: end_of_file_def)
qed

lemma schedule_sel [simp]:
  "im_chunk (schedule_chunk cfg f im) = None" "im_phase (schedule_chunk cfg f im) = im_phase im"
  "im_scanner (schedule_chunk cfg f im) = im_scanner im" "im_total (schedule_chunk cfg f im) = im_total im"
  by (simp_all add: schedule_chunk_def Let_def)

lemma schedule_queue:
  obtains c where "im_queue (schedule_chunk cfg f im) = im_queue im @ [(c, None)]" "ii_file c = f" "ii_range c = (im_first im, f_size f)"
  by (simp add: schedule_chunk_def Let_def)

lemma schedule_ok:
  assumes at: "chunk_at content rows bs im st f p" and len: "length content + 2 * bs \<le> 2 ^ 64" and p: "p \<le> length content" "hd rows \<le> length content"
    and queue: "\<forall>x \<in> set (im_queue im). queued_ok bs x" and im1: "im1 = schedule_chunk cfg f im"
  shows "queue_texts st im1 = queue_texts st im @ [drop (im_first im) (file_data f st)]" "\<forall>x \<in> set (im_queue im1). queued_ok bs x"
    "tiled content rows (hd rows) (queue_texts st im1) p"
    "mset (import_blocks im1) = mset (import_blocks im)"
proof -
  obtain c where s: "im_queue im1 = im_queue im @ [(c, None)]" "ii_file c = f" "ii_range c = (im_first im, f_size f)"
    unfolding im1 by (rule schedule_queue)
  have f: "chunk_ok bs f" "im_first im < f_size f" "im_first im < bs" "im_chunk im = Some f"
    "tiled content rows (hd rows) (queue_texts st im @ [drop (im_first im) (file_data f st)]) p"
    using at by (auto simp: chunk_at_def)
  show q: "queue_texts st im1 = queue_texts st im @ [drop (im_first im) (file_data f st)]"
    by (simp add: queue_texts_def s)
  show "tiled content rows (hd rows) (queue_texts st im1) p" unfolding q by (rule f(5))
  have "f_size f \<le> bs + length content" using chunk_at_length(2) [OF at p(2)] p(1) f(3) by linarith
  then have "f_capacity f < 2 ^ 64" using f(1) len by (auto simp: chunk_ok_def)
  then have "queued_ok bs (c, None)" using f s(2,3) by simp
  then show "\<forall>x \<in> set (im_queue im1). queued_ok bs x" unfolding s(1) using queue by simp
  have b: "concat (map (\<lambda>(c, sent). if sent = None then f_blocks (ii_file c) else []) (im_queue im1)) =
      concat (map (\<lambda>(c, sent). if sent = None then f_blocks (ii_file c) else []) (im_queue im)) @ f_blocks f"
    by (simp add: s)
  show "mset (import_blocks im1) = mset (import_blocks im)"
    unfolding import_blocks_mset b using f(4) im1 by simp
qed


section \<open>Every step keeps the invariant\<close>

lemma extract_source:
  assumes ok: "import_ok heap d content rows cfg bs (im, s)" and ph: "im_phase im = Scanning" and call: "extract_call heap content s r s1"
  shows "tf_good heap content s1" "tf_consumed s1 = 0" "tf_block_size s1 = bs"
    "case r of
       Inl e \<Rightarrow> e = Bad_alloc \<or> tf_has_exception s1
     | Inr b \<Rightarrow> supplied s1 \<and> (let n = min (tf_pos s) (length content) in
         db_size b = length (substr content n bs) \<and> min (tf_pos s1) (length content) = n + db_size b \<and>
         (b = \<lparr>db_memory = 0, db_size = 0\<rparr> \<and> tf_held s1 = tf_held s \<or> tf_held s1 = (db_memory b, substr content n bs) # tf_held s))"
proof -
  have o: "tf_good heap content s" "supplied s" "tf_consumed s = 0" "tf_block_size s = bs" using ok ph by (auto simp: import_ok_def)
  note e = extract_call_ok [OF o(1-3) call]
  show "tf_good heap content s1" "tf_consumed s1 = 0" "tf_block_size s1 = bs" using e o(4) by (auto simp: same_setup_def)
  have same: "substr content (min (tf_pos s) (length content)) bs = substr content (tf_pos s) bs" by (simp add: min_def)
  show "case r of
       Inl e \<Rightarrow> e = Bad_alloc \<or> tf_has_exception s1
     | Inr b \<Rightarrow> supplied s1 \<and> (let n = min (tf_pos s) (length content) in
         db_size b = length (substr content n bs) \<and> min (tf_pos s1) (length content) = n + db_size b \<and>
         (b = \<lparr>db_memory = 0, db_size = 0\<rparr> \<and> tf_held s1 = tf_held s \<or> tf_held s1 = (db_memory b, substr content n bs) # tf_held s))"
  proof (cases r)
    case (Inl e')
    then show ?thesis using e by auto
  next
    case (Inr b)
    have k: "supplied s1" "db_size b = length (substr content (tf_pos s) bs)"
      "take (tf_pos s1) content = take (tf_pos s) content @ substr content (tf_pos s) bs"
      "b = \<lparr>db_memory = 0, db_size = 0\<rparr> \<and> tf_held s1 = tf_held s \<or> tf_held s1 = (db_memory b, substr content (tf_pos s) bs) # tf_held s"
      using e Inr o(4) by (auto simp: Let_def)
    have "length (take (tf_pos s1) content) = length (take (tf_pos s) content) + db_size b" using k(2,3) by (metis length_append)
    then have "min (tf_pos s1) (length content) = min (tf_pos s) (length content) + db_size b" by (simp add: min.commute)
    then show ?thesis using Inr k(1,2,4) unfolding Let_def same by simp
  qed
qed

lemma extract_progress:
  assumes ok: "import_ok heap d content rows cfg bs (im, s)" and s1: "tf_good heap content s1" "set (tf_held s) \<subseteq> set (tf_held s1)"
  shows "import_progress d content rows cfg bs (min (tf_pos s) (length content)) im (tf_store s1)"
proof -
  have o: "tf_good heap content s" "map fst (tf_held s) = import_blocks im" "\<forall>(a, bytes) \<in> set (tf_held s). length bytes = bs"
    "import_progress d content rows cfg bs (min (tf_pos s) (length content)) im (tf_store s)"
    using ok by (auto simp: import_ok_def)
  show ?thesis by (rule import_progress_same [OF o(4)]) (use held_same [OF o(1) s1 o(3)] o(2) in auto)
qed

lemma block_ok:
  assumes ok: "import_ok heap d content rows cfg bs (im, s)" and al: "aligned d" and len: "length content < 2 ^ 64"
    and ph: "im_phase im = Scanning" and call: "extract_call heap content s (Inr b) s1" and size: "db_size b \<noteq> 0"
  shows "import_ok heap d content rows cfg bs (after_call im (take_block heap cfg b im (tf_store s1)) s1)"
proof -
  let ?n = "min (tf_pos s) (length content)" and ?others = "set (file_blocks s1)"
  note e = extract_source [OF ok ph call]
  have k: "supplied s1" "min (tf_pos s1) (length content) = ?n + db_size b" "tf_held s1 = (db_memory b, substr content ?n bs) # tf_held s"
    "db_size b = length (substr content ?n bs)"
    using e(4) size by (auto simp: Let_def)
  have prog: "import_progress d content rows cfg bs ?n im (tf_store s1)" by (rule extract_progress [OF ok e(1)]) (auto simp: k(3))
  have hold: "holding heap ?others bs (tf_store s1) (db_memory b # import_blocks im)"
    using source_holding [OF e(1)] e(3) k(3) ok by (simp add: import_ok_def)
  have bytes: "block_bytes (tf_store s1) b = substr content ?n bs"
    using held_bytes [OF e(1), of "db_memory b" "substr content ?n bs"] k(3,4) unfolding block_bytes_def by simp
  note t = take_block_ok [OF al len prog ph hold bytes size]
  obtain r st' where r: "take_block heap cfg b im (tf_store s1) = (r, st')" by fastforce
  show ?thesis
  proof (cases r)
    case (Inl x)
    then have t': "x = Bad_alloc" "holding heap ?others bs st' (import_blocks im)"
      "\<forall>a \<in> ?others \<union> set (import_blocks im). same_block bs (tf_store s1) st' a" using t r by auto
    have "import_progress d content rows cfg bs ?n im st'" by (rule import_progress_same [OF prog]) (use t'(3) in blast)
    then show ?thesis unfolding r Inl using t' ph by (intro fails_ok [OF e(1-3) t'(2)]) auto
  next
    case (Inr im')
    then have t': "import_progress d content rows cfg bs (?n + db_size b) im' st'" "moved heap ?others bs (tf_store s1) im' st'"
      using t r by auto
    have nf: "im_phase im' \<noteq> Failed x" for x
      using Inr r ph by (auto simp: take_block_def keep_block_def begin_chunk_def Let_def split: if_splits prod.splits sum.splits option.splits)
    show ?thesis unfolding r Inr after_call.simps
      by (intro own_ok [OF e(1) disjI1 [OF k(1)] e(2,3) t'(2)]) (use t'(1) k(2) nf in auto)
  qed
qed

lemma end_ok:
  assumes ok: "import_ok heap d content rows cfg bs (im, s)" and al: "aligned d"
    and ph: "im_phase im = Scanning" and call: "extract_call heap content s (Inr b) s1" and size: "db_size b = 0"
  shows "import_ok heap d content rows cfg bs (after_call im (end_of_file b im (tf_store s1)) s1)"
proof -
  let ?n = "min (tf_pos s) (length content)" and ?others = "set (file_blocks s1)"
  note e = extract_source [OF ok ph call]
  have k: "supplied s1" "substr content ?n bs = []" "min (tf_pos s1) (length content) = ?n"
    "b = \<lparr>db_memory = 0, db_size = 0\<rparr> \<and> tf_held s1 = tf_held s \<or> tf_held s1 = (db_memory b, []) # tf_held s"
    using e(4) size by (auto simp: Let_def)
  have n: "?n = length content" using k(2) tf_good_block_size [OF e(1)] e(3) by auto
  have prog: "import_progress d content rows cfg bs ?n im (tf_store s1)" by (rule extract_progress [OF ok e(1)]) (use k(4) in auto)
  have held: "map fst (tf_held s) = import_blocks im" using ok by (simp add: import_ok_def)
  obtain st' where d: "drop_block b (tf_store s1) = Inr st'" "holding heap ?others bs st' (import_blocks im)" "mem st' = mem (tf_store s1)"
  proof (cases "tf_held s1 = tf_held s \<and> b = \<lparr>db_memory = 0, db_size = 0\<rparr>")
    case True
    then show thesis using that [of "tf_store s1"] source_holding [OF e(1)] e(3) held by (simp add: drop_block_def)
  next
    case False
    then have "holding heap ?others bs (tf_store s1) (db_memory b # import_blocks im)"
      using source_holding [OF e(1)] e(3) k(4) held by auto
    then show thesis using drop_block_holding that by blast
  qed
  obtain im' where i: "end_of_file b im (tf_store s1) = (Inr im', st')" "import_progress d content rows cfg bs (length content) im' st'"
      "moved heap ?others bs (tf_store s1) im' st'" "\<forall>e. im_phase im' \<noteq> Failed e"
    by (rule end_of_file_ok [OF prog [unfolded n] ph al d(1,3,2)])
  show ?thesis unfolding i(1) after_call.simps
    by (intro own_ok [OF e(1) disjI1 [OF k(1)] e(2,3) i(3)]) (use i(2,4) n k(3) in auto)
qed


lemma extract_call_held:
  assumes good: "tf_good heap content s" and call: "extract_call heap content s r s'"
  shows "set (tf_held s) \<subseteq> set (tf_held s')" "mset (map fst (tf_held s)) \<subseteq># mset (map fst (tf_held s'))"
proof -
  have "tf_held s' = tf_held s \<or> (\<exists>x. tf_held s' = x # tf_held s)"
    using call
  proof cases
    case (extract_no_block e)
    then show ?thesis using schedule_if_ok [OF good extract_no_block(2)] by (auto simp: calm_def)
  next
    case (extract_throws s1 e)
    note k = schedule_if_ok [OF good extract_throws(2)]
    then show ?thesis using front_call_ok [OF conjunct1 [OF k] extract_throws(3)] by (auto simp: calm_def)
  next
    case (extract_null s1)
    note k = schedule_if_ok [OF good extract_null(2)]
    then show ?thesis using front_call_ok [OF conjunct1 [OF k] extract_null(3)] by (auto simp: calm_def)
  next
    case (extract_block s1 b s2 r0)
    note k = schedule_if_ok [OF good extract_block(2)]
    note f = front_call_ok [OF conjunct1 [OF k] extract_block(3)]
    obtain rest where b: "tf_blocks s2 = (first_node s2, b) # rest" "b_ready b" "db_size (b_data b) = 0 \<longrightarrow> tf_read_eof s2"
      using f by auto
    have good2: "tf_good heap content s2" using f by simp
    note h = hand_over_good [OF good2 b]
    show ?thesis using schedule_if_ok [OF conjunct1 [OF h] extract_block(4)] hand_over_setup(3) [of "b_data b" s2] f k
      by (auto simp: calm_def)
  qed
  then show "set (tf_held s) \<subseteq> set (tf_held s')" "mset (map fst (tf_held s)) \<subseteq># mset (map fst (tf_held s'))" by auto
qed

lemma no_block_ok:
  assumes ok: "import_ok heap d content rows cfg bs (im, s)" and ph: "im_phase im = Scanning" and call: "extract_call heap content s (Inl x) s1"
  shows "import_ok heap d content rows cfg bs (after_call im (Inl x, tf_store s1) s1)"
proof -
  have o: "tf_good heap content s" "map fst (tf_held s) = import_blocks im" using ok by (auto simp: import_ok_def)
  note e = extract_source [OF ok ph call] and h = extract_call_held [OF o(1) call]
  show ?thesis
    by (rule fails_ok [OF e(1-3) source_holding [OF e(1), unfolded e(3)] h(2) [unfolded o(2)] _ extract_progress [OF ok e(1) h(1)]])
      (use ph e(4) in auto)
qed

lemma pausing_ok:
  assumes ok: "import_ok heap d content rows cfg bs (im, s)" and len: "length content + 2 * bs \<le> 2 ^ 64"
    and rows: "\<forall>x \<in> set rows. x \<le> length content" and ph: "im_phase im = Pausing b off" and f: "im_chunk im = Some f"
  shows "import_ok heap d content rows cfg bs (after_call im (begin_chunk cfg off b (schedule_chunk cfg f im) (tf_store s)) s)"
proof -
  let ?n = "min (tf_pos s) (length content)" and ?im1 = "schedule_chunk cfg f im" and ?st = "tf_store s"
  have o: "tf_good heap content s" "supplied s" "tf_consumed s = 0" "tf_block_size s = bs" "map fst (tf_held s) = import_blocks im"
    and prog: "import_progress d content rows cfg bs ?n im ?st" using ok ph by (auto simp: import_ok_def)
  obtain p where at: "chunk_at content rows bs im ?st f p" "p \<in> set rows" "off < db_size b" "db_size b \<le> bs" "?n = p + (db_size b - off)"
      "drop off (block_bytes ?st b) = substr content p (?n - p)" "?n < length content \<longrightarrow> db_size b = bs"
      "ic_bytes_per_chunk cfg \<le> length (drop (im_first im) (file_data f ?st))"
  proof -
    have "phase_ok d content rows cfg bs ?n im ?st (Pausing b off)" using prog unfolding import_progress_def ph by blast
    then obtain g p where g: "chunk_at content rows bs im ?st g p" "p \<in> set rows" "off < db_size b" "db_size b \<le> bs" "?n = p + (db_size b - off)"
        "drop off (block_bytes ?st b) = substr content p (?n - p)" "?n < length content \<longrightarrow> db_size b = bs"
        "ic_bytes_per_chunk cfg \<le> length (drop (im_first im) (file_data g ?st))"
      unfolding phase_ok.simps by blast
    moreover have "g = f" using g(1) f unfolding chunk_at_def by simp
    ultimately show thesis using that by blast
  qed
  have queue: "\<forall>x \<in> set (im_queue im). queued_ok bs x" "\<forall>t \<in> set (queue_texts ?st im). ic_bytes_per_chunk cfg \<le> length t"
    using prog ph by (auto simp: import_progress_def)
  have "rows \<noteq> []" using at(2) by auto
  then have le: "p \<le> length content" "hd rows \<le> length content" using rows at(2) by auto
  note sch = schedule_ok [OF at(1) len le queue(1) refl, of cfg]
  have m: "m_block_size (pool ?st) = bs" "0 < bs" using tf_good_memory(2,6) [OF o(1)] o(4) by auto
  note bg = begin_at [OF m at(3,4,6,2) le(1) sch(3), where cfg = cfg]
  let ?c = "appended (make_chunk cfg ?st) b"
  let ?im = "?im1\<lparr>im_chunk := Some ?c, im_first := off, im_phase := Scanning\<rparr>"
  have "scanned d content rows (im_scanner im) ?n" "im_total im = ?n"
    using prog unfolding import_progress_def ph phase_ok.simps by blast+
  moreover have "f_accepts_append ?c \<longleftrightarrow> db_size b = bs" using make_chunk_ok(1) [of ?st cfg] m by (simp add: chunk_ok_def)
  moreover have "chunk_at content rows bs ?im ?st ?c ?n" using bg(2) at(5) by simp
  ultimately have "phase_ok d content rows cfg bs ?n ?im ?st Scanning" using at(7)
    by (simp del: appended_sel) blast
  then have "import_progress d content rows cfg bs ?n ?im ?st"
    using at(8) sch(1,2) queue(2) by (auto simp: import_progress_def)
  moreover have "mset (import_blocks ?im) = mset (import_blocks im)"
    using make_chunk_ok(2) [of ?st cfg] m ph unfolding sch(4) [symmetric] by (simp add: import_blocks_mset)
  then have "moved heap (set (file_blocks s)) bs ?st ?im ?st"
    using moved_perm [OF source_holding [OF o(1)]] o(4,5) by simp
  ultimately show ?thesis unfolding bg(1) after_call.simps by (intro own_ok [OF o(1) disjI1 [OF o(2)] o(3,4) _ refl]) auto
qed

lemma last_ok:
  assumes ok: "import_ok heap d content rows cfg bs (im, s)" and len: "length content + 2 * bs \<le> 2 ^ 64"
    and rows: "\<forall>x \<in> set rows. x \<le> length content" and ph: "im_phase im = Pausing_last" and f: "im_chunk im = Some f"
  shows "import_ok heap d content rows cfg bs (after_call im (Inr ((schedule_chunk cfg f im)\<lparr>im_phase := Complete\<rparr>), tf_store s) s)"
proof -
  let ?n = "min (tf_pos s) (length content)" and ?st = "tf_store s"
  let ?im = "(schedule_chunk cfg f im)\<lparr>im_phase := Complete\<rparr>"
  have o: "tf_good heap content s" "supplied s" "tf_consumed s = 0" "tf_block_size s = bs" "map fst (tf_held s) = import_blocks im"
    and prog: "import_progress d content rows cfg bs ?n im ?st" using ok ph by (auto simp: import_ok_def)
  have at: "chunk_at content rows bs im ?st f (length content)" using prog ph f by (auto simp: import_progress_def chunk_at_def)
  have queue: "\<forall>x \<in> set (im_queue im). queued_ok bs x" "\<forall>t \<in> set (queue_texts ?st im). ic_bytes_per_chunk cfg \<le> length t"
    using prog ph by (auto simp: import_progress_def)
  have "rows \<noteq> []" using at by (auto simp: chunk_at_def tiled_append)
  then have "hd rows \<le> length content" using rows by simp
  note sch = schedule_ok [OF at len order_refl this queue(1) refl, of cfg]
  have "import_progress d content rows cfg bs ?n ?im ?st"
    using sch(1-3) queue(2) prog ph \<open>rows \<noteq> []\<close> by (simp add: import_progress_def)
  moreover have "mset (import_blocks ?im) = mset (import_blocks im)"
    using ph unfolding sch(4) [symmetric] by (simp add: import_blocks_mset)
  then have "moved heap (set (file_blocks s)) bs ?st ?im ?st"
    using moved_perm [OF source_holding [OF o(1)]] o(4,5) by simp
  ultimately show ?thesis unfolding after_call.simps by (intro own_ok [OF o(1) disjI1 [OF o(2)] o(3,4) _ refl]) auto
qed

lemma interrupted_ok:
  assumes ok: "import_ok heap d content rows cfg bs (im, s)"
    and ph: "im_phase im = Scanning \<or> im_phase im = Pausing b off \<or> im_phase im = Pausing_last"
  shows "import_ok heap d content rows cfg bs (after_call im (Inr (leave_loop Interrupted im), tf_store s) s)"
proof -
  let ?n = "min (tf_pos s) (length content)" and ?im = "leave_loop Interrupted im"
  have o: "tf_good heap content s" "supplied s" "tf_consumed s = 0" "tf_block_size s = bs" "map fst (tf_held s) = import_blocks im"
    and prog: "import_progress d content rows cfg bs ?n im (tf_store s)" using ok ph by (auto simp: import_ok_def)
  have "import_progress d content rows cfg bs ?n ?im (tf_store s)" by (rule leave_ok [OF prog]) (use ph in auto)
  moreover have "moved heap (set (file_blocks s)) bs (tf_store s) ?im (tf_store s)"
    using holding_sub [OF source_holding [OF o(1)], of "import_blocks ?im"] leave_blocks [of Interrupted Bad_alloc im] o(4,5) by (simp add: moved_def)
  ultimately show ?thesis unfolding after_call.simps
    by (intro own_ok [OF o(1) disjI1 [OF o(2)] o(3,4) _ refl]) (auto simp: leave_loop_def)
qed

end
