(* ===== verification/Import_Theorems.thy ===== *)
theory Import_Theorems
  imports Import_Steps
begin

text \<open>
  The runs of the import: loading a chunk keeps the invariant too, and the theorems follow for every run: the chunks are cut at rows and make up the file, and
  a queued chunk can be sent again. At the end a run on a small file.
\<close>

section \<open>Loading\<close>

lemma queued_blocks:
  assumes "i < length q" "q ! i = (c, None)"
  shows "mset (concat (map (\<lambda>(c, sent). if sent = None then f_blocks (ii_file c) else []) q)) =
    mset (f_blocks (ii_file c)) + mset (concat (map (\<lambda>(c, sent). if sent = None then f_blocks (ii_file c) else []) (q[i := (c, Some t)])))"
proof -
  define xs ys where "xs = take i q" and "ys = drop (Suc i) q"
  then have q: "q = xs @ (c, None) # ys" and i: "length xs = i" using assms id_take_nth_drop by fastforce+
  have "q[i := (c, Some t)] = xs @ (c, Some t) # ys" unfolding q using i by (simp add: list_update_append)
  then show ?thesis unfolding q by simp
qed

lemma queued_holding:
  assumes ok: "import_ok heap d content rows cfg bs (im, s)" and q: "i < length (im_queue im)" "im_queue im ! i = (c, None)"
    and im': "im' = im\<lparr>im_queue := (im_queue im)[i := (c, Some t)]\<rparr>"
  shows "holding heap (set (file_blocks s)) bs (tf_store s) (f_blocks (ii_file c) @ import_blocks im')"
    "chunk_ok bs (ii_file c)" "blocks_ok heap (ii_file c) (tf_store s)" "fst (ii_range c) \<le> f_size (ii_file c)"
    "ii_range c = (fst (ii_range c), f_size (ii_file c))"
proof -
  have o: "tf_good heap content s" "tf_block_size s = bs" "map fst (tf_held s) = import_blocks im"
    "import_progress d content rows cfg bs (min (tf_pos s) (length content)) im (tf_store s)"
    using ok by (auto simp: import_ok_def)
  have "mset (f_blocks (ii_file c) @ import_blocks im') = mset (import_blocks im)"
    unfolding mset_append import_blocks_mset using queued_blocks [OF q, of t] im' by (simp add: add.commute add.left_commute)
  then show h: "holding heap (set (file_blocks s)) bs (tf_store s) (f_blocks (ii_file c) @ import_blocks im')"
    using holding_perm [OF source_holding [OF o(1)]] o(2,3) by simp
  have "(c, None) \<in> set (im_queue im)" using q nth_mem by fastforce
  then have c: "queued_ok bs (c, None)" using o(4) unfolding import_progress_def by blast
  then show "chunk_ok bs (ii_file c)" "fst (ii_range c) \<le> f_size (ii_file c)" by auto
  show "ii_range c = (fst (ii_range c), f_size (ii_file c))" using c by (metis prod.collapse queued_ok.simps(1))
  show "blocks_ok heap (ii_file c) (tf_store s)"
    using h c by (auto simp: blocks_ok_def holding_def chunk_ok_def)
qed

lemma load_ok:
  assumes ok: "import_ok heap d content rows cfg bs (im, s)" and q: "i < length (im_queue im)" "im_queue im ! i = (c, None)"
    and load: "load_chunk message attempts c (tf_store s) = (Inr (sent, remaining), f, st1)"
    and fin: "infile_reads [1] remaining f st1 = (Inr ([], remaining), f, st1)" and del: "delete_file f st1 = Inr st"
  shows "import_ok heap d content rows cfg bs (after_call im (Inr (im\<lparr>im_queue := (im_queue im)[i := (c, Some sent)]\<rparr>), st) s)"
proof -
  let ?n = "min (tf_pos s) (length content)" and ?im = "im\<lparr>im_queue := (im_queue im)[i := (c, Some sent)]\<rparr>" and ?st = "tf_store s"
  have o: "tf_good heap content s" "supplied s \<or> (\<exists>e. im_phase im = Failed e)" "tf_consumed s = 0" "tf_block_size s = bs"
    "import_progress d content rows cfg bs ?n im ?st" "\<And>e. im_phase im = Failed e \<Longrightarrow> e = Bad_alloc \<or> tf_has_exception s"
    using ok by (auto simp: import_ok_def)
  note h = queued_holding [OF ok q refl]
  note l = load_chunk_ok [OF h(2,3) refl h(5,4) load fin]
  obtain a where a: "st = ?st\<lparr>pool := a\<rparr>" "holding heap (set (file_blocks s)) bs st (import_blocks ?im)"
    using delete_file_holding [of heap _ bs ?st f] h(1) [of sent] l(2,3) del by fastforce
  have same: "same_block bs ?st st b" for b using a(1) by (simp add: same_block_def)
  have "chunk_text st ((im_queue ?im) ! j) = chunk_text ?st (im_queue im ! j)" if "j < length (im_queue im)" for j
  proof (cases "j = i")
    case True
    then show ?thesis using q l(1) by simp
  next
    case False
    then show ?thesis using that o(5) chunk_text_same [of bs "im_queue im ! j" ?st st] same by (simp add: import_progress_def)
  qed
  then have texts: "queue_texts st ?im = queue_texts ?st im" by (auto simp: queue_texts_def list_eq_iff_nth_eq)
  have prog: "import_progress d content rows cfg bs ?n im st" by (rule import_progress_same [OF o(5) same])
  have "queue_texts st im = queue_texts ?st im" using prog o(5) queue_texts_same [OF _ same] by (auto simp: import_progress_def)
  then have texts': "queue_texts st ?im = queue_texts st im" using texts by simp
  have "chunk_at content rows bs ?im st g p = chunk_at content rows bs im st g p" for g p using texts' by (simp add: chunk_at_def)
  then have "phase_ok d content rows cfg bs ?n ?im st ph = phase_ok d content rows cfg bs ?n im st ph" for ph
    using texts' by (cases ph) auto
  moreover have "queued_ok bs x" if "x \<in> set (im_queue ?im)" for x
  proof (cases "x = (c, Some sent)")
    case False
    then have "x \<in> set (im_queue im)" using that set_update_subset_insert [of "im_queue im" i] by force
    then show ?thesis using prog by (simp add: import_progress_def)
  qed simp
  ultimately have "import_progress d content rows cfg bs ?n ?im st" using prog texts' by (simp add: import_progress_def)
  moreover have "moved heap (set (file_blocks s)) bs ?st ?im st" using a(2) same by (simp add: moved_def)
  ultimately show ?thesis unfolding after_call.simps using o by (intro own_ok [OF o(1) _ o(3,4) _ refl]) auto
qed

section \<open>Runs\<close>

lemma import_step_ok:
  assumes "import_step heap content cfg x y" "import_ok heap d content rows cfg bs x" "aligned d" "length content + 2 * bs \<le> 2 ^ 64"
    "\<forall>x \<in> set rows. x \<le> length content"
  shows "import_ok heap d content rows cfg bs y"
proof -
  have bs: "length content < 2 ^ 64"
  proof -
    have "0 < bs" using assms(2) tf_good_block_size by (auto simp: import_ok_def split: prod.splits)
    then show ?thesis using assms(4) by linarith
  qed
  from assms(1) show ?thesis
  proof cases
    case (is_others s s' im)
    then show ?thesis using others_ok assms(2) by blast
  next
    case (is_block im s b s1)
    then show ?thesis using block_ok [OF _ assms(3) bs] assms(2) by blast
  next
    case (is_end im s b s1)
    then show ?thesis using end_ok [OF _ assms(3)] assms(2) by blast
  next
    case (is_no_block im s e s1)
    then show ?thesis using no_block_ok assms(2) by blast
  next
    case (is_schedule im b off f s)
    then show ?thesis using pausing_ok [OF _ assms(4,5)] assms(2) by blast
  next
    case (is_last im f s)
    then show ?thesis using last_ok [OF _ assms(4,5)] assms(2) by blast
  next
    case (is_interrupted im b off s)
    then show ?thesis using interrupted_ok assms(2) by blast
  next
    case (is_load i im c message attempts s sent remaining f st1 st)
    then show ?thesis using load_ok assms(2) by blast
  qed
qed

definition import_run :: "heap \<Rightarrow> string \<Rightarrow> import_config \<Rightarrow> dialect \<Rightarrow> nat \<Rightarrow> threaded_file \<Rightarrow> import_state \<Rightarrow> threaded_file \<Rightarrow> bool" where
  "import_run heap content cfg d skip s0 im s \<longleftrightarrow>
     (\<exists>sc s1. new_scanner d skip = Inr sc \<and> open_call heap content True s0 (Inr ()) s1 \<and>
        (import_step heap content cfg)\<^sup>*\<^sup>* (new_import sc, s1) (im, s))"

abbreviation file_rows :: "dialect \<Rightarrow> nat \<Rightarrow> string \<Rightarrow> nat list" where
  "file_rows d skip content \<equiv> row_starts d (skip, BEGIN, Not_used) 0 content"

lemma import_start_ok:
  assumes fresh: "fresh_file heap content s0" and sc: "new_scanner d skip = Inr sc" and op: "open_call heap content True s0 (Inr ()) s1"
  shows "import_ok heap d content (file_rows d skip content) cfg (tf_block_size s0) (new_import sc, s1)"
proof -
  note o = fresh_file_opened [OF fresh]
  have loop: "open_loop heap content 0 (open_begin s0) (Inr ()) s1" using op by (auto elim: open_call.cases)
  have "0 < tf_block_size s0" using tf_good_block_size [OF o(1)] o(5) by (simp add: same_setup_def)
  then have k: "tf_good heap content s1" "same_setup (open_begin s0) s1" "tf_pos s1 = 0" "tf_held s1 = []" "supplied s1"
    using open_loop_ok [OF loop o(1)] o(2-6) by (auto simp: same_setup_def)
  then have "tf_consumed s1 = 0" "tf_block_size s1 = tf_block_size s0" using o(5) by (auto simp: tf_pos_def same_setup_def)
  then show ?thesis using k scanned_start [OF sc, of content]
    by (simp add: import_ok_def new_import_def import_blocks_def import_progress_def queue_texts_def)
qed

lemma file_rows_inside:
  assumes "aligned d" "new_scanner d skip = Inr sc" "x \<in> set (file_rows d skip content)"
  shows "x < length content"
  using rows_beyond [OF assms(1) _ _ _ assms(3), of 0] new_scanner_idle [OF assms(2)] by (simp add: idle_def ready_def conf_def)

lemma import_run_ok:
  assumes fresh: "fresh_file heap content s0" and run: "import_run heap content cfg d skip s0 im s" and al: "aligned d"
    and len: "length content + 2 * tf_block_size s0 \<le> 2 ^ 64"
  shows "import_ok heap d content (file_rows d skip content) cfg (tf_block_size s0) (im, s)" "\<forall>x \<in> set (file_rows d skip content). x < length content"
proof -
  obtain sc s1 where r: "new_scanner d skip = Inr sc" "open_call heap content True s0 (Inr ()) s1"
      "(import_step heap content cfg)\<^sup>*\<^sup>* (new_import sc, s1) (im, s)"
    using run by (auto simp: import_run_def)
  show rows: "\<forall>x \<in> set (file_rows d skip content). x < length content" using file_rows_inside [OF al r(1)] by blast
  then have le: "\<forall>x \<in> set (file_rows d skip content). x \<le> length content" by (meson less_imp_le)
  from r(3) show "import_ok heap d content (file_rows d skip content) cfg (tf_block_size s0) (im, s)"
    by (induction rule: rtranclp_induct) (use import_start_ok [OF fresh r(1,2)] import_step_ok [OF _ _ al len le] in blast)+
qed


text \<open>What \<^verbatim>\<open>scan_file\<close> reads from: the allocator's blocks fit into the memory the file may use, and the objects it makes are new files in the
  sense of the theorems.\<close>

lemma import_block_size_fits: "8192 \<le> bytes_per_chunk \<Longrightarrow> import_block_size file_size threads bytes_per_chunk \<le> bytes_per_chunk"
  by (simp add: import_block_size_def Let_def)

lemma new_allocator_block_size: "new_allocator heap page_size block_size = Inr a \<Longrightarrow> m_block_size a = block_size"
  by (auto simp: new_allocator_def add_page_def Let_def split: if_splits option.splits)

lemma import_source_fresh:
  assumes src: "import_source heap m name file_size threads bytes_per_chunk compressed raw (Inr (n, compressed)) = Inr (inner, s0)"
    and heap: "heap_ok (threads * import_block_size file_size threads bytes_per_chunk) heap" and n: "\<not> compressed \<Longrightarrow> n = length content"
  shows "fresh_file heap content s0" "tf_block_size s0 = import_block_size file_size threads bytes_per_chunk"
proof -
  let ?bs = "import_block_size file_size threads bytes_per_chunk"
  have bs: "0 < ?bs" "2 * ?bs \<le> 2 ^ 64" by (simp_all add: import_block_size_def Let_def)
  obtain a where a: "new_allocator heap (threads * ?bs) ?bs = Inr a" using src by (cases "new_allocator heap (threads * ?bs) ?bs") (auto simp: import_source_def Let_def)
  let ?st = "\<lparr>mem = m, pool = a\<rparr>"
  let ?cfg = "\<lparr>cfg_path = name, cfg_threads = if compressed then 1 else threads, cfg_max_memory = bytes_per_chunk, cfg_allocator = Some ?st\<rparr>"
  have m: "m_block_size a = ?bs" by (rule new_allocator_block_size [OF a])
  have "pool_state heap a" using new_allocator_ok [OF a] heap bs by (simp add: pool_state_def)
  moreover have s0: "new_threaded_file ?cfg (Inr (n, compressed)) = Inr s0"
    using src a by (cases compressed) (auto simp: import_source_def make_threaded_file_def Let_def rbind_def split: sum.splits)
  ultimately show "fresh_file heap content s0" unfolding fresh_file_def using m bs n
    by (intro exI [of _ ?cfg] exI [of _ ?st] exI [of _ n] exI [of _ compressed]) simp
  show "tf_block_size s0 = ?bs" using s0 m by (auto simp: new_threaded_file_def split: if_splits)
qed

section \<open>Theorems\<close>

lemma import_complete:
  assumes "fresh_file heap content s0" "import_run heap content cfg d skip s0 im s" "aligned d"
    "length content + 2 * tf_block_size s0 \<le> 2 ^ 64" "im_phase im = Complete"
  shows "concat (queue_texts (tf_store s) im) = (if file_rows d skip content = [] then [] else drop (hd (file_rows d skip content)) content)"
proof -
  let ?rows = "file_rows d skip content" and ?texts = "queue_texts (tf_store s) im"
  note ok = import_run_ok [OF assms(1-4)]
  have ph: "phase_ok d content ?rows cfg (tf_block_size s0) (min (tf_pos s) (length content)) im (tf_store s) Complete"
    using ok(1) assms(5) by (simp add: import_ok_def import_progress_def)
  show ?thesis
  proof (cases "?rows = []")
    case True
    then show ?thesis using ph by (simp add: queue_texts_def)
  next
    case False
    then have "tiled content ?rows (hd ?rows) ?texts (length content)" "hd ?rows < length content" using ph ok(2) hd_in_set by auto
    then show ?thesis using False tiled_concat by fastforce
  qed
qed

text \<open>C5: a file that is imported in chunks is cut between rows, nothing is lost and nothing is sent twice. The dialect is aligned: its field terminator is at most
  one character longer than its line terminator, and the line terminator does not start with the escape character (the named dialects are; for others the scanner
  reports rows too late, \<open>scan_misplaced_row\<close>). In every state of the import, whatever the loading threads, the threads that read the file and other users of the memory do, the
  chunks that have been queued are consecutive parts of the file: the first one starts at the first row after the rows to skip, and each one starts with a row. A chunk that has
  been loaded was sent to the server with exactly these bytes, also if the server made the loading thread start over; the other chunks still have them. When the end has
  been reached the chunks make up the file from its first row on. Every chunk but the last one has at least the number of bytes that was asked for.\<close>

theorem import_chunks_cut_at_rows:
  assumes "fresh_file heap content s0" "import_run heap content cfg d skip s0 im s" "aligned d"
    "length content + 2 * tf_block_size s0 \<le> 2 ^ 64"
  shows "let rows = file_rows d skip content; texts = queue_texts (tf_store s) im
    in (texts = [] \<or> (\<exists>e. tiled content rows (hd rows) texts e)) \<and>
       (im_phase im = Complete \<longrightarrow> concat texts = (if rows = [] then [] else drop (hd rows) content)) \<and>
       (\<forall>t \<in> set (butlast texts). ic_bytes_per_chunk cfg \<le> length t)"
proof -
  let ?rows = "file_rows d skip content" and ?texts = "queue_texts (tf_store s) im" and ?n = "min (tf_pos s) (length content)"
  note ok = import_run_ok [OF assms]
  have p: "import_progress d content ?rows cfg (tf_block_size s0) ?n im (tf_store s)" using ok(1) by (simp add: import_ok_def)
  then have ph: "phase_ok d content ?rows cfg (tf_block_size s0) ?n im (tf_store s) (im_phase im)" by (simp add: import_progress_def)
  have "?texts = [] \<or> (\<exists>e. tiled content ?rows (hd ?rows) ?texts e)"
    using ph queue_tiled [of content ?rows "tf_block_size s0" im "tf_store s"]
    by (cases "im_phase im") (auto simp: queue_texts_def split: if_splits)
  moreover have "concat ?texts = (if ?rows = [] then [] else drop (hd ?rows) content)" if "im_phase im = Complete"
    by (rule import_complete [OF assms that])
  moreover have "ic_bytes_per_chunk cfg \<le> length t" if "t \<in> set (butlast ?texts)" for t
    using p that in_set_butlastD [OF that] by (auto simp: import_progress_def split: if_splits)
  ultimately show ?thesis unfolding Let_def by blast
qed

text \<open>C6: a chunk that is on the queue can be loaded again when the server has rolled the statement back: in every state of the import, with any reads in up
  to nine attempts, no read and no return to the beginning of the chunk fails, and the last attempt sends the chunk from its first byte on. After
  nine attempts the error of the server is reported. The memory of the chunk can be given back afterwards.\<close>

theorem import_chunk_can_be_resent:
  assumes "fresh_file heap content s0" "import_run heap content cfg d skip s0 im s" "aligned d"
    "length content + 2 * tf_block_size s0 \<le> 2 ^ 64" "i < length (im_queue im)" "im_queue im ! i = (c, None)"
  shows "let text = chunk_text (tf_store s) (c, None); total = last_total attempts; res = load_chunk message attempts c (tf_store s)
    in if length attempts \<le> 9
       then \<exists>f st. res = (Inr (take total text, length text - total), f, tf_store s) \<and> delete_file f (tf_store s) = Inr st
       else fst res = Inl (Runtime_error message)"
proof -
  note ok = import_run_ok [OF assms(1-4)]
  note h = queued_holding [OF ok(1) assms(5,6) refl]
  let ?f = "ii_file c" and ?first = "fst (ii_range c)"
  have n: "length (file_data ?f (tf_store s)) = f_size ?f" using h(2) by (simp add: file_data_length chunk_ok_def)
  obtain st where st: "delete_file ?f (tf_store s) = Inr st" using delete_file_holding [OF h(1)] by blast
  have "delete_file (reading_at ?f off) (tf_store s) = delete_file ?f (tf_store s)" for off by (simp add: delete_file_def reading_at_def)
  then show ?thesis using load_chunk_prefix [OF h(2,3) refl h(5,4), where attempts = attempts and message = message] n st
    by (simp add: Let_def)
qed

text \<open>The import fails only if there is no memory for another block, or after a thread that reads the file has failed.\<close>

lemma import_errors:
  assumes "fresh_file heap content s0" "import_run heap content cfg d skip s0 im s" "aligned d"
    "length content + 2 * tf_block_size s0 \<le> 2 ^ 64" "im_phase im = Failed e"
  shows "e = Bad_alloc \<or> tf_has_exception s"
  using import_run_ok(1) [OF assms(1-4)] assms(5) by (auto simp: import_ok_def)


section \<open>A run\<close>

definition tiny_config :: import_config where
  "tiny_config = \<lparr>ic_name = ''f'', ic_block_size = 4, ic_bytes_per_chunk = 4, ic_threads = 1\<rparr>"

lemma tiny_scan: "\<exists>sc sc'. new_scanner default_dialect 0 = Inr sc \<and> scan ''ab'' sc = Inr (0, sc')"
  by (simp add: new_scanner_def scan_def skip_rows.simps scan_loop.simps scan_turn_def skip_line_start_def scan_field.simps scan_field_turn_def
      scan_char_def at_terminator_def contains_def contains_loop.simps get_def unget_def unget_loop.simps unget_all_def
      first_char_def used_def dialect_defs) blast

lemma tiny_rows: "file_rows default_dialect 0 ''ab'' = [0]"
  by (simp add: row_starts.simps ref_step_def field_item_def char_item_def look_for_def first_char_def dialect_defs strict_prefix_def)

lemma tiny_end_sel:
  "tf_blocks tiny_end = []" "\<not> tf_compressed tiny_end" "\<not> tf_has_exception tiny_end"
  by (simp_all add: tiny_end_def hand_over_def pop_node_def tiny_defs)

lemma tiny_steps5: "tf_steps (bump_heap 8) ''ab'' tiny_open (tiny_step 5)"
proof -
  have "n \<le> 5 \<Longrightarrow> tf_steps (bump_heap 8) ''ab'' tiny_open (tiny_step n)" for n
  proof (induction n)
    case 0
    then show ?case by (simp add: tiny_step_def Let_def)
  next
    case (Suc n)
    then show ?case using env_worker [OF tiny_steps, of n "bump_heap 8"] by (auto intro: rtranclp.rtrancl_into_rtrancl)
  qed
  then show ?thesis by simp
qed

lemma tiny_import:
  "\<exists>im s c. import_run (bump_heap 8) ''ab'' tiny_config default_dialect 0 tiny_file im s \<and> im_phase im = Complete \<and> im_queue im = [(c, None)]"
proof -
  let ?step = "import_step (bump_heap 8) ''ab'' tiny_config" and ?b = "\<lparr>db_memory = 8, db_size = 2\<rparr>" and ?st = "tf_store tiny_end"
  obtain sc sc' where sc: "new_scanner default_dialect 0 = Inr sc" "scan ''ab'' sc = Inr (0, sc')" using tiny_scan by blast
  let ?f = "appended (make_chunk tiny_config ?st) ?b"
  let ?im = "(new_import sc)\<lparr>im_scanner := sc', im_extracted := 1, im_total := 2, im_chunk := Some ?f, im_first := 0, im_phase := Scanning\<rparr>"
  let ?s1 = "own_blocks ?im ?st tiny_end"
  have "take_block (bump_heap 8) tiny_config ?b (new_import sc) ?st = (Inr ?im, ?st)"
    using tiny_bytes sc(2) by (simp add: take_block_def new_import_def begin_chunk_def keep_block_def file_append_def make_chunk_def
      retain_data_def new_file_def appended_def)
  then have 1: "?step (new_import sc, tiny_step 5) (?im, ?s1)"
    using is_block [OF _ tiny_extract, where im = "new_import sc" and cfg = tiny_config] by (simp add: new_import_def)
  have front: "front_call (bump_heap 8) ''ab'' ?s1 (Inr None) ?s1"
    by (rule front_null) (simp add: front_begin_def handle_exception_def own_blocks_def tiny_end_sel)
  have "extract_call (bump_heap 8) ''ab'' ?s1 (Inr \<lparr>db_memory = 0, db_size = 0\<rparr>) ?s1"
    using front by (intro extract_null) (simp_all add: own_blocks_def tiny_end_sel schedule_if_not)
  from is_end [OF _ this, where im = ?im and cfg = tiny_config]
  have 2: "?step (?im, ?s1) (?im\<lparr>im_phase := Pausing_last\<rparr>, own_blocks (?im\<lparr>im_phase := Pausing_last\<rparr>) ?st ?s1)"
    by (simp add: end_of_file_def drop_block_def)
  from is_last [of "?im\<lparr>im_phase := Pausing_last\<rparr>" ?f tiny_config]
  have 3: "\<exists>im s c. ?step (?im\<lparr>im_phase := Pausing_last\<rparr>, own_blocks (?im\<lparr>im_phase := Pausing_last\<rparr>) ?st ?s1) (im, s) \<and>
      im_phase im = Complete \<and> im_queue im = [(c, None)]"
    by (fastforce simp: chunks_in_flight_def new_import_def tiny_config_def schedule_chunk_def Let_def)
  have "?step (new_import sc, tiny_open) (new_import sc, tiny_step 5)" by (rule is_others [OF tiny_steps5])
  then have "?step\<^sup>*\<^sup>* (new_import sc, tiny_open) (?im\<lparr>im_phase := Pausing_last\<rparr>, own_blocks (?im\<lparr>im_phase := Pausing_last\<rparr>) ?st ?s1)"
    using 1 2 by (meson converse_rtranclp_into_rtranclp rtranclp.rtrancl_refl)
  then show ?thesis using 3 sc(1) tiny_open_call unfolding import_run_def by (meson rtranclp.rtrancl_into_rtrancl)
qed

theorem import_chunks_cut_at_rows_witness:
  "\<exists>im s. import_run (bump_heap 8) ''ab'' tiny_config default_dialect 0 tiny_file im s \<and> concat (queue_texts (tf_store s) im) = ''ab''"
proof -
  obtain im s where r: "import_run (bump_heap 8) ''ab'' tiny_config default_dialect 0 tiny_file im s" "im_phase im = Complete"
    using tiny_import by blast
  have "aligned default_dialect" by (rule named_dialects_aligned) simp
  moreover have "length ''ab'' + 2 * tf_block_size tiny_file \<le> 2 ^ 64" by (simp add: tiny_file_def)
  ultimately show ?thesis using import_chunks_cut_at_rows [OF tiny_file_fresh r(1)] r tiny_rows by (auto simp: Let_def)
qed

theorem import_chunk_can_be_resent_witness:
  "\<exists>im s c f. import_run (bump_heap 8) ''ab'' tiny_config default_dialect 0 tiny_file im s \<and> im_queue im = [(c, None)] \<and>
     load_chunk ''deadlock'' [[1], [1, 4]] c (tf_store s) = (Inr (''ab'', 0), f, tf_store s)"
proof -
  obtain im s c where r: "import_run (bump_heap 8) ''ab'' tiny_config default_dialect 0 tiny_file im s" "im_phase im = Complete" "im_queue im = [(c, None)]"
    using tiny_import by blast
  have a: "aligned default_dialect" "length ''ab'' + 2 * tf_block_size tiny_file \<le> 2 ^ 64"
    by (rule named_dialects_aligned) (simp_all add: tiny_file_def)
  have "concat (queue_texts (tf_store s) im) = ''ab''" using import_complete [OF tiny_file_fresh r(1) a r(2)] tiny_rows by simp
  then have "chunk_text (tf_store s) (c, None) = ''ab''" using r(3) by (simp add: queue_texts_def)
  then show ?thesis using import_chunk_can_be_resent [OF tiny_file_fresh r(1) a, of 0 c "[[1], [1, 4]]" "''deadlock''"] r
    by (fastforce simp: last_total_def)
qed

text \<open>The range of bytes that the messages about a chunk show is that of a chunk which starts in the block that was extracted last: for the first eight bytes
  of a file, in two blocks, the message tells bytes 4 to 12.\<close>

lemma chunk_context_misplaced:
  "ii_context (fst (last (im_queue (schedule_chunk tiny_config (f\<lparr>f_size := 8\<rparr>) (im\<lparr>im_first := 0, im_extracted := 2\<rparr>))))) =
     '' @ file bytes range [4, 12)''"
  by (simp add: schedule_chunk_def Let_def tiny_config_def show_nat.simps digit_char_def char_of_eq_iff)

end
