(* ===== verification/Trx_Buffer.thy ===== *)
theory Trx_Buffer
  imports Dialect
begin

text \<open>
  Model of \<^verbatim>\<open>Transaction_buffer\<close> of \<^verbatim>\<open>modules/util/import_table/load_data.{h,cc}\<close>: it cuts what is read from a file into
  transactions of limited size, which end between rows. The client library asks for data; a request that gets nothing ends the statement.

  The file is given by its content and by \<open>grain\<close>: a read at the offset \<open>p\<close> returns at most \<open>grain p + 1\<close> bytes, and nothing only
  at the end; a read that fails ends the statement and is not modelled. The limit is below \<open>2 ^ 63\<close> and the buffer below \<open>2 ^ 32\<close>. Writing behind the buffer of the client library is the left value \<open>Undefined\<close>. The mode for files that are fed by
  another thread (\<^verbatim>\<open>fast_sub_chunking\<close>) is not modelled.
\<close>

section \<open>Row boundaries\<close>

datatype boundary_impl = Impl_default | Impl_no_escape | Impl_escape

definition rfind_sub :: "string \<Rightarrow> string \<Rightarrow> nat \<Rightarrow> nat option" where
  "rfind_sub pat s p = rfind_idx (\<lambda>k. prefix pat (drop k s)) [0 ..< Suc (min p (length s))]"

lemma rfind_sub_Some_iff:
  "rfind_sub pat s p = Some k \<longleftrightarrow> k \<le> p \<and> k \<le> length s \<and> prefix pat (drop k s) \<and>
     (\<forall>j. k < j \<and> j \<le> p \<and> j \<le> length s \<longrightarrow> \<not> prefix pat (drop j s))"
  unfolding rfind_sub_def rfind_idx_Some_iff by (auto simp del: upt_Suc simp: less_Suc_eq_le)

lemma rfind_sub_None_iff: "rfind_sub pat s p = None \<longleftrightarrow> (\<forall>j. j \<le> p \<and> j \<le> length s \<longrightarrow> \<not> prefix pat (drop j s))"
  unfolding rfind_sub_def rfind_idx_None_iff by (auto simp del: upt_Suc simp: less_Suc_eq_le)

definition find_first_default :: "dialect \<Rightarrow> string \<Rightarrow> nat" where
  "find_first_default d m_data = (case find_char (hd (lines_terminated_by d)) m_data 0 of None \<Rightarrow> 0 | Some p \<Rightarrow> p + 1)"

definition search_from :: "string \<Rightarrow> nat \<Rightarrow> nat" where
  "search_from m_data limit = (if limit < length m_data then size_sub limit 1 else length m_data)"

definition find_last_default :: "dialect \<Rightarrow> string \<Rightarrow> nat \<Rightarrow> nat" where
  "find_last_default d m_data limit =
     (let p = search_from m_data limit
      in if p = 0 then 0
         else case rfind_sub [hd (lines_terminated_by d)] m_data p of None \<Rightarrow> 0 | Some q \<Rightarrow> q + 1)"

definition find_first_no_escape :: "dialect \<Rightarrow> string \<Rightarrow> nat" where
  "find_first_no_escape d m_data =
     (let needle = lines_terminated_by d
      in case find_sub needle m_data of None \<Rightarrow> 0 | Some p \<Rightarrow> if p \<ge> length m_data then 0 else p + length needle)"

definition find_last_no_escape :: "dialect \<Rightarrow> string \<Rightarrow> nat \<Rightarrow> nat" where
  "find_last_no_escape d m_data limit =
     (let needle = lines_terminated_by d; p = search_from m_data limit
      in if p < length needle then 0
         else case rfind_sub needle m_data p of None \<Rightarrow> 0 | Some q \<Rightarrow> if q \<ge> length m_data then 0 else q + length needle)"

definition escaped_at :: "dialect \<Rightarrow> string \<Rightarrow> nat \<Rightarrow> bool" where
  "escaped_at d m_data p \<longleftrightarrow> p > 0 \<and> m_data ! (p - 1) = hd (fields_escaped_by d)"

function find_first_escape_from :: "dialect \<Rightarrow> string \<Rightarrow> nat \<Rightarrow> nat" where
  "find_first_escape_from d m_data p =
     (let needle = lines_terminated_by d
      in case find_sub_from needle m_data p of
           None \<Rightarrow> 0
         | Some q \<Rightarrow>
             if \<not> escaped_at d m_data q then q + length needle
             else if needle = [] then 0 else find_first_escape_from d m_data (q + length needle))"
  by pat_completeness auto
termination
  by (relation "measure (\<lambda>(d, m_data, p). Suc (length m_data) - p)") (auto dest!: find_sub_from_range simp: neq_Nil_conv)

definition find_first_escape :: "dialect \<Rightarrow> string \<Rightarrow> nat" where
  "find_first_escape d m_data = find_first_escape_from d m_data 0"

function find_last_escape_from :: "dialect \<Rightarrow> string \<Rightarrow> nat \<Rightarrow> nat" where
  "find_last_escape_from d m_data p =
     (let needle = lines_terminated_by d
      in case rfind_sub needle m_data p of
           None \<Rightarrow> 0
         | Some q \<Rightarrow>
             if \<not> escaped_at d m_data q then q + length needle
             else if q < length needle \<or> needle = [] then 0 else find_last_escape_from d m_data (q - length needle))"
  by pat_completeness auto
termination
  by (relation "measure (\<lambda>(d, m_data, p). p)") (auto simp: rfind_sub_Some_iff neq_Nil_conv)

declare find_first_escape_from.simps [simp del] find_last_escape_from.simps [simp del]

definition find_last_escape :: "dialect \<Rightarrow> string \<Rightarrow> nat \<Rightarrow> nat" where
  "find_last_escape d m_data limit =
     (let p = search_from m_data limit
      in if p < length (lines_terminated_by d) then 0 else find_last_escape_from d m_data p)"

fun find_first_row_boundary_after :: "boundary_impl \<Rightarrow> dialect \<Rightarrow> string \<Rightarrow> nat" where
  "find_first_row_boundary_after Impl_default = find_first_default"
| "find_first_row_boundary_after Impl_no_escape = find_first_no_escape"
| "find_first_row_boundary_after Impl_escape = find_first_escape"

fun find_last_row_boundary_before :: "boundary_impl \<Rightarrow> dialect \<Rightarrow> string \<Rightarrow> nat \<Rightarrow> nat" where
  "find_last_row_boundary_before Impl_default = find_last_default"
| "find_last_row_boundary_before Impl_no_escape = find_last_no_escape"
| "find_last_row_boundary_before Impl_escape = find_last_escape"

section \<open>The buffer\<close>

text \<open>The last component is the offset of the file.\<close>

record trx_buffer =
  tb_dialect :: dialect
  tb_impl :: "boundary_impl option"
  tb_max_trx_size :: nat
  tb_trx_size :: nat
  tb_trx_end_offset :: nat
  tb_partial_row_sent :: bool
  tb_oversized_row_counted :: bool
  tb_eof :: bool
  tb_retry_offset :: nat
  tb_retry_point_valid :: bool
  tb_data :: string
  tb_oversized_rows :: nat
  tb_offset :: nat

definition file_piece :: "string \<Rightarrow> (nat \<Rightarrow> nat) \<Rightarrow> nat \<Rightarrow> nat \<Rightarrow> string" where
  "file_piece content grain offset count = substr content offset (min count (grain offset + 1))"

text \<open>The beginning of a file that does not support \<^verbatim>\<open>seek\<close> is read and dropped.\<close>

function skip_reading :: "string \<Rightarrow> (nat \<Rightarrow> nat) \<Rightarrow> nat \<Rightarrow> nat \<Rightarrow> nat" where
  "skip_reading content grain skip_bytes offset =
     (if skip_bytes > 0
      then let bytes = length (file_piece content grain offset (min skip_bytes 1024))
           in if bytes = 0 then offset else skip_reading content grain (skip_bytes - bytes) (offset + bytes)
      else offset)"
  by pat_completeness auto
termination
  by (relation "measure (\<lambda>(_, _, skip_bytes, _). skip_bytes)") auto

declare skip_reading.simps [simp del]

definition new_trx_buffer :: "string \<Rightarrow> (nat \<Rightarrow> nat) \<Rightarrow> bool \<Rightarrow> dialect \<Rightarrow> nat \<Rightarrow> nat \<Rightarrow> trx_buffer" where
  "new_trx_buffer content grain seekable d max_transaction_size skip_bytes =
     (let no_cut = lines_terminated_by d = [] \<or> fields_terminated_by d = lines_terminated_by d
      in \<lparr>tb_dialect = d,
          tb_impl = (if no_cut then None
                     else if dialect_eq d default_dialect then Some Impl_default
                     else if fields_escaped_by d = [] then Some Impl_no_escape else Some Impl_escape),
          tb_max_trx_size = (if no_cut then 0 else max_transaction_size), tb_trx_size = 0, tb_trx_end_offset = 0,
          tb_partial_row_sent = False, tb_oversized_row_counted = False, tb_eof = False, tb_retry_offset = 0,
          tb_retry_point_valid = False, tb_data = [], tb_oversized_rows = 0,
          tb_offset = (if skip_bytes > 0 then if seekable then skip_bytes else skip_reading content grain skip_bytes 0 else 0)\<rparr>)"

text \<open>The constructor that \<^verbatim>\<open>Dump_loader\<close> uses replaces the members of \<^verbatim>\<open>m_options\<close> when the other one is done.\<close>

definition new_trx_buffer_options :: "string \<Rightarrow> (nat \<Rightarrow> nat) \<Rightarrow> bool \<Rightarrow> dialect \<Rightarrow> nat \<Rightarrow> nat \<Rightarrow> trx_buffer" where
  "new_trx_buffer_options content grain seekable d max_transaction_size skip_bytes =
     (new_trx_buffer content grain seekable d max_transaction_size skip_bytes)\<lparr>tb_max_trx_size := max_transaction_size\<rparr>"

text \<open>The result says whether the file has more data for another transaction.\<close>

definition flush_done :: "trx_buffer \<Rightarrow> bool \<times> trx_buffer" where
  "flush_done tb =
     (tb_max_trx_size tb > 0 \<and> (\<not> tb_eof tb \<or> tb_data tb \<noteq> []),
      tb\<lparr>tb_trx_size := 0, tb_trx_end_offset := 0, tb_partial_row_sent := False, tb_oversized_rows := 0,
         tb_oversized_row_counted := False\<rparr>)"

definition mark_retry_point :: "bool \<Rightarrow> trx_buffer \<Rightarrow> trx_buffer" where
  "mark_retry_point tellable tb =
     (if tellable then tb\<lparr>tb_retry_offset := tb_offset tb - length (tb_data tb), tb_retry_point_valid := True\<rparr>
      else tb\<lparr>tb_retry_point_valid := False\<rparr>)"

definition try_rewind_for_retry :: "bool \<Rightarrow> trx_buffer \<Rightarrow> bool \<times> trx_buffer" where
  "try_rewind_for_retry seekable tb =
     (if \<not> tb_retry_point_valid tb \<or> \<not> seekable then (False, tb)
      else (True, tb\<lparr>tb_offset := tb_retry_offset tb, tb_data := [], tb_trx_size := 0, tb_trx_end_offset := 0,
              tb_partial_row_sent := False, tb_oversized_rows := 0, tb_oversized_row_counted := False, tb_eof := False\<rparr>))"

definition flush_pending :: "trx_buffer \<Rightarrow> bool" where
  "flush_pending tb \<longleftrightarrow> tb_max_trx_size tb > 0 \<and> tb_trx_end_offset tb > 0 \<and> tb_trx_end_offset tb \<le> tb_trx_size tb"

definition trx_bytes_left :: "trx_buffer \<Rightarrow> int" where
  "trx_bytes_left tb = int (tb_max_trx_size tb) - int (tb_trx_size tb)"

definition set_trx_end_offset :: "nat \<Rightarrow> trx_buffer \<Rightarrow> trx_buffer" where
  "set_trx_end_offset end_offset tb = tb\<lparr>tb_trx_end_offset := tb_trx_size tb + end_offset\<rparr>"

definition mark_oversized_row :: "trx_buffer \<Rightarrow> trx_buffer" where
  "mark_oversized_row tb =
     (if tb_oversized_row_counted tb then tb
      else tb\<lparr>tb_oversized_row_counted := True, tb_oversized_rows := tb_oversized_rows tb + 1\<rparr>)"

definition consume :: "nat \<Rightarrow> trx_buffer \<Rightarrow> string \<times> trx_buffer" where
  "consume len tb =
     (let n = (if tb_trx_end_offset tb > 0
               then let room = size_sub (tb_trx_end_offset tb) (tb_trx_size tb) in if len > room then room else len
               else len)
      in (take n (tb_data tb), tb\<lparr>tb_data := drop n (tb_data tb), tb_trx_size := tb_trx_size tb + min n (length (tb_data tb))\<rparr>))"

definition read_more :: "string \<Rightarrow> (nat \<Rightarrow> nat) \<Rightarrow> nat \<Rightarrow> trx_buffer \<Rightarrow> trx_buffer" where
  "read_more content grain count tb =
     (if tb_eof tb then tb
      else let bytes = file_piece content grain (tb_offset tb) count
           in if bytes = [] then tb\<lparr>tb_eof := True\<rparr>
              else tb\<lparr>tb_data := tb_data tb @ bytes, tb_offset := tb_offset tb + length bytes\<rparr>)"

text \<open>\<^verbatim>\<open>read\<close> from its label \<^verbatim>\<open>retry\<close> on: bytes for the client library, or the jump back. The functions that find row boundaries are members of the
  object; the limit is converted to an unsigned number.\<close>

datatype read_result = Sent string | Again

definition send :: "nat \<Rightarrow> nat \<Rightarrow> trx_buffer \<Rightarrow> (read_result \<times> trx_buffer) result" where
  "send len n tb =
     (case consume n tb of (out, tb') \<Rightarrow>
        if length out > len then Inl (Undefined ''Transaction_buffer::consume: buffer'') else Inr (Sent out, tb'))"

definition fill_trx :: "(string \<Rightarrow> nat \<Rightarrow> nat) \<Rightarrow> trx_buffer \<Rightarrow> trx_buffer" where
  "fill_trx find_last tb =
     (if tb_trx_end_offset tb = 0 \<and> trx_bytes_left tb > 0 \<and> int (length (tb_data tb)) \<ge> trx_bytes_left tb
      then let last_row_end = find_last (tb_data tb) (nat (trx_bytes_left tb))
           in if last_row_end > 0 then set_trx_end_offset last_row_end tb else tb
      else tb)"

definition send_oversized :: "(string \<Rightarrow> nat) \<Rightarrow> nat \<Rightarrow> trx_buffer \<Rightarrow> (read_result \<times> trx_buffer) result" where
  "send_oversized find_first len tb =
     (let tb1 = mark_oversized_row tb; row_end = find_first (tb_data tb1)
      in if row_end > 0 then send len len (set_trx_end_offset row_end tb1)
         else send len len (tb1\<lparr>tb_partial_row_sent := True\<rparr>))"

definition send_full :: "(string \<Rightarrow> nat) \<Rightarrow> (string \<Rightarrow> nat \<Rightarrow> nat) \<Rightarrow> nat \<Rightarrow> trx_buffer \<Rightarrow> (read_result \<times> trx_buffer) result" where
  "send_full find_first find_last len tb =
     (if \<not> tb_partial_row_sent tb
      then let last_row_end = find_last (tb_data tb) (nat (trx_bytes_left tb mod 2 ^ 64))
           in if last_row_end > 0 then send len len (set_trx_end_offset last_row_end tb)
              else if tb_trx_size tb > 0 then Inr (Sent [], set_trx_end_offset 0 tb)
              else send_oversized find_first len tb
      else send_oversized find_first len tb)"

definition send_rows :: "(string \<Rightarrow> nat \<Rightarrow> nat) \<Rightarrow> nat \<Rightarrow> trx_buffer \<Rightarrow> (read_result \<times> trx_buffer) result" where
  "send_rows find_last len tb =
     (let last_row_end = find_last (tb_data tb) len
      in if last_row_end > 0
         then send len last_row_end (tb\<lparr>tb_partial_row_sent := False, tb_oversized_row_counted := False\<rparr>)
         else let last_row_end = find_last (tb_data tb) (nat (trx_bytes_left tb mod 2 ^ 64))
              in if last_row_end > 0 then send len (min len last_row_end) tb
                 else if tb_trx_size tb = 0 then send len len (tb\<lparr>tb_partial_row_sent := True\<rparr>)
                 else if tb_partial_row_sent tb then send len len tb
                 else if tb_eof tb then send len len (set_trx_end_offset (length (tb_data tb)) tb)
                 else Inr (Again, tb))"

definition trx_read_turn :: "(string \<Rightarrow> nat) \<Rightarrow> (string \<Rightarrow> nat \<Rightarrow> nat) \<Rightarrow> string \<Rightarrow> (nat \<Rightarrow> nat) \<Rightarrow> nat \<Rightarrow> trx_buffer \<Rightarrow>
    (read_result \<times> trx_buffer) result" where
  "trx_read_turn find_first find_last content grain len tb =
     (let tb1 = (if tb_trx_end_offset tb = 0 then read_more content grain len tb else tb);
          tb2 = fill_trx find_last tb1
      in if tb_trx_end_offset tb2 > 0 then send len len tb2
         else if int (length (tb_data tb2)) \<ge> trx_bytes_left tb2 then send_full find_first find_last len tb2
         else send_rows find_last len tb2)"

lemma send_Inr: "send len n tb = Inr (r, tb') \<Longrightarrow> \<exists>out. r = Sent out"
  by (auto simp: send_def split: prod.splits if_splits)

lemma trx_read_turn_again:
  assumes "trx_read_turn find_first find_last content grain len tb = Inr (Again, tb')"
  shows "length content - tb_offset tb' < length content - tb_offset tb" "tb' = read_more content grain len tb" "tb_trx_end_offset tb = 0"
    "\<not> tb_eof tb'" "\<not> tb_partial_row_sent tb" "0 < tb_trx_size tb"
proof -
  define tb1 where "tb1 = (if tb_trx_end_offset tb = 0 then read_more content grain len tb else tb)"
  have rows: "send_rows find_last len (fill_trx find_last tb1) = Inr (Again, tb')" "tb_trx_end_offset (fill_trx find_last tb1) = 0"
    using assms by (auto simp: trx_read_turn_def Let_def tb1_def send_full_def send_oversized_def dest: send_Inr split: if_splits)
  then have e: "tb' = fill_trx find_last tb1" "\<not> tb_eof tb'" "\<not> tb_partial_row_sent tb'" "0 < tb_trx_size tb'"
    by (auto simp: send_rows_def Let_def dest: send_Inr split: if_splits)
  have "fill_trx find_last tb1 = tb1" using rows(2) by (auto simp: fill_trx_def Let_def set_trx_end_offset_def split: if_splits)
  then have tb': "tb' = tb1" "tb_trx_end_offset tb1 = 0" using e(1) rows(2) by auto
  then show end0: "tb_trx_end_offset tb = 0" by (auto simp: tb1_def split: if_splits)
  then show more: "tb' = read_more content grain len tb" using tb' by (simp add: tb1_def)
  show "\<not> tb_eof tb'" by (rule e(2))
  let ?bytes = "file_piece content grain (tb_offset tb) len"
  have "\<not> tb_eof tb" "?bytes \<noteq> []" using more e(2) by (auto simp: read_more_def Let_def split: if_splits)
  then have "tb_offset tb' = tb_offset tb + length ?bytes" "tb_offset tb < length content" "0 < length ?bytes"
    using more by (auto simp: read_more_def file_piece_def Let_def)
  then show "length content - tb_offset tb' < length content - tb_offset tb" by linarith
  show "\<not> tb_partial_row_sent tb" "0 < tb_trx_size tb" using e(3,4) more by (auto simp: read_more_def Let_def split: if_splits)
qed

function trx_read_loop :: "(string \<Rightarrow> nat) \<Rightarrow> (string \<Rightarrow> nat \<Rightarrow> nat) \<Rightarrow> string \<Rightarrow> (nat \<Rightarrow> nat) \<Rightarrow> nat \<Rightarrow> trx_buffer \<Rightarrow>
    (string \<times> trx_buffer) result" where
  "trx_read_loop find_first find_last content grain len tb =
     (case trx_read_turn find_first find_last content grain len tb of
        Inl e \<Rightarrow> Inl e
      | Inr (Sent out, tb') \<Rightarrow> Inr (out, tb')
      | Inr (Again, tb') \<Rightarrow> trx_read_loop find_first find_last content grain len tb')"
  by pat_completeness auto
termination
  by (relation "measure (\<lambda>(_, _, content, _, _, tb). length content - tb_offset tb)") (auto dest: trx_read_turn_again(1))

declare trx_read_loop.simps [simp del]

definition trx_read :: "string \<Rightarrow> (nat \<Rightarrow> nat) \<Rightarrow> nat \<Rightarrow> trx_buffer \<Rightarrow> (string \<times> trx_buffer) result" where
  "trx_read content grain len tb =
     (if tb_max_trx_size tb = 0
      then let bytes = file_piece content grain (tb_offset tb) len in Inr (bytes, tb\<lparr>tb_offset := tb_offset tb + length bytes\<rparr>)
      else case tb_impl tb of
             None \<Rightarrow> Inl (Undefined ''Transaction_buffer::read: find_last_row_boundary_before'')
           | Some impl \<Rightarrow> trx_read_loop (find_first_row_boundary_after impl (tb_dialect tb))
               (find_last_row_boundary_before impl (tb_dialect tb)) content grain len tb)"

text \<open>A request of the client library for a file that is not read by range.\<close>

definition infile_read :: "string \<Rightarrow> (nat \<Rightarrow> nat) \<Rightarrow> nat \<Rightarrow> trx_buffer \<Rightarrow> (string \<times> trx_buffer) result" where
  "infile_read content grain len tb = (if flush_pending tb then Inr ([], tb) else trx_read content grain len tb)"

section \<open>Invariant\<close>

text \<open>The bytes that have been sent in this transaction and those in the buffer are the bytes of the file from the retry point on. Once the end of the transaction is
  known, it is the end of a row or of the file. Before that, a buffer that is not in the middle of a long row has sent whole rows, or has the end of the row at
  hand and room for it.\<close>

definition trx_sent :: "string \<Rightarrow> nat \<Rightarrow> string \<Rightarrow> trx_buffer \<Rightarrow> bool" where
  "trx_sent content base sent tb \<longleftrightarrow>
     0 < tb_max_trx_size tb \<and> tb_max_trx_size tb < 2 ^ 63 \<and> length sent = tb_trx_size tb \<and>
     sent @ tb_data tb @ drop (tb_offset tb) content = drop base content \<and>
     tb_offset tb = base + length sent + length (tb_data tb) \<and>
     (tb_eof tb \<longrightarrow> length content \<le> tb_offset tb)"

definition trx_counts :: "string \<Rightarrow> trx_buffer \<Rightarrow> bool" where
  "trx_counts needle tb \<longleftrightarrow> (tb_oversized_row_counted tb \<longrightarrow> 0 < tb_oversized_rows tb) \<and>
     (tb_trx_size tb < tb_max_trx_size tb + length needle \<or> 0 < tb_oversized_rows tb)"

definition end_known :: "string \<Rightarrow> string \<Rightarrow> trx_buffer \<Rightarrow> bool" where
  "end_known needle sent tb \<longleftrightarrow>
     tb_trx_size tb \<le> tb_trx_end_offset tb \<and> tb_trx_end_offset tb - tb_trx_size tb \<le> length (tb_data tb) \<and>
     (suffix needle (sent @ take (tb_trx_end_offset tb - tb_trx_size tb) (tb_data tb)) \<or>
      tb_eof tb \<and> tb_trx_end_offset tb - tb_trx_size tb = length (tb_data tb)) \<and>
     (tb_trx_end_offset tb < tb_max_trx_size tb + length needle \<or> 0 < tb_oversized_rows tb)"

definition end_open :: "(string \<Rightarrow> nat \<Rightarrow> bool) \<Rightarrow> string \<Rightarrow> string \<Rightarrow> trx_buffer \<Rightarrow> bool" where
  "end_open boundary needle sent tb \<longleftrightarrow>
     (\<not> tb_partial_row_sent tb \<longrightarrow> tb_trx_size tb < tb_max_trx_size tb \<and>
        (0 < tb_trx_size tb \<longrightarrow> suffix needle sent \<or> (\<exists>e. boundary (tb_data tb) e \<and> int e < trx_bytes_left tb)))"

definition trx_inv :: "(string \<Rightarrow> nat \<Rightarrow> bool) \<Rightarrow> string \<Rightarrow> string \<Rightarrow> nat \<Rightarrow> string \<Rightarrow> trx_buffer \<Rightarrow> bool" where
  "trx_inv boundary needle content base sent tb \<longleftrightarrow> trx_sent content base sent tb \<and> trx_counts needle tb \<and>
     (if 0 < tb_trx_end_offset tb then end_known needle sent tb else end_open boundary needle sent tb)"

lemma trx_sent_consume:
  assumes "trx_sent content base sent tb"
  shows "trx_sent content base (sent @ take n (tb_data tb))
    (tb\<lparr>tb_data := drop n (tb_data tb), tb_trx_size := tb_trx_size tb + min n (length (tb_data tb))\<rparr>)"
  using assms append_take_drop_id [of n "tb_data tb"] unfolding trx_sent_def by (simp flip: append_assoc) (auto simp: min_def)

definition trx_done :: "trx_buffer \<Rightarrow> bool" where
  "trx_done tb \<longleftrightarrow> 0 < tb_trx_end_offset tb \<and> tb_trx_end_offset tb = tb_trx_size tb \<or> tb_eof tb \<and> tb_data tb = []"

text \<open>The members that a read does not change.\<close>

definition same_trx :: "trx_buffer \<Rightarrow> trx_buffer \<Rightarrow> bool" where
  "same_trx tb tb' \<longleftrightarrow> tb_dialect tb' = tb_dialect tb \<and> tb_impl tb' = tb_impl tb \<and> tb_max_trx_size tb' = tb_max_trx_size tb \<and>
     tb_retry_offset tb' = tb_retry_offset tb \<and> tb_retry_point_valid tb' = tb_retry_point_valid tb"

lemma same_trx_trans: "same_trx a b \<Longrightarrow> same_trx b c \<Longrightarrow> same_trx a c"
  by (simp add: same_trx_def)

lemma same_trx_max: "same_trx a b \<Longrightarrow> tb_max_trx_size b = tb_max_trx_size a"
  by (simp add: same_trx_def)

text \<open>What a turn of \<^verbatim>\<open>read\<close> leaves: it sends bytes and keeps the invariant, sends nothing only at the end of a transaction, and writes behind the
  buffer of the client library only for terminators of several characters, and only if less is asked for than a transaction may take.\<close>

definition overrun :: "nat \<Rightarrow> string \<Rightarrow> nat \<Rightarrow> cpp_error \<Rightarrow> bool" where
  "overrun len needle max_size e \<longleftrightarrow>
     1 < length needle \<and> len < max_size \<and> e = Undefined ''Transaction_buffer::consume: buffer''"

definition turn_good :: "nat \<Rightarrow> (string \<Rightarrow> nat \<Rightarrow> bool) \<Rightarrow> string \<Rightarrow> string \<Rightarrow> nat \<Rightarrow> string \<Rightarrow> trx_buffer \<Rightarrow> (read_result \<times> trx_buffer) result \<Rightarrow> bool" where
  "turn_good len boundary needle content base sent tb r \<longleftrightarrow>
     (case r of
        Inl e \<Rightarrow> overrun len needle (tb_max_trx_size tb) e
      | Inr (Sent out, tb') \<Rightarrow> trx_inv boundary needle content base (sent @ out) tb' \<and> same_trx tb tb' \<and> (out = [] \<longrightarrow> trx_done tb')
      | Inr (Again, tb') \<Rightarrow> trx_inv boundary needle content base sent tb' \<and> same_trx tb tb')"

lemma turn_good_trans: "turn_good len boundary needle content base sent tb1 r \<Longrightarrow> same_trx tb tb1 \<Longrightarrow> turn_good len boundary needle content base sent tb r"
  by (auto simp: turn_good_def intro: same_trx_trans split: sum.splits read_result.splits dest: same_trx_max)

section \<open>Finding boundaries\<close>

text \<open>What the buffer relies on: a boundary that is found is one, and ends with the line terminator, less than the length of the
  terminator behind the limit; where none is found there is none that starts in front of the limit. Boundaries survive when data is
  appended, and when data in front of the terminator is removed.\<close>

locale row_finder =
  fixes find_first :: "string \<Rightarrow> nat" and find_last :: "string \<Rightarrow> nat \<Rightarrow> nat" and boundary :: "string \<Rightarrow> nat \<Rightarrow> bool" and needle :: string
  assumes needle: "needle \<noteq> []"
    and first_boundary: "0 < find_first s \<Longrightarrow> boundary s (find_first s)"
    and last_boundary: "0 < find_last s limit \<Longrightarrow> boundary s (find_last s limit)"
    and last_limit: "0 < find_last s limit \<Longrightarrow> 0 < limit \<Longrightarrow> find_last s limit < limit + length needle"
    and last_complete: "find_last s limit = 0 \<Longrightarrow> length needle < limit \<Longrightarrow> boundary s e \<Longrightarrow> limit + length needle \<le> e"
    and boundary_suffix: "boundary s e \<Longrightarrow> e \<le> length s \<and> suffix needle (take e s)"
    and boundary_append: "boundary s e \<Longrightarrow> boundary (s @ t) e"
    and boundary_drop: "boundary s e \<Longrightarrow> k + length needle \<le> e \<Longrightarrow> boundary (drop k s) (e - k)"
begin

lemma boundary_length: "boundary s e \<Longrightarrow> length needle \<le> e"
  using boundary_suffix [of s e] suffix_length_le [of needle "take e s"] by simp

abbreviation inv :: "string \<Rightarrow> nat \<Rightarrow> string \<Rightarrow> trx_buffer \<Rightarrow> bool" where
  "inv \<equiv> trx_inv boundary needle"

lemma read_more_inv:
  assumes "inv content base sent tb" "tb_trx_end_offset tb = 0" "0 < len"
  shows "inv content base sent (read_more content grain len tb)" "same_trx tb (read_more content grain len tb)"
    "tb_trx_end_offset (read_more content grain len tb) = 0"
    "tb_eof (read_more content grain len tb) \<or> tb_data (read_more content grain len tb) \<noteq> []"
proof -
  let ?bytes = "file_piece content grain (tb_offset tb) len"
  have "?bytes = [] \<longleftrightarrow> length content \<le> tb_offset tb" using assms(3) by (auto simp: file_piece_def)
  moreover have "?bytes @ drop (tb_offset tb + length ?bytes) content = drop (tb_offset tb) content"
    by (metis (no_types, opaque_lifting) file_piece_def append_take_drop_id drop_drop add.commute length_take min.absorb2 nat_le_linear min.absorb1 take_all)
  ultimately have "trx_sent content base sent (read_more content grain len tb)"
    using assms(1) unfolding trx_inv_def trx_sent_def read_more_def Let_def by auto
  moreover have "trx_counts needle (read_more content grain len tb)"
    using assms(1) by (auto simp: trx_inv_def trx_counts_def read_more_def Let_def)
  moreover have "end_open boundary needle sent (read_more content grain len tb)"
    using assms(1,2) boundary_append by (auto simp: trx_inv_def end_open_def read_more_def Let_def trx_bytes_left_def)
  ultimately show "inv content base sent (read_more content grain len tb)"
    using assms(2) by (simp add: trx_inv_def read_more_def Let_def)
  show "same_trx tb (read_more content grain len tb)" "tb_trx_end_offset (read_more content grain len tb) = 0"
    "tb_eof (read_more content grain len tb) \<or> tb_data (read_more content grain len tb) \<noteq> []"
    using assms(2) by (auto simp: read_more_def Let_def same_trx_def)
qed

lemma send_known:
  assumes i: "inv content base sent tb" and e: "0 < tb_trx_end_offset tb" and len: "0 < len"
  shows "\<exists>out tb'. send len len tb = Inr (Sent out, tb') \<and> inv content base (sent @ out) tb' \<and> same_trx tb tb' \<and> (out = [] \<longrightarrow> trx_done tb')"
proof -
  let ?room = "tb_trx_end_offset tb - tb_trx_size tb" and ?D = "tb_data tb"
  define n where "n = min len ?room"
  have k: "end_known needle sent tb" using i e by (simp add: trx_inv_def)
  then have r: "tb_trx_size tb \<le> tb_trx_end_offset tb" "?room \<le> length ?D" by (auto simp: end_known_def)
  then have n: "n \<le> length ?D" "n \<le> len" "tb_trx_size tb + n \<le> tb_trx_end_offset tb" by (auto simp: n_def)
  let ?tb = "tb\<lparr>tb_data := drop n ?D, tb_trx_size := tb_trx_size tb + n\<rparr>"
  have "(if len > ?room then ?room else len) = n" by (auto simp: n_def)
  then have "consume len tb = (take n ?D, ?tb)" using r(1) n(1) e by (simp add: consume_def size_sub_def Let_def min_absorb1)
  then have snd: "send len len tb = Inr (Sent (take n ?D), ?tb)" using n by (simp add: send_def)
  have cut: "take n ?D @ take (?room - n) (drop n ?D) = take ?room ?D"
    using n take_add [of n "?room - n" ?D] by (simp add: n_def)
  have "trx_sent content base (sent @ take n ?D) ?tb" using trx_sent_consume [of content base sent tb n] i n(1) by (simp add: trx_inv_def min_absorb1)
  moreover have "trx_counts needle ?tb" using i n(3) k by (auto simp: trx_inv_def trx_counts_def end_known_def)
  moreover have "end_known needle (sent @ take n ?D) ?tb" using k n r cut by (auto simp: end_known_def)
  ultimately have inv: "inv content base (sent @ take n ?D) ?tb" using e by (simp add: trx_inv_def)
  have "trx_done ?tb" if "take n ?D = []"
    using that n len e r by (auto simp: trx_done_def n_def min_def split: if_splits)
  then show ?thesis using snd inv by (intro exI [of _ "take n ?D"] exI [of _ ?tb]) (simp add: same_trx_def)
qed

lemma send_unknown:
  assumes i: "inv content base sent tb" and e: "tb_trx_end_offset tb = 0" and n: "min n (length (tb_data tb)) \<le> len"
    and size: "tb_trx_size tb + min n (length (tb_data tb)) < tb_max_trx_size tb + length needle \<or> 0 < tb_oversized_rows tb"
    and rows: "\<not> tb_partial_row_sent tb \<Longrightarrow> tb_trx_size tb + min n (length (tb_data tb)) < tb_max_trx_size tb \<and>
      (suffix needle (sent @ take n (tb_data tb)) \<or>
       (\<exists>e. boundary (drop n (tb_data tb)) e \<and> int e < trx_bytes_left tb - int (min n (length (tb_data tb)))))"
  shows "\<exists>tb'. send len n tb = Inr (Sent (take n (tb_data tb)), tb') \<and> inv content base (sent @ take n (tb_data tb)) tb' \<and> same_trx tb tb' \<and>
    tb_eof tb' = tb_eof tb \<and> tb_data tb' = drop n (tb_data tb)"
proof -
  let ?tb = "tb\<lparr>tb_data := drop n (tb_data tb), tb_trx_size := tb_trx_size tb + min n (length (tb_data tb))\<rparr>"
  have snd: "send len n tb = Inr (Sent (take n (tb_data tb)), ?tb)"
    using e n by (auto simp: send_def consume_def Let_def min.commute)
  have "trx_sent content base (sent @ take n (tb_data tb)) ?tb" using trx_sent_consume i by (simp add: trx_inv_def)
  moreover have "trx_counts needle ?tb" using i size by (simp add: trx_inv_def trx_counts_def)
  moreover have "end_open boundary needle (sent @ take n (tb_data tb)) ?tb"
    using rows by (auto simp: end_open_def trx_bytes_left_def algebra_simps)
  ultimately have inv: "inv content base (sent @ take n (tb_data tb)) ?tb" using e by (simp add: trx_inv_def)
  then show ?thesis using snd by (intro exI [of _ ?tb]) (simp add: same_trx_def)
qed

lemma set_end_inv:
  assumes i: "inv content base sent tb" and e: "0 < tb_trx_size tb + e" "e \<le> length (tb_data tb)"
    and row: "suffix needle (sent @ take e (tb_data tb)) \<or> tb_eof tb \<and> e = length (tb_data tb)"
    and size: "tb_trx_size tb + e < tb_max_trx_size tb + length needle \<or> 0 < tb_oversized_rows tb"
  shows "inv content base sent (set_trx_end_offset e tb)" "same_trx tb (set_trx_end_offset e tb)" "0 < tb_trx_end_offset (set_trx_end_offset e tb)"
proof -
  have "trx_sent content base sent (set_trx_end_offset e tb)" using i by (auto simp: trx_inv_def trx_sent_def set_trx_end_offset_def)
  moreover have "trx_counts needle (set_trx_end_offset e tb)" using i by (simp add: trx_inv_def trx_counts_def set_trx_end_offset_def)
  moreover have "end_known needle sent (set_trx_end_offset e tb)" using assms by (simp add: end_known_def set_trx_end_offset_def)
  ultimately show "inv content base sent (set_trx_end_offset e tb)" using e(1) by (simp add: trx_inv_def set_trx_end_offset_def)
qed (use e in \<open>simp_all add: set_trx_end_offset_def same_trx_def\<close>)

lemma boundary_end:
  assumes "boundary (tb_data tb) e"
  shows "0 < e" "e \<le> length (tb_data tb)" "suffix needle (sent @ take e (tb_data tb))"
  using boundary_suffix [OF assms] boundary_length [OF assms] needle by (cases needle; auto intro: suffix_appendI)+

lemma send_known_good:
  assumes "inv content base sent tb" "0 < tb_trx_end_offset tb" "0 < len"
  shows "turn_good len boundary needle content base sent tb (send len len tb)"
  using send_known [OF assms] by (auto simp: turn_good_def)

lemma send_partial_good:
  assumes i: "inv content base sent tb" "tb_trx_end_offset tb = 0" "tb_partial_row_sent tb" and len: "0 < len"
    and size: "tb_trx_size tb + min len (length (tb_data tb)) < tb_max_trx_size tb + length needle \<or> 0 < tb_oversized_rows tb"
    and eof: "tb_eof tb \<or> tb_data tb \<noteq> []"
  shows "turn_good len boundary needle content base sent tb (send len len tb)"
proof -
  obtain tb' where s: "send len len tb = Inr (Sent (take len (tb_data tb)), tb')" "inv content base (sent @ take len (tb_data tb)) tb'"
    "same_trx tb tb'" "tb_eof tb' = tb_eof tb" "tb_data tb' = drop len (tb_data tb)"
    using send_unknown [OF i(1,2), of len len] size i(3) by auto
  have "trx_done tb'" if "take len (tb_data tb) = []" using that len eof s(4,5) by (auto simp: trx_done_def)
  then show ?thesis using s(1-3) by (simp add: turn_good_def)
qed

lemma mark_oversized_inv:
  assumes "inv content base sent tb"
  shows "inv content base sent (mark_oversized_row tb)" "same_trx tb (mark_oversized_row tb)" "0 < tb_oversized_rows (mark_oversized_row tb)"
    "tb_data (mark_oversized_row tb) = tb_data tb" "tb_trx_end_offset (mark_oversized_row tb) = tb_trx_end_offset tb"
    "tb_eof (mark_oversized_row tb) = tb_eof tb" "tb_trx_size (mark_oversized_row tb) = tb_trx_size tb"
  using assms by (auto simp: trx_inv_def trx_sent_def trx_counts_def end_known_def end_open_def mark_oversized_row_def trx_bytes_left_def same_trx_def)

lemma send_oversized_good:
  assumes i: "inv content base sent tb" "tb_trx_end_offset tb = 0" and len: "0 < len" and eof: "tb_eof tb \<or> tb_data tb \<noteq> []"
  shows "turn_good len boundary needle content base sent tb (send_oversized find_first len tb)"
proof -
  let ?tb = "mark_oversized_row tb"
  note m = mark_oversized_inv [OF i(1)]
  show ?thesis
  proof (cases "0 < find_first (tb_data ?tb)")
    case True
    note b = boundary_end [OF first_boundary [OF True]]
    note e = set_end_inv [OF m(1) _ b(2) disjI1 [OF b(3)] disjI2 [OF m(3)]]
    show ?thesis using True send_known_good [OF e(1,3) len] turn_good_trans same_trx_trans [OF m(2) e(2)] b(1)
      by (simp add: send_oversized_def Let_def)
  next
    case False
    let ?tb1 = "?tb\<lparr>tb_partial_row_sent := True\<rparr>"
    have "inv content base sent ?tb1" using m(1,5) i(2) by (auto simp: trx_inv_def trx_sent_def trx_counts_def end_open_def)
    moreover have "same_trx tb ?tb1" using m(2) by (simp add: same_trx_def)
    ultimately show ?thesis using False m(3-6) i(2) eof turn_good_trans [OF send_partial_good [of content base sent ?tb1 len]] len
      by (simp add: send_oversized_def Let_def)
  qed
qed

lemma send_full_good:
  assumes i: "inv content base sent tb" "tb_trx_end_offset tb = 0" and len: "0 < len" and eof: "tb_eof tb \<or> tb_data tb \<noteq> []"
    and full: "int (length (tb_data tb)) \<ge> trx_bytes_left tb" "trx_bytes_left tb > 0 \<Longrightarrow> find_last (tb_data tb) (nat (trx_bytes_left tb)) = 0"
  shows "turn_good len boundary needle content base sent tb (send_full find_first find_last len tb)"
proof (cases "tb_partial_row_sent tb")
  case True
  then show ?thesis using send_oversized_good [OF i len eof] by (simp add: send_full_def)
next
  case False
  have o: "end_open boundary needle sent tb" and "tb_max_trx_size tb < 2 ^ 63" using i by (auto simp: trx_inv_def trx_sent_def)
  then have left: "0 < trx_bytes_left tb" "trx_bytes_left tb mod 2 ^ 64 = trx_bytes_left tb"
    using False by (auto simp: end_open_def trx_bytes_left_def)
  note none = full(2) [OF left(1)]
  show ?thesis
  proof (cases "0 < tb_trx_size tb")
    case True
    have "suffix needle sent"
    proof (rule ccontr)
      assume "\<not> suffix needle sent"
      then obtain e where e: "boundary (tb_data tb) e" "int e < trx_bytes_left tb" using o False True by (auto simp: end_open_def)
      have "length needle < nat (trx_bytes_left tb)" using boundary_length [OF e(1)] e(2) by linarith
      from last_complete [OF none this e(1)] show False using e(2) by linarith
    qed
    then have s: "suffix needle (sent @ take 0 (tb_data tb)) \<or> tb_eof tb \<and> 0 = length (tb_data tb)" by simp
    have "tb_trx_size tb + 0 < tb_max_trx_size tb + length needle \<or> 0 < tb_oversized_rows tb" using o False by (auto simp: end_open_def)
    note e = set_end_inv [OF i(1) _ _ s this]
    have "trx_done (set_trx_end_offset 0 tb)" using True by (simp add: trx_done_def set_trx_end_offset_def)
    then show ?thesis using e(1,2) True False left none by (simp add: send_full_def turn_good_def)
  next
    case size: False
    then show ?thesis using send_oversized_good [OF i len eof] False left none by (simp add: send_full_def)
  qed
qed

text \<open>The data is sent up to the end of a row, or, when the row is longer than the request, as much of it as was asked for.\<close>

lemma send_whole_rows_good:
  assumes i: "inv content base sent tb" "tb_trx_end_offset tb = 0" and e: "boundary (tb_data tb) e" "e < len + length needle"
    and size: "tb_trx_size tb + length (tb_data tb) < tb_max_trx_size tb"
  shows "turn_good len boundary needle content base sent tb (send len e (tb\<lparr>tb_partial_row_sent := False, tb_oversized_row_counted := False\<rparr>))"
proof (cases "e \<le> len")
  case True
  let ?tb = "tb\<lparr>tb_partial_row_sent := False, tb_oversized_row_counted := False\<rparr>"
  note b = boundary_end [OF e(1)]
  have "int e < trx_bytes_left tb" using b(2) size by (simp add: trx_bytes_left_def)
  then have "inv content base sent ?tb" "same_trx tb ?tb"
    using i e(1) size by (auto simp: trx_inv_def trx_sent_def trx_counts_def end_open_def same_trx_def trx_bytes_left_def)
  then obtain tb' where "send len e ?tb = Inr (Sent (take e (tb_data tb)), tb')" "inv content base (sent @ take e (tb_data tb)) tb'" "same_trx ?tb tb'"
    using send_unknown [of content base sent ?tb e len] i(2) b True size by auto
  then show ?thesis using b(1,2) \<open>same_trx tb ?tb\<close> by (auto simp: turn_good_def intro: same_trx_trans)
next
  case False
  then have "1 < length needle" "len < tb_max_trx_size tb" using e(2) size boundary_end(2) [OF e(1)] by simp_all
  then show ?thesis using i(2) False boundary_end(2) [OF e(1)]
    by (auto simp: turn_good_def overrun_def send_def consume_def Let_def)
qed

lemma send_row_part_good:
  assumes i: "inv content base sent tb" "tb_trx_end_offset tb = 0" and len: "0 < len" "len + length needle \<le> e"
    and size: "tb_trx_size tb + length (tb_data tb) < tb_max_trx_size tb" and e: "boundary (tb_data tb) e"
  shows "turn_good len boundary needle content base sent tb (send len (min len e) tb)"
proof -
  note b = boundary_end [OF e]
  have "boundary (drop len (tb_data tb)) (e - len)" using boundary_drop [OF e len(2)] .
  moreover have "int (e - len) < trx_bytes_left tb - int (min len (length (tb_data tb)))"
    using b(2) len size by (auto simp: trx_bytes_left_def)
  moreover have "tb_trx_size tb + min len (length (tb_data tb)) < tb_max_trx_size tb" using size by simp
  ultimately have "\<exists>tb'. send len len tb = Inr (Sent (take len (tb_data tb)), tb') \<and> inv content base (sent @ take len (tb_data tb)) tb' \<and>
      same_trx tb tb' \<and> tb_eof tb' = tb_eof tb \<and> tb_data tb' = drop len (tb_data tb)"
    by (intro send_unknown [OF i]) auto
  then show ?thesis using len b by (auto simp: turn_good_def min_absorb1)
qed

lemma send_rows_good:
  assumes i: "inv content base sent tb" "tb_trx_end_offset tb = 0" and len: "length needle < len" and eof: "tb_eof tb \<or> tb_data tb \<noteq> []"
    and fits: "int (length (tb_data tb)) < trx_bytes_left tb"
  shows "turn_good len boundary needle content base sent tb (send_rows find_last len tb)"
proof -
  let ?D = "tb_data tb"
  have size: "tb_trx_size tb + length ?D < tb_max_trx_size tb" using fits by (simp add: trx_bytes_left_def)
  then have part: "tb_trx_size tb + min len (length ?D) < tb_max_trx_size tb + length needle" by simp
  have left: "trx_bytes_left tb mod 2 ^ 64 = trx_bytes_left tb"
    using i(1) fits by (auto simp: trx_inv_def trx_sent_def trx_bytes_left_def)
  show ?thesis
  proof (cases "0 < find_last ?D len")
    case True
    then show ?thesis using send_whole_rows_good [OF i _ _ size] last_boundary [OF True] last_limit [OF True] len
      by (simp add: send_rows_def Let_def)
  next
    case first: False
    show ?thesis
    proof (cases "0 < find_last ?D (nat (trx_bytes_left tb))")
      case True
      have "len + length needle \<le> find_last ?D (nat (trx_bytes_left tb))"
        using last_complete [of ?D len] first len last_boundary [OF True] by simp
      then show ?thesis using send_row_part_good [OF i _ _ size last_boundary [OF True]] first True left len
        by (simp add: send_rows_def Let_def)
    next
      case False
      let ?tb = "tb\<lparr>tb_partial_row_sent := True\<rparr>"
      have "inv content base sent ?tb" "same_trx tb ?tb" using i by (auto simp: trx_inv_def trx_sent_def trx_counts_def end_open_def same_trx_def)
      then have "turn_good len boundary needle content base sent tb (send len len ?tb)"
        using i(2) len part eof by (intro turn_good_trans [OF send_partial_good]) auto
      moreover have "turn_good len boundary needle content base sent tb (send len len tb)" if "tb_partial_row_sent tb"
        using len part eof by (intro send_partial_good [OF i that]) auto
      moreover have "turn_good len boundary needle content base sent tb (send len len (set_trx_end_offset (length ?D) tb))"
        if "tb_eof tb" "0 < tb_trx_size tb"
      proof -
        note e = set_end_inv [OF i(1), of "length ?D"]
        show ?thesis using turn_good_trans [OF send_known_good [OF e(1,3), of len] e(2)] that size len by simp
      qed
      ultimately show ?thesis using first False left i
        by (simp add: send_rows_def Let_def turn_good_def same_trx_def)
    qed
  qed
qed

lemma fill_trx_inv:
  assumes i: "inv content base sent tb"
  shows "inv content base sent (fill_trx find_last tb)" "same_trx tb (fill_trx find_last tb)"
    "tb_trx_end_offset (fill_trx find_last tb) = 0 \<Longrightarrow> fill_trx find_last tb = tb"
    "\<lbrakk>tb_trx_end_offset (fill_trx find_last tb) = 0; 0 < trx_bytes_left tb; trx_bytes_left tb \<le> int (length (tb_data tb))\<rbrakk> \<Longrightarrow>
       find_last (tb_data tb) (nat (trx_bytes_left tb)) = 0"
proof -
  let ?e = "find_last (tb_data tb) (nat (trx_bytes_left tb))"
  have "inv content base sent (set_trx_end_offset ?e tb)" if "0 < trx_bytes_left tb" "0 < ?e"
  proof -
    note b = boundary_end [OF last_boundary [OF that(2)]]
    have "tb_trx_size tb + ?e < tb_max_trx_size tb + length needle"
      using last_limit [OF that(2)] that(1) by (simp add: trx_bytes_left_def)
    then show ?thesis using set_end_inv(1) [OF i _ b(2) disjI1 [OF b(3)]] that(2) by simp
  qed
  then show "inv content base sent (fill_trx find_last tb)" using i by (simp add: fill_trx_def Let_def)
  show "same_trx tb (fill_trx find_last tb)" by (simp add: fill_trx_def Let_def same_trx_def set_trx_end_offset_def)
  show "tb_trx_end_offset (fill_trx find_last tb) = 0 \<Longrightarrow> fill_trx find_last tb = tb"
    and "\<lbrakk>tb_trx_end_offset (fill_trx find_last tb) = 0; 0 < trx_bytes_left tb; trx_bytes_left tb \<le> int (length (tb_data tb))\<rbrakk> \<Longrightarrow> ?e = 0"
    by (auto simp: fill_trx_def Let_def set_trx_end_offset_def split: if_splits)
qed

lemma trx_read_turn_good:
  assumes i: "inv content base sent tb" and len: "length needle < len"
  shows "turn_good len boundary needle content base sent tb (trx_read_turn find_first find_last content grain len tb)"
proof -
  define tb1 where "tb1 = (if tb_trx_end_offset tb = 0 then read_more content grain len tb else tb)"
  have "inv content base sent tb1" "same_trx tb tb1" using i read_more_inv(1,2) [OF i, of len grain] len by (auto simp: tb1_def same_trx_def)
  note f = this fill_trx_inv [OF this(1)]
  note same = same_trx_trans [OF f(2,4)]
  have full: "tb_eof tb1 \<or> tb_data tb1 \<noteq> []" if "tb_trx_end_offset (fill_trx find_last tb1) = 0"
  proof -
    have "tb_trx_end_offset tb = 0" using that f(5) by (auto simp: tb1_def split: if_splits)
    then show ?thesis using read_more_inv(4) [OF i, of len grain] len by (simp add: tb1_def)
  qed
  consider (known) "0 < tb_trx_end_offset (fill_trx find_last tb1)"
    | (full) "tb_trx_end_offset (fill_trx find_last tb1) = 0" "trx_bytes_left tb1 \<le> int (length (tb_data tb1))"
    | (rows) "tb_trx_end_offset (fill_trx find_last tb1) = 0" "int (length (tb_data tb1)) < trx_bytes_left tb1"
    by linarith
  then show ?thesis
  proof cases
    case known
    then show ?thesis using turn_good_trans [OF send_known_good [OF f(3) known] same] len
      by (simp add: trx_read_turn_def Let_def tb1_def)
  next
    case full': full
    show ?thesis using turn_good_trans [OF send_full_good [OF f(1)] f(2)] full [OF full'(1)] f(5) [OF full'(1)] f(6) [OF full'(1)] full' len
      by (simp add: trx_read_turn_def Let_def flip: tb1_def)
  next
    case rows
    show ?thesis using turn_good_trans [OF send_rows_good [OF f(1)] f(2)] full [OF rows(1)] f(5) [OF rows(1)] rows len
      by (simp add: trx_read_turn_def Let_def flip: tb1_def)
  qed
qed

lemma trx_read_loop_good:
  assumes "inv content base sent tb" "length needle < len"
  shows "case trx_read_loop find_first find_last content grain len tb of
      Inl e \<Rightarrow> overrun len needle (tb_max_trx_size tb) e
    | Inr (out, tb') \<Rightarrow> inv content base (sent @ out) tb' \<and> same_trx tb tb' \<and> (out = [] \<longrightarrow> trx_done tb')"
  using assms(1)
proof (induction "length content - tb_offset tb" arbitrary: tb rule: less_induct)
  case less
  note turn = trx_read_turn_good [OF less.prems assms(2), of grain]
  show ?case
  proof (cases "trx_read_turn find_first find_last content grain len tb")
    case (Inl e)
    then show ?thesis using turn by (subst trx_read_loop.simps) (simp add: turn_good_def)
  next
    case (Inr r)
    obtain a tb' where r: "r = (a, tb')" by force
    show ?thesis
    proof (cases a)
      case (Sent out)
      then show ?thesis using turn Inr r by (subst trx_read_loop.simps) (simp add: turn_good_def)
    next
      case Again
      then have t: "inv content base sent tb'" "same_trx tb tb'" "length content - tb_offset tb' < length content - tb_offset tb"
        using turn Inr r trx_read_turn_again(1) by (auto simp: turn_good_def)
      show ?thesis using less.hyps [OF t(3,1)] Inr r Again t(2) same_trx_max [OF t(2)]
        by (subst trx_read_loop.simps) (auto split: sum.splits intro: same_trx_trans)
    qed
  qed
qed

end

end
