(* ===== verification/Trx_Rows.thy ===== *)
theory Trx_Rows
  imports Trx_Buffer
begin

text \<open>
  The searches for row boundaries of \<^verbatim>\<open>Transaction_buffer\<close> satisfy the interface \<open>row_finder\<close>. The backward search with an escape
  character steps over the length of a terminator, which misses nothing when the terminator does not overlap with itself.
\<close>

definition unbordered :: "string \<Rightarrow> bool" where
  "unbordered w \<longleftrightarrow> (\<forall>k \<in> set [1 ..< length w]. \<not> prefix (drop k w) w)"

definition cuts_rows :: "boundary_impl \<Rightarrow> dialect \<Rightarrow> bool" where
  "cuts_rows impl d \<longleftrightarrow> lines_terminated_by d \<noteq> [] \<and>
     (impl = Impl_default \<longrightarrow> length (lines_terminated_by d) = 1) \<and> (impl = Impl_escape \<longrightarrow> unbordered (lines_terminated_by d))"

text \<open>A terminator ends at \<open>e\<close>; it is not escaped, as far as the buffer shows.\<close>

definition row_end :: "boundary_impl \<Rightarrow> dialect \<Rightarrow> string \<Rightarrow> nat \<Rightarrow> bool" where
  "row_end impl d s e \<longleftrightarrow> length (lines_terminated_by d) \<le> e \<and>
     (let q = e - length (lines_terminated_by d)
      in prefix (lines_terminated_by d) (drop q s) \<and> (impl = Impl_escape \<longrightarrow> \<not> escaped_at d s q))"

lemma row_end_at:
  "row_end impl d s (q + length (lines_terminated_by d)) \<longleftrightarrow>
     prefix (lines_terminated_by d) (drop q s) \<and> (impl = Impl_escape \<longrightarrow> \<not> escaped_at d s q)"
  by (simp add: row_end_def)

lemma row_end_cases:
  assumes "row_end impl d s e"
  obtains q where "e = q + length (lines_terminated_by d)" "prefix (lines_terminated_by d) (drop q s)"
    "impl = Impl_escape \<longrightarrow> \<not> escaped_at d s q"
  using assms by (auto simp: row_end_def Let_def le_iff_add)

lemma prefix_drop_length: "prefix w (drop q s) \<Longrightarrow> w \<noteq> [] \<Longrightarrow> q + length w \<le> length s"
  using prefix_length_le [of w "drop q s"] by (cases w) auto

lemma row_end_suffix:
  assumes "row_end impl d s e" "lines_terminated_by d \<noteq> []"
  shows "e \<le> length s" "suffix (lines_terminated_by d) (take e s)"
proof -
  let ?w = "lines_terminated_by d"
  obtain q where q: "e = q + length ?w" "prefix ?w (drop q s)" using assms(1) by (rule row_end_cases)
  show "e \<le> length s" using prefix_drop_length [OF q(2) assms(2)] q(1) by simp
  have "take e s = take q s @ ?w" using q by (auto simp: take_add prefix_def)
  then show "suffix ?w (take e s)" by (auto simp: suffix_def)
qed

lemma row_end_append:
  assumes "row_end impl d s e" "lines_terminated_by d \<noteq> []"
  shows "row_end impl d (s @ t) e"
proof -
  obtain q where q: "e = q + length (lines_terminated_by d)" "prefix (lines_terminated_by d) (drop q s)"
    "impl = Impl_escape \<longrightarrow> \<not> escaped_at d s q" using assms(1) by (rule row_end_cases)
  have "q < length s" using prefix_drop_length [OF q(2) assms(2)] assms(2) by (cases "lines_terminated_by d") auto
  then show ?thesis using q by (auto simp: row_end_at escaped_at_def nth_append intro: prefix_order.trans)
qed

lemma escaped_at_drop: "escaped_at d (drop k s) (q - k) \<Longrightarrow> k \<le> q \<Longrightarrow> q \<le> length s \<Longrightarrow> escaped_at d s q"
  by (auto simp: escaped_at_def nth_drop)

lemma row_end_drop:
  assumes "row_end impl d s e" "k + length (lines_terminated_by d) \<le> e" "lines_terminated_by d \<noteq> []"
  shows "row_end impl d (drop k s) (e - k)"
proof -
  obtain q where q: "e = q + length (lines_terminated_by d)" "prefix (lines_terminated_by d) (drop q s)"
    "impl = Impl_escape \<longrightarrow> \<not> escaped_at d s q" using assms(1) by (rule row_end_cases)
  have e: "e - k = (q - k) + length (lines_terminated_by d)" "k \<le> q" using q(1) assms(2) by auto
  have "impl = Impl_escape \<longrightarrow> \<not> escaped_at d (drop k s) (q - k)"
    using q(3) escaped_at_drop e(2) prefix_drop_length [OF q(2) assms(3)] by auto
  then show ?thesis unfolding e(1) row_end_at using q(2) e(2) by simp
qed

section \<open>The searches\<close>

lemma find_first_escape_from_end:
  "0 < find_first_escape_from d s p \<Longrightarrow> row_end Impl_escape d s (find_first_escape_from d s p)"
proof (induction d s p rule: find_first_escape_from.induct)
  case (1 d s p)
  then show ?case
    by (subst find_first_escape_from.simps, subst (asm) (2) find_first_escape_from.simps)
      (auto simp: row_end_at Let_def dest: find_sub_from_bounds(3) split: option.splits if_splits)
qed

lemma unbordered_apart:
  assumes "unbordered w" "prefix w (drop j s)" "prefix w (drop q s)" "j < q"
  shows "j + length w \<le> q"
proof (rule ccontr)
  assume "\<not> j + length w \<le> q"
  then have k: "q - j \<in> set [1 ..< length w]" using assms(4) by auto
  obtain t where "drop j s = w @ t" using assms(2) by (auto simp: prefix_def)
  then have "drop q s = drop (q - j) w @ t" using k assms(4) by (metis add_diff_inverse_nat atLeastLessThan_iff drop_append drop_drop
    less_or_eq_imp_le linorder_not_less append_Nil2 cancel_comm_monoid_add_class.diff_cancel diff_is_0_eq drop0 set_upt add.commute)
  then have "prefix (drop (q - j) w) w" using assms(3) by (metis prefix_same_cases prefixI prefix_length_prefix length_drop diff_le_self)
  then show False using assms(1) k by (auto simp: unbordered_def)
qed

lemma find_last_escape_from_end:
  "0 < find_last_escape_from d s p \<Longrightarrow>
     row_end Impl_escape d s (find_last_escape_from d s p) \<and> find_last_escape_from d s p \<le> p + length (lines_terminated_by d)"
proof (induction d s p rule: find_last_escape_from.induct)
  case (1 d s p)
  show ?case
  proof (cases "rfind_sub (lines_terminated_by d) s p")
    case None
    then show ?thesis using 1(2) by (subst (asm) find_last_escape_from.simps) simp
  next
    case (Some q)
    then have q: "q \<le> p" "prefix (lines_terminated_by d) (drop q s)" by (auto simp: rfind_sub_Some_iff)
    have "find_last_escape_from d s p =
      (if \<not> escaped_at d s q then q + length (lines_terminated_by d)
       else if q < length (lines_terminated_by d) \<or> lines_terminated_by d = [] then 0
       else find_last_escape_from d s (q - length (lines_terminated_by d)))"
      using Some by (subst find_last_escape_from.simps) simp
    then show ?thesis using 1 Some q by (fastforce simp: row_end_at)
  qed
qed

lemma find_last_escape_from_none:
  "\<lbrakk>find_last_escape_from d s p = 0; lines_terminated_by d \<noteq> []; unbordered (lines_terminated_by d); j \<le> p;
    prefix (lines_terminated_by d) (drop j s)\<rbrakk> \<Longrightarrow> escaped_at d s j"
proof (induction d s p rule: find_last_escape_from.induct)
  case (1 d s p)
  have j: "j \<le> length s" using prefix_drop_length [OF "1.prems"(5,2)] by simp
  show ?case
  proof (cases "rfind_sub (lines_terminated_by d) s p")
    case None
    then show ?thesis using "1.prems" j by (auto simp: rfind_sub_None_iff)
  next
    case (Some q)
    then have q: "prefix (lines_terminated_by d) (drop q s)" "j \<le> q"
      using "1.prems" j by (auto simp: rfind_sub_Some_iff not_less intro: leI)
    have f: "find_last_escape_from d s p =
      (if \<not> escaped_at d s q then q + length (lines_terminated_by d)
       else if q < length (lines_terminated_by d) \<or> lines_terminated_by d = [] then 0
       else find_last_escape_from d s (q - length (lines_terminated_by d)))"
      using Some by (subst find_last_escape_from.simps) simp
    then have e: "escaped_at d s q" using "1.prems"(1,2) by (auto split: if_splits)
    show ?thesis
    proof (cases "j = q")
      case False
      then have "j + length (lines_terminated_by d) \<le> q" using unbordered_apart [OF "1.prems"(3,5) q(1)] q(2) by simp
      then show ?thesis using "1.IH" [OF refl Some] "1.prems" e f by (auto split: if_splits)
    qed (simp add: e)
  qed
qed

lemma search_from_last:
  assumes "0 < limit" "w \<noteq> []"
  shows "q \<le> search_from s limit \<Longrightarrow> prefix w (drop q s) \<Longrightarrow> q < limit"
    and "search_from s limit < q \<Longrightarrow> prefix w (drop q s) \<Longrightarrow> limit \<le> q"
    and "search_from s limit < length w \<Longrightarrow> length w < limit \<Longrightarrow> prefix w (drop q s) \<Longrightarrow> limit \<le> q"
  using assms prefix_drop_length [of w q s] by (cases w; auto simp: search_from_def size_sub_def split: if_splits)+

lemma find_last_none:
  assumes "find_last_row_boundary_before impl d s limit = 0" "cuts_rows impl d" "length (lines_terminated_by d) < limit" "row_end impl d s e"
  shows "limit + length (lines_terminated_by d) \<le> e"
proof -
  let ?w = "lines_terminated_by d" and ?p = "search_from s limit"
  obtain q where q: "e = q + length ?w" "prefix ?w (drop q s)" "impl = Impl_escape \<longrightarrow> \<not> escaped_at d s q"
    using assms(4) by (rule row_end_cases)
  have w: "?w \<noteq> []" "impl = Impl_default \<Longrightarrow> ?w = [hd ?w]" "impl = Impl_escape \<Longrightarrow> unbordered ?w"
    using assms(2) by (auto simp: cuts_rows_def length_Suc_conv)
  have "?p < q \<or> ?p < length ?w"
  proof (rule ccontr)
    assume "\<not> (?p < q \<or> ?p < length ?w)"
    then have p: "q \<le> ?p" "length ?w \<le> ?p" "0 < ?p" using w(1) by (auto intro: gr0I)
    have "rfind_sub ?w s ?p \<noteq> None" using p(1) q(2) prefix_drop_length [OF q(2) w(1)] by (auto simp: rfind_sub_None_iff)
    then obtain r where r: "rfind_sub ?w s ?p = Some r" by blast
    then have "r < length s" using prefix_drop_length [OF _ w(1), of r s] w(1) by (cases ?w) (auto simp: rfind_sub_Some_iff)
    then show False
      using assms(1) p r w find_last_escape_from_none [OF _ w(1,3) p(1) q(2)] q(3)
      by (cases impl) (auto simp: find_last_default_def find_last_no_escape_def find_last_escape_def Let_def)
  qed
  then show ?thesis using search_from_last(2,3) [OF _ w(1)] q assms(3) by auto
qed

lemma find_last_some:
  assumes "0 < find_last_row_boundary_before impl d s limit" "cuts_rows impl d"
  shows "row_end impl d s (find_last_row_boundary_before impl d s limit)"
    and "0 < limit \<Longrightarrow> find_last_row_boundary_before impl d s limit < limit + length (lines_terminated_by d)"
proof -
  let ?w = "lines_terminated_by d" and ?p = "search_from s limit" and ?e = "find_last_row_boundary_before impl d s limit"
  have w: "?w \<noteq> []" "impl = Impl_default \<Longrightarrow> ?w = [hd ?w]" "impl = Impl_default \<Longrightarrow> length ?w = 1"
    using assms(2) by (auto simp: cuts_rows_def length_Suc_conv)
  have "row_end impl d s ?e \<and> ?e \<le> ?p + length ?w"
  proof (cases "impl = Impl_escape")
    case True
    then show ?thesis using assms(1) find_last_escape_from_end [of d s ?p] by (auto simp: find_last_escape_def Let_def split: if_splits)
  next
    case False
    obtain q where "rfind_sub ?w s ?p = Some q" "?e = q + length ?w"
      using assms(1) w False by (cases impl) (auto simp: find_last_default_def find_last_no_escape_def Let_def split: if_splits option.splits)
    then show ?thesis using False by (auto simp: row_end_at rfind_sub_Some_iff)
  qed
  then show "row_end impl d s ?e" "0 < limit \<Longrightarrow> ?e < limit + length ?w"
    using search_from_last(1) [OF _ w(1)] by (auto elim!: row_end_cases)
qed

lemma find_first_some:
  assumes "0 < find_first_row_boundary_after impl d s" "cuts_rows impl d"
  shows "row_end impl d s (find_first_row_boundary_after impl d s)"
proof (cases impl)
  case Impl_default
  then have w: "lines_terminated_by d = [hd (lines_terminated_by d)]" using assms(2) by (auto simp: cuts_rows_def length_Suc_conv)
  obtain q where q: "find_char (hd (lines_terminated_by d)) s 0 = Some q" "find_first_row_boundary_after impl d s = q + 1"
    using assms(1) Impl_default by (auto simp: find_first_default_def split: option.splits)
  then have "prefix [hd (lines_terminated_by d)] (drop q s)" using find_from_bounds(2,3) [OF q(1)] by (simp add: Cons_nth_drop_Suc [symmetric])
  then show ?thesis using row_end_at [of impl d s q] q(2) Impl_default w by (metis One_nat_def boundary_impl.distinct(3) length_Cons list.size(3))
next
  case Impl_no_escape
  then obtain q where "find_sub (lines_terminated_by d) s = Some q" "find_first_row_boundary_after impl d s = q + length (lines_terminated_by d)"
    using assms(1) by (auto simp: find_first_no_escape_def Let_def split: option.splits if_splits)
  then show ?thesis using Impl_no_escape by (simp add: row_end_at find_sub_Some_iff)
next
  case Impl_escape
  then show ?thesis using assms(1) find_first_escape_from_end [of d s 0] by (simp add: find_first_escape_def)
qed

lemma searches_find_rows:
  assumes "cuts_rows impl d"
  shows "row_finder (find_first_row_boundary_after impl d) (find_last_row_boundary_before impl d) (row_end impl d) (lines_terminated_by d)"
proof -
  have "lines_terminated_by d \<noteq> []" using assms by (simp add: cuts_rows_def)
  then show ?thesis
    using assms find_first_some find_last_some find_last_none row_end_suffix row_end_append row_end_drop
    by unfold_locales auto
qed

interpretation default_finder: row_finder "find_first_row_boundary_after Impl_default default_dialect"
    "find_last_row_boundary_before Impl_default default_dialect" "row_end Impl_default default_dialect" "lines_terminated_by default_dialect"
  by (rule searches_find_rows) (simp add: cuts_rows_def default_dialect_def)

interpretation csv_finder: row_finder "find_first_row_boundary_after Impl_escape csv"
    "find_last_row_boundary_before Impl_escape csv" "row_end Impl_escape csv" "lines_terminated_by csv"
  by (rule searches_find_rows) (simp add: cuts_rows_def csv_def unbordered_def)

end
