(* ===== verification/Trx_Loads.thy ===== *)
theory Trx_Loads
  imports Trx_Rows Import_Memory
begin

text \<open>
  The loop of \<^verbatim>\<open>Load_data_worker::execute\<close> over the transactions of a file that is not read by range: a statement asks for data until it gets none; when
  the server has rolled it back because of a deadlock, the file is rewound and the statement sent again; \<^verbatim>\<open>flush_done\<close> says whether another statement is
  needed.

  A request is for \<open>len\<close> bytes. The number of reads of each statement that fails is given; \<open>message\<close> is what the server says of it.
\<close>

section \<open>Statements\<close>

definition pending :: "string \<Rightarrow> trx_buffer \<Rightarrow> nat" where
  "pending content tb = length (tb_data tb) + (length content - tb_offset tb)"

lemma pending_send: "send len n tb = Inr (Sent out, tb') \<Longrightarrow> pending content tb' + length out = pending content tb"
  by (auto simp: send_def consume_def Let_def pending_def split: if_splits)

lemma pending_read_more: "pending content (read_more content grain len tb) \<le> pending content tb"
  by (auto simp: read_more_def Let_def pending_def file_piece_def)

lemma pending_update [simp]:
  "pending content (set_trx_end_offset e tb) = pending content tb" "pending content (mark_oversized_row tb) = pending content tb"
  "pending content (tb\<lparr>tb_partial_row_sent := b\<rparr>) = pending content tb" "pending content (tb\<lparr>tb_oversized_row_counted := b\<rparr>) = pending content tb"
  "pending content (fill_trx find_last tb) = pending content tb"
  by (auto simp: pending_def set_trx_end_offset_def mark_oversized_row_def fill_trx_def Let_def)

lemma pending_turn:
  assumes "trx_read_turn find_first find_last content grain len tb = Inr (Sent out, tb')"
  shows "pending content tb' + length out \<le> pending content tb"
proof -
  define tb1 where "tb1 = (if tb_trx_end_offset tb = 0 then read_more content grain len tb else tb)"
  have "pending content tb' + length out = pending content (fill_trx find_last tb1)"
    using assms unfolding trx_read_turn_def Let_def tb1_def [symmetric]
    by (auto simp del: pending_update(5) simp: send_full_def send_oversized_def send_rows_def Let_def dest!: pending_send [where content = content] split: if_splits)
  then show ?thesis using pending_read_more [of content grain len tb] by (simp add: tb1_def split: if_splits)
qed

lemma pending_loop:
  "trx_read_loop find_first find_last content grain len tb = Inr (out, tb') \<Longrightarrow> pending content tb' + length out \<le> pending content tb"
proof (induction find_first find_last content grain len tb rule: trx_read_loop.induct)
  case (1 find_first find_last content grain len tb)
  show ?case
  proof (cases "trx_read_turn find_first find_last content grain len tb")
    case (Inr r)
    obtain a tb1 where r: "r = (a, tb1)" by force
    show ?thesis
    proof (cases a)
      case (Sent out')
      then show ?thesis using "1.prems" Inr r pending_turn [of find_first find_last content grain len tb out' tb1] by (subst (asm) trx_read_loop.simps) simp
    next
      case Again
      have "pending content tb1 \<le> pending content tb"
        using trx_read_turn_again(2) [of find_first find_last content grain len tb tb1] Inr r Again pending_read_more by metis
      moreover have "trx_read_loop find_first find_last content grain len tb1 = Inr (out, tb')"
        using "1.prems" Inr r Again by (subst (asm) trx_read_loop.simps) simp
      ultimately show ?thesis using "1.IH" [OF Inr r [symmetric] Again] Inr r Again by simp
    qed
  qed (use "1.prems" in \<open>subst (asm) trx_read_loop.simps, simp\<close>)
qed

lemma infile_read_pending:
  assumes "infile_read content grain len tb = Inr (out, tb')" "out \<noteq> []"
  shows "pending content tb' < pending content tb"
proof -
  have "pending content tb' + length out \<le> pending content tb"
  proof (cases "tb_max_trx_size tb = 0")
    case True
    then show ?thesis using assms by (auto simp: infile_read_def trx_read_def Let_def pending_def file_piece_def split: if_splits)
  next
    case False
    then show ?thesis using assms pending_loop by (auto simp: infile_read_def trx_read_def split: if_splits option.splits)
  qed
  then show ?thesis using assms(2) by (cases out) auto
qed

function load_statement :: "string \<Rightarrow> (nat \<Rightarrow> nat) \<Rightarrow> nat \<Rightarrow> trx_buffer \<Rightarrow> (string \<times> trx_buffer) result" where
  "load_statement content grain len tb =
     (case infile_read content grain len tb of
        Inl e \<Rightarrow> Inl e
      | Inr (out, tb') \<Rightarrow>
          if out = [] then Inr ([], tb')
          else case load_statement content grain len tb' of
                 Inl e \<Rightarrow> Inl e
               | Inr (outs, tb'') \<Rightarrow> Inr (out @ outs, tb''))"
  by pat_completeness auto
termination
  by (relation "measure (\<lambda>(content, _, _, tb). pending content tb)") (auto dest: infile_read_pending)

declare load_statement.simps [simp del]

fun failed_reads :: "nat \<Rightarrow> string \<Rightarrow> (nat \<Rightarrow> nat) \<Rightarrow> nat \<Rightarrow> trx_buffer \<Rightarrow> trx_buffer result" where
  "failed_reads 0 content grain len tb = Inr tb"
| "failed_reads (Suc k) content grain len tb =
     (case infile_read content grain len tb of
        Inl e \<Rightarrow> Inl e
      | Inr (out, tb') \<Rightarrow> if out = [] then Inr tb' else failed_reads k content grain len tb')"

fun trx_attempts :: "string \<Rightarrow> string \<Rightarrow> (nat \<Rightarrow> nat) \<Rightarrow> bool \<Rightarrow> nat \<Rightarrow> nat \<times> nat \<Rightarrow> nat list \<Rightarrow> trx_buffer \<Rightarrow>
    (string \<times> trx_buffer) result" where
  "trx_attempts message content grain seekable len pause [] tb = load_statement content grain len tb"
| "trx_attempts message content grain seekable len pause (k # ks) tb =
     (case failed_reads k content grain len tb of
        Inl e \<Rightarrow> Inl e
      | Inr tb1 \<Rightarrow>
          (case retry_pause pause of
             None \<Rightarrow> Inl (Runtime_error message)
           | Some pause' \<Rightarrow>
               (case try_rewind_for_retry seekable tb1 of
                  (rewound, tb2) \<Rightarrow>
                    if rewound then trx_attempts message content grain seekable len pause' ks tb2
                    else Inl (Runtime_error message))))"

text \<open>A transaction is given by its bytes and the number of oversized rows that were noticed.\<close>

definition load_transaction :: "string \<Rightarrow> string \<Rightarrow> (nat \<Rightarrow> nat) \<Rightarrow> bool \<Rightarrow> bool \<Rightarrow> nat \<Rightarrow> nat list \<Rightarrow> trx_buffer \<Rightarrow>
    ((string \<times> nat) \<times> bool \<times> trx_buffer) result" where
  "load_transaction message content grain seekable tellable len failed tb =
     (case trx_attempts message content grain seekable len (200, 0) failed (mark_retry_point tellable tb) of
        Inl e \<Rightarrow> Inl e
      | Inr (out, tb') \<Rightarrow> Inr ((out, tb_oversized_rows tb'), flush_done tb'))"

fun load_transactions :: "nat \<Rightarrow> string \<Rightarrow> string \<Rightarrow> (nat \<Rightarrow> nat) \<Rightarrow> bool \<Rightarrow> bool \<Rightarrow> nat \<Rightarrow> (nat \<Rightarrow> nat list) \<Rightarrow> nat \<Rightarrow> trx_buffer \<Rightarrow>
    (string \<times> nat) list result option" where
  "load_transactions 0 message content grain seekable tellable len failures subchunk tb = None"
| "load_transactions (Suc n) message content grain seekable tellable len failures subchunk tb =
     (case load_transaction message content grain seekable tellable len (failures subchunk) tb of
        Inl e \<Rightarrow> Some (Inl e)
      | Inr (t, continuation, tb') \<Rightarrow>
          if continuation
          then map_option (map_sum id ((#) t)) (load_transactions n message content grain seekable tellable len failures (Suc subchunk) tb')
          else Some (Inr [t]))"

definition load_file :: "string \<Rightarrow> string \<Rightarrow> (nat \<Rightarrow> nat) \<Rightarrow> bool \<Rightarrow> bool \<Rightarrow> nat \<Rightarrow> (nat \<Rightarrow> nat list) \<Rightarrow> trx_buffer \<Rightarrow>
    (string \<times> nat) list result option" where
  "load_file message content grain seekable tellable len failures tb =
     load_transactions (Suc (length content)) message content grain seekable tellable len failures 1 tb"

section \<open>Between statements\<close>

text \<open>A buffer at the beginning of a transaction, whose first byte is at \<open>base\<close> in the file.\<close>

definition trx_start :: "string \<Rightarrow> nat \<Rightarrow> trx_buffer \<Rightarrow> bool" where
  "trx_start content base tb \<longleftrightarrow> trx_sent content base [] tb \<and> tb_trx_end_offset tb = 0 \<and> \<not> tb_oversized_row_counted tb"

definition retry_at :: "nat \<Rightarrow> trx_buffer \<Rightarrow> bool" where
  "retry_at base tb \<longleftrightarrow> (tb_retry_point_valid tb \<longrightarrow> tb_retry_offset tb = base)"

definition rows_of :: "boundary_impl \<Rightarrow> dialect \<Rightarrow> trx_buffer \<Rightarrow> bool" where
  "rows_of impl d tb \<longleftrightarrow> tb_impl tb = Some impl \<and> tb_dialect tb = d \<and> cuts_rows impl d"

lemma same_trx_keeps:
  assumes "same_trx tb tb'"
  shows "rows_of impl d tb' = rows_of impl d tb" "retry_at base tb' = retry_at base tb" "tb_max_trx_size tb' = tb_max_trx_size tb"
  using assms by (auto simp: same_trx_def rows_of_def retry_at_def)

lemma trx_start_inv: "trx_start content base tb \<Longrightarrow> trx_inv boundary needle content base [] tb"
  by (auto simp: trx_start_def trx_inv_def trx_sent_def trx_counts_def end_open_def)

lemma mark_start:
  assumes "trx_start content base tb"
  shows "trx_start content base (mark_retry_point tellable tb)" "retry_at base (mark_retry_point tellable tb)"
    "rows_of impl d (mark_retry_point tellable tb) = rows_of impl d tb" "tb_max_trx_size (mark_retry_point tellable tb) = tb_max_trx_size tb"
  using assms by (auto simp: trx_start_def trx_sent_def mark_retry_point_def retry_at_def rows_of_def)

lemma rewind_start:
  assumes "trx_inv boundary needle content base sent tb" "retry_at base tb" "try_rewind_for_retry seekable tb = (True, tb')"
  shows "trx_start content base tb'" "retry_at base tb'" "rows_of impl d tb' = rows_of impl d tb" "tb_max_trx_size tb' = tb_max_trx_size tb"
  using assms by (auto simp: try_rewind_for_retry_def trx_inv_def trx_sent_def trx_start_def retry_at_def rows_of_def split: if_splits)

text \<open>What the end of a statement leaves: either more data follows, and the transaction ends with a row, or everything has been sent.\<close>

lemma flush_start:
  assumes "trx_inv boundary needle content base sent tb" "trx_done tb" "flush_done tb = (goes_on, tb')"
  shows "trx_start content (base + length sent) tb'" "rows_of impl d tb' = rows_of impl d tb" "tb_max_trx_size tb' = tb_max_trx_size tb"
    and "prefix sent (drop base content)"
    and "goes_on \<Longrightarrow> suffix needle sent \<and> sent \<noteq> []" and "\<not> goes_on \<Longrightarrow> sent = drop base content"
    and "tb_oversized_rows tb = 0 \<Longrightarrow> length sent < tb_max_trx_size tb + length needle"
proof -
  note i = assms(1) [unfolded trx_inv_def]
  have s: "sent @ tb_data tb @ drop (tb_offset tb) content = drop base content" "length sent = tb_trx_size tb" "0 < tb_max_trx_size tb"
    "tb_offset tb = base + length sent + length (tb_data tb)" "tb_eof tb \<Longrightarrow> length content \<le> tb_offset tb"
    using i by (auto simp: trx_sent_def)
  show "prefix sent (drop base content)" using s(1) by (metis prefixI)
  show "tb_oversized_rows tb = 0 \<Longrightarrow> length sent < tb_max_trx_size tb + length needle" using i s(2) by (simp add: trx_counts_def)
  have rest: "tb_data tb @ drop (tb_offset tb) content = drop (base + length sent) content"
    using arg_cong [OF s(1), of "drop (length sent)"] by (simp add: add.commute)
  then show "trx_start content (base + length sent) tb'"
    using i assms(3) s(4) by (auto simp: trx_start_def trx_sent_def flush_done_def)
  show "rows_of impl d tb' = rows_of impl d tb" "tb_max_trx_size tb' = tb_max_trx_size tb"
    using assms(3) by (auto simp: flush_done_def rows_of_def)
  show "goes_on \<Longrightarrow> suffix needle sent \<and> sent \<noteq> []"
    using assms(2,3) i s(2) by (auto simp: flush_done_def trx_done_def end_known_def)
  show "\<not> goes_on \<Longrightarrow> sent = drop base content"
    using assms(3) s by (auto simp: flush_done_def)
qed

section \<open>A statement\<close>

lemma infile_read_good:
  assumes i: "trx_inv (row_end impl d) (lines_terminated_by d) content base sent tb" and r: "rows_of impl d tb" and len: "length (lines_terminated_by d) < len"
  shows "case infile_read content grain len tb of
      Inl e \<Rightarrow> overrun len (lines_terminated_by d) (tb_max_trx_size tb) e
    | Inr (out, tb') \<Rightarrow> trx_inv (row_end impl d) (lines_terminated_by d) content base (sent @ out) tb' \<and> same_trx tb tb' \<and> (out = [] \<longrightarrow> trx_done tb')"
proof (cases "flush_pending tb")
  case True
  then have "trx_done tb" using i by (auto simp: flush_pending_def trx_done_def trx_inv_def end_known_def)
  then show ?thesis using True i by (simp add: infile_read_def same_trx_def)
next
  case False
  have "cuts_rows impl d" using r by (simp add: rows_of_def)
  note loop = row_finder.trx_read_loop_good [OF searches_find_rows [OF this] i len, of grain]
  have "0 < tb_max_trx_size tb" using i by (simp add: trx_inv_def trx_sent_def)
  then show ?thesis using loop False r by (simp add: infile_read_def trx_read_def rows_of_def)
qed

lemma load_statement_good:
  assumes "trx_inv (row_end impl d) (lines_terminated_by d) content base sent tb" "rows_of impl d tb" "length (lines_terminated_by d) < len"
  shows "case load_statement content grain len tb of
      Inl e \<Rightarrow> overrun len (lines_terminated_by d) (tb_max_trx_size tb) e
    | Inr (out, tb') \<Rightarrow> trx_inv (row_end impl d) (lines_terminated_by d) content base (sent @ out) tb' \<and> same_trx tb tb' \<and> trx_done tb'"
  using assms
proof (induction content grain len tb arbitrary: sent rule: load_statement.induct)
  case (1 content grain len tb)
  note read = infile_read_good [OF "1.prems", of grain]
  show ?case
  proof (cases "infile_read content grain len tb")
    case (Inl e)
    then show ?thesis using read by (subst load_statement.simps) simp
  next
    case (Inr r)
    obtain out tb1 where r: "r = (out, tb1)" by force
    show ?thesis
    proof (cases "out = []")
      case True
      then show ?thesis using read Inr r by (subst load_statement.simps) simp
    next
      case False
      have t: "trx_inv (row_end impl d) (lines_terminated_by d) content base (sent @ out) tb1" "same_trx tb tb1" using read Inr r by simp_all
      have "case load_statement content grain len tb1 of Inl e \<Rightarrow> overrun len (lines_terminated_by d) (tb_max_trx_size tb1) e
        | Inr (out', tb') \<Rightarrow> trx_inv (row_end impl d) (lines_terminated_by d) content base ((sent @ out) @ out') tb' \<and> same_trx tb1 tb' \<and> trx_done tb'"
        using "1.IH" [OF Inr r [symmetric] False t(1)] same_trx_keeps(1) [OF t(2)] "1.prems"(2,3) by simp
      then show ?thesis using Inr r False t(2) same_trx_max [OF t(2)]
        by (subst load_statement.simps) (auto split: sum.splits intro: same_trx_trans)
    qed
  qed
qed

lemma failed_reads_good:
  assumes "trx_inv (row_end impl d) (lines_terminated_by d) content base sent tb" "rows_of impl d tb" "length (lines_terminated_by d) < len"
  shows "case failed_reads k content grain len tb of
      Inl e \<Rightarrow> overrun len (lines_terminated_by d) (tb_max_trx_size tb) e
    | Inr tb' \<Rightarrow> (\<exists>sent. trx_inv (row_end impl d) (lines_terminated_by d) content base sent tb') \<and> same_trx tb tb'"
  using assms(1,2)
proof (induction k arbitrary: sent tb)
  case 0
  then show ?case by (auto simp: same_trx_def)
next
  case (Suc k)
  note read = infile_read_good [OF Suc.prems assms(3), of grain]
  show ?case
  proof (cases "infile_read content grain len tb")
    case (Inl e)
    then show ?thesis using read by simp
  next
    case (Inr r)
    obtain out tb1 where r: "r = (out, tb1)" by force
    have t: "trx_inv (row_end impl d) (lines_terminated_by d) content base (sent @ out) tb1" "same_trx tb tb1" using read Inr r by simp_all
    have "rows_of impl d tb1" using same_trx_keeps(1) [OF t(2)] Suc.prems(2) by simp
    from Suc.IH [OF t(1) this] show ?thesis using Inr r t same_trx_max [OF t(2)] by (auto split: sum.splits intro: same_trx_trans)
  qed
qed

text \<open>The statement is given up when it cannot be sent again, or has failed too often.\<close>

definition given_up :: "bool \<Rightarrow> bool \<Rightarrow> nat list \<Rightarrow> bool" where
  "given_up seekable tellable failed \<longleftrightarrow> failed \<noteq> [] \<and> (\<not> seekable \<or> \<not> tellable \<or> 8 < length failed)"

lemma trx_attempts_good:
  assumes "trx_start content base tb" "retry_at base tb" "rows_of impl d tb" "length (lines_terminated_by d) < len"
  shows "case trx_attempts message content grain seekable len pause failed tb of
      Inl e \<Rightarrow> overrun len (lines_terminated_by d) (tb_max_trx_size tb) e \<or>
        e = Runtime_error message \<and> failed \<noteq> [] \<and>
          (\<not> seekable \<or> \<not> tb_retry_point_valid tb \<or> \<not> retries_allowed pause (length failed))
    | Inr (out, tb') \<Rightarrow> trx_inv (row_end impl d) (lines_terminated_by d) content base out tb' \<and> rows_of impl d tb' \<and> trx_done tb' \<and>
        tb_max_trx_size tb' = tb_max_trx_size tb"
  using assms(1-3)
proof (induction failed arbitrary: pause tb)
  case Nil
  then show ?case using load_statement_good [OF trx_start_inv [OF Nil(1)] Nil(3) assms(4), of grain]
    by (auto split: sum.splits dest: same_trx_keeps)
next
  case (Cons k ks)
  note reads = failed_reads_good [OF trx_start_inv [OF Cons.prems(1)] Cons.prems(3) assms(4), of k grain]
  show ?case
  proof (cases "failed_reads k content grain len tb")
    case (Inl e)
    then show ?thesis using reads by simp
  next
    case (Inr tb1)
    obtain sent where t: "trx_inv (row_end impl d) (lines_terminated_by d) content base sent tb1" "same_trx tb tb1" using reads Inr by auto
    obtain ok tb2 where w: "try_rewind_for_retry seekable tb1 = (ok, tb2)" by force
    have valid: "tb_retry_point_valid tb1 = tb_retry_point_valid tb" using t(2) by (simp add: same_trx_def)
    show ?thesis
    proof (cases "retry_pause pause")
      case (Some pause')
      show ?thesis
      proof (cases ok)
        case True
        have "retry_at base tb1" using same_trx_keeps(2) [OF t(2)] Cons.prems(2) by simp
        note start = rewind_start [OF t(1) this, of seekable tb2]
        have "rows_of impl d tb2" "tb_max_trx_size tb2 = tb_max_trx_size tb"
          using start(3,4) same_trx_keeps(1,3) [OF t(2)] Cons.prems(3) w True by simp_all
        moreover have "tb_retry_point_valid tb2 = tb_retry_point_valid tb"
          using w True valid by (auto simp: try_rewind_for_retry_def split: if_splits)
        ultimately show ?thesis using Cons.IH [of tb2 pause'] start(1,2) Inr w Some True by (auto split: sum.splits)
      next
        case False
        then have "\<not> seekable \<or> \<not> tb_retry_point_valid tb" using w valid by (auto simp: try_rewind_for_retry_def split: if_splits)
        then show ?thesis using False by (auto simp: Inr w Some)
      qed
    qed (simp add: Inr)
  qed
qed

section \<open>All transactions of a file\<close>

definition transactions_ok :: "string \<Rightarrow> nat \<Rightarrow> string \<Rightarrow> (string \<times> nat) list \<Rightarrow> bool" where
  "transactions_ok needle max_size content trxs \<longleftrightarrow>
     concat (map fst trxs) = content \<and> (\<forall>t \<in> set (butlast trxs). suffix needle (fst t)) \<and>
     (\<forall>t \<in> set trxs. snd t = 0 \<longrightarrow> length (fst t) < max_size + length needle)"

lemma load_transactions_good:
  assumes "trx_start content base tb" "rows_of impl d tb" "length (lines_terminated_by d) < len" "length content - base < n"
  shows "case load_transactions n message content grain seekable tellable len failures subchunk tb of
      None \<Rightarrow> False
    | Some (Inl e) \<Rightarrow> overrun len (lines_terminated_by d) (tb_max_trx_size tb) e \<or>
        e = Runtime_error message \<and> (\<exists>k. given_up seekable tellable (failures k))
    | Some (Inr trxs) \<Rightarrow> trxs \<noteq> [] \<and> transactions_ok (lines_terminated_by d) (tb_max_trx_size tb) (drop base content) trxs"
  using assms(1,2,4)
proof (induction n arbitrary: base subchunk tb)
  case (Suc n)
  let ?w = "lines_terminated_by d"
  note m = mark_start [OF Suc.prems(1), where tellable = tellable]
  note a = trx_attempts_good [OF m(1,2) m(3) [THEN iffD2, OF Suc.prems(2)] assms(3),
    where message = message and grain = grain and seekable = seekable and pause = "(200, 0)" and failed = "failures subchunk"]
  show ?case
  proof (cases "trx_attempts message content grain seekable len (200, 0) (failures subchunk) (mark_retry_point tellable tb)")
    case (Inl e)
    then show ?thesis using a m(4)
      by (auto simp: load_transaction_def given_up_def retries_allowed_iff mark_retry_point_def)
  next
    case (Inr r)
    obtain out tb1 goes_on tb2 where r: "r = (out, tb1)" "flush_done tb1 = (goes_on, tb2)" by force
    then have i: "trx_inv (row_end impl d) ?w content base out tb1" "rows_of impl d tb1" "trx_done tb1" "tb_max_trx_size tb1 = tb_max_trx_size tb"
      using a Inr m(4) by auto
    note f = flush_start [OF i(1,3) r(2)]
    show ?thesis
    proof (cases goes_on)
      case False
      then show ?thesis using Inr r f(6,7) i(4) by (auto simp: load_transaction_def transactions_ok_def)
    next
      case True
      have split: "out @ drop (base + length out) content = drop base content"
        using f(4) by (auto simp: prefix_def) (metis append_eq_conv_conj drop_drop add.commute)
      have "length content - (base + length out) < n"
        using f(5) [OF True] prefix_length_le [OF f(4)] Suc.prems(3) by (cases out) auto
      note rest = Suc.IH [OF f(1) f(2) [THEN iffD2, OF i(2)] this, of "Suc subchunk"]
      show ?thesis using rest Inr r True f(3) f(5) [OF True] f(7) i(4) split
        by (auto simp: load_transaction_def transactions_ok_def split: option.splits sum.splits)
    qed
  qed
qed simp

section \<open>A file\<close>

lemma skip_reading_drop: "drop (skip_reading content grain skip_bytes offset) content = drop (offset + skip_bytes) content"
proof (induction content grain skip_bytes offset rule: skip_reading.induct)
  case (1 content grain skip_bytes offset)
  let ?bytes = "file_piece content grain offset (min skip_bytes 1024)"
  have "length ?bytes \<le> skip_bytes" by (simp add: file_piece_def)
  moreover have "length content \<le> offset" if "0 < skip_bytes" "?bytes = []" using that by (auto simp: file_piece_def)
  ultimately show ?case using 1 by (subst skip_reading.simps) (auto simp: Let_def)
qed

lemma new_trx_buffer_start:
  assumes "lines_terminated_by d \<noteq> []" "fields_terminated_by d \<noteq> lines_terminated_by d"
    "fields_escaped_by d = [] \<or> unbordered (lines_terminated_by d)" "0 < max_size" "max_size < 2 ^ 63"
  shows "\<exists>base impl. trx_start content base (new_trx_buffer content grain seekable d max_size skip_bytes) \<and>
    drop base content = drop skip_bytes content \<and> rows_of impl d (new_trx_buffer content grain seekable d max_size skip_bytes)"
proof -
  let ?tb = "new_trx_buffer content grain seekable d max_size skip_bytes"
  have "trx_start content (tb_offset ?tb) ?tb"
    using assms by (simp add: new_trx_buffer_def trx_start_def trx_sent_def Let_def)
  moreover have "drop (tb_offset ?tb) content = drop skip_bytes content"
    using skip_reading_drop [of content grain skip_bytes 0] by (simp add: new_trx_buffer_def Let_def)
  moreover have "\<exists>impl. rows_of impl d ?tb"
    using assms by (auto simp: new_trx_buffer_def rows_of_def cuts_rows_def Let_def dialect_eq_def default_dialect_def)
  ultimately show ?thesis by blast
qed

text \<open>C7: A file is loaded in transactions of limited size; the line terminator is not empty, differs from the field terminator and, if there is an escape
  character, has no border (a proper prefix that is also a suffix); the requests of the client library are longer than the terminator, and the limit is below
  \<open>2 ^ 63\<close>. Whatever the sizes of the reads and however often the server rolls a statement back, the loop ends. If it succeeds, the transactions put together
  are the file from the first byte that is not skipped, in order; every transaction but the last ends with the line terminator (perhaps an escaped one, \<open>transaction_cuts_row\<close>), and, unless a row that is longer
  than the limit was noticed, each is larger than the limit by less than a terminator: not at all for terminators of one character. It fails only if the server
  fails a statement more than eight times, or fails one of a file that cannot be rewound, or if a request is answered with more bytes than it asked for. This
  overrun of the client's buffer does not happen for terminators of one character, nor if the requests are at least as long as the limit; for others it does
  (\<open>request_overrun\<close>).\<close>

theorem transactions_send_whole_file:
  assumes "lines_terminated_by d \<noteq> []" "fields_terminated_by d \<noteq> lines_terminated_by d"
    and "fields_escaped_by d = [] \<or> unbordered (lines_terminated_by d)"
    and "0 < max_size" "max_size < 2 ^ 63" "length (lines_terminated_by d) < len"
  shows "case load_file message content grain seekable tellable len failures (new_trx_buffer content grain seekable d max_size skip_bytes) of
      None \<Rightarrow> False
    | Some (Inl e) \<Rightarrow>
        1 < length (lines_terminated_by d) \<and> len < max_size \<and> e = Undefined ''Transaction_buffer::consume: buffer'' \<or>
        e = Runtime_error message \<and> (\<exists>k. failures k \<noteq> [] \<and> (\<not> seekable \<or> \<not> tellable \<or> 8 < length (failures k)))
    | Some (Inr trxs) \<Rightarrow>
        concat (map fst trxs) = drop skip_bytes content \<and> (\<forall>t \<in> set (butlast trxs). suffix (lines_terminated_by d) (fst t)) \<and>
        (\<forall>t \<in> set trxs. snd t = 0 \<longrightarrow> length (fst t) < max_size + length (lines_terminated_by d))"
proof -
  let ?tb = "new_trx_buffer content grain seekable d max_size skip_bytes"
  obtain base impl where b: "trx_start content base ?tb" "drop base content = drop skip_bytes content" "rows_of impl d ?tb"
    using new_trx_buffer_start [OF assms(1-5)] by blast
  have "tb_max_trx_size ?tb = max_size" using assms(1,2) by (simp add: new_trx_buffer_def Let_def)
  then show ?thesis
    using load_transactions_good [OF b(1,3) assms(6), where n = "Suc (length content)" and message = message and grain = grain and
      seekable = seekable and tellable = tellable and failures = failures and subchunk = 1] b(2)
    by (simp add: load_file_def transactions_ok_def overrun_def given_up_def less_Suc_eq_le del: load_transactions.simps split: option.splits sum.splits)
qed

text \<open>The example has rows of two to eleven bytes, requests of four and transactions of six.\<close>

definition five_rows :: string where
  "five_rows = concat (map (\<lambda>row. row @ [CHR 0x0A]) [''a'', ''bb'', ''cccccccccc'', ''dd'', ''e''])"

definition five_rows_sent :: "(string \<times> nat) list result option" where
  "five_rows_sent =
     load_file ''deadlock'' five_rows (\<lambda>_. 3) True True 4 (\<lambda>_. []) (new_trx_buffer five_rows (\<lambda>_. 3) True default_dialect 6 0)"

lemma five_rows_cut:
  "case five_rows_sent of Some (Inr trxs) \<Rightarrow> map (\<lambda>t. (length (fst t), snd t)) trxs = [(5, 0), (11, 1), (5, 0)] | _ \<Rightarrow> False"
  by code_simp

theorem transactions_send_whole_file_witness:
  "\<exists>trxs. five_rows_sent = Some (Inr trxs) \<and> map (\<lambda>t. (length (fst t), snd t)) trxs = [(5, 0), (11, 1), (5, 0)] \<and>
     concat (map fst trxs) = five_rows \<and> (\<forall>t \<in> set (butlast trxs). suffix [CHR 0x0A] (fst t))"
proof -
  obtain trxs where t: "five_rows_sent = Some (Inr trxs)" "map (\<lambda>t. (length (fst t), snd t)) trxs = [(5, 0), (11, 1), (5, 0)]"
    using five_rows_cut by (auto split: option.splits sum.splits)
  have d: "lines_terminated_by default_dialect = [CHR 0x0A]" "fields_terminated_by default_dialect \<noteq> [CHR 0x0A]" "unbordered [CHR 0x0A]"
    by (simp_all add: default_dialect_def unbordered_def)
  show ?thesis using t d transactions_send_whole_file [where d = default_dialect and max_size = 6 and len = 4 and message = "''deadlock''" and
      content = five_rows and grain = "\<lambda>_. 3" and seekable = True and tellable = True and failures = "\<lambda>_. []" and skip_bytes = 0]
    by (simp add: five_rows_sent_def)
qed

section \<open>Limits\<close>

text \<open>The constructor with options restores a limit that the other one has disabled, although it has not chosen the functions that find rows.\<close>

lemma options_restore_limit:
  assumes "lines_terminated_by d = [] \<or> fields_terminated_by d = lines_terminated_by d" "0 < max_size"
  shows "\<exists>e. trx_read content grain len (new_trx_buffer_options content grain seekable d max_size skip_bytes) = Inl (Undefined e)"
    and "\<exists>r. trx_read content grain len (new_trx_buffer content grain seekable d max_size skip_bytes) = Inr r"
  using assms by (simp_all add: trx_read_def new_trx_buffer_options_def new_trx_buffer_def Let_def)

text \<open>A request for six bytes is answered with seven when the two characters of a terminator are the sixth and the seventh byte of the buffer.\<close>

lemma request_overrun:
  "load_file [] (''ab'' @ [CHR 0x0D, CHR 0x0A] @ ''cdefg'' @ [CHR 0x0D, CHR 0x0A] @ ''hi'') (\<lambda>_. 9) True True 6 (\<lambda>_. [])
     (new_trx_buffer [] (\<lambda>_. 9) True csv 20 0) = Some (Inl (Undefined ''Transaction_buffer::consume: buffer''))"
  by code_simp

text \<open>When the escape character has been sent and the escaped terminator is the first byte of the buffer, the transaction ends in the middle of the row.\<close>

lemma transaction_cuts_row:
  "load_file [] (''abc'' @ [CHR 0x5C, CHR 0x0A] @ ''de'' @ [CHR 0x0A]) (\<lambda>_. 9) True True 4 (\<lambda>_. [])
     (new_trx_buffer [] (\<lambda>_. 9) True csv_unix 6 0) = Some (Inr [(''abc'' @ [CHR 0x5C, CHR 0x0A], 0), (''de'' @ [CHR 0x0A], 0)])"
  by code_simp

end
