(* ===== verification/Dump_Buffer.thy ===== *)
theory Dump_Buffer
  imports Prelude
begin

text \<open>
  Model of the output buffer of the dump writers (\<^verbatim>\<open>modules/util/dump/dump_writer.{h,cc}\<close>). The buffer is filled without checks: a writer
  announces how much it will write, and what every row needs (separators and quotes) is reserved once, as the fixed length. Writing beyond the capacity or more
  fixed data than was reserved is undefined. The buffer is its capacity, the bytes written (their number is \<^verbatim>\<open>m_length\<close>, and \<^verbatim>\<open>m_ptr\<close>
  points behind them) and the two fixed lengths. That memory runs out is not modelled.
\<close>

record buffer =
  m_capacity :: nat
  m_bytes :: string
  m_fixed_length :: nat
  m_fixed_length_remaining :: nat

definition new_buffer :: buffer where
  "new_buffer = \<lparr>m_capacity = 1024, m_bytes = [], m_fixed_length = 0, m_fixed_length_remaining = 0\<rparr>"

definition append_bytes :: "string \<Rightarrow> buffer \<Rightarrow> buffer result" where
  "append_bytes s b =
     (if length (m_bytes b) + length s \<le> m_capacity b then Inr (b\<lparr>m_bytes := m_bytes b @ s\<rparr>)
      else Inl (Undefined ''Dump_writer::Buffer::append: beyond the capacity''))"

definition append_fixed :: "string \<Rightarrow> buffer \<Rightarrow> buffer result" where
  "append_fixed s b =
     (if length s \<le> m_fixed_length_remaining b
      then rbind (append_bytes s b) (\<lambda>b1. Inr (b1\<lparr>m_fixed_length_remaining := m_fixed_length_remaining b - length s\<rparr>))
      else Inl (Undefined ''Dump_writer::Buffer::append_fixed: not reserved''))"

definition clear :: "buffer \<Rightarrow> buffer" where
  "clear b = b\<lparr>m_bytes := [], m_fixed_length_remaining := m_fixed_length b\<rparr>"

text \<open>The loop of \<^verbatim>\<open>resize\<close>, with the overflow of \<^verbatim>\<open>size_t\<close>: when the capacity becomes 0 it does not end.\<close>

function resize_loop :: "nat \<Rightarrow> nat \<Rightarrow> nat result" where
  "resize_loop capacity requested =
     (if capacity < requested
      then (if 0 < capacity \<and> 2 * capacity < 2 ^ 64 then resize_loop (2 * capacity) requested
            else Inl (Undefined ''Dump_writer::Buffer::resize: overflow''))
      else Inr capacity)"
  by pat_completeness auto
termination
  by (relation "measure (\<lambda>(capacity, requested). requested - capacity)") auto

declare resize_loop.simps [simp del]

definition resize :: "nat \<Rightarrow> buffer \<Rightarrow> buffer result" where
  "resize requested b = rbind (resize_loop (m_capacity b) requested) (\<lambda>c. Inr (b\<lparr>m_capacity := c\<rparr>))"

definition will_write :: "nat \<Rightarrow> buffer \<Rightarrow> buffer result" where
  "will_write bytes b =
     (let requested = length (m_bytes b) + m_fixed_length_remaining b + bytes
      in if m_capacity b < requested then resize requested b else Inr b)"

definition set_fixed_length :: "nat \<Rightarrow> buffer \<Rightarrow> buffer result" where
  "set_fixed_length n b =
     rbind (will_write n b) (\<lambda>b1. Inr (b1\<lparr>m_fixed_length := n, m_fixed_length_remaining := n\<rparr>))"

text \<open>Base64 data of the server has lines of 76 characters; the line breaks are left out.\<close>

function base64_loop :: "string \<Rightarrow> buffer \<Rightarrow> buffer result" where
  "base64_loop p b =
     (if 76 < length p then rbind (append_bytes (take 76 p) b) (base64_loop (drop 77 p)) else append_bytes p b)"
  by pat_completeness auto
termination
  by (relation "measure (\<lambda>(p, _). length p)") auto

declare base64_loop.simps [simp del]

definition write_base64_data :: "string \<Rightarrow> buffer \<Rightarrow> buffer result" where
  "write_base64_data data b =
     (if data = [] then Inr b else rbind (will_write (length data) b) (base64_loop data))"

section \<open>Room\<close>

text \<open>The buffer has room for what is reserved; \<open>fits n\<close> says that \<open>n\<close> more bytes do not overflow the capacity.\<close>

definition buffer_ok :: "buffer \<Rightarrow> bool" where
  "buffer_ok b \<longleftrightarrow> 0 < m_capacity b \<and> length (m_bytes b) + m_fixed_length_remaining b \<le> m_capacity b"

definition fits :: "nat \<Rightarrow> buffer \<Rightarrow> bool" where
  "fits n b \<longleftrightarrow> length (m_bytes b) + m_fixed_length_remaining b + n \<le> 2 ^ 63"

definition holds :: "nat \<Rightarrow> buffer \<Rightarrow> bool" where
  "holds n b \<longleftrightarrow> 0 < m_capacity b \<and> length (m_bytes b) + m_fixed_length_remaining b + n \<le> m_capacity b"

text \<open>An operation has appended \<open>s\<close>, of which \<open>f\<close> bytes were reserved.\<close>

definition wrote :: "buffer \<Rightarrow> string \<Rightarrow> nat \<Rightarrow> buffer \<Rightarrow> bool" where
  "wrote b s f b' \<longleftrightarrow>
     m_bytes b' = m_bytes b @ s \<and> m_fixed_length_remaining b' + f = m_fixed_length_remaining b \<and> m_fixed_length b' = m_fixed_length b \<and>
     m_capacity b \<le> m_capacity b' \<and> buffer_ok b'"

lemma buffer_ok_holds: "buffer_ok b \<longleftrightarrow> holds 0 b"
  by (simp add: buffer_ok_def holds_def)

lemma wrote_trans: "wrote b s f b1 \<Longrightarrow> wrote b1 s' f' b' \<Longrightarrow> wrote b (s @ s') (f + f') b'"
  by (auto simp: wrote_def)

lemma wrote_ok: "wrote b s f b' \<Longrightarrow> buffer_ok b'"
  by (simp add: wrote_def)

lemma wrote_refl: "buffer_ok b \<Longrightarrow> wrote b [] 0 b"
  by (simp add: wrote_def)

lemma fits_wrote: "fits n b \<Longrightarrow> wrote b s f b' \<Longrightarrow> length s + m \<le> f + n \<Longrightarrow> fits m b'"
  by (simp add: fits_def wrote_def)

lemma wrote_remaining: "wrote b s f b' \<Longrightarrow> n + f \<le> m_fixed_length_remaining b \<Longrightarrow> n \<le> m_fixed_length_remaining b'"
  by (simp add: wrote_def)

lemma resize_loop_ok:
  "0 < c \<Longrightarrow> r \<le> 2 ^ 63 \<Longrightarrow> \<exists>c'. resize_loop c r = Inr c' \<and> r \<le> c' \<and> c \<le> c'"
proof (induction c r rule: resize_loop.induct)
  case (1 c r)
  show ?case
  proof (cases "c < r")
    case True
    then have "2 * c < 2 ^ 64" using 1(3) by simp
    then show ?thesis using 1 True by (auto simp: resize_loop.simps [of c])
  qed (simp add: resize_loop.simps)
qed

lemma will_write_ok:
  assumes "buffer_ok b" "fits n b"
  shows "\<exists>c. will_write n b = Inr (b\<lparr>m_capacity := c\<rparr>) \<and> holds n (b\<lparr>m_capacity := c\<rparr>) \<and> m_capacity b \<le> c"
proof (cases "m_capacity b < length (m_bytes b) + m_fixed_length_remaining b + n")
  case True
  obtain c where "resize_loop (m_capacity b) (length (m_bytes b) + m_fixed_length_remaining b + n) = Inr c"
      "length (m_bytes b) + m_fixed_length_remaining b + n \<le> c" "m_capacity b \<le> c"
    using resize_loop_ok [of "m_capacity b"] assms by (auto simp: buffer_ok_def fits_def)
  then show ?thesis using True assms(1) by (auto simp: will_write_def resize_def holds_def buffer_ok_def)
next
  case False
  then show ?thesis using assms(1)
    by (intro exI [of _ "m_capacity b"]) (auto simp: will_write_def holds_def buffer_ok_def)
qed

lemma append_holds:
  assumes "holds (length s + n) b"
  shows "append_bytes s b = Inr (b\<lparr>m_bytes := m_bytes b @ s\<rparr>) \<and> holds n (b\<lparr>m_bytes := m_bytes b @ s\<rparr>)"
  using assms by (auto simp: append_bytes_def holds_def)

lemma append_fixed_ok:
  assumes "buffer_ok b" "length s \<le> m_fixed_length_remaining b"
  shows "\<exists>b'. append_fixed s b = Inr b' \<and> wrote b s (length s) b'"
  using assms by (auto simp: append_fixed_def append_bytes_def wrote_def buffer_ok_def)

text \<open>Announcing some bytes and then appending at most as many.\<close>

lemma write_announced:
  assumes "buffer_ok b" "fits n b" "length s \<le> n" "\<And>c. holds n (b\<lparr>m_capacity := c\<rparr>) \<Longrightarrow> op (b\<lparr>m_capacity := c\<rparr>) = append_bytes s (b\<lparr>m_capacity := c\<rparr>)"
  shows "\<exists>b'. rbind (will_write n b) op = Inr b' \<and> wrote b s 0 b'"
proof -
  obtain c where c: "will_write n b = Inr (b\<lparr>m_capacity := c\<rparr>)" "holds n (b\<lparr>m_capacity := c\<rparr>)" "m_capacity b \<le> c"
    using will_write_ok [OF assms(1,2)] by blast
  have "holds (length s + (n - length s)) (b\<lparr>m_capacity := c\<rparr>)" using c(2) assms(3) by simp
  from append_holds [OF this] show ?thesis using c assms(4) by (auto simp: wrote_def buffer_ok_def holds_def)
qed

lemma append_bytes_twice: "rbind (append_bytes s b) (append_bytes t) = append_bytes (s @ t) b"
  by (simp add: append_bytes_def)

lemma append_bytes_Nil: "length (m_bytes b) \<le> m_capacity b \<Longrightarrow> append_bytes [] b = Inr b"
  by (simp add: append_bytes_def)

lemma rfold_append_bytes:
  "length (m_bytes b) \<le> m_capacity b \<Longrightarrow> rfold (\<lambda>x. append_bytes (g x)) xs b = append_bytes (concat (map g xs)) b"
proof (induction xs arbitrary: b)
  case (Cons x xs)
  show ?case
  proof (cases "append_bytes (g x) b")
    case (Inl e)
    then show ?thesis by (auto simp: append_bytes_def split: if_splits)
  next
    case (Inr b1)
    then have "length (m_bytes b1) \<le> m_capacity b1" by (auto simp: append_bytes_def split: if_splits)
    then show ?thesis using Cons(1) [of b1] Inr append_bytes_twice [of "g x" b "concat (map g xs)"] by simp
  qed
qed (simp add: append_bytes_Nil)

lemma rfold_cong: "(\<And>x b. x \<in> set xs \<Longrightarrow> P b \<Longrightarrow> f x b = g x b) \<Longrightarrow> (\<And>x b b'. P b \<Longrightarrow> g x b = Inr b' \<Longrightarrow> P b') \<Longrightarrow> P b \<Longrightarrow> rfold f xs b = rfold g xs b"
proof (induction xs arbitrary: b)
  case (Cons x xs)
  then show ?case by (cases "g x b") auto
qed simp

text \<open>Appending bytewise is appending at once.\<close>

lemma append_all:
  assumes "length (m_bytes b) \<le> m_capacity b"
  shows "rfold (\<lambda>c b. rfold (\<lambda>x. append_bytes [x]) (g c) b) data b = append_bytes (concat (map g data)) b"
proof -
  have "rfold (\<lambda>c b. rfold (\<lambda>x. append_bytes [x]) (g c) b) data b = rfold (\<lambda>c. append_bytes (g c)) data b"
  proof (rule rfold_cong [where P = "\<lambda>b. length (m_bytes b) \<le> m_capacity b"])
    show "rfold (\<lambda>x. append_bytes [x]) (g c) b = append_bytes (g c) b"
      if "length (m_bytes b) \<le> m_capacity b" for c b
      using rfold_append_bytes [OF that, of "\<lambda>x. [x]" "g c"] by simp
    show "length (m_bytes b') \<le> m_capacity b'" if "append_bytes (g c) b = Inr b'" for c b b'
      using that by (auto simp: append_bytes_def split: if_splits)
  qed (rule assms)
  then show ?thesis using rfold_append_bytes [OF assms] by simp
qed

fun strip_lines :: "string \<Rightarrow> string" where
  "strip_lines p = (if 76 < length p then take 76 p @ strip_lines (drop 77 p) else p)"

declare strip_lines.simps [simp del]

lemma strip_lines_length: "length (strip_lines p) \<le> length p"
proof (induction p rule: strip_lines.induct)
  case (1 p)
  then show ?case by (subst strip_lines.simps) auto
qed

lemma base64_loop_append: "base64_loop p b = append_bytes (strip_lines p) b"
proof (induction p arbitrary: b rule: strip_lines.induct)
  case (1 p)
  show ?case
  proof (cases "76 < length p")
    case True
    then have "base64_loop p b = rbind (append_bytes (take 76 p) b) (append_bytes (strip_lines (drop 77 p)))"
      using 1 by (subst base64_loop.simps) (simp add: rbind_def split: sum.split)
    then show ?thesis using True append_bytes_twice by (subst strip_lines.simps) simp
  qed (simp add: base64_loop.simps strip_lines.simps)
qed

lemma write_base64_ok:
  assumes "buffer_ok b" "fits (length data) b"
  shows "\<exists>b'. write_base64_data data b = Inr b' \<and> wrote b (strip_lines data) 0 b'"
proof (cases "data = []")
  case True
  then show ?thesis using wrote_refl [OF assms(1)] by (simp add: write_base64_data_def strip_lines.simps)
next
  case False
  have "\<exists>b'. rbind (will_write (length data) b) (base64_loop data) = Inr b' \<and> wrote b (strip_lines data) 0 b'"
    by (rule write_announced [OF assms]) (simp_all add: strip_lines_length base64_loop_append)
  then show ?thesis using False by (simp add: write_base64_data_def)
qed

text \<open>What is left of lines of 76 characters, of which only the last one may be shorter, are the lines.\<close>

lemma strip_lines_joined:
  assumes "list_all (\<lambda>l. length l = 76) ls" "length l \<le> 76" "l \<noteq> [] \<or> ls = []"
  shows "strip_lines (concat (map (\<lambda>l. l @ [c]) ls) @ l) = concat ls @ l"
  using assms
proof (induction ls)
  case Nil
  then show ?case by (simp add: strip_lines.simps)
next
  case (Cons x ls)
  then show ?case by (subst strip_lines.simps) auto
qed

text \<open>The two shapes of a field: a value between quotes, and a value behind a separator.\<close>

definition puts :: "(buffer \<Rightarrow> buffer result) \<Rightarrow> string \<Rightarrow> bool" where
  "puts op s \<longleftrightarrow> (\<forall>b. buffer_ok b \<longrightarrow> length s \<le> m_fixed_length_remaining b \<longrightarrow> (\<exists>b'. op b = Inr b' \<and> wrote b s (length s) b'))"

lemma puts_append_fixed: "puts (append_fixed s) s" "puts Inr []"
  using append_fixed_ok wrote_refl by (auto simp: puts_def)

lemma puts_if: "puts (\<lambda>b. if c then append_fixed s b else Inr b) (if c then s else [])"
  using puts_append_fixed by (simp add: puts_def)

lemma puts_single: "puts (append_fixed [c]) [c]" "length s = 1 \<Longrightarrow> puts (append_fixed [hd s]) s"
  using puts_append_fixed(1) by (simp, cases s) auto

lemma enclosed_ok:
  assumes "buffer_ok b" "fits n b" "2 * length q + r \<le> m_fixed_length_remaining b" "puts quote q"
    "\<And>b. buffer_ok b \<Longrightarrow> fits n b \<Longrightarrow> r \<le> m_fixed_length_remaining b \<Longrightarrow>
       \<exists>b' f. store b = Inr b' \<and> wrote b t f b' \<and> f \<le> r \<and> length t \<le> f + n"
  shows "\<exists>b' f. rbind (quote b) (\<lambda>b1. rbind (store b1) quote) = Inr b' \<and> wrote b (q @ t @ q) f b' \<and>
    f \<le> 2 * length q + r \<and> length (q @ t @ q) \<le> f + n"
proof -
  obtain b1 where b1: "quote b = Inr b1" "wrote b q (length q) b1"
    using assms(1,3,4) unfolding puts_def by fastforce
  have "fits n b1" "r \<le> m_fixed_length_remaining b1"
    using fits_wrote [OF assms(2) b1(2)] assms(3) b1(2) by (simp_all add: wrote_def)
  then obtain b2 f where b2: "store b1 = Inr b2" "wrote b1 t f b2" "f \<le> r" "length t \<le> f + n"
    using assms(5) wrote_ok [OF b1(2)] by blast
  have "length q \<le> m_fixed_length_remaining b2" using assms(3) b1(2) b2(2,3) by (simp add: wrote_def)
  then obtain b3 where b3: "quote b2 = Inr b3" "wrote b2 q (length q) b3"
    using assms(4) wrote_ok [OF b2(2)] unfolding puts_def by blast
  have "wrote b (q @ t @ q) (length q + (f + length q)) b3"
    by (intro wrote_trans [OF b1(2)] wrote_trans [OF b2(2)] b3(2))
  then show ?thesis using b1(1) b2(1,3,4) b3(1) by (intro exI [of _ b3] exI [of _ "length q + (f + length q)"]) simp
qed

text \<open>NULL, or a value between quotes, depending on \<open>null\<close>.\<close>

lemma value_ok:
  assumes "buffer_ok b" "fits n b" "2 * length q + r \<le> m_fixed_length_remaining b" "puts quote q"
    "\<And>b. buffer_ok b \<Longrightarrow> fits n b \<Longrightarrow> \<exists>b'. store_n b = Inr b' \<and> wrote b nt 0 b'" "length nt \<le> n"
    "\<And>b data. v = Some data \<Longrightarrow> buffer_ok b \<Longrightarrow> fits n b \<Longrightarrow> r \<le> m_fixed_length_remaining b \<Longrightarrow>
       \<exists>b' f. store data b = Inr b' \<and> wrote b (t data) f b' \<and> f \<le> r \<and> length (t data) \<le> f + n"
  shows "\<exists>b' f. (case v of None \<Rightarrow> store_n b
      | Some data \<Rightarrow> if null data then store_n b else rbind (quote b) (\<lambda>b2. rbind (store data b2) quote)) = Inr b' \<and>
    wrote b (case v of None \<Rightarrow> nt | Some data \<Rightarrow> if null data then nt else q @ t data @ q) f b' \<and> f \<le> 2 * length q + r \<and>
    length (case v of None \<Rightarrow> nt | Some data \<Rightarrow> if null data then nt else q @ t data @ q) \<le> f + n"
proof (cases "\<exists>data. v = Some data \<and> \<not> null data")
  case True
  then obtain data where d: "v = Some data" "\<not> null data" by blast
  show ?thesis using enclosed_ok [OF assms(1-4) assms(7) [OF d(1)]] d by simp
next
  case False
  obtain b' where "store_n b = Inr b'" "wrote b nt 0 b'" using assms(5) [OF assms(1,2)] by blast
  then show ?thesis using False assms(6) by (intro exI [of _ b'] exI [of _ 0]) (auto split: option.split)
qed

lemma separated_ok:
  assumes "buffer_ok b" "fits n b" "length sep + r \<le> m_fixed_length_remaining b" "puts put_sep sep"
    "\<And>b. buffer_ok b \<Longrightarrow> fits n b \<Longrightarrow> r \<le> m_fixed_length_remaining b \<Longrightarrow>
       \<exists>b' f. store b = Inr b' \<and> wrote b v f b' \<and> f \<le> r \<and> length v \<le> f + n"
  shows "\<exists>b' f. rbind (put_sep b) store = Inr b' \<and> wrote b (sep @ v) f b' \<and> f \<le> length sep + r \<and> length (sep @ v) \<le> f + n"
proof -
  obtain b1 where b1: "put_sep b = Inr b1" "wrote b sep (length sep) b1"
    using assms(1,3,4) unfolding puts_def by fastforce
  have "fits n b1" using fits_wrote [OF assms(2) b1(2)] by simp
  moreover have "r \<le> m_fixed_length_remaining b1" using assms(3) b1(2) by (simp add: wrote_def)
  ultimately obtain b' f where b': "store b1 = Inr b'" "wrote b1 v f b'" "f \<le> r" "length v \<le> f + n"
    using assms(5) wrote_ok [OF b1(2)] by blast
  show ?thesis using wrote_trans [OF b1(2) b'(2)] b1(1) b' by (intro exI [of _ b'] exI [of _ "length sep + f"]) simp
qed

section \<open>Rows\<close>

text \<open>The contract of a writer for one row: storing a field appends its text; the separators and quotes in it were reserved, the rest is announced. Given
  this, a row is stored without leaving the buffer.\<close>

locale row_writer =
  fixes store :: "nat \<Rightarrow> buffer \<Rightarrow> buffer result" and field :: "nat \<Rightarrow> string" and rsv :: "nat \<Rightarrow> nat" and need :: "nat \<Rightarrow> nat"
  assumes store_ok: "buffer_ok b \<Longrightarrow> fits (need i) b \<Longrightarrow> rsv i \<le> m_fixed_length_remaining b \<Longrightarrow>
    \<exists>b' f. store i b = Inr b' \<and> wrote b (field i) f b' \<and> f \<le> rsv i \<and> length (field i) \<le> f + need i"
begin

lemma fields_ok:
  assumes "buffer_ok b" "fits (sum_list (map need is)) b" "sum_list (map rsv is) + n \<le> m_fixed_length_remaining b"
  shows "\<exists>b' f. rfold store is b = Inr b' \<and> wrote b (concat (map field is)) f b' \<and> n \<le> m_fixed_length_remaining b'"
  using assms
proof (induction "is" arbitrary: b)
  case Nil
  then show ?case using wrote_refl by auto
next
  case (Cons i "is")
  have "fits (need i) b" using Cons(3) by (simp add: fits_def)
  then obtain b1 f where b1: "store i b = Inr b1" "wrote b (field i) f b1" "f \<le> rsv i" "length (field i) \<le> f + need i"
    using store_ok [OF Cons(2)] Cons(4) by fastforce
  have "fits (sum_list (map need is)) b1"
    by (rule fits_wrote [OF Cons(3) b1(2)]) (use b1(4) in simp)
  moreover have "sum_list (map rsv is) + n \<le> m_fixed_length_remaining b1"
    using wrote_remaining [OF b1(2)] Cons(4) b1(3) by simp
  ultimately obtain b' f' where "rfold store is b1 = Inr b'" "wrote b1 (concat (map field is)) f' b'" "n \<le> m_fixed_length_remaining b'"
    using Cons(1) [OF wrote_ok [OF b1(2)]] by blast
  then show ?case using b1(1) wrote_trans [OF b1(2)] by fastforce
qed

text \<open>A row starts with \<open>s\<close> and ends with \<open>l\<close>, which is written by \<open>finish\<close>.\<close>

lemma row_ok:
  assumes "buffer_ok (clear b)" "length s + sum_list (map rsv is) + length l \<le> m_fixed_length b"
    "m_fixed_length b + sum_list (map need is) \<le> 2 ^ 63"
    "puts finish l"
  shows "\<exists>b'. rbind (append_fixed s (clear b)) (\<lambda>b1. rbind (rfold store is b1) finish) = Inr b' \<and>
    m_bytes b' = s @ concat (map field is) @ l \<and> m_fixed_length b' = m_fixed_length b \<and> buffer_ok (clear b')"
proof -
  have c: "m_fixed_length_remaining (clear b) = m_fixed_length b" "m_bytes (clear b) = []" "m_fixed_length (clear b) = m_fixed_length b"
    by (auto simp: clear_def)
  obtain b1 where b1: "append_fixed s (clear b) = Inr b1" "wrote (clear b) s (length s) b1"
    using append_fixed_ok [OF assms(1), of s] c(1) assms(2) by auto
  have "fits (sum_list (map need is)) (clear b)" using assms(3) c by (simp add: fits_def)
  then have f1: "fits (sum_list (map need is)) b1" using fits_wrote [OF _ b1(2)] by simp
  have "sum_list (map rsv is) + length l \<le> m_fixed_length_remaining b1"
    using wrote_remaining [OF b1(2)] assms(2) c(1) by simp
  then obtain b2 f where b2: "rfold store is b1 = Inr b2" "wrote b1 (concat (map field is)) f b2" "length l \<le> m_fixed_length_remaining b2"
    using fields_ok [OF wrote_ok [OF b1(2)] f1] by blast
  obtain b3 where b3: "finish b2 = Inr b3" "wrote b2 l (length l) b3" using assms(4) wrote_ok [OF b2(2)] b2(3) unfolding puts_def by blast
  have "wrote (clear b) (s @ concat (map field is) @ l) (length s + (f + length l)) b3"
    by (intro wrote_trans [OF b1(2)] wrote_trans [OF b2(2)] b3(2))
  then show ?thesis using b1(1) b2(1) b3(1) c assms(1) by (auto simp: wrote_def buffer_ok_def clear_def)
qed

end

lemma set_fixed_length_ok:
  assumes "set_fixed_length n b = Inr b'" "buffer_ok b" "m_bytes b = []" "m_fixed_length_remaining b = 0"
  shows "m_fixed_length b' = n" "buffer_ok (clear b')"
proof -
  obtain b1 where b1: "will_write n b = Inr b1" "b' = b1\<lparr>m_fixed_length := n, m_fixed_length_remaining := n\<rparr>"
    using assms(1) by (auto simp: set_fixed_length_def)
  have "m_bytes b1 = [] \<and> n \<le> m_capacity b1 \<and> 0 < m_capacity b1"
  proof (cases "m_capacity b < n")
    case True
    then obtain c where c: "resize_loop (m_capacity b) n = Inr c" "b1 = b\<lparr>m_capacity := c\<rparr>"
      using b1(1) assms(3,4) by (auto simp: will_write_def resize_def)
    have "n \<le> c" if "resize_loop a n = Inr c" for a
      using that by (induction a n rule: resize_loop.induct) (auto simp: resize_loop.simps split: if_splits)
    then have "n \<le> c" using c(1) by blast
    then show ?thesis using c True assms(3) by auto
  next
    case False
    then show ?thesis using b1(1) assms(2-) by (auto simp: will_write_def buffer_ok_def)
  qed
  then show "m_fixed_length b' = n" "buffer_ok (clear b')" using b1(2) by (auto simp: clear_def buffer_ok_def)
qed

end
