(* ===== verification/Dump_Index.thy ===== *)
theory Dump_Index
  imports Prelude "HOL-Library.Word"
begin

text \<open>
  Byte order: \<^verbatim>\<open>host_to_network\<close> and \<^verbatim>\<open>network_to_host\<close> of \<^verbatim>\<open>mysqlshdk/libs/utils/utils_net.cc\<close> on a little-endian host, where \<^verbatim>\<open>htonl\<close>
  reverses the bytes of its argument, and the bytes of a value in memory. The conversions are inverse to each other.
\<close>

unbundle bit_operations_syntax

definition htonl :: "32 word \<Rightarrow> 32 word" where
  "htonl w = push_bit 24 w OR push_bit 8 (w AND 0xFF00) OR (drop_bit 8 w AND 0xFF00) OR drop_bit 24 w"

definition host_to_network :: "64 word \<Rightarrow> 64 word" where
  "host_to_network v = push_bit 32 (ucast (htonl (ucast (v AND 0xFFFFFFFF)))) OR ucast (htonl (ucast (drop_bit 32 v)))"

definition network_to_host :: "64 word \<Rightarrow> 64 word" where
  "network_to_host v = push_bit 32 (ucast (htonl (ucast (v AND 0xFFFFFFFF)))) OR ucast (htonl (ucast (drop_bit 32 v)))"

text \<open>The memory image of a value of \<open>k\<close> bytes.\<close>

fun bytes_of :: "nat \<Rightarrow> nat \<Rightarrow> string" where
  "bytes_of 0 n = []"
| "bytes_of (Suc k) n = char_of (n mod 256) # bytes_of k (n div 256)"

fun of_bytes :: "string \<Rightarrow> nat" where
  "of_bytes [] = 0"
| "of_bytes (c # s) = of_char c + 256 * of_bytes s"

lemma length_bytes_of [simp]: "length (bytes_of k n) = k"
  by (induction k arbitrary: n) simp_all

lemma of_bytes_of: "n < 256 ^ k \<Longrightarrow> of_bytes (bytes_of k n) = n"
proof (induction k arbitrary: n)
  case (Suc k)
  then have "n div 256 < 256 ^ k" by (simp add: div_less_iff_less_mult)
  then show ?case using Suc(1) by simp
qed simp

text \<open>The position a bit comes from when the bytes are reversed.\<close>

definition swapped :: "nat \<Rightarrow> nat \<Rightarrow> nat" where
  "swapped k n = 8 * (k - 1 - n div 8) + n mod 8"

lemma below_32:
  assumes "n < (32 :: nat)"
  shows "n \<in> {0, 1, 2, 3, 4, 5, 6, 7, 8, 9, 10, 11, 12, 13, 14, 15, 16, 17, 18, 19, 20, 21, 22, 23, 24, 25, 26, 27, 28, 29, 30, 31}"
proof -
  have "n \<in> set [0 ..< 32]" using assms by simp
  then show ?thesis by (simp add: upt_rec eval_nat_numeral)
qed

lemma bit_htonl:
  assumes "n < 32"
  shows "bit (htonl w) n \<longleftrightarrow> bit w (swapped 4 n)"
proof -
  have high: "\<not> bit w m" if "32 \<le> m" for m using bit_imp_le_length [of w m] that by auto
  show ?thesis using below_32 [OF assms]
    by (elim insertE emptyE) (simp_all add: htonl_def bit_simps swapped_def high flip: numeral_2_eq_2)
qed

lemma swapped_below: "n < 64 \<Longrightarrow> swapped 8 n < 64" "n < 32 \<Longrightarrow> swapped 4 n < 32"
  by (simp_all add: swapped_def)

lemma swapped_swapped: "n < 64 \<Longrightarrow> swapped 8 (swapped 8 n) = n"
  by (simp add: swapped_def)

lemma swapped_halves: "n < 32 \<Longrightarrow> swapped 8 n = 32 + swapped 4 n" "swapped 8 (32 + n) = swapped 4 n"
proof -
  have "(32 + n) div 8 = 4 + n div 8" "(32 + n) mod 8 = n mod 8" by presburger+
  then show "swapped 8 (32 + n) = swapped 4 n" by (simp add: swapped_def)
qed (simp add: swapped_def)

lemma bit_host_to_network:
  assumes "n < 64"
  shows "bit (host_to_network v) n \<longleftrightarrow> bit v (swapped 8 n)"
proof -
  have m: "(0xFFFFFFFF :: 64 word) = mask 32" by (simp add: mask_eq_exp_minus_1)
  show ?thesis
  proof (cases "n < 32")
    case True
    then show ?thesis using bit_htonl [OF True] swapped_below(2) [OF True] swapped_halves(1) [OF True]
      by (simp add: host_to_network_def bit_simps m)
  next
    case False
    then have "n - 32 < 32" using assms by simp
    moreover have "\<not> bit (htonl w) n" for w :: "32 word" using bit_imp_le_length [of "htonl w" n] False by auto
    ultimately show ?thesis using bit_htonl [of "n - 32"] swapped_below(2) [of "n - 32"] swapped_halves(2) [of "n - 32"] assms False
      by (simp add: host_to_network_def bit_simps m)
  qed
qed

lemma network_to_host_inverse: "network_to_host (host_to_network v) = v"
proof (rule bit_word_eqI)
  fix n
  assume "n < LENGTH(64)"
  moreover have "network_to_host = host_to_network" by (simp add: fun_eq_iff network_to_host_def host_to_network_def)
  ultimately show "bit (network_to_host (host_to_network v)) n \<longleftrightarrow> bit v n"
    using bit_host_to_network swapped_below(1) swapped_swapped by simp
qed

end
