(* ===== verification/Dump_Writer.thy ===== *)
theory Dump_Writer
  imports Dump_Buffer Dump_Index
begin

text \<open>
  Model of \<^verbatim>\<open>Dump_writer\<close> (\<^verbatim>\<open>modules/util/dump/dump_writer.{h,cc}\<close>): rows go through the buffer into the output file; after every
  row that completes another megabyte, the length of the data is written to the index file. \<^verbatim>\<open>Index_file\<close> of
  \<^verbatim>\<open>modules/util/load/dump_reader.cc\<close> reads the size of the data back.

  A failure to open, to seek or to read the index file is not modelled (the reader passes the exception on).

  The two files are reached through an interface: the state of the storage is \<open>'f\<close>, and the operations on it are the fields of \<open>dump_io\<close>. The operation that stores
  a row in the buffer (a virtual method) is an argument.
\<close>

record 'f dump_io =
  out_write :: "string \<Rightarrow> 'f \<Rightarrow> int result \<times> 'f"
  out_io_size :: "('f \<Rightarrow> nat) option"
  out_path :: string
  idx_is_open :: "'f \<Rightarrow> bool"
  idx_open :: "'f \<Rightarrow> unit result \<times> 'f"
  idx_close :: "'f \<Rightarrow> unit result \<times> 'f"
  idx_write :: "string \<Rightarrow> 'f \<Rightarrow> int result \<times> 'f"

record dump_write_result =
  m_data_bytes :: nat
  m_written :: nat
  m_rows_written :: nat

record 'f dump_writer =
  m_files :: 'f
  m_index :: bool
  m_buffer :: buffer
  m_bytes_written :: nat
  m_bytes_written_per_idx :: nat

definition k_write_idx_every :: nat where
  "k_write_idx_every = 1024 * 1024"

definition add_result :: "dump_write_result \<Rightarrow> dump_write_result \<Rightarrow> dump_write_result" where
  "add_result r rhs =
     \<lparr>m_data_bytes = (m_data_bytes r + m_data_bytes rhs) mod 2 ^ 64, m_written = (m_written r + m_written rhs) mod 2 ^ 64,
      m_rows_written = (m_rows_written r + m_rows_written rhs) mod 2 ^ 64\<rparr>"

definition new_dump_writer :: "'f \<Rightarrow> bool \<Rightarrow> 'f dump_writer" where
  "new_dump_writer f has_index =
     \<lparr>m_files = f, m_index = has_index, m_buffer = new_buffer, m_bytes_written = 0, m_bytes_written_per_idx = 0\<rparr>"

definition write_buffer :: "'f dump_io \<Rightarrow> string \<Rightarrow> bool \<Rightarrow> 'f dump_writer \<Rightarrow> dump_write_result result \<times> 'f dump_writer" where
  "write_buffer io ctxt row dw =
     (let data = m_bytes (m_buffer dw);
          result = \<lparr>m_data_bytes = length data, m_written = 0, m_rows_written = (if row then 1 else 0)\<rparr>
      in if 0 < length data then
           (case out_write io data (m_files dw) of
              (Inl e, f) \<Rightarrow> (Inl e, dw\<lparr>m_files := f\<rparr>)
            | (Inr n, f) \<Rightarrow>
                if n < 0 then (Inl (Runtime_error (''Failed to write '' @ ctxt @ '' into file '' @ out_path io)), dw\<lparr>m_files := f\<rparr>)
                else (Inr (result\<lparr>m_written := (case out_io_size io of Some io_size \<Rightarrow> io_size f | None \<Rightarrow> nat n)\<rparr>), dw\<lparr>m_files := f\<rparr>))
         else (Inr result, dw))"

definition write_index :: "'f dump_io \<Rightarrow> 'f dump_writer \<Rightarrow> unit result \<times> 'f dump_writer" where
  "write_index io dw =
     (let offset = host_to_network (word_of_nat (m_bytes_written dw))
      in case idx_write io (bytes_of 8 (unat offset)) (m_files dw) of
           (Inl e, f) \<Rightarrow> (Inl e, dw\<lparr>m_files := f\<rparr>)
         | (Inr _, f) \<Rightarrow> (Inr (), dw\<lparr>m_files := f\<rparr>))"

definition dump_open :: "'f dump_io \<Rightarrow> 'f dump_writer \<Rightarrow> unit result \<times> 'f dump_writer" where
  "dump_open io dw =
     (if m_index dw \<and> \<not> idx_is_open io (m_files dw)
      then (let (r, f) = idx_open io (m_files dw) in (r, dw\<lparr>m_files := f\<rparr>))
      else (Inr (), dw))"

definition dump_close :: "'f dump_io \<Rightarrow> 'f dump_writer \<Rightarrow> unit result \<times> 'f dump_writer" where
  "dump_close io dw =
     (if m_index dw \<and> idx_is_open io (m_files dw) then
        (case write_index io dw of
           (Inl e, dw1) \<Rightarrow> (Inl e, dw1)
         | (Inr _, dw1) \<Rightarrow> (let (r, f) = idx_close io (m_files dw1) in (r, dw1\<lparr>m_files := f\<rparr>)))
      else (Inr (), dw))"

text \<open>The virtual method \<^verbatim>\<open>read_metadata\<close> gives the state \<open>'w\<close> of the writer and sets up the buffer.\<close>

definition initialize_writing :: "(buffer \<Rightarrow> ('w \<times> buffer) result) \<Rightarrow> 'f dump_writer \<Rightarrow> ('w \<times> 'f dump_writer) result" where
  "initialize_writing read dw = rbind (read (m_buffer dw)) (\<lambda>(w, b). Inr (w, dw\<lparr>m_buffer := b\<rparr>))"

text \<open>The writers have no preamble and no postamble.\<close>

definition write_preamble :: "'f dump_io \<Rightarrow> 'f dump_writer \<Rightarrow> dump_write_result result \<times> 'f dump_writer" where
  "write_preamble io dw = write_buffer io ''preamble'' False (dw\<lparr>m_buffer := clear (m_buffer dw)\<rparr>)"

definition write_postamble :: "'f dump_io \<Rightarrow> 'f dump_writer \<Rightarrow> dump_write_result result \<times> 'f dump_writer" where
  "write_postamble io dw = write_buffer io ''postamble'' False (dw\<lparr>m_buffer := clear (m_buffer dw)\<rparr>)"

definition write_row :: "'f dump_io \<Rightarrow> ('r \<Rightarrow> buffer \<Rightarrow> buffer result) \<Rightarrow> 'r \<Rightarrow> 'f dump_writer \<Rightarrow> dump_write_result result \<times> 'f dump_writer" where
  "write_row io store row dw =
     (case store row (clear (m_buffer dw)) of
        Inl e \<Rightarrow> (Inl e, dw)
      | Inr b \<Rightarrow>
          (case write_buffer io ''row'' True (dw\<lparr>m_buffer := b\<rparr>) of
             (Inl e, dw1) \<Rightarrow> (Inl e, dw1)
           | (Inr result, dw1) \<Rightarrow>
               let dw2 = dw1\<lparr>m_bytes_written := (m_bytes_written dw1 + m_data_bytes result) mod 2 ^ 64,
                             m_bytes_written_per_idx := (m_bytes_written_per_idx dw1 + m_data_bytes result) mod 2 ^ 64\<rparr>
               in if m_index dw2 \<and> k_write_idx_every \<le> m_bytes_written_per_idx dw2 then
                    (case write_index io dw2 of
                       (Inl e, dw3) \<Rightarrow> (Inl e, dw3)
                     | (Inr _, dw3) \<Rightarrow> (Inr result, dw3\<lparr>m_bytes_written_per_idx := m_bytes_written_per_idx dw3 mod k_write_idx_every\<rparr>))
                  else (Inr result, dw2)))"

text \<open>Writing the rows of a table, as the dumper does: it stops at the first error and adds the results up.\<close>

fun write_rows :: "'f dump_io \<Rightarrow> ('r \<Rightarrow> buffer \<Rightarrow> buffer result) \<Rightarrow> 'r list \<Rightarrow> dump_write_result \<Rightarrow> 'f dump_writer \<Rightarrow>
    dump_write_result result \<times> 'f dump_writer" where
  "write_rows io store [] acc dw = (Inr acc, dw)"
| "write_rows io store (row # rows) acc dw =
     (case write_row io store row dw of
        (Inl e, dw1) \<Rightarrow> (Inl e, dw1)
      | (Inr result, dw1) \<Rightarrow> write_rows io store rows (add_result acc result) dw1)"

section \<open>Reading the index\<close>

definition k_entry_size :: nat where
  "k_entry_size = 8"

text \<open>\<^verbatim>\<open>Index_file::data_size\<close> for an index file with the given bytes; a size that is not a multiple of the size of an entry leaves the size of
  the data at 0.\<close>

definition index_data_size :: "string \<Rightarrow> nat" where
  "index_data_size file =
     (if length file mod k_entry_size \<noteq> 0 \<or> length file < k_entry_size then 0
      else unat (network_to_host (word_of_nat (of_bytes (drop (length file - k_entry_size) file)))))"

section \<open>The contract of the files\<close>

text \<open>What the writer relies on: a write that succeeds appends everything to its file and nothing to the other one. \<open>room\<close> bounds what
  can still be written to the two files.\<close>

locale dump_files =
  fixes io :: "'f dump_io" and out_data :: "'f \<Rightarrow> string" and idx_data :: "'f \<Rightarrow> string" and room :: "'f \<Rightarrow> nat \<Rightarrow> nat \<Rightarrow> bool"
  assumes out_write_law: "room f n m \<Longrightarrow> length s \<le> n \<Longrightarrow> out_write io s f = (Inr k, f') \<Longrightarrow>
      k = int (length s) \<and> out_data f' = out_data f @ s \<and> idx_data f' = idx_data f \<and> room f' (n - length s) m"
    and idx_write_law: "room f n m \<Longrightarrow> length s \<le> m \<Longrightarrow> idx_write io s f = (Inr k, f') \<Longrightarrow>
      idx_data f' = idx_data f @ s \<and> out_data f' = out_data f \<and> room f' n (m - length s)"
    and idx_close_law: "room f n m \<Longrightarrow> idx_close io f = (Inr (), f') \<Longrightarrow> idx_data f' = idx_data f \<and> out_data f' = out_data f"
    and idx_open_law: "room f n m \<Longrightarrow> idx_is_open io f"

text \<open>The contract of the method that stores a row.\<close>

locale row_store =
  fixes store :: "'r \<Rightarrow> buffer \<Rightarrow> buffer result" and row_bytes :: "'r \<Rightarrow> string" and ready :: "buffer \<Rightarrow> bool" and row_fits :: "'r \<Rightarrow> bool"
  assumes store_law: "ready b \<Longrightarrow> row_fits r \<Longrightarrow> \<exists>b'. store r (clear b) = Inr b' \<and> m_bytes b' = row_bytes r \<and> ready b'"

text \<open>The lengths of the data after the rows that complete another megabyte.\<close>

fun marks :: "nat \<Rightarrow> nat list \<Rightarrow> nat list" where
  "marks n [] = []"
| "marks n (l # ls) =
     (if n div k_write_idx_every < (n + l) div k_write_idx_every then [n + l] else []) @ marks (n + l) ls"

lemma marks_length: "length (marks n ls) \<le> length ls"
  by (induction ls arbitrary: n) (simp_all, metis le_SucI)

definition index_entry :: "nat \<Rightarrow> string" where
  "index_entry n = bytes_of 8 (unat (host_to_network (word_of_nat n)))"

locale dump_run = dump_files io out_data idx_data room + row_store store row_bytes ready row_fits
  for io :: "'f dump_io" and out_data idx_data room and store :: "'r \<Rightarrow> buffer \<Rightarrow> buffer result" and row_bytes ready row_fits
begin

text \<open>The state after \<open>N\<close> bytes of rows.\<close>

definition running :: "nat \<Rightarrow> nat \<Rightarrow> nat \<Rightarrow> 'f dump_writer \<Rightarrow> bool" where
  "running N n m dw \<longleftrightarrow>
     m_index dw \<and> ready (m_buffer dw) \<and> room (m_files dw) n m \<and> m_bytes_written dw = N \<and>
     m_bytes_written_per_idx dw = N mod k_write_idx_every"

lemma write_buffer_ok:
  assumes "room (m_files dw) n m" "length (m_bytes (m_buffer dw)) \<le> n" "write_buffer io c True dw = (Inr result, dw')"
  shows "m_data_bytes result = length (m_bytes (m_buffer dw)) \<and> m_rows_written result = 1 \<and>
    (\<exists>f. dw' = dw\<lparr>m_files := f\<rparr> \<and> out_data f = out_data (m_files dw) @ m_bytes (m_buffer dw) \<and> idx_data f = idx_data (m_files dw) \<and>
       room f (n - length (m_bytes (m_buffer dw))) m)"
proof (cases "m_bytes (m_buffer dw) = []")
  case True
  then show ?thesis using assms by (auto simp: write_buffer_def intro: exI [of _ "m_files dw"])
next
  case False
  then obtain k f where w: "out_write io (m_bytes (m_buffer dw)) (m_files dw) = (Inr k, f)" "dw' = dw\<lparr>m_files := f\<rparr>"
      "m_data_bytes result = length (m_bytes (m_buffer dw))" "m_rows_written result = 1"
    using assms(3) by (auto simp: write_buffer_def Let_def split: prod.splits sum.splits if_splits)
  then show ?thesis using out_write_law [OF assms(1,2) w(1)] by blast
qed

lemma write_index_ok:
  assumes "room (m_files dw) n m" "8 \<le> m" "write_index io dw = (Inr (), dw')"
  shows "\<exists>f. dw' = dw\<lparr>m_files := f\<rparr> \<and> idx_data f = idx_data (m_files dw) @ index_entry (m_bytes_written dw) \<and>
    out_data f = out_data (m_files dw) \<and> room f n (m - 8)"
proof -
  obtain k f where w: "idx_write io (index_entry (m_bytes_written dw)) (m_files dw) = (Inr k, f)" "dw' = dw\<lparr>m_files := f\<rparr>"
    using assms(3) by (auto simp: write_index_def index_entry_def Let_def split: prod.splits sum.splits)
  then show ?thesis using idx_write_law [OF assms(1) _ w(1)] assms(2) by (auto simp: index_entry_def)
qed

lemma write_row_ok:
  assumes "running N n m dw" "row_fits r" "length (row_bytes r) \<le> n" "8 \<le> m" "N + length (row_bytes r) < 2 ^ 64"
    "write_row io store r dw = (Inr result, dw')"
  defines "es \<equiv> marks N [length (row_bytes r)]"
  shows "running (N + length (row_bytes r)) (n - length (row_bytes r)) (m - 8 * length es) dw' \<and>
    m_data_bytes result = length (row_bytes r) \<and> m_rows_written result = 1 \<and>
    out_data (m_files dw') = out_data (m_files dw) @ row_bytes r \<and>
    idx_data (m_files dw') = idx_data (m_files dw) @ concat (map index_entry es)"
proof -
  let ?l = "length (row_bytes r)" and ?K = k_write_idx_every
  have K: "0 < ?K" by (simp add: k_write_idx_every_def)
  have run: "m_index dw" "ready (m_buffer dw)" "room (m_files dw) n m" "m_bytes_written dw = N" "m_bytes_written_per_idx dw = N mod ?K"
    using assms(1) by (simp_all add: running_def)
  obtain b where b: "store r (clear (m_buffer dw)) = Inr b" "m_bytes b = row_bytes r" "ready b"
    using store_law [OF run(2) assms(2)] by blast
  obtain res dw1 where w: "write_buffer io ''row'' True (dw\<lparr>m_buffer := b\<rparr>) = (Inr res, dw1)"
    using assms(6) b(1) by (auto simp: write_row_def split: prod.splits sum.splits)
  obtain f where f: "dw1 = dw\<lparr>m_buffer := b, m_files := f\<rparr>" "out_data f = out_data (m_files dw) @ row_bytes r"
      "idx_data f = idx_data (m_files dw)" "room f (n - ?l) m" "m_data_bytes res = ?l" "m_rows_written res = 1"
    using write_buffer_ok [OF _ _ w] run(3) assms(3) b(2) by auto
  define dw2 where "dw2 = dw1\<lparr>m_bytes_written := N + ?l, m_bytes_written_per_idx := N mod ?K + ?l\<rparr>"
  have "N mod ?K + ?l < 2 ^ 64" using assms(5) mod_less_eq_dividend [of N ?K] by linarith
  then have two: "dw1\<lparr>m_bytes_written := (m_bytes_written dw1 + ?l) mod 2 ^ 64,
      m_bytes_written_per_idx := (m_bytes_written_per_idx dw1 + ?l) mod 2 ^ 64\<rparr> = dw2"
    using assms(5) run(4,5) by (simp add: dw2_def f(1))
  have "(N + ?l) div ?K = N div ?K + (N mod ?K + ?l) div ?K" by (metis div_mult_mod_eq div_mult_self3 K add.assoc less_not_refl mult.commute)
  then have cross: "?K \<le> N mod ?K + ?l \<longleftrightarrow> N div ?K < (N + ?l) div ?K" using K by (auto simp: div_greater_zero_iff)
  have sel: "m_index dw2" "m_bytes_written dw2 = N + ?l" "m_bytes_written_per_idx dw2 = N mod ?K + ?l" "m_files dw2 = f" "m_buffer dw2 = b"
    using run(1) by (simp_all add: dw2_def f(1))
  have row: "(Inr result, dw') = (if ?K \<le> N mod ?K + ?l then
      (case write_index io dw2 of (Inl e, dw3) \<Rightarrow> (Inl e, dw3)
       | (Inr _, dw3) \<Rightarrow> (Inr res, dw3\<lparr>m_bytes_written_per_idx := m_bytes_written_per_idx dw3 mod ?K\<rparr>)) else (Inr res, dw2))"
    using assms(6) unfolding write_row_def b(1) sum.case w prod.case Let_def f(5) two by (simp add: sel(1,3) split: if_splits)
  show ?thesis
  proof (cases "?K \<le> N mod ?K + ?l")
    case True
    then obtain dw3 where i: "write_index io dw2 = (Inr (), dw3)" "result = res" "dw' = dw3\<lparr>m_bytes_written_per_idx := m_bytes_written_per_idx dw3 mod ?K\<rparr>"
      using row by (auto split: prod.splits sum.splits)
    obtain g where "dw3 = dw2\<lparr>m_files := g\<rparr>" "idx_data g = idx_data f @ index_entry (N + ?l)" "out_data g = out_data f" "room g (n - ?l) (m - 8)"
      using write_index_ok [OF _ assms(4) i(1)] sel f(4) by auto
    then show ?thesis using i(2,3) f sel b(3) True cross by (simp add: running_def es_def mod_add_left_eq)
  next
    case False
    then have "result = res" "dw' = dw2" "(N + ?l) mod ?K = N mod ?K + ?l" using row
      by (simp_all add: mod_add_left_eq [symmetric, of N])
    then show ?thesis using f sel b(3) False cross by (simp add: running_def es_def)
  qed
qed

lemma write_rows_ok:
  assumes "running N n m dw" "list_all row_fits rows" "sum_list (map (\<lambda>r. length (row_bytes r)) rows) \<le> n" "8 * length rows \<le> m"
    "N + sum_list (map (\<lambda>r. length (row_bytes r)) rows) < 2 ^ 64" "write_rows io store rows acc dw = (Inr result, dw')"
  defines "es \<equiv> marks N (map (\<lambda>r. length (row_bytes r)) rows)"
  shows "running (N + sum_list (map (\<lambda>r. length (row_bytes r)) rows)) (n - sum_list (map (\<lambda>r. length (row_bytes r)) rows)) (m - 8 * length es) dw' \<and>
    out_data (m_files dw') = out_data (m_files dw) @ concat (map row_bytes rows) \<and>
    idx_data (m_files dw') = idx_data (m_files dw) @ concat (map index_entry es)"
  using assms(1-6) unfolding es_def
proof (induction rows arbitrary: N n m dw acc)
  case (Cons r rows)
  let ?l = "length (row_bytes r)" and ?e = "marks N [length (row_bytes r)]"
  obtain res dw1 where w: "write_row io store r dw = (Inr res, dw1)" and rest: "write_rows io store rows (add_result acc res) dw1 = (Inr result, dw')"
    using Cons.prems(6) by (auto split: prod.splits sum.splits)
  have r: "running (N + ?l) (n - ?l) (m - 8 * length ?e) dw1" "out_data (m_files dw1) = out_data (m_files dw) @ row_bytes r"
      "idx_data (m_files dw1) = idx_data (m_files dw) @ concat (map index_entry ?e)"
    using write_row_ok [OF Cons.prems(1) _ _ _ _ w] Cons.prems(2-5) by simp_all
  have "length ?e \<le> 1" by simp
  then have "8 * length rows \<le> m - 8 * length ?e" using Cons.prems(4) by (simp del: marks.simps)
  then show ?case using Cons.IH [OF r(1) _ _ _ _ rest] Cons.prems(2,3,5) r(2,3) by (simp add: diff_diff_left add.assoc)
qed simp

text \<open>The whole run: the rows, and the closing of the index.\<close>

lemma dump_ok:
  assumes "running 0 n m dw" "list_all row_fits rows" "sum_list (map (\<lambda>r. length (row_bytes r)) rows) \<le> n" "8 * length rows + 8 \<le> m"
    "sum_list (map (\<lambda>r. length (row_bytes r)) rows) < 2 ^ 64" "write_rows io store rows acc dw = (Inr result, dw1)"
    "dump_close io dw1 = (Inr (), dw2)"
  defines "len \<equiv> sum_list (map (\<lambda>r. length (row_bytes r)) rows)"
  shows "out_data (m_files dw2) = out_data (m_files dw) @ concat (map row_bytes rows) \<and>
    idx_data (m_files dw2) = idx_data (m_files dw) @ concat (map index_entry (marks 0 (map (\<lambda>r. length (row_bytes r)) rows))) @ index_entry len"
proof -
  let ?es = "marks 0 (map (\<lambda>r. length (row_bytes r)) rows)"
  have w: "running len (n - len) (m - 8 * length ?es) dw1" "out_data (m_files dw1) = out_data (m_files dw) @ concat (map row_bytes rows)"
      "idx_data (m_files dw1) = idx_data (m_files dw) @ concat (map index_entry ?es)"
    using write_rows_ok [OF assms(1-3) _ _ assms(6)] assms(4,5) by (simp_all add: len_def)
  have room: "room (m_files dw1) (n - len) (m - 8 * length ?es)" "m_bytes_written dw1 = len" "m_index dw1" using w(1) by (simp_all add: running_def)
  obtain dw' f where c: "write_index io dw1 = (Inr (), dw')" "idx_close io (m_files dw') = (Inr (), f)" "dw2 = dw'\<lparr>m_files := f\<rparr>"
    using assms(7) room(3) idx_open_law [OF room(1)] by (auto simp: dump_close_def split: prod.splits sum.splits)
  have "8 \<le> m - 8 * length ?es" using marks_length [of 0 "map (\<lambda>r. length (row_bytes r)) rows"] assms(4) by simp
  from write_index_ok [OF room(1) this c(1)] obtain g where g: "dw' = dw1\<lparr>m_files := g\<rparr>" "idx_data g = idx_data (m_files dw1) @ index_entry len"
      "out_data g = out_data (m_files dw1)" "room g (n - len) (m - 8 * length ?es - 8)"
    using room(2) by auto
  then show ?thesis using idx_close_law [OF g(4)] c w by simp
qed

end

text \<open>Files that never fail while there is room: then the writer does not fail either.\<close>

locale dump_total = dump_run io out_data idx_data room store row_bytes ready row_fits
  for io :: "'f dump_io" and out_data idx_data room and store :: "'r \<Rightarrow> buffer \<Rightarrow> buffer result" and row_bytes ready row_fits +
  assumes out_write_total: "room f n m \<Longrightarrow> length s \<le> n \<Longrightarrow> \<exists>k f'. out_write io s f = (Inr k, f')"
    and idx_write_total: "room f n m \<Longrightarrow> length s \<le> m \<Longrightarrow> \<exists>k f'. idx_write io s f = (Inr k, f')"
    and idx_close_total: "room f n m \<Longrightarrow> \<exists>f'. idx_close io f = (Inr (), f')"
begin

lemma write_buffer_succeeds:
  assumes "room (m_files dw) n m" "length (m_bytes (m_buffer dw)) \<le> n"
  shows "\<exists>result dw'. write_buffer io c True dw = (Inr result, dw')"
proof -
  obtain k f where w: "out_write io (m_bytes (m_buffer dw)) (m_files dw) = (Inr k, f)" using out_write_total [OF assms] by blast
  then have "\<not> k < 0" using out_write_law [OF assms w] by simp
  then show ?thesis using w by (simp add: write_buffer_def Let_def)
qed

lemma write_index_succeeds:
  assumes "room (m_files dw) n m" "8 \<le> m"
  shows "\<exists>dw'. write_index io dw = (Inr (), dw')"
  using idx_write_total [OF assms(1), of "bytes_of 8 (unat (host_to_network (word_of_nat (m_bytes_written dw))))"] assms(2)
  by (auto simp: write_index_def Let_def)

lemma write_row_succeeds:
  assumes "running N n m dw" "row_fits r" "length (row_bytes r) \<le> n" "8 \<le> m"
  shows "\<exists>result dw'. write_row io store r dw = (Inr result, dw')"
proof -
  have run: "ready (m_buffer dw)" "room (m_files dw) n m" using assms(1) by (simp_all add: running_def)
  obtain b where b: "store r (clear (m_buffer dw)) = Inr b" "m_bytes b = row_bytes r" using store_law [OF run(1) assms(2)] by blast
  let ?dw = "dw\<lparr>m_buffer := b\<rparr>"
  obtain result dw1 where w: "write_buffer io ''row'' True ?dw = (Inr result, dw1)"
    using write_buffer_succeeds [of ?dw n m "''row''"] run(2) b(2) assms(3) by auto
  then obtain f where f: "dw1 = ?dw\<lparr>m_files := f\<rparr>" "room f (n - length (row_bytes r)) m"
    using write_buffer_ok [of ?dw n m, OF _ _ w] run(2) b(2) assms(3) by auto
  have "\<exists>dw3. write_index io (dw1\<lparr>m_bytes_written := x, m_bytes_written_per_idx := y\<rparr>) = (Inr (), dw3)" for x y
    using write_index_succeeds [OF _ assms(4)] f by simp
  then show ?thesis using b(1) w by (auto simp: write_row_def Let_def split: prod.splits sum.splits) (metis prod.inject sum.distinct(1))+
qed

lemma write_rows_succeeds:
  assumes "running N n m dw" "list_all row_fits rows" "sum_list (map (\<lambda>r. length (row_bytes r)) rows) \<le> n" "8 * length rows \<le> m"
    "N + sum_list (map (\<lambda>r. length (row_bytes r)) rows) < 2 ^ 64"
  shows "\<exists>result dw'. write_rows io store rows acc dw = (Inr result, dw')"
  using assms
proof (induction rows arbitrary: N n m dw acc)
  case (Cons r rows)
  let ?l = "length (row_bytes r)" and ?e = "marks N [length (row_bytes r)]"
  obtain result dw1 where w: "write_row io store r dw = (Inr result, dw1)"
    using write_row_succeeds [OF Cons.prems(1), of r] Cons.prems(2-4) by auto
  have "running (N + ?l) (n - ?l) (m - 8 * length ?e) dw1"
    using write_row_ok [OF Cons.prems(1) _ _ _ _ w] Cons.prems(2-5) by simp
  moreover have "8 * length rows \<le> m - 8 * length ?e" using Cons.prems(4) marks_length [of N "[?l]"] by (simp del: marks.simps)
  ultimately have "\<exists>result' dw'. write_rows io store rows (add_result acc result) dw1 = (Inr result', dw')"
    using Cons.prems(2,3,5) by (intro Cons.IH) (auto simp: add.assoc)
  then show ?case using w by simp
qed simp

lemma dump_succeeds:
  assumes "running 0 n m dw" "list_all row_fits rows" "sum_list (map (\<lambda>r. length (row_bytes r)) rows) \<le> n" "8 * length rows + 8 \<le> m"
    "sum_list (map (\<lambda>r. length (row_bytes r)) rows) < 2 ^ 64"
  shows "\<exists>result dw1 dw2. write_rows io store rows acc dw = (Inr result, dw1) \<and> dump_close io dw1 = (Inr (), dw2)"
proof -
  let ?es = "marks 0 (map (\<lambda>r. length (row_bytes r)) rows)" and ?len = "sum_list (map (\<lambda>r. length (row_bytes r)) rows)"
  obtain result dw1 where w: "write_rows io store rows acc dw = (Inr result, dw1)"
    using write_rows_succeeds [OF assms(1-3)] assms(4,5) by fastforce
  have room: "room (m_files dw1) (n - ?len) (m - 8 * length ?es)" "m_index dw1"
    using write_rows_ok [OF assms(1-3) _ _ w] assms(4,5) by (simp_all add: running_def)
  have "8 \<le> m - 8 * length ?es" using marks_length [of 0 "map (\<lambda>r. length (row_bytes r)) rows"] assms(4) by simp
  then obtain dw2 f where i: "write_index io dw1 = (Inr (), dw2)" "dw2 = dw1\<lparr>m_files := f\<rparr>" "room f (n - ?len) (m - 8 * length ?es - 8)"
    using write_index_succeeds [OF room(1)] write_index_ok [OF room(1)] by blast
  then show ?thesis using w idx_close_total [OF i(3)] idx_open_law [OF room(1)] room(2) by (auto simp: dump_close_def)
qed

end

section \<open>Reading the size back\<close>

lemma index_entry_length [simp]: "length (index_entry n) = 8"
  by (simp add: index_entry_def)

lemma index_data_size_last:
  assumes "n < 2 ^ 64" "8 dvd length s"
  shows "index_data_size (s @ index_entry n) = n"
proof -
  have "of_bytes (index_entry n) = unat (host_to_network (word_of_nat n))"
    unfolding index_entry_def using unsigned_less [of "host_to_network (word_of_nat n)"] by (intro of_bytes_of) (simp add: unsigned_less [THEN less_le_trans])
  then have "network_to_host (word_of_nat (of_bytes (index_entry n))) = word_of_nat n" by (simp add: network_to_host_inverse)
  moreover have "(length s + 8) mod 8 = 0" using assms(2) by (simp add: mod_add_self2 dvd_eq_mod_eq_0)
  ultimately show ?thesis using assms(1) by (simp add: index_data_size_def k_entry_size_def unat_of_nat take_bit_nat_eq_self)
qed

text \<open>The marks are the ends of rows, in ascending order, and every megabyte that is complete has one.\<close>

lemma marks_ends: "x \<in> set (marks n ls) \<Longrightarrow> \<exists>k \<le> length ls. x = n + sum_list (take k ls)"
proof (induction ls arbitrary: n)
  case (Cons l ls)
  then consider "x = n + l" | k where "k \<le> length ls" "x = n + l + sum_list (take k ls)" by (fastforce split: if_splits)
  then show ?case
  proof cases
    case 1
    then show ?thesis by (intro exI [of _ 1]) simp
  next
    case 2
    then show ?thesis by (intro exI [of _ "Suc k"]) simp
  qed
qed simp

lemma marks_megabytes:
  assumes "n div k_write_idx_every < j" "j \<le> (n + sum_list ls) div k_write_idx_every"
  shows "\<exists>x \<in> set (marks n ls). j \<le> x div k_write_idx_every \<and> (\<forall>k \<le> length ls. n + sum_list (take k ls) < x \<longrightarrow> (n + sum_list (take k ls)) div k_write_idx_every < j)"
  using assms
proof (induction ls arbitrary: n)
  case (Cons l ls)
  show ?case
  proof (cases "j \<le> (n + l) div k_write_idx_every")
    case True
    have "(n + sum_list (take k (l # ls))) div k_write_idx_every < j" if "n + sum_list (take k (l # ls)) < n + l" for k
      using that Cons.prems(1) by (cases k) auto
    then show ?thesis using True Cons.prems(1) by auto
  next
    case False
    then obtain x where x: "x \<in> set (marks (n + l) ls)" "j \<le> x div k_write_idx_every"
        "\<forall>k \<le> length ls. n + l + sum_list (take k ls) < x \<longrightarrow> (n + l + sum_list (take k ls)) div k_write_idx_every < j"
      using Cons.IH [of "n + l"] Cons.prems(2) by (auto simp: add.assoc)
    have "(n + sum_list (take k (l # ls))) div k_write_idx_every < j" if "k \<le> length (l # ls)" "n + sum_list (take k (l # ls)) < x" for k
      using that x(3) Cons.prems(1) by (cases k) (auto simp: add.assoc)
    then show ?thesis using x(1,2) by (intro bexI [of _ x]) auto
  qed
qed simp

end
