(* ===== verification/Column.thy ===== *)
theory Column
  imports Str_Util
begin

text \<open>
  Model of \<^verbatim>\<open>mysqlshdk/libs/db/column.{h,cc}\<close>: the types of columns, their names, and the type of a column as the server
  describes it. The dump writers decide from the type how a value is written.
\<close>

datatype db_type = Null | String | Integer | UInteger | Float | Double | Decimal | Bytes | Geometry | Json | Date | Time
  | DateTime | Bit | Enum | Set | Vector

fun type_to_string :: "db_type \<Rightarrow> string" where
  "type_to_string Null = ''Null''"
| "type_to_string String = ''String''"
| "type_to_string Integer = ''Integer''"
| "type_to_string UInteger = ''UInteger''"
| "type_to_string Float = ''Float''"
| "type_to_string Double = ''Double''"
| "type_to_string Decimal = ''Decimal''"
| "type_to_string Bytes = ''Bytes''"
| "type_to_string Geometry = ''Geometry''"
| "type_to_string Json = ''Json''"
| "type_to_string DateTime = ''DateTime''"
| "type_to_string Date = ''Date''"
| "type_to_string Time = ''Time''"
| "type_to_string Bit = ''Bit''"
| "type_to_string Enum = ''Enum''"
| "type_to_string Set = ''Set''"
| "type_to_string Vector = ''Vector''"

definition string_to_type :: "string \<Rightarrow> db_type result" where
  "string_to_type s =
     (if s = ''Null'' then Inr Null
      else if s = ''String'' then Inr String
      else if s = ''Integer'' then Inr Integer
      else if s = ''UInteger'' then Inr UInteger
      else if s = ''Float'' then Inr Float
      else if s = ''Double'' then Inr Double
      else if s = ''Decimal'' then Inr Decimal
      else if s = ''Bytes'' then Inr Bytes
      else if s = ''Geometry'' then Inr Geometry
      else if s = ''Json'' then Inr Json
      else if s = ''DateTime'' then Inr DateTime
      else if s = ''Date'' then Inr Date
      else if s = ''Time'' then Inr Time
      else if s = ''Bit'' then Inr Bit
      else if s = ''Enum'' then Inr Enum
      else if s = ''Set'' then Inr Set
      else if s = ''Vector'' then Inr Vector
      else Inl (Logic_error (''Unknown type '' @ s)))"

definition is_string_type :: "db_type \<Rightarrow> bool" where
  "is_string_type t \<longleftrightarrow> t \<in> {Bytes, Geometry, Json, Date, Time, DateTime, Enum, Set, String, Vector}"

definition is_binary_type :: "db_type \<Rightarrow> bool" where
  "is_binary_type t \<longleftrightarrow> t \<in> {Bytes, Geometry, Vector}"

definition is_numeric :: "db_type \<Rightarrow> bool" where
  "is_numeric t \<longleftrightarrow> t \<in> {Integer, UInteger, Float, Double, Decimal}"

definition type_to_dbstring :: "db_type \<Rightarrow> nat \<Rightarrow> string" where
  "type_to_dbstring t len =
     (if t \<in> {Integer, UInteger} \<and> len \<in> {3, 4} then ''TinyInt''
      else if t \<in> {Integer, UInteger} \<and> len \<in> {5, 6} then ''SmallInt''
      else if t \<in> {Integer, UInteger} \<and> len \<in> {8, 9} then ''MediumInt''
      else if t \<in> {Integer, UInteger} \<and> len \<in> {10, 11} then ''Int''
      else if t \<in> {Integer, UInteger} \<and> len = 20 then ''BigInt''
      else type_to_string t)"

definition dbstring_to_type :: "string \<Rightarrow> string \<Rightarrow> db_type result" where
  "dbstring_to_type data_type column_type =
     (if list_ex (str_iendswith data_type) [''geometry'', ''geomcollection'', ''geometrycollection'', ''linestring'', ''point'', ''polygon'']
      then Inr Geometry
      else if str_iendswith data_type ''int'' then Inr (if str_iendswith column_type '' unsigned'' then UInteger else Integer)
      else if str_caseeq data_type ''decimal'' then Inr Decimal
      else if str_caseeq data_type ''double'' then Inr Double
      else if str_caseeq data_type ''float'' then Inr Float
      else if str_caseeq data_type ''date'' then Inr Date
      else if str_caseeq data_type ''time'' then Inr Time
      else if list_ex (str_caseeq data_type) [''timestamp'', ''datetime''] then Inr DateTime
      else if str_caseeq data_type ''year'' then Inr UInteger
      else if list_ex (str_iendswith data_type) [''blob'', ''binary''] then Inr Bytes
      else if list_ex (str_iendswith data_type) [''char'', ''text''] then Inr String
      else if str_caseeq data_type ''bit'' then Inr Bit
      else if str_caseeq data_type ''enum'' then Inr Enum
      else if str_caseeq data_type ''set'' then Inr Set
      else if str_caseeq data_type ''json'' then Inr Json
      else if str_caseeq data_type ''vector'' then Inr Vector
      else if list_ex (str_caseeq data_type) [''uuid'', ''inet4'', ''inet6'', ''xmltype''] then Inr String
      else Inl (Logic_error (''Unknown data_type: '' @ data_type @ '' and column_type: '' @ column_type)))"

text \<open>Types are read back from their names; every other name is refused.\<close>

lemma string_to_type_roundtrip: "string_to_type s = Inr t \<longleftrightarrow> s = type_to_string t"
proof
  show "s = type_to_string t" if "string_to_type s = Inr t"
    using that by (simp add: string_to_type_def split: if_splits)
  show "string_to_type s = Inr t" if "s = type_to_string t"
    using that by (cases t) (simp_all add: string_to_type_def)
qed

text \<open>A value is written as text, as a number or as bits; a number is never written as text.\<close>

lemma type_classes: "is_numeric t \<Longrightarrow> \<not> is_string_type t" "is_binary_type t \<Longrightarrow> is_string_type t"
  "\<not> is_string_type t \<Longrightarrow> is_numeric t \<or> t \<in> {Null, Bit}"
  by (cases t; simp add: is_numeric_def is_string_type_def is_binary_type_def)+

end
