(* ===== verification/Text_Writer.thy ===== *)
theory Text_Writer
  imports Dump_Buffer Column Dialect
begin

text \<open>
  Model of \<^verbatim>\<open>modules/util/dump/text_dump_writer.{h,cc}\<close>: the rows of a table as text in a dialect. A row is the list of its raw
  values, \<open>None\<close> for NULL; as the client library guarantees, the bytes of a value are followed by a zero byte.

  The theorem: whatever the values are, storing a row neither writes beyond the buffer nor beyond what was reserved,
  and the buffer then holds the text of the row, which is defined without a buffer.
\<close>

datatype escape_type = NONE | FULL | BASE64

datatype encoding_type = Enc_none | Enc_base64 | Enc_hex | Enc_vector

definition k_numeric_types_alphabet :: string where
  "k_numeric_types_alphabet = ''.0123456789e+-''"

definition k_vector_types_alphabet :: string where
  "k_vector_types_alphabet = ''.0123456789e+-[],''"

definition k_hex_types_alphabet :: string where
  "k_hex_types_alphabet = ''0123456789abcdefABCDEF''"

definition k_base64_types_alphabet :: string where
  "k_base64_types_alphabet = ''abcdefghijklmnopqrstuvwxyzABCDEFGHIJKLMNOPQRSTUVWXYZ0123456789+/=''"

record text_writer =
  m_dialect :: dialect
  m_line_terminator :: string
  m_null :: string
  m_escape :: bool
  m_escaped_characters :: string
  m_escape_char :: char
  m_double_enclosed_by :: bool
  m_numbers_need_escape :: escape_type
  m_vectors_need_escape :: escape_type
  m_hex_need_escape :: escape_type
  m_base64_need_escape :: escape_type
  m_is_string_type :: "bool list"
  m_is_number_type :: "bool list"
  m_needs_escape :: "escape_type list"

section \<open>Setting up\<close>

text \<open>The characters that are escaped in addition to the ones with their own sequence; the array of four is filled up with zeros.\<close>

definition escaped_characters :: "dialect \<Rightarrow> string" where
  "escaped_characters d =
     hd (fields_escaped_by d) #
     (if fields_enclosed_by d = [] then (if fields_terminated_by d \<noteq> [] then [hd (fields_terminated_by d)] else [])
      else [hd (fields_enclosed_by d)]) @
     (if lines_terminated_by d \<noteq> [] then [hd (lines_terminated_by d)] else [])"

definition need_escape :: "string \<Rightarrow> string \<Rightarrow> escape_type \<Rightarrow> escape_type" where
  "need_escape chars alphabet e = (if list_ex (\<lambda>c. c \<in> set alphabet) chars then FULL else e)"

definition new_text_writer :: "dialect \<Rightarrow> text_writer" where
  "new_text_writer d =
     (let escape = fields_escaped_by d \<noteq> []; chars = (if escape then escaped_characters d else [])
      in \<lparr>m_dialect = d,
          m_line_terminator = (if lines_terminated_by d = [] then fields_terminated_by d else lines_terminated_by d),
          m_null = (if escape then fields_escaped_by d @ ''N'' else ''NULL''),
          m_escape = escape,
          m_escaped_characters = chars @ replicate (4 - length chars) (CHR 0x00),
          m_escape_char = (if escape then hd (fields_escaped_by d) else CHR 0x00),
          m_double_enclosed_by = (fields_enclosed_by d \<noteq> [] \<and> hd (fields_enclosed_by d) \<in> set ''0bnrtZN''),
          m_numbers_need_escape = need_escape chars k_numeric_types_alphabet NONE,
          m_vectors_need_escape = need_escape chars k_vector_types_alphabet NONE,
          m_hex_need_escape = need_escape chars k_hex_types_alphabet NONE,
          m_base64_need_escape = need_escape chars k_base64_types_alphabet BASE64,
          m_is_string_type = [], m_is_number_type = [], m_needs_escape = []\<rparr>)"

definition column_needs_escape :: "text_writer \<Rightarrow> db_type list \<Rightarrow> encoding_type list \<Rightarrow> nat \<Rightarrow> escape_type" where
  "column_needs_escape w metadata pre i =
     (if \<not> is_string_type (metadata ! i) \<and> metadata ! i \<noteq> Bit then m_numbers_need_escape w
      else if length pre = length metadata then
        (case pre ! i of Enc_base64 \<Rightarrow> m_base64_need_escape w | Enc_hex \<Rightarrow> m_hex_need_escape w
         | Enc_vector \<Rightarrow> m_vectors_need_escape w | Enc_none \<Rightarrow> FULL)
      else FULL)"

definition quoted_length :: "dialect \<Rightarrow> bool \<Rightarrow> nat" where
  "quoted_length d is_string =
     (if \<not> fields_optionally_enclosed d \<or> is_string then 2 * length (fields_enclosed_by d) else 0)"

definition read_metadata :: "text_writer \<Rightarrow> db_type list \<Rightarrow> encoding_type list \<Rightarrow> buffer \<Rightarrow> (text_writer \<times> buffer) result" where
  "read_metadata w metadata pre b =
     (let d = m_dialect w; n = length metadata;
          w' = w\<lparr>m_is_string_type := map is_string_type metadata,
                 m_is_number_type := map (\<lambda>t. \<not> is_string_type t \<and> t \<noteq> Bit) metadata,
                 m_needs_escape := map (column_needs_escape w metadata pre) [0 ..< n]\<rparr>;
          fixed = length (lines_starting_by d) + length (m_line_terminator w) +
            (if 0 < n then (n - 1) * length (fields_terminated_by d) else 0) +
            sum_list (map (\<lambda>t. quoted_length d (is_string_type t)) metadata)
      in rbind (set_fixed_length fixed b) (\<lambda>b'. Inr (w', b')))"

section \<open>Storing a row\<close>

text \<open>One turn of the loop that escapes.\<close>

definition escape_byte :: "text_writer \<Rightarrow> char \<Rightarrow> string" where
  "escape_byte w c =
     (if c = CHR 0x00 then [m_escape_char w, CHR ''0'']
      else if c = CHR 0x08 then [m_escape_char w, CHR ''b'']
      else if c = CHR 0x0A then [m_escape_char w, CHR ''n'']
      else if c = CHR 0x0D then [m_escape_char w, CHR ''r'']
      else if c = CHR 0x09 then [m_escape_char w, CHR ''t'']
      else if c = CHR 0x1A then [m_escape_char w, CHR ''Z'']
      else if c \<in> set (m_escaped_characters w)
      then [if m_double_enclosed_by w \<and> c = hd (fields_enclosed_by (m_dialect w)) then c else m_escape_char w, c]
      else [c])"

definition escape_loop :: "text_writer \<Rightarrow> string \<Rightarrow> buffer \<Rightarrow> buffer result" where
  "escape_loop w data = rfold (\<lambda>c b. rfold (\<lambda>x. append_bytes [x]) (escape_byte w c) b) data"

definition store_data :: "text_writer \<Rightarrow> nat \<Rightarrow> string \<Rightarrow> buffer \<Rightarrow> buffer result" where
  "store_data w idx data b =
     (if \<not> m_escape w \<or> m_needs_escape w ! idx = NONE
      then rbind (will_write (length data) b) (append_bytes data)
      else if m_escape w \<and> m_needs_escape w ! idx = BASE64 \<and> (length data < 76 \<or> (data @ [CHR 0x00]) ! 76 = CHR 0x0A)
      then write_base64_data data b
      else rbind (will_write (2 * length data) b) (escape_loop w data))"

definition quote_field :: "text_writer \<Rightarrow> nat \<Rightarrow> buffer \<Rightarrow> buffer result" where
  "quote_field w idx b =
     (if \<not> fields_optionally_enclosed (m_dialect w) \<or> m_is_string_type w ! idx
      then append_fixed (fields_enclosed_by (m_dialect w)) b else Inr b)"

definition store_null :: "text_writer \<Rightarrow> buffer \<Rightarrow> buffer result" where
  "store_null w b = rbind (will_write (length (m_null w)) b) (append_bytes (m_null w))"

text \<open>\<^verbatim>\<open>inf\<close>, \<^verbatim>\<open>-inf\<close> and \<^verbatim>\<open>nan\<close> are written as NULL.\<close>

definition not_a_number :: "string \<Rightarrow> bool" where
  "not_a_number data \<longleftrightarrow>
     0 < length data \<and> isalpha (data ! 0) \<or> 1 < length data \<and> data ! 0 = CHR ''-'' \<and> isalpha (data ! 1)"

definition store_field :: "text_writer \<Rightarrow> string option list \<Rightarrow> nat \<Rightarrow> buffer \<Rightarrow> buffer result" where
  "store_field w row idx b =
     rbind (if idx \<noteq> 0 then append_fixed (fields_terminated_by (m_dialect w)) b else Inr b) (\<lambda>b1.
       case row ! idx of
         None \<Rightarrow> store_null w b1
       | Some data \<Rightarrow>
           if m_is_number_type w ! idx \<and> not_a_number data then store_null w b1
           else rbind (quote_field w idx b1) (\<lambda>b2. rbind (store_data w idx data b2) (quote_field w idx)))"

definition store_row :: "text_writer \<Rightarrow> string option list \<Rightarrow> buffer \<Rightarrow> buffer result" where
  "store_row w row b =
     rbind (append_fixed (lines_starting_by (m_dialect w)) b) (\<lambda>b1.
     rbind (rfold (store_field w row) [0 ..< length (m_is_string_type w)] b1) (append_fixed (m_line_terminator w)))"

section \<open>The text of a row\<close>

definition data_text :: "text_writer \<Rightarrow> nat \<Rightarrow> string \<Rightarrow> string" where
  "data_text w idx data =
     (if \<not> m_escape w \<or> m_needs_escape w ! idx = NONE then data
      else if m_needs_escape w ! idx = BASE64 \<and> (length data < 76 \<or> (data @ [CHR 0x00]) ! 76 = CHR 0x0A) then strip_lines data
      else concat (map (escape_byte w) data))"

definition quote_text :: "text_writer \<Rightarrow> nat \<Rightarrow> string" where
  "quote_text w idx =
     (if \<not> fields_optionally_enclosed (m_dialect w) \<or> m_is_string_type w ! idx then fields_enclosed_by (m_dialect w) else [])"

definition value_text :: "text_writer \<Rightarrow> nat \<Rightarrow> string option \<Rightarrow> string" where
  "value_text w idx v =
     (case v of
        None \<Rightarrow> m_null w
      | Some data \<Rightarrow> if m_is_number_type w ! idx \<and> not_a_number data then m_null w
                     else quote_text w idx @ data_text w idx data @ quote_text w idx)"

definition field_text :: "text_writer \<Rightarrow> string option list \<Rightarrow> nat \<Rightarrow> string" where
  "field_text w row idx = (if idx \<noteq> 0 then fields_terminated_by (m_dialect w) else []) @ value_text w idx (row ! idx)"

definition row_text :: "text_writer \<Rightarrow> string option list \<Rightarrow> string" where
  "row_text w row =
     lines_starting_by (m_dialect w) @ concat (map (field_text w row) [0 ..< length (m_is_string_type w)]) @ m_line_terminator w"

text \<open>What is reserved for a field, and what its value may take in addition.\<close>

definition reserved :: "text_writer \<Rightarrow> nat \<Rightarrow> nat" where
  "reserved w idx =
     (if idx \<noteq> 0 then length (fields_terminated_by (m_dialect w)) else 0) + quoted_length (m_dialect w) (m_is_string_type w ! idx)"

fun value_need :: "text_writer \<Rightarrow> string option \<Rightarrow> nat" where
  "value_need w None = length (m_null w)"
| "value_need w (Some data) = length (m_null w) + 2 * length data"

lemma escape_byte_length: "length (escape_byte w c) \<le> 2"
  by (simp add: escape_byte_def)

lemma escape_text_length: "length (concat (map (escape_byte w) data)) \<le> 2 * length data"
proof (induction data)
  case (Cons c data)
  then show ?case using escape_byte_length [of w c] by simp
qed simp

lemma store_data_ok:
  assumes "buffer_ok b" "fits (2 * length data) b"
  shows "\<exists>b'. store_data w idx data b = Inr b' \<and> wrote b (data_text w idx data) 0 b'"
proof -
  have f: "fits (length data) b" using assms(2) by (simp add: fits_def)
  have "\<exists>b'. rbind (will_write (length data) b) (append_bytes data) = Inr b' \<and> wrote b data 0 b'"
    by (rule write_announced [OF assms(1) f]) simp_all
  moreover have "\<exists>b'. rbind (will_write (2 * length data) b) (escape_loop w data) = Inr b' \<and>
      wrote b (concat (map (escape_byte w) data)) 0 b'"
    by (rule write_announced [OF assms escape_text_length]) (simp add: escape_loop_def append_all holds_def)
  ultimately show ?thesis using write_base64_ok [OF assms(1) f]
    unfolding store_data_def data_text_def by auto
qed

lemma data_text_length: "length (data_text w idx data) \<le> 2 * length data"
  using strip_lines_length [of data] escape_text_length [of w data] by (auto simp: data_text_def)

lemma quote_field_puts: "puts (quote_field w idx) (quote_text w idx)"
  using puts_append_fixed by (simp add: puts_def quote_field_def quote_text_def)

lemma store_null_ok:
  assumes "buffer_ok b" "fits (length (m_null w)) b"
  shows "\<exists>b'. store_null w b = Inr b' \<and> wrote b (m_null w) 0 b'"
  unfolding store_null_def by (rule write_announced [OF assms]) simp_all

lemma store_value_ok:
  assumes "buffer_ok b" "fits (value_need w v) b" "2 * length (quote_text w idx) + 0 \<le> m_fixed_length_remaining b"
  shows "\<exists>b' f. (case v of
         None \<Rightarrow> store_null w b
       | Some data \<Rightarrow>
           if m_is_number_type w ! idx \<and> not_a_number data then store_null w b
           else rbind (quote_field w idx b) (\<lambda>b2. rbind (store_data w idx data b2) (quote_field w idx))) = Inr b' \<and>
    wrote b (value_text w idx v) f b' \<and> f \<le> 2 * length (quote_text w idx) + 0 \<and> length (value_text w idx v) \<le> f + value_need w v"
  unfolding value_text_def
proof (rule value_ok [OF assms quote_field_puts])
  fix b
  assume b: "buffer_ok b" "fits (value_need w v) b"
  then have "fits (length (m_null w)) b" by (cases v) (simp_all add: fits_def)
  then show "\<exists>b'. store_null w b = Inr b' \<and> wrote b (m_null w) 0 b'" by (rule store_null_ok [OF b(1)])
next
  fix b data
  assume b: "v = Some data" "buffer_ok b" "fits (value_need w v) b"
  then have "fits (2 * length data) b" by (simp add: fits_def)
  from store_data_ok [OF b(2) this]
  show "\<exists>b' f. store_data w idx data b = Inr b' \<and> wrote b (data_text w idx data) f b' \<and> f \<le> 0 \<and>
      length (data_text w idx data) \<le> f + value_need w v"
    using data_text_length [of w idx data] b(1) by fastforce
qed (cases v; simp)

lemma store_field_ok:
  assumes "buffer_ok b" "fits (value_need w (row ! idx)) b" "reserved w idx \<le> m_fixed_length_remaining b"
  shows "\<exists>b' f. store_field w row idx b = Inr b' \<and> wrote b (field_text w row idx) f b' \<and> f \<le> reserved w idx \<and>
    length (field_text w row idx) \<le> f + value_need w (row ! idx)"
proof -
  let ?F = "if idx \<noteq> 0 then fields_terminated_by (m_dialect w) else []"
  have r: "reserved w idx = length ?F + (2 * length (quote_text w idx) + 0)"
    by (simp add: reserved_def quote_text_def quoted_length_def)
  have "puts (\<lambda>b. if idx \<noteq> 0 then append_fixed (fields_terminated_by (m_dialect w)) b else Inr b) ?F"
    using puts_append_fixed by (simp add: puts_def)
  from separated_ok [OF assms(1,2) assms(3)[unfolded r] this store_value_ok]
  show ?thesis unfolding store_field_def field_text_def r .
qed

interpretation tw: row_writer "store_field w row" "field_text w row" "reserved w" "\<lambda>i. value_need w (row ! i)" for w row
  by unfold_locales (rule store_field_ok)

text \<open>The writer is set up for a table, and the buffer for the writer.\<close>

definition set_up :: "text_writer \<Rightarrow> buffer \<Rightarrow> bool" where
  "set_up w b \<longleftrightarrow>
     length (m_is_number_type w) = length (m_is_string_type w) \<and> length (m_needs_escape w) = length (m_is_string_type w) \<and>
     buffer_ok (clear b) \<and>
     m_fixed_length b = length (lines_starting_by (m_dialect w)) + length (m_line_terminator w) +
       sum_list (map (reserved w) [0 ..< length (m_is_string_type w)])"

lemma reserved_sum:
  "sum_list (map (reserved w) [0 ..< n]) =
     (n - 1) * length (fields_terminated_by (m_dialect w)) + sum_list (map (\<lambda>i. quoted_length (m_dialect w) (m_is_string_type w ! i)) [0 ..< n])"
proof (induction n)
  case (Suc n)
  then show ?case by (cases n) (simp_all add: reserved_def)
qed simp

lemma read_metadata_set_up:
  assumes "buffer_ok b" "m_bytes b = []" "m_fixed_length_remaining b = 0" "read_metadata w metadata pre b = Inr (w', b')"
  shows "set_up w' b'"
proof -
  obtain n where n: "set_fixed_length n b = Inr b'" "w' = w\<lparr>m_is_string_type := map is_string_type metadata,
                 m_is_number_type := map (\<lambda>t. \<not> is_string_type t \<and> t \<noteq> Bit) metadata,
                 m_needs_escape := map (column_needs_escape w metadata pre) [0 ..< length metadata]\<rparr>"
      "n = length (lines_starting_by (m_dialect w)) + length (m_line_terminator w) +
            (if 0 < length metadata then (length metadata - 1) * length (fields_terminated_by (m_dialect w)) else 0) +
            sum_list (map (\<lambda>t. quoted_length (m_dialect w) (is_string_type t)) metadata)"
    using assms(4) by (auto simp: read_metadata_def Let_def)
  have "sum_list (map (\<lambda>t. quoted_length (m_dialect w) (is_string_type t)) metadata) =
      sum_list (map (\<lambda>i. quoted_length (m_dialect w) (map is_string_type metadata ! i)) [0 ..< length metadata])"
    by (rule arg_cong [where f = sum_list], rule nth_equalityI) auto
  then have "n = length (lines_starting_by (m_dialect w')) + length (m_line_terminator w') +
      sum_list (map (reserved w') [0 ..< length (m_is_string_type w')])"
    using n(2,3) reserved_sum [of w' "length metadata"] by auto
  moreover note set_fixed_length_ok [OF n(1) assms(1-3)]
  ultimately show ?thesis using n(2) by (simp add: set_up_def)
qed

lemma store_row_ok:
  assumes "set_up w b" "m_fixed_length b + sum_list (map (\<lambda>i. value_need w (row ! i)) [0 ..< length (m_is_string_type w)]) \<le> 2 ^ 63"
  shows "\<exists>b'. store_row w row (clear b) = Inr b' \<and> m_bytes b' = row_text w row \<and> set_up w b'"
proof -
  let ?is = "[0 ..< length (m_is_string_type w)]"
  have "length (lines_starting_by (m_dialect w)) + sum_list (map (reserved w) ?is) + length (m_line_terminator w) \<le> m_fixed_length b"
    using assms(1) by (simp add: set_up_def)
  then have "\<exists>b'. store_row w row (clear b) = Inr b' \<and> m_bytes b' = row_text w row \<and> m_fixed_length b' = m_fixed_length b \<and> buffer_ok (clear b')"
    using tw.row_ok [where b = b and w = w and row = row and ?is = ?is and s = "lines_starting_by (m_dialect w)" and
        l = "m_line_terminator w" and finish = "append_fixed (m_line_terminator w)"] puts_append_fixed(1) assms
    unfolding store_row_def row_text_def set_up_def by blast
  then show ?thesis using assms(1) by (auto simp: set_up_def)
qed

text \<open>C30: the general writer, set up for any dialect and any table, stores every row without writing beyond its buffer or beyond what was reserved
  for separators and quotes, and leaves exactly the text of the row in the buffer.\<close>

theorem store_row_text:
  assumes "read_metadata (new_text_writer d) metadata pre new_buffer = Inr (w, b)" "length row = length metadata"
    "m_fixed_length b + sum_list (map (value_need w) row) \<le> 2 ^ 63"
  shows "\<exists>b'. store_row w row (clear b) = Inr b' \<and> m_bytes b' = row_text w row \<and> set_up w b'"
proof -
  have "length (m_is_string_type w) = length row" using assms(1,2) by (auto simp: read_metadata_def Let_def)
  moreover have "map (\<lambda>i. value_need w (row ! i)) [0 ..< length row] = map (value_need w) row" by (intro nth_equalityI) auto
  moreover have "set_up w b" by (rule read_metadata_set_up [OF _ _ _ assms(1)]) (simp_all add: new_buffer_def buffer_ok_def)
  ultimately show ?thesis using store_row_ok [of w b row] assms(3) by simp
qed

theorem store_row_text_witness:
  "\<exists>w b b'. read_metadata (new_text_writer csv) [Integer, String] [] new_buffer = Inr (w, b) \<and>
     store_row w [Some ''12'', Some [CHR ''a'', CHR 0x0A]] (clear b) = Inr b' \<and>
     m_bytes b' = ''12,'' @ [CHR 0x22] @ ''a'' @ [CHR 0x5C] @ ''n'' @ [CHR 0x22, CHR 0x0D, CHR 0x0A]"
proof -
  let ?w = "(new_text_writer csv)\<lparr>m_is_string_type := [False, True], m_is_number_type := [True, False], m_needs_escape := [NONE, FULL]\<rparr>"
  let ?b = "new_buffer\<lparr>m_fixed_length := 5, m_fixed_length_remaining := 5\<rparr>"
  have m: "read_metadata (new_text_writer csv) [Integer, String] [] new_buffer = Inr (?w, ?b)"
    by (simp add: read_metadata_def column_needs_escape_def quoted_length_def set_fixed_length_def will_write_def new_buffer_def
        is_string_type_def new_text_writer_def csv_def need_escape_def escaped_characters_def k_numeric_types_alphabet_def)
  have n: "m_null ?w = [CHR 0x5C, CHR ''N'']" by (simp add: new_text_writer_def csv_def Let_def)
  have "row_text ?w [Some ''12'', Some [CHR ''a'', CHR 0x0A]] = ''12,'' @ [CHR 0x22] @ ''a'' @ [CHR 0x5C] @ ''n'' @ [CHR 0x22, CHR 0x0D, CHR 0x0A]"
    by (simp add: row_text_def field_text_def value_text_def quote_text_def data_text_def escape_byte_def not_a_number_def isalpha_def isupper_def islower_def
        new_text_writer_def csv_def need_escape_def escaped_characters_def)
  moreover have "\<exists>b'. store_row ?w [Some ''12'', Some [CHR ''a'', CHR 0x0A]] (clear ?b) = Inr b' \<and>
      m_bytes b' = row_text ?w [Some ''12'', Some [CHR ''a'', CHR 0x0A]] \<and> set_up ?w b'"
    by (rule store_row_text [OF m]) (simp_all add: n)
  ultimately show ?thesis using m by auto
qed

section \<open>Escaped values are told apart\<close>















text \<open>A valid dialect that is ambiguous: lines end with the letter n, which is then escaped like a line feed.\<close>

lemma line_terminator_ambiguous:
  fixes d :: dialect
  defines "d \<equiv> default_dialect\<lparr>lines_terminated_by := ''n''\<rparr>"
  shows "validate d = Inr ()" "escape_byte (new_text_writer d) (CHR ''n'') = escape_byte (new_text_writer d) (CHR 0x0A)"
  by (simp_all add: d_def validate_def default_dialect_def BUFFER_SIZE_def k_escaped_chars_def k_numeric_chars_def escape_byte_def new_text_writer_def
      escaped_characters_def Let_def)

end
