(* ===== verification/Dialect_Writer.thy ===== *)
theory Dialect_Writer
  imports Text_Writer
begin

text \<open>
  Model of \<^verbatim>\<open>modules/util/dump/dialect_dump_writer.h\<close>: the writers that are compiled for one of the named dialects. The traits of
  the template are a dialect without a line prefix, and its static assertions are \<open>traits_ok\<close> and \<open>fast_traits_ok\<close>.

  The theorems: the compiled writers stay in the buffer, and those for dialects with an escape character write the same text as the general writer.
\<close>

section \<open>Dialect\_dump\_writer\<close>

definition traits_ok :: "dialect \<Rightarrow> bool" where
  "traits_ok t \<longleftrightarrow>
     1 \<le> length (lines_terminated_by t) \<and> length (lines_terminated_by t) \<le> 2 \<and> length (fields_escaped_by t) \<le> 1 \<and>
     length (fields_terminated_by t) = 1 \<and> length (fields_enclosed_by t) \<le> 1 \<and>
     (fields_enclosed_by t \<noteq> [] \<or> hd (fields_terminated_by t) \<noteq> CHR '','') \<and> lines_starting_by t = []"

record dialect_writer =
  dw_is_string_type :: "bool list"
  dw_is_number_type :: "bool list"
  dw_needs_escape :: "escape_type list"

definition dw_column_needs_escape :: "db_type list \<Rightarrow> encoding_type list \<Rightarrow> nat \<Rightarrow> escape_type" where
  "dw_column_needs_escape metadata pre i =
     (if \<not> is_string_type (metadata ! i) \<and> metadata ! i \<noteq> Bit then NONE
      else if length pre = length metadata then
        (case pre ! i of Enc_base64 \<Rightarrow> BASE64 | Enc_hex \<Rightarrow> NONE | Enc_vector \<Rightarrow> NONE | Enc_none \<Rightarrow> FULL)
      else FULL)"

definition dw_read_metadata :: "dialect \<Rightarrow> db_type list \<Rightarrow> encoding_type list \<Rightarrow> buffer \<Rightarrow> (dialect_writer \<times> buffer) result" where
  "dw_read_metadata t metadata pre b =
     (let n = length metadata;
          fixed = length (lines_terminated_by t) + (if 0 < n then n - 1 else 0) +
            sum_list (map (\<lambda>m. if \<not> fields_optionally_enclosed t then 2 * length (fields_enclosed_by t)
                               else if is_string_type m then 2 * length (fields_enclosed_by t) else 0) metadata)
      in rbind (set_fixed_length fixed b) (\<lambda>b'.
           Inr (\<lparr>dw_is_string_type = map is_string_type metadata,
                 dw_is_number_type = map (\<lambda>m. \<not> is_string_type m \<and> m \<noteq> Bit) metadata,
                 dw_needs_escape = map (dw_column_needs_escape metadata pre) [0 ..< n]\<rparr>, b')))"

definition should_escape :: "dialect \<Rightarrow> char \<Rightarrow> bool" where
  "should_escape t c \<longleftrightarrow>
     (if fields_enclosed_by t = [] then c = hd (fields_terminated_by t) else c = hd (fields_enclosed_by t))"

definition dw_escape_byte :: "dialect \<Rightarrow> char \<Rightarrow> string" where
  "dw_escape_byte t c =
     (let e = hd (fields_escaped_by t)
      in if c = CHR 0x00 then [e, CHR ''0'']
      else if c = CHR 0x08 then [e, CHR ''b'']
      else if c = CHR 0x0A then [e, CHR ''n'']
      else if c = CHR 0x0D then [e, CHR ''r'']
      else if c = CHR 0x09 then [e, CHR ''t'']
      else if c = CHR 0x1A then [e, CHR ''Z'']
      else if c = hd (fields_escaped_by t) \<or> c = hd (lines_terminated_by t) \<or> should_escape t c then [e, c]
      else [c])"

definition dw_escape_loop :: "dialect \<Rightarrow> string \<Rightarrow> buffer \<Rightarrow> buffer result" where
  "dw_escape_loop t data = rfold (\<lambda>c b. rfold (\<lambda>x. append_bytes [x]) (dw_escape_byte t c) b) data"

definition store_unescaped_field :: "string \<Rightarrow> buffer \<Rightarrow> buffer result" where
  "store_unescaped_field data b = rbind (will_write (length data) b) (append_bytes data)"

definition store_escaped_field :: "dialect \<Rightarrow> string \<Rightarrow> buffer \<Rightarrow> buffer result" where
  "store_escaped_field t data b = rbind (will_write (2 * length data) b) (dw_escape_loop t data)"

definition dw_store_data :: "dialect \<Rightarrow> dialect_writer \<Rightarrow> nat \<Rightarrow> string \<Rightarrow> buffer \<Rightarrow> buffer result" where
  "dw_store_data t w idx data b =
     (case dw_needs_escape w ! idx of
        FULL \<Rightarrow> if fields_escaped_by t = [] then store_unescaped_field data b else store_escaped_field t data b
      | BASE64 \<Rightarrow> write_base64_data data b
      | NONE \<Rightarrow> store_unescaped_field data b)"

definition dw_quote_field :: "dialect \<Rightarrow> dialect_writer \<Rightarrow> nat \<Rightarrow> buffer \<Rightarrow> buffer result" where
  "dw_quote_field t w idx b =
     (if length (fields_enclosed_by t) = 1 \<and> (\<not> fields_optionally_enclosed t \<or> dw_is_string_type w ! idx)
      then append_fixed [hd (fields_enclosed_by t)] b else Inr b)"

definition dw_store_null :: "dialect \<Rightarrow> buffer \<Rightarrow> buffer result" where
  "dw_store_null t b =
     (if fields_escaped_by t = [] then rbind (will_write 4 b) (append_bytes ''NULL'')
      else rbind (will_write 2 b) (\<lambda>b1. rbind (append_bytes [hd (fields_escaped_by t)] b1) (append_bytes ''N'')))"

definition dw_finish_row :: "dialect \<Rightarrow> buffer \<Rightarrow> buffer result" where
  "dw_finish_row t b =
     rbind (append_fixed [lines_terminated_by t ! 0] b) (\<lambda>b1.
       if length (lines_terminated_by t) = 2 then append_fixed [lines_terminated_by t ! 1] b1 else Inr b1)"

definition dw_store_field :: "dialect \<Rightarrow> dialect_writer \<Rightarrow> string option list \<Rightarrow> nat \<Rightarrow> buffer \<Rightarrow> buffer result" where
  "dw_store_field t w row idx b =
     rbind (if idx \<noteq> 0 then append_fixed [hd (fields_terminated_by t)] b else Inr b) (\<lambda>b1.
       case row ! idx of
         None \<Rightarrow> dw_store_null t b1
       | Some data \<Rightarrow>
           if dw_is_number_type w ! idx \<and> not_a_number data then dw_store_null t b1
           else rbind (dw_quote_field t w idx b1) (\<lambda>b2. rbind (dw_store_data t w idx data b2) (dw_quote_field t w idx)))"

definition dw_store_row :: "dialect \<Rightarrow> dialect_writer \<Rightarrow> string option list \<Rightarrow> buffer \<Rightarrow> buffer result" where
  "dw_store_row t w row b = rbind (rfold (dw_store_field t w row) [0 ..< length (dw_is_string_type w)] b) (dw_finish_row t)"

section \<open>The text of a row\<close>

definition dw_data_text :: "dialect \<Rightarrow> dialect_writer \<Rightarrow> nat \<Rightarrow> string \<Rightarrow> string" where
  "dw_data_text t w idx data =
     (case dw_needs_escape w ! idx of
        FULL \<Rightarrow> if fields_escaped_by t = [] then data else concat (map (dw_escape_byte t) data)
      | BASE64 \<Rightarrow> strip_lines data
      | NONE \<Rightarrow> data)"

definition dw_quote_text :: "dialect \<Rightarrow> dialect_writer \<Rightarrow> nat \<Rightarrow> string" where
  "dw_quote_text t w idx = (if \<not> fields_optionally_enclosed t \<or> dw_is_string_type w ! idx then fields_enclosed_by t else [])"

definition dw_null_text :: "dialect \<Rightarrow> string" where
  "dw_null_text t = (if fields_escaped_by t = [] then ''NULL'' else fields_escaped_by t @ ''N'')"

definition dw_value_text :: "dialect \<Rightarrow> dialect_writer \<Rightarrow> nat \<Rightarrow> string option \<Rightarrow> string" where
  "dw_value_text t w idx v =
     (case v of
        None \<Rightarrow> dw_null_text t
      | Some data \<Rightarrow> if dw_is_number_type w ! idx \<and> not_a_number data then dw_null_text t
                     else dw_quote_text t w idx @ dw_data_text t w idx data @ dw_quote_text t w idx)"

definition dw_field_text :: "dialect \<Rightarrow> dialect_writer \<Rightarrow> string option list \<Rightarrow> nat \<Rightarrow> string" where
  "dw_field_text t w row idx = (if idx \<noteq> 0 then fields_terminated_by t else []) @ dw_value_text t w idx (row ! idx)"

definition dw_row_text :: "dialect \<Rightarrow> dialect_writer \<Rightarrow> string option list \<Rightarrow> string" where
  "dw_row_text t w row = concat (map (dw_field_text t w row) [0 ..< length (dw_is_string_type w)]) @ lines_terminated_by t"

definition dw_reserved :: "dialect \<Rightarrow> dialect_writer \<Rightarrow> nat \<Rightarrow> nat" where
  "dw_reserved t w idx =
     (if idx \<noteq> 0 then 1 else 0) + quoted_length t (dw_is_string_type w ! idx)"

text \<open>What a value may take beyond what is reserved, for every writer: NULL, or every byte doubled.\<close>

fun dw_value_need :: "string option \<Rightarrow> nat" where
  "dw_value_need None = 4"
| "dw_value_need (Some data) = 4 + 2 * length data"

lemma dw_escape_text_length: "length (concat (map (dw_escape_byte t) data)) \<le> 2 * length data"
proof (induction data)
  case (Cons c data)
  have "length (dw_escape_byte t c) \<le> 2" by (simp add: dw_escape_byte_def Let_def)
  then show ?case using Cons by simp
qed simp

lemma dw_data_text_length: "length (dw_data_text t w idx data) \<le> 2 * length data"
  using strip_lines_length [of data] dw_escape_text_length [of t data] by (auto simp: dw_data_text_def split: escape_type.split)

lemma store_unescaped_ok:
  "buffer_ok b \<Longrightarrow> fits (length data) b \<Longrightarrow> \<exists>b'. store_unescaped_field data b = Inr b' \<and> wrote b data 0 b'"
  unfolding store_unescaped_field_def by (rule write_announced) simp_all

lemma dw_store_data_ok:
  assumes "buffer_ok b" "fits (2 * length data) b"
  shows "\<exists>b'. dw_store_data t w idx data b = Inr b' \<and> wrote b (dw_data_text t w idx data) 0 b'"
proof -
  have f: "fits (length data) b" using assms(2) by (simp add: fits_def)
  have "\<exists>b'. store_escaped_field t data b = Inr b' \<and> wrote b (concat (map (dw_escape_byte t) data)) 0 b'"
    unfolding store_escaped_field_def
    by (rule write_announced [OF assms dw_escape_text_length]) (simp add: dw_escape_loop_def append_all holds_def)
  then show ?thesis using write_base64_ok [OF assms(1) f] store_unescaped_ok [OF assms(1) f]
    unfolding dw_store_data_def dw_data_text_def by (auto split: escape_type.split)
qed

lemma dw_store_null_ok:
  assumes "buffer_ok b" "fits 4 b" "length (fields_escaped_by t) \<le> 1"
  shows "\<exists>b'. dw_store_null t b = Inr b' \<and> wrote b (dw_null_text t) 0 b'"
proof (cases "fields_escaped_by t")
  case Nil
  have "\<exists>b'. rbind (will_write 4 b) (append_bytes ''NULL'') = Inr b' \<and> wrote b ''NULL'' 0 b'"
    by (rule write_announced [OF assms(1,2)]) simp_all
  then show ?thesis using Nil by (simp add: dw_store_null_def dw_null_text_def)
next
  case (Cons e es)
  then have "fields_escaped_by t = [e]" using assms(3) by simp
  moreover have "fits 2 b" using assms(2) by (simp add: fits_def)
  then have "\<exists>b'. rbind (will_write 2 b) (\<lambda>b1. rbind (append_bytes [e] b1) (append_bytes ''N'')) = Inr b' \<and> wrote b (e # ''N'') 0 b'"
    by (intro write_announced [OF assms(1)]) (simp_all add: append_bytes_twice)
  ultimately show ?thesis by (simp add: dw_store_null_def dw_null_text_def)
qed

lemma dw_quote_field_puts:
  assumes "length (fields_enclosed_by t) \<le> 1"
  shows "puts (dw_quote_field t w idx) (dw_quote_text t w idx)"
proof -
  consider "fields_enclosed_by t = []" | c where "fields_enclosed_by t = [c]"
    using assms by (cases "fields_enclosed_by t") auto
  then show ?thesis
  proof cases
    case 1
    then show ?thesis using puts_append_fixed(2) by (simp add: puts_def dw_quote_field_def dw_quote_text_def)
  next
    case 2
    then show ?thesis by (simp add: dw_quote_field_def [abs_def] dw_quote_text_def puts_append_fixed)
  qed
qed

lemma dw_store_value_ok:
  assumes "traits_ok t" "buffer_ok b" "fits (dw_value_need v) b" "2 * length (dw_quote_text t w idx) + 0 \<le> m_fixed_length_remaining b"
  shows "\<exists>b' f. (case v of
         None \<Rightarrow> dw_store_null t b
       | Some data \<Rightarrow>
           if dw_is_number_type w ! idx \<and> not_a_number data then dw_store_null t b
           else rbind (dw_quote_field t w idx b) (\<lambda>b2. rbind (dw_store_data t w idx data b2) (dw_quote_field t w idx))) = Inr b' \<and>
    wrote b (dw_value_text t w idx v) f b' \<and> f \<le> 2 * length (dw_quote_text t w idx) + 0 \<and> length (dw_value_text t w idx v) \<le> f + dw_value_need v"
  unfolding dw_value_text_def
proof (rule value_ok [OF assms(2-4) dw_quote_field_puts])
  show "\<exists>b'. dw_store_null t b = Inr b' \<and> wrote b (dw_null_text t) 0 b'" if "buffer_ok b" "fits (dw_value_need v) b" for b
    using that dw_store_null_ok [of b t] assms(1) by (cases v) (simp_all add: fits_def traits_ok_def)
  show "\<exists>b' f. dw_store_data t w idx data b = Inr b' \<and> wrote b (dw_data_text t w idx data) f b' \<and> f \<le> 0 \<and>
      length (dw_data_text t w idx data) \<le> f + dw_value_need v"
    if "v = Some data" "buffer_ok b" "fits (dw_value_need v) b" for b data
    using dw_store_data_ok [of b data t w idx] that dw_data_text_length [of t w idx data] by (fastforce simp: fits_def)
  show "length (dw_null_text t) \<le> dw_value_need v"
    using assms(1) by (cases v) (auto simp: dw_null_text_def traits_ok_def)
qed (use assms(1) in \<open>simp add: traits_ok_def\<close>)

lemma dw_store_field_ok:
  assumes "traits_ok t" "buffer_ok b" "fits (dw_value_need (row ! idx)) b" "dw_reserved t w idx \<le> m_fixed_length_remaining b"
  shows "\<exists>b' f. dw_store_field t w row idx b = Inr b' \<and> wrote b (dw_field_text t w row idx) f b' \<and> f \<le> dw_reserved t w idx \<and>
    length (dw_field_text t w row idx) \<le> f + dw_value_need (row ! idx)"
proof -
  let ?F = "if idx \<noteq> 0 then fields_terminated_by t else []"
  have f: "length (fields_terminated_by t) = 1" using assms(1) by (simp add: traits_ok_def)
  then have r: "dw_reserved t w idx = length ?F + (2 * length (dw_quote_text t w idx) + 0)"
    by (simp add: dw_reserved_def dw_quote_text_def quoted_length_def)
  have "puts (\<lambda>b. if idx \<noteq> 0 then append_fixed [hd (fields_terminated_by t)] b else Inr b) ?F"
    using puts_if [of "idx \<noteq> 0" "fields_terminated_by t"] f by (cases "fields_terminated_by t") auto
  from separated_ok [OF assms(2,3) assms(4)[unfolded r] this dw_store_value_ok [OF assms(1)]]
  show ?thesis unfolding dw_store_field_def dw_field_text_def r .
qed

lemma dw_finish_row_puts:
  assumes "traits_ok t"
  shows "puts (dw_finish_row t) (lines_terminated_by t)"
proof -
  consider x where "lines_terminated_by t = [x]" | x y where "lines_terminated_by t = [x, y]"
    using assms by (auto simp: traits_ok_def le_Suc_eq length_Suc_conv numeral_2_eq_2)
  then show ?thesis
  proof cases
    case 1
    then show ?thesis using puts_single(1) by (simp add: puts_def dw_finish_row_def)
  next
    case 2
    have "append_fixed [x, y] b = rbind (append_fixed [x] b) (append_fixed [y])"
      if "buffer_ok b" "2 \<le> m_fixed_length_remaining b" for b
      using that by (simp add: append_fixed_def append_bytes_def buffer_ok_def numeral_2_eq_2)
    then show ?thesis using 2 puts_append_fixed(1) [of "[x, y]"] by (auto simp: puts_def dw_finish_row_def)
  qed
qed

definition dw_set_up :: "dialect \<Rightarrow> dialect_writer \<Rightarrow> buffer \<Rightarrow> bool" where
  "dw_set_up t w b \<longleftrightarrow>
     traits_ok t \<and> buffer_ok (clear b) \<and>
     m_fixed_length b = length (lines_terminated_by t) + sum_list (map (dw_reserved t w) [0 ..< length (dw_is_string_type w)])"

text \<open>A dialect a writer may be compiled for makes a row writer.\<close>

locale dialect_traits =
  fixes t :: dialect
  assumes traits: "traits_ok t"

sublocale dialect_traits \<subseteq> dw: row_writer "dw_store_field t w row" "dw_field_text t w row" "dw_reserved t w" "\<lambda>i. dw_value_need (row ! i)"
    for w row
  by unfold_locales (rule dw_store_field_ok [OF traits])

context dialect_traits
begin

lemma dw_store_row_ok:
  assumes "dw_set_up t w b" "m_fixed_length b + sum_list (map (\<lambda>i. dw_value_need (row ! i)) [0 ..< length (dw_is_string_type w)]) \<le> 2 ^ 63"
  shows "\<exists>b'. dw_store_row t w row (clear b) = Inr b' \<and> m_bytes b' = dw_row_text t w row \<and> dw_set_up t w b'"
proof -
  let ?is = "[0 ..< length (dw_is_string_type w)]"
  have b: "buffer_ok (clear b)"
      "length [] + sum_list (map (dw_reserved t w) ?is) + length (lines_terminated_by t) \<le> m_fixed_length b"
    using assms(1) by (simp_all add: dw_set_up_def)
  have "append_fixed [] (clear b) = Inr (clear b)" using b(1) by (simp add: append_fixed_def append_bytes_def buffer_ok_def)
  moreover note dw.row_ok [OF b assms(2) dw_finish_row_puts [OF traits]]
  ultimately show ?thesis using assms(1) by (auto simp: dw_store_row_def dw_row_text_def dw_set_up_def)
qed

lemma dw_read_metadata_set_up:
  assumes "buffer_ok b" "m_bytes b = []" "m_fixed_length_remaining b = 0" "dw_read_metadata t metadata pre b = Inr (w', b')"
  shows "dw_set_up t w' b'"
proof -
  define n where n_def: "n = length (lines_terminated_by t) + (length metadata - 1) +
    sum_list (map (\<lambda>m. if \<not> fields_optionally_enclosed t then 2 * length (fields_enclosed_by t)
                       else if is_string_type m then 2 * length (fields_enclosed_by t) else 0) metadata)"
  have "(if 0 < length metadata then length metadata - 1 else 0) = length metadata - 1" by simp
  then have n: "set_fixed_length n b = Inr b'" "dw_is_string_type w' = map is_string_type metadata"
    using assms(4) unfolding dw_read_metadata_def Let_def n_def by auto
  have q: "n = length (lines_terminated_by t) + (length metadata - 1) + sum_list (map (quoted_length t) (map is_string_type metadata))"
    unfolding n_def by (cases "fields_optionally_enclosed t") (simp_all add: quoted_length_def comp_def)
  have "sum_list (map (dw_reserved t w') [0 ..< k]) = (k - 1) + sum_list (map (\<lambda>i. quoted_length t (dw_is_string_type w' ! i)) [0 ..< k])" for k
  proof (induction k)
    case (Suc k)
    then show ?case by (cases k) (simp_all add: dw_reserved_def)
  qed simp
  moreover have "map (quoted_length t) (dw_is_string_type w') = map (\<lambda>i. quoted_length t (dw_is_string_type w' ! i)) [0 ..< length metadata]"
    using n(2) by (intro nth_equalityI) auto
  ultimately have "n = length (lines_terminated_by t) + sum_list (map (dw_reserved t w') [0 ..< length (dw_is_string_type w')])"
    using n(2) q by simp
  then show ?thesis using set_fixed_length_ok [OF n(1) assms(1-3)] traits by (simp add: dw_set_up_def)
qed

end

lemma named_traits: "traits_ok default_dialect" "traits_ok json" "traits_ok csv" "traits_ok tsv" "traits_ok csv_unix"
  by (simp_all add: traits_ok_def dialect_defs)

interpretation default_writer: dialect_traits default_dialect by unfold_locales (rule named_traits)

interpretation json_writer: dialect_traits json by unfold_locales (rule named_traits)

interpretation csv_writer: dialect_traits csv by unfold_locales (rule named_traits)

interpretation tsv_writer: dialect_traits tsv by unfold_locales (rule named_traits)

interpretation csv_unix_writer: dialect_traits csv_unix by unfold_locales (rule named_traits)

section \<open>Equivalence\<close>

text \<open>Base64 text as the server produces it: lines of 76 characters, only the last one may be shorter.\<close>

fun server_base64 :: "string \<Rightarrow> bool" where
  "server_base64 data \<longleftrightarrow>
     (if 76 < length data
      then set (take 76 data) \<subseteq> set k_base64_types_alphabet \<and> data ! 76 = CHR 0x0A \<and> 77 < length data \<and> server_base64 (drop 77 data)
      else set data \<subseteq> set k_base64_types_alphabet)"

declare server_base64.simps [simp del]

text \<open>The dialects with an escape character for which writers are compiled; the two others, for json and for RFC 4180 files, have none.\<close>

definition escaping_dialect :: "dialect \<Rightarrow> bool" where
  "escaping_dialect t \<longleftrightarrow> t \<in> {default_dialect, csv, tsv, csv_unix}"

lemma compiled_traits: "escaping_dialect t \<Longrightarrow> traits_ok t" "escaping_dialect t \<Longrightarrow> fields_escaped_by t = [CHR 0x5C]"
  "escaping_dialect t \<Longrightarrow> lines_terminated_by t \<noteq> []" "escaping_dialect t \<Longrightarrow> fields_enclosed_by t = [] \<or> fields_enclosed_by t = [CHR 0x22]"
  by (auto simp: escaping_dialect_def traits_ok_def dialect_defs)

lemma compiled_escaped:
  assumes "escaping_dialect t"
  shows "set (escaped_characters t) \<subseteq> {CHR 0x5C, CHR 0x09, CHR 0x22, CHR 0x0A, CHR 0x0D}"
  using assms by (auto simp: escaping_dialect_def dialect_defs escaped_characters_def)

lemma alphabets:
  assumes "c \<in> {CHR 0x5C, CHR 0x09, CHR 0x22, CHR 0x0A, CHR 0x0D}"
  shows "c \<notin> set k_numeric_types_alphabet" "c \<notin> set k_vector_types_alphabet" "c \<notin> set k_hex_types_alphabet" "c \<notin> set k_base64_types_alphabet"
  using assms
  by (auto simp: k_numeric_types_alphabet_def k_vector_types_alphabet_def k_hex_types_alphabet_def k_base64_types_alphabet_def)

lemma need_escape_compiled:
  assumes "escaping_dialect t"
  shows "need_escape (escaped_characters t) k_numeric_types_alphabet e = e" "need_escape (escaped_characters t) k_vector_types_alphabet e = e"
    "need_escape (escaped_characters t) k_hex_types_alphabet e = e" "need_escape (escaped_characters t) k_base64_types_alphabet e = e"
proof -
  have "c \<in> set (escaped_characters t) \<Longrightarrow> c \<in> {CHR 0x5C, CHR 0x09, CHR 0x22, CHR 0x0A, CHR 0x0D}" for c
    using compiled_escaped [OF assms] by blast
  note a = alphabets [OF this]
  show "need_escape (escaped_characters t) k_numeric_types_alphabet e = e" "need_escape (escaped_characters t) k_vector_types_alphabet e = e"
    "need_escape (escaped_characters t) k_hex_types_alphabet e = e" "need_escape (escaped_characters t) k_base64_types_alphabet e = e"
    using a by (auto simp: need_escape_def list_ex_iff)
qed

lemma compiled_writer:
  assumes "escaping_dialect t"
  shows "m_dialect (new_text_writer t) = t" "m_escape (new_text_writer t)" "m_null (new_text_writer t) = [CHR 0x5C, CHR ''N'']"
    "m_line_terminator (new_text_writer t) = lines_terminated_by t" "m_escape_char (new_text_writer t) = CHR 0x5C"
    "\<not> m_double_enclosed_by (new_text_writer t)"
    "m_numbers_need_escape (new_text_writer t) = NONE" "m_vectors_need_escape (new_text_writer t) = NONE"
    "m_hex_need_escape (new_text_writer t) = NONE" "m_base64_need_escape (new_text_writer t) = BASE64"
  using compiled_traits(2-) [OF assms] need_escape_compiled [OF assms] by (auto simp: new_text_writer_def Let_def)

lemma compiled_escape_byte:
  assumes "escaping_dialect t"
  shows "escape_byte (new_text_writer t) c = dw_escape_byte t c"
proof -
  have "fields_terminated_by t \<noteq> []" using compiled_traits(1) [OF assms] by (auto simp: traits_ok_def)
  then have "c \<in> set (m_escaped_characters (new_text_writer t)) \<longleftrightarrow>
      c = hd (fields_escaped_by t) \<or> c = hd (lines_terminated_by t) \<or> should_escape t c" if "c \<noteq> CHR 0x00"
    using compiled_traits(2,3) [OF assms] that
    by (auto simp: new_text_writer_def Let_def escaped_characters_def should_escape_def)
  then show ?thesis using compiled_writer [OF assms] compiled_traits(2) [OF assms]
    by (simp add: escape_byte_def dw_escape_byte_def)
qed

text \<open>The writers after reading the metadata.\<close>

lemma read_metadata_fields:
  assumes "read_metadata w metadata pre b = Inr (w', b')"
  shows "w' = w\<lparr>m_is_string_type := map is_string_type metadata,
                m_is_number_type := map (\<lambda>t. \<not> is_string_type t \<and> t \<noteq> Bit) metadata,
                m_needs_escape := map (column_needs_escape w metadata pre) [0 ..< length metadata]\<rparr>"
  using assms by (auto simp: read_metadata_def Let_def)

lemma dw_read_metadata_fields:
  assumes "dw_read_metadata t metadata pre b = Inr (w', b')"
  shows "w' = \<lparr>dw_is_string_type = map is_string_type metadata,
               dw_is_number_type = map (\<lambda>m. \<not> is_string_type m \<and> m \<noteq> Bit) metadata,
               dw_needs_escape = map (dw_column_needs_escape metadata pre) [0 ..< length metadata]\<rparr>"
  using assms by (auto simp: dw_read_metadata_def Let_def)

lemma compiled_needs_escape:
  "escaping_dialect t \<Longrightarrow> column_needs_escape (new_text_writer t) metadata pre i = dw_column_needs_escape metadata pre i"
  by (simp add: column_needs_escape_def dw_column_needs_escape_def compiled_writer split: encoding_type.split)

text \<open>The columns of base64 data hold what the server produces.\<close>

definition base64_columns_ok :: "escape_type list \<Rightarrow> string option list \<Rightarrow> bool" where
  "base64_columns_ok es row \<longleftrightarrow>
     list_all (\<lambda>(e, v). e = BASE64 \<longrightarrow> (case v of None \<Rightarrow> True | Some data \<Rightarrow> server_base64 data)) (zip es row)"

lemma base64_columns_nth:
  assumes "base64_columns_ok es row" "i < length es" "length es \<le> length row" "es ! i = BASE64" "row ! i = Some data"
  shows "server_base64 data"
proof -
  have "(es ! i, row ! i) \<in> set (zip es row)" using assms(2,3) by (auto simp: set_zip)
  then show ?thesis using assms(1,4,5) unfolding base64_columns_ok_def by (fastforce simp: list_all_iff)
qed

lemma base64_char_plain:
  assumes "escaping_dialect t" "c \<in> set k_base64_types_alphabet"
  shows "dw_escape_byte t c = [c]"
proof -
  have "c \<notin> {CHR 0x5C, CHR 0x09, CHR 0x22, CHR 0x0A, CHR 0x0D, CHR 0x00, CHR 0x08, CHR 0x1A}"
    using assms(2) unfolding k_base64_types_alphabet_def by auto
  then show ?thesis using assms(1)
    by (auto simp: dw_escape_byte_def should_escape_def escaping_dialect_def dialect_defs)
qed

lemma base64_data_plain:
  "escaping_dialect t \<Longrightarrow> set data \<subseteq> set k_base64_types_alphabet \<Longrightarrow> concat (map (dw_escape_byte t) data) = data"
  by (induction data) (simp_all add: base64_char_plain)

lemma base64_data_text:
  assumes "escaping_dialect t" "server_base64 data"
  shows "(if length data < 76 \<or> (data @ [CHR 0x00]) ! 76 = CHR 0x0A then strip_lines data
          else concat (map (dw_escape_byte t) data)) = strip_lines data"
proof (cases "76 < length data")
  case True
  then have "data ! 76 = CHR 0x0A" using assms(2) by (simp add: server_base64.simps [of data])
  then show ?thesis using True by (simp add: nth_append)
next
  case False
  then have "set data \<subseteq> set k_base64_types_alphabet" using assms(2) by (simp add: server_base64.simps [of data])
  then show ?thesis using base64_data_plain [OF assms(1)] False by (simp add: strip_lines.simps [of data])
qed

lemma compiled_row_text:
  assumes "escaping_dialect t" "read_metadata (new_text_writer t) metadata pre b = Inr (w, b1)"
    "dw_read_metadata t metadata pre b = Inr (w', b2)" "base64_columns_ok (dw_needs_escape w') row" "length metadata \<le> length row"
  shows "row_text w row = dw_row_text t w' row"
proof -
  note w = read_metadata_fields [OF assms(2)] and w' = dw_read_metadata_fields [OF assms(3)]
  have dia: "m_dialect w = t" "m_null w = dw_null_text t" "m_line_terminator w = lines_terminated_by t" "m_escape w" "lines_starting_by t = []"
    using compiled_writer [OF assms(1)] compiled_traits [OF assms(1)] by (simp_all add: w dw_null_text_def traits_ok_def)
  have "escape_byte w c = escape_byte (new_text_writer t) c" for c by (simp add: w escape_byte_def)
  then have esc: "escape_byte w = dw_escape_byte t"
    using compiled_escape_byte [OF assms(1)] by (simp add: fun_eq_iff)
  have "field_text w row i = dw_field_text t w' row i" if i: "i < length metadata" for i
  proof -
    have e: "m_needs_escape w ! i = dw_needs_escape w' ! i" "length (dw_needs_escape w') = length metadata"
      using i compiled_needs_escape [OF assms(1)] by (simp_all add: w w')
    have "data_text w i data = dw_data_text t w' i data" if "row ! i = Some data" for data
    proof (cases "dw_needs_escape w' ! i")
      case BASE64
      then have "server_base64 data" using base64_columns_nth [OF assms(4)] i e(2) assms(5) that by simp
      then show ?thesis using base64_data_text [OF assms(1), of data] BASE64 e(1) dia(4)
        by (auto simp: data_text_def dw_data_text_def esc split: if_splits)
    qed (use e(1) dia(4) compiled_traits(2) [OF assms(1)] in \<open>simp_all add: data_text_def dw_data_text_def esc\<close>)
    moreover have "quote_text w i = dw_quote_text t w' i" "m_is_number_type w = dw_is_number_type w'"
      using dia(1) by (simp_all add: quote_text_def dw_quote_text_def w w')
    ultimately show ?thesis using dia(1,2)
      by (auto simp: field_text_def dw_field_text_def value_text_def dw_value_text_def split: option.split)
  qed
  then have "map (field_text w row) [0 ..< length metadata] = map (dw_field_text t w' row) [0 ..< length metadata]" by simp
  moreover have "length (m_is_string_type w) = length metadata" "length (dw_is_string_type w') = length metadata" by (simp_all add: w w')
  ultimately show ?thesis using dia(1,3,5) by (simp add: row_text_def dw_row_text_def del: map_eq_conv)
qed

lemma compiled_fixed_length:
  assumes "escaping_dialect t" "set_up w b1" "dw_set_up t w' b2" "m_is_string_type w = dw_is_string_type w'" "m_dialect w = t"
    "m_line_terminator w = lines_terminated_by t"
  shows "m_fixed_length b1 = m_fixed_length b2"
proof -
  have "reserved w = dw_reserved t w'"
    using compiled_traits(1) [OF assms(1)] assms(4,5) by (simp add: fun_eq_iff reserved_def dw_reserved_def traits_ok_def)
  moreover have "lines_starting_by t = []" using compiled_traits(1) [OF assms(1)] by (simp add: traits_ok_def)
  ultimately show ?thesis using assms(2-6) by (simp add: set_up_def dw_set_up_def)
qed

lemma value_need_le: "length (m_null w) \<le> 4 \<Longrightarrow> value_need w v \<le> dw_value_need v"
  by (cases v) simp_all

text \<open>C10: for the default dialect and for csv, tsv and csv-unix, the compiled writer writes, for every row, the same bytes as the general writer that is given this
  dialect, and neither of them leaves its buffer. Columns that are sent as base64 hold base64 text as the server produces it, and the row fits into the buffer's largest size.
  This does not hold for the writer for json (\<open>json_base64_differs\<close>), nor for the one of RFC 4180 files.\<close>

theorem dialect_writer_same_bytes:
  assumes "escaping_dialect t" "buffer_ok b" "m_bytes b = []" "m_fixed_length_remaining b = 0"
    "read_metadata (new_text_writer t) metadata pre b = Inr (w, b1)" "dw_read_metadata t metadata pre b = Inr (w', b2)"
    "length row = length metadata" "base64_columns_ok (dw_needs_escape w') row"
    "m_fixed_length b1 + sum_list (map dw_value_need row) \<le> 2 ^ 63"
  shows "\<exists>x y. store_row w row (clear b1) = Inr x \<and> dw_store_row t w' row (clear b2) = Inr y \<and> m_bytes x = m_bytes y"
proof -
  note w = read_metadata_fields [OF assms(5)] and w' = dw_read_metadata_fields [OF assms(6)]
  have t: "dialect_traits t" by (rule dialect_traits.intro [OF compiled_traits(1) [OF assms(1)]])
  have su: "set_up w b1" "dw_set_up t w' b2"
    using read_metadata_set_up [OF assms(2-5)] dialect_traits.dw_read_metadata_set_up [OF t assms(2-4,6)] .
  have n: "length (m_is_string_type w) = length row" "length (dw_is_string_type w') = length row" "length (m_null w) \<le> 4"
    using assms(7) compiled_writer [OF assms(1)] by (simp_all add: w w')
  have row: "map (\<lambda>i. f (row ! i)) [0 ..< length row] = map f row" for f :: "string option \<Rightarrow> nat" by (intro nth_equalityI) auto
  have "sum_list (map (value_need w) row) \<le> sum_list (map dw_value_need row)"
    by (rule sum_list_mono) (rule value_need_le [OF n(3)])
  then obtain x where x: "store_row w row (clear b1) = Inr x" "m_bytes x = row_text w row"
    using store_row_ok [OF su(1), of row] assms(9) n(1) by (auto simp: row)
  have "m_fixed_length b1 = m_fixed_length b2"
    by (rule compiled_fixed_length [OF assms(1) su]) (use compiled_writer [OF assms(1)] in \<open>simp_all add: w w'\<close>)
  then obtain y where "dw_store_row t w' row (clear b2) = Inr y" "m_bytes y = dw_row_text t w' row"
    using dialect_traits.dw_store_row_ok [OF t su(2), of row] assms(9) n(2) by (auto simp: row)
  then show ?thesis using x compiled_row_text [OF assms(1,5,6,8)] assms(7) by auto
qed

text \<open>The general writer does not remove the line ends of base64 text if the dialect has no escape character.\<close>

lemma json_base64_differs:
  fixes data :: string
  defines "data \<equiv> replicate 76 (CHR ''A'') @ CHR 0x0A # ''QQ==''"
  shows "server_base64 data"
    and "dw_data_text json \<lparr>dw_is_string_type = [True], dw_is_number_type = [False], dw_needs_escape = [BASE64]\<rparr> 0 data =
      replicate 76 (CHR ''A'') @ ''QQ==''"
    and "data_text ((new_text_writer json)\<lparr>m_needs_escape := [BASE64]\<rparr>) 0 data = data"
proof -
  show "server_base64 data"
    unfolding data_def by (subst server_base64.simps)
      (simp add: server_base64.simps k_base64_types_alphabet_def nth_append)
  show "dw_data_text json \<lparr>dw_is_string_type = [True], dw_is_number_type = [False], dw_needs_escape = [BASE64]\<rparr> 0 data =
      replicate 76 (CHR ''A'') @ ''QQ==''"
    unfolding data_def dw_data_text_def by (subst strip_lines.simps) (simp add: strip_lines.simps)
  show "data_text ((new_text_writer json)\<lparr>m_needs_escape := [BASE64]\<rparr>) 0 data = data"
    by (simp add: data_text_def new_text_writer_def json_def Let_def)
qed

theorem dialect_writer_same_bytes_witness:
  "\<exists>w b1 w' b2 x y. read_metadata (new_text_writer tsv) [String] [Enc_base64] new_buffer = Inr (w, b1) \<and>
     dw_read_metadata tsv [String] [Enc_base64] new_buffer = Inr (w', b2) \<and>
     store_row w [Some ''YQ==''] (clear b1) = Inr x \<and> dw_store_row tsv w' [Some ''YQ==''] (clear b2) = Inr y \<and> m_bytes x = m_bytes y"
proof -
  let ?w = "(new_text_writer tsv)\<lparr>m_is_string_type := [True], m_is_number_type := [False], m_needs_escape := [BASE64]\<rparr>"
  let ?w' = "\<lparr>dw_is_string_type = [True], dw_is_number_type = [False], dw_needs_escape = [BASE64]\<rparr>"
  let ?b = "new_buffer\<lparr>m_fixed_length := 4, m_fixed_length_remaining := 4\<rparr>"
  have t: "escaping_dialect tsv" by (simp add: escaping_dialect_def)
  have m: "dw_read_metadata tsv [String] [Enc_base64] new_buffer = Inr (?w', ?b)"
    by (simp add: dw_read_metadata_def dw_column_needs_escape_def set_fixed_length_def will_write_def new_buffer_def is_string_type_def tsv_def csv_def)
  have sel: "lines_terminated_by tsv = [CHR 0x0D, CHR 0x0A]" "lines_starting_by tsv = []" "fields_enclosed_by tsv = [CHR 0x22]" by (simp_all add: tsv_def csv_def)
  have m': "read_metadata (new_text_writer tsv) [String] [Enc_base64] new_buffer = Inr (?w, ?b)"
    by (simp add: read_metadata_def compiled_writer [OF t] column_needs_escape_def quoted_length_def set_fixed_length_def will_write_def new_buffer_def
        is_string_type_def sel)
  have "server_base64 ''YQ==''" by (simp add: server_base64.simps k_base64_types_alphabet_def)
  then have "base64_columns_ok (dw_needs_escape ?w') [Some ''YQ=='']" by (simp add: base64_columns_ok_def)
  from dialect_writer_same_bytes [OF t _ _ _ m' m _ this] show ?thesis using m m' by (auto simp: new_buffer_def buffer_ok_def)
qed

end
