(* ===== verification/Fast_Writer.thy ===== *)
theory Fast_Writer
  imports Dialect_Writer
begin

text \<open>
  Model of \<^verbatim>\<open>Fast_dialect_dump_writer\<close> (\<^verbatim>\<open>modules/util/dump/dialect_dump_writer.h\<close>), the writer of files in the style of RFC 4180: no escape
  character, quotes are doubled. A position in the data is the number of bytes before it.

  The theorems: the writer stays in its buffer; and what it writes is, by a specification of RFC 4180, the row that was stored, provided that the values of
  columns which are never quoted need no quotes.
\<close>

definition fast_traits_ok :: "dialect \<Rightarrow> bool" where
  "fast_traits_ok t \<longleftrightarrow>
     length (lines_terminated_by t) = 1 \<and> length (fields_terminated_by t) = 1 \<and> fields_escaped_by t = [] \<and> length (fields_enclosed_by t) = 1"

record fast_writer =
  fw_is_numeric :: "bool list"
  fw_needs_escape :: "escape_type list"

definition fw_column_needs_escape :: "dialect \<Rightarrow> db_type list \<Rightarrow> encoding_type list \<Rightarrow> nat \<Rightarrow> escape_type" where
  "fw_column_needs_escape t metadata pre i =
     (let e = (if is_numeric (metadata ! i) then NONE else FULL)
      in if length pre = length metadata then
           (case pre ! i of Enc_base64 \<Rightarrow> BASE64 | Enc_hex \<Rightarrow> NONE
            | Enc_vector \<Rightarrow> if CHR '','' = hd (fields_terminated_by t) then FULL else NONE
            | Enc_none \<Rightarrow> e)
         else e)"

definition fw_quoted_length :: "dialect \<Rightarrow> escape_type \<Rightarrow> nat" where
  "fw_quoted_length t e =
     (if \<not> fields_optionally_enclosed t then 2 * length (fields_enclosed_by t)
      else if e = FULL then 2 * length (fields_enclosed_by t) else 0)"

definition fw_read_metadata :: "dialect \<Rightarrow> db_type list \<Rightarrow> encoding_type list \<Rightarrow> buffer \<Rightarrow> (fast_writer \<times> buffer) result" where
  "fw_read_metadata t metadata pre b =
     (let n = length metadata; es = map (fw_column_needs_escape t metadata pre) [0 ..< n];
          fixed = length (lines_terminated_by t) + (if 0 < n then (n - 1) * length (fields_terminated_by t) else 0) +
            sum_list (map (fw_quoted_length t) es)
      in rbind (set_fixed_length fixed b) (\<lambda>b'. Inr (\<lparr>fw_is_numeric = map is_numeric metadata, fw_needs_escape = es\<rparr>, b')))"

fun find_any_of :: "string \<Rightarrow> string \<Rightarrow> nat" where
  "find_any_of needles [] = 0"
| "find_any_of needles (c # s) = (if c \<in> set needles then 0 else Suc (find_any_of needles s))"

text \<open>The loop that doubles the quotes; \<open>data\<close> is what was not written yet, and \<open>p\<close> the position of its first quote.\<close>

function double_loop :: "char \<Rightarrow> string \<Rightarrow> nat \<Rightarrow> buffer \<Rightarrow> buffer result" where
  "double_loop q data p b =
     (if p < length data
      then rbind (append_bytes (take (p + 1) data) b) (\<lambda>b1. rbind (append_bytes [q] b1)
             (double_loop q (drop (p + 1) data) (find_any_of [q] (drop (p + 1) data))))
      else append_bytes (take p data) b)"
  by pat_completeness auto
termination
  by (relation "measure (\<lambda>(_, data, _, _). length data)") auto

declare double_loop.simps [simp del]

definition fw_store_escaped_field :: "dialect \<Rightarrow> string \<Rightarrow> buffer \<Rightarrow> buffer result" where
  "fw_store_escaped_field t data b =
     (let q = hd (fields_enclosed_by t); f = hd (fields_terminated_by t); l = hd (lines_terminated_by t)
      in if data = [] then Inr b
      else rbind (will_write (2 * length data) b) (\<lambda>b1.
        if fields_optionally_enclosed t then
          (let p = find_any_of [q, f, l] data;
               enclose = (if p < length data then True else length data = 4 \<and> data = ''NULL'');
               p' = (if p < length data \<and> data ! p \<noteq> q then p + 1 + find_any_of [q] (drop (p + 1) data) else p)
           in rbind (if enclose then append_fixed [q] b1 else Inr b1) (\<lambda>b2.
              rbind (double_loop q data p' b2) (\<lambda>b3. if enclose then append_fixed [q] b3 else Inr b3)))
        else double_loop q data (find_any_of [q] data) b1))"

definition fw_store_data :: "dialect \<Rightarrow> fast_writer \<Rightarrow> nat \<Rightarrow> string \<Rightarrow> buffer \<Rightarrow> buffer result" where
  "fw_store_data t w idx data b =
     (case fw_needs_escape w ! idx of
        FULL \<Rightarrow> fw_store_escaped_field t data b
      | BASE64 \<Rightarrow> write_base64_data data b
      | NONE \<Rightarrow> store_unescaped_field data b)"

definition fw_store_null :: "buffer \<Rightarrow> buffer result" where
  "fw_store_null b = rbind (will_write 4 b) (append_bytes ''NULL'')"

definition fw_quote_field :: "dialect \<Rightarrow> buffer \<Rightarrow> buffer result" where
  "fw_quote_field t b = (if \<not> fields_optionally_enclosed t then append_fixed [hd (fields_enclosed_by t)] b else Inr b)"

definition fw_finish_row :: "dialect \<Rightarrow> buffer \<Rightarrow> buffer result" where
  "fw_finish_row t = append_fixed [hd (lines_terminated_by t)]"

definition fw_store_field :: "dialect \<Rightarrow> fast_writer \<Rightarrow> string option list \<Rightarrow> nat \<Rightarrow> buffer \<Rightarrow> buffer result" where
  "fw_store_field t w row idx b =
     rbind (if idx \<noteq> 0 then append_fixed [hd (fields_terminated_by t)] b else Inr b) (\<lambda>b1.
       case row ! idx of
         None \<Rightarrow> fw_store_null b1
       | Some data \<Rightarrow>
           if fw_is_numeric w ! idx \<and> not_a_number data then fw_store_null b1
           else rbind (fw_quote_field t b1) (\<lambda>b2. rbind (fw_store_data t w idx data b2) (fw_quote_field t)))"

definition fw_store_row :: "dialect \<Rightarrow> fast_writer \<Rightarrow> string option list \<Rightarrow> buffer \<Rightarrow> buffer result" where
  "fw_store_row t w row b = rbind (rfold (fw_store_field t w row) [0 ..< length (fw_needs_escape w)] b) (fw_finish_row t)"

section \<open>The text of a row\<close>

definition doubled :: "char \<Rightarrow> string \<Rightarrow> string" where
  "doubled q data = concat (map (\<lambda>c. if c = q then [q, q] else [c]) data)"

text \<open>The values that are enclosed where this is optional.\<close>

definition enclosed :: "dialect \<Rightarrow> string \<Rightarrow> bool" where
  "enclosed t data \<longleftrightarrow>
     list_ex (\<lambda>c. c \<in> {hd (fields_enclosed_by t), hd (fields_terminated_by t), hd (lines_terminated_by t)}) data \<or> data = ''NULL''"

definition fw_data_text :: "dialect \<Rightarrow> fast_writer \<Rightarrow> nat \<Rightarrow> string \<Rightarrow> string" where
  "fw_data_text t w idx data =
     (let q = hd (fields_enclosed_by t); e = (if fields_optionally_enclosed t \<and> enclosed t data then [q] else [])
      in case fw_needs_escape w ! idx of
           FULL \<Rightarrow> e @ doubled q data @ e
         | BASE64 \<Rightarrow> strip_lines data
         | NONE \<Rightarrow> data)"

definition fw_quote_text :: "dialect \<Rightarrow> string" where
  "fw_quote_text t = (if \<not> fields_optionally_enclosed t then fields_enclosed_by t else [])"

definition fw_value_text :: "dialect \<Rightarrow> fast_writer \<Rightarrow> nat \<Rightarrow> string option \<Rightarrow> string" where
  "fw_value_text t w idx v =
     (case v of
        None \<Rightarrow> ''NULL''
      | Some data \<Rightarrow> if fw_is_numeric w ! idx \<and> not_a_number data then ''NULL''
                     else fw_quote_text t @ fw_data_text t w idx data @ fw_quote_text t)"

definition fw_field_text :: "dialect \<Rightarrow> fast_writer \<Rightarrow> string option list \<Rightarrow> nat \<Rightarrow> string" where
  "fw_field_text t w row idx = (if idx \<noteq> 0 then fields_terminated_by t else []) @ fw_value_text t w idx (row ! idx)"

definition fw_row_text :: "dialect \<Rightarrow> fast_writer \<Rightarrow> string option list \<Rightarrow> string" where
  "fw_row_text t w row = concat (map (fw_field_text t w row) [0 ..< length (fw_needs_escape w)]) @ lines_terminated_by t"

definition fw_reserved :: "dialect \<Rightarrow> fast_writer \<Rightarrow> nat \<Rightarrow> nat" where
  "fw_reserved t w idx = (if idx \<noteq> 0 then 1 else 0) + fw_quoted_length t (fw_needs_escape w ! idx)"

section \<open>Searching and doubling\<close>

lemma find_any_of_le: "find_any_of ns s \<le> length s"
  by (induction s) simp_all

lemma find_any_of_before: "i < find_any_of ns s \<Longrightarrow> s ! i \<notin> set ns"
  by (induction s arbitrary: i) (auto split: if_splits simp: nth_Cons split: nat.splits)

lemma find_any_of_here: "find_any_of ns s < length s \<Longrightarrow> s ! find_any_of ns s \<in> set ns"
  by (induction s) (auto split: if_splits)

lemma find_any_of_found: "find_any_of ns s < length s \<longleftrightarrow> list_ex (\<lambda>c. c \<in> set ns) s"
  by (induction s) auto

text \<open>A position is the one of the first occurrence.\<close>

lemma find_any_of_eq:
  assumes "p \<le> length s" "\<And>i. i < p \<Longrightarrow> s ! i \<notin> set ns" "p < length s \<Longrightarrow> s ! p \<in> set ns"
  shows "find_any_of ns s = p"
  using assms
proof (induction s arbitrary: p)
  case (Cons c s)
  show ?case
  proof (cases p)
    case (Suc m)
    have "c \<notin> set ns" using Cons(3) [of 0] Suc by simp
    moreover have "find_any_of ns s = m"
      using Cons(1) [of m] Cons(2) Cons(3) [of "Suc i" for i] Cons(4) Suc by auto
    ultimately show ?thesis using Suc by simp
  qed (use Cons(4) in simp)
qed simp

text \<open>The second search finds the first quote of the data.\<close>

lemma search_again:
  assumes "p = find_any_of [q, f, l] data" "p < length data" "data ! p \<noteq> q"
  shows "p + 1 + find_any_of [q] (drop (p + 1) data) = find_any_of [q] data"
proof (rule find_any_of_eq [symmetric])
  let ?k = "find_any_of [q] (drop (p + 1) data)"
  show "p + 1 + ?k \<le> length data" using find_any_of_le [of "[q]" "drop (p + 1) data"] assms(2) by simp
  show "data ! i \<notin> set [q]" if "i < p + 1 + ?k" for i
  proof -
    consider "i < p" | "i = p" | "p + 1 \<le> i" by linarith
    then show ?thesis
    proof cases
      case 1
      then show ?thesis using find_any_of_before [of i "[q, f, l]" data] assms(1) by auto
    next
      case 3
      then have "i - (p + 1) < ?k" using that by linarith
      then show ?thesis using find_any_of_before [of "i - (p + 1)" "[q]" "drop (p + 1) data"] 3 assms(2) by simp
    qed (use assms(3) in simp)
  qed
  show "data ! (p + 1 + ?k) \<in> set [q]" if "p + 1 + ?k < length data"
    using that find_any_of_here [of "[q]" "drop (p + 1) data"] by (simp add: nth_append add.assoc)
qed

lemma first_quote:
  "(if find_any_of [q, f, l] data < length data \<and> data ! find_any_of [q, f, l] data \<noteq> q
    then find_any_of [q, f, l] data + 1 + find_any_of [q] (drop (find_any_of [q, f, l] data + 1) data)
    else find_any_of [q, f, l] data) = find_any_of [q] data"
proof -
  let ?p = "find_any_of [q, f, l] data"
  have "?p = find_any_of [q] data" if "\<not> (?p < length data \<and> data ! ?p \<noteq> q)"
  proof (rule find_any_of_eq [symmetric])
    show "data ! i \<notin> set [q]" if "i < ?p" for i using find_any_of_before [OF that] by simp
    show "data ! ?p \<in> set [q]" if "?p < length data" using that \<open>\<not> (?p < length data \<and> data ! ?p \<noteq> q)\<close> by simp
  qed (rule find_any_of_le)
  then show ?thesis using search_again [of ?p q f l data] by simp
qed

lemma doubled_plain: "q \<notin> set s \<Longrightarrow> doubled q s = s"
  by (induction s) (auto simp: doubled_def)

lemma doubled_append: "doubled q (s @ s') = doubled q s @ doubled q s'"
  by (simp add: doubled_def)

lemma doubled_at:
  assumes "p = find_any_of [q] data" "p < length data"
  shows "doubled q data = take (p + 1) data @ q # doubled q (drop (p + 1) data)"
proof -
  have q: "data ! p = q" using find_any_of_here [of "[q]" data] assms by simp
  have "q \<notin> set (take p data)"
    using find_any_of_before [of _ "[q]" data] assms by (fastforce simp: in_set_conv_nth)
  then have "doubled q (take p data @ q # drop (p + 1) data) = take p data @ [q, q] @ doubled q (drop (p + 1) data)"
    by (simp add: doubled_append doubled_plain) (simp add: doubled_def)
  moreover have "take p data @ q # drop (p + 1) data = data" "take (p + 1) data = take p data @ [q]"
    using q id_take_nth_drop [OF assms(2)] assms(2) by (simp_all add: take_Suc_conv_app_nth)
  ultimately show ?thesis by simp
qed

lemma double_loop_append:
  "double_loop q data (find_any_of [q] data) b = append_bytes (doubled q data) b"
proof (induction "length data" arbitrary: data b rule: less_induct)
  case less
  let ?p = "find_any_of [q] data"
  show ?case
  proof (cases "?p < length data")
    case True
    then have "double_loop q (drop (?p + 1) data) (find_any_of [q] (drop (?p + 1) data)) = append_bytes (doubled q (drop (?p + 1) data))"
      using less by (intro ext) simp
    then have "double_loop q data ?p b = rbind (append_bytes (take (?p + 1) data) b)
        (\<lambda>b1. rbind (append_bytes [q] b1) (append_bytes (doubled q (drop (?p + 1) data))))"
      using True by (subst double_loop.simps) simp
    then show ?thesis using doubled_at [OF refl True] by (simp add: append_bytes_twice)
  next
    case False
    then have "q \<notin> set data" "?p = length data"
      using find_any_of_found [of "[q]" data] find_any_of_le [of "[q]" data] by (auto simp: list_ex_iff)
    then show ?thesis using False by (subst double_loop.simps) (simp add: doubled_plain)
  qed
qed

lemma doubled_length: "length (doubled q data) \<le> 2 * length data"
  by (induction data) (simp_all add: doubled_def)

section \<open>Staying in the buffer\<close>

lemma write_doubled_ok:
  assumes "buffer_ok b" "fits (2 * length data) b"
  shows "\<exists>b'. rbind (will_write (2 * length data) b) (double_loop q data (find_any_of [q] data)) = Inr b' \<and> wrote b (doubled q data) 0 b'"
  by (rule write_announced [OF assms doubled_length]) (simp add: double_loop_append)

text \<open>Announcing the data and putting something in front of it may be exchanged when the latter is reserved.\<close>

lemma append_fixed_will_write:
  assumes "will_write n b = Inr b1" "buffer_ok b" "fits n b" "1 \<le> m_fixed_length_remaining b"
  shows "append_fixed [q] b1 = rbind (append_fixed [q] b) (will_write n)"
proof -
  obtain c where c: "will_write n b = Inr (b\<lparr>m_capacity := c\<rparr>)" "holds n (b\<lparr>m_capacity := c\<rparr>)" "m_capacity b \<le> c"
    using will_write_ok [OF assms(2,3)] by blast
  have b1: "b1 = b\<lparr>m_capacity := c\<rparr>" using assms(1) c(1) by simp
  let ?b = "b\<lparr>m_bytes := m_bytes b @ [q], m_fixed_length_remaining := m_fixed_length_remaining b - 1\<rparr>"
  have "append_fixed [q] b = Inr ?b" using assms(2,4) by (simp add: append_fixed_def append_bytes_def buffer_ok_def)
  moreover have "append_fixed [q] b1 = Inr (?b\<lparr>m_capacity := c\<rparr>)"
    using assms(4) c(2) unfolding b1 by (simp add: append_fixed_def append_bytes_def holds_def)
  moreover have "will_write n ?b = Inr (?b\<lparr>m_capacity := c\<rparr>)"
    using c(1) assms(4) by (cases b) (auto simp: will_write_def Let_def resize_def split: if_splits)
  ultimately show ?thesis by simp
qed

lemma fw_store_escaped_ok:
  assumes "buffer_ok b" "fits (2 * length data) b" "fields_optionally_enclosed t \<longrightarrow> 2 \<le> m_fixed_length_remaining b"
    "q = hd (fields_enclosed_by t)" "qs = (if fields_optionally_enclosed t \<and> enclosed t data then [q] else [])"
  shows "\<exists>b' f. fw_store_escaped_field t data b = Inr b' \<and> wrote b (qs @ doubled q data @ qs) f b' \<and>
    f \<le> (if fields_optionally_enclosed t then 2 else 0) \<and> length (qs @ doubled q data @ qs) \<le> f + 2 * length data"
proof -
  let ?q = "hd (fields_enclosed_by t)" and ?f = "hd (fields_terminated_by t)" and ?l = "hd (lines_terminated_by t)"
  let ?e = "fields_optionally_enclosed t \<and> enclosed t data"
  have e: "(if find_any_of [?q, ?f, ?l] data < length data then True else length data = 4 \<and> data = ''NULL'') = enclosed t data"
    using find_any_of_found [of "[?q, ?f, ?l]" data] by (auto simp: enclosed_def)
  have store: "fw_store_escaped_field t data b =
      (if data = [] then Inr b else rbind (will_write (2 * length data) b) (\<lambda>b1.
        if ?e then rbind (append_fixed [?q] b1) (\<lambda>b2. rbind (double_loop ?q data (find_any_of [?q] data) b2) (append_fixed [?q]))
        else double_loop ?q data (find_any_of [?q] data) b1))"
    unfolding fw_store_escaped_field_def Let_def e first_quote
    by (cases "fields_optionally_enclosed t"; cases "enclosed t data") (simp_all add: rbind_Inr)
  show ?thesis
  proof (cases ?e)
    case True
    have r: "2 * length [?q] + 0 \<le> m_fixed_length_remaining b" using True assms(3) by simp
    have ne: "data \<noteq> []" using True by (auto simp: enclosed_def)
    obtain b1 where b1: "will_write (2 * length data) b = Inr b1" using will_write_ok [OF assms(1,2)] by blast
    have "fw_store_escaped_field t data b = rbind (append_fixed [?q] b) (\<lambda>b2.
        rbind (rbind (will_write (2 * length data) b2) (double_loop ?q data (find_any_of [?q] data))) (append_fixed [?q]))"
      using store b1 ne True append_fixed_will_write [OF b1 assms(1,2)] r by (simp add: rbind_assoc)
    moreover have "\<exists>b' f. rbind (append_fixed [?q] b) (\<lambda>b2.
        rbind (rbind (will_write (2 * length data) b2) (double_loop ?q data (find_any_of [?q] data))) (append_fixed [?q])) = Inr b' \<and>
        wrote b ([?q] @ doubled ?q data @ [?q]) f b' \<and> f \<le> 2 * length [?q] + 0 \<and> length ([?q] @ doubled ?q data @ [?q]) \<le> f + 2 * length data"
      by (rule enclosed_ok [OF assms(1,2) r puts_append_fixed(1)]) (use write_doubled_ok doubled_length in fastforce)
    ultimately show ?thesis using True assms(4,5) by auto
  next
    case False
    show ?thesis
    proof (cases "data = []")
      case True
      then show ?thesis using store wrote_refl [OF assms(1)] False assms(5) by (intro exI [of _ b] exI [of _ 0]) (auto simp: doubled_def)
    next
      case ne: False
      obtain b' where "rbind (will_write (2 * length data) b) (double_loop ?q data (find_any_of [?q] data)) = Inr b'"
          "wrote b (doubled ?q data) 0 b'"
        using write_doubled_ok [OF assms(1,2)] by blast
      then show ?thesis using store False ne doubled_length [of ?q data] assms(4,5) by (intro exI [of _ b'] exI [of _ 0]) auto
    qed
  qed
qed

lemma fw_store_data_ok:
  assumes "buffer_ok b" "fits (2 * length data) b"
    "fields_optionally_enclosed t \<and> fw_needs_escape w ! idx = FULL \<longrightarrow> 2 \<le> m_fixed_length_remaining b"
  shows "\<exists>b' f. fw_store_data t w idx data b = Inr b' \<and> wrote b (fw_data_text t w idx data) f b' \<and>
    f \<le> (if fields_optionally_enclosed t \<and> fw_needs_escape w ! idx = FULL then 2 else 0) \<and> length (fw_data_text t w idx data) \<le> f + 2 * length data"
proof (cases "fw_needs_escape w ! idx")
  case FULL
  then have "fields_optionally_enclosed t \<longrightarrow> 2 \<le> m_fixed_length_remaining b" using assms(3) by simp
  from fw_store_escaped_ok [OF assms(1,2) this refl refl] show ?thesis
    using FULL by (simp add: fw_store_data_def fw_data_text_def Let_def)
next
  case BASE64
  have "fits (length data) b" using assms(2) by (simp add: fits_def)
  from write_base64_ok [OF assms(1) this] show ?thesis
    using BASE64 strip_lines_length [of data] by (fastforce simp: fw_store_data_def fw_data_text_def Let_def)
next
  case NONE
  have "fits (length data) b" using assms(2) by (simp add: fits_def)
  from store_unescaped_ok [OF assms(1) this] show ?thesis
    using NONE by (fastforce simp: fw_store_data_def fw_data_text_def Let_def)
qed

lemma fw_quote_field_puts: "length (fields_enclosed_by t) = 1 \<Longrightarrow> puts (fw_quote_field t) (fw_quote_text t)"
  using puts_single(2) puts_append_fixed(2) by (simp add: fw_quote_field_def [abs_def] fw_quote_text_def)

lemma fw_store_value_ok:
  assumes "fast_traits_ok t" "buffer_ok b" "fits (dw_value_need v) b"
    "2 * length (fw_quote_text t) + (if fields_optionally_enclosed t \<and> fw_needs_escape w ! idx = FULL then 2 else 0) \<le> m_fixed_length_remaining b"
  shows "\<exists>b' f. (case v of
         None \<Rightarrow> fw_store_null b
       | Some data \<Rightarrow>
           if fw_is_numeric w ! idx \<and> not_a_number data then fw_store_null b
           else rbind (fw_quote_field t b) (\<lambda>b2. rbind (fw_store_data t w idx data b2) (fw_quote_field t))) = Inr b' \<and>
    wrote b (fw_value_text t w idx v) f b' \<and>
    f \<le> 2 * length (fw_quote_text t) + (if fields_optionally_enclosed t \<and> fw_needs_escape w ! idx = FULL then 2 else 0) \<and>
    length (fw_value_text t w idx v) \<le> f + dw_value_need v"
  unfolding fw_value_text_def
proof (rule value_ok [OF assms(2-4) fw_quote_field_puts])
  show "\<exists>b'. fw_store_null b = Inr b' \<and> wrote b ''NULL'' 0 b'" if "buffer_ok b" "fits (dw_value_need v) b" for b
    unfolding fw_store_null_def using that by (intro write_announced) (cases v; simp add: fits_def)+
  show "\<exists>b' f. fw_store_data t w idx data b = Inr b' \<and> wrote b (fw_data_text t w idx data) f b' \<and>
      f \<le> (if fields_optionally_enclosed t \<and> fw_needs_escape w ! idx = FULL then 2 else 0) \<and>
      length (fw_data_text t w idx data) \<le> f + dw_value_need v"
    if "v = Some data" "buffer_ok b" "fits (dw_value_need v) b"
      "(if fields_optionally_enclosed t \<and> fw_needs_escape w ! idx = FULL then 2 else 0) \<le> m_fixed_length_remaining b" for b data
  proof -
    have "fits (2 * length data) b" using that(1,3) by (simp add: fits_def)
    moreover have "fields_optionally_enclosed t \<and> fw_needs_escape w ! idx = FULL \<longrightarrow> 2 \<le> m_fixed_length_remaining b"
      using that(4) by (auto split: if_splits)
    ultimately show ?thesis using fw_store_data_ok [OF that(2)] that(1) by fastforce
  qed
  show "length ''NULL'' \<le> dw_value_need v" by (cases v) simp_all
qed (use assms(1) in \<open>simp add: fast_traits_ok_def\<close>)

lemma fw_store_field_ok:
  assumes "fast_traits_ok t" "buffer_ok b" "fits (dw_value_need (row ! idx)) b" "fw_reserved t w idx \<le> m_fixed_length_remaining b"
  shows "\<exists>b' f. fw_store_field t w row idx b = Inr b' \<and> wrote b (fw_field_text t w row idx) f b' \<and> f \<le> fw_reserved t w idx \<and>
    length (fw_field_text t w row idx) \<le> f + dw_value_need (row ! idx)"
proof -
  let ?F = "if idx \<noteq> 0 then fields_terminated_by t else []"
  have f: "length (fields_terminated_by t) = 1" using assms(1) by (simp add: fast_traits_ok_def)
  then have r: "fw_reserved t w idx = length ?F + (2 * length (fw_quote_text t) +
      (if fields_optionally_enclosed t \<and> fw_needs_escape w ! idx = FULL then 2 else 0))"
    using assms(1) by (simp add: fw_reserved_def fw_quote_text_def fw_quoted_length_def fast_traits_ok_def)
  have "puts (\<lambda>b. if idx \<noteq> 0 then append_fixed [hd (fields_terminated_by t)] b else Inr b) ?F"
    using puts_if [of "idx \<noteq> 0" "fields_terminated_by t"] f by (cases "fields_terminated_by t") auto
  from separated_ok [OF assms(2,3) assms(4)[unfolded r] this fw_store_value_ok [OF assms(1)]]
  show ?thesis unfolding fw_store_field_def fw_field_text_def r .
qed

definition fw_set_up :: "dialect \<Rightarrow> fast_writer \<Rightarrow> buffer \<Rightarrow> bool" where
  "fw_set_up t w b \<longleftrightarrow>
     fast_traits_ok t \<and> buffer_ok (clear b) \<and>
     m_fixed_length b = length (lines_terminated_by t) + sum_list (map (fw_reserved t w) [0 ..< length (fw_needs_escape w)])"

locale fast_traits =
  fixes t :: dialect
  assumes traits: "fast_traits_ok t"

sublocale fast_traits \<subseteq> fw: row_writer "fw_store_field t w row" "fw_field_text t w row" "fw_reserved t w" "\<lambda>i. dw_value_need (row ! i)"
    for w row
  by unfold_locales (rule fw_store_field_ok [OF traits])

context fast_traits
begin

lemma fw_store_row_ok:
  assumes "fw_set_up t w b" "m_fixed_length b + sum_list (map (\<lambda>i. dw_value_need (row ! i)) [0 ..< length (fw_needs_escape w)]) \<le> 2 ^ 63"
  shows "\<exists>b'. fw_store_row t w row (clear b) = Inr b' \<and> m_bytes b' = fw_row_text t w row \<and> fw_set_up t w b'"
proof -
  let ?is = "[0 ..< length (fw_needs_escape w)]"
  have b: "buffer_ok (clear b)"
      "length [] + sum_list (map (fw_reserved t w) ?is) + length (lines_terminated_by t) \<le> m_fixed_length b"
    using assms(1) by (simp_all add: fw_set_up_def)
  have "append_fixed [] (clear b) = Inr (clear b)" using b(1) by (simp add: append_fixed_def append_bytes_def buffer_ok_def)
  moreover have "puts (fw_finish_row t) (lines_terminated_by t)"
    using puts_single(2) [of "lines_terminated_by t"] traits by (simp add: fw_finish_row_def fast_traits_ok_def)
  note fw.row_ok [OF b assms(2) this]
  ultimately show ?thesis using assms(1) by (auto simp: fw_store_row_def fw_row_text_def fw_set_up_def)
qed

lemma fw_read_metadata_set_up:
  assumes "buffer_ok b" "m_bytes b = []" "m_fixed_length_remaining b = 0" "fw_read_metadata t metadata pre b = Inr (w, b')"
  shows "fw_set_up t w b'"
proof -
  define n where "n = length (lines_terminated_by t) + (length metadata - 1) + sum_list (map (fw_quoted_length t) (fw_needs_escape w))"
  have w: "length (fw_needs_escape w) = length metadata" using assms(4) by (auto simp: fw_read_metadata_def Let_def)
  have n: "set_fixed_length n b = Inr b'"
    using assms(4) traits by (cases metadata) (auto simp: fw_read_metadata_def Let_def n_def fast_traits_ok_def)
  have "sum_list (map (fw_reserved t w) [0 ..< k]) = (k - 1) + sum_list (map (\<lambda>i. fw_quoted_length t (fw_needs_escape w ! i)) [0 ..< k])" for k
  proof (induction k)
    case (Suc k)
    then show ?case by (cases k) (simp_all add: fw_reserved_def)
  qed simp
  moreover have "map (fw_quoted_length t) (fw_needs_escape w) = map (\<lambda>i. fw_quoted_length t (fw_needs_escape w ! i)) [0 ..< length metadata]"
    using w by (intro nth_equalityI) auto
  ultimately have "n = length (lines_terminated_by t) + sum_list (map (fw_reserved t w) [0 ..< length (fw_needs_escape w)])"
    using w by (simp add: n_def del: map_eq_conv)
  then show ?thesis using set_fixed_length_ok [OF n assms(1-3)] traits by (simp add: fw_set_up_def)
qed

end

interpretation rfc_writer: fast_traits csv_rfc_unix
  by unfold_locales (simp add: fast_traits_ok_def dialect_defs)

section \<open>Reading the rows back\<close>

text \<open>A specification of files in the style of RFC 4180, which models no code of the program: the cells of the first row, where separators between quotes do not
  count, and the value of a cell.\<close>

fun rfc_cells :: "dialect \<Rightarrow> bool \<Rightarrow> string \<Rightarrow> string \<Rightarrow> string list" where
  "rfc_cells t quoted cell [] = [cell]"
| "rfc_cells t quoted cell (c # s) =
     (if c = hd (fields_enclosed_by t) then rfc_cells t (\<not> quoted) (cell @ [c]) s
      else if \<not> quoted \<and> c = hd (fields_terminated_by t) then cell # rfc_cells t quoted [] s
      else if \<not> quoted \<and> c = hd (lines_terminated_by t) then [cell]
      else rfc_cells t quoted (cell @ [c]) s)"

fun undoubled :: "char \<Rightarrow> string \<Rightarrow> string" where
  "undoubled q (c # c' # s) = (if c = q \<and> c' = q then q # undoubled q s else c # undoubled q (c' # s))"
| "undoubled q s = s"

definition rfc_value :: "dialect \<Rightarrow> string \<Rightarrow> string option" where
  "rfc_value t s =
     (if s = ''NULL'' then None
      else if s \<noteq> [] \<and> hd s = hd (fields_enclosed_by t) then Some (undoubled (hd (fields_enclosed_by t)) (butlast (tl s)))
      else Some s)"

definition rfc_row :: "dialect \<Rightarrow> string \<Rightarrow> string option list" where
  "rfc_row t s = map (rfc_value t) (rfc_cells t False [] s)"

lemma undoubled_other: "c \<noteq> q \<Longrightarrow> undoubled q (c # s) = c # undoubled q s"
  by (cases s) simp_all

lemma undoubled_doubled: "undoubled q (doubled q data) = data"
  by (induction data) (auto simp: doubled_def undoubled_other)

text \<open>The reader passes over a text when it ends outside of quotes and has seen no separator.\<close>

definition passed :: "dialect \<Rightarrow> string \<Rightarrow> bool" where
  "passed t s \<longleftrightarrow> (\<forall>cell r. rfc_cells t False cell (s @ r) = rfc_cells t False (cell @ s) r)"

lemma passed_plain:
  assumes "\<not> list_ex (\<lambda>c. c \<in> {hd (fields_enclosed_by t), hd (fields_terminated_by t), hd (lines_terminated_by t)}) s"
  shows "passed t s"
proof -
  have "rfc_cells t False cell (s @ r) = rfc_cells t False (cell @ s) r" for cell r
    using assms by (induction s arbitrary: cell) auto
  then show ?thesis by (simp add: passed_def)
qed

lemma passed_enclosed: "q = hd (fields_enclosed_by t) \<Longrightarrow> passed t (q # doubled q data @ [q])"
proof -
  assume q: "q = hd (fields_enclosed_by t)"
  have "rfc_cells t True cell (doubled q data @ r) = rfc_cells t True (cell @ doubled q data) r" for cell r
    using q by (induction data arbitrary: cell) (auto simp: doubled_def)
  then show ?thesis using q by (simp add: passed_def)
qed

text \<open>The value that is read back.\<close>

definition stored_value :: "fast_writer \<Rightarrow> nat \<Rightarrow> string option \<Rightarrow> string option" where
  "stored_value w idx v =
     (case v of
        None \<Rightarrow> None
      | Some data \<Rightarrow> if fw_is_numeric w ! idx \<and> not_a_number data then None
                     else Some (if fw_needs_escape w ! idx = BASE64 then strip_lines data else data))"

text \<open>The values of the columns that are written as they are (numbers, hexadecimal and base64 text) hold no separators and are not the word NULL.\<close>

definition bare_ok :: "dialect \<Rightarrow> fast_writer \<Rightarrow> nat \<Rightarrow> string option \<Rightarrow> bool" where
  "bare_ok t w idx v \<longleftrightarrow>
     fw_needs_escape w ! idx = FULL \<or> (case stored_value w idx v of None \<Rightarrow> True | Some s \<Rightarrow> \<not> enclosed t s)"

lemma rfc_separators [simp]:
  "hd (fields_enclosed_by csv_rfc_unix) = CHR 0x22" "hd (fields_terminated_by csv_rfc_unix) = CHR '',''"
  "hd (lines_terminated_by csv_rfc_unix) = CHR 0x0A" "fields_optionally_enclosed csv_rfc_unix"
  "fields_terminated_by csv_rfc_unix = '',''" "lines_terminated_by csv_rfc_unix = [CHR 0x0A]"
  by (simp_all add: csv_rfc_unix_def)

lemma bare_value:
  assumes "\<not> enclosed csv_rfc_unix s"
  shows "passed csv_rfc_unix s \<and> rfc_value csv_rfc_unix s = Some s"
  using assms passed_plain [of csv_rfc_unix s] by (cases s) (auto simp: enclosed_def rfc_value_def)

lemma null_value: "passed csv_rfc_unix ''NULL''" "rfc_value csv_rfc_unix ''NULL'' = None"
  by (rule passed_plain) (simp_all add: rfc_value_def)

lemma rfc_value_text:
  assumes "bare_ok csv_rfc_unix w idx v"
  shows "passed csv_rfc_unix (fw_value_text csv_rfc_unix w idx v) \<and>
    rfc_value csv_rfc_unix (fw_value_text csv_rfc_unix w idx v) = stored_value w idx v"
proof (cases "stored_value w idx v")
  case None
  then have "fw_value_text csv_rfc_unix w idx v = ''NULL''"
    by (auto simp: stored_value_def fw_value_text_def split: option.splits if_splits)
  then show ?thesis using null_value None by simp
next
  case (Some s)
  then obtain data where v: "v = Some data" "\<not> (fw_is_numeric w ! idx \<and> not_a_number data)"
      "s = (if fw_needs_escape w ! idx = BASE64 then strip_lines data else data)"
    by (auto simp: stored_value_def split: option.splits if_splits)
  then have tx: "fw_value_text csv_rfc_unix w idx v = fw_data_text csv_rfc_unix w idx data"
    by (auto simp: fw_value_text_def fw_quote_text_def)
  show ?thesis
  proof (cases "fw_needs_escape w ! idx = FULL")
    case full: True
    show ?thesis
    proof (cases "enclosed csv_rfc_unix data")
      case True
      then have "fw_data_text csv_rfc_unix w idx data = CHR 0x22 # doubled (CHR 0x22) data @ [CHR 0x22]"
        using full by (simp add: fw_data_text_def Let_def)
      moreover have "rfc_value csv_rfc_unix (CHR 0x22 # doubled (CHR 0x22) data @ [CHR 0x22]) = Some data"
        by (simp add: rfc_value_def undoubled_doubled)
      ultimately show ?thesis using tx Some v(3) full passed_enclosed [of "CHR 0x22" csv_rfc_unix data] by simp
    next
      case False
      then have "CHR 0x22 \<notin> set data" by (auto simp: enclosed_def list_ex_iff)
      then have "fw_data_text csv_rfc_unix w idx data = data"
        using full False by (simp add: fw_data_text_def doubled_plain)
      then show ?thesis using tx Some v(3) full bare_value [OF False] by simp
    qed
  next
    case False
    then have "\<not> enclosed csv_rfc_unix s" using assms Some by (simp add: bare_ok_def)
    moreover have "fw_data_text csv_rfc_unix w idx data = s"
      using False v(3) by (cases "fw_needs_escape w ! idx") (simp_all add: fw_data_text_def)
    ultimately show ?thesis using tx Some bare_value [of s] by simp
  qed
qed

lemma rfc_cells_fields:
  assumes "\<And>i. k \<le> i \<Longrightarrow> i < n \<Longrightarrow> passed csv_rfc_unix (fw_value_text csv_rfc_unix w i (row ! i))" "0 < k" "k \<le> n"
  shows "rfc_cells csv_rfc_unix False cell (concat (map (fw_field_text csv_rfc_unix w row) [k ..< n]) @ CHR 0x0A # rest) =
    cell # map (\<lambda>i. fw_value_text csv_rfc_unix w i (row ! i)) [k ..< n]"
  using assms
proof (induction "n - k" arbitrary: k cell)
  case (Suc m)
  then have k: "k < n" by linarith
  have "passed csv_rfc_unix (fw_value_text csv_rfc_unix w k (row ! k))" using Suc(3) k by simp
  then show ?case using Suc(1) [of "Suc k" "fw_value_text csv_rfc_unix w k (row ! k)"] Suc(2-) k
    by (simp add: upt_conv_Cons fw_field_text_def passed_def)
qed simp

lemma rfc_row_text:
  assumes "length (fw_needs_escape w) = length row" "row \<noteq> []" "list_all (\<lambda>i. bare_ok csv_rfc_unix w i (row ! i)) [0 ..< length row]"
  shows "rfc_row csv_rfc_unix (fw_row_text csv_rfc_unix w row @ rest) = map (\<lambda>i. stored_value w i (row ! i)) [0 ..< length row]"
proof -
  let ?v = "\<lambda>i. fw_value_text csv_rfc_unix w i (row ! i)"
  have v: "passed csv_rfc_unix (?v i)" "rfc_value csv_rfc_unix (?v i) = stored_value w i (row ! i)" if "i < length row" for i
    using rfc_value_text [of w i "row ! i"] assms(3) that by (simp_all add: list_all_iff)
  have up: "[0 ..< length row] = 0 # [1 ..< length row]" using assms(2) by (simp add: upt_conv_Cons)
  have "fw_row_text csv_rfc_unix w row @ rest = ?v 0 @ concat (map (fw_field_text csv_rfc_unix w row) [1 ..< length row]) @ CHR 0x0A # rest"
    using assms(1) up by (simp add: fw_row_text_def fw_field_text_def)
  also have "rfc_cells csv_rfc_unix False [] \<dots> = rfc_cells csv_rfc_unix False (?v 0) (concat (map (fw_field_text csv_rfc_unix w row) [1 ..< length row]) @ CHR 0x0A # rest)"
    using v(1) [of 0] assms(2) by (simp add: passed_def)
  also have "\<dots> = ?v 0 # map ?v [1 ..< length row]"
    by (rule rfc_cells_fields) (use v(1) assms(2) in \<open>auto simp: Suc_leI\<close>)
  finally show ?thesis using v(2) up assms(2) unfolding rfc_row_def by (simp add: comp_def)
qed

text \<open>C11: the writer for RFC 4180 files stores every row without leaving its buffer, and what was written is, by the specification \<open>rfc_row\<close> of the rows of such files (with the
  bare word NULL for NULL), a row with the values that were stored: \<open>inf\<close> and \<open>nan\<close> in numeric columns become NULL and base64 text loses its line ends. The values that are written without
  quotes (numbers, hexadecimal and base64 text) must not need them: they hold no separators and are not the text NULL. For base64 text this may fail (\<open>base64_null_lost\<close>).\<close>

theorem fast_row_roundtrip:
  assumes "fw_read_metadata csv_rfc_unix metadata pre new_buffer = Inr (w, b)" "length row = length metadata" "row \<noteq> []"
    "list_all (\<lambda>i. bare_ok csv_rfc_unix w i (row ! i)) [0 ..< length row]"
    "m_fixed_length b + sum_list (map dw_value_need row) \<le> 2 ^ 63"
  shows "\<exists>b'. fw_store_row csv_rfc_unix w row (clear b) = Inr b' \<and>
    rfc_row csv_rfc_unix (m_bytes b' @ rest) = map (\<lambda>i. stored_value w i (row ! i)) [0 ..< length row]"
proof -
  have "fw_set_up csv_rfc_unix w b"
    by (rule rfc_writer.fw_read_metadata_set_up [OF _ _ _ assms(1)]) (simp_all add: new_buffer_def buffer_ok_def)
  moreover have w: "length (fw_needs_escape w) = length row" using assms(1,2) by (auto simp: fw_read_metadata_def Let_def)
  moreover have "map (\<lambda>i. dw_value_need (row ! i)) [0 ..< length row] = map dw_value_need row" by (intro nth_equalityI) auto
  ultimately obtain b' where "fw_store_row csv_rfc_unix w row (clear b) = Inr b'" "m_bytes b' = fw_row_text csv_rfc_unix w row"
    using rfc_writer.fw_store_row_ok [of w b row] assms(5) by auto
  then show ?thesis using rfc_row_text [OF w assms(3,4)] by simp
qed

lemma fast_row_roundtrip_witness:
  "\<exists>w b. fw_read_metadata csv_rfc_unix [Integer, String] [] new_buffer = Inr (w, b) \<and>
     (\<exists>b'. fw_store_row csv_rfc_unix w [Some ''12'', Some ''a,b''] (clear b) = Inr b' \<and>
        rfc_row csv_rfc_unix (m_bytes b') = [Some ''12'', Some ''a,b''])"
proof -
  let ?w = "\<lparr>fw_is_numeric = [True, False], fw_needs_escape = [NONE, FULL]\<rparr>"
  let ?b = "new_buffer\<lparr>m_fixed_length := 4, m_fixed_length_remaining := 4\<rparr>"
  have m: "fw_read_metadata csv_rfc_unix [Integer, String] [] new_buffer = Inr (?w, ?b)"
    by (simp add: fw_read_metadata_def fw_column_needs_escape_def fw_quoted_length_def set_fixed_length_def will_write_def new_buffer_def
        is_numeric_def csv_rfc_unix_def upt_rec)
  have "list_all (\<lambda>i. bare_ok csv_rfc_unix ?w i ([Some ''12'', Some ''a,b''] ! i)) [0 ..< length [Some ''12'', Some ''a,b'']]"
    by (simp add: bare_ok_def stored_value_def enclosed_def not_a_number_def isalpha_def isupper_def islower_def upt_rec)
  then have "\<exists>b'. fw_store_row csv_rfc_unix ?w [Some ''12'', Some ''a,b''] (clear ?b) = Inr b' \<and>
      rfc_row csv_rfc_unix (m_bytes b' @ []) = map (\<lambda>i. stored_value ?w i ([Some ''12'', Some ''a,b''] ! i)) [0 ..< length [Some ''12'', Some ''a,b'']]"
    by (intro fast_row_roundtrip [OF m]) simp_all
  moreover have "map (\<lambda>i. stored_value ?w i ([Some ''12'', Some ''a,b''] ! i)) [0 ..< length [Some ''12'', Some ''a,b'']] = [Some ''12'', Some ''a,b'']"
    by (simp add: stored_value_def not_a_number_def isalpha_def isupper_def islower_def upt_rec)
  ultimately show ?thesis using m by auto
qed

text \<open>A value whose base64 text is the word NULL is written like NULL.\<close>

lemma base64_null_lost:
  assumes "fw_needs_escape w ! idx = BASE64" "\<not> fw_is_numeric w ! idx"
  shows "fw_value_text csv_rfc_unix w idx (Some ''NULL'') = fw_value_text csv_rfc_unix w idx None"
  using assms by (simp add: fw_value_text_def fw_quote_text_def fw_data_text_def strip_lines.simps)

end
