(* ===== verification/Dump_Files.thy ===== *)
theory Dump_Files
  imports Dump_Writer Fast_Writer Allocated_File
begin

text \<open>
  The dump writer over the components it uses in the program: rows are stored by the general writer, by a writer compiled for a
  dialect or by the writer of RFC 4180 files, and the data and the index are files in memory that share an allocator.
\<close>

section \<open>Files in memory\<close>

definition memory_io :: "heap \<Rightarrow> string \<Rightarrow> (alloc_file \<times> alloc_file \<times> store) dump_io" where
  "memory_io heap path =
     \<lparr>out_write = (\<lambda>s (f, g, st). case file_write heap f st s of (r, f', st') \<Rightarrow> (map_sum id int r, f', g, st')),
      out_io_size = None, out_path = path,
      idx_is_open = (\<lambda>(f, g, st). f_is_open g),
      idx_open = (\<lambda>(f, g, st). case file_open g False of (r, g') \<Rightarrow> (r, f, g', st)),
      idx_close = (\<lambda>(f, g, st). case file_close g of (r, g') \<Rightarrow> (r, f, g', st)),
      idx_write = (\<lambda>s (f, g, st). case file_write heap g st s of (r, g', st') \<Rightarrow> (map_sum id int r, f, g', st'))\<rparr>"

text \<open>The file is open for writing at its end, and \<open>n\<close> more bytes may be written.\<close>

definition appendable :: "heap \<Rightarrow> nat \<Rightarrow> alloc_file \<Rightarrow> store \<Rightarrow> bool" where
  "appendable heap n f st \<longleftrightarrow>
     file_ok heap f st \<and> f_is_open f \<and> \<not> f_read_mode f \<and> f_offset f = f_size f \<and> f_capacity f < f_size f + f_block_size f \<and>
     f_size f + n + 2 * f_block_size f < 2 ^ 64"

lemma append_write:
  assumes "appendable heap n f st" "length s \<le> n" "file_write heap f st s = (Inr k, f', st')"
  shows "k = length s \<and> appendable heap (n - length s) f' st' \<and> file_data f' st' = file_data f st @ s \<and>
    (\<exists>bs. f_blocks f' = f_blocks f @ bs \<and> set bs \<inter> used_blocks (pool st) = {} \<and> used_blocks (pool st') = used_blocks (pool st) \<union> set bs) \<and>
    f_block_size f' = f_block_size f \<and>
    (\<forall>a. (\<forall>b \<in> set (f_blocks f'). \<not> (b \<le> a \<and> a < b + f_block_size f)) \<longrightarrow> mem st' a = mem st a)"
proof -
  have ok: "file_ok heap f st" "f_is_open f" "\<not> f_read_mode f" "f_offset f = f_size f" "f_capacity f < f_size f + f_block_size f"
      "f_size f + n + 2 * f_block_size f < 2 ^ 64" "f_bytes_consumed f = 0"
    using assms(1) by (auto simp: appendable_def file_ok_def position_ok_def)
  have "f_capacity f + length s + f_block_size f < 2 ^ 64" using ok(5,6) assms(2) by linarith
  note w = file_write_ok [OF ok(1-3) this assms(3), unfolded sum.case]
  then obtain bs where bs: "set bs \<inter> used_blocks (pool st) = {}" "used_blocks (pool st') = used_blocks (pool st) \<union> set bs"
      "f' = f\<lparr>f_offset := f_offset f + length s, f_size := max (f_size f) (f_offset f + length s),
             f_blocks := f_blocks f @ bs, f_capacity := f_capacity f + length bs * f_block_size f\<rparr>"
      "bs \<noteq> [] \<longrightarrow> f_capacity f' < f_offset f' + f_block_size f"
    by blast
  have sel: "f_size f' = f_size f + length s" "f_offset f' = f_size f + length s" "f_block_size f' = f_block_size f" "f_blocks f' = f_blocks f @ bs"
      "f_is_open f'" "\<not> f_read_mode f'" "f_capacity f' = f_capacity f + length bs * f_block_size f"
    using ok bs(3) by simp_all
  have "f_capacity f' < f_size f' + f_block_size f'" using bs(4) ok(5) sel by (cases "bs = []") auto
  then have "appendable heap (n - length s) f' st'" using w ok(6) assms(2) sel by (simp add: appendable_def)
  moreover have "file_data f' st' = file_data f st @ s" using w ok(4,7) by (simp add: file_data_length)
  ultimately show ?thesis using w bs(1,2) sel(3,4) by blast
qed

lemma other_file_kept:
  assumes "appendable heap n f st" "length s \<le> n" "file_write heap f st s = (Inr k, f', st')"
    "appendable heap m g st" "set (f_blocks g) \<inter> set (f_blocks f) = {}"
  shows "appendable heap m g st' \<and> file_data g st' = file_data g st \<and> set (f_blocks g) \<inter> set (f_blocks f') = {}"
proof -
  note w = append_write [OF assms(1-3)]
  then obtain bs where bs: "f_blocks f' = f_blocks f @ bs" "set bs \<inter> used_blocks (pool st) = {}" "used_blocks (pool st') = used_blocks (pool st) \<union> set bs"
    by blast
  have g: "blocks_ok heap g st" "position_ok g" using assms(4) by (simp_all add: appendable_def file_ok_def)
  have f': "blocks_ok heap f' st'" using w by (simp add: appendable_def file_ok_def)
  have sizes: "f_block_size g = m_block_size (pool st)" "f_block_size f = m_block_size (pool st)" "m_block_size (pool st') = m_block_size (pool st)"
    using g(1) f' assms(1) w by (auto simp: blocks_ok_def appendable_def file_ok_def)
  have dis: "set (f_blocks g) \<inter> set (f_blocks f') = {}" using assms(5) bs(1,2) g(1) by (auto simp: blocks_ok_def)
  have used: "set (f_blocks g) \<subseteq> used_blocks (pool st')" "set (f_blocks f') \<subseteq> used_blocks (pool st')"
    using g(1) f' bs(3) by (auto simp: blocks_ok_def)
  have apart: "b + f_block_size g \<le> c" if "b \<in> used_blocks (pool st')" "c \<in> used_blocks (pool st')" "b < c" for b c
    using used_blocks_apart that f' sizes unfolding blocks_ok_def pool_state_def by metis
  have same: "mem st' a = mem st a" if "b \<in> set (f_blocks g)" "b \<le> a" "a < b + f_block_size g" for a b
  proof -
    have "\<not> (c \<le> a \<and> a < c + f_block_size f)" if c: "c \<in> set (f_blocks f')" for c
    proof -
      have "b \<noteq> c" using c dis \<open>b \<in> set (f_blocks g)\<close> by blast
      then have "b + f_block_size g \<le> c \<or> c + f_block_size g \<le> b" using apart used c \<open>b \<in> set (f_blocks g)\<close> by (meson linorder_neqE_nat subsetD)
      then show ?thesis using \<open>b \<le> a\<close> \<open>a < b + f_block_size g\<close> sizes by linarith
    qed
    then show ?thesis using w by blast
  qed
  have "byte_at g st' off = byte_at g st off" if "off \<in> set [f_bytes_consumed g ..< f_size g]" for off
  proof -
    let ?i = "off - f_bytes_consumed g" and ?z = "f_block_size g"
    have z: "0 < ?z" using assms(4) file_ok_block_size by (auto simp: appendable_def)
    have "?i < length (f_blocks g) * ?z" using that g(1) by (auto simp: blocks_ok_def)
    then have "f_blocks g ! (?i div ?z) \<in> set (f_blocks g)" by (simp add: less_mult_imp_div_less)
    then show ?thesis using same z by (simp add: byte_at_def Let_def)
  qed
  then have "file_data g st' = file_data g st" by (simp add: file_data_def)
  moreover have "blocks_ok heap g st'" using g(1) f' sizes used(1) by (simp add: blocks_ok_def)
  ultimately show ?thesis using dis assms(4) g(2) by (simp add: appendable_def file_ok_def)
qed

lemma map_sum_Inr: "map_sum id int r = Inr k \<longleftrightarrow> (\<exists>n. r = Inr n \<and> k = int n)"
  by (cases r) auto

definition memory_room :: "heap \<Rightarrow> alloc_file \<times> alloc_file \<times> store \<Rightarrow> nat \<Rightarrow> nat \<Rightarrow> bool" where
  "memory_room heap files n m =
     (case files of (f, g, st) \<Rightarrow> appendable heap n f st \<and> appendable heap m g st \<and> set (f_blocks g) \<inter> set (f_blocks f) = {})"

interpretation memory: dump_files "memory_io heap path" "\<lambda>(f, g, st). file_data f st" "\<lambda>(f, g, st). file_data g st" "memory_room heap" for heap path
proof (unfold_locales, goal_cases)
  case (1 files n m s k files')
  obtain f g st where fs: "files = (f, g, st)" by (cases files)
  obtain k' f' st' where w: "file_write heap f st s = (Inr k', f', st')" "k = int k'" "files' = (f', g, st')"
    using 1(3) fs by (auto simp: memory_io_def map_sum_Inr split: prod.splits)
  have r: "appendable heap n f st" "appendable heap m g st" "set (f_blocks g) \<inter> set (f_blocks f) = {}" using 1(1) fs by (auto simp: memory_room_def)
  show ?case using append_write [OF r(1) 1(2) w(1)] other_file_kept [OF r(1) 1(2) w(1) r(2,3)] w(2,3) fs by (simp add: memory_room_def)
next
  case (2 files n m s k files')
  obtain f g st where fs: "files = (f, g, st)" by (cases files)
  obtain k' g' st' where w: "file_write heap g st s = (Inr k', g', st')" "files' = (f, g', st')"
    using 2(3) fs by (auto simp: memory_io_def map_sum_Inr split: prod.splits)
  have r: "appendable heap n f st" "appendable heap m g st" "set (f_blocks f) \<inter> set (f_blocks g) = {}" using 2(1) fs by (auto simp: memory_room_def)
  show ?case using append_write [OF r(2) 2(2) w(1)] other_file_kept [OF r(2) 2(2) w(1) r(1,3)] w(2) fs by (simp add: memory_room_def Int_commute)
next
  case (3 files n m files')
  then show ?case
    by (cases files) (auto simp: memory_io_def memory_room_def file_close_def split: if_splits intro: file_cong)
next
  case (4 files n m)
  then show ?case by (cases files) (simp add: memory_io_def memory_room_def appendable_def)
qed

section \<open>Memory that does not run out\<close>

definition heap_total :: "heap \<Rightarrow> bool" where
  "heap_total heap \<longleftrightarrow> (\<forall>ms. heap ms \<noteq> None)"

lemma add_pages_total: "heap_total heap \<Longrightarrow> add_pages heap blocks a \<noteq> (Some e, a')"
proof (induction heap blocks a rule: add_pages.induct)
  case (1 heap blocks a)
  then show ?case
    by (subst add_pages.simps) (auto simp: heap_total_def add_page_def split: option.splits, metis option.distinct(1))
qed

lemma take_blocks_error: "take_blocks blocks a r = Inl e \<Longrightarrow> e \<noteq> Bad_alloc"
proof (induction blocks a r rule: take_blocks.induct)
  case (1 blocks a r)
  show ?case
  proof (cases "take_from_first blocks a r")
    case (Inl e')
    then have "e' \<noteq> Bad_alloc" by (auto simp: take_from_first_def Let_def split: list.splits prod.splits if_splits)
    then show ?thesis using 1(2) Inl by (subst (asm) take_blocks.simps) (auto split: if_splits)
  next
    case (Inr x)
    then show ?thesis using 1 by (cases x) (subst (asm) (2) take_blocks.simps, auto split: if_splits)
  qed
qed

lemma write_loop_error: "write_loop buf i j f m = Inl e \<Longrightarrow> e \<noteq> Bad_alloc"
proof (induction buf i j f m rule: write_loop.induct)
  case (1 buf i j f m)
  from "1.prems" show ?case using "1.IH" by (subst (asm) write_loop.simps) (auto simp: Let_def split: if_splits)
qed

text \<open>Running out of memory is the only way for a write to an open file to fail.\<close>

lemma file_write_total:
  assumes "heap_total heap" "appendable heap n f st" "length s \<le> n"
  shows "\<exists>k f' st'. file_write heap f st s = (Inr k, f', st')"
proof -
  obtain r f' st' where w: "file_write heap f st s = (r, f', st')" by (metis prod_cases3)
  have ok: "file_ok heap f st" "f_is_open f" "\<not> f_read_mode f" "f_capacity f + length s + f_block_size f < 2 ^ 64"
    using assms(2,3) by (auto simp: appendable_def)
  have "e \<noteq> Bad_alloc" if "r = Inl e" for e
  proof -
    have "e \<noteq> Bad_alloc" if "allocate heap (pool st) k = (Inl e, a)" for k a e
      using that add_pages_total [OF assms(1)] take_blocks_error by (auto simp: allocate_def Let_def split: prod.splits option.splits sum.splits)
    then have "e \<noteq> Bad_alloc" if "grow_file heap f st k = (Inl e, f1, st1)" for k f1 st1 e
      using that by (auto simp: grow_file_def Let_def split: prod.splits sum.splits if_splits)
    then show ?thesis using that w ok(2,3) write_loop_error by (auto simp: file_write_def Let_def split: prod.splits sum.splits)
  qed
  moreover have "r = Inl e \<Longrightarrow> e = Bad_alloc" for e using file_write_ok [OF ok w] by auto
  ultimately show ?thesis using w by (cases r) auto
qed

section \<open>Rows\<close>

definition text_fits :: "text_writer \<Rightarrow> string option list \<Rightarrow> bool" where
  "text_fits w row \<longleftrightarrow>
     length (lines_starting_by (m_dialect w)) + length (m_line_terminator w) + sum_list (map (reserved w) [0 ..< length (m_is_string_type w)]) +
     sum_list (map (\<lambda>i. value_need w (row ! i)) [0 ..< length (m_is_string_type w)]) \<le> 2 ^ 63"

definition dialect_fits :: "dialect \<Rightarrow> dialect_writer \<Rightarrow> string option list \<Rightarrow> bool" where
  "dialect_fits t w row \<longleftrightarrow>
     length (lines_terminated_by t) + sum_list (map (dw_reserved t w) [0 ..< length (dw_is_string_type w)]) +
     sum_list (map (\<lambda>i. dw_value_need (row ! i)) [0 ..< length (dw_is_string_type w)]) \<le> 2 ^ 63"

definition fast_fits :: "dialect \<Rightarrow> fast_writer \<Rightarrow> string option list \<Rightarrow> bool" where
  "fast_fits t w row \<longleftrightarrow>
     length (lines_terminated_by t) + sum_list (map (fw_reserved t w) [0 ..< length (fw_needs_escape w)]) +
     sum_list (map (\<lambda>i. dw_value_need (row ! i)) [0 ..< length (fw_needs_escape w)]) \<le> 2 ^ 63"

interpretation text_rows: row_store "store_row w" "row_text w" "set_up w" "text_fits w" for w
  using store_row_ok by unfold_locales (auto simp: set_up_def text_fits_def)

interpretation dialect_rows: row_store "dw_store_row t w" "dw_row_text t w" "dw_set_up t w" "dialect_fits t w" for t w
  using dialect_traits.dw_store_row_ok [OF dialect_traits.intro]
  by unfold_locales (auto simp: dw_set_up_def dialect_fits_def)

interpretation fast_rows: row_store "fw_store_row t w" "fw_row_text t w" "fw_set_up t w" "fast_fits t w" for t w
  using fast_traits.fw_store_row_ok [OF fast_traits.intro]
  by unfold_locales (auto simp: fw_set_up_def fast_fits_def)

interpretation text_dump: dump_run "memory_io heap path" "\<lambda>(f, g, st). file_data f st" "\<lambda>(f, g, st). file_data g st" "memory_room heap"
    "store_row w" "row_text w" "set_up w" "text_fits w" for heap path w ..

interpretation dialect_dump: dump_run "memory_io heap path" "\<lambda>(f, g, st). file_data f st" "\<lambda>(f, g, st). file_data g st" "memory_room heap"
    "dw_store_row t w" "dw_row_text t w" "dw_set_up t w" "dialect_fits t w" for heap path t w ..

interpretation fast_dump: dump_run "memory_io heap path" "\<lambda>(f, g, st). file_data f st" "\<lambda>(f, g, st). file_data g st" "memory_room heap"
    "fw_store_row t w" "fw_row_text t w" "fw_set_up t w" "fast_fits t w" for heap path t w ..

section \<open>A dump in memory\<close>

lemma new_file_appendable:
  assumes "pool_state heap (pool st)" "file_open (new_file name st c) False = (Inr (), f)" "n + 2 * m_block_size (pool st) < 2 ^ 64"
  shows "appendable heap n f st" "f_blocks f = []" "file_data f st = []"
proof -
  have sel: "f_is_open f" "\<not> f_read_mode f" "f_offset f = 0" "f_size f = 0" "f_capacity f = 0" "f_blocks f = []" "f_block_size f = m_block_size (pool st)"
      "f_bytes_consumed f = 0"
    using assms(2) by (auto simp: new_file_def file_open_def file_seek_def file_tell_def)
  have "file_ok heap f st" using file_open_ok [OF new_file_ok [OF assms(1), of name c] assms(2)] by blast
  then show "appendable heap n f st" "f_blocks f = []" "file_data f st = []"
    using sel assms(3) file_ok_block_size [of heap f st] by (simp_all add: appendable_def file_data_def)
qed

lemma index_entries_length: "8 dvd length (concat (map index_entry ns))"
  by (induction ns) simp_all

text \<open>If memory does not run out, no write fails.\<close>

lemma dialect_dump_total:
  assumes "heap_total heap"
  shows "dump_total (memory_io heap path) (\<lambda>(f, g, st). file_data f st) (\<lambda>(f, g, st). file_data g st) (memory_room heap)
    (dw_store_row t w) (dw_row_text t w) (dw_set_up t w) (dialect_fits t w)"
proof (unfold_locales, goal_cases)
  case (1 files n m s)
  then show ?case using file_write_total [OF assms, of n "fst files" "snd (snd files)" s]
    by (cases files) (auto simp: memory_io_def memory_room_def)
next
  case (2 files n m s)
  then show ?case using file_write_total [OF assms, of m "fst (snd files)" "snd (snd files)" s]
    by (cases files) (auto simp: memory_io_def memory_room_def)
next
  case (3 files n m)
  then show ?case by (cases files) (auto simp: memory_io_def memory_room_def appendable_def file_close_def)
qed

interpretation total_dump: dump_total "memory_io (bump_heap page_size) path" "\<lambda>(f, g, st). file_data f st" "\<lambda>(f, g, st). file_data g st"
    "memory_room (bump_heap page_size)" "dw_store_row t w" "dw_row_text t w" "dw_set_up t w" "dialect_fits t w" for page_size path t w
  by (rule dialect_dump_total) (simp add: heap_total_def bump_heap_def)

lemma dump_begins:
  assumes "pool_state heap (pool st)" "file_open (new_file name st c) False = (Inr (), f)" "file_open (new_file name' st c') False = (Inr (), g)"
    "traits_ok t" "initialize_writing (dw_read_metadata t metadata pre) (new_dump_writer (f, g, st) True) = Inr (w, dw)"
    "n + 2 * m_block_size (pool st) < 2 ^ 64" "m + 2 * m_block_size (pool st) < 2 ^ 64"
  shows "dialect_dump.running heap t w 0 n m dw" "m_files dw = (f, g, st)" "file_data f st = []" "file_data g st = []"
proof -
  obtain b where b: "dw_read_metadata t metadata pre new_buffer = Inr (w, b)" "dw = (new_dump_writer (f, g, st) True)\<lparr>m_buffer := b\<rparr>"
    using assms(5) by (auto simp: initialize_writing_def new_dump_writer_def)
  have "dw_set_up t w b"
    by (rule dialect_traits.dw_read_metadata_set_up [OF dialect_traits.intro [OF assms(4)] _ _ _ b(1)])
       (simp_all add: new_buffer_def buffer_ok_def)
  moreover note f = new_file_appendable [OF assms(1,2,6)] and g = new_file_appendable [OF assms(1,3,7)]
  ultimately show "dialect_dump.running heap t w 0 n m dw"
    by (simp add: dialect_dump.running_def b(2) new_dump_writer_def memory_room_def)
  show "m_files dw = (f, g, st)" "file_data f st = []" "file_data g st = []" using b(2) f g by (simp_all add: new_dump_writer_def)
qed

text \<open>C9: dumping a table into files in memory, with a writer that is compiled for a dialect: when the writer reports no error, the data file
  holds the rows one after another, and the index file the positions of the ends of those rows that complete a megabyte, and then the size of the
  data; this is the size the reader of a dump takes from it. The writer reports no error if memory does not run out. The rows and both files
  have to fit into 64-bit numbers.\<close>

theorem dump_in_memory:
  assumes "pool_state heap (pool st)" "file_open (new_file name st c) False = (Inr (), f)" "file_open (new_file name' st c') False = (Inr (), g)"
    "traits_ok t" "initialize_writing (dw_read_metadata t metadata pre) (new_dump_writer (f, g, st) True) = Inr (w, dw)"
    "list_all (dialect_fits t w) rows" "sum_list (map (\<lambda>r. length (dw_row_text t w r)) rows) + 2 * m_block_size (pool st) < 2 ^ 64"
    "8 * length rows + 8 + 2 * m_block_size (pool st) < 2 ^ 64"
  shows "(\<forall>result dw1 dw2.
      write_rows (memory_io heap path) (dw_store_row t w) rows acc dw = (Inr result, dw1) \<and> dump_close (memory_io heap path) dw1 = (Inr (), dw2) \<longrightarrow>
      (\<exists>f' g' st'. m_files dw2 = (f', g', st') \<and> file_data f' st' = concat (map (dw_row_text t w) rows) \<and>
         file_data g' st' =
           concat (map index_entry (marks 0 (map (\<lambda>r. length (dw_row_text t w r)) rows))) @ index_entry (length (file_data f' st')) \<and>
         index_data_size (file_data g' st') = length (file_data f' st'))) \<and>
    ((\<forall>ms. heap ms \<noteq> None) \<longrightarrow> (\<exists>result dw1 dw2.
      write_rows (memory_io heap path) (dw_store_row t w) rows acc dw = (Inr result, dw1) \<and> dump_close (memory_io heap path) dw1 = (Inr (), dw2)))"
proof (intro conjI allI impI)
  let ?n = "sum_list (map (\<lambda>r. length (dw_row_text t w r)) rows)" and ?m = "8 * length rows + 8"
  note b = dump_begins [OF assms(1-5,7,8)]
  have n: "?n < 2 ^ 64" using assms(7) by simp
  {
    fix result dw1 dw2
    assume "write_rows (memory_io heap path) (dw_store_row t w) rows acc dw = (Inr result, dw1) \<and> dump_close (memory_io heap path) dw1 = (Inr (), dw2)"
    then obtain f' g' st' where fs: "m_files dw2 = (f', g', st')" "file_data f' st' = concat (map (dw_row_text t w) rows)"
        "file_data g' st' = concat (map index_entry (marks 0 (map (\<lambda>r. length (dw_row_text t w r)) rows))) @ index_entry ?n"
      using dialect_dump.dump_ok [OF b(1) assms(6) le_refl le_refl n] b(2-4) by (cases "m_files dw2") fastforce
    moreover have "length (file_data f' st') = ?n" using fs(2) by (simp add: length_concat comp_def)
    moreover have "index_data_size (file_data g' st') = ?n"
      unfolding fs(3) using n index_entries_length by (intro index_data_size_last) simp_all
    ultimately show "\<exists>f' g' st'. m_files dw2 = (f', g', st') \<and> file_data f' st' = concat (map (dw_row_text t w) rows) \<and>
         file_data g' st' =
           concat (map index_entry (marks 0 (map (\<lambda>r. length (dw_row_text t w r)) rows))) @ index_entry (length (file_data f' st')) \<and>
         index_data_size (file_data g' st') = length (file_data f' st')"
      by auto
  next
    assume "\<forall>ms. heap ms \<noteq> None"
    then have "heap_total heap" by (simp add: heap_total_def)
    from dump_total.dump_succeeds [OF dialect_dump_total [OF this] b(1) assms(6) le_refl le_refl n]
    show "\<exists>result dw1 dw2. write_rows (memory_io heap path) (dw_store_row t w) rows acc dw = (Inr result, dw1) \<and>
        dump_close (memory_io heap path) dw1 = (Inr (), dw2)" .
  }
qed

text \<open>The example: a column of strings, a row that completes a megabyte and a short one.\<close>

definition string_writer :: dialect_writer where
  "string_writer = \<lparr>dw_is_string_type = [True], dw_is_number_type = [False], dw_needs_escape = [FULL]\<rparr>"

definition two_rows :: "string option list list" where
  "two_rows = [[Some (replicate (2 ^ 20) (CHR ''a''))], [Some ''b'']]"

lemma string_row_text: "dw_row_text default_dialect string_writer [Some (replicate n c)] = replicate n c @ [CHR 0x0A]" if "c \<in> set ''ab''"
proof -
  have "dw_escape_byte default_dialect c = [c]"
    using that by (auto simp: dw_escape_byte_def should_escape_def default_dialect_def)
  then have "concat (map (dw_escape_byte default_dialect) (replicate n c)) = replicate n c" by (induction n) simp_all
  then show ?thesis
    by (simp add: dw_row_text_def dw_field_text_def dw_value_text_def dw_quote_text_def dw_data_text_def string_writer_def default_dialect_def)
qed

lemma two_rows_text:
  "map (dw_row_text default_dialect string_writer) two_rows = [replicate (2 ^ 20) (CHR ''a'') @ [CHR 0x0A], ''b'' @ [CHR 0x0A]]"
  using string_row_text [of "CHR ''a''" "2 ^ 20"] string_row_text [of "CHR ''b''" 1] by (simp add: two_rows_def)

lemma two_rows_lengths: "map (\<lambda>r. length (dw_row_text default_dialect string_writer r)) two_rows = [1048577, 2]"
proof -
  have "map (\<lambda>r. length (dw_row_text default_dialect string_writer r)) two_rows =
      map length (map (dw_row_text default_dialect string_writer) two_rows)" by simp
  then show ?thesis unfolding two_rows_text by simp
qed

lemma two_rows_fit: "list_all (dialect_fits default_dialect string_writer) two_rows"
  by (simp add: two_rows_def dialect_fits_def string_writer_def dw_reserved_def quoted_length_def default_dialect_def)

theorem dump_in_memory_witness:
  "\<exists>dw result dw1 dw2 f' g' st'.
     initialize_writing (dw_read_metadata default_dialect [String] []) (new_dump_writer (small_file False, small_file False, small_store) True) =
       Inr (string_writer, dw) \<and>
     write_rows (memory_io (bump_heap 8) ''t.tsv'') (dw_store_row default_dialect string_writer) two_rows
       \<lparr>m_data_bytes = 0, m_written = 0, m_rows_written = 0\<rparr> dw = (Inr result, dw1) \<and>
     dump_close (memory_io (bump_heap 8) ''t.tsv'') dw1 = (Inr (), dw2) \<and> m_files dw2 = (f', g', st') \<and>
     file_data f' st' = replicate (2 ^ 20) (CHR ''a'') @ [CHR 0x0A] @ ''b'' @ [CHR 0x0A] \<and>
     file_data g' st' = index_entry 1048577 @ index_entry 1048579 \<and> index_data_size (file_data g' st') = 1048579"
proof -
  let ?f = "small_file False" and ?t = default_dialect and ?w = string_writer and ?io = "memory_io (bump_heap 8) ''t.tsv''"
  let ?dw = "(new_dump_writer (?f, ?f, small_store) True)\<lparr>m_buffer := new_buffer\<lparr>m_fixed_length := 1, m_fixed_length_remaining := 1\<rparr>\<rparr>"
  let ?acc = "\<lparr>m_data_bytes = 0, m_written = 0, m_rows_written = 0\<rparr>"
  have i: "initialize_writing (dw_read_metadata ?t [String] []) (new_dump_writer (?f, ?f, small_store) True) = Inr (?w, ?dw)"
    by (simp add: initialize_writing_def new_dump_writer_def dw_read_metadata_def set_fixed_length_def will_write_def new_buffer_def default_dialect_def
        string_writer_def dw_column_needs_escape_def is_string_type_def)
  have "sum_list (map (\<lambda>r. length (dw_row_text ?t ?w r)) two_rows) + 2 * m_block_size (pool small_store) < 2 ^ 64"
    unfolding two_rows_lengths by (simp add: small_store_def small_pool_block_size)
  moreover have "8 * length two_rows + 8 + 2 * m_block_size (pool small_store) < 2 ^ 64"
    by (simp add: two_rows_def small_store_def small_pool_block_size)
  ultimately have d: "(\<forall>result dw1 dw2. write_rows ?io (dw_store_row ?t ?w) two_rows ?acc ?dw = (Inr result, dw1) \<and> dump_close ?io dw1 = (Inr (), dw2) \<longrightarrow>
      (\<exists>f' g' st'. m_files dw2 = (f', g', st') \<and> file_data f' st' = concat (map (dw_row_text ?t ?w) two_rows) \<and>
         file_data g' st' = concat (map index_entry (marks 0 (map (\<lambda>r. length (dw_row_text ?t ?w r)) two_rows))) @ index_entry (length (file_data f' st')) \<and>
         index_data_size (file_data g' st') = length (file_data f' st'))) \<and>
    ((\<forall>ms. bump_heap 8 ms \<noteq> None) \<longrightarrow>
      (\<exists>result dw1 dw2. write_rows ?io (dw_store_row ?t ?w) two_rows ?acc ?dw = (Inr result, dw1) \<and> dump_close ?io dw1 = (Inr (), dw2)))"
    by (rule dump_in_memory [OF small_file_ok(2) small_open small_open named_traits(1) i two_rows_fit])
  then obtain result dw1 dw2 where w: "write_rows ?io (dw_store_row ?t ?w) two_rows ?acc ?dw = (Inr result, dw1)" "dump_close ?io dw1 = (Inr (), dw2)"
    by (auto simp: bump_heap_def)
  obtain f' g' st' where fs: "m_files dw2 = (f', g', st')" "file_data f' st' = concat (map (dw_row_text ?t ?w) two_rows)"
      "file_data g' st' = concat (map index_entry (marks 0 (map (\<lambda>r. length (dw_row_text ?t ?w r)) two_rows))) @ index_entry (length (file_data f' st'))"
      "index_data_size (file_data g' st') = length (file_data f' st')"
    using d w by blast
  have "marks 0 [1048577, 2] = [1048577]" by (simp add: k_write_idx_every_def)
  moreover have data: "file_data f' st' = replicate (2 ^ 20) (CHR ''a'') @ [CHR 0x0A] @ ''b'' @ [CHR 0x0A]" using fs(2) unfolding two_rows_text by simp
  moreover have "length (file_data f' st') = 1048579" unfolding data by simp
  ultimately have "file_data g' st' = index_entry 1048577 @ index_entry 1048579" "index_data_size (file_data g' st') = 1048579"
    using fs(3,4) unfolding two_rows_lengths by (simp_all del: marks.simps)
  then show ?thesis using i w fs(1) data by blast
qed

end
