(* ===== verification/Dump_Scan.thy ===== *)
theory Dump_Scan
  imports Dump_Files Scanner_Blocks
begin

text \<open>
  What the dump writers write is what the scanner of the import utility reads: the text of the rows is split at the rows, and nowhere
  else, whatever the values are and wherever the file is cut into blocks.
\<close>

section \<open>Passing over text\<close>

text \<open>The separators can be told apart by their first characters.\<close>

definition separators_ok :: "dialect \<Rightarrow> bool" where
  "separators_ok d \<longleftrightarrow>
     lines_terminated_by d \<noteq> [] \<and> fields_terminated_by d \<noteq> [] \<and> lines_starting_by d = [] \<and>
     hd (lines_terminated_by d) \<noteq> hd (fields_terminated_by d) \<and>
     first_char (fields_escaped_by d) \<notin> {Chr (hd (lines_terminated_by d)), Chr (hd (fields_terminated_by d))} \<and>
     first_char (fields_enclosed_by d) \<notin> {Chr (hd (lines_terminated_by d)), Chr (hd (fields_terminated_by d))} \<and>
     (fields_enclosed_by d = [] \<or> first_char (fields_escaped_by d) \<noteq> first_char (fields_enclosed_by d)) \<and> length (fields_enclosed_by d) \<le> 1"

definition passes :: "dialect \<Rightarrow> chr \<Rightarrow> string \<Rightarrow> bool" where
  "passes d q s \<longleftrightarrow> (\<forall>p r. row_starts d (0, FIELD, q) p (s @ r) = row_starts d (0, FIELD, q) (p + length s) r)"

lemma row_starts_step:
  "ref_step d c r = Some (n, c') \<Longrightarrow>
     row_starts d c p r = (if fst c = 0 \<and> fst (snd c) = BEGIN then [p] else []) @ row_starts d c' (p + n) (drop n r)"
  by (subst row_starts.simps) simp

lemma row_starts_Nil: "row_starts d c p [] = []"
  by (subst row_starts.simps) (cases c, simp add: ref_step_def)

lemma passes_Nil: "passes d q []"
  by (simp add: passes_def)

lemma passes_append: "passes d q s \<Longrightarrow> passes d q s' \<Longrightarrow> passes d q (s @ s')"
  by (simp add: passes_def add.assoc)

lemma passes_concat: "(\<And>x. x \<in> set xs \<Longrightarrow> passes d q (f x)) \<Longrightarrow> passes d q (concat (map f xs))"
  by (induction xs) (simp_all add: passes_Nil passes_append)

lemma passes_item:
  assumes "\<And>r. field_item d q (s @ r) = Plain (length s)" "s \<noteq> []"
  shows "passes d q s"
proof -
  have "row_starts d (0, FIELD, q) p (s @ r) = row_starts d (0, FIELD, q) (p + length s) r" for p r
    using row_starts_step [of d "(0, FIELD, q)" "s @ r" "length s" "(0, FIELD, q)"] assms by (simp add: ref_step_def)
  then show ?thesis by (simp add: passes_def)
qed


lemma passes_char:
  assumes "separators_ok d" "Chr c \<noteq> first_char (fields_escaped_by d)"
    "if q = Not_used then c \<noteq> hd (lines_terminated_by d) \<and> c \<noteq> hd (fields_terminated_by d) else Chr c \<noteq> q"
  shows "passes d q [c]"
proof (rule passes_item)
  have miss: "look_for s (c # r) = Missed" if "s \<noteq> []" "c \<noteq> hd s" for s r
    using that by (cases s) (auto simp: look_for_def)
  show "field_item d q ([c] @ r) = Plain (length [c])" for r
    using assms miss by (auto simp: field_item_def char_item_def separators_ok_def split: if_splits)
qed simp

lemma passes_doubled:
  assumes "separators_ok d" "Chr c \<noteq> first_char (fields_escaped_by d)"
  shows "passes d (Chr c) [c, c]"
  by (rule passes_item) (use assms in \<open>auto simp: field_item_def char_item_def\<close>)

section \<open>Cells and rows\<close>

text \<open>The text of a value, enclosed or not.\<close>

definition cell :: "dialect \<Rightarrow> string \<Rightarrow> bool" where
  "cell d s \<longleftrightarrow>
     passes d Not_used s \<and> (s = [] \<or> Chr (hd s) \<noteq> first_char (fields_enclosed_by d)) \<or>
     (\<exists>q u. fields_enclosed_by d = [q] \<and> s = q # u @ [q] \<and> passes d (Chr q) u)"

text \<open>The start of a field and of a row.\<close>

lemma field_begins:
  assumes "r \<noteq> []"
  shows "row_starts d (0, BEGIN_OF_FIELD, q) p r =
    (if Chr (hd r) = first_char (fields_enclosed_by d) then row_starts d (0, FIELD, Chr (hd r)) (p + 1) (tl r)
     else row_starts d (0, FIELD, Not_used) p r)"
  using assms by (subst row_starts.simps) (simp add: ref_step_def drop_Suc)

lemma row_begins:
  assumes "r \<noteq> []" "lines_starting_by d = []"
  shows "row_starts d (0, BEGIN, q) p r = p # row_starts d (0, BEGIN_OF_FIELD, q) p r"
  using assms row_starts_step [of d "(0, BEGIN, q)" r 0 "(0, PREFIX, q)" p] row_starts_step [of d "(0, PREFIX, q)" r 0 "(0, BEGIN_OF_FIELD, q)" p]
  by (simp add: ref_step_def)

lemma found: "s \<noteq> [] \<Longrightarrow> look_for s (s @ r) = Found"
  by (simp add: look_for_def)

lemma missed: "s \<noteq> [] \<Longrightarrow> t \<noteq> [] \<Longrightarrow> hd s \<noteq> hd t \<Longrightarrow> look_for s (t @ r) = Missed"
  by (cases s; cases t) (auto simp: look_for_def)

text \<open>A terminator, behind a closing quote or not.\<close>

lemma ends_item:
  assumes "separators_ok d" "q = Not_used \<and> pre = [] \<or> (\<exists>c. fields_enclosed_by d = [c] \<and> q = Chr c \<and> pre = [c])"
  shows "field_item d q (pre @ fields_terminated_by d @ r) = End_field (length pre + length (fields_terminated_by d))"
    "field_item d q (pre @ lines_terminated_by d @ r) = End_line (length pre + length (lines_terminated_by d))"
proof -
  let ?F = "fields_terminated_by d" and ?L = "lines_terminated_by d"
  obtain f F l L where fl: "?F = f # F" "?L = l # L" using assms(1) by (cases ?F; cases ?L) (auto simp: separators_ok_def)
  have s: "f \<noteq> l" "first_char (fields_escaped_by d) \<noteq> Chr f" "first_char (fields_escaped_by d) \<noteq> Chr l"
      "first_char (fields_enclosed_by d) \<noteq> Chr f" "first_char (fields_enclosed_by d) \<noteq> Chr l"
      "fields_enclosed_by d \<noteq> [] \<longrightarrow> first_char (fields_escaped_by d) \<noteq> first_char (fields_enclosed_by d)"
    using assms(1) fl by (auto simp: separators_ok_def)
  have look: "look_for ?L (?L @ r) = Found" "look_for ?F (?F @ r) = Found" "look_for ?L (?F @ r) = Missed"
    using found [of ?L r] found [of ?F r] missed [of ?L ?F r] s(1) fl by simp_all
  show "field_item d q (pre @ ?F @ r) = End_field (length pre + length ?F)" "field_item d q (pre @ ?L @ r) = End_line (length pre + length ?L)"
    using assms(2) s look fl by (auto simp: field_item_def char_item_def first_char_def)
qed

lemma cell_cases:
  assumes "cell d s"
  obtains (bare) "passes d Not_used s" "s = [] \<or> Chr (hd s) \<noteq> first_char (fields_enclosed_by d)"
  | (enclosed) q u where "fields_enclosed_by d = [q]" "s = q # u @ [q]" "passes d (Chr q) u"
  using assms by (auto simp: cell_def)

lemma cell_ends:
  assumes "separators_ok d" "cell d s" "t = fields_terminated_by d \<and> st = BEGIN_OF_FIELD \<or> t = lines_terminated_by d \<and> st = BEGIN"
  shows "\<exists>q'. row_starts d (0, BEGIN_OF_FIELD, q) p (s @ t @ r) = row_starts d (0, st, q') (p + length s + length t) r"
  using assms(2)
proof (cases rule: cell_cases)
  case bare
  have t: "t \<noteq> []" "Chr (hd t) \<noteq> first_char (fields_enclosed_by d)" using assms(1,3) by (auto simp: separators_ok_def)
  have "row_starts d (0, BEGIN_OF_FIELD, q) p (s @ t @ r) = row_starts d (0, FIELD, Not_used) p (s @ t @ r)"
    using field_begins [of "s @ t @ r"] bare(2) t by (cases s) auto
  also have "\<dots> = row_starts d (0, FIELD, Not_used) (p + length s) (t @ r)" using bare(1) by (simp add: passes_def)
  also have "\<dots> = row_starts d (0, st, Not_used) (p + length s + length t) r"
    using row_starts_step [of d "(0, FIELD, Not_used)" "t @ r" "length t" "(0, st, Not_used)"] ends_item [OF assms(1), of Not_used "[]" r] assms(3) t(1)
    by (auto simp: ref_step_def)
  finally show ?thesis by blast
next
  case (enclosed c u)
  have "row_starts d (0, BEGIN_OF_FIELD, q) p (s @ t @ r) = row_starts d (0, FIELD, Chr c) (p + 1) (u @ [c] @ t @ r)"
    using field_begins [of "s @ t @ r"] enclosed(1,2) by (simp add: first_char_def)
  also have "\<dots> = row_starts d (0, FIELD, Chr c) (p + 1 + length u) ([c] @ t @ r)" using enclosed(3) by (simp add: passes_def)
  also have "\<dots> = row_starts d (0, st, Chr c) (p + 1 + length u + (1 + length t)) r"
    using row_starts_step [of d "(0, FIELD, Chr c)" "[c] @ t @ r" "1 + length t" "(0, st, Chr c)" "p + 1 + length u"]
      ends_item [OF assms(1), of "Chr c" "[c]" r] assms(3) enclosed(1)
    by (auto simp: ref_step_def)
  finally show ?thesis using enclosed(2) by (intro exI [of _ "Chr c"]) (simp add: add.assoc)
qed

text \<open>The fields of a row behind the first one, and the row.\<close>

lemma fields_end:
  assumes "separators_ok d" "\<And>i. i \<in> set is \<Longrightarrow> cell d (v i)" "cell d s"
  shows "\<exists>q'. row_starts d (0, BEGIN_OF_FIELD, q) p (s @ concat (map (\<lambda>i. fields_terminated_by d @ v i) is) @ lines_terminated_by d @ r) =
    row_starts d (0, BEGIN, q') (p + length s + length (concat (map (\<lambda>i. fields_terminated_by d @ v i) is)) + length (lines_terminated_by d)) r"
  using assms(2,3)
proof (induction "is" arbitrary: s p q)
  case Nil
  then show ?case using cell_ends [OF assms(1), of s "lines_terminated_by d" BEGIN] by simp
next
  case (Cons i "is")
  let ?r = "concat (map (\<lambda>i. fields_terminated_by d @ v i) is) @ lines_terminated_by d @ r"
  obtain q1 where "row_starts d (0, BEGIN_OF_FIELD, q) p (s @ fields_terminated_by d @ (v i @ ?r)) =
      row_starts d (0, BEGIN_OF_FIELD, q1) (p + length s + length (fields_terminated_by d)) (v i @ ?r)"
    using cell_ends [OF assms(1) Cons(3)] by blast
  moreover have "\<exists>q'. row_starts d (0, BEGIN_OF_FIELD, q1) (p + length s + length (fields_terminated_by d)) (v i @ ?r) =
      row_starts d (0, BEGIN, q') (p + length s + length (fields_terminated_by d) + length (v i) +
        length (concat (map (\<lambda>i. fields_terminated_by d @ v i) is)) + length (lines_terminated_by d)) r"
    by (rule Cons(1)) (use Cons(2) in auto)
  ultimately show ?case by (auto simp: add.assoc)
qed

lemma row_passed:
  assumes "separators_ok d" "\<And>i. i < n \<Longrightarrow> cell d (v i)" "cell d []"
    "s = concat (map (\<lambda>i. (if i \<noteq> 0 then fields_terminated_by d else []) @ v i) [0 ..< n]) @ lines_terminated_by d"
  shows "\<exists>q'. row_starts d (0, BEGIN, q) p (s @ r) = p # row_starts d (0, BEGIN, q') (p + length s) r"
proof -
  have d: "lines_starting_by d = []" "lines_terminated_by d \<noteq> []" using assms(1) by (auto simp: separators_ok_def)
  obtain x xs where x: "s = x @ concat (map (\<lambda>i. fields_terminated_by d @ v i) xs) @ lines_terminated_by d" "cell d x" "\<forall>i \<in> set xs. cell d (v i)"
  proof (cases n)
    case 0
    then show thesis using that [of "[]" "[]"] assms(3,4) by simp
  next
    case (Suc m)
    have "map (\<lambda>i. (if i \<noteq> 0 then fields_terminated_by d else []) @ v i) [0 ..< n] = v 0 # map (\<lambda>i. fields_terminated_by d @ v i) [1 ..< n]"
      using Suc by (simp add: upt_conv_Cons del: upt_Suc)
    moreover have "\<forall>i \<in> set [1 ..< n]. cell d (v i)" "cell d (v 0)" using assms(2) Suc by auto
    ultimately show thesis using that [of "v 0" "[1 ..< n]"] assms(4) by simp
  qed
  have "s @ r \<noteq> []" using x(1) d(2) by simp
  then have "row_starts d (0, BEGIN, q) p (s @ r) = p # row_starts d (0, BEGIN_OF_FIELD, q) p (s @ r)" using row_begins d(1) by blast
  then show ?thesis using fields_end [OF assms(1), of xs v x q p r] x by (auto simp: add.assoc)
qed

text \<open>Where rows of the given lengths start.\<close>

fun starts :: "nat \<Rightarrow> nat list \<Rightarrow> nat list" where
  "starts p [] = []"
| "starts p (l # ls) = p # starts (p + l) ls"

lemma rows_found:
  assumes "\<And>x p q r. x \<in> set xs \<Longrightarrow> \<exists>q'. row_starts d (0, BEGIN, q) p (f x @ r) = p # row_starts d (0, BEGIN, q') (p + length (f x)) r"
  shows "row_starts d (0, BEGIN, q) p (concat (map f xs)) = starts p (map (\<lambda>x. length (f x)) xs)"
  using assms
proof (induction xs arbitrary: p q)
  case (Cons x xs)
  obtain q' where "row_starts d (0, BEGIN, q) p (f x @ concat (map f xs)) = p # row_starts d (0, BEGIN, q') (p + length (f x)) (concat (map f xs))"
    using Cons(2) [of x q p "concat (map f xs)"] by auto
  moreover have "row_starts d (0, BEGIN, q') (p + length (f x)) (concat (map f xs)) = starts (p + length (f x)) (map (\<lambda>x. length (f x)) xs)"
    by (rule Cons(1)) (use Cons(2) in auto)
  ultimately show ?case by simp
qed (simp add: row_starts_Nil)

section \<open>Skipped rows\<close>










section \<open>The compiled writers\<close>













section \<open>Files in the style of RFC 4180\<close>

lemma rfc_separators_ok: "separators_ok csv_rfc_unix"
  by (simp add: separators_ok_def first_char_def csv_rfc_unix_def)

lemma rfc_first_chars: "first_char (fields_escaped_by csv_rfc_unix) = Not_used" "first_char (fields_enclosed_by csv_rfc_unix) = Chr (CHR 0x22)"
  by (simp_all add: first_char_def csv_rfc_unix_def)

lemma rfc_bare_cell:
  assumes "\<not> list_ex (\<lambda>c. c \<in> {CHR 0x22, CHR '','', CHR 0x0A}) s"
  shows "cell csv_rfc_unix s"
proof -
  have "passes csv_rfc_unix Not_used [c]" if "c \<in> set s" for c
    using that assms passes_char [OF rfc_separators_ok, of c Not_used] by (auto simp: rfc_first_chars list_ex_iff)
  then have "passes csv_rfc_unix Not_used (concat (map (\<lambda>c. [c]) s))" by (rule passes_concat)
  moreover have "s = [] \<or> hd s \<noteq> CHR 0x22" using assms by (cases s) auto
  ultimately show ?thesis by (simp add: cell_def rfc_first_chars)
qed

lemma rfc_enclosed_cell: "cell csv_rfc_unix (CHR 0x22 # doubled (CHR 0x22) data @ [CHR 0x22])"
proof -
  have "passes csv_rfc_unix (Chr (CHR 0x22)) (if c = CHR 0x22 then [CHR 0x22, CHR 0x22] else [c])" for c
    using passes_char [OF rfc_separators_ok, of c "Chr (CHR 0x22)"] passes_doubled [OF rfc_separators_ok, of "CHR 0x22"] by (simp add: rfc_first_chars)
  then have "passes csv_rfc_unix (Chr (CHR 0x22)) (doubled (CHR 0x22) data)" unfolding doubled_def by (intro passes_concat)
  moreover have "fields_enclosed_by csv_rfc_unix = [CHR 0x22]" by (simp add: csv_rfc_unix_def)
  ultimately show ?thesis by (auto simp: cell_def)
qed

lemma rfc_value_cell:
  assumes "bare_ok csv_rfc_unix w idx v"
  shows "cell csv_rfc_unix (fw_value_text csv_rfc_unix w idx v)"
proof (cases "\<exists>data. v = Some data \<and> \<not> (fw_is_numeric w ! idx \<and> not_a_number data)")
  case False
  then have "fw_value_text csv_rfc_unix w idx v = ''NULL''" by (auto simp: fw_value_text_def split: option.split)
  then show ?thesis using rfc_bare_cell [of "''NULL''"] by simp
next
  case True
  then obtain data where v: "v = Some data" "\<not> (fw_is_numeric w ! idx \<and> not_a_number data)" by blast
  let ?s = "if fw_needs_escape w ! idx = BASE64 then strip_lines data else data"
  have tx: "fw_value_text csv_rfc_unix w idx v = fw_data_text csv_rfc_unix w idx data"
    using v by (auto simp: fw_value_text_def fw_quote_text_def)
  have bare: "cell csv_rfc_unix s" if "\<not> enclosed csv_rfc_unix s" for s
    using rfc_bare_cell [of s] that by (simp add: enclosed_def)
  show ?thesis
  proof (cases "fw_needs_escape w ! idx = FULL \<and> enclosed csv_rfc_unix data")
    case True
    then show ?thesis using tx rfc_enclosed_cell [of data] by (simp add: fw_data_text_def Let_def)
  next
    case False
    then have "\<not> enclosed csv_rfc_unix ?s" using assms v by (auto simp: bare_ok_def stored_value_def)
    moreover have "fw_data_text csv_rfc_unix w idx data = ?s"
      using False doubled_plain [of "CHR 0x22" data]
      by (cases "fw_needs_escape w ! idx") (auto simp: fw_data_text_def Let_def enclosed_def list_ex_iff)
    ultimately show ?thesis using tx bare by simp
  qed
qed

text \<open>C31: files in the style of RFC 4180 are split by the scanner at their rows, although values may contain line ends.\<close>

theorem rfc_rows_scanned:
  assumes "list_all (\<lambda>row. list_all (\<lambda>i. bare_ok csv_rfc_unix w i (row ! i)) [0 ..< length (fw_needs_escape w)]) rows"
    "new_scanner csv_rfc_unix 0 = Inr sc" "[] \<notin> set bs" "concat bs = concat (map (fw_row_text csv_rfc_unix w) rows)"
  shows "\<exists>sc'. scan_blocks bs sc = Inr (first_rows (starts 0 (map (\<lambda>r. length (fw_row_text csv_rfc_unix w r)) rows)) 0 bs, sc')"
proof -
  let ?n = "length (fw_needs_escape w)"
  have "\<exists>q'. row_starts csv_rfc_unix (0, BEGIN, q) p (fw_row_text csv_rfc_unix w row @ r) =
      p # row_starts csv_rfc_unix (0, BEGIN, q') (p + length (fw_row_text csv_rfc_unix w row)) r" if "row \<in> set rows" for row p q r
  proof (rule row_passed [OF rfc_separators_ok])
    show "cell csv_rfc_unix (fw_value_text csv_rfc_unix w i (row ! i))" if "i < ?n" for i
      using rfc_value_cell assms(1) \<open>row \<in> set rows\<close> that by (simp add: list_all_iff)
    show "cell csv_rfc_unix []" using passes_Nil by (simp add: cell_def)
    show "fw_row_text csv_rfc_unix w row =
      concat (map (\<lambda>i. (if i \<noteq> 0 then fields_terminated_by csv_rfc_unix else []) @ fw_value_text csv_rfc_unix w i (row ! i)) [0 ..< ?n]) @ lines_terminated_by csv_rfc_unix"
      by (simp add: fw_row_text_def fw_field_text_def [abs_def])
  qed
  then have "row_starts csv_rfc_unix (0, BEGIN, Not_used) 0 (concat (map (fw_row_text csv_rfc_unix w) rows)) =
      starts 0 (map (\<lambda>r. length (fw_row_text csv_rfc_unix w r)) rows)"
    by (rule rows_found)
  then show ?thesis
    using scan_blocks_rows [OF new_scanner_idle(1) [OF assms(2)] assms(3) named_dialects_aligned, of 0 0] new_scanner_idle(2,3) [OF assms(2)] assms(4) by simp
qed

theorem rfc_rows_scanned_witness:
  "\<exists>sc sc'. new_scanner csv_rfc_unix 0 = Inr sc \<and>
     scan_blocks [[CHR 0x22] @ ''a'' @ [CHR 0x0A], ''b'' @ [CHR 0x22, CHR 0x0A] @ ''NULL'', [CHR 0x0A]] sc = Inr ([0, 3, -1], sc')"
proof -
  let ?w = "\<lparr>fw_is_numeric = [False], fw_needs_escape = [FULL]\<rparr>"
  let ?rows = "[[Some [CHR ''a'', CHR 0x0A, CHR ''b'']], [None]]"
  let ?bs = "[[CHR 0x22] @ ''a'' @ [CHR 0x0A], ''b'' @ [CHR 0x22, CHR 0x0A] @ ''NULL'', [CHR 0x0A]]"
  obtain sc where sc: "new_scanner csv_rfc_unix 0 = Inr sc" by (simp add: new_scanner_def csv_rfc_unix_def)
  have tx: "fw_row_text csv_rfc_unix ?w [Some [CHR ''a'', CHR 0x0A, CHR ''b'']] = [CHR 0x22] @ ''a'' @ [CHR 0x0A] @ ''b'' @ [CHR 0x22, CHR 0x0A]"
      "fw_row_text csv_rfc_unix ?w [None] = ''NULL'' @ [CHR 0x0A]"
    by (simp_all add: fw_row_text_def fw_field_text_def fw_value_text_def fw_quote_text_def fw_data_text_def enclosed_def doubled_def Let_def)
  have "list_all (\<lambda>row. list_all (\<lambda>i. bare_ok csv_rfc_unix ?w i (row ! i)) [0 ..< length (fw_needs_escape ?w)]) ?rows"
    by (simp add: bare_ok_def)
  moreover have "concat ?bs = concat (map (fw_row_text csv_rfc_unix ?w) ?rows)" by (simp add: tx)
  ultimately have "\<exists>sc'. scan_blocks ?bs sc = Inr (first_rows (starts 0 (map (\<lambda>r. length (fw_row_text csv_rfc_unix ?w r)) ?rows)) 0 ?bs, sc')"
    using rfc_rows_scanned [of ?w ?rows sc ?bs] sc by simp
  then show ?thesis using sc by (simp add: tx first_row_in_def)
qed

end
