(* ===== verification/Spec2Isabelle.thy ===== *)
theory Spec2Isabelle
  imports Codec Version_Release Mariadb_Gtid Gtid_Set Sql_Wildcard Account Sql_Injection Import_Theorems Trx_Loads Dump_Scan
begin

text \<open>
  \<^bold>\<open>A verification library for MariaDB Shell.\<close>

  MariaDB Shell is a C++ client for MariaDB and MySQL servers: an interactive shell, utilities that dump, load, copy and
  import data, and the administration of replicated servers. Most of the program is I/O (sessions, storage
  back ends, terminals) and calls into interpreters and client libraries. What decides whether that I/O is right is
  a layer of algorithmic code below it, and this library models that layer: how text is cut into tokens
  and statements are put together without injections, how accounts and identifiers are quoted, how replication positions
  are compared and merged, how versions are ordered and upgrade paths computed, how bytes are encoded, how the dump data that
  is streamed between two servers is kept in memory, how the rows of a table become a file and are found in it again, and
  how a file is read by several threads and cut into chunks that are loaded in parallel.

  \<^bold>\<open>Theories.\<close> Paths are relative to \<^verbatim>\<open>src/mysqlshdk/libs\<close>, those that start with \<^verbatim>\<open>util\<close> to \<^verbatim>\<open>src/modules\<close>.

  \<^item> \<^theory_text>\<open>Prelude\<close>: the exceptions and undefined behaviours of the code as the values of \<open>cpp_error\<close>, the result
    monad (\<open>rbind\<close>, \<open>rfold\<close>), \<open>npos\<close>, the search functions of \<^verbatim>\<open>std::string\<close>, the subtraction of \<^verbatim>\<open>size_t\<close> with
    its wrap-around, and the lemmas on lists that the components share.
  \<^item> \<^theory_text>\<open>Str_Util\<close> (\<^verbatim>\<open>utils/utils_string.{h,cc}\<close>): trimming, case, splitting and joining, replacing, quoting, lists in strings.
    Splitting and joining are inverse, the iterating splitter visits the pieces of the splitter, quoting round-trips.
  \<^item> \<^theory_text>\<open>Codec\<close> (\<^verbatim>\<open>utils/utils_string.cc\<close>, \<^verbatim>\<open>utils_encoding.cc\<close>): hexadecimal, bit strings, percent encoding, UTF-8 validation. The
    state machine of the validator accepts exactly the concatenations of well-formed sequences; percent decoding inverts encoding and
    the inputs on which it reads behind its end are characterised.
  \<^item> \<^theory_text>\<open>Version\<close>, \<^theory_text>\<open>Version_Release\<close> (\<^verbatim>\<open>utils/version.{h,cc}\<close>): parsing, printing and ordering of server versions, the
    release model (LTS and innovation series, correspondence of MariaDB and MySQL versions), upgrade distances. Numbers are unbounded;
    for major numbers up to \<open>2 ^ 29\<close> no value leaves the range of an \<^verbatim>\<open>int\<close>.
  \<^item> \<^theory_text>\<open>Std_Map\<close>, \<^theory_text>\<open>Mariadb_Gtid\<close> (\<^verbatim>\<open>mysql/mariadb_gtid.{h,cc}\<close>): MariaDB replication positions over \<^verbatim>\<open>std::map\<close>, which is a
    key-sorted association list. A position is refined to the set of its transactions: containment, intersection,
    merging and counting are those of sets.
  \<^item> \<^theory_text>\<open>Gtid_Set\<close> (\<^verbatim>\<open>mysql/gtid_utils.{h,cc}\<close>): MySQL GTID sets as text. The SQL functions that normalise,
    subtract and compare sets run in the server: they are parameters of the operations that call them.
  \<^item> \<^theory_text>\<open>Lexing\<close>, \<^theory_text>\<open>Sql_Iterator\<close> (\<^verbatim>\<open>utils/utils_lexing.{h,cc}\<close>): the spans of strings, identifiers and comments, and
    the iterator over the significant characters of a statement with its token reader.
  \<^item> \<^theory_text>\<open>Sql_String\<close>, \<^theory_text>\<open>Sql_Format\<close>, \<^theory_text>\<open>Sql_Wildcard\<close> (\<^verbatim>\<open>utils/utils_sqlstring.{h,cc}\<close>): quoting, reserved words, the
    formatter of SQL statements with placeholders, and the matching of LIKE patterns.
  \<^item> \<^theory_text>\<open>Account\<close> (\<^verbatim>\<open>utils/utils_account.{h,cc}\<close>): splitting and printing of account names.
  \<^item> \<^theory_text>\<open>Sql_Injection\<close>: the formatter against the lexer. A value that is put into a statement never changes which
    characters of the statement are code.
  \<^item> \<^theory_text>\<open>Allocator\<close>, \<^theory_text>\<open>Allocated_File\<close> (\<^verbatim>\<open>storage/backend/in_memory/allocator.{h,cc}, allocated_file.{h,cc}\<close>): the block
    allocator and the files kept in its blocks, over an explicit memory. The locale \<open>block_pool\<close> states what
    a client may rely on; the allocator interprets it, and the file is proved on top of it. An operation that fails leaves its file as it was, except
    that a file whose first blocks were released is marked as open when opening it fails.
  \<^item> \<^theory_text>\<open>Sync_Queue\<close> (\<^verbatim>\<open>utils/synchronized_queue.h\<close>): the queue between threads, with priorities and the guards that end its consumers. Elements leave it
    in the order of a stable sort. The locale \<open>task_queue\<close> is the contract for tasks of one priority.
  \<^item> \<^theory_text>\<open>Threaded_File\<close>, \<^theory_text>\<open>Threaded_Reads\<close>, \<^theory_text>\<open>Threaded_Run\<close>, \<^theory_text>\<open>Threaded_Calls\<close>, \<^theory_text>\<open>Threaded_Progress\<close>, \<^theory_text>\<open>Threaded_Theorems\<close>
    (\<^verbatim>\<open>storage/backend/in_memory/threaded_file.{h,cc}\<close>): the file that several threads read ahead into blocks of the allocator. The workers are a step relation, the calls of the
    reader are relations in which steps of the workers come between the accesses to shared state. Whatever the interleaving, the reader gets the content of the file in order, no
    thread follows a dangling pointer, the reader does not wait for ever, and closing ends and releases the blocks.
  \<^item> \<^theory_text>\<open>Dialect\<close> (\<^verbatim>\<open>util/import_table/dialect.{h,cc}\<close>): the separators of a text file, the named dialects, their validation, and
    the clause that tells the server about them.
  \<^item> \<^theory_text>\<open>Scanner\<close>, \<^theory_text>\<open>Scanner_Steps\<close>, \<^theory_text>\<open>Scanner_Rows\<close>, \<^theory_text>\<open>Scanner_Blocks\<close> (\<^verbatim>\<open>util/import_table/scanner.{h,cc}\<close>): the scanner that finds
    the rows of a file which arrives in blocks. Its state is the C++ object: the stack of characters that were given back, the rest of the block, and the status of
    row and field. A reference that sees the whole file defines where rows start; the scanner is simulated by it step by step, finds these rows wherever the file is
    cut, and never overflows its stack.
  \<^item> \<^theory_text>\<open>Import_Chunks\<close>, \<^theory_text>\<open>Import_Memory\<close>, \<^theory_text>\<open>Import_Turns\<close>, \<^theory_text>\<open>Import_Steps\<close>, \<^theory_text>\<open>Import_Theorems\<close> (\<^verbatim>\<open>util/import_table/import_table.cc\<close>,
    \<^verbatim>\<open>load_data.cc\<close>): the import of one file in chunks, put together from the threaded file, the scanner, the allocator and the files in memory. The main thread is a step
    relation whose steps interleave with those of the reading threads, of the loading threads and of other users of the allocator. In every state the queued chunks are
    consecutive parts of the file that start with a row, at the end they make up the file, and a chunk can be sent again when the server has rolled a statement back.
  \<^item> \<^theory_text>\<open>Trx_Buffer\<close>, \<^theory_text>\<open>Trx_Rows\<close>, \<^theory_text>\<open>Trx_Loads\<close> (\<^verbatim>\<open>util/import_table/load_data.{h,cc}\<close>): the buffer that cuts a file into transactions of limited size, and
    the loop that sends them. The locale \<open>row_finder\<close> states what the buffer needs of the searches for the end of a row; the three pairs of searches of the code satisfy it. The
    transactions make up the file, end with a line terminator and keep the limit except for rows that are longer, also when statements are rolled back and sent again; with terminators of several
    characters the limit may be exceeded by less than a terminator, and a request may be answered with too many bytes.
  \<^item> \<^theory_text>\<open>Column\<close> (\<^verbatim>\<open>db/column.{h,cc}\<close>): the types of columns.
  \<^item> \<^theory_text>\<open>Dump_Buffer\<close>, \<^theory_text>\<open>Text_Writer\<close>, \<^theory_text>\<open>Dialect_Writer\<close>, \<^theory_text>\<open>Fast_Writer\<close> (\<^verbatim>\<open>util/dump/dump_writer.{h,cc}, text_dump_writer.{h,cc},
    dialect_dump_writer.h\<close>): the unchecked output buffer and the three kinds of writers that fill it. The locale \<open>row_writer\<close> states what a writer owes the buffer for one
    field; each writer interprets it, and it follows that no row leaves the buffer. The compiled writers for dialects with an escape character (not those for json and RFC 4180
    files) write what the general writer writes; different values are escaped differently unless the dialect is ambiguous; RFC 4180 files are read back by a specification of their rows.
  \<^item> \<^theory_text>\<open>Dump_Index\<close>, \<^theory_text>\<open>Dump_Writer\<close> (\<^verbatim>\<open>util/dump/dump_writer.cc, util/load/dump_reader.cc\<close>, \<^verbatim>\<open>utils/utils_net.cc\<close>): the output file, the index of
    offsets in network byte order, and the reader of the index. The locales \<open>dump_files\<close> and \<open>row_store\<close> are the contracts of the files and of the writers; \<open>dump_total\<close>
    adds that writes succeed.
  \<^item> \<^theory_text>\<open>Dump_Files\<close>: the writers on files in memory that share an allocator; interprets the contracts on \<^theory_text>\<open>Allocated_File\<close> and the three writers.
  \<^item> \<^theory_text>\<open>Dump_Scan\<close>: the writers against the scanner. A file that was written is split at its rows and nowhere else.

  \<^bold>\<open>How the code is modelled.\<close> A C++ string is a \<^typ>\<open>string\<close>, an index or size a \<^typ>\<open>nat\<close>, and
  \<^verbatim>\<open>std::string::npos\<close> is \<open>2 ^ 64 - 1\<close>. Where a size is subtracted without a check, the wrap-around of \<^verbatim>\<open>size_t\<close>
  is written out; sequence numbers and ids that can overflow are words of their width. An operation that can throw returns
  a sum, whose left values name the exception and its text. Reading or writing outside of an object is the left
  value \<open>Undefined\<close>: that it does not occur is a theorem, or the inputs on which it occurs are characterised. Objects
  are records that are passed and returned; where an exception leaves an object changed, the operation
  returns the object together with the exception.

  \<^bold>\<open>Loops.\<close> Every loop is a total recursive function with a termination proof. Only the loop over the transactions of a file has fuel: one more than the bytes of the file, and the
  theorem says that this is enough, because every transaction but the last sends at least one byte. Where a
  loop of the code may run forever, the model returns \<open>None\<close> or \<open>Undefined\<close> there, and the theorem says exactly when. Inputs are
  strings in memory, so that lengths stay below \<open>npos\<close>; a theorem that needs this has it as a hypothesis.

  \<^bold>\<open>Parameters.\<close> The addresses that the C++ heap returns (a fresh array that does not overlap a live one, or a failure), the SQL
  functions of the server, the content of the files that are read and the failures of their handles, and the conversion of floating point numbers to text are arguments of the operations that use them. The dump writer takes the operations on its
  files as a record, and the virtual method that stores a row as a function.

  \<^bold>\<open>Concurrency.\<close> Each public operation of the allocator holds its mutex for its whole body, so that an operation is one
  step of the model; the theorem on runs covers all interleavings of the operations of several clients. The same holds for the operations
  of the queue between threads. The workers of the threaded file are an inductive step relation with one rule for each of their accesses to shared state; other threads that use the
  allocator appear as steps that leave the blocks of the file alone. A wait on a condition variable is a step that is enabled when its condition holds; that a
  notification is not lost follows from the lock under which the workers notify, and is not part of the model of the file.

  \<^bold>\<open>Not modelled.\<close> Sessions, storage back ends, REST and cloud services, and the terminal: I/O and calls into libraries. The
  bindings to the script interpreters and the generated SQL grammar. The dumper, the loader, the AdminAPI and the upgrade
  checker as a whole: they drive threads and servers by SQL statements, and what they compute locally is
  mostly built from the operations above. Candidates for extension: the sub-chunks that another thread feeds, the
  splitter of SQL scripts, connection URIs, and the synchronised in-memory files.
\<close>

end
